(* ===== verification/Prelude.thy ===== *)
theory Prelude
  imports Main "HOL-Library.Word" "HOL-Library.Tree"
begin

unbundle bit_operations_syntax

section \<open>Prelude: machine words, failures, and the program monad\<close>

text \<open>
  Shared by every theory of the development.
  \<^item> Pointers and machine integers of the modelled LP64 platform are 64-bit words;
    \<open>NULL\<close> is the zero word.
  \<^item> A C statement that reads or writes memory is a function from a state to either an
    error or a value together with the new state (\<open>prog\<close>). What C leaves undefined or
    ends the process with (a NULL dereference, an access to memory that holds no object of
    the type, a failed \<open>assert\<close>, a lock that is misused or never released, a loop that
    never ends) is a value of the type \<open>error\<close>.
  \<^item> \<open>bnd\<close> is sequential composition, \<open>ret\<close> a value without effect, and \<open>forever\<close> is
    the C loop \<open>for (;;)\<close> whose body ends with \<open>Break\<close> or \<open>Continue\<close>.
\<close>

named_theorems prog_simps \<open>unfolding rules that execute a program symbolically\<close>

subsection \<open>Pointers and failures\<close>

type_synonym addr = "64 word"

abbreviation NULL :: addr where
  "NULL \<equiv> 0"

datatype error =
    NullDeref          \<comment> \<open>a member access through a NULL pointer\<close>
  | BadPtr addr        \<comment> \<open>an access to memory that holds no object of that type\<close>
  | AssertFail         \<comment> \<open>\<open>assert\<close> evaluated to false (the build does not define NDEBUG)\<close>
  | Deadlock           \<comment> \<open>acquiring a simple lock that the program already holds\<close>
  | BadLock            \<comment> \<open>a lock operation outside the states it is defined for\<close>
  | Diverges           \<comment> \<open>a loop that never ends\<close>
  | Abort              \<comment> \<open>a call of \<open>abort\<close>\<close>
  | Segv addr          \<comment> \<open>a memory access that the page protection forbids and no handler takes\<close>
  | BadContext         \<comment> \<open>a switch to an execution context that was never set up\<close>
  | DivByZero          \<comment> \<open>an integer division by zero\<close>

subsection \<open>Programs\<close>

type_synonym ('s, 'a) prog = "'s \<Rightarrow> error + ('a \<times> 's)"

definition ret :: "'a \<Rightarrow> ('s, 'a) prog" where
  "ret x s = Inr (x, s)"

definition bnd :: "('s, 'a) prog \<Rightarrow> ('a \<Rightarrow> ('s, 'b) prog) \<Rightarrow> ('s, 'b) prog" where
  "bnd m f s = (case m s of Inl e \<Rightarrow> Inl e | Inr (x, t) \<Rightarrow> f x t)"

definition fails :: "error \<Rightarrow> ('s, 'a) prog" where
  "fails e s = Inl e"

definition gets :: "('s \<Rightarrow> 'a) \<Rightarrow> ('s, 'a) prog" where
  "gets f s = Inr (f s, s)"

definition modify :: "('s \<Rightarrow> 's) \<Rightarrow> ('s, unit) prog" where
  "modify f s = Inr ((), f s)"

definition assertion :: "bool \<Rightarrow> ('s, unit) prog" where
  "assertion b s = (if b then Inr ((), s) else Inl AssertFail)"

text \<open>The operator \<open>&&\<close>: the second operand is evaluated when the first is true.\<close>

definition andp :: "('s, bool) prog \<Rightarrow> ('s, bool) prog \<Rightarrow> ('s, bool) prog" where
  "andp m n = bnd m (\<lambda>b. if b then n else ret False)"

definition whenp :: "bool \<Rightarrow> ('s, unit) prog \<Rightarrow> ('s, unit) prog" where
  "whenp b m = (if b then m else ret ())"

lemma ret_run [simp, prog_simps]: "ret x s = Inr (x, s)"
  by (simp add: ret_def)

lemma fails_run [simp, prog_simps]: "fails e s = Inl e"
  by (simp add: fails_def)

lemma gets_run [simp, prog_simps]: "gets f s = Inr (f s, s)"
  by (simp add: gets_def)

lemma modify_run [simp, prog_simps]: "modify f s = Inr ((), f s)"
  by (simp add: modify_def)

lemma assertion_run [simp, prog_simps]:
  "assertion b s = (if b then Inr ((), s) else Inl AssertFail)"
  by (simp add: assertion_def)

lemma whenp_simps [simp, prog_simps]: "whenp True m = m" "whenp False m = ret ()"
  by (simp_all add: whenp_def)

lemma bnd_Inr: "m s = Inr (x, t) \<Longrightarrow> bnd m f s = f x t"
  by (simp add: bnd_def)

lemma bnd_Inl: "m s = Inl e \<Longrightarrow> bnd m f s = Inl e"
  by (simp add: bnd_def)

lemma bnd_eq_Inr:
  "bnd m f s = Inr (y, u) \<longleftrightarrow> (\<exists>x t. m s = Inr (x, t) \<and> f x t = Inr (y, u))"
  by (auto simp: bnd_def split: sum.splits)

lemma bnd_ret [simp]: "bnd (ret x) f = f x"
  by (rule ext) (simp add: bnd_def)

lemma bnd_fails [simp]: "bnd (fails e) f = fails e"
  by (rule ext) (simp add: bnd_def)

lemma bnd_assoc: "bnd (bnd m f) g = bnd m (\<lambda>x. bnd (f x) g)"
  by (rule ext) (simp add: bnd_def split: sum.splits prod.splits)

text \<open>Statements in a row.\<close>

definition steps :: "('s, unit) prog list \<Rightarrow> ('s, unit) prog" where
  "steps ps = foldr (\<lambda>p q. bnd p (\<lambda>_. q)) ps (ret ())"

lemma steps_simps [simp, prog_simps]: "steps [] = ret ()" "steps (p # ps) = bnd p (\<lambda>_. steps ps)"
  by (simp_all add: steps_def)

subsection \<open>Counted loops\<close>

text \<open>\<open>for (i = a; i < b; ++i)\<close> with a loop-carried variable is \<open>for_each [a..<b]\<close>.\<close>

fun for_each :: "'i list \<Rightarrow> ('i \<Rightarrow> 'l \<Rightarrow> ('s, 'l) prog) \<Rightarrow> 'l \<Rightarrow> ('s, 'l) prog" where
  "for_each [] body l = ret l"
| "for_each (i # is) body l = bnd (body i l) (for_each is body)"

lemma for_each_append: "for_each (xs @ ys) body = (\<lambda>l. bnd (for_each xs body l) (for_each ys body))"
  by (induction xs; rule ext) (simp_all add: bnd_assoc, simp add: bnd_def)

lemma for_each_snoc:
  assumes "for_each is body l s = Inr (k, t)"
  shows "for_each (is @ [i]) body l s = body i k t"
proof -
  have e: "bnd (body i k) ret t = body i k t" by (simp add: bnd_def ret_def split: sum.split prod.split)
  have n: "for_each [] body = ret" by (rule ext) simp
  have "for_each (is @ [i]) body l s = bnd (for_each is body l) (for_each [i] body) s"
    by (simp only: for_each_append)
  also have "\<dots> = for_each [i] body k t" using assms by (rule bnd_Inr)
  also have "\<dots> = bnd (body i k) ret t" by (simp add: n)
  finally show ?thesis using e by simp
qed

text \<open>A loop keeps what every turn keeps.\<close>

lemma for_each_inv:
  assumes "I m s" and "m \<le> n" and "\<And>i s. m \<le> i \<Longrightarrow> i < n \<Longrightarrow> I i s \<Longrightarrow> \<exists>s'. body i () s = Inr ((), s') \<and> I (Suc i) s'"
  shows "\<exists>s'. for_each [m..<n] body () s = Inr ((), s') \<and> I n s'"
  using assms
proof (induction "n - m" arbitrary: m s)
  case (Suc k)
  have lt: "m < n" "m \<le> m" using Suc.hyps(2) by simp_all
  obtain s1 where s1: "body m () s = Inr ((), s1)" "I (Suc m) s1" using Suc.prems(3) [OF lt(2,1) Suc.prems(1)] by blast
  have "k = n - Suc m" "Suc m \<le> n" using Suc.hyps(2) lt by simp_all
  moreover have "\<exists>s'. body i () s = Inr ((), s') \<and> I (Suc i) s'" if "Suc m \<le> i" "i < n" "I i s" for i s
    using Suc.prems(3) [of i s] that by simp
  ultimately obtain s2 where "for_each [Suc m..<n] body () s1 = Inr ((), s2)" "I n s2" using Suc.hyps(1) [of "Suc m" s1] s1(2) by blast
  then show ?case using s1(1) lt(1) by (simp add: upt_conv_Cons bnd_Inr)
qed simp

subsection \<open>Lists\<close>

lemma filter_neq_id [simp]: "z \<notin> set xs \<Longrightarrow> filter (\<lambda>a. a \<noteq> z) xs = xs"
  by (induction xs) auto

lemma length_filter_neq: "distinct xs \<Longrightarrow> z \<in> set xs \<Longrightarrow> Suc (length (filter (\<lambda>a. a \<noteq> z) xs)) = length xs"
  by (induction xs) auto

subsection \<open>Endless loops with a break\<close>

datatype ('a, 'b) ctrl = Break 'a | Continue 'b

partial_function (option) loop ::
    "('l \<Rightarrow> ('s, ('a, 'l) ctrl) prog) \<Rightarrow> 'l \<Rightarrow> 's \<Rightarrow> (error + 'a \<times> 's) option" where
  "loop body l s =
     (case body l s of
        Inl e \<Rightarrow> Some (Inl e)
      | Inr (c, t) \<Rightarrow>
          (case c of Break x \<Rightarrow> Some (Inr (x, t)) | Continue k \<Rightarrow> loop body k t))"

declare loop.simps [code]

definition forever :: "('l \<Rightarrow> ('s, ('a, 'l) ctrl) prog) \<Rightarrow> 'l \<Rightarrow> ('s, 'a) prog" where
  "forever body l s = (case loop body l s of None \<Rightarrow> Inl Diverges | Some r \<Rightarrow> r)"

lemma forever_unfold:
  "forever body l s =
     (case body l s of
        Inl e \<Rightarrow> Inl e
      | Inr (Break x, t) \<Rightarrow> Inr (x, t)
      | Inr (Continue k, t) \<Rightarrow> forever body k t)"
  by (simp add: forever_def loop.simps [of body l s] split: sum.splits prod.splits ctrl.splits)

lemma forever_Break: "body l s = Inr (Break x, t) \<Longrightarrow> forever body l s = Inr (x, t)"
  by (simp add: forever_unfold)

lemma forever_Continue:
  "body l s = Inr (Continue k, t) \<Longrightarrow> forever body l s = forever body k t"
  by (subst forever_unfold) simp

text \<open>Where a loop that ends was left, and a loop that never is.\<close>

lemma loop_result:
  assumes "loop body l s = Some r" and "r = Inr (x, t)"
  shows "\<exists>k u. body k u = Inr (Break x, t)"
  using assms
proof (induction rule: loop.raw_induct [rotated, consumes 1])
  case (1 loop body l s r)
  show ?case
  proof (cases "body l s")
    case (Inr p)
    then show ?thesis using 1 by (cases p) (auto split: ctrl.splits)
  qed (use 1 in auto)
qed

lemma forever_result:
  assumes "forever body l s = Inr (x, t)"
  shows "\<exists>k u. body k u = Inr (Break x, t)"
  using assms loop_result [of body l s] by (auto simp: forever_def split: option.splits)

lemma loop_never:
  assumes "loop body l s = Some r" and "P l s"
    and step: "\<And>l s. P l s \<Longrightarrow> \<exists>k t. body l s = Inr (Continue k, t) \<and> P k t"
  shows False
  using assms
proof (induction rule: loop.raw_induct [rotated, consumes 1])
  case (1 loop body l s r)
  from 1(4) [OF 1(3)] obtain k t where "body l s = Inr (Continue k, t)" "P k t" by blast
  then show ?case using 1 by auto
qed

lemma forever_diverges:
  assumes "P l s" and "\<And>l s. P l s \<Longrightarrow> \<exists>k t. body l s = Inr (Continue k, t) \<and> P k t"
  shows "forever body l s = Inl Diverges"
proof (cases "loop body l s")
  case (Some r)
  then show ?thesis using loop_never [of body l s r P] assms by blast
qed (simp add: forever_def)

end
