(* ===== verification/Common.thy ===== *)
theory Common
  imports Prelude
begin

section \<open>common.h: locks, virtual memory areas, the page table\<close>

text \<open>
  Models \<open>src/src/common.h\<close>: the simple lock of lines 44-69 in both preprocessor branches,
  \<open>struct vm_area\<close> (which is also \<open>struct sp_node\<close>), \<open>struct sp_tree\<close>, and the memory the
  splay tree works on. Objects of type \<open>struct vm_area\<close> live in a map from addresses; the
  record is extensible, so that the allocator adds its own objects to the same state.
\<close>

subsection \<open>Simple locks\<close>

text \<open>
  With OpenMP (the library is built with \<open>-fopenmp\<close>) a lock is an \<open>omp_lock_t\<close>: it is
  unlocked by \<open>omp_init_lock\<close>, \<open>omp_set_lock\<close> blocks while it is set, and setting,
  unsetting or destroying it in any other state is non-conforming, which is the error \<open>BadLock\<close>
  (GNU libgomp tolerates it and goes on). Without OpenMP every
  operation is the constant 0. The flag \<open>omp\<close> is the preprocessor symbol \<open>_OPENMP\<close>.
\<close>

datatype lock_t = Uninit | Unlocked | Locked

definition lock_init :: "bool \<Rightarrow> lock_t \<Rightarrow> error + lock_t" where
  "lock_init omp l = (if omp then Inr Unlocked else Inr l)"

definition lock_free :: "bool \<Rightarrow> lock_t \<Rightarrow> error + lock_t" where
  "lock_free omp l = (if omp then (if l = Unlocked then Inr Uninit else Inl BadLock) else Inr l)"

definition lock_get :: "bool \<Rightarrow> lock_t \<Rightarrow> error + lock_t" where
  "lock_get omp l =
     (if omp then (case l of Unlocked \<Rightarrow> Inr Locked | Locked \<Rightarrow> Inl Deadlock | Uninit \<Rightarrow> Inl BadLock)
      else Inr l)"

definition lock_let :: "bool \<Rightarrow> lock_t \<Rightarrow> error + lock_t" where
  "lock_let omp l = (if omp then (if l = Locked then Inr Unlocked else Inl BadLock) else Inr l)"

text \<open>\<open>lock_try\<close> is zero when the lock was acquired (line 61 negates \<open>omp_test_lock\<close>).\<close>

definition lock_try :: "bool \<Rightarrow> lock_t \<Rightarrow> error + (nat \<times> lock_t)" where
  "lock_try omp l =
     (if omp then (case l of Unlocked \<Rightarrow> Inr (0, Locked) | Locked \<Rightarrow> Inr (1, Locked) | Uninit \<Rightarrow> Inl BadLock)
      else Inr (0, l))"

definition lock_idle :: "bool \<Rightarrow> lock_t \<Rightarrow> bool" where
  "lock_idle omp l \<longleftrightarrow> (omp \<longrightarrow> l = Unlocked)"

definition lock_held :: "bool \<Rightarrow> lock_t \<Rightarrow> bool" where
  "lock_held omp l \<longleftrightarrow> (omp \<longrightarrow> l = Locked)"

definition got :: "bool \<Rightarrow> lock_t \<Rightarrow> lock_t" where
  "got omp l = (if omp then Locked else l)"

definition released :: "bool \<Rightarrow> lock_t \<Rightarrow> lock_t" where
  "released omp l = (if omp then Unlocked else l)"

text \<open>
  The interface the rest of the library uses: a lock that is set up can be taken, a taken
  lock can be released, and only a released lock may be torn down.
\<close>

locale mutex =
  fixes init :: "lock_t \<Rightarrow> error + lock_t"
    and get :: "lock_t \<Rightarrow> error + lock_t"
    and let_go :: "lock_t \<Rightarrow> error + lock_t"
    and free :: "lock_t \<Rightarrow> error + lock_t"
    and idle :: "lock_t \<Rightarrow> bool"
    and held :: "lock_t \<Rightarrow> bool"
    and take :: "lock_t \<Rightarrow> lock_t"
    and give :: "lock_t \<Rightarrow> lock_t"
  assumes init_idle: "\<exists>l'. init l = Inr l' \<and> idle l'"
    and get_idle: "idle l \<Longrightarrow> get l = Inr (take l)"
    and take_held: "idle l \<Longrightarrow> held (take l)"
    and let_held: "held l \<Longrightarrow> let_go l = Inr (give l)"
    and give_idle: "held l \<Longrightarrow> idle (give l)"
    and free_idle: "idle l \<Longrightarrow> \<exists>l'. free l = Inr l'"
    and round_trip: "idle l \<Longrightarrow> give (take l) = l"
begin

lemma critical_section:
  assumes "idle l"
  shows "\<exists>l'. get l = Inr l' \<and> held l' \<and> let_go l' = Inr l"
  using assms get_idle take_held let_held round_trip by auto

lemma life_cycle: "\<exists>l' l''. init l = Inr l' \<and> get l' = Inr (take l') \<and> let_go (take l') = Inr l' \<and> free l' = Inr l''"
proof -
  obtain l' where l': "init l = Inr l'" "idle l'" using init_idle by blast
  moreover obtain l'' where "free l' = Inr l''" using free_idle l'(2) by blast
  ultimately show ?thesis using get_idle take_held let_held round_trip by auto
qed

end

lemmas lock_defs = lock_init_def lock_free_def lock_get_def lock_let_def lock_try_def
  lock_idle_def lock_held_def got_def released_def

interpretation omp_lock: mutex "lock_init True" "lock_get True" "lock_let True" "lock_free True"
    "lock_idle True" "lock_held True" "got True" "released True"
  by unfold_locales (auto simp: lock_defs)

interpretation int_lock: mutex "lock_init False" "lock_get False" "lock_let False" "lock_free False"
    "lock_idle False" "lock_held False" "got False" "released False"
  by unfold_locales (auto simp: lock_defs)

interpretation any_lock: mutex "lock_init omp" "lock_get omp" "lock_let omp" "lock_free omp"
    "lock_idle omp" "lock_held omp" "got omp" "released omp" for omp
  by (cases omp) (simp_all add: omp_lock.mutex_axioms int_lock.mutex_axioms)

lemma lock_init_run: "lock_init omp l = Inr (released omp l)"
  by (simp add: lock_defs)

lemma got_held [simp]: "lock_held omp (got omp l)"
  by (simp add: lock_defs)

lemma released_idle [simp]: "lock_idle omp (released omp l)"
  by (simp add: lock_defs)

lemma released_got: "lock_idle omp l \<Longrightarrow> released omp (got omp l) = l"
  by (rule any_lock.round_trip)

lemma lock_free_run: "lock_idle omp l \<Longrightarrow> lock_free omp l = Inr (if omp then Uninit else l)"
  by (simp add: lock_defs)

subsection \<open>Virtual memory areas and the splay tree\<close>

record vm_area =
  vm_next :: addr
  vm_prev :: addr
  sp_p :: addr
  sp_l :: addr
  sp_r :: addr
  vm_flags :: "64 word"
  vm_start :: addr
  vm_end :: addr
  vm_lock :: lock_t

record sp_tree =
  root :: addr
  lock :: lock_t

text \<open>
  The state: whether the build defines \<open>_OPENMP\<close>, the value of \<open>sysconf(_SC_PAGESIZE)\<close>, the
  areas in memory, the page table \<open>vma_tree\<close>, and the address of the local node \<open>n\<close> in the
  stack frame of \<open>S_sp_tree_splay\<close> (an address at which no other area is stored).
\<close>

record st =
  openmp :: bool
  OOC_PAGE_SIZE :: "64 word"
  vmas :: "addr \<rightharpoonup> vm_area"
  vma_tree :: sp_tree
  frame_n :: addr

definition rd_vma :: "addr \<Rightarrow> ('z st_scheme, vm_area) prog" where
  "rd_vma p s =
     (if p = NULL then Inl NullDeref
      else case vmas s p of None \<Rightarrow> Inl (BadPtr p) | Some v \<Rightarrow> Inr (v, s))"

definition upd_vma :: "addr \<Rightarrow> (vm_area \<Rightarrow> vm_area) \<Rightarrow> ('z st_scheme, unit) prog" where
  "upd_vma p f =
     bnd (rd_vma p) (\<lambda>v. modify (\<lambda>s. s\<lparr>vmas := (vmas s)(p \<mapsto> f v)\<rparr>))"

definition get_field :: "(vm_area \<Rightarrow> 'a) \<Rightarrow> addr \<Rightarrow> ('z st_scheme, 'a) prog" where
  "get_field f p = bnd (rd_vma p) (\<lambda>v. ret (f v))"

definition upd_lock :: "(bool \<Rightarrow> lock_t \<Rightarrow> error + lock_t) \<Rightarrow> addr \<Rightarrow> ('z st_scheme, unit) prog" where
  "upd_lock op p = bnd (rd_vma p) (\<lambda>v s.
     case op (openmp s) (vm_lock v) of
       Inl e \<Rightarrow> Inl e
     | Inr l \<Rightarrow> Inr ((), s\<lparr>vmas := (vmas s)(p \<mapsto> v\<lparr>vm_lock := l\<rparr>)\<rparr>))"

definition upd_tree_lock :: "(bool \<Rightarrow> lock_t \<Rightarrow> error + lock_t) \<Rightarrow> ('z st_scheme, unit) prog" where
  "upd_tree_lock op s =
     (case op (openmp s) (lock (vma_tree s)) of
        Inl e \<Rightarrow> Inl e
      | Inr l \<Rightarrow> Inr ((), s\<lparr>vma_tree := (vma_tree s)\<lparr>lock := l\<rparr>\<rparr>))"

definition get_root :: "('z st_scheme, addr) prog" where
  "get_root = gets (\<lambda>s. root (vma_tree s))"

definition set_root :: "addr \<Rightarrow> ('z st_scheme, unit) prog" where
  "set_root p = modify (\<lambda>s. s\<lparr>vma_tree := (vma_tree s)\<lparr>root := p\<rparr>\<rparr>)"

lemma rd_vma_run [simp]: "vmas s p = Some v \<Longrightarrow> p \<noteq> NULL \<Longrightarrow> rd_vma p s = Inr (v, s)"
  by (simp add: rd_vma_def)

lemma rd_vma_NULL [simp]: "rd_vma NULL s = Inl NullDeref"
  by (simp add: rd_vma_def)

lemma get_field_run [simp]: "vmas s p = Some v \<Longrightarrow> p \<noteq> NULL \<Longrightarrow> get_field f p s = Inr (f v, s)"
  by (simp add: get_field_def bnd_def)

lemma get_field_NULL [simp]: "get_field f NULL s = Inl NullDeref"
  by (simp add: get_field_def bnd_def)

lemma upd_vma_run [simp]:
  "vmas s p = Some v \<Longrightarrow> p \<noteq> NULL \<Longrightarrow> upd_vma p f s = Inr ((), s\<lparr>vmas := (vmas s)(p \<mapsto> f v)\<rparr>)"
  by (simp add: upd_vma_def bnd_def)

lemma upd_vma_NULL [simp]: "upd_vma NULL f s = Inl NullDeref"
  by (simp add: upd_vma_def bnd_def)

lemma get_root_run [simp]: "get_root s = Inr (root (vma_tree s), s)"
  by (simp add: get_root_def)

lemma set_root_run [simp]:
  "set_root p s = Inr ((), s\<lparr>vma_tree := (vma_tree s)\<lparr>root := p\<rparr>\<rparr>)"
  by (simp add: set_root_def)

end
