(* ===== verification/Sp_Tree.thy ===== *)
theory Sp_Tree
  imports Common
begin

section \<open>sp_tree.c: the operations of the page table\<close>

text \<open>
  Models \<open>src/src/sp_tree.c\<close>: the pointer macros of lines 75-99, the top-down splay, the
  insert and remove helpers, and the exported operations. Every function works on the tree
  \<open>vma_tree\<close> of the state (the argument \<open>sp\<close> of the code: the library has one tree) and on
  the areas in memory. \<open>vma_alloc\<close> and \<open>vma_free\<close>, which another translation unit
  provides, are the arguments \<open>valloc\<close> and \<open>vfree\<close> of the operations that call them.
\<close>

subsection \<open>The pointer macros\<close>

datatype which = SP_L | SP_R

fun set_child :: "which \<Rightarrow> addr \<Rightarrow> vm_area \<Rightarrow> vm_area" where
  "set_child SP_L b v = v\<lparr>sp_l := b\<rparr>"
| "set_child SP_R b v = v\<lparr>sp_r := b\<rparr>"

definition FIX_LISTLT :: "addr \<Rightarrow> addr \<Rightarrow> ('z st_scheme, unit) prog" where
  "FIX_LISTLT A B =
     bnd (get_field vm_prev B) (\<lambda>bp.
     bnd (upd_vma A (\<lambda>v. v\<lparr>vm_prev := bp\<rparr>)) (\<lambda>_.
     bnd (upd_vma A (\<lambda>v. v\<lparr>vm_next := B\<rparr>)) (\<lambda>_.
     bnd (get_field vm_prev A) (\<lambda>ap.
     bnd (whenp (ap \<noteq> NULL)
           (bnd (get_field vm_prev A) (\<lambda>q. upd_vma q (\<lambda>v. v\<lparr>vm_next := A\<rparr>)))) (\<lambda>_.
     upd_vma B (\<lambda>v. v\<lparr>vm_prev := A\<rparr>))))))"

definition FIX_LISTGT :: "addr \<Rightarrow> addr \<Rightarrow> ('z st_scheme, unit) prog" where
  "FIX_LISTGT A B =
     bnd (upd_vma A (\<lambda>v. v\<lparr>vm_prev := B\<rparr>)) (\<lambda>_.
     bnd (get_field vm_next B) (\<lambda>bn.
     bnd (upd_vma A (\<lambda>v. v\<lparr>vm_next := bn\<rparr>)) (\<lambda>_.
     bnd (get_field vm_next A) (\<lambda>an.
     bnd (whenp (an \<noteq> NULL)
           (bnd (get_field vm_next A) (\<lambda>q. upd_vma q (\<lambda>v. v\<lparr>vm_prev := A\<rparr>)))) (\<lambda>_.
     upd_vma B (\<lambda>v. v\<lparr>vm_next := A\<rparr>))))))"

definition FIX_LISTRM :: "addr \<Rightarrow> ('z st_scheme, unit) prog" where
  "FIX_LISTRM A =
     bnd (get_field vm_prev A) (\<lambda>ap.
     bnd (whenp (ap \<noteq> NULL)
           (bnd (get_field vm_prev A) (\<lambda>q.
            bnd (get_field vm_next A) (\<lambda>an. upd_vma q (\<lambda>v. v\<lparr>vm_next := an\<rparr>))))) (\<lambda>_.
     bnd (get_field vm_next A) (\<lambda>an.
     whenp (an \<noteq> NULL)
           (bnd (get_field vm_next A) (\<lambda>q.
            bnd (get_field vm_prev A) (\<lambda>ap. upd_vma q (\<lambda>v. v\<lparr>vm_prev := ap\<rparr>)))))))"

text \<open>The macro argument \<open>B\<close> is an expression, evaluated at each of its occurrences.\<close>

definition MAKE_CHILD :: "addr \<Rightarrow> which \<Rightarrow> ('z st_scheme, addr) prog \<Rightarrow> ('z st_scheme, unit) prog" where
  "MAKE_CHILD A w B =
     bnd B (\<lambda>b. bnd (upd_vma A (set_child w b)) (\<lambda>_.
     bnd B (\<lambda>b. bnd (whenp (b \<noteq> NULL) (bnd B (\<lambda>q. upd_vma q (\<lambda>v. v\<lparr>sp_p := A\<rparr>)))) (\<lambda>_.
     bnd (get_field sp_p A) (\<lambda>ap. bnd B (\<lambda>b.
     whenp (ap = b) (upd_vma A (\<lambda>v. v\<lparr>sp_p := NULL\<rparr>))))))))"

definition VM_PROT_NONE :: "64 word" where "VM_PROT_NONE = 0x0"
definition VM_PROT_READ :: "64 word" where "VM_PROT_READ = 0x1"
definition VM_PROT_WRITE :: "64 word" where "VM_PROT_WRITE = 0x3"

definition VM_PROT_PROMOTE :: "64 word \<Rightarrow> 64 word" where
  "VM_PROT_PROMOTE prot = (prot AND NOT 0x3) OR (push_bit 1 (prot AND 0x3) OR 0x1)"

subsection \<open>Creating and destroying a node\<close>

definition S_sp_node_init :: "addr \<Rightarrow> ('z st_scheme, unit) prog" where
  "S_sp_node_init n =
     bnd (upd_vma n (\<lambda>v. v\<lparr>sp_p := NULL\<rparr>)) (\<lambda>_.
     bnd (upd_vma n (\<lambda>v. v\<lparr>sp_l := NULL\<rparr>)) (\<lambda>_.
     bnd (upd_vma n (\<lambda>v. v\<lparr>sp_r := NULL\<rparr>)) (\<lambda>_.
     bnd (upd_vma n (\<lambda>v. v\<lparr>vm_prev := NULL\<rparr>)) (\<lambda>_.
     bnd (upd_vma n (\<lambda>v. v\<lparr>vm_next := NULL\<rparr>)) (\<lambda>_.
     upd_lock lock_init n)))))"

definition S_sp_node_free :: "(addr \<Rightarrow> ('z st_scheme, unit) prog) \<Rightarrow> addr \<Rightarrow> ('z st_scheme, unit) prog" where
  "S_sp_node_free vfree n =
     bnd (upd_lock lock_free n) (\<lambda>_. vfree n)"

subsection \<open>Top-down splay\<close>

text \<open>
  The local variable \<open>n\<close> is an area on the stack: it is stored at the address \<open>frame_n\<close>
  while the function runs and is gone when it returns, so that a pointer to it that outlives
  the call is a wild pointer. Its fields other than the three links are never read.
\<close>

definition local_n :: vm_area where
  "local_n = \<lparr>vm_next = NULL, vm_prev = NULL, sp_p = NULL, sp_l = NULL, sp_r = NULL,
              vm_flags = 0, vm_start = 0, vm_end = 0, vm_lock = Uninit\<rparr>"

definition push_frame :: "('z st_scheme, addr) prog" where
  "push_frame s = Inr (frame_n s, s\<lparr>vmas := (vmas s)(frame_n s \<mapsto> local_n)\<rparr>)"

definition pop_frame :: "('z st_scheme, unit) prog" where
  "pop_frame s = Inr ((), s\<lparr>vmas := (vmas s)(frame_n s := None)\<rparr>)"

text \<open>One iteration of the loop of lines 148-188; the loop variables are \<open>l\<close>, \<open>r\<close> and \<open>t\<close>.\<close>

type_synonym splay_vars = "addr \<times> addr \<times> addr"

definition link_right :: "addr \<Rightarrow> addr \<Rightarrow> addr \<Rightarrow> ('z st_scheme, (splay_vars, splay_vars) ctrl) prog" where
  "link_right l r t =
     bnd (MAKE_CHILD r SP_L (ret t)) (\<lambda>_.
     bnd (get_field sp_l t) (\<lambda>t'. ret (Continue (l, t, t'))))"

definition link_left :: "addr \<Rightarrow> addr \<Rightarrow> addr \<Rightarrow> ('z st_scheme, (splay_vars, splay_vars) ctrl) prog" where
  "link_left l r t =
     bnd (MAKE_CHILD l SP_R (ret t)) (\<lambda>_.
     bnd (get_field sp_r t) (\<lambda>t'. ret (Continue (t, r, t'))))"

definition splay_iter :: "addr \<Rightarrow> splay_vars \<Rightarrow> ('z st_scheme, (splay_vars, splay_vars) ctrl) prog" where
  "splay_iter vm_addr = (\<lambda>(l, r, t).
     bnd (get_field vm_start t) (\<lambda>ts.
     if vm_addr < ts then
       bnd (get_field sp_l t) (\<lambda>y.
       if y = NULL then ret (Break (l, r, t))
       else bnd (get_field vm_start y) (\<lambda>ys.
         if vm_addr < ys then
           bnd (MAKE_CHILD t SP_L (get_field sp_r y)) (\<lambda>_.
           bnd (MAKE_CHILD y SP_R (ret t)) (\<lambda>_.
           bnd (get_field sp_l y) (\<lambda>yl.
           if yl = NULL then ret (Break (l, r, y)) else link_right l r y)))
         else link_right l r t))
     else if ts < vm_addr then
       bnd (get_field sp_r t) (\<lambda>y.
       if y = NULL then ret (Break (l, r, t))
       else bnd (get_field vm_start y) (\<lambda>ys.
         if ys < vm_addr then
           bnd (MAKE_CHILD t SP_R (get_field sp_l y)) (\<lambda>_.
           bnd (MAKE_CHILD y SP_L (ret t)) (\<lambda>_.
           bnd (get_field sp_r y) (\<lambda>yr.
           if yr = NULL then ret (Break (l, r, y)) else link_left l r y)))
         else link_left l r t))
     else ret (Break (l, r, t))))"

definition splay_assemble :: "addr \<Rightarrow> splay_vars \<Rightarrow> ('z st_scheme, addr) prog" where
  "splay_assemble n = (\<lambda>(l, r, t).
     bnd (MAKE_CHILD l SP_R (get_field sp_l t)) (\<lambda>_.
     bnd (MAKE_CHILD r SP_L (get_field sp_r t)) (\<lambda>_.
     bnd (MAKE_CHILD t SP_L (get_field sp_r n)) (\<lambda>_.
     bnd (MAKE_CHILD t SP_R (get_field sp_l n)) (\<lambda>_.
     bnd (upd_vma t (\<lambda>v. v\<lparr>sp_p := NULL\<rparr>)) (\<lambda>_. ret t))))))"

definition S_sp_tree_splay :: "addr \<Rightarrow> addr \<Rightarrow> ('z st_scheme, addr) prog" where
  "S_sp_tree_splay vm_addr t =
     (if t = NULL then ret t
      else
        bnd push_frame (\<lambda>n.
        bnd (forever (splay_iter vm_addr) (n, n, t)) (\<lambda>(l, r, t).
        bnd (splay_assemble n (l, r, t)) (\<lambda>t.
        bnd pop_frame (\<lambda>_. ret t)))))"

subsection \<open>Inserting below and removing the root\<close>

definition S_sp_tree_insert_helper :: "addr \<Rightarrow> addr \<Rightarrow> ('z st_scheme, unit) prog" where
  "S_sp_tree_insert_helper t z =
     bnd get_root (\<lambda>rt.
     if rt = NULL then set_root z
     else
       bnd (get_field vm_start z) (\<lambda>zs.
       bnd (get_field vm_start t) (\<lambda>ts.
       if zs < ts then
         bnd (FIX_LISTLT z t) (\<lambda>_.
         bnd (MAKE_CHILD z SP_L (get_field sp_l t)) (\<lambda>_.
         bnd (MAKE_CHILD z SP_R (ret t)) (\<lambda>_.
         bnd (upd_vma t (\<lambda>v. v\<lparr>sp_l := NULL\<rparr>)) (\<lambda>_.
         set_root z))))
       else
         bnd (assertion (ts < zs)) (\<lambda>_.
         bnd (FIX_LISTGT z t) (\<lambda>_.
         bnd (MAKE_CHILD z SP_R (get_field sp_r t)) (\<lambda>_.
         bnd (MAKE_CHILD z SP_L (ret t)) (\<lambda>_.
         bnd (upd_vma t (\<lambda>v. v\<lparr>sp_r := NULL\<rparr>)) (\<lambda>_.
         set_root z))))))))"

definition S_sp_tree_remove_helper :: "addr \<Rightarrow> ('z st_scheme, unit) prog" where
  "S_sp_tree_remove_helper t =
     bnd (FIX_LISTRM t) (\<lambda>_.
     bnd (get_field sp_l t) (\<lambda>tl.
     bnd (if tl \<noteq> NULL then
            bnd (get_field vm_start t) (\<lambda>ts.
            bnd (get_field sp_l t) (\<lambda>tl.
            bnd (S_sp_tree_splay ts tl) (\<lambda>z.
            bnd (upd_vma z (\<lambda>v. v\<lparr>sp_p := NULL\<rparr>)) (\<lambda>_.
            bnd (MAKE_CHILD z SP_R (get_field sp_r t)) (\<lambda>_. ret z)))))
          else
            bnd (get_field sp_r t) (\<lambda>z.
            bnd (whenp (z \<noteq> NULL) (upd_vma z (\<lambda>v. v\<lparr>sp_p := NULL\<rparr>))) (\<lambda>_. ret z)))
         (\<lambda>z. set_root z)))"

subsection \<open>The exported operations\<close>

definition sp_tree_init :: "('z st_scheme, unit) prog" where
  "sp_tree_init = bnd (set_root NULL) (\<lambda>_. upd_tree_lock lock_init)"

definition sp_tree_insert :: "addr \<Rightarrow> ('z st_scheme, unit) prog" where
  "sp_tree_insert z =
     bnd (upd_tree_lock lock_get) (\<lambda>_.
     bnd (S_sp_node_init z) (\<lambda>_.
     bnd (get_field vm_start z) (\<lambda>zs.
     bnd get_root (\<lambda>rt.
     bnd (S_sp_tree_splay zs rt) (\<lambda>t.
     bnd (S_sp_tree_insert_helper t z) (\<lambda>_.
     upd_tree_lock lock_let))))))"

definition sp_tree_remove ::
    "(addr \<Rightarrow> ('z st_scheme, unit) prog) \<Rightarrow> addr \<Rightarrow> ('z st_scheme, unit) prog" where
  "sp_tree_remove vfree vm_addr =
     bnd (upd_tree_lock lock_get) (\<lambda>_.
     bnd get_root (\<lambda>rt.
     bnd (assertion (rt \<noteq> NULL)) (\<lambda>_.
     bnd (S_sp_tree_splay vm_addr rt) (\<lambda>t.
     bnd (get_field vm_start t) (\<lambda>ts.
     bnd (assertion (vm_addr = ts)) (\<lambda>_.
     bnd (S_sp_tree_remove_helper t) (\<lambda>_.
     bnd (S_sp_node_free vfree t) (\<lambda>_.
     upd_tree_lock lock_let))))))))"

definition sp_tree_free_iter ::
    "(addr \<Rightarrow> ('z st_scheme, unit) prog) \<Rightarrow> unit \<Rightarrow> ('z st_scheme, (unit, unit) ctrl) prog" where
  "sp_tree_free_iter vfree = (\<lambda>_.
     bnd get_root (\<lambda>rt.
     if rt = NULL then ret (Break ())
     else
       bnd (get_field vm_start rt) (\<lambda>rs.
       bnd (sp_tree_remove vfree rs) (\<lambda>_. ret (Continue ())))))"

definition sp_tree_free :: "(addr \<Rightarrow> ('z st_scheme, unit) prog) \<Rightarrow> ('z st_scheme, unit) prog" where
  "sp_tree_free vfree =
     bnd (forever (sp_tree_free_iter vfree) ()) (\<lambda>_. upd_tree_lock lock_free)"

text \<open>The result of the two find functions is the output variable \<open>*zp\<close>.\<close>

definition sp_tree_find_and_lock :: "addr \<Rightarrow> ('z st_scheme, addr) prog" where
  "sp_tree_find_and_lock vm_addr =
     bnd (upd_tree_lock lock_get) (\<lambda>_.
     bnd get_root (\<lambda>rt.
     bnd (assertion (rt \<noteq> NULL)) (\<lambda>_.
     bnd (S_sp_tree_splay vm_addr rt) (\<lambda>rt.
     bnd (set_root rt) (\<lambda>_.
     bnd (get_field vm_start rt) (\<lambda>rs.
     bnd (if rs \<le> vm_addr then
            bnd (get_field vm_end rt) (\<lambda>re.
            bnd (assertion (vm_addr < re)) (\<lambda>_. ret rt))
          else
            bnd (get_field vm_prev rt) (\<lambda>p.
            bnd (get_field vm_start p) (\<lambda>ps.
            bnd (assertion (ps \<le> vm_addr)) (\<lambda>_.
            bnd (get_field vm_end p) (\<lambda>pe.
            bnd (assertion (vm_addr < pe)) (\<lambda>_. ret p))))))
         (\<lambda>n.
     bnd (upd_lock lock_get n) (\<lambda>_.
     bnd (upd_tree_lock lock_let) (\<lambda>_. ret n)))))))))"

end
