(* ===== verification/Splay_Abs.thy ===== *)
theory Splay_Abs
  imports Prelude
begin

section \<open>Top-down splaying as a function on trees\<close>

text \<open>
  The abstract counterpart of \<open>S_sp_tree_splay\<close>: the loop on a tree and two spines. The left
  spine holds, innermost first, the nodes that were linked left (each with its left subtree);
  the right spine those linked right (each with its right subtree). Keys are given by a
  function of the node.
\<close>

type_synonym 'a lspine = "('a tree \<times> 'a) list"
type_synonym 'a rspine = "('a \<times> 'a tree) list"

fun splay_abs :: "('a \<Rightarrow> 'k::linorder) \<Rightarrow> 'k \<Rightarrow> 'a lspine \<Rightarrow> 'a tree \<Rightarrow> 'a rspine \<Rightarrow>
    'a lspine \<times> 'a tree \<times> 'a rspine" where
  "splay_abs k x L Leaf R = (L, Leaf, R)"
| "splay_abs k x L (Node A a B) R =
     (if x < k a then
        (case A of
           Leaf \<Rightarrow> (L, Node A a B, R)
         | Node C c D \<Rightarrow>
             if x < k c then
               (if C = Leaf then (L, Node C c (Node D a B), R)
                else splay_abs k x L C ((c, Node D a B) # R))
             else splay_abs k x L A ((a, B) # R))
      else if k a < x then
        (case B of
           Leaf \<Rightarrow> (L, Node A a B, R)
         | Node C c D \<Rightarrow>
             if k c < x then
               (if D = Leaf then (L, Node (Node A a C) c D, R)
                else splay_abs k x ((Node A a C, c) # L) D R)
             else splay_abs k x ((A, a) # L) B R)
      else (L, Node A a B, R))"

fun ltree :: "'a lspine \<Rightarrow> 'a tree \<Rightarrow> 'a tree" where
  "ltree [] T = T"
| "ltree ((A, a) # L) T = ltree L (Node A a T)"

fun rtree :: "'a rspine \<Rightarrow> 'a tree \<Rightarrow> 'a tree" where
  "rtree [] T = T"
| "rtree ((a, B) # R) T = rtree R (Node T a B)"

fun assemble :: "'a lspine \<times> 'a tree \<times> 'a rspine \<Rightarrow> 'a tree" where
  "assemble (L, Leaf, R) = Leaf"
| "assemble (L, Node A a B, R) = Node (ltree L A) a (rtree R B)"

definition splay :: "('a \<Rightarrow> 'k::linorder) \<Rightarrow> 'k \<Rightarrow> 'a tree \<Rightarrow> 'a tree" where
  "splay k x T = assemble (splay_abs k x [] T [])"

fun lflat :: "'a lspine \<Rightarrow> 'a list" where
  "lflat [] = []"
| "lflat ((A, a) # L) = lflat L @ inorder A @ [a]"

fun rflat :: "'a rspine \<Rightarrow> 'a list" where
  "rflat [] = []"
| "rflat ((a, B) # R) = a # inorder B @ rflat R"

lemma inorder_ltree [simp]: "inorder (ltree L T) = lflat L @ inorder T"
  by (induction L T rule: ltree.induct) auto

lemma inorder_rtree [simp]: "inorder (rtree R T) = inorder T @ rflat R"
  by (induction R T rule: rtree.induct) auto

declare splay_abs.simps(2) [simp del]

definition stopped :: "('a \<Rightarrow> 'k::linorder) \<Rightarrow> 'k \<Rightarrow> 'a tree \<Rightarrow> bool" where
  "stopped k x T = (case T of Leaf \<Rightarrow> False
     | Node A a B \<Rightarrow> (x < k a \<longrightarrow> A = Leaf) \<and> (k a < x \<longrightarrow> B = Leaf))"

text \<open>
  The loop rule: what the two rotations and the two links keep holds when the loop stops, and
  the last tree has no subtree on the side of \<open>x\<close>.
\<close>

lemma splay_abs_rule:
  assumes "splay_abs k x L T R = (L', T', R')" and "T \<noteq> Leaf" and "P L T R"
    and rot_r: "\<And>L C c D a B R. P L (Node (Node C c D) a B) R \<Longrightarrow> x < k c \<Longrightarrow> x < k a \<Longrightarrow>
                 P L (Node C c (Node D a B)) R"
    and rot_l: "\<And>L A a C c D R. P L (Node A a (Node C c D)) R \<Longrightarrow> k c < x \<Longrightarrow> k a < x \<Longrightarrow>
                 P L (Node (Node A a C) c D) R"
    and lnk_r: "\<And>L A a B R. P L (Node A a B) R \<Longrightarrow> A \<noteq> Leaf \<Longrightarrow> x < k a \<Longrightarrow> P L A ((a, B) # R)"
    and lnk_l: "\<And>L A a B R. P L (Node A a B) R \<Longrightarrow> B \<noteq> Leaf \<Longrightarrow> k a < x \<Longrightarrow> P ((A, a) # L) B R"
  shows "P L' T' R' \<and> stopped k x T'"
  using assms(1-3)
proof (induction T arbitrary: L R rule: measure_induct_rule [of size])
  case (less T)
  then obtain A a B where T: "T = Node A a B" by (cases T) auto
  note def = splay_abs.simps(2) [of k x L A a B R] and P = less.prems(3) [unfolded T]
  consider (lt) "x < k a" "A \<noteq> Leaf" | (gt) "k a < x" "B \<noteq> Leaf" | (stop) "stopped k x T"
    by (auto simp: T stopped_def)
  then show ?case
  proof cases
    case lt
    then obtain C c D where A: "A = Node C c D" by (cases A) auto
    show ?thesis
    proof (cases "x < k c")
      case True
      have rot: "P L (Node C c (Node D a B)) R" using P A True lt(1) by (auto intro: rot_r)
      show ?thesis
      proof (cases "C = Leaf")
        case True
        with rot less.prems(1) \<open>x < k c\<close> lt A def T show ?thesis by (auto simp: stopped_def)
      next
        case False
        with rot \<open>x < k c\<close> have "P L C ((c, Node D a B) # R)" by (auto intro: lnk_r)
        with less.IH [of C L "(c, Node D a B) # R"] False less.prems(1) \<open>x < k c\<close> lt A def T
        show ?thesis by simp
      qed
    next
      case False
      have "P L A ((a, B) # R)" using P lt by (auto intro: lnk_r)
      with less.IH [of A L "(a, B) # R"] False less.prems(1) lt A def T show ?thesis by simp
    qed
  next
    case gt
    then obtain C c D where B: "B = Node C c D" by (cases B) auto
    from gt(1) have ge: "\<not> x < k a" by simp
    show ?thesis
    proof (cases "k c < x")
      case True
      have rot: "P L (Node (Node A a C) c D) R" using P B True gt(1) by (auto intro: rot_l)
      show ?thesis
      proof (cases "D = Leaf")
        case True
        with rot less.prems(1) \<open>k c < x\<close> gt ge B def T show ?thesis by (auto simp: stopped_def)
      next
        case False
        with rot \<open>k c < x\<close> have "P ((Node A a C, c) # L) D R" by (auto intro: lnk_l)
        with less.IH [of D "(Node A a C, c) # L" R] False less.prems(1) \<open>k c < x\<close> gt ge B def T
        show ?thesis by simp
      qed
    next
      case False
      have "P ((A, a) # L) B R" using P gt by (auto intro: lnk_l)
      with less.IH [of B "(A, a) # L" R] False less.prems(1) gt ge B def T show ?thesis by simp
    qed
  next
    case stop
    then have "splay_abs k x L T R = (L, T, R)" by (auto simp: T def stopped_def split: tree.splits)
    with less.prems stop show ?thesis by simp
  qed
qed

lemma splay_abs_inorder:
  assumes "splay_abs k x L T R = (L', T', R')" and "T \<noteq> Leaf"
  shows "lflat L' @ inorder T' @ rflat R' = lflat L @ inorder T @ rflat R"
  using splay_abs_rule [where P = "\<lambda>L1 T1 R1. lflat L1 @ inorder T1 @ rflat R1 = lflat L @ inorder T @ rflat R",
      OF assms] by auto

lemma splay_abs_Leaf:
  "splay_abs k x L T R = (L', T', R') \<Longrightarrow> T \<noteq> Leaf \<Longrightarrow> T' \<noteq> Leaf"
  using splay_abs_rule [where P = "\<lambda>_ _ _. True"] by (fastforce simp: stopped_def)

lemma inorder_assemble:
  "T \<noteq> Leaf \<Longrightarrow> inorder (assemble (L, T, R)) = lflat L @ inorder T @ rflat R"
  by (cases T) auto

lemma inorder_splay [simp]: "inorder (splay k x T) = inorder T"
proof (cases "T = Leaf")
  case False
  obtain L' T' R' where eq: "splay_abs k x [] T [] = (L', T', R')" by (cases "splay_abs k x [] T []")
  with splay_abs_Leaf [OF eq False] splay_abs_inorder [OF eq False]
  show ?thesis by (simp add: splay_def inorder_assemble)
qed (simp add: splay_def)

lemma set_splay [simp]: "set_tree (splay k x T) = set_tree T"
  by (metis inorder_splay set_inorder)

lemma splay_Leaf_iff [simp]: "splay k x T = Leaf \<longleftrightarrow> T = Leaf"
  by (metis set_splay eq_set_tree_empty)

text \<open>
  What the left spine holds lies below \<open>x\<close> and what the right spine holds above it.
\<close>

abbreviation sorted_by :: "('a \<Rightarrow> 'k::linorder) \<Rightarrow> 'a list \<Rightarrow> bool" where
  "sorted_by k xs \<equiv> sorted_wrt (\<lambda>a b. k a < k b) xs"

definition parted :: "('a \<Rightarrow> 'k::linorder) \<Rightarrow> 'k \<Rightarrow> 'a lspine \<Rightarrow> 'a tree \<Rightarrow> 'a rspine \<Rightarrow> bool" where
  "parted k x L T R \<longleftrightarrow> sorted_by k (inorder T) \<and>
     (\<forall>y \<in> set (lflat L). k y < x) \<and> (\<forall>y \<in> set (rflat R). x < k y)"

lemma splay_abs_parts:
  assumes "splay_abs k x L T R = (L', T', R')" and "T \<noteq> Leaf" and "parted k x L T R"
  shows "parted k x L' T' R' \<and> stopped k x T'"
proof (rule splay_abs_rule [where P = "parted k x", OF assms])
qed (fastforce simp: parted_def sorted_wrt_append)+

lemma splay_neighbours:
  assumes "splay k x T = Node l a r" and "sorted_by k (inorder T)"
  shows "(\<forall>y \<in> set_tree l. k y < x) \<and> (\<forall>y \<in> set_tree r. x < k y)"
proof -
  obtain L' T' R' where eq: "splay_abs k x [] T [] = (L', T', R')" by (cases "splay_abs k x [] T []")
  from assms(1) have "T \<noteq> Leaf" by (metis splay_Leaf_iff tree.distinct(1))
  from splay_abs_parts [OF eq this] assms(2) have
    st: "stopped k x T'" "\<forall>y \<in> set (lflat L'). k y < x" "\<forall>y \<in> set (rflat R'). x < k y"
    by (auto simp: parted_def)
  from assms(1) eq obtain A B where T': "T' = Node A a B" and l: "l = ltree L' A" and r: "r = rtree R' B"
    by (cases T') (auto simp: splay_def)
  have "sorted_by k (inorder (splay k x T))" using assms(2) by simp
  then have "(\<forall>y \<in> set_tree A. k y < k a) \<and> (\<forall>y \<in> set_tree B. k a < k y)"
    using assms(1) l r by (simp add: sorted_wrt_append)
  moreover have "set_tree l = set (lflat L') \<union> set_tree A" "set_tree r = set (rflat R') \<union> set_tree B"
    using l r by (metis inorder_ltree set_append set_inorder, metis inorder_rtree set_append set_inorder sup_commute)
  ultimately show ?thesis using st T' by (fastforce simp: stopped_def)
qed

text \<open>Splaying for a key that is present brings it to the root.\<close>

lemma splay_found:
  assumes "sorted_by k (inorder T)" and "b \<in> set_tree T" and "k b = x"
  shows "\<exists>l r. splay k x T = Node l b r"
proof -
  from assms(2) have "T \<noteq> Leaf" by auto
  then obtain l a r where eq: "splay k x T = Node l a r" by (metis splay_Leaf_iff neq_Leaf_iff)
  from splay_neighbours [OF eq assms(1)] have "b \<notin> set_tree l" "b \<notin> set_tree r"
    using assms(3) by auto
  moreover have "b \<in> set_tree (splay k x T)" using assms(2) by simp
  ultimately show ?thesis using eq by auto
qed

text \<open>Splaying for a key above every node brings the greatest node to the root.\<close>

lemma splay_greatest:
  assumes "sorted_by k (inorder T)" and "\<forall>b \<in> set_tree T. k b < x" and "T \<noteq> Leaf"
  shows "\<exists>l a. splay k x T = Node l a Leaf"
proof -
  obtain l a r where eq: "splay k x T = Node l a r" by (metis assms(3) splay_Leaf_iff neq_Leaf_iff)
  from splay_neighbours [OF eq assms(1)] have "\<forall>y \<in> set_tree r. x < k y" by simp
  moreover have "set_tree r \<subseteq> set_tree T" using set_splay [of k x T] eq by auto
  ultimately have "set_tree r = {}" using assms(2) by fastforce
  then show ?thesis using eq by (simp add: eq_set_tree_empty)
qed

end
