(* ===== verification/Tree_Heap.thy ===== *)
theory Tree_Heap
  imports Sp_Tree Splay_Abs
begin

section \<open>Trees and lists of areas in memory\<close>

text \<open>
  Reads the memory of \<open>sp_tree.c\<close> as data: the link fields as functions of the address, the
  binary tree that hangs off a pointer (\<open>tree_at\<close>), the doubly linked list of the areas
  (\<open>dll\<close>), and when two memories hold the same data apart from tree links (\<open>same_data\<close>).
  The effect of \<open>MAKE_CHILD\<close> is given as an update of the link functions.
\<close>

type_synonym heap = "addr \<rightharpoonup> vm_area"

definition fl :: "heap \<Rightarrow> addr \<Rightarrow> addr" where "fl h a = sp_l (the (h a))"
definition fr :: "heap \<Rightarrow> addr \<Rightarrow> addr" where "fr h a = sp_r (the (h a))"
definition fp :: "heap \<Rightarrow> addr \<Rightarrow> addr" where "fp h a = sp_p (the (h a))"
definition start_of :: "heap \<Rightarrow> addr \<Rightarrow> addr" where "start_of h a = vm_start (the (h a))"

lemmas field_defs = fl_def fr_def fp_def start_of_def

subsection \<open>The data of an area: all but the tree links\<close>

definition vdata :: "vm_area \<Rightarrow> addr \<times> addr \<times> 64 word \<times> addr \<times> addr \<times> lock_t" where
  "vdata v = (vm_next v, vm_prev v, vm_flags v, vm_start v, vm_end v, vm_lock v)"

definition same_data :: "heap \<Rightarrow> heap \<Rightarrow> bool" where
  "same_data h h' \<longleftrightarrow> (\<forall>a. map_option vdata (h' a) = map_option vdata (h a))"

lemma same_data_refl [simp]: "same_data h h"
  by (simp add: same_data_def)

lemma same_data_trans: "same_data h h' \<Longrightarrow> same_data h' h'' \<Longrightarrow> same_data h h''"
  by (simp add: same_data_def)

lemma same_data_dom: "same_data h h' \<Longrightarrow> dom h' = dom h"
proof -
  assume "same_data h h'"
  then have "\<And>a. (h' a = None) = (h a = None)"
    by (metis same_data_def option.map_disc_iff)
  then show ?thesis by (auto simp: dom_def)
qed

lemma same_data_Some:
  assumes "same_data h h'" and "h a = Some v"
  obtains v' where "h' a = Some v'" and "vdata v' = vdata v"
proof -
  from assms have "map_option vdata (h' a) = Some (vdata v)" by (simp add: same_data_def)
  then show ?thesis using that by auto
qed

lemma same_data_start: "same_data h h' \<Longrightarrow> a \<in> dom h \<Longrightarrow> start_of h' a = start_of h a"
  by (auto simp: start_of_def vdata_def elim: same_data_Some)

subsection \<open>Trees\<close>

fun tree_at :: "(addr \<Rightarrow> addr) \<Rightarrow> (addr \<Rightarrow> addr) \<Rightarrow> (addr \<Rightarrow> addr) \<Rightarrow> addr \<Rightarrow> addr tree \<Rightarrow> bool" where
  "tree_at l r p c Leaf \<longleftrightarrow> c = NULL"
| "tree_at l r p c (Node A a B) \<longleftrightarrow>
     c = a \<and> a \<noteq> NULL \<and> tree_at l r p (l a) A \<and> tree_at l r p (r a) B \<and>
     (l a \<noteq> NULL \<longrightarrow> p (l a) = a) \<and> (r a \<noteq> NULL \<longrightarrow> p (r a) = a)"

lemma tree_at_NULL [simp]: "tree_at l r p NULL T \<longleftrightarrow> T = Leaf"
  by (cases T) auto

lemma tree_at_root: "tree_at l r p c T \<Longrightarrow> c \<noteq> NULL \<Longrightarrow> c \<in> set_tree T"
  by (cases T) auto

lemma tree_at_NULL_notin: "tree_at l r p c T \<Longrightarrow> NULL \<notin> set_tree T"
  by (induction l r p c T rule: tree_at.induct) auto

lemma tree_at_cong:
  "tree_at l r p c T \<Longrightarrow> (\<And>a. a \<in> set_tree T \<Longrightarrow> l' a = l a \<and> r' a = r a) \<Longrightarrow>
   (\<And>a. a \<in> set_tree T \<Longrightarrow> a \<noteq> c \<Longrightarrow> p' a = p a) \<Longrightarrow> distinct (inorder T) \<Longrightarrow>
   tree_at l' r' p' c T"
proof (induction l r p c T rule: tree_at.induct)
  case (2 l r p c A a B)
  then have ne: "l a \<noteq> NULL \<Longrightarrow> l a \<in> set_tree A" "r a \<noteq> NULL \<Longrightarrow> r a \<in> set_tree B"
    by (auto intro: tree_at_root)
  have out: "a \<notin> set_tree A" "a \<notin> set_tree B" "set_tree A \<inter> set_tree B = {}"
    and dist: "distinct (inorder A)" "distinct (inorder B)" and c: "c = a" using "2.prems"(1,4) by auto
  have p: "l a \<noteq> NULL \<Longrightarrow> p' (l a) = p (l a)" "r a \<noteq> NULL \<Longrightarrow> p' (r a) = p (r a)"
    using "2.prems"(3) ne out(1,2) c by (metis UnCI insertCI tree.set(2))+
  have "tree_at l' r' p' (l a) A"
    using "2.prems" c out dist by (intro "2.IH"(1)) auto
  moreover have "tree_at l' r' p' (r a) B"
    using "2.prems" c out dist by (intro "2.IH"(2)) auto
  ultimately show ?case using "2.prems"(1,2) p by auto
qed simp

text \<open>Updates outside the tree, and of the parent link of its root, do not matter.\<close>

lemma tree_at_upd_l [simp]: "a \<notin> set_tree T \<Longrightarrow> tree_at (l(a := x)) r p c T = tree_at l r p c T"
  by (induction T arbitrary: c) auto

lemma tree_at_upd_r [simp]: "a \<notin> set_tree T \<Longrightarrow> tree_at l (r(a := x)) p c T = tree_at l r p c T"
  by (induction T arbitrary: c) auto

lemma tree_at_upd_p [simp]: "a \<notin> set_tree T \<Longrightarrow> tree_at l r (p(a := x)) c T = tree_at l r p c T"
proof (induction T arbitrary: c)
  case (Node A b B)
  have "tree_at l r p (l b) A \<Longrightarrow> l b \<noteq> NULL \<Longrightarrow> l b \<noteq> a" "tree_at l r p (r b) B \<Longrightarrow> r b \<noteq> NULL \<Longrightarrow> r b \<noteq> a"
    using Node.prems by (auto dest: tree_at_root)
  then show ?case using Node by auto
qed simp

lemma tree_at_upd_root_p [simp]:
  "distinct (inorder T) \<Longrightarrow> tree_at l r (p(c := x)) c T = tree_at l r p c T"
proof (cases T)
  case (Node A b B)
  assume "distinct (inorder T)"
  then have "b \<notin> set_tree A" "b \<notin> set_tree B" using Node by auto
  moreover have "tree_at l r p (l b) A \<Longrightarrow> l b \<noteq> NULL \<Longrightarrow> l b \<in> set_tree A"
    "tree_at l r p (r b) B \<Longrightarrow> r b \<noteq> NULL \<Longrightarrow> r b \<in> set_tree B"
    by (auto dest: tree_at_root)
  ultimately show ?thesis using Node by auto
qed simp

lemma tree_at_unique: "tree_at l r p c T \<Longrightarrow> tree_at l r p c T' \<Longrightarrow> T = T'"
  by (induction T arbitrary: T' c) (case_tac T'; auto)+

subsection \<open>The effect of MAKE\_CHILD\<close>

definition mk_child :: "addr \<Rightarrow> which \<Rightarrow> addr \<Rightarrow> heap \<Rightarrow> heap" where
  "mk_child a w b h =
     (let h1 = h(a \<mapsto> set_child w b (the (h a)));
          h2 = (if b \<noteq> NULL then h1(b \<mapsto> (the (h1 b))\<lparr>sp_p := a\<rparr>) else h1)
      in if fp h2 a = b then h2(a \<mapsto> (the (h2 a))\<lparr>sp_p := NULL\<rparr>) else h2)"

lemma vdata_links [simp]:
  "vdata (v\<lparr>sp_p := x\<rparr>) = vdata v" "vdata (v\<lparr>sp_l := x\<rparr>) = vdata v" "vdata (v\<lparr>sp_r := x\<rparr>) = vdata v"
  "vdata (set_child w x v) = vdata v"
  by (simp_all add: vdata_def) (cases w; simp)

lemma same_data_mk_child: "a \<in> dom h \<Longrightarrow> b = NULL \<or> b \<in> dom h \<Longrightarrow> same_data h (mk_child a w b h)"
  by (auto simp: mk_child_def Let_def same_data_def)

lemma dom_mk_child: "a \<in> dom h \<Longrightarrow> b = NULL \<or> b \<in> dom h \<Longrightarrow> dom (mk_child a w b h) = dom h"
  by (simp add: same_data_dom same_data_mk_child)

lemma fl_mk_child [simp]:
  "fl (mk_child a SP_L b h) = (fl h)(a := b)" "fl (mk_child a SP_R b h) = fl h"
  by (rule ext; auto simp: mk_child_def Let_def fl_def)+

lemma fr_mk_child [simp]:
  "fr (mk_child a SP_R b h) = (fr h)(a := b)" "fr (mk_child a SP_L b h) = fr h"
  by (rule ext; auto simp: mk_child_def Let_def fr_def)+

lemma fp_mk_child:
  assumes "a \<noteq> b" and "fp h a \<noteq> b \<or> b = NULL"
  shows "fp (mk_child a w b h) = (if b = NULL then fp h else (fp h)(b := a))"
  using assms by (cases w) (rule ext; force simp: mk_child_def Let_def fp_def)+

text \<open>In general the macro may also reset the parent link of \<open>a\<close> itself.\<close>

lemma fp_mk_child_gen:
  assumes "a \<noteq> b"
  shows "\<exists>z. fp (mk_child a w b h) = (if b = NULL then fp h else (fp h)(b := a))(a := z)"
proof
  show "fp (mk_child a w b h) = (if b = NULL then fp h else (fp h)(b := a))(a := fp (mk_child a w b h) a)"
    using assms by (cases w) (rule ext; force simp: mk_child_def Let_def fp_def)+
qed

lemma mk_child_other: "x \<noteq> a \<Longrightarrow> x \<noteq> b \<or> b = NULL \<Longrightarrow> mk_child a w b h x = h x"
  by (auto simp: mk_child_def Let_def)

lemma MAKE_CHILD_ret:
  assumes "a \<in> dom (vmas s)" and "a \<noteq> NULL" and "b = NULL \<or> b \<in> dom (vmas s)" and "a \<noteq> b"
  shows "MAKE_CHILD a w (ret b) s = Inr ((), s\<lparr>vmas := mk_child a w b (vmas s)\<rparr>)"
  using assms by (cases w) (auto simp: MAKE_CHILD_def mk_child_def Let_def bnd_def fp_def whenp_def)

lemma MAKE_CHILD_field:
  assumes "a \<in> dom (vmas s)" and "a \<noteq> NULL" and "c \<in> dom (vmas s)" and "c \<noteq> NULL" and "f = sp_l \<or> f = sp_r"
    and "c \<noteq> a" and "b = f (the (vmas s c))" and "b = NULL \<or> b \<in> dom (vmas s)" and "a \<noteq> b" and "c \<noteq> b"
  shows "MAKE_CHILD a w (get_field f c) s = Inr ((), s\<lparr>vmas := mk_child a w b (vmas s)\<rparr>)"
  using assms by (cases w) (auto simp: MAKE_CHILD_def mk_child_def Let_def bnd_def fp_def whenp_def)

end
