(* ===== verification/Splay_Correct.thy ===== *)
theory Splay_Correct
  imports Tree_Heap
begin

section \<open>S\_sp\_tree\_splay implements the abstract splay\<close>

text \<open>
  The loop of \<open>S_sp_tree_splay\<close> keeps two spines in memory, below the two links of the local
  node \<open>n\<close>; \<open>lspine\<close> and \<open>rspine\<close> say how they are stored. Every iteration of the code is
  an iteration of \<open>splay_abs\<close>; in particular the loop ends, follows no NULL or wild pointer,
  and leaves no pointer to the local node behind.
\<close>

subsection \<open>The spines in memory\<close>

fun lspine :: "(addr \<Rightarrow> addr) \<Rightarrow> (addr \<Rightarrow> addr) \<Rightarrow> (addr \<Rightarrow> addr) \<Rightarrow> addr \<Rightarrow> addr lspine \<Rightarrow> addr \<Rightarrow> bool" where
  "lspine l r p d [] c \<longleftrightarrow> c = d"
| "lspine l r p d ((A, a) # L) c \<longleftrightarrow>
     c = a \<and> a \<noteq> NULL \<and> tree_at l r p (l a) A \<and> (l a \<noteq> NULL \<longrightarrow> p (l a) = a) \<and>
     r (p a) = a \<and> lspine l r p d L (p a)"

fun rspine :: "(addr \<Rightarrow> addr) \<Rightarrow> (addr \<Rightarrow> addr) \<Rightarrow> (addr \<Rightarrow> addr) \<Rightarrow> addr \<Rightarrow> addr rspine \<Rightarrow> addr \<Rightarrow> bool" where
  "rspine l r p d [] c \<longleftrightarrow> c = d"
| "rspine l r p d ((a, B) # R) c \<longleftrightarrow>
     c = a \<and> a \<noteq> NULL \<and> tree_at l r p (r a) B \<and> (r a \<noteq> NULL \<longrightarrow> p (r a) = a) \<and>
     l (p a) = a \<and> rspine l r p d R (p a)"

lemma lspine_mem: "lspine l r p d L c \<Longrightarrow> c \<in> insert d (set (lflat L))"
  by (cases L) auto

lemma rspine_mem: "rspine l r p d R c \<Longrightarrow> c \<in> insert d (set (rflat R))"
  by (cases R) auto

lemma lspine_parent: "lspine l r p d L c \<Longrightarrow> c \<noteq> d \<Longrightarrow> p c \<in> insert d (set (lflat L))"
  using lspine_mem [of l r p d "tl L" "p c"] by (cases L) auto

lemma rspine_parent: "rspine l r p d R c \<Longrightarrow> c \<noteq> d \<Longrightarrow> p c \<in> insert d (set (rflat R))"
  using rspine_mem [of l r p d "tl R" "p c"] by (cases R) auto

lemma lspine_upd_l [simp]: "x \<notin> set (lflat L) \<Longrightarrow> lspine (l(x := v)) r p d L c = lspine l r p d L c"
  by (induction L arbitrary: c) auto

lemma rspine_upd_r [simp]: "x \<notin> set (rflat R) \<Longrightarrow> rspine l (r(x := v)) p d R c = rspine l r p d R c"
  by (induction R arbitrary: c) auto

lemma lspine_upd_r: "x \<notin> insert d (set (lflat L)) \<Longrightarrow> lspine l (r(x := v)) p d L c = lspine l r p d L c"
proof (induction L arbitrary: c)
  case (Cons e L)
  obtain A a where e: "e = (A, a)" by (cases e)
  have "lspine l r p d L (p a) \<Longrightarrow> p a \<noteq> x" using Cons.prems e lspine_mem [of l r p d L "p a"] by auto
  then show ?case using Cons e by (auto simp del: fun_upd_apply simp: fun_upd_other)
qed simp

lemma rspine_upd_l: "x \<notin> insert d (set (rflat R)) \<Longrightarrow> rspine (l(x := v)) r p d R c = rspine l r p d R c"
proof (induction R arbitrary: c)
  case (Cons e R)
  obtain a B where e: "e = (a, B)" by (cases e)
  have "rspine l r p d R (p a) \<Longrightarrow> p a \<noteq> x" using Cons.prems e rspine_mem [of l r p d R "p a"] by auto
  then show ?case using Cons e by (auto simp del: fun_upd_apply simp: fun_upd_other)
qed simp

lemma lspine_upd_p [simp]: "x \<notin> set (lflat L) \<Longrightarrow> lspine l r (p(x := v)) d L c = lspine l r p d L c"
proof (induction L arbitrary: c)
  case (Cons e L)
  obtain A a where e: "e = (A, a)" by (cases e)
  from Cons.prems e have a: "a \<noteq> x" "x \<notin> set_tree A" "x \<notin> set (lflat L)" by auto
  have IH: "lspine l r (p(x := v)) d L c = lspine l r p d L c" for c by (rule Cons.IH [OF a(3)])
  have "(p(x := v)) (l a) = p (l a)" if "tree_at l r p (l a) A" "l a \<noteq> NULL"
    using tree_at_root [OF that] a(2) by (intro fun_upd_other) blast
  then show ?case unfolding e lspine.simps IH tree_at_upd_p [OF a(2)] fun_upd_other [OF a(1)]
    by metis
qed simp

lemma rspine_upd_p [simp]: "x \<notin> set (rflat R) \<Longrightarrow> rspine l r (p(x := v)) d R c = rspine l r p d R c"
proof (induction R arbitrary: c)
  case (Cons e R)
  obtain a B where e: "e = (a, B)" by (cases e)
  from Cons.prems e have a: "a \<noteq> x" "x \<notin> set_tree B" "x \<notin> set (rflat R)" by auto
  have IH: "rspine l r (p(x := v)) d R c = rspine l r p d R c" for c by (rule Cons.IH [OF a(3)])
  have "(p(x := v)) (r a) = p (r a)" if "tree_at l r p (r a) B" "r a \<noteq> NULL"
    using tree_at_root [OF that] a(2) by (intro fun_upd_other) blast
  then show ?case unfolding e rspine.simps IH tree_at_upd_p [OF a(2)] fun_upd_other [OF a(1)]
    by metis
qed simp

text \<open>The open link of the innermost spine node is free to change.\<close>

lemma lspine_upd_head:
  assumes "distinct (lflat L)" and "d \<notin> set (lflat L)"
  shows "lspine l (r(c := v)) p d L c = lspine l r p d L c"
proof (cases L)
  case (Cons e L')
  obtain A a where e: "e = (A, a)" by (cases e)
  have "lspine l r p d L' (p a) \<Longrightarrow> p a \<noteq> a"
    using assms Cons e lspine_mem [of l r p d L' "p a"] by auto
  then show ?thesis using assms Cons e by (auto simp del: fun_upd_apply simp: fun_upd_other lspine_upd_r)
qed simp

lemma rspine_upd_head:
  assumes "distinct (rflat R)" and "d \<notin> set (rflat R)"
  shows "rspine (l(c := v)) r p d R c = rspine l r p d R c"
proof (cases R)
  case (Cons e R')
  obtain a B where e: "e = (a, B)" by (cases e)
  have "rspine l r p d R' (p a) \<Longrightarrow> p a \<noteq> a"
    using assms Cons e rspine_mem [of l r p d R' "p a"] by auto
  then show ?thesis using assms Cons e by (auto simp del: fun_upd_apply simp: fun_upd_other rspine_upd_l)
qed simp

text \<open>Filling the open link closes the spine to a tree below the local node.\<close>

lemma lspine_close:
  "lspine l r p d L c \<Longrightarrow> tree_at l r p (r c) A \<Longrightarrow> (r c \<noteq> NULL \<longrightarrow> p (r c) = c) \<Longrightarrow>
   tree_at l r p (r d) (ltree L A)"
  by (induction L A arbitrary: c rule: ltree.induct) auto

lemma rspine_close:
  "rspine l r p d R c \<Longrightarrow> tree_at l r p (l c) B \<Longrightarrow> (l c \<noteq> NULL \<longrightarrow> p (l c) = c) \<Longrightarrow>
   tree_at l r p (l d) (rtree R B)"
  by (induction R B arbitrary: c rule: rtree.induct) auto

subsection \<open>The loop invariant and its four moves\<close>

definition splay_st :: "heap \<Rightarrow> addr \<Rightarrow> addr lspine \<Rightarrow> addr tree \<Rightarrow> addr rspine \<Rightarrow> splay_vars \<Rightarrow> bool" where
  "splay_st h d L T R = (\<lambda>(lc, rc, t).
     lspine (fl h) (fr h) (fp h) d L lc \<and> rspine (fl h) (fr h) (fp h) d R rc \<and>
     tree_at (fl h) (fr h) (fp h) t T \<and> T \<noteq> Leaf \<and>
     distinct (lflat L @ inorder T @ rflat R) \<and> d \<notin> set (lflat L @ inorder T @ rflat R) \<and>
     d \<noteq> NULL \<and> insert d (set (lflat L @ inorder T @ rflat R)) \<subseteq> dom h \<and> fp h d = NULL)"

definition moved :: "heap \<Rightarrow> addr set \<Rightarrow> heap \<Rightarrow> bool" where
  "moved h X h' \<longleftrightarrow> same_data h h' \<and> (\<forall>x. x \<notin> X \<longrightarrow> h' x = h x)"

lemma moved_refl [simp]: "moved h X h"
  by (simp add: moved_def)

lemma moved_trans: "moved h X h' \<Longrightarrow> moved h' X h'' \<Longrightarrow> moved h X h''"
  by (auto simp: moved_def intro: same_data_trans)

lemma moved_mk_child:
  assumes "a \<in> X" "b = NULL \<or> b \<in> X" "a \<in> dom h" "b = NULL \<or> b \<in> dom h"
  shows "moved h X (mk_child a w b h)"
  unfolding moved_def
proof (intro conjI allI impI)
  show "same_data h (mk_child a w b h)" using assms by (intro same_data_mk_child)
  show "mk_child a w b h x = h x" if "x \<notin> X" for x
    using assms(1,2) that by (intro mk_child_other) auto
qed

lemmas fun_upd_simps = fun_upd_same fun_upd_other

text \<open>The root of a non-empty subtree is one of its nodes, hence none of the nodes outside.\<close>

lemma child_mem: "tree_at l r p c T \<Longrightarrow> c \<noteq> NULL \<Longrightarrow> x \<notin> set_tree T \<Longrightarrow> c \<noteq> x"
  using tree_at_root by blast

lemma splay_st_link_right:
  assumes "splay_st h d L (Node A a B) R (lc, rc, a)" and "A \<noteq> Leaf"
  shows "splay_st (mk_child rc SP_L a h) d L A ((a, B) # R) (lc, a, fl h a)"
proof -
  note st = assms(1) [unfolded splay_st_def, simplified]
  have rc: "rc \<in> insert d (set (rflat R))" "rc \<noteq> d \<Longrightarrow> fp h rc \<in> insert d (set (rflat R))"
    using st rspine_mem rspine_parent by fast+
  have out: "rc \<noteq> a" "rc \<notin> set (lflat L)" "rc \<notin> set_tree A" "rc \<notin> set_tree B" using rc(1) st by auto
  have ne': "fp h rc \<noteq> a" using rc(2) st by (cases "rc = d") auto
  have dom: "dom (mk_child rc SP_L a h) = dom h" using rc st by (intro dom_mk_child) auto
  have fp: "fp (mk_child rc SP_L a h) = (fp h)(a := rc)" using out ne' st by (simp add: fp_mk_child)
  have "fr h a \<noteq> NULL \<Longrightarrow> fr h a \<noteq> a" using st child_mem [of _ _ _ "fr h a" B a] by blast
  moreover have "rspine ((fl h)(rc := a)) (fr h) (fp h) d R rc" using st by (simp add: rspine_upd_head)
  ultimately show ?thesis using st assms(2) out dom fp
    by (simp del: fun_upd_apply add: fun_upd_simps splay_st_def Int_Un_distrib Un_commute)
qed

lemma splay_st_link_left:
  assumes "splay_st h d L (Node A a B) R (lc, rc, a)" and "B \<noteq> Leaf"
  shows "splay_st (mk_child lc SP_R a h) d ((A, a) # L) B R (a, rc, fr h a)"
proof -
  note st = assms(1) [unfolded splay_st_def, simplified]
  have lc: "lc \<in> insert d (set (lflat L))" "lc \<noteq> d \<Longrightarrow> fp h lc \<in> insert d (set (lflat L))"
    using st lspine_mem lspine_parent by fast+
  have out: "lc \<noteq> a" "lc \<notin> set (rflat R)" "lc \<notin> set_tree A" "lc \<notin> set_tree B" using lc(1) st by auto
  have ne': "fp h lc \<noteq> a" using lc(2) st by (cases "lc = d") auto
  have dom: "dom (mk_child lc SP_R a h) = dom h" using lc st by (intro dom_mk_child) auto
  have fp: "fp (mk_child lc SP_R a h) = (fp h)(a := lc)" using out ne' st by (simp add: fp_mk_child)
  have "fl h a \<noteq> NULL \<Longrightarrow> fl h a \<noteq> a" using st child_mem [of _ _ _ "fl h a" A a] by blast
  moreover have "lspine (fl h) ((fr h)(lc := a)) (fp h) d L lc" using st by (simp add: lspine_upd_head)
  ultimately show ?thesis using st assms(2) out dom fp
    by (simp del: fun_upd_apply add: fun_upd_simps splay_st_def Int_Un_distrib Int_Un_distrib2)
qed

lemma splay_st_rotate_right:
  assumes "splay_st h d L (Node (Node C c D) a B) R (lc, rc, a)"
  shows "splay_st (mk_child c SP_R a (mk_child a SP_L (fr h c) h)) d L (Node C c (Node D a B)) R (lc, rc, c)"
proof -
  note st = assms [unfolded splay_st_def, simplified]
  let ?h1 = "mk_child a SP_L (fr h c) h"
  have trees: "tree_at (fl h) (fr h) (fp h) (fl h c) C" "tree_at (fl h) (fr h) (fp h) (fr h c) D"
    "tree_at (fl h) (fr h) (fp h) (fr h a) B" and nn: "a \<noteq> NULL" "c \<noteq> NULL" "d \<noteq> NULL"
    and ac: "fl h a = c" using st by simp_all
  have C: "fl h c = NULL \<or> fl h c \<in> set_tree C" and D: "fr h c = NULL \<or> fr h c \<in> set_tree D"
    and B: "fr h a = NULL \<or> fr h a \<in> set_tree B" using trees by (auto dest: tree_at_root)
  have dist: "distinct (lflat L @ inorder C @ c # inorder D @ a # inorder B @ rflat R)"
    and dn: "d \<notin> set_tree D" "d \<noteq> a" "d \<noteq> c" using assms by (simp_all add: splay_st_def)
  have nin: "a \<notin> set_tree C" "a \<notin> set_tree D" "a \<notin> set_tree B" "c \<notin> set_tree C" "c \<notin> set_tree D"
    "c \<notin> set_tree B" and c: "c \<noteq> a" and disj: "set_tree D \<inter> set_tree C = {}"
    "set_tree D \<inter> set_tree B = {}" "set_tree D \<inter> set (lflat L) = {}" "set_tree D \<inter> set (rflat R) = {}"
    using dist by auto
  have out: "fr h c \<noteq> a" "fr h c \<noteq> c" "fl h c \<noteq> a" "fl h c \<noteq> c" "fr h a \<noteq> c" "fr h a \<noteq> a" "fr h c \<noteq> d"
    using C D B nin dn nn by metis+
  have outD: "fr h c \<notin> set_tree C" "fr h c \<notin> set_tree B" "fr h c \<notin> set (lflat L)"
     "fr h c \<notin> set (rflat R)" if "fr h c \<noteq> NULL"
    using D disj that by blast+
  then have outD': "fl h c \<noteq> fr h c" "fr h a \<noteq> fr h c" if "fr h c \<noteq> NULL"
    using C B that by metis+
  obtain z where z: "fp ?h1 = (if fr h c = NULL then fp h else (fp h)(fr h c := a))(a := z)"
    using fp_mk_child_gen [OF out(1) [symmetric], of SP_L h] by blast
  obtain z' where z': "fp (mk_child c SP_R a ?h1) = (if a = NULL then fp ?h1 else (fp ?h1)(a := c))(c := z')"
    using fp_mk_child_gen [OF c, of SP_R ?h1] by blast
  have in_dom: "a \<in> dom h" "c \<in> dom h" "set_tree D \<subseteq> dom h" using st by simp_all
  then have dom1: "dom ?h1 = dom h" using D by (intro dom_mk_child) auto
  then have dom: "dom (mk_child c SP_R a ?h1) = dom h" using in_dom by (subst dom_mk_child) auto
  have "c \<notin> insert d (set (lflat L))" "a \<notin> insert d (set (rflat R))" using dist dn by auto
  then have spines: "lspine (fl h) ((fr h)(c := a)) (fp h) d L lc"
    "rspine ((fl h)(a := fr h c)) (fr h) (fp h) d R rc"
    using st by (simp_all del: insert_iff add: lspine_upd_r rspine_upd_l)
  show ?thesis
  proof (cases "fr h c = NULL")
    case True
    then have "D = Leaf" using trees(2) by simp
    with True st spines z z' dom out outD outD' c ac nin dn nn(1) show ?thesis
      by (simp del: fun_upd_apply add: fun_upd_simps splay_st_def Int_Un_distrib Int_Un_distrib2) 
  next
    case False
    with st spines z z' dom out outD outD' c ac nin dn nn(1) show ?thesis
      by (simp del: fun_upd_apply add: fun_upd_simps splay_st_def Int_Un_distrib Int_Un_distrib2)
  qed
qed

lemma splay_st_rotate_left:
  assumes "splay_st h d L (Node A a (Node C c D)) R (lc, rc, a)"
  shows "splay_st (mk_child c SP_L a (mk_child a SP_R (fl h c) h)) d L (Node (Node A a C) c D) R (lc, rc, c)"
proof -
  note st = assms [unfolded splay_st_def, simplified]
  let ?h1 = "mk_child a SP_R (fl h c) h"
  have trees: "tree_at (fl h) (fr h) (fp h) (fl h c) C" "tree_at (fl h) (fr h) (fp h) (fr h c) D"
    "tree_at (fl h) (fr h) (fp h) (fl h a) A" and nn: "a \<noteq> NULL" "c \<noteq> NULL" "d \<noteq> NULL"
    and ac: "fr h a = c" using st by simp_all
  have C: "fl h c = NULL \<or> fl h c \<in> set_tree C" and D: "fr h c = NULL \<or> fr h c \<in> set_tree D"
    and A: "fl h a = NULL \<or> fl h a \<in> set_tree A" using trees by (auto dest: tree_at_root)
  have dist: "distinct (lflat L @ inorder A @ a # inorder C @ c # inorder D @ rflat R)"
    and dn: "d \<notin> set_tree C" "d \<noteq> a" "d \<noteq> c" using assms by (simp_all add: splay_st_def)
  have nin: "a \<notin> set_tree C" "a \<notin> set_tree D" "a \<notin> set_tree A" "c \<notin> set_tree C" "c \<notin> set_tree D"
    "c \<notin> set_tree A" and c: "c \<noteq> a" and disj: "set_tree C \<inter> set_tree D = {}"
    "set_tree C \<inter> set_tree A = {}" "set_tree C \<inter> set (lflat L) = {}" "set_tree C \<inter> set (rflat R) = {}"
    using dist by auto
  have out: "fl h c \<noteq> a" "fl h c \<noteq> c" "fr h c \<noteq> a" "fr h c \<noteq> c" "fl h a \<noteq> c" "fl h a \<noteq> a" "fl h c \<noteq> d"
    using C D A nin dn nn by metis+
  have outC: "fl h c \<notin> set_tree D" "fl h c \<notin> set_tree A" "fl h c \<notin> set (lflat L)"
     "fl h c \<notin> set (rflat R)" if "fl h c \<noteq> NULL"
    using C disj that by blast+
  then have outC': "fr h c \<noteq> fl h c" "fl h a \<noteq> fl h c" if "fl h c \<noteq> NULL"
    using D A that by metis+
  obtain z where z: "fp ?h1 = (if fl h c = NULL then fp h else (fp h)(fl h c := a))(a := z)"
    using fp_mk_child_gen [OF out(1) [symmetric], of SP_R h] by blast
  obtain z' where z': "fp (mk_child c SP_L a ?h1) = (if a = NULL then fp ?h1 else (fp ?h1)(a := c))(c := z')"
    using fp_mk_child_gen [OF c, of SP_L ?h1] by blast
  have in_dom: "a \<in> dom h" "c \<in> dom h" "set_tree C \<subseteq> dom h" using st by simp_all
  then have dom1: "dom ?h1 = dom h" using C by (intro dom_mk_child) auto
  then have dom: "dom (mk_child c SP_L a ?h1) = dom h" using in_dom by (subst dom_mk_child) auto
  have "a \<notin> insert d (set (lflat L))" "c \<notin> insert d (set (rflat R))" using dist dn by auto
  then have spines: "lspine (fl h) ((fr h)(a := fl h c)) (fp h) d L lc"
    "rspine ((fl h)(c := a)) (fr h) (fp h) d R rc"
    using st by (simp_all del: insert_iff add: lspine_upd_r rspine_upd_l)
  show ?thesis
  proof (cases "fl h c = NULL")
    case True
    then have "C = Leaf" using trees(1) by simp
    with True st spines z z' dom out outC outC' c ac nin dn nn(1) show ?thesis
      by (simp del: fun_upd_apply add: fun_upd_simps splay_st_def Int_Un_distrib Int_Un_distrib2)
  next
    case False
    with st spines z z' dom out outC outC' c ac nin dn nn(1) show ?thesis
      by (simp del: fun_upd_apply add: fun_upd_simps splay_st_def Int_Un_distrib Int_Un_distrib2)
  qed
qed

subsection \<open>The moves as executed\<close>

lemma lspine_nonnull: "lspine l r p d L c \<Longrightarrow> d \<noteq> NULL \<Longrightarrow> c \<noteq> NULL"
  by (cases L) auto

lemma rspine_nonnull: "rspine l r p d R c \<Longrightarrow> d \<noteq> NULL \<Longrightarrow> c \<noteq> NULL"
  by (cases R) auto

lemma get_field_view:
  assumes "p \<in> dom h" and "p \<noteq> NULL"
  shows "get_field sp_l p (s\<lparr>vmas := h\<rparr>) = Inr (fl h p, s\<lparr>vmas := h\<rparr>)"
    and "get_field sp_r p (s\<lparr>vmas := h\<rparr>) = Inr (fr h p, s\<lparr>vmas := h\<rparr>)"
    and "get_field vm_start p (s\<lparr>vmas := h\<rparr>) = Inr (start_of h p, s\<lparr>vmas := h\<rparr>)"
  using assms by (auto simp: field_defs)

lemma link_right_run:
  assumes st: "splay_st h d L (Node A a B) R (lc, rc, a)"
  shows "link_right lc rc a (s\<lparr>vmas := h\<rparr>) =
         Inr (Continue (lc, a, fl h a), s\<lparr>vmas := mk_child rc SP_L a h\<rparr>)"
proof -
  note st' = st [unfolded splay_st_def, simplified]
  have rc: "rc \<in> insert d (set (rflat R))" "rc \<noteq> NULL" using st' rspine_mem rspine_nonnull by fast+
  have ne: "rc \<noteq> a" "rc \<in> dom h" "a \<in> dom h" "a \<noteq> NULL" using rc st' by auto
  then have "a \<in> dom (mk_child rc SP_L a h)" by (simp add: dom_mk_child)
  with ne rc(2) show ?thesis
    by (simp add: link_right_def bnd_def MAKE_CHILD_ret get_field_view)
qed

lemma link_left_run:
  assumes st: "splay_st h d L (Node A a B) R (lc, rc, a)"
  shows "link_left lc rc a (s\<lparr>vmas := h\<rparr>) =
         Inr (Continue (a, rc, fr h a), s\<lparr>vmas := mk_child lc SP_R a h\<rparr>)"
proof -
  note st' = st [unfolded splay_st_def, simplified]
  have lc: "lc \<in> insert d (set (lflat L))" "lc \<noteq> NULL" using st' lspine_mem lspine_nonnull by fast+
  have ne: "lc \<noteq> a" "lc \<in> dom h" "a \<in> dom h" "a \<noteq> NULL" using lc st' by auto
  then have "a \<in> dom (mk_child lc SP_R a h)" by (simp add: dom_mk_child)
  with ne lc(2) show ?thesis
    by (simp add: link_left_def bnd_def MAKE_CHILD_ret get_field_view)
qed

lemma rotate_right_run:
  assumes st: "splay_st h d L (Node (Node C c D) a B) R (lc, rc, a)"
  shows "bnd (MAKE_CHILD a SP_L (get_field sp_r c)) (\<lambda>_. bnd (MAKE_CHILD c SP_R (ret a)) f) (s\<lparr>vmas := h\<rparr>) =
         f () (s\<lparr>vmas := mk_child c SP_R a (mk_child a SP_L (fr h c) h)\<rparr>)"
proof -
  note st' = st [unfolded splay_st_def, simplified]
  have fr: "fr h c = NULL \<or> fr h c \<in> set_tree D" using st' tree_at_root by metis
  have dom: "c \<in> dom h" "a \<in> dom h" "set_tree D \<subseteq> dom h" "a \<noteq> NULL" "c \<noteq> NULL" "c \<noteq> a"
    "a \<notin> set_tree D" "c \<notin> set_tree D" using st' by simp_all
  then have m1: "MAKE_CHILD a SP_L (get_field sp_r c) (s\<lparr>vmas := h\<rparr>) =
      Inr ((), s\<lparr>vmas := mk_child a SP_L (fr h c) h\<rparr>)"
    using fr by (subst MAKE_CHILD_field [where b = "fr h c"]) (auto simp: fr_def)
  have "dom (mk_child a SP_L (fr h c) h) = dom h" using dom fr by (intro dom_mk_child) auto
  then have "MAKE_CHILD c SP_R (ret a) (s\<lparr>vmas := mk_child a SP_L (fr h c) h\<rparr>) =
      Inr ((), s\<lparr>vmas := mk_child c SP_R a (mk_child a SP_L (fr h c) h)\<rparr>)"
    using dom by (subst MAKE_CHILD_ret) auto
  with m1 show ?thesis by (simp add: bnd_def)
qed

lemma rotate_left_run:
  assumes st: "splay_st h d L (Node A a (Node C c D)) R (lc, rc, a)"
  shows "bnd (MAKE_CHILD a SP_R (get_field sp_l c)) (\<lambda>_. bnd (MAKE_CHILD c SP_L (ret a)) f) (s\<lparr>vmas := h\<rparr>) =
         f () (s\<lparr>vmas := mk_child c SP_L a (mk_child a SP_R (fl h c) h)\<rparr>)"
proof -
  note st' = st [unfolded splay_st_def, simplified]
  have fl: "fl h c = NULL \<or> fl h c \<in> set_tree C" using st' tree_at_root by metis
  have dom: "c \<in> dom h" "a \<in> dom h" "set_tree C \<subseteq> dom h" "a \<noteq> NULL" "c \<noteq> NULL" "a \<noteq> c"
    "a \<notin> set_tree C" "c \<notin> set_tree C" using st' by simp_all
  then have m1: "MAKE_CHILD a SP_R (get_field sp_l c) (s\<lparr>vmas := h\<rparr>) =
      Inr ((), s\<lparr>vmas := mk_child a SP_R (fl h c) h\<rparr>)"
    using fl by (subst MAKE_CHILD_field [where b = "fl h c"]) (auto simp: fl_def)
  have "dom (mk_child a SP_R (fl h c) h) = dom h" using dom fl by (intro dom_mk_child) auto
  then have "MAKE_CHILD c SP_L (ret a) (s\<lparr>vmas := mk_child a SP_R (fl h c) h\<rparr>) =
      Inr ((), s\<lparr>vmas := mk_child c SP_L a (mk_child a SP_R (fl h c) h)\<rparr>)"
    using dom by (subst MAKE_CHILD_ret) auto
  with m1 show ?thesis by (simp add: bnd_def)
qed

subsection \<open>The loop\<close>

definition spine_nodes :: "addr \<Rightarrow> addr lspine \<Rightarrow> addr tree \<Rightarrow> addr rspine \<Rightarrow> addr set" where
  "spine_nodes d L T R = insert d (set (lflat L @ inorder T @ rflat R))"

lemma splay_st_facts:
  assumes "splay_st h d L (Node A a B) R (lc, rc, t)"
  shows "t = a" "a \<noteq> NULL" "a \<in> dom h" "fl h a = NULL \<longleftrightarrow> A = Leaf" "fr h a = NULL \<longleftrightarrow> B = Leaf"
    "tree_at (fl h) (fr h) (fp h) (fl h a) A" "tree_at (fl h) (fr h) (fp h) (fr h a) B"
    "spine_nodes d L (Node A a B) R \<subseteq> dom h" "lc \<in> spine_nodes d L (Node A a B) R"
    "rc \<in> spine_nodes d L (Node A a B) R" "a \<in> spine_nodes d L (Node A a B) R"
proof -
  note st = assms [unfolded splay_st_def, simplified]
  show "t = a" "a \<noteq> NULL" "a \<in> dom h" using st by simp_all
  show A: "tree_at (fl h) (fr h) (fp h) (fl h a) A" and B: "tree_at (fl h) (fr h) (fp h) (fr h a) B"
    using st by simp_all
  show "fl h a = NULL \<longleftrightarrow> A = Leaf" using A by (cases A) auto
  show "fr h a = NULL \<longleftrightarrow> B = Leaf" using B by (cases B) auto
  show "spine_nodes d L (Node A a B) R \<subseteq> dom h" using st by (simp add: spine_nodes_def)
  show "lc \<in> spine_nodes d L (Node A a B) R" using st lspine_mem [of _ _ _ d L lc] by (auto simp: spine_nodes_def)
  show "rc \<in> spine_nodes d L (Node A a B) R" using st rspine_mem [of _ _ _ d R rc] by (auto simp: spine_nodes_def)
  show "a \<in> spine_nodes d L (Node A a B) R" by (simp add: spine_nodes_def)
qed

lemma moved_link_right:
  assumes "splay_st h d L (Node A a B) R (lc, rc, a)"
  shows "moved h (spine_nodes d L (Node A a B) R) (mk_child rc SP_L a h)"
  using splay_st_facts [OF assms] by (intro moved_mk_child) auto

lemma moved_link_left:
  assumes "splay_st h d L (Node A a B) R (lc, rc, a)"
  shows "moved h (spine_nodes d L (Node A a B) R) (mk_child lc SP_R a h)"
  using splay_st_facts [OF assms] by (intro moved_mk_child) auto

lemma moved_rotate_right:
  assumes st: "splay_st h d L (Node (Node C c D) a B) R (lc, rc, a)"
  shows "moved h (spine_nodes d L (Node (Node C c D) a B) R) (mk_child c SP_R a (mk_child a SP_L (fr h c) h))"
    (is "moved h ?X (mk_child c SP_R a ?h1)")
proof -
  note f = splay_st_facts [OF st]
  have "tree_at (fl h) (fr h) (fp h) (fr h c) D" using f(6) by simp
  then have "fr h c = NULL \<or> fr h c \<in> ?X" using tree_at_root by (fastforce simp: spine_nodes_def)
  then have m: "moved h ?X ?h1" using f by (intro moved_mk_child) auto
  then have "dom ?h1 = dom h" by (simp add: moved_def same_data_dom)
  moreover have "c \<in> ?X" by (simp add: spine_nodes_def)
  ultimately have "moved ?h1 ?X (mk_child c SP_R a ?h1)" using f by (intro moved_mk_child) auto
  with m show ?thesis by (rule moved_trans)
qed

lemma moved_rotate_left:
  assumes st: "splay_st h d L (Node A a (Node C c D)) R (lc, rc, a)"
  shows "moved h (spine_nodes d L (Node A a (Node C c D)) R) (mk_child c SP_L a (mk_child a SP_R (fl h c) h))"
    (is "moved h ?X (mk_child c SP_L a ?h1)")
proof -
  note f = splay_st_facts [OF st]
  have "tree_at (fl h) (fr h) (fp h) (fl h c) C" using f(7) by simp
  then have "fl h c = NULL \<or> fl h c \<in> ?X" using tree_at_root by (fastforce simp: spine_nodes_def)
  then have m: "moved h ?X ?h1" using f by (intro moved_mk_child) auto
  then have "dom ?h1 = dom h" by (simp add: moved_def same_data_dom)
  moreover have "c \<in> ?X" by (simp add: spine_nodes_def)
  ultimately have "moved ?h1 ?X (mk_child c SP_L a ?h1)" using f by (intro moved_mk_child) auto
  with m show ?thesis by (rule moved_trans)
qed

lemma moved_keys:
  "moved h X h' \<Longrightarrow> \<forall>a \<in> dom h. start_of h a = k a \<Longrightarrow> \<forall>a \<in> dom h'. start_of h' a = k a"
  by (metis moved_def same_data_dom same_data_start)

text \<open>What one iteration does, case by case.\<close>

definition outcome :: "addr \<Rightarrow> splay_vars \<Rightarrow> 'z st_scheme \<Rightarrow> heap \<Rightarrow> (splay_vars, splay_vars) ctrl \<Rightarrow> heap \<Rightarrow> bool" where
  "outcome x v s h c h' \<longleftrightarrow> splay_iter x v (s\<lparr>vmas := h\<rparr>) = Inr (c, s\<lparr>vmas := h'\<rparr>)"

lemma iter_stop:
  assumes "splay_st h d L T R v" and "stopped (start_of h) x T"
  shows "outcome x v s h (Break v) h"
proof -
  obtain lc rc t where v: "v = (lc, rc, t)" by (cases v)
  obtain A a B where T: "T = Node A a B" using assms(2) by (cases T) (auto simp: stopped_def)
  note f = splay_st_facts [OF assms(1) [unfolded v T]]
  show ?thesis using assms(2) f(1-5)
    by (auto simp: outcome_def v T stopped_def splay_iter_def bnd_def get_field_view)
qed


lemma iter_link_right:
  assumes "splay_st h d L (Node (Node C c D) a B) R (lc, rc, a)" and "x < start_of h a" and "\<not> x < start_of h c"
  shows "outcome x (lc, rc, a) s h (Continue (lc, a, c)) (mk_child rc SP_L a h)"
proof -
  note f = splay_st_facts [OF assms(1)]
  have c: "fl h a = c" "c \<noteq> NULL" "c \<in> dom h" using f(6,8) by (simp_all add: spine_nodes_def)
  show ?thesis using assms(2,3) f(2,3) c
    by (simp add: outcome_def splay_iter_def bnd_def get_field_view link_right_run [OF assms(1)])
qed

lemma iter_link_left:
  assumes "splay_st h d L (Node A a (Node C c D)) R (lc, rc, a)" and "start_of h a < x" and "\<not> start_of h c < x"
  shows "outcome x (lc, rc, a) s h (Continue (a, rc, c)) (mk_child lc SP_R a h)"
proof -
  note f = splay_st_facts [OF assms(1)]
  have c: "fr h a = c" "c \<noteq> NULL" "c \<in> dom h" using f(7,8) by (simp_all add: spine_nodes_def)
  show ?thesis using assms(2,3) f(2,3) c less_not_sym [OF assms(2)]
    by (simp add: outcome_def splay_iter_def bnd_def get_field_view link_left_run [OF assms(1)])
qed

lemma iter_rotate_right:
  assumes "splay_st h d L (Node (Node C c D) a B) R (lc, rc, a)" and "x < start_of h a" and "x < start_of h c"
  defines "h1 \<equiv> mk_child c SP_R a (mk_child a SP_L (fr h c) h)"
  shows "C = Leaf \<Longrightarrow> outcome x (lc, rc, a) s h (Break (lc, rc, c)) h1"
    and "C \<noteq> Leaf \<Longrightarrow> outcome x (lc, rc, a) s h (Continue (lc, c, fl h1 c)) (mk_child rc SP_L c h1)"
proof -
  note f = splay_st_facts [OF assms(1)]
  have st1: "splay_st h1 d L (Node C c (Node D a B)) R (lc, rc, c)"
    unfolding h1_def by (rule splay_st_rotate_right [OF assms(1)])
  note f1 = splay_st_facts [OF st1]
  have c: "fl h a = c" "c \<noteq> NULL" "c \<in> dom h" using f(6,8) by (simp_all add: spine_nodes_def)
  note run = splay_iter_def bnd_def [of "get_field f p" for f p] rotate_right_run [OF assms(1), folded h1_def]
    get_field_view
  show "outcome x (lc, rc, a) s h (Break (lc, rc, c)) h1" if "C = Leaf"
    using assms(2,3) f(2,3) c f1(2-4) that by (simp add: outcome_def run)
  show "outcome x (lc, rc, a) s h (Continue (lc, c, fl h1 c)) (mk_child rc SP_L c h1)" if "C \<noteq> Leaf"
    using assms(2,3) f(2,3) c f1(2-4) that by (simp add: outcome_def run link_right_run [OF st1])
qed

lemma iter_rotate_left:
  assumes "splay_st h d L (Node A a (Node C c D)) R (lc, rc, a)" and "start_of h a < x" and "start_of h c < x"
  defines "h1 \<equiv> mk_child c SP_L a (mk_child a SP_R (fl h c) h)"
  shows "D = Leaf \<Longrightarrow> outcome x (lc, rc, a) s h (Break (lc, rc, c)) h1"
    and "D \<noteq> Leaf \<Longrightarrow> outcome x (lc, rc, a) s h (Continue (c, rc, fr h1 c)) (mk_child lc SP_R c h1)"
proof -
  note f = splay_st_facts [OF assms(1)]
  have st1: "splay_st h1 d L (Node (Node A a C) c D) R (lc, rc, c)"
    unfolding h1_def by (rule splay_st_rotate_left [OF assms(1)])
  note f1 = splay_st_facts [OF st1]
  have c: "fr h a = c" "c \<noteq> NULL" "c \<in> dom h" using f(7,8) by (simp_all add: spine_nodes_def)
  note run = splay_iter_def bnd_def [of "get_field f p" for f p] rotate_left_run [OF assms(1), folded h1_def]
    get_field_view
  show "outcome x (lc, rc, a) s h (Break (lc, rc, c)) h1" if "D = Leaf"
    using assms(2,3) f(2,3) c f1(2-5) that less_not_sym [OF assms(2)] by (simp add: outcome_def run)
  show "outcome x (lc, rc, a) s h (Continue (c, rc, fr h1 c)) (mk_child lc SP_R c h1)" if "D \<noteq> Leaf"
    using assms(2,3) f(2,3) c f1(2-5) that less_not_sym [OF assms(2)] by (simp add: outcome_def run link_left_run [OF st1])
qed

text \<open>The loop, and what it leaves behind.\<close>

definition loops :: "addr \<Rightarrow> 'z st_scheme \<Rightarrow> (addr \<Rightarrow> addr) \<Rightarrow> heap \<Rightarrow> addr \<Rightarrow> addr lspine \<Rightarrow> addr tree \<Rightarrow> addr rspine \<Rightarrow>
    splay_vars \<Rightarrow> bool" where
  "loops x s k h d L T R v \<longleftrightarrow>
     (\<forall>L' T' R'. splay_abs k x L T R = (L', T', R') \<longrightarrow>
        (\<exists>h' v'. forever (splay_iter x) v (s\<lparr>vmas := h\<rparr>) = Inr (v', s\<lparr>vmas := h'\<rparr>) \<and>
           splay_st h' d L' T' R' v' \<and> moved h (spine_nodes d L T R) h'))"

lemma loops_break:
  assumes "outcome x v s h (Break v') h'" and "splay_st h' d L' T' R' v'"
    and "splay_abs k x L T R = (L', T', R')" and "moved h (spine_nodes d L T R) h'"
  shows "loops x s k h d L T R v"
  unfolding loops_def using assms forever_Break [of "splay_iter x" v "s\<lparr>vmas := h\<rparr>" v' "s\<lparr>vmas := h'\<rparr>"]
  by (auto simp: outcome_def)

lemma loops_continue:
  assumes "outcome x v s h (Continue v') h'" and "loops x s k h' d L1 T1 R1 v'"
    and "splay_abs k x L T R = splay_abs k x L1 T1 R1" and "moved h (spine_nodes d L T R) h'"
    and "spine_nodes d L1 T1 R1 = spine_nodes d L T R"
  shows "loops x s k h d L T R v"
  unfolding loops_def
proof (intro allI impI)
  fix L' T' R' assume "splay_abs k x L T R = (L', T', R')"
  then have "splay_abs k x L1 T1 R1 = (L', T', R')" using assms(3) by simp
  from assms(2) [unfolded loops_def, rule_format, OF this] obtain h2 v2 where "forever (splay_iter x) v' (s\<lparr>vmas := h'\<rparr>) = Inr (v2, s\<lparr>vmas := h2\<rparr>)"
    "splay_st h2 d L' T' R' v2" "moved h' (spine_nodes d L1 T1 R1) h2" by blast
  moreover have "forever (splay_iter x) v (s\<lparr>vmas := h\<rparr>) = forever (splay_iter x) v' (s\<lparr>vmas := h'\<rparr>)"
    using assms(1) by (simp add: outcome_def forever_Continue)
  moreover have "moved h (spine_nodes d L T R) h2"
    by (rule moved_trans [OF assms(4) calculation(3) [unfolded assms(5)]])
  ultimately show "\<exists>h' v'. forever (splay_iter x) v (s\<lparr>vmas := h\<rparr>) = Inr (v', s\<lparr>vmas := h'\<rparr>) \<and>
           splay_st h' d L' T' R' v' \<and> moved h (spine_nodes d L T R) h'"
    by (intro exI [of _ h2] exI [of _ v2]) simp
qed

lemma loop_run:
  "splay_st h d L T R v \<Longrightarrow> \<forall>a \<in> dom h. start_of h a = k a \<Longrightarrow> loops x s k h d L T R v"
proof (induction T arbitrary: h L R v rule: measure_induct_rule [of size])
  case (less T)
  obtain lc rc t where v: "v = (lc, rc, t)" by (cases v)
  obtain A a B where T: "T = Node A a B" using less.prems(1) by (cases T) (auto simp: splay_st_def v)
  note def = splay_abs.simps(2) [of k x L A a B R]
  note f = splay_st_facts [OF less.prems(1) [unfolded v T]]
  note st = less.prems(1) [unfolded v T f(1)]
  have dom: "\<And>b. b \<in> set_tree T \<Longrightarrow> start_of h b = k b"
    using f(8) less.prems(2) by (auto simp: spine_nodes_def T)
  consider (lt) "x < k a" "A \<noteq> Leaf" | (gt) "k a < x" "B \<noteq> Leaf" | (stop) "stopped k x T"
    by (auto simp: T stopped_def)
  then show ?case
  proof cases
    case lt
    then obtain C c D where A: "A = Node C c D" by (cases A) auto
    note st = st [unfolded A]
    have k: "start_of h a = k a" "start_of h c = k c" using dom by (simp_all add: T A)
    have c: "fl h a = c" using st by (simp add: splay_st_def)
    show ?thesis
    proof (cases "x < k c")
      case True
      let ?h1 = "mk_child c SP_R a (mk_child a SP_L (fr h c) h)"
      have st1: "splay_st ?h1 d L (Node C c (Node D a B)) R (lc, rc, c)" by (rule splay_st_rotate_right [OF st])
      note m1 = moved_rotate_right [OF st]
      show ?thesis
      proof (cases "C = Leaf")
        case C: True
        show ?thesis unfolding v T f(1)
          by (rule loops_break [OF _ st1]) (use C True lt A def m1 iter_rotate_right(1) [OF st] k in simp_all)
      next
        case C: False
        note m2 = moved_link_right [OF st1]
        have nodes: "spine_nodes d L (Node C c (Node D a B)) R = spine_nodes d L T R"
          "spine_nodes d L C ((c, Node D a B) # R) = spine_nodes d L T R"
          by (auto simp: spine_nodes_def T A)
        show ?thesis unfolding v T f(1)
        proof (rule loops_continue)
          show "outcome x (lc, rc, a) s h (Continue (lc, c, fl ?h1 c)) (mk_child rc SP_L c ?h1)"
            unfolding A by (rule iter_rotate_right(2) [OF st _ _ C]) (use True lt k in simp_all)
          show m: "moved h (spine_nodes d L (Node A a B) R) (mk_child rc SP_L c ?h1)"
            using moved_trans [OF m1] m2 nodes by (simp add: T A)
          show "loops x s k (mk_child rc SP_L c ?h1) d L C ((c, Node D a B) # R) (lc, c, fl ?h1 c)"
            by (rule less.IH [OF _ splay_st_link_right [OF st1 C] moved_keys [OF m less.prems(2)]]) (simp add: T A)
        qed (use C True lt A def nodes T in simp_all)
      qed
    next
      case False
      have ne: "Node C c D \<noteq> Leaf" by simp
      show ?thesis unfolding v T f(1)
      proof (rule loops_continue)
        show "outcome x (lc, rc, a) s h (Continue (lc, a, c)) (mk_child rc SP_L a h)"
          using iter_link_right [OF st] False lt k by simp
        show m: "moved h (spine_nodes d L (Node A a B) R) (mk_child rc SP_L a h)"
          unfolding A by (rule moved_link_right [OF st])
        show "loops x s k (mk_child rc SP_L a h) d L A ((a, B) # R) (lc, a, c)"
          by (rule less.IH [OF _ _ moved_keys [OF m less.prems(2)]])
            (use splay_st_link_right [OF st ne] c A T in simp_all)
      qed (use False lt A def in \<open>auto simp: spine_nodes_def\<close>)
    qed
  next
    case gt
    then obtain C c D where B: "B = Node C c D" by (cases B) auto
    note st = st [unfolded B]
    from gt(1) have ge: "\<not> x < k a" by simp
    have k: "start_of h a = k a" "start_of h c = k c" using dom by (simp_all add: T B)
    have c: "fr h a = c" using st by (simp add: splay_st_def)
    show ?thesis
    proof (cases "k c < x")
      case True
      let ?h1 = "mk_child c SP_L a (mk_child a SP_R (fl h c) h)"
      have st1: "splay_st ?h1 d L (Node (Node A a C) c D) R (lc, rc, c)" by (rule splay_st_rotate_left [OF st])
      note m1 = moved_rotate_left [OF st]
      show ?thesis
      proof (cases "D = Leaf")
        case D: True
        show ?thesis unfolding v T f(1)
          by (rule loops_break [OF _ st1]) (use D True gt ge B def m1 iter_rotate_left(1) [OF st] k in simp_all)
      next
        case D: False
        note m2 = moved_link_left [OF st1]
        have nodes: "spine_nodes d L (Node (Node A a C) c D) R = spine_nodes d L T R"
          "spine_nodes d ((Node A a C, c) # L) D R = spine_nodes d L T R"
          by (auto simp: spine_nodes_def T B)
        show ?thesis unfolding v T f(1)
        proof (rule loops_continue)
          show "outcome x (lc, rc, a) s h (Continue (c, rc, fr ?h1 c)) (mk_child lc SP_R c ?h1)"
            unfolding B by (rule iter_rotate_left(2) [OF st _ _ D]) (use True gt k in simp_all)
          show m: "moved h (spine_nodes d L (Node A a B) R) (mk_child lc SP_R c ?h1)"
            using moved_trans [OF m1] m2 nodes by (simp add: T B)
          show "loops x s k (mk_child lc SP_R c ?h1) d ((Node A a C, c) # L) D R (c, rc, fr ?h1 c)"
            by (rule less.IH [OF _ splay_st_link_left [OF st1 D] moved_keys [OF m less.prems(2)]]) (simp add: T B)
        qed (use D True gt ge B def nodes T in simp_all)
      qed
    next
      case False
      have ne: "Node C c D \<noteq> Leaf" by simp
      show ?thesis unfolding v T f(1)
      proof (rule loops_continue)
        show "outcome x (lc, rc, a) s h (Continue (a, rc, c)) (mk_child lc SP_R a h)"
          using iter_link_left [OF st] False gt k by simp
        show m: "moved h (spine_nodes d L (Node A a B) R) (mk_child lc SP_R a h)"
          unfolding B by (rule moved_link_left [OF st])
        show "loops x s k (mk_child lc SP_R a h) d ((A, a) # L) B R (a, rc, c)"
          by (rule less.IH [OF _ _ moved_keys [OF m less.prems(2)]])
            (use splay_st_link_left [OF st ne] c B T in simp_all)
      qed (use False gt ge B def in \<open>auto simp: spine_nodes_def\<close>)
    qed
  next
    case stop
    then have "splay_abs k x L T R = (L, T, R)" by (auto simp: T def stopped_def split: tree.splits)
    moreover have "stopped (start_of h) x T" using stop dom by (auto simp: T stopped_def)
    ultimately show ?thesis
      by (intro loops_break [OF iter_stop [OF less.prems(1)] less.prems(1)]) simp_all
  qed
qed


subsection \<open>Reassembling\<close>

lemma fp_mk_child_lc:
  assumes "lspine (fl h) (fr h) (fp h) d L lc" and "d \<noteq> NULL" and "fp h d = NULL"
    and "b = NULL \<or> b \<notin> insert d (set (lflat L))"
  shows "fp (mk_child lc w b h) = (if b = NULL then fp h else (fp h)(b := lc))"
proof (rule fp_mk_child)
  show "lc \<noteq> b" using assms(2,4) lspine_mem [OF assms(1)] lspine_nonnull [OF assms(1,2)] by metis
  show "fp h lc \<noteq> b \<or> b = NULL" using assms(3,4) lspine_parent [OF assms(1)] by metis
qed

lemma fp_mk_child_rc:
  assumes "rspine (fl h) (fr h) (fp h) d R rc" and "d \<noteq> NULL" and "fp h d = NULL"
    and "b = NULL \<or> b \<notin> insert d (set (rflat R))"
  shows "fp (mk_child rc w b h) = (if b = NULL then fp h else (fp h)(b := rc))"
proof (rule fp_mk_child)
  show "rc \<noteq> b" using assms(2,4) rspine_mem [OF assms(1)] rspine_nonnull [OF assms(1,2)] by metis
  show "fp h rc \<noteq> b \<or> b = NULL" using assms(3,4) rspine_parent [OF assms(1)] by metis
qed

text \<open>Closing the left spine with \<open>A\<close> keeps the right spine and \<open>B\<close>; then the right one is closed.\<close>

lemma close_left:
  assumes st: "splay_st h d L (Node A a B) R (lc, rc, a)"
  defines "h1 \<equiv> mk_child lc SP_R (fl h a) h"
  shows "tree_at (fl h1) (fr h1) (fp h1) (fr h1 d) (ltree L A)"
    and "rspine (fl h1) (fr h1) (fp h1) d R rc"
    and "tree_at (fl h1) (fr h1) (fp h1) (fr h1 a) B"
    and "fp h1 d = NULL" and "fr h1 a = fr h a"
proof -
  note st' = st [unfolded splay_st_def, simplified]
  note f = splay_st_facts [OF st]
  have dist: "distinct (lflat L @ inorder A @ a # inorder B @ rflat R)"
    and dn: "d \<notin> set_tree A" "d \<notin> set_tree B" "d \<notin> set (lflat L)" "d \<notin> set (rflat R)" "d \<noteq> a"
    using st by (simp_all add: splay_st_def)
  have lc: "lc \<in> insert d (set (lflat L))" using st' lspine_mem by fast
  have lcout: "lc \<notin> set_tree A" "lc \<notin> set_tree B" "lc \<notin> set (rflat R)" "lc \<noteq> a" using lc dist dn by auto
  have b: "fl h a = NULL \<or> fl h a \<in> set_tree A" using f(6) tree_at_root by metis
  have bout: "fl h a \<notin> set_tree B" "fl h a \<notin> set (rflat R)" "fl h a \<notin> set (lflat L)" "fl h a \<noteq> d"
    if "fl h a \<noteq> NULL" using b that dist dn by auto
  have fp: "fp h1 = (if fl h a = NULL then fp h else (fp h)(fl h a := lc))"
    unfolding h1_def using st' bout by (intro fp_mk_child_lc) auto
  have fr: "fr h1 = (fr h)(lc := fl h a)" and fl: "fl h1 = fl h" by (simp_all add: h1_def)
  have distA: "distinct (inorder A)" using dist by simp
  show "fr h1 a = fr h a" using lcout by (simp add: fr)
  show "tree_at (fl h1) (fr h1) (fp h1) (fr h1 a) B" using f(7) lcout bout fp fr fl by (simp add: fun_upd_other)
  show "rspine (fl h1) (fr h1) (fp h1) d R rc" using st' lcout lc dn bout fp fr fl by (simp add: rspine_upd_r)
  show "fp h1 d = NULL" using st' bout(4) fp by (cases "fl h a = NULL") auto
  have "tree_at (fl h) (fr h) (fp h1) (fl h a) A" using f(6) distA fp by (cases "fl h a = NULL") simp_all
  then have A: "tree_at (fl h1) (fr h1) (fp h1) (fr h1 lc) A" using lcout fl fr by simp
  have "lspine (fl h) ((fr h)(lc := fl h a)) (fp h) d L lc" using st' dist by (simp add: lspine_upd_head)
  then have "lspine (fl h1) (fr h1) (fp h1) d L lc" using fp fr fl bout by (cases "fl h a = NULL") simp_all
  from lspine_close [OF this A] show "tree_at (fl h1) (fr h1) (fp h1) (fr h1 d) (ltree L A)"
    using fp fr by simp
qed

lemma close_right:
  assumes "rspine (fl h) (fr h) (fp h) d R rc" and "tree_at (fl h) (fr h) (fp h) (fr h a) B"
    and "tree_at (fl h) (fr h) (fp h) (fr h d) X" and "fp h d = NULL" and "d \<noteq> NULL"
    and dist: "distinct (d # a # inorder X @ inorder B @ rflat R)"
  defines "h2 \<equiv> mk_child rc SP_L (fr h a) h"
  shows "tree_at (fl h2) (fr h2) (fp h2) (fr h2 d) X"
    and "tree_at (fl h2) (fr h2) (fp h2) (fl h2 d) (rtree R B)"
proof -
  have rc: "rc \<in> insert d (set (rflat R))" using assms(1) rspine_mem by fast
  have rcout: "rc \<notin> set_tree X" "rc \<notin> set_tree B" "rc \<noteq> a" using rc dist by auto
  have b: "fr h a = NULL \<or> fr h a \<in> set_tree B" using assms(2) tree_at_root by metis
  have bout: "fr h a \<notin> set_tree X" "fr h a \<notin> set (rflat R)" "fr h a \<noteq> d" if "fr h a \<noteq> NULL"
    using b that dist by auto
  have fp: "fp h2 = (if fr h a = NULL then fp h else (fp h)(fr h a := rc))"
    unfolding h2_def using assms(1,4,5) bout by (intro fp_mk_child_rc) auto
  have fr: "fr h2 = fr h" and fl: "fl h2 = (fl h)(rc := fr h a)" by (simp_all add: h2_def)
  have distB: "distinct (inorder B)" using dist by simp
  show "tree_at (fl h2) (fr h2) (fp h2) (fr h2 d) X" using assms(3) rcout bout fp fr fl by simp
  have "tree_at (fl h) (fr h) (fp h2) (fr h a) B" using assms(2) distB fp by (cases "fr h a = NULL") simp_all
  then have B: "tree_at (fl h2) (fr h2) (fp h2) (fl h2 rc) B" using rcout fl fr by simp
  have "rspine ((fl h)(rc := fr h a)) (fr h) (fp h) d R rc" using assms(1) dist by (simp add: rspine_upd_head)
  then have "rspine (fl h2) (fr h2) (fp h2) d R rc" using fp fr fl bout by (cases "fr h a = NULL") simp_all
  from rspine_close [OF this B] show "tree_at (fl h2) (fr h2) (fp h2) (fl h2 d) (rtree R B)"
    using fp fl by simp
qed

text \<open>Hanging the two trees below \<open>a\<close>.\<close>

lemma hang:
  assumes X: "tree_at (fl h) (fr h) (fp h) (fr h d) X" and Y: "tree_at (fl h) (fr h) (fp h) (fl h d) Y"
    and dist: "distinct (d # a # inorder X @ inorder Y)" and nn: "a \<noteq> NULL"
  defines "h3 \<equiv> mk_child a SP_L (fr h d) h" and "h4 \<equiv> mk_child a SP_R (fl h d) (mk_child a SP_L (fr h d) h)"
  shows "tree_at (fl h4) (fr h4) ((fp h4)(a := z)) a (Node X a Y)" and "fl h3 d = fl h d"
proof -
  have x: "fr h d = NULL \<or> fr h d \<in> set_tree X" and y: "fl h d = NULL \<or> fl h d \<in> set_tree Y"
    using X Y tree_at_root by metis+
  have ne: "a \<noteq> fr h d" "a \<noteq> fl h d" "d \<noteq> a" "a \<notin> set_tree X" "a \<notin> set_tree Y" using x y dist nn by auto
  have xo: "fr h d \<notin> set_tree Y" "fr h d \<noteq> fl h d" if "fr h d \<noteq> NULL" using x y dist that by auto
  have yo: "fl h d \<notin> set_tree X" if "fl h d \<noteq> NULL" using y dist that by auto
  obtain z1 where z1: "fp h3 = (if fr h d = NULL then fp h else (fp h)(fr h d := a))(a := z1)"
    unfolding h3_def using fp_mk_child_gen [OF ne(1)] by blast
  obtain z2 where z2: "fp h4 = (if fl h d = NULL then fp h3 else (fp h3)(fl h d := a))(a := z2)"
    unfolding h4_def h3_def using fp_mk_child_gen [OF ne(2)] by blast
  have fl: "fl h4 = (fl h)(a := fr h d)" and fr: "fr h4 = (fr h)(a := fl h d)" by (simp_all add: h4_def)
  show "fl h3 d = fl h d" using ne by (simp add: h3_def)
  have dXY: "distinct (inorder X)" "distinct (inorder Y)" using dist by simp_all
  show "tree_at (fl h4) (fr h4) ((fp h4)(a := z)) a (Node X a Y)"
    using X Y ne xo yo dXY nn z1 z2 fl fr
    by (cases "fr h d = NULL"; cases "fl h d = NULL") (simp_all del: fun_upd_apply add: fun_upd_simps)
qed

lemma moved_dom: "moved h X h' \<Longrightarrow> dom h' = dom h"
  by (simp add: moved_def same_data_dom)

lemma moved_frame: "moved h X h' \<Longrightarrow> x \<notin> X \<Longrightarrow> h' x = h x"
  by (simp add: moved_def)

lemma moved_mono: "moved h X h' \<Longrightarrow> X \<subseteq> Y \<Longrightarrow> moved h Y h'"
  by (auto simp: moved_def)

lemma moved_set_parent: "h a = Some v \<Longrightarrow> a \<in> X \<Longrightarrow> moved h X (h(a \<mapsto> v\<lparr>sp_p := y\<rparr>))"
  by (auto simp: moved_def same_data_def)

lemma MAKE_CHILD_view:
  assumes "a \<in> dom h" "a \<noteq> NULL" "c \<in> dom h" "c \<noteq> NULL" "c \<noteq> a"
  shows "b = fl h c \<Longrightarrow> b = NULL \<or> b \<in> dom h \<Longrightarrow> a \<noteq> b \<Longrightarrow> c \<noteq> b \<Longrightarrow>
      MAKE_CHILD a w (get_field sp_l c) (s\<lparr>vmas := h\<rparr>) = Inr ((), s\<lparr>vmas := mk_child a w b h\<rparr>)"
    and "b = fr h c \<Longrightarrow> b = NULL \<or> b \<in> dom h \<Longrightarrow> a \<noteq> b \<Longrightarrow> c \<noteq> b \<Longrightarrow>
      MAKE_CHILD a w (get_field sp_r c) (s\<lparr>vmas := h\<rparr>) = Inr ((), s\<lparr>vmas := mk_child a w b h\<rparr>)"
  using assms by (auto simp: MAKE_CHILD_field [where b = b] fl_def fr_def)

lemma view_set_parent:
  assumes "h a = Some v"
  shows "fl (h(a \<mapsto> v\<lparr>sp_p := y\<rparr>)) = fl h" "fr (h(a \<mapsto> v\<lparr>sp_p := y\<rparr>)) = fr h"
    "fp (h(a \<mapsto> v\<lparr>sp_p := y\<rparr>)) = (fp h)(a := y)"
  using assms by (auto simp: field_defs fun_eq_iff)

lemma assemble_run:
  assumes st: "splay_st h d L (Node A a B) R (lc, rc, a)"
  shows "\<exists>h'. splay_assemble d (lc, rc, a) (s\<lparr>vmas := h\<rparr>) = Inr (a, s\<lparr>vmas := h'\<rparr>) \<and>
     tree_at (fl h') (fr h') (fp h') a (assemble (L, Node A a B, R)) \<and> fp h' a = NULL \<and>
     moved h (spine_nodes d L (Node A a B) R) h'"
proof -
  let ?X = "spine_nodes d L (Node A a B) R"
  note f = splay_st_facts [OF st] and cl = close_left [OF st]
  note st' = st [unfolded splay_st_def, simplified]
  have dist: "distinct (lflat L @ inorder A @ a # inorder B @ rflat R)"
    and dn: "d \<notin> set_tree A" "d \<notin> set_tree B" "d \<notin> set (lflat L)" "d \<notin> set (rflat R)" "d \<noteq> a" "d \<noteq> NULL"
    using st by (simp_all add: splay_st_def)
  have inX: "d \<in> ?X" "set_tree A \<subseteq> ?X" "set_tree B \<subseteq> ?X" "set_tree (ltree L A) \<subseteq> ?X" "set_tree (rtree R B) \<subseteq> ?X"
    by (auto simp: spine_nodes_def simp flip: set_inorder)
  have ends: "lc \<in> insert d (set (lflat L))" "rc \<in> insert d (set (rflat R))" using st' lspine_mem rspine_mem by fast+
  have nn: "lc \<noteq> NULL" "rc \<noteq> NULL" using lspine_nonnull rspine_nonnull st' by fast+
  have ends': "lc \<notin> set_tree A" "lc \<noteq> a" "rc \<notin> set_tree B" "rc \<noteq> a" "a \<notin> set_tree A" "a \<notin> set_tree B"
    using ends dist dn by auto
  define b1 where "b1 = fl h a"
  define h1 where "h1 = mk_child lc SP_R b1 h"
  have b1: "b1 = NULL \<or> b1 \<in> set_tree A" using f(6) tree_at_root by (metis b1_def)
  have m1: "moved h ?X h1" unfolding h1_def using f b1 inX by (intro moved_mk_child) auto
  have r1: "MAKE_CHILD lc SP_R (get_field sp_l a) (s\<lparr>vmas := h\<rparr>) = Inr ((), s\<lparr>vmas := h1\<rparr>)"
    unfolding h1_def by (rule MAKE_CHILD_view(1)) (use f b1 inX ends' nn b1_def in auto)
  note cl = cl [folded b1_def, folded h1_def]
  define b2 where "b2 = fr h1 a"
  define h2 where "h2 = mk_child rc SP_L b2 h1"
  have b2: "b2 = NULL \<or> b2 \<in> set_tree B" using cl(3) tree_at_root by (metis b2_def)
  have d1: "dom h1 = dom h" using m1 by (rule moved_dom)
  have m2: "moved h1 ?X h2" unfolding h2_def using f b2 inX d1 by (intro moved_mk_child) auto
  have r2: "MAKE_CHILD rc SP_L (get_field sp_r a) (s\<lparr>vmas := h1\<rparr>) = Inr ((), s\<lparr>vmas := h2\<rparr>)"
    unfolding h2_def by (rule MAKE_CHILD_view(2)) (use f b2 inX ends' nn b2_def d1 in auto)
  have "distinct (d # a # inorder (ltree L A) @ inorder B @ rflat R)" using dist dn by auto
  note cr = close_right [OF cl(2) cl(3) cl(1) cl(4) dn(6) this, folded b2_def, folded h2_def]
  have d2: "dom h2 = dom h" using moved_dom [OF m2] d1 by simp
  define b3 where "b3 = fr h2 d"
  define h3 where "h3 = mk_child a SP_L b3 h2"
  define b4 where "b4 = fl h2 d"
  define h4 where "h4 = mk_child a SP_R b4 h3"
  have b34: "b3 = NULL \<or> b3 \<in> set_tree (ltree L A)" "b4 = NULL \<or> b4 \<in> set_tree (rtree R B)"
    using cr tree_at_root by (metis b3_def, metis b4_def)
  have dist2: "distinct (d # a # inorder (ltree L A) @ inorder (rtree R B))" using dist dn by auto
  then have out: "d \<notin> set_tree (ltree L A)" "a \<notin> set_tree (ltree L A)" "d \<notin> set_tree (rtree R B)" "a \<notin> set_tree (rtree R B)"
    by (simp_all flip: set_inorder)
  have dd: "d \<in> dom h" using f(8) inX(1) by blast
  have sub: "set_tree (ltree L A) \<subseteq> dom h" "set_tree (rtree R B) \<subseteq> dom h" using f(8) inX(4,5) by blast+
  have b34': "b3 = NULL \<or> b3 \<in> dom h" "b4 = NULL \<or> b4 \<in> dom h" "a \<noteq> b3" "a \<noteq> b4" "d \<noteq> b3" "d \<noteq> b4"
    using b34 sub out f(2) dn(6) by (blast, blast, metis+)
  have b34X: "b3 = NULL \<or> b3 \<in> ?X" "b4 = NULL \<or> b4 \<in> ?X" using b34 inX(4,5) by blast+
  note hg = hang [OF cr dist2 f(2), folded b3_def b4_def, folded h3_def, folded h4_def]
  have m3: "moved h2 ?X h3" unfolding h3_def using f(3,11) b34' b34X d2 by (intro moved_mk_child) simp_all
  have d3: "dom h3 = dom h" using moved_dom [OF m3] d2 by simp
  have m4: "moved h3 ?X h4" unfolding h4_def using f(3,11) b34' b34X d3 by (intro moved_mk_child) simp_all
  have d4: "dom h4 = dom h" using moved_dom [OF m4] d3 by simp
  have r3: "MAKE_CHILD a SP_L (get_field sp_r d) (s\<lparr>vmas := h2\<rparr>) = Inr ((), s\<lparr>vmas := h3\<rparr>)"
    unfolding h3_def by (rule MAKE_CHILD_view(2)) (use f(2,3) b34' d2 dn dd b3_def in simp_all)
  have r4: "MAKE_CHILD a SP_R (get_field sp_l d) (s\<lparr>vmas := h3\<rparr>) = Inr ((), s\<lparr>vmas := h4\<rparr>)"
    unfolding h4_def by (rule MAKE_CHILD_view(1)) (use f(2,3) b34' d3 dn dd hg(2) in simp_all)
  obtain v where v: "h4 a = Some v" using d4 f(3) by (metis domD)
  have r5: "upd_vma a (\<lambda>v. v\<lparr>sp_p := NULL\<rparr>) (s\<lparr>vmas := h4\<rparr>) = Inr ((), s\<lparr>vmas := h4(a \<mapsto> v\<lparr>sp_p := NULL\<rparr>)\<rparr>)"
    using v f(2) by simp
  have m5: "moved h4 ?X (h4(a \<mapsto> v\<lparr>sp_p := NULL\<rparr>))" using v f(11) by (rule moved_set_parent)
  have "moved h ?X (h4(a \<mapsto> v\<lparr>sp_p := NULL\<rparr>))"
    by (rule moved_trans [OF m1 moved_trans [OF m2 moved_trans [OF m3 moved_trans [OF m4 m5]]]])
  moreover have "splay_assemble d (lc, rc, a) (s\<lparr>vmas := h\<rparr>) = Inr (a, s\<lparr>vmas := h4(a \<mapsto> v\<lparr>sp_p := NULL\<rparr>)\<rparr>)"
    by (simp add: splay_assemble_def bnd_def r1 r2 r3 r4 r5)
  ultimately show ?thesis using hg(1) v by (intro exI [of _ "h4(a \<mapsto> v\<lparr>sp_p := NULL\<rparr>)"]) (simp add: view_set_parent del: fun_upd_apply, simp)
qed

subsection \<open>The function\<close>

lemma splay_abs_cong:
  "(\<And>a. a \<in> set_tree T \<Longrightarrow> k a = k' a) \<Longrightarrow> splay_abs k x L T R = splay_abs k' x L T R"
proof (induction k x L T R rule: splay_abs.induct)
  case (2 k x L A a B R)
  then show ?case unfolding splay_abs.simps(2) by (auto split: tree.split)
qed simp

lemma splay_cong: "(\<And>a. a \<in> set_tree T \<Longrightarrow> k a = k' a) \<Longrightarrow> splay k x T = splay k' x T"
  by (simp add: splay_def splay_abs_cong [of T k k'])

lemma view_upd_other:
  "fl (h(f := w)) = (fl h)(f := sp_l (the w))" "fr (h(f := w)) = (fr h)(f := sp_r (the w))"
  "fp (h(f := w)) = (fp h)(f := sp_p (the w))" "start_of (h(f := w)) = (start_of h)(f := vm_start (the w))"
  by (auto simp: field_defs fun_eq_iff)

lemma splay_run:
  assumes T: "tree_at (fl h) (fr h) (fp h) t T" "distinct (inorder T)" "set_tree T \<subseteq> dom h"
    and frame: "h (frame_n s) = None" "frame_n s \<noteq> NULL"
  shows "\<exists>h' t'. S_sp_tree_splay x t (s\<lparr>vmas := h\<rparr>) = Inr (t', s\<lparr>vmas := h'\<rparr>) \<and>
     tree_at (fl h') (fr h') (fp h') t' (splay (start_of h) x T) \<and> (t \<noteq> NULL \<longrightarrow> fp h' t' = NULL) \<and>
     moved h (set_tree T) h'"
proof (cases "t = NULL")
  case True
  with T(1) show ?thesis by (intro exI [of _ h] exI [of _ NULL]) (simp add: S_sp_tree_splay_def splay_def)
next
  case False
  define d where "d = frame_n s"
  define h0 where "h0 = h(d \<mapsto> local_n)"
  have TL: "T \<noteq> Leaf" using T(1) False by auto
  have dT: "d \<notin> set_tree T" using T(3) frame by (auto simp: d_def)
  then have dT': "d \<notin> set (inorder T)" by simp
  have v0: "fl h0 = (fl h)(d := NULL)" "fr h0 = (fr h)(d := NULL)" "fp h0 = (fp h)(d := NULL)"
    by (simp_all add: h0_def view_upd_other local_n_def)
  have st: "splay_st h0 d [] T [] (d, d, t)"
    using T dT TL frame(2) v0 by (auto simp: splay_st_def d_def h0_def)
  obtain L' T' R' where abs: "splay_abs (start_of h0) x [] T [] = (L', T', R')"
    by (cases "splay_abs (start_of h0) x [] T []") auto
  from loop_run [OF st, of "start_of h0" x s, unfolded loops_def] abs obtain h1 v1 where
    loop: "forever (splay_iter x) (d, d, t) (s\<lparr>vmas := h0\<rparr>) = Inr (v1, s\<lparr>vmas := h1\<rparr>)"
    and st1: "splay_st h1 d L' T' R' v1" and m1: "moved h0 (spine_nodes d [] T []) h1" by blast
  obtain lc rc a where v1: "v1 = (lc, rc, a)" by (cases v1)
  obtain A a' B where T': "T' = Node A a' B" using st1 by (cases T') (auto simp: splay_st_def v1)
  have a': "a' = a" using splay_st_facts(1) [OF st1 [unfolded T' v1]] by simp
  note st1 = st1 [unfolded T' v1 a']
  from assemble_run [OF st1, of s] obtain h2 where
    asm: "splay_assemble d (lc, rc, a) (s\<lparr>vmas := h1\<rparr>) = Inr (a, s\<lparr>vmas := h2\<rparr>)"
    and tr: "tree_at (fl h2) (fr h2) (fp h2) a (assemble (L', Node A a B, R'))" "fp h2 a = NULL"
    and m2: "moved h1 (spine_nodes d L' (Node A a B) R') h2" by blast
  have spl: "assemble (L', Node A a B, R') = splay (start_of h0) x T" using abs T' a' by (simp add: splay_def)
  also have "\<dots> = splay (start_of h) x T" using dT by (intro splay_cong) (auto simp: h0_def view_upd_other)
  finally have spl: "assemble (L', Node A a B, R') = splay (start_of h) x T" .
  have nodes: "spine_nodes d L' (Node A a B) R' = spine_nodes d [] T []"
    using splay_abs_inorder [OF abs TL] T' a' by (simp add: spine_nodes_def)
  have X: "spine_nodes d [] T [] = insert d (set_tree T)" by (simp add: spine_nodes_def)
  have m: "moved h0 (insert d (set_tree T)) h2" using moved_trans [OF m1] m2 nodes X by simp
  define h3 where "h3 = h2(d := None)"
  have "d \<notin> set_tree (splay (start_of h) x T)" using dT by simp
  moreover have "a \<noteq> d" using st1 by (auto simp: splay_st_def)
  ultimately have tr3: "tree_at (fl h3) (fr h3) (fp h3) a (splay (start_of h) x T)" "fp h3 a = NULL"
    using tr [unfolded spl] by (simp_all add: h3_def view_upd_other)
  have m3: "moved h (set_tree T) h3" unfolding moved_def same_data_def
  proof (intro conjI allI impI)
    show "map_option vdata (h3 b) = map_option vdata (h b)" for b
      using m frame(1) by (cases "b = d") (auto simp: h3_def h0_def d_def moved_def same_data_def)
    show "h3 b = h b" if "b \<notin> set_tree T" for b
      using m that frame(1) by (cases "b = d") (auto simp: h3_def h0_def d_def moved_def)
  qed
  have "S_sp_tree_splay x t (s\<lparr>vmas := h\<rparr>) = Inr (a, s\<lparr>vmas := h3\<rparr>)"
    using False loop asm v1 by (simp add: S_sp_tree_splay_def bnd_def push_frame_def pop_frame_def
      d_def [symmetric] h0_def [symmetric] h3_def)
  with tr3 m3 show ?thesis by blast
qed
end
