(* ===== verification/Area_List.thy ===== *)
theory Area_List
  imports Splay_Correct
begin

section \<open>Symbolic execution on memory, and the list of the areas\<close>

text \<open>
  The remaining fields of an area as functions of the address; \<open>hupd\<close>, the memory after one
  assignment to a field, with the effect on every view; and \<open>dll\<close>, the doubly linked list
  that threads the areas in the order of their addresses.
\<close>

definition fnx :: "heap \<Rightarrow> addr \<Rightarrow> addr" where "fnx h a = vm_next (the (h a))"
definition fpv :: "heap \<Rightarrow> addr \<Rightarrow> addr" where "fpv h a = vm_prev (the (h a))"
definition end_of :: "heap \<Rightarrow> addr \<Rightarrow> addr" where "end_of h a = vm_end (the (h a))"
definition flags_of :: "heap \<Rightarrow> addr \<Rightarrow> 64 word" where "flags_of h a = vm_flags (the (h a))"
definition lock_of :: "heap \<Rightarrow> addr \<Rightarrow> lock_t" where "lock_of h a = vm_lock (the (h a))"

definition hupd :: "addr \<Rightarrow> (vm_area \<Rightarrow> vm_area) \<Rightarrow> heap \<Rightarrow> heap" where
  "hupd p f h = h(p \<mapsto> f (the (h p)))"

lemmas view_defs = field_defs fnx_def fpv_def end_of_def flags_of_def lock_of_def

lemma dom_hupd [simp]: "dom (hupd p f h) = insert p (dom h)"
  by (simp add: hupd_def)

lemma hupd_other: "q \<noteq> p \<Longrightarrow> hupd p f h q = h q"
  by (simp add: hupd_def)

text \<open>An assignment changes the view of its field at its address, and no other view.\<close>

lemma hupd_views [simp]:
  "fl (hupd p (\<lambda>v. v\<lparr>sp_l := x\<rparr>) h) = (fl h)(p := x)"
  "fr (hupd p (\<lambda>v. v\<lparr>sp_r := x\<rparr>) h) = (fr h)(p := x)"
  "fp (hupd p (\<lambda>v. v\<lparr>sp_p := x\<rparr>) h) = (fp h)(p := x)"
  "fnx (hupd p (\<lambda>v. v\<lparr>vm_next := x\<rparr>) h) = (fnx h)(p := x)"
  "fpv (hupd p (\<lambda>v. v\<lparr>vm_prev := x\<rparr>) h) = (fpv h)(p := x)"
  "start_of (hupd p (\<lambda>v. v\<lparr>vm_start := x\<rparr>) h) = (start_of h)(p := x)"
  "end_of (hupd p (\<lambda>v. v\<lparr>vm_end := x\<rparr>) h) = (end_of h)(p := x)"
  "flags_of (hupd p (\<lambda>v. v\<lparr>vm_flags := y\<rparr>) h) = (flags_of h)(p := y)"
  "lock_of (hupd p (\<lambda>v. v\<lparr>vm_lock := z\<rparr>) h) = (lock_of h)(p := z)"
  by (auto simp: view_defs hupd_def fun_eq_iff)

lemma hupd_other_views [simp]:
  "(\<And>v. sp_l (f v) = sp_l v) \<Longrightarrow> fl (hupd p f h) = fl h"
  "(\<And>v. sp_r (f v) = sp_r v) \<Longrightarrow> fr (hupd p f h) = fr h"
  "(\<And>v. sp_p (f v) = sp_p v) \<Longrightarrow> fp (hupd p f h) = fp h"
  "(\<And>v. vm_next (f v) = vm_next v) \<Longrightarrow> fnx (hupd p f h) = fnx h"
  "(\<And>v. vm_prev (f v) = vm_prev v) \<Longrightarrow> fpv (hupd p f h) = fpv h"
  "(\<And>v. vm_start (f v) = vm_start v) \<Longrightarrow> start_of (hupd p f h) = start_of h"
  "(\<And>v. vm_end (f v) = vm_end v) \<Longrightarrow> end_of (hupd p f h) = end_of h"
  "(\<And>v. vm_flags (f v) = vm_flags v) \<Longrightarrow> flags_of (hupd p f h) = flags_of h"
  "(\<And>v. vm_lock (f v) = vm_lock v) \<Longrightarrow> lock_of (hupd p f h) = lock_of h"
  by (auto simp: view_defs hupd_def fun_eq_iff)

text \<open>The data views of two memories with the same data are equal.\<close>

lemma same_data_views:
  assumes "same_data h h'"
  shows "fnx h' = fnx h" "fpv h' = fpv h" "start_of h' = start_of h" "end_of h' = end_of h"
    "flags_of h' = flags_of h" "lock_of h' = lock_of h"
proof -
  have "vdata (the (h' a)) = vdata (the (h a))" for a
    using assms [unfolded same_data_def, rule_format, of a]
    by (cases "h a"; cases "h' a") auto
  then show "fnx h' = fnx h" "fpv h' = fpv h" "start_of h' = start_of h" "end_of h' = end_of h"
    "flags_of h' = flags_of h" "lock_of h' = lock_of h"
    by (simp_all add: view_defs vdata_def fun_eq_iff)
qed

lemma mk_child_data [simp]:
  "fnx (mk_child a w b h) = fnx h" "fpv (mk_child a w b h) = fpv h" "start_of (mk_child a w b h) = start_of h"
  "end_of (mk_child a w b h) = end_of h" "flags_of (mk_child a w b h) = flags_of h"
  "lock_of (mk_child a w b h) = lock_of h"
  by (cases w; rule ext; auto simp: mk_child_def Let_def view_defs)+

subsection \<open>Reads and writes of a state with given memory and tree\<close>

text \<open>
  \<open>wst s h r l\<close> is the state \<open>s\<close> with memory \<open>h\<close>, tree root \<open>r\<close> and tree lock \<open>l\<close>: the parts
  that the operations of the tree change.
\<close>

definition wst :: "'z st_scheme \<Rightarrow> heap \<Rightarrow> addr \<Rightarrow> lock_t \<Rightarrow> 'z st_scheme" where
  "wst s h r l = (s\<lparr>vma_tree := \<lparr>root = r, lock = l\<rparr>\<rparr>)\<lparr>vmas := h\<rparr>"

lemma wst_self: "wst s (vmas s) (root (vma_tree s)) (lock (vma_tree s)) = s"
  by (simp add: wst_def)

lemma wst_sel [simp]:
  "vmas (wst s h r l) = h" "root (vma_tree (wst s h r l)) = r" "lock (vma_tree (wst s h r l)) = l"
  "openmp (wst s h r l) = openmp s" "OOC_PAGE_SIZE (wst s h r l) = OOC_PAGE_SIZE s"
  "frame_n (wst s h r l) = frame_n s" "st.more (wst s h r l) = st.more s"
  "wst (wst s h r l) h' r' l' = wst s h' r' l'"
  by (simp_all add: wst_def)

lemma upd_vma_w [simp]:
  "p \<in> dom h \<Longrightarrow> p \<noteq> NULL \<Longrightarrow> upd_vma p f (wst s h r l) = Inr ((), wst s (hupd p f h) r l)"
  by (auto simp: hupd_def wst_def)

lemma get_field_w [simp]:
  assumes "p \<in> dom h" and "p \<noteq> NULL"
  shows "get_field vm_next p (wst s h r l) = Inr (fnx h p, wst s h r l)"
    "get_field vm_prev p (wst s h r l) = Inr (fpv h p, wst s h r l)"
    "get_field vm_end p (wst s h r l) = Inr (end_of h p, wst s h r l)"
    "get_field vm_flags p (wst s h r l) = Inr (flags_of h p, wst s h r l)"
    "get_field sp_p p (wst s h r l) = Inr (fp h p, wst s h r l)"
    "get_field sp_l p (wst s h r l) = Inr (fl h p, wst s h r l)"
    "get_field sp_r p (wst s h r l) = Inr (fr h p, wst s h r l)"
    "get_field vm_start p (wst s h r l) = Inr (start_of h p, wst s h r l)"
  using assms by (auto simp: view_defs wst_def)

lemma upd_lock_w [simp]:
  assumes "p \<in> dom h" and "p \<noteq> NULL"
  shows "upd_lock op p (wst s h r l) =
    (case op (openmp s) (lock_of h p) of
       Inl e \<Rightarrow> Inl e
     | Inr k \<Rightarrow> Inr ((), wst s (hupd p (\<lambda>v. v\<lparr>vm_lock := k\<rparr>) h) r l))"
  using assms by (auto simp: upd_lock_def bnd_def hupd_def lock_of_def wst_def split: sum.split)

lemma tree_w [simp]:
  "get_root (wst s h r l) = Inr (r, wst s h r l)"
  "set_root x (wst s h r l) = Inr ((), wst s h x l)"
  "upd_tree_lock op (wst s h r l) =
     (case op (openmp s) l of Inl e \<Rightarrow> Inl e | Inr k \<Rightarrow> Inr ((), wst s h r k))"
  by (simp_all add: wst_def get_root_def upd_tree_lock_def split: sum.split)

declare set_root_run [simp del] get_root_run [simp del]

text \<open>Sequential composition on a result that is known; used as a simplification rule.\<close>

lemma bnd_step: "m s = Inr (x, t) \<Longrightarrow> bnd m f s = f x t"
  by (rule bnd_Inr)

lemma MAKE_CHILD_w:
  assumes "a \<in> dom h" and "a \<noteq> NULL"
  shows "b = NULL \<or> b \<in> dom h \<Longrightarrow> a \<noteq> b \<Longrightarrow>
      MAKE_CHILD a w (ret b) (wst s h r l) = Inr ((), wst s (mk_child a w b h) r l)"
    and "c \<in> dom h \<Longrightarrow> c \<noteq> NULL \<Longrightarrow> c \<noteq> a \<Longrightarrow> fl h c = NULL \<or> fl h c \<in> dom h \<Longrightarrow> a \<noteq> fl h c \<Longrightarrow>
      c \<noteq> fl h c \<Longrightarrow> MAKE_CHILD a w (get_field sp_l c) (wst s h r l) = Inr ((), wst s (mk_child a w (fl h c) h) r l)"
    and "c \<in> dom h \<Longrightarrow> c \<noteq> NULL \<Longrightarrow> c \<noteq> a \<Longrightarrow> fr h c = NULL \<or> fr h c \<in> dom h \<Longrightarrow> a \<noteq> fr h c \<Longrightarrow>
      c \<noteq> fr h c \<Longrightarrow> MAKE_CHILD a w (get_field sp_r c) (wst s h r l) = Inr ((), wst s (mk_child a w (fr h c) h) r l)"
  unfolding wst_def using assms MAKE_CHILD_view(1) [of a h c "fl h c"] MAKE_CHILD_view(2) [of a h c "fr h c"]
  by (simp_all add: MAKE_CHILD_ret [of a "s\<lparr>vma_tree := t, vmas := h\<rparr>" for s t, simplified])

lemma splay_w:
  assumes "tree_at (fl h) (fr h) (fp h) t T" "distinct (inorder T)" "set_tree T \<subseteq> dom h"
    and "h (frame_n s) = None" "frame_n s \<noteq> NULL"
  shows "\<exists>h' t'. S_sp_tree_splay x t (wst s h r l) = Inr (t', wst s h' r l) \<and>
     tree_at (fl h') (fr h') (fp h') t' (splay (start_of h) x T) \<and> (t \<noteq> NULL \<longrightarrow> fp h' t' = NULL) \<and>
     moved h (set_tree T) h'"
  unfolding wst_def using assms by (intro splay_run) simp_all

subsection \<open>Doubly linked lists\<close>

fun hd0 :: "addr list \<Rightarrow> addr \<Rightarrow> addr" where
  "hd0 [] b = b"
| "hd0 (x # xs) b = x"

fun last0 :: "addr \<Rightarrow> addr list \<Rightarrow> addr" where
  "last0 a [] = a"
| "last0 a (x # xs) = last0 x xs"

fun dseg :: "(addr \<Rightarrow> addr) \<Rightarrow> (addr \<Rightarrow> addr) \<Rightarrow> addr \<Rightarrow> addr list \<Rightarrow> addr \<Rightarrow> bool" where
  "dseg n p a [] b \<longleftrightarrow> True"
| "dseg n p a (x # xs) b \<longleftrightarrow> p x = a \<and> n x = hd0 xs b \<and> dseg n p x xs b"

definition dll :: "(addr \<Rightarrow> addr) \<Rightarrow> (addr \<Rightarrow> addr) \<Rightarrow> addr list \<Rightarrow> bool" where
  "dll n p xs \<longleftrightarrow> dseg n p NULL xs NULL"

lemma hd0_append [simp]: "hd0 (xs @ ys) b = hd0 xs (hd0 ys b)"
  by (cases xs) auto

lemma last0_append [simp]: "last0 a (xs @ ys) = last0 (last0 a xs) ys"
  by (induction a xs rule: last0.induct) auto

lemma dseg_append [simp]: "dseg n p a (xs @ ys) b \<longleftrightarrow> dseg n p a xs (hd0 ys b) \<and> dseg n p (last0 a xs) ys b"
  by (induction n p a xs b rule: dseg.induct) auto

lemma dseg_upd_n [simp]: "x \<notin> set xs \<Longrightarrow> dseg (n(x := v)) p a xs b = dseg n p a xs b"
  by (induction n p a xs b rule: dseg.induct) auto

lemma dseg_upd_p [simp]: "x \<notin> set xs \<Longrightarrow> dseg n (p(x := v)) a xs b = dseg n p a xs b"
  by (induction n p a xs b rule: dseg.induct) auto

lemma last0_in: "last0 a xs = a \<or> last0 a xs \<in> set xs"
  by (induction a xs rule: last0.induct) auto

lemma hd0_in: "hd0 xs b = b \<or> hd0 xs b \<in> set xs"
  by (cases xs) auto

text \<open>The last node of a segment is free to get another successor, the first another predecessor.\<close>

lemma dseg_new_last:
  "dseg n p a xs b \<Longrightarrow> distinct xs \<Longrightarrow> a \<notin> set xs \<Longrightarrow> dseg (n(last0 a xs := b')) p a xs b'"
proof (induction n p a xs b rule: dseg.induct)
  case (2 n p a x xs b)
  show ?case
  proof (cases xs)
    case Nil with 2 show ?thesis by simp
  next
    case (Cons y ys)
    then have "last0 x xs \<in> set xs" using last0_in [of y ys] by auto
    then have "last0 x xs \<noteq> x" using 2 by auto
    with 2 Cons show ?thesis by (simp add: fun_upd_other)
  qed
qed simp

lemma dseg_new_first: "dseg n p a xs b \<Longrightarrow> distinct xs \<Longrightarrow> dseg n (p(hd0 xs c := a')) a' xs b"
  by (cases xs) auto

end
