(* ===== verification/Page_Table.thy ===== *)
theory Page_Table
  imports Area_List
begin

section \<open>The page table: well-formed memory and the two helpers\<close>

text \<open>
  What the list macros of \<open>sp_tree.c\<close> do to memory (\<open>fix_gt\<close>, \<open>fix_lt\<close>, \<open>fix_rm\<close>); the
  well-formedness of a page table (\<open>wf_tab\<close>: tree, order and list agree); and the theorems of
  the splay and of the two helpers on well-formed tables.
\<close>

declare domIff [iff del]

subsection \<open>The effect of the list macros\<close>

definition fix_gt :: "addr \<Rightarrow> addr \<Rightarrow> heap \<Rightarrow> heap" where
  "fix_gt z t h =
     (let h1 = hupd z (\<lambda>v. v\<lparr>vm_next := fnx h t\<rparr>) (hupd z (\<lambda>v. v\<lparr>vm_prev := t\<rparr>) h);
          h2 = (if fnx h t \<noteq> NULL then hupd (fnx h t) (\<lambda>v. v\<lparr>vm_prev := z\<rparr>) h1 else h1)
      in hupd t (\<lambda>v. v\<lparr>vm_next := z\<rparr>) h2)"

definition fix_lt :: "addr \<Rightarrow> addr \<Rightarrow> heap \<Rightarrow> heap" where
  "fix_lt z t h =
     (let h1 = hupd z (\<lambda>v. v\<lparr>vm_next := t\<rparr>) (hupd z (\<lambda>v. v\<lparr>vm_prev := fpv h t\<rparr>) h);
          h2 = (if fpv h t \<noteq> NULL then hupd (fpv h t) (\<lambda>v. v\<lparr>vm_next := z\<rparr>) h1 else h1)
      in hupd t (\<lambda>v. v\<lparr>vm_prev := z\<rparr>) h2)"

definition fix_rm :: "addr \<Rightarrow> heap \<Rightarrow> heap" where
  "fix_rm t h =
     (let h1 = (if fpv h t \<noteq> NULL then hupd (fpv h t) (\<lambda>v. v\<lparr>vm_next := fnx h t\<rparr>) h else h)
      in if fnx h t \<noteq> NULL then hupd (fnx h t) (\<lambda>v. v\<lparr>vm_prev := fpv h t\<rparr>) h1 else h1)"

lemmas fix_defs = fix_gt_def fix_lt_def fix_rm_def Let_def

lemma FIX_LISTGT_w:
  assumes "z \<in> dom h" "t \<in> dom h" "z \<noteq> NULL" "t \<noteq> NULL" "z \<noteq> t" "fnx h t = NULL \<or> fnx h t \<in> dom h"
  shows "FIX_LISTGT z t (wst s h r l) = Inr ((), wst s (fix_gt z t h) r l)"
  using assms by (cases "fnx h t = NULL") (simp_all add: FIX_LISTGT_def fix_gt_def Let_def bnd_def)

lemma FIX_LISTLT_w:
  assumes "z \<in> dom h" "t \<in> dom h" "z \<noteq> NULL" "t \<noteq> NULL" "z \<noteq> t" "fpv h t = NULL \<or> fpv h t \<in> dom h"
  shows "FIX_LISTLT z t (wst s h r l) = Inr ((), wst s (fix_lt z t h) r l)"
  using assms by (cases "fpv h t = NULL") (simp_all add: FIX_LISTLT_def fix_lt_def Let_def bnd_def)

lemma FIX_LISTRM_w:
  assumes "t \<in> dom h" "t \<noteq> NULL" "fpv h t = NULL \<or> fpv h t \<in> dom h" "fnx h t = NULL \<or> fnx h t \<in> dom h"
    and "fpv h t \<noteq> t"
  shows "FIX_LISTRM t (wst s h r l) = Inr ((), wst s (fix_rm t h) r l)"
  using assms by (cases "fpv h t = NULL"; cases "fnx h t = NULL") (simp_all add: FIX_LISTRM_def fix_rm_def Let_def bnd_def)

lemma fix_views [simp]:
  "fl (fix_gt z t h) = fl h" "fr (fix_gt z t h) = fr h" "fp (fix_gt z t h) = fp h"
  "start_of (fix_gt z t h) = start_of h" "end_of (fix_gt z t h) = end_of h"
  "flags_of (fix_gt z t h) = flags_of h" "lock_of (fix_gt z t h) = lock_of h"
  "fl (fix_lt z t h) = fl h" "fr (fix_lt z t h) = fr h" "fp (fix_lt z t h) = fp h"
  "start_of (fix_lt z t h) = start_of h" "end_of (fix_lt z t h) = end_of h"
  "flags_of (fix_lt z t h) = flags_of h" "lock_of (fix_lt z t h) = lock_of h"
  "fl (fix_rm t h) = fl h" "fr (fix_rm t h) = fr h" "fp (fix_rm t h) = fp h"
  "start_of (fix_rm t h) = start_of h" "end_of (fix_rm t h) = end_of h"
  "flags_of (fix_rm t h) = flags_of h" "lock_of (fix_rm t h) = lock_of h"
  by (simp_all add: fix_defs)

lemma fix_gt_list:
  "fnx (fix_gt z t h) = (fnx h)(z := fnx h t, t := z)"
  "fpv (fix_gt z t h) = (if fnx h t = NULL then (fpv h)(z := t) else (fpv h)(z := t, fnx h t := z))"
  by (simp_all add: fix_defs)

lemma fix_lt_list:
  "fnx (fix_lt z t h) = (if fpv h t = NULL then (fnx h)(z := t) else (fnx h)(z := t, fpv h t := z))"
  "fpv (fix_lt z t h) = (fpv h)(z := fpv h t, t := z)"
  by (simp_all add: fix_defs)

lemma fix_rm_list:
  "fnx (fix_rm t h) = (if fpv h t = NULL then fnx h else (fnx h)(fpv h t := fnx h t))"
  "fpv (fix_rm t h) = (if fnx h t = NULL then fpv h else (fpv h)(fnx h t := fpv h t))"
  by (simp_all add: fix_defs)

lemma dom_fix:
  "z \<in> dom h \<Longrightarrow> t \<in> dom h \<Longrightarrow> fnx h t = NULL \<or> fnx h t \<in> dom h \<Longrightarrow> dom (fix_gt z t h) = dom h"
  "z \<in> dom h \<Longrightarrow> t \<in> dom h \<Longrightarrow> fpv h t = NULL \<or> fpv h t \<in> dom h \<Longrightarrow> dom (fix_lt z t h) = dom h"
  "fnx h t = NULL \<or> fnx h t \<in> dom h \<Longrightarrow> fpv h t = NULL \<or> fpv h t \<in> dom h \<Longrightarrow> dom (fix_rm t h) = dom h"
  by (auto simp: fix_defs)

lemma fix_other:
  "x \<noteq> z \<Longrightarrow> x \<noteq> t \<Longrightarrow> x \<noteq> fnx h t \<Longrightarrow> fix_gt z t h x = h x"
  "x \<noteq> z \<Longrightarrow> x \<noteq> t \<Longrightarrow> x \<noteq> fpv h t \<Longrightarrow> fix_lt z t h x = h x"
  "x \<noteq> fnx h t \<Longrightarrow> x \<noteq> fpv h t \<Longrightarrow> fix_rm t h x = h x"
  by (simp_all add: fix_defs hupd_other)

subsection \<open>The list after the macros\<close>

lemma dll_mem:
  assumes "dll n p (X @ t # Y)"
  shows "n t = hd0 Y NULL" and "p t = last0 NULL X"
  using assms by (simp_all add: dll_def)

lemma last0_nonnull: "NULL \<notin> set X \<Longrightarrow> last0 NULL X = NULL \<longleftrightarrow> X = []"
proof (cases X)
  case (Cons x xs)
  assume "NULL \<notin> set X"
  with Cons last0_in [of x xs] show ?thesis by auto
qed simp

lemma hd0_nonnull: "NULL \<notin> set X \<Longrightarrow> hd0 X NULL = NULL \<longleftrightarrow> X = []"
  by (cases X) auto

lemma dll_insert_gt:
  assumes "dll n p (X @ t # Y)" and "distinct (X @ t # Y)" and "z \<notin> set (X @ t # Y)" and "NULL \<notin> set (X @ t # Y)"
  shows "dll (n(z := n t, t := z)) (if n t = NULL then p(z := t) else p(z := t, n t := z)) (X @ t # z # Y)"
  using assms by (cases Y) (auto simp: dll_def)

lemma dll_insert_lt:
  assumes "dll n p (X @ t # Y)" and "distinct (X @ t # Y)" and "z \<notin> set (X @ t # Y)" and "NULL \<notin> set (X @ t # Y)"
  shows "dll (if p t = NULL then n(z := t) else n(z := t, p t := z)) (p(z := p t, t := z)) (X @ z # t # Y)"
proof -
  have pt: "p t = last0 NULL X" using dll_mem [OF assms(1)] by simp
  then have "p t = NULL \<longleftrightarrow> X = []" using assms(4) last0_nonnull by simp
  moreover have "X \<noteq> [] \<Longrightarrow> last0 NULL X \<in> set X" using last0_in [of NULL X] last0_nonnull [of X] assms(4) by auto
  moreover have "X \<noteq> [] \<Longrightarrow> last0 NULL X \<notin> set Y" using calculation(2) assms(2) by auto
  ultimately show ?thesis using assms dseg_new_last [of "n(z := t)" p NULL X t z] pt
    by (cases "X = []") (auto simp: dll_def)
qed

lemma dll_remove:
  assumes "dll n p (X @ t # Y)" and "distinct (X @ t # Y)" and "NULL \<notin> set (X @ t # Y)"
  shows "dll (if p t = NULL then n else n(p t := n t)) (if n t = NULL then p else p(n t := p t)) (X @ Y)"
proof -
  have pt: "p t = last0 NULL X" and nt: "n t = hd0 Y NULL" using dll_mem [OF assms(1)] by simp_all
  have X: "X \<noteq> [] \<Longrightarrow> last0 NULL X \<in> set X \<and> last0 NULL X \<noteq> NULL"
    using last0_in [of NULL X] last0_nonnull [of X] assms(3) by auto
  have Y: "Y \<noteq> [] \<Longrightarrow> hd0 Y NULL \<in> set Y \<and> hd0 Y NULL \<noteq> NULL"
    using hd0_in [of Y NULL] hd0_nonnull [of Y] assms(3) by auto
  have sX: "dseg n p NULL X t" and sY: "dseg n p t Y NULL" using assms(1) by (simp_all add: dll_def)
  have "last0 NULL X \<notin> set Y" using X assms(2,3) by (cases "X = []") auto
  then have "dseg (if p t = NULL then n else n(p t := n t)) p t Y NULL" using sY pt by simp
  then have "dseg (if p t = NULL then n else n(p t := n t)) (if n t = NULL then p else p(n t := p t)) (p t) Y NULL"
    using dseg_new_first [of _ p t Y NULL NULL "p t"] assms(2) Y nt by (cases "Y = []") auto
  moreover have "dseg (if p t = NULL then n else n(p t := n t)) p NULL X (n t)"
    using dseg_new_last [OF sX, of "n t"] assms(2,3) X pt by (cases "X = []") auto
  then have "dseg (if p t = NULL then n else n(p t := n t)) (if n t = NULL then p else p(n t := p t)) NULL X (n t)"
  proof (cases "Y = []")
    case False
    then have "hd0 Y NULL \<notin> set X" using Y assms(2) by auto
    with \<open>dseg _ p NULL X (n t)\<close> show ?thesis using nt Y False by simp
  qed (use nt in simp)
  ultimately show ?thesis using pt nt by (simp add: dll_def)
qed


subsection \<open>The page table in memory\<close>

text \<open>
  \<open>wf_tab h r T\<close>: below \<open>r\<close> hangs the tree \<open>T\<close>, whose nodes are areas in memory in the order
  of their starting addresses, threaded by the doubly linked list.
\<close>

definition wf_tab :: "heap \<Rightarrow> addr \<Rightarrow> addr tree \<Rightarrow> bool" where
  "wf_tab h r T \<longleftrightarrow>
     tree_at (fl h) (fr h) (fp h) r T \<and> (r \<noteq> NULL \<longrightarrow> fp h r = NULL) \<and>
     sorted_by (start_of h) (inorder T) \<and> dll (fnx h) (fpv h) (inorder T) \<and> set_tree T \<subseteq> dom h"

text \<open>\<open>kept h X h'\<close>: only links changed, and only at the addresses in \<open>X\<close>.\<close>

definition kept :: "heap \<Rightarrow> addr set \<Rightarrow> heap \<Rightarrow> bool" where
  "kept h X h' \<longleftrightarrow> start_of h' = start_of h \<and> end_of h' = end_of h \<and> flags_of h' = flags_of h \<and>
     lock_of h' = lock_of h \<and> dom h' = dom h \<and> (\<forall>x. x \<notin> X \<longrightarrow> h' x = h x)"

lemma kept_refl [simp]: "kept h X h"
  by (simp add: kept_def)

lemma kept_trans: "kept h X h' \<Longrightarrow> kept h' X h'' \<Longrightarrow> kept h X h''"
  by (simp add: kept_def)

lemma kept_mono: "kept h X h' \<Longrightarrow> X \<subseteq> Y \<Longrightarrow> kept h Y h'"
  by (auto simp: kept_def)

lemma kept_moved: "moved h X h' \<Longrightarrow> kept h X h'"
  by (auto simp: moved_def kept_def same_data_views same_data_dom)

lemma kept_mk_child: "a \<in> X \<Longrightarrow> b = NULL \<or> b \<in> X \<Longrightarrow> X \<subseteq> dom h \<Longrightarrow> kept h X (mk_child a w b h)"
  by (intro kept_moved moved_mk_child) auto

lemma kept_dom: "kept h X h' \<Longrightarrow> dom h' = dom h"
  by (simp add: kept_def)

lemma kept_fresh: "kept h X h' \<Longrightarrow> h a = None \<Longrightarrow> h' a = None"
  using kept_dom [of h X h'] by (metis domIff)

lemma kept_hupd:
  assumes "kept h X h'" and "a \<in> X" and "X \<subseteq> dom h"
    and f: "\<And>v. vm_start (f v) = vm_start v" "\<And>v. vm_end (f v) = vm_end v"
      "\<And>v. vm_flags (f v) = vm_flags v" "\<And>v. vm_lock (f v) = vm_lock v"
  shows "kept h X (hupd a f h')"
proof -
  have "hupd a f h' x = h x" if "x \<notin> X" for x using that assms(1,2) by (cases "x = a") (auto simp: kept_def hupd_other)
  moreover have "dom (hupd a f h') = dom h" using assms(1-3) by (auto simp: kept_def)
  ultimately show ?thesis using assms(1) f by (simp add: kept_def)
qed

lemma kept_fix:
  assumes "X \<subseteq> dom h" and "t \<in> X" and "fnx h t = NULL \<or> fnx h t \<in> X" and "fpv h t = NULL \<or> fpv h t \<in> X"
  shows "z \<in> X \<Longrightarrow> kept h X (fix_gt z t h)" "z \<in> X \<Longrightarrow> kept h X (fix_lt z t h)" "kept h X (fix_rm t h)"
  using assms by (auto simp: fix_defs intro!: kept_hupd)

lemma sorted_by_distinct: "sorted_by k xs \<Longrightarrow> distinct xs"
  by (induction xs) auto

lemma wf_tab_facts:
  assumes "wf_tab h r T"
  shows "distinct (inorder T)" "NULL \<notin> set_tree T" "r = NULL \<longleftrightarrow> T = Leaf"
proof -
  show "distinct (inorder T)"
    using assms sorted_by_distinct by (auto simp: wf_tab_def)
  have "tree_at (fl h) (fr h) (fp h) r T" using assms by (simp add: wf_tab_def)
  then show "NULL \<notin> set_tree T" by (rule tree_at_NULL_notin)
  show "r = NULL \<longleftrightarrow> T = Leaf" using \<open>tree_at _ _ _ r T\<close> by (cases T) auto
qed

lemma splay_wf:
  assumes wf: "wf_tab h t T" and frame: "h (frame_n s) = None" "frame_n s \<noteq> NULL"
  shows "\<exists>h' t'. S_sp_tree_splay x t (wst s h r l) = Inr (t', wst s h' r l) \<and>
     wf_tab h' t' (splay (start_of h) x T) \<and> moved h (set_tree T) h'"
proof -
  note f = wf_tab_facts [OF wf]
  from splay_w [of h t T s x r l] wf f frame obtain h' t' where
    run: "S_sp_tree_splay x t (wst s h r l) = Inr (t', wst s h' r l)"
    and tr: "tree_at (fl h') (fr h') (fp h') t' (splay (start_of h) x T)" "t \<noteq> NULL \<longrightarrow> fp h' t' = NULL"
    and m: "moved h (set_tree T) h'" by (auto simp: wf_tab_def)
  have "same_data h h'" using m by (simp add: moved_def)
  note v = same_data_views [OF this]
  have "t = NULL \<Longrightarrow> t' = NULL" using tr(1) f(3) by (simp add: splay_def)
  then have "wf_tab h' t' (splay (start_of h) x T)"
    using tr wf v moved_dom [OF m] by (auto simp: wf_tab_def)
  with run m show ?thesis by blast
qed

text \<open>Neighbours in the list are areas of the table.\<close>

lemma wf_tab_links:
  assumes "wf_tab h r T" and "t \<in> set_tree T"
  shows "fnx h t = NULL \<or> fnx h t \<in> set_tree T" "fpv h t = NULL \<or> fpv h t \<in> set_tree T"
    "fpv h t \<noteq> t" "fnx h t \<noteq> t" "t \<noteq> NULL" "t \<in> dom h"
proof -
  from assms(2) obtain X Y where XY: "inorder T = X @ t # Y" by (metis set_inorder split_list)
  have "dll (fnx h) (fpv h) (X @ t # Y)" using assms(1) XY by (simp add: wf_tab_def)
  note m = dll_mem [OF this]
  have s: "set_tree T = set X \<union> set (t # Y)" by (metis XY set_append set_inorder)
  have d: "t \<notin> set X" "t \<notin> set Y" "t \<noteq> NULL" "NULL \<notin> set X" using wf_tab_facts [OF assms(1)] XY s by auto
  show "fnx h t = NULL \<or> fnx h t \<in> set_tree T" using hd0_in [of Y NULL] m s by auto
  show "fpv h t = NULL \<or> fpv h t \<in> set_tree T" using last0_in [of NULL X] m s by auto
  show "fpv h t \<noteq> t" "fnx h t \<noteq> t" using last0_in [of NULL X] hd0_in [of Y NULL] m d by auto
  show "t \<noteq> NULL" by (rule d)
  show "t \<in> dom h" using assms by (auto simp: wf_tab_def)
qed


subsection \<open>The helpers on a well-formed table\<close>

lemma insert_helper_lt:
  assumes wf: "wf_tab h t (Node A t B)" and r: "r \<noteq> NULL"
    and z: "z \<in> dom h" "z \<noteq> NULL" "z \<notin> set_tree (Node A t B)" "fp h z = NULL"
    and ord: "start_of h z < start_of h t" "\<forall>a \<in> set_tree A. start_of h a < start_of h z"
  shows "\<exists>h'. S_sp_tree_insert_helper t z (wst s h r l) = Inr ((), wst s h' z l) \<and>
     wf_tab h' z (Node A z (Node Leaf t B)) \<and> kept h (insert z (set_tree (Node A t B))) h'"
proof -
  let ?T = "Node A t B" and ?X = "insert z (set_tree (Node A t B))"
  note lk = wf_tab_links [OF wf, of t, simplified]
  have tr: "tree_at (fl h) (fr h) (fp h) (fl h t) A" "tree_at (fl h) (fr h) (fp h) (fr h t) B" "t \<noteq> NULL" "fp h t = NULL"
    "fr h t \<noteq> NULL \<longrightarrow> fp h (fr h t) = t" using wf by (simp_all add: wf_tab_def)
  have dist: "distinct (inorder A @ t # inorder B)" "NULL \<notin> set_tree A" "NULL \<notin> set_tree B"
    using wf_tab_facts [OF wf] by simp_all
  have dm: "t \<in> dom h" "set_tree A \<subseteq> dom h" "set_tree B \<subseteq> dom h" "?X \<subseteq> dom h" using wf z by (auto simp: wf_tab_def)
  have b: "fl h t = NULL \<or> fl h t \<in> set_tree A" and c: "fr h t = NULL \<or> fr h t \<in> set_tree B"
    using tr tree_at_root by metis+
  have b': "fl h t = NULL \<or> fl h t \<in> dom h" "fpv h t = NULL \<or> fpv h t \<in> dom h" using b dm lk(2) by auto
  have ne: "z \<noteq> t" "z \<notin> set_tree A" "z \<notin> set_tree B" using z by auto
  have tt: "t \<notin> set_tree A" "t \<notin> set_tree B" "set_tree A \<inter> set_tree B = {}" "distinct (inorder A)" using dist by auto
  have ne': "z \<noteq> fl h t" "t \<noteq> fl h t" "fl h t \<notin> set_tree B" using b z ne tt dist(3) tr(3) by auto
  define h1 where "h1 = fix_lt z t h"
  define h2 where "h2 = mk_child z SP_L (fl h t) h1"
  define h3 where "h3 = mk_child z SP_R t h2"
  define h4 where "h4 = hupd t (\<lambda>v. v\<lparr>sp_l := NULL\<rparr>) h3"
  have r1: "FIX_LISTLT z t (wst s h r l) = Inr ((), wst s h1 r l)"
    unfolding h1_def using z ne b' tr dm by (intro FIX_LISTLT_w) simp_all
  have k1: "kept h ?X h1" unfolding h1_def using lk dm by (intro kept_fix(2)) auto
  have d1: "dom h1 = dom h" using k1 by (rule kept_dom)
  have r2: "MAKE_CHILD z SP_L (get_field sp_l t) (wst s h1 r l) = Inr ((), wst s h2 r l)"
    using MAKE_CHILD_w(2) [of z h1 t SP_L s r l] z ne ne' b' tr dm d1 by (simp add: h2_def h1_def)
  have k2: "kept h1 ?X h2" unfolding h2_def using b z ne dm d1 by (intro kept_mk_child) auto
  have d2: "dom h2 = dom h" using kept_dom [OF k2] d1 by simp
  have r3: "MAKE_CHILD z SP_R (ret t) (wst s h2 r l) = Inr ((), wst s h3 r l)"
    using MAKE_CHILD_w(1) [of z h2 t SP_R s r l] z ne dm d2 by (simp add: h3_def)
  have k3: "kept h2 ?X h3" unfolding h3_def using dm d2 by (intro kept_mk_child) auto
  have d3: "dom h3 = dom h" using kept_dom [OF k3] d2 by simp
  have k4: "kept h3 ?X h4" unfolding h4_def using dm d3 by (intro kept_hupd kept_refl) auto
  have k: "kept h ?X h4" by (rule kept_trans [OF k1 kept_trans [OF k2 kept_trans [OF k3 k4]]])
  have run: "S_sp_tree_insert_helper t z (wst s h r l) = Inr ((), wst s h4 z l)"
    using r z ord(1) tr dm r1 r2 r3 d3
    by (simp add: S_sp_tree_insert_helper_def bnd_def h4_def)
  have fl: "fl h4 = (fl h)(z := fl h t, t := NULL)" and fr: "fr h4 = (fr h)(z := t)"
    by (simp_all add: h4_def h3_def h2_def h1_def)
  have "fp h2 = (if fl h t = NULL then fp h else (fp h)(fl h t := z))"
    unfolding h2_def using ne' z by (subst fp_mk_child) (auto simp: h1_def)
  moreover from this have "fp h2 z = NULL" using ne' z by simp
  ultimately have "fp h3 = (if fl h t = NULL then fp h else (fp h)(fl h t := z))(t := z)"
    unfolding h3_def using ne tr by (subst fp_mk_child) auto
  then have fp: "fp h4 = (if fl h t = NULL then fp h else (fp h)(fl h t := z))(t := z)" by (simp add: h4_def)
  have lists: "dll (fnx h4) (fpv h4) (inorder A @ z # t # inorder B)"
    using dll_insert_lt [of "fnx h" "fpv h" "inorder A" t "inorder B" z] wf z dist tr(3)
    by (simp add: h4_def h3_def h2_def h1_def fix_lt_list wf_tab_def)
  have tree: "tree_at (fl h4) (fr h4) (fp h4) z (Node A z (Node Leaf t B))" "fp h4 z = NULL"
    using tr ne ne' tt z(2,4) fl fr fp b c
    by (cases "fl h t = NULL"; simp del: fun_upd_apply add: fun_upd_simps; fastforce)+
  have "sorted_by (start_of h) (inorder A @ t # inorder B)" using wf by (simp add: wf_tab_def)
  then have "sorted_by (start_of h4) (inorder A @ z # t # inorder B)" 
    using ord k by (auto simp: sorted_wrt_append kept_def)
  then have "wf_tab h4 z (Node A z (Node Leaf t B))" using lists tree dm z kept_dom [OF k] by (auto simp: wf_tab_def)
  with run k show ?thesis by blast
qed


lemma insert_helper_gt:
  assumes wf: "wf_tab h t (Node A t B)" and r: "r \<noteq> NULL"
    and z: "z \<in> dom h" "z \<noteq> NULL" "z \<notin> set_tree (Node A t B)" "fp h z = NULL"
    and ord: "start_of h t < start_of h z" "\<forall>a \<in> set_tree B. start_of h z < start_of h a"
  shows "\<exists>h'. S_sp_tree_insert_helper t z (wst s h r l) = Inr ((), wst s h' z l) \<and>
     wf_tab h' z (Node (Node A t Leaf) z B) \<and> kept h (insert z (set_tree (Node A t B))) h'"
proof -
  let ?T = "Node A t B" and ?X = "insert z (set_tree (Node A t B))"
  note lk = wf_tab_links [OF wf, of t, simplified]
  have tr: "tree_at (fl h) (fr h) (fp h) (fl h t) A" "tree_at (fl h) (fr h) (fp h) (fr h t) B" "t \<noteq> NULL" "fp h t = NULL"
    "fl h t \<noteq> NULL \<longrightarrow> fp h (fl h t) = t" using wf by (simp_all add: wf_tab_def)
  have dist: "distinct (inorder A @ t # inorder B)" "NULL \<notin> set_tree A" "NULL \<notin> set_tree B"
    using wf_tab_facts [OF wf] by simp_all
  have dm: "t \<in> dom h" "set_tree A \<subseteq> dom h" "set_tree B \<subseteq> dom h" "?X \<subseteq> dom h" using wf z by (auto simp: wf_tab_def)
  have b: "fr h t = NULL \<or> fr h t \<in> set_tree B" and c: "fl h t = NULL \<or> fl h t \<in> set_tree A"
    using tr tree_at_root by metis+
  have b': "fr h t = NULL \<or> fr h t \<in> dom h" "fnx h t = NULL \<or> fnx h t \<in> dom h" using b dm lk(1) by auto
  have ne: "z \<noteq> t" "z \<notin> set_tree A" "z \<notin> set_tree B" using z by auto
  have tt: "t \<notin> set_tree A" "t \<notin> set_tree B" "set_tree A \<inter> set_tree B = {}" "distinct (inorder B)" using dist by auto
  have ne': "z \<noteq> fr h t" "t \<noteq> fr h t" "fr h t \<notin> set_tree A" using b z ne tt dist(2) tr(3) by auto
  define h1 where "h1 = fix_gt z t h"
  define h2 where "h2 = mk_child z SP_R (fr h t) h1"
  define h3 where "h3 = mk_child z SP_L t h2"
  define h4 where "h4 = hupd t (\<lambda>v. v\<lparr>sp_r := NULL\<rparr>) h3"
  have r1: "FIX_LISTGT z t (wst s h r l) = Inr ((), wst s h1 r l)"
    unfolding h1_def using z ne b' tr dm by (intro FIX_LISTGT_w) simp_all
  have k1: "kept h ?X h1" unfolding h1_def using lk dm by (intro kept_fix(1)) auto
  have d1: "dom h1 = dom h" using k1 by (rule kept_dom)
  have r2: "MAKE_CHILD z SP_R (get_field sp_r t) (wst s h1 r l) = Inr ((), wst s h2 r l)"
    using MAKE_CHILD_w(3) [of z h1 t SP_R s r l] z ne ne' b' tr dm d1 by (simp add: h2_def h1_def)
  have k2: "kept h1 ?X h2" unfolding h2_def using b z ne dm d1 by (intro kept_mk_child) auto
  have d2: "dom h2 = dom h" using kept_dom [OF k2] d1 by simp
  have r3: "MAKE_CHILD z SP_L (ret t) (wst s h2 r l) = Inr ((), wst s h3 r l)"
    using MAKE_CHILD_w(1) [of z h2 t SP_L s r l] z ne dm d2 by (simp add: h3_def)
  have k3: "kept h2 ?X h3" unfolding h3_def using dm d2 by (intro kept_mk_child) auto
  have d3: "dom h3 = dom h" using kept_dom [OF k3] d2 by simp
  have k4: "kept h3 ?X h4" unfolding h4_def using dm d3 by (intro kept_hupd kept_refl) auto
  have k: "kept h ?X h4" by (rule kept_trans [OF k1 kept_trans [OF k2 kept_trans [OF k3 k4]]])
  have run: "S_sp_tree_insert_helper t z (wst s h r l) = Inr ((), wst s h4 z l)"
    using r z ord(1) less_not_sym [OF ord(1)] tr dm r1 r2 r3 d3
    by (simp add: S_sp_tree_insert_helper_def bnd_def h4_def)
  have fl: "fl h4 = (fl h)(z := t)" and fr: "fr h4 = (fr h)(z := fr h t, t := NULL)"
    by (simp_all add: h4_def h3_def h2_def h1_def)
  have "fp h2 = (if fr h t = NULL then fp h else (fp h)(fr h t := z))"
    unfolding h2_def using ne' z by (subst fp_mk_child) (auto simp: h1_def)
  moreover from this have "fp h2 z = NULL" using ne' z by simp
  ultimately have "fp h3 = (if fr h t = NULL then fp h else (fp h)(fr h t := z))(t := z)"
    unfolding h3_def using ne tr by (subst fp_mk_child) auto
  then have fp: "fp h4 = (if fr h t = NULL then fp h else (fp h)(fr h t := z))(t := z)" by (simp add: h4_def)
  have lists: "dll (fnx h4) (fpv h4) (inorder A @ t # z # inorder B)"
    using dll_insert_gt [of "fnx h" "fpv h" "inorder A" t "inorder B" z] wf z dist tr(3)
    by (simp add: h4_def h3_def h2_def h1_def fix_gt_list wf_tab_def)
  have tree: "tree_at (fl h4) (fr h4) (fp h4) z (Node (Node A t Leaf) z B)" "fp h4 z = NULL"
    using tr ne ne' tt z(2,4) fl fr fp b c
    by (cases "fr h t = NULL"; simp del: fun_upd_apply add: fun_upd_simps; fastforce)+
  have "sorted_by (start_of h) (inorder A @ t # inorder B)" using wf by (simp add: wf_tab_def)
  then have "sorted_by (start_of h4) (inorder A @ t # z # inorder B)"
    using ord k by (auto simp: sorted_wrt_append kept_def)
  then have "wf_tab h4 z (Node (Node A t Leaf) z B)" using lists tree dm z kept_dom [OF k] by (auto simp: wf_tab_def)
  with run k show ?thesis by blast
qed

text \<open>The tree after the removal of the root: its left subtree is splayed and takes over the right one.\<close>

fun join_trees :: "('a \<Rightarrow> 'k::linorder) \<Rightarrow> 'k \<Rightarrow> 'a tree \<Rightarrow> 'a tree \<Rightarrow> 'a tree" where
  "join_trees k x Leaf B = B"
| "join_trees k x A B = (case splay k x A of Leaf \<Rightarrow> B | Node l z r \<Rightarrow> Node l z B)"

lemma inorder_join:
  assumes "sorted_by k (inorder A)" and "\<forall>b \<in> set_tree A. k b < x"
  shows "inorder (join_trees k x A B) = inorder A @ inorder B"
proof (cases A)
  case (Node C c D)
  then obtain l a where eq: "splay k x A = Node l a Leaf" using splay_greatest [OF assms] by auto
  have "inorder A = inorder l @ [a]" using inorder_splay [of k x A] eq by simp
  then show ?thesis using eq Node by simp
qed simp

lemma remove_helper_run:
  assumes wf: "wf_tab h t (Node A t B)" and frame: "h (frame_n s) = None" "frame_n s \<noteq> NULL"
  defines "J \<equiv> join_trees (start_of h) (start_of h t) A B"
  shows "\<exists>h' z. S_sp_tree_remove_helper t (wst s h r l) = Inr ((), wst s h' z l) \<and>
     wf_tab h' z J \<and> inorder J = inorder A @ inorder B \<and> kept h (set_tree (Node A t B)) h'"
proof -
  let ?X = "set_tree (Node A t B)"
  note lk = wf_tab_links [OF wf, of t, simplified]
  have tr: "tree_at (fl h) (fr h) (fp h) (fl h t) A" "tree_at (fl h) (fr h) (fp h) (fr h t) B" "t \<noteq> NULL"
    using wf by (simp_all add: wf_tab_def)
  have dist: "distinct (inorder A @ t # inorder B)" "NULL \<notin> set_tree A" "NULL \<notin> set_tree B"
    using wf_tab_facts [OF wf] by simp_all
  have dm: "t \<in> dom h" "set_tree A \<subseteq> dom h" "set_tree B \<subseteq> dom h" "?X \<subseteq> dom h" using wf by (auto simp: wf_tab_def)
  have lk': "fnx h t = NULL \<or> fnx h t \<in> dom h" "fpv h t = NULL \<or> fpv h t \<in> dom h" using lk dm by auto
  have tt: "t \<notin> set_tree A" "t \<notin> set_tree B" "set_tree A \<inter> set_tree B = {}" "distinct (inorder A)" "distinct (inorder B)"
    using dist by auto
  have srt: "sorted_by (start_of h) (inorder A @ t # inorder B)" using wf by (simp add: wf_tab_def)
  then have srtA: "sorted_by (start_of h) (inorder A)" "\<forall>b \<in> set_tree A. start_of h b < start_of h t"
    by (simp_all add: sorted_wrt_append)
  have J: "inorder J = inorder A @ inorder B" unfolding J_def by (rule inorder_join [OF srtA])
  have setJ: "set_tree J = set_tree A \<union> set_tree B" by (metis J set_append set_inorder)
  have srtJ: "sorted_by (start_of h) (inorder J)" using srt by (simp add: J sorted_wrt_append)
  define h1 where "h1 = fix_rm t h"
  have r1: "FIX_LISTRM t (wst s h r l) = Inr ((), wst s h1 r l)"
    unfolding h1_def using tr lk lk' dm by (intro FIX_LISTRM_w) simp_all
  have k1: "kept h ?X h1" unfolding h1_def using lk dm by (intro kept_fix(3)) auto
  have d1: "dom h1 = dom h" using k1 by (rule kept_dom)
  have v1: "fl h1 = fl h" "fr h1 = fr h" "fp h1 = fp h" "start_of h1 = start_of h" by (simp_all add: h1_def)
  have list: "dll (fnx h1) (fpv h1) (inorder J)"
    using dll_remove [of "fnx h" "fpv h" "inorder A" t "inorder B"] wf dist tr(3)
    by (simp add: h1_def fix_rm_list wf_tab_def J)
  have c: "fr h t = NULL \<or> fr h t \<in> set_tree B" and cB: "fr h t = NULL \<longleftrightarrow> B = Leaf"
    using tr tree_at_root by (metis, cases B, auto)
  show ?thesis
  proof (cases "fl h t = NULL")
    case True
    then have A: "A = Leaf" using tr(1) by simp
    then have JB: "J = B" by (simp add: J_def)
    define h2 where "h2 = (if fr h t \<noteq> NULL then hupd (fr h t) (\<lambda>v. v\<lparr>sp_p := NULL\<rparr>) h1 else h1)"
    have frd: "fr h t \<noteq> NULL \<Longrightarrow> fr h t \<in> dom h1" using c dm d1 by auto
    have run: "S_sp_tree_remove_helper t (wst s h r l) = Inr ((), wst s h2 (fr h t) l)"
      using True tr dm d1 v1 frd
      by (cases "fr h t = NULL") (simp_all add: S_sp_tree_remove_helper_def bnd_def r1 h2_def)
    have k2: "kept h ?X h2" using k1 c dm by (auto simp: h2_def intro!: kept_hupd)
    have v2: "fl h2 = fl h" "fr h2 = fr h" "fp h2 = (if fr h t = NULL then fp h else (fp h)(fr h t := NULL))"
      "start_of h2 = start_of h" "fnx h2 = fnx h1" "fpv h2 = fpv h1"
      by (simp_all add: h2_def v1)
    have "tree_at (fl h2) (fr h2) (fp h2) (fr h t) B" using tr(2) tt(5) v2 by (cases "fr h t = NULL") simp_all
    then have "wf_tab h2 (fr h t) J" using srtJ list JB v2 dm kept_dom [OF k2] by (auto simp: wf_tab_def)
    with run k2 J show ?thesis by blast
  next
    case False
    then have A: "A \<noteq> Leaf" using tr(1) by auto
    have "tree_at (fl h1) (fr h1) (fp h1) (fl h t) A" "set_tree A \<subseteq> dom h1" "h1 (frame_n s) = None"
      using tr v1 dm d1 kept_fresh [OF k1 frame(1)] by simp_all
    from splay_w [OF this(1) tt(4) this(2,3) frame(2), of "start_of h t" r l] obtain h2 z where
      r2: "S_sp_tree_splay (start_of h t) (fl h t) (wst s h1 r l) = Inr (z, wst s h2 r l)"
      and z: "tree_at (fl h2) (fr h2) (fp h2) z (splay (start_of h) (start_of h t) A)" "fp h2 z = NULL"
      and m2: "moved h1 (set_tree A) h2" using False v1 by auto
    obtain L a where spl: "splay (start_of h) (start_of h t) A = Node L a Leaf" using splay_greatest [OF srtA A] by blast
    have az: "a = z" "z \<noteq> NULL" using z spl by simp_all
    have k2: "kept h1 ?X h2" using kept_moved [OF m2] by (rule kept_mono) auto
    have d2: "dom h2 = dom h" using kept_dom [OF k2] d1 by simp
    have JN: "J = Node L z B" using A spl az by (cases A) (simp_all add: J_def)
    have setA: "set_tree A = insert z (set_tree L)" using set_splay [of "start_of h" "start_of h t" A] spl az by simp
    have distJ: "distinct (inorder L @ z # inorder B)" using sorted_by_distinct [OF srtJ] JN by simp
    have zz: "z \<noteq> t" "z \<notin> set_tree L" "z \<notin> set_tree B" "z \<in> ?X" using setA tt distJ by auto
    have same: "h2 t = h1 t" "\<And>b. b \<in> set_tree B \<Longrightarrow> h2 b = h1 b"
      using m2 tt by (auto simp: moved_def)
    have vw: "fl h2 b = fl h b \<and> fr h2 b = fr h b \<and> fp h2 b = fp h b" if "h2 b = h1 b" for b
      unfolding v1 [symmetric] using that by (simp add: field_defs)
    then have frt: "fr h2 t = fr h t" using same(1) by simp
    have c': "fr h t = NULL \<or> fr h t \<in> dom h" "z \<noteq> fr h t" "t \<noteq> fr h t" using c dm zz az tt tr(3) by auto
    define h3 where "h3 = hupd z (\<lambda>v. v\<lparr>sp_p := NULL\<rparr>) h2"
    define h4 where "h4 = mk_child z SP_R (fr h t) h3"
    have zd: "z \<in> dom h" using zz dm by auto
    have d3: "dom h3 = dom h" using zd d2 by (auto simp: h3_def)
    have frt3: "fr h3 t = fr h t" by (simp add: h3_def frt)
    have r4: "MAKE_CHILD z SP_R (get_field sp_r t) (wst s h3 r l) = Inr ((), wst s h4 r l)"
      using MAKE_CHILD_w(3) [of z h3 t SP_R s r l] zd az zz c' tr dm d3 frt3 by (simp add: h4_def)
    have k3: "kept h2 ?X h3" unfolding h3_def using zz dm d2 by (intro kept_hupd) auto
    have k4: "kept h3 ?X h4" unfolding h4_def using zz dm d3 c by (intro kept_mk_child) auto
    have k: "kept h ?X h4" by (rule kept_trans [OF k1 kept_trans [OF k2 kept_trans [OF k3 k4]]])
    have run: "S_sp_tree_remove_helper t (wst s h r l) = Inr ((), wst s h4 z l)"
      using False tr dm d1 d2 v1 zd az
      by (simp add: S_sp_tree_remove_helper_def bnd_def r1 r2 r4 h3_def [symmetric])
    have sd: "same_data h1 h2" using m2 by (simp add: moved_def)
    have lst: "fnx h4 = fnx h1" "fpv h4 = fpv h1" "start_of h4 = start_of h"
      using same_data_views [OF sd] v1 by (simp_all add: h4_def h3_def)
    have fl: "fl h4 = fl h2" and fr: "fr h4 = (fr h2)(z := fr h t)" by (simp_all add: h4_def h3_def)
    have fp: "fp h4 = (if fr h t = NULL then fp h2 else (fp h2)(fr h t := z))"
      unfolding h4_def using c' z(2) by (subst fp_mk_child) (auto simp: h3_def fun_upd_idem)
    have "tree_at (fl h2) (fr h2) (fp h2) (fr h t) B"
      using tr(2) by (rule tree_at_cong) (use same(2) vw tt(5) in simp_all)
    then have B4: "tree_at (fl h4) (fr h4) (fp h4) (fr h t) B"
      using zz tt(5) fl fr fp by (cases "fr h t = NULL") simp_all
    have L2: "tree_at (fl h2) (fr h2) (fp h2) (fl h2 z) L" "fl h2 z \<noteq> NULL \<longrightarrow> fp h2 (fl h2 z) = z"
      using z spl az by simp_all
    have "fr h t \<notin> set_tree L" if "fr h t \<noteq> NULL" using c that distJ by auto
    then have L4: "tree_at (fl h4) (fr h4) (fp h4) (fl h4 z) L"
      using L2 zz fl fr fp by (cases "fr h t = NULL") simp_all
    have "fl h2 z \<noteq> NULL \<Longrightarrow> fl h2 z \<noteq> fr h t" using tree_at_root [OF L2(1)] c distJ by auto
    then have "fl h4 z \<noteq> NULL \<longrightarrow> fp h4 (fl h4 z) = z" using L2 fl fp by auto
    then have "tree_at (fl h4) (fr h4) (fp h4) z J" "fp h4 z = NULL" using L4 B4 az JN fl fr fp c' z(2) by auto
    then have "wf_tab h4 z J" using srtJ list lst setJ dm kept_dom [OF k] by (auto simp: wf_tab_def)
    with run k J show ?thesis by blast
  qed
qed

end
