(* ===== verification/Table_Ops.thy ===== *)
theory Table_Ops
  imports Page_Table
begin

section \<open>Insert, remove, find and free\<close>

text \<open>
  The exported operations of \<open>sp_tree.c\<close> other than \<open>sp_tree_find_mod_and_lock\<close>, on a table
  that satisfies \<open>tab\<close>. The operations that give memory back are proved once, in the locale
  \<open>vma_pool\<close>, which states what they rely on of \<open>vma_alloc\<close> and \<open>vma_free\<close>.
\<close>

subsection \<open>Frame properties\<close>

lemma dseg_cong:
  "(\<And>a. a \<in> set xs \<Longrightarrow> n' a = n a \<and> p' a = p a) \<Longrightarrow> dseg n' p' a xs b = dseg n p a xs b"
  by (induction n p a xs b rule: dseg.induct) auto

lemma wf_tab_cong:
  assumes "wf_tab h r T" and "\<And>a. a \<in> set_tree T \<Longrightarrow> h' a = h a"
  shows "wf_tab h' r T"
proof -
  note d = wf_tab_facts [OF assms(1)]
  have v: "fl h' a = fl h a" "fr h' a = fr h a" "fp h' a = fp h a" "start_of h' a = start_of h a"
    "fnx h' a = fnx h a" "fpv h' a = fpv h a" if "a \<in> set_tree T" for a
    using assms(2) [OF that] by (simp_all add: view_defs)
  have tr: "tree_at (fl h) (fr h) (fp h) r T" using assms(1) by (simp add: wf_tab_def)
  then have "tree_at (fl h') (fr h') (fp h') r T" by (rule tree_at_cong) (use v d in simp_all)
  moreover have "r \<noteq> NULL \<Longrightarrow> fp h' r = NULL" using tr tree_at_root v assms(1) by (auto simp: wf_tab_def)
  moreover have "sorted_by (start_of h') (inorder T)"
    using assms(1) v by (auto simp: wf_tab_def elim!: sorted_wrt_mono_rel [rotated])
  moreover have "dll (fnx h') (fpv h') (inorder T)"
    using assms(1) v by (simp add: wf_tab_def dll_def) (subst dseg_cong [of _ _ "fnx h" _ "fpv h"]; simp)
  moreover have "set_tree T \<subseteq> dom h'"
    using assms(1,2) by (auto simp: wf_tab_def domIff subset_iff)
  ultimately show ?thesis by (simp add: wf_tab_def)
qed

subsection \<open>Creating a node\<close>

definition node_init :: "bool \<Rightarrow> addr \<Rightarrow> heap \<Rightarrow> heap" where
  "node_init omp z h =
     hupd z (\<lambda>v. v\<lparr>vm_lock := released omp (lock_of h z)\<rparr>)
       (hupd z (\<lambda>v. v\<lparr>vm_next := NULL\<rparr>) (hupd z (\<lambda>v. v\<lparr>vm_prev := NULL\<rparr>)
         (hupd z (\<lambda>v. v\<lparr>sp_r := NULL\<rparr>) (hupd z (\<lambda>v. v\<lparr>sp_l := NULL\<rparr>) (hupd z (\<lambda>v. v\<lparr>sp_p := NULL\<rparr>) h)))))"

lemma S_sp_node_init_w:
  "z \<in> dom h \<Longrightarrow> z \<noteq> NULL \<Longrightarrow> S_sp_node_init z (wst s h r l) = Inr ((), wst s (node_init (openmp s) z h) r l)"
  by (simp add: S_sp_node_init_def node_init_def bnd_def lock_init_run)

lemma node_init_views [simp]:
  "fl (node_init omp z h) = (fl h)(z := NULL)" "fr (node_init omp z h) = (fr h)(z := NULL)"
  "fp (node_init omp z h) = (fp h)(z := NULL)" "fnx (node_init omp z h) = (fnx h)(z := NULL)"
  "fpv (node_init omp z h) = (fpv h)(z := NULL)" "start_of (node_init omp z h) = start_of h"
  "end_of (node_init omp z h) = end_of h" "flags_of (node_init omp z h) = flags_of h"
  "lock_of (node_init omp z h) = (lock_of h)(z := released omp (lock_of h z))"
  "z \<in> dom h \<Longrightarrow> dom (node_init omp z h) = dom h"
  by (auto simp: node_init_def)

lemma node_init_other: "x \<noteq> z \<Longrightarrow> node_init omp z h x = h x"
  by (simp add: node_init_def hupd_other)

subsection \<open>The state of the table\<close>

text \<open>
  \<open>tab s T\<close>: the page table of \<open>s\<close> is well formed, its lock is free, and the frame of
  \<open>S_sp_tree_splay\<close> lies outside the memory in use. \<open>idle_areas\<close>: the locks of the areas are free.
\<close>

definition tab :: "'z st_scheme \<Rightarrow> addr tree \<Rightarrow> bool" where
  "tab s T \<longleftrightarrow> wf_tab (vmas s) (root (vma_tree s)) T \<and> vmas s (frame_n s) = None \<and> frame_n s \<noteq> NULL \<and>
     lock_idle (openmp s) (lock (vma_tree s))"

definition idle_areas :: "'z st_scheme \<Rightarrow> addr set \<Rightarrow> bool" where
  "idle_areas s X \<longleftrightarrow> (\<forall>a \<in> X. lock_idle (openmp s) (lock_of (vmas s) a))"

text \<open>
  \<open>same_areas s s' X\<close>: \<open>s'\<close> differs from \<open>s\<close> in the tree and in the links of the areas in \<open>X\<close>
  only; no range, flag or lock changed.
\<close>

definition same_areas :: "'z st_scheme \<Rightarrow> 'z st_scheme \<Rightarrow> addr set \<Rightarrow> bool" where
  "same_areas s s' X \<longleftrightarrow> kept (vmas s) X (vmas s') \<and>
     s' = wst s (vmas s') (root (vma_tree s')) (lock (vma_tree s))"

lemma lock_ops [simp]:
  "lock_idle omp l \<Longrightarrow> lock_get omp l = Inr (got omp l)"
  "lock_let omp (got omp l) = Inr (released omp (got omp l))"
  by (simp add: any_lock.get_idle, simp add: any_lock.let_held)

lemma sp_tree_insert_correct:
  assumes t: "tab s T" and z: "z \<in> dom (vmas s)" "z \<noteq> NULL" "z \<notin> set_tree T"
    and new: "\<forall>a \<in> set_tree T. start_of (vmas s) a \<noteq> start_of (vmas s) z"
  defines "k \<equiv> start_of (vmas s)"
  shows "\<exists>h T'. sp_tree_insert z s = Inr ((), wst s h z (lock (vma_tree s))) \<and> wf_tab h z T' \<and>
     kept (node_init (openmp s) z (vmas s)) (insert z (set_tree T)) h \<and>
     inorder T' = filter (\<lambda>a. k a < k z) (inorder T) @ z # filter (\<lambda>a. k z < k a) (inorder T)"
proof -
  define r where "r = root (vma_tree s)"
  define l where "l = lock (vma_tree s)"
  define h where "h = vmas s"
  define h0 where "h0 = node_init (openmp s) z h"
  have idle: "lock_idle (openmp s) l" and fr: "h (frame_n s) = None" "frame_n s \<noteq> NULL" and wf: "wf_tab h r T"
    using t by (simp_all add: tab_def l_def h_def r_def)
  have s: "s = wst s h r l" by (simp add: h_def r_def l_def wst_self)
  have zd: "z \<in> dom h0" using z by (simp add: h0_def h_def)
  have wf0: "wf_tab h0 r T" using wf by (rule wf_tab_cong) (unfold h0_def, rule node_init_other, use z(3) in blast)
  have fr0: "h0 (frame_n s) = None" using fr(1) z(1) by (metis domIff h0_def h_def node_init_views(10))
  have k: "k = start_of h0" by (simp add: k_def h0_def h_def)
  have zv: "fl h0 z = NULL" "fr h0 z = NULL" "fp h0 z = NULL" "fnx h0 z = NULL" "fpv h0 z = NULL"
    by (simp_all add: h0_def)
  from splay_wf [OF wf0 fr0 fr(2), of "k z" r "got (openmp s) l"] obtain h1 t1 where
    run: "S_sp_tree_splay (k z) r (wst s h0 r (got (openmp s) l)) = Inr (t1, wst s h1 r (got (openmp s) l))"
    and wf1: "wf_tab h1 t1 (splay k (k z) T)" and m: "moved h0 (set_tree T) h1"
    by (auto simp: k)
  have start: "sp_tree_insert z (wst s h r l) =
      bnd (S_sp_tree_insert_helper t1 z) (\<lambda>_. upd_tree_lock lock_let) (wst s h1 r (got (openmp s) l))"
    using z zd idle run k by (simp add: sp_tree_insert_def bnd_def S_sp_node_init_w h0_def [symmetric] h_def [symmetric])
  have k1: "kept h0 (insert z (set_tree T)) h1" using kept_moved [OF m] by (rule kept_mono) auto
  have sk: "start_of h1 = k" using k1 by (simp add: kept_def k)
  have zz: "h1 z = h0 z" using m z by (simp add: moved_def)
  then have zv1: "fl h1 z = NULL" "fr h1 z = NULL" "fp h1 z = NULL" "fnx h1 z = NULL" "fpv h1 z = NULL" "z \<in> dom h1"
    using zv zd by (simp_all add: view_defs domIff)
  show ?thesis
  proof (cases T)
    case Leaf
    then have "r = NULL" using wf_tab_facts(3) [OF wf] by simp
    then have "sp_tree_insert z (wst s h r l) = Inr ((), wst s h1 z l)"
      unfolding start by (simp add: bnd_def S_sp_tree_insert_helper_def released_got [OF idle])
    moreover have "wf_tab h1 z (Node Leaf z Leaf)" using zv1 z by (simp add: wf_tab_def dll_def)
    ultimately show ?thesis using k1 Leaf s
      by (intro exI [of _ h1] exI [of _ "Node Leaf z Leaf"]) (simp add: h0_def h_def l_def)
  next
    case (Node x1 x2 x3)
    then have rn: "r \<noteq> NULL" using wf_tab_facts(3) [OF wf] by simp
    obtain A a B where spl: "splay k (k z) T = Node A a B" using Node by (metis splay_Leaf_iff neq_Leaf_iff)
    have a: "a = t1" using wf1 spl by (simp add: wf_tab_def)
    have srt: "sorted_by k (inorder T)" using wf0 by (simp add: wf_tab_def k)
    from splay_neighbours [OF spl srt] have nb: "\<forall>y\<in>set_tree A. k y < k z" "\<forall>y\<in>set_tree B. k z < k y" by auto
    have set: "set_tree (Node A a B) = set_tree T" by (metis spl set_splay)
    then have zn: "z \<notin> set_tree (Node A t1 B)" "k t1 \<noteq> k z" using z new a by (auto simp: k_def)
    have io: "inorder T = inorder A @ t1 # inorder B" using inorder_splay [of k "k z" T] spl a by simp
    note wf1 = wf1 [unfolded spl a]
    have fin: ?thesis if "S_sp_tree_insert_helper t1 z (wst s h1 r (got (openmp s) l)) = Inr ((), wst s h2 z (got (openmp s) l))"
      "wf_tab h2 z T'" "kept h1 (insert z (set_tree T)) h2"
      "inorder T' = filter (\<lambda>a. k a < k z) (inorder T) @ z # filter (\<lambda>a. k z < k a) (inorder T)" for h2 T'
    proof -
      have "sp_tree_insert z (wst s h r l) = Inr ((), wst s h2 z l)"
        using that(1) by (simp add: start bnd_def released_got [OF idle])
      with that kept_trans [OF k1 that(3)] s show ?thesis
        by (intro exI [of _ h2] exI [of _ T']) (simp add: h0_def h_def l_def)
    qed
    show ?thesis
    proof (cases "k z < k t1")
      case True
      from insert_helper_lt [OF wf1 rn zv1(6) z(2) zn(1) zv1(3), of s "got (openmp s) l"] True nb sk
      obtain h2 where "S_sp_tree_insert_helper t1 z (wst s h1 r (got (openmp s) l)) = Inr ((), wst s h2 z (got (openmp s) l))"
        "wf_tab h2 z (Node A z (Node Leaf t1 B))" "kept h1 (insert z (set_tree (Node A t1 B))) h2" by auto
      moreover have "filter (\<lambda>a. k a < k z) (inorder T) = inorder A" "filter (\<lambda>a. k z < k a) (inorder T) = t1 # inorder B"
        using nb True io by (auto simp: filter_id_conv filter_empty_conv dest: less_not_sym)
      ultimately show ?thesis using fin set a by auto
    next
      case False
      then have gt: "k t1 < k z" using zn(2) by simp
      from insert_helper_gt [OF wf1 rn zv1(6) z(2) zn(1) zv1(3), of s "got (openmp s) l"] gt nb sk
      obtain h2 where "S_sp_tree_insert_helper t1 z (wst s h1 r (got (openmp s) l)) = Inr ((), wst s h2 z (got (openmp s) l))"
        "wf_tab h2 z (Node (Node A t1 Leaf) z B)" "kept h1 (insert z (set_tree (Node A t1 B))) h2" by auto
      moreover have "filter (\<lambda>a. k a < k z) (inorder T) = inorder A @ [t1]" "filter (\<lambda>a. k z < k a) (inorder T) = inorder B"
        using nb gt io by (auto simp: filter_id_conv filter_empty_conv dest: less_not_sym)
      ultimately show ?thesis using fin set a by auto
    qed
  qed
qed

subsection \<open>The interface of the allocator\<close>

text \<open>
  What the page table relies on: \<open>live s\<close> are the areas handed out and not yet freed, \<open>pinv\<close> is
  the invariant of the allocator, \<open>avail\<close> says that the next call does not run out of memory,
  \<open>okf s L z\<close> that \<open>z\<close> may be freed while the areas in \<open>L\<close> stay in use, and \<open>roomy\<close> that this
  will hold of the next area handed out. The user of the allocator
  may change live areas, the tree and nothing else.
\<close>

definition same_env :: "'z st_scheme \<Rightarrow> 'z st_scheme \<Rightarrow> bool" where
  "same_env s s' \<longleftrightarrow> vma_tree s' = vma_tree s \<and> openmp s' = openmp s \<and>
     OOC_PAGE_SIZE s' = OOC_PAGE_SIZE s \<and> frame_n s' = frame_n s"

text \<open>The ranges, flags and locks of the areas in \<open>X\<close> are the same.\<close>

definition same_info :: "heap \<Rightarrow> heap \<Rightarrow> addr set \<Rightarrow> bool" where
  "same_info h h' X \<longleftrightarrow> (\<forall>a \<in> X. start_of h' a = start_of h a \<and> end_of h' a = end_of h a \<and>
     flags_of h' a = flags_of h a \<and> lock_of h' a = lock_of h a)"

lemma same_infoD:
  assumes "same_info h h' X" and "a \<in> X"
  shows "start_of h' a = start_of h a" "end_of h' a = end_of h a" "flags_of h' a = flags_of h a"
    "lock_of h' a = lock_of h a"
  using assms by (simp_all add: same_info_def)

lemma same_info_trans: "same_info h h' X \<Longrightarrow> same_info h' h'' X \<Longrightarrow> same_info h h'' X"
  by (simp add: same_info_def)

lemma same_info_mono: "same_info h h' X \<Longrightarrow> Y \<subseteq> X \<Longrightarrow> same_info h h' Y"
  by (auto simp: same_info_def)

lemma same_info_kept: "kept h Y h' \<Longrightarrow> same_info h h' X"
  by (simp add: same_info_def kept_def)

lemma same_info_eq: "(\<And>a. a \<in> X \<Longrightarrow> h' a = h a) \<Longrightarrow> same_info h h' X"
  by (simp add: same_info_def view_defs)

text \<open>\<open>le_on f g X\<close>: on \<open>X\<close>, \<open>g\<close> holds where \<open>f\<close> does.\<close>

definition le_on :: "(addr set \<Rightarrow> addr \<Rightarrow> bool) \<Rightarrow> (addr set \<Rightarrow> addr \<Rightarrow> bool) \<Rightarrow> addr set \<Rightarrow> bool" where
  "le_on f g X \<longleftrightarrow> (\<forall>L y. L \<subseteq> X \<longrightarrow> y \<in> X \<longrightarrow> f L y \<longrightarrow> g L y)"

lemma le_on_refl [simp]: "le_on f f X"
  by (simp add: le_on_def)

lemma le_on_trans: "le_on f g X \<Longrightarrow> le_on g k X \<Longrightarrow> le_on f k X"
  by (simp add: le_on_def)

lemma le_on_mono: "le_on f g X \<Longrightarrow> Y \<subseteq> X \<Longrightarrow> le_on f g Y"
  unfolding le_on_def by blast

lemma le_onD: "le_on f g X \<Longrightarrow> L \<subseteq> X \<Longrightarrow> y \<in> X \<Longrightarrow> f L y \<Longrightarrow> g L y"
  by (simp add: le_on_def)

text \<open>\<open>sp_tree_remove\<close> up to the point where the node is given back.\<close>

lemma remove_reach:
  assumes t: "tab s T" and z: "z \<in> set_tree T"
  defines "g \<equiv> got (openmp s) (lock (vma_tree s))"
  shows "\<exists>h r J. (\<forall>vfree. sp_tree_remove vfree (start_of (vmas s) z) s =
       bnd (S_sp_node_free vfree z) (\<lambda>_. upd_tree_lock lock_let) (wst s h r g)) \<and>
     wf_tab h r J \<and> kept (vmas s) (set_tree T) h \<and> inorder J = filter (\<lambda>a. a \<noteq> z) (inorder T) \<and> z \<noteq> NULL \<and> z \<in> dom h"
proof -
  define r where "r = root (vma_tree s)"
  define l where "l = lock (vma_tree s)"
  define h where "h = vmas s"
  have idle: "lock_idle (openmp s) l" and fr: "h (frame_n s) = None" "frame_n s \<noteq> NULL" and wf: "wf_tab h r T"
    using t by (simp_all add: tab_def l_def h_def r_def)
  have s: "s = wst s h r l" by (simp add: h_def r_def l_def wst_self)
  have rn: "r \<noteq> NULL" using wf_tab_facts(3) [OF wf] z by auto
  from splay_wf [OF wf fr, of "start_of h z" r g] obtain h1 t1 where
    run1: "S_sp_tree_splay (start_of h z) r (wst s h r g) = Inr (t1, wst s h1 r g)"
    and wf1: "wf_tab h1 t1 (splay (start_of h) (start_of h z) T)" and m: "moved h (set_tree T) h1" by blast
  obtain A B where spl: "splay (start_of h) (start_of h z) T = Node A z B"
    using splay_found [of "start_of h" T z] wf z by (auto simp: wf_tab_def)
  have t1: "t1 = z" using wf1 spl by (simp add: wf_tab_def)
  note wf1 = wf1 [unfolded spl t1]
  have k1: "kept h (set_tree T) h1" using m by (rule kept_moved)
  have fr1: "h1 (frame_n s) = None" using k1 fr(1) by (rule kept_fresh)
  have set: "set_tree (Node A z B) = set_tree T" by (metis spl set_splay)
  have zd: "z \<in> dom h1" "z \<noteq> NULL" using wf_tab_links [OF wf1, of z] by auto
  from remove_helper_run [OF wf1 fr1 fr(2), of r g] obtain h2 z2 J where
    run2: "S_sp_tree_remove_helper z (wst s h1 r g) = Inr ((), wst s h2 z2 g)"
    and wf2: "wf_tab h2 z2 J" and J: "inorder J = inorder A @ inorder B" and k2': "kept h1 (set_tree (Node A z B)) h2"
    by blast
  have k2: "kept h (set_tree T) h2" using kept_trans [OF k1] k2' set by simp
  have sv: "start_of h1 z = start_of h z" using k1 by (simp add: kept_def)
  have gl: "got (openmp s) l = g" by (simp add: g_def l_def)
  have run: "sp_tree_remove vfree (start_of h z) s =
       bnd (S_sp_node_free vfree z) (\<lambda>_. upd_tree_lock lock_let) (wst s h2 z2 g)" for vfree
    by (subst s) (simp add: sp_tree_remove_def bnd_def [of "upd_tree_lock lock_get"] bnd_def [of get_root] bnd_def [of "assertion b" for b]
      bnd_def [of "S_sp_tree_splay x r" for x r] bnd_def [of "get_field f x" for f x] bnd_def [of "S_sp_tree_remove_helper x" for x]
      idle rn run1 t1 zd sv run2 gl)
  have io: "inorder T = inorder A @ z # inorder B" using inorder_splay [of "start_of h" "start_of h z" T] spl by simp
  have "distinct (inorder T)" using wf_tab_facts(1) [OF wf] .
  then have fil: "inorder J = filter (\<lambda>a. a \<noteq> z) (inorder T)"
    unfolding J io by auto
  have "z \<in> dom h2" using zd(1) k2' by (simp add: kept_def)
  then show ?thesis using run wf2 k2 fil zd(2) unfolding h_def by blast
qed

locale vma_pool =
  fixes valloc :: "('z st_scheme, addr) prog"
    and vfree :: "addr \<Rightarrow> ('z st_scheme, unit) prog"
    and pinv :: "'z st_scheme \<Rightarrow> bool"
    and live :: "'z st_scheme \<Rightarrow> addr set"
    and avail :: "'z st_scheme \<Rightarrow> bool"
    and okf :: "'z st_scheme \<Rightarrow> addr set \<Rightarrow> addr \<Rightarrow> bool"
    and roomy :: "'z st_scheme \<Rightarrow> bool"
  assumes pool_mem: "pinv s \<Longrightarrow> live s \<subseteq> dom (vmas s) \<and> NULL \<notin> live s \<and> vmas s (frame_n s) = None"
    and pool_user: "pinv s \<Longrightarrow> dom h = dom (vmas s) \<Longrightarrow> (\<forall>a. a \<notin> live s \<longrightarrow> h a = vmas s a) \<Longrightarrow>
      pinv (wst s h r l) \<and> live (wst s h r l) = live s \<and> avail (wst s h r l) = avail s \<and>
      okf (wst s h r l) = okf s \<and> roomy (wst s h r l) = roomy s"
    and pool_alloc: "pinv s \<Longrightarrow> \<exists>z s'. valloc s = Inr (z, s') \<and> pinv s' \<and> same_env s s' \<and>
      (\<forall>a \<in> live s. vmas s' a = vmas s a) \<and> (avail s \<longrightarrow> z \<noteq> NULL) \<and>
      (if z = NULL then live s' = live s else z \<notin> live s \<and> live s' = insert z (live s)) \<and>
      le_on (okf s) (okf s') (live s) \<and>
      (roomy s \<longrightarrow> okf s' (live s) z)"
    and pool_free: "pinv s \<Longrightarrow> z \<in> live s \<Longrightarrow> okf s (live s - {z}) z \<Longrightarrow>
      \<exists>s'. vfree z s = Inr ((), s') \<and> pinv s' \<and> same_env s s' \<and> live s' = live s - {z} \<and>
      (\<forall>a \<in> live s - {z}. vmas s' a = vmas s a) \<and>
      le_on (okf s) (okf s') (live s - {z})"
    and okf_mono: "okf s L z \<Longrightarrow> L \<subseteq> L' \<Longrightarrow> okf s L' z"
begin

lemma pool_kept:
  assumes "pinv s" and "kept (vmas s) X h" and "X \<subseteq> live s"
  shows "pinv (wst s h r l)" "live (wst s h r l) = live s" "avail (wst s h r l) = avail s" "okf (wst s h r l) = okf s"
    "roomy (wst s h r l) = roomy s"
  using pool_user [OF assms(1), of h r l] assms(2,3) by (auto simp: kept_def)

text \<open>Giving a node back to the allocator.\<close>

lemma node_free:
  assumes "pinv (wst s h r l)" and "z \<in> live (wst s h r l)" and "lock_idle (openmp s) (lock_of h z)"
    and "okf (wst s h r l) (live (wst s h r l) - {z}) z"
  shows "\<exists>s'. S_sp_node_free vfree z (wst s h r l) = Inr ((), s') \<and> pinv s' \<and> same_env (wst s h r l) s' \<and>
    live s' = live (wst s h r l) - {z} \<and> (\<forall>a \<in> live (wst s h r l) - {z}. vmas s' a = h a) \<and>
    le_on (okf (wst s h r l)) (okf s') (live (wst s h r l) - {z})"
proof -
  let ?s = "wst s h r l"
  have z: "z \<in> dom h" "z \<noteq> NULL" using pool_mem [OF assms(1)] assms(2) by auto
  define k where "k = (if openmp s then Uninit else lock_of h z)"
  define h1 where "h1 = hupd z (\<lambda>v. v\<lparr>vm_lock := k\<rparr>) h"
  have l: "lock_free (openmp s) (lock_of h z) = Inr k" using lock_free_run [OF assms(3)] by (simp add: k_def)
  have h1: "dom h1 = dom h" "\<forall>a. a \<notin> live ?s \<longrightarrow> h1 a = h a" using z(1) assms(2) by (auto simp: h1_def intro: hupd_other)
  from pool_user [OF assms(1), of h1 r l] h1 have u: "pinv (wst s h1 r l)" "live (wst s h1 r l) = live ?s"
    "okf (wst s h1 r l) = okf ?s" by simp_all
  from pool_free [OF u(1), of z] assms(2,4) u obtain s' where s': "vfree z (wst s h1 r l) = Inr ((), s')" "pinv s'"
    "same_env (wst s h1 r l) s'" "live s' = live ?s - {z}" "\<forall>a \<in> live ?s - {z}. vmas s' a = h1 a"
    "le_on (okf ?s) (okf s') (live ?s - {z})" by auto
  have "S_sp_node_free vfree z ?s = Inr ((), s')"
    using z l s'(1) by (simp add: S_sp_node_free_def bnd_def h1_def)
  moreover have "\<forall>a \<in> live ?s - {z}. vmas s' a = h a" using s'(5) by (simp add: h1_def hupd_other)
  ultimately show ?thesis using s' by (auto simp: same_env_def)
qed

text \<open>Removing the area that starts at \<open>vm_addr\<close>.\<close>

lemma remove_correct:
  assumes t: "tab s T" and p: "pinv s" "set_tree T \<subseteq> live s"
    and z: "z \<in> set_tree T" "lock_idle (openmp s) (lock_of (vmas s) z)" "okf s (live s - {z}) z"
  shows "\<exists>s' T'. sp_tree_remove vfree (start_of (vmas s) z) s = Inr ((), s') \<and> tab s' T' \<and> pinv s' \<and>
     live s' = live s - {z} \<and> inorder T' = filter (\<lambda>a. a \<noteq> z) (inorder T) \<and> openmp s' = openmp s \<and>
     same_info (vmas s) (vmas s') (live s - {z}) \<and>
     le_on (okf s) (okf s') (live s - {z})"
proof -
  define l where "l = lock (vma_tree s)"
  define h where "h = vmas s"
  define g where "g = got (openmp s) l"
  have idle: "lock_idle (openmp s) l" and fr: "frame_n s \<noteq> NULL" using t by (simp_all add: tab_def l_def)
  obtain h2 z2 J where reach: "\<And>vfree. sp_tree_remove vfree (start_of h z) s = bnd (S_sp_node_free vfree z) (\<lambda>_. upd_tree_lock lock_let) (wst s h2 z2 g)"
    and wf2: "wf_tab h2 z2 J" and k2: "kept h (set_tree T) h2" and fil: "inorder J = filter (\<lambda>a. a \<noteq> z) (inorder T)"
    using remove_reach [OF t z(1)] unfolding h_def g_def l_def by blast
  have "kept (vmas s) (set_tree T) h2" using k2 by (simp add: h_def)
  note pk = pool_kept [OF p(1) this p(2), of z2 g]
  have lz: "lock_of h2 z = lock_of h z" using k2 by (simp add: kept_def)
  have "\<exists>s'. S_sp_node_free vfree z (wst s h2 z2 g) = Inr ((), s') \<and> pinv s' \<and> same_env (wst s h2 z2 g) s' \<and>
    live s' = live (wst s h2 z2 g) - {z} \<and> (\<forall>a \<in> live (wst s h2 z2 g) - {z}. vmas s' a = h2 a) \<and>
    le_on (okf (wst s h2 z2 g)) (okf s') (live (wst s h2 z2 g) - {z})"
    by (rule node_free) (use pk p z lz in \<open>auto simp: h_def\<close>)
  then obtain s3 where run3: "S_sp_node_free vfree z (wst s h2 z2 g) = Inr ((), s3)" and s3: "pinv s3"
    "same_env (wst s h2 z2 g) s3" "live s3 = live s - {z}" "\<forall>a \<in> live s - {z}. vmas s3 a = h2 a"
    "le_on (okf s) (okf s3) (live s - {z})"
    using pk by auto
  have env: "openmp s3 = openmp s" "frame_n s3 = frame_n s" "root (vma_tree s3) = z2" "lock (vma_tree s3) = g"
    using s3(2) by (simp_all add: same_env_def)
  have s3w: "s3 = wst s3 (vmas s3) z2 g" using wst_self [of s3] env by simp
  define s4 where "s4 = wst s3 (vmas s3) z2 l"
  have run4: "upd_tree_lock lock_let s3 = Inr ((), s4)"
    by (subst s3w) (simp add: s4_def env g_def released_got [OF idle])
  have run: "sp_tree_remove vfree (start_of h z) s = Inr ((), s4)" unfolding reach using run3 run4 by (simp add: bnd_def)
  from pool_user [OF s3(1), of "vmas s3" z2 l] have p4: "pinv s4" "live s4 = live s - {z}" "okf s4 = okf s3"
    by (simp_all add: s4_def s3(3))
  have "set (inorder J) = set (inorder T) - {z}" unfolding fil by auto
  then have setJ: "set_tree J = set_tree T - {z}" by simp
  have vm4: "vmas s4 a = h2 a" if "a \<in> live s - {z}" for a using s3(4) that by (simp add: s4_def)
  have "wf_tab (vmas s4) z2 J" using wf2 by (rule wf_tab_cong) (use vm4 setJ p(2) in auto)
  moreover have "vmas s4 (frame_n s4) = None" using pool_mem [OF p4(1)] by simp
  ultimately have tab: "tab s4 J" using env fr idle by (simp add: tab_def s4_def)
  have views: "same_info h (vmas s4) (live s - {z})"
    by (rule same_info_trans [OF same_info_kept [OF k2] same_info_eq [OF vm4]])
  show ?thesis
    using run tab p4 fil views s3(5) env(1) by (intro exI [of _ s4] exI [of _ J]) (simp add: h_def s4_def)
qed

text \<open>Freeing the whole table: the loop ends, every area is given back, the lock is destroyed.\<close>

lemma free_loop:
  "tab s T \<Longrightarrow> pinv s \<Longrightarrow> set_tree T \<subseteq> live s \<Longrightarrow> idle_areas s (set_tree T) \<Longrightarrow>
   \<forall>z \<in> set_tree T. okf s (live s - set_tree T) z \<Longrightarrow>
   \<exists>s'. forever (sp_tree_free_iter vfree) () s = Inr ((), s') \<and> tab s' Leaf \<and> pinv s' \<and>
     live s' = live s - set_tree T \<and> same_info (vmas s) (vmas s') (live s - set_tree T)"
proof (induction "size T" arbitrary: s T)
  case 0
  then have T: "T = Leaf" by simp
  then have "root (vma_tree s) = NULL" using "0.prems"(1) by (simp add: tab_def wf_tab_def)
  then have "sp_tree_free_iter vfree () s = Inr (Break (), s)"
    by (simp add: sp_tree_free_iter_def bnd_def get_root_run)
  then have "forever (sp_tree_free_iter vfree) () s = Inr ((), s)" by (rule forever_Break)
  then show ?case using "0.prems" T by (auto simp: same_info_def)
next
  case (Suc n)
  define z where "z = root (vma_tree s)"
  have wf: "wf_tab (vmas s) z T" using Suc.prems(1) by (simp add: tab_def z_def)
  have zn: "z \<noteq> NULL" using wf_tab_facts(3) [OF wf] Suc(2) by auto
  have zT: "z \<in> set_tree T" using wf zn tree_at_root by (auto simp: wf_tab_def)
  have zd: "z \<in> dom (vmas s)" using wf zT by (auto simp: wf_tab_def)
  have "okf s (live s - {z}) z" using Suc.prems(5) zT okf_mono [of s _ z "live s - {z}"] by blast
  moreover have "lock_idle (openmp s) (lock_of (vmas s) z)" using Suc.prems(4) zT by (simp add: idle_areas_def)
  ultimately obtain s1 T1 where run: "sp_tree_remove vfree (start_of (vmas s) z) s = Inr ((), s1)"
    and s1: "tab s1 T1" "pinv s1" "live s1 = live s - {z}" "inorder T1 = filter (\<lambda>a. a \<noteq> z) (inorder T)" "openmp s1 = openmp s"
      "same_info (vmas s) (vmas s1) (live s - {z})"
    and ok: "le_on (okf s) (okf s1) (live s - {z})"
    using remove_correct [OF Suc.prems(1-3) zT] by blast
  have "set (inorder T1) = set (inorder T) - {z}" unfolding s1(4) by auto
  then have set1: "set_tree T1 = set_tree T - {z}" by simp
  have "Suc (length (inorder T1)) = length (inorder T)"
    unfolding s1(4) using zT wf_tab_facts(1) [OF wf] length_filter_neq [of "inorder T" z] by simp
  then have n: "n = size T1" using Suc(2) by simp
  have idle1: "idle_areas s1 (set_tree T1)"
    unfolding idle_areas_def
  proof
    fix a assume a: "a \<in> set_tree T1"
    then have "a \<in> live s - {z}" "lock_idle (openmp s) (lock_of (vmas s) a)"
      using Suc.prems(3,4) set1 by (auto simp: idle_areas_def)
    then show "lock_idle (openmp s1) (lock_of (vmas s1) a)" using s1(5,6) by (simp add: same_info_def)
  qed
  have L: "live s1 - set_tree T1 = live s - set_tree T" using s1(3) set1 zT by auto
  have ok1: "\<forall>y \<in> set_tree T1. okf s1 (live s1 - set_tree T1) y"
  proof
    fix y assume y: "y \<in> set_tree T1"
    then have "okf s (live s - set_tree T) y" using set1 Suc.prems(5) by simp
    moreover have "live s - set_tree T \<subseteq> live s - {z}" "y \<in> live s - {z}" using zT y set1 Suc.prems(3) by auto
    ultimately show "okf s1 (live s1 - set_tree T1) y" using le_onD [OF ok] L by simp
  qed
  have sub: "set_tree T1 \<subseteq> live s1" using set1 s1(3) Suc.prems(3) by auto
  from Suc.hyps(1) [OF n s1(1,2) sub idle1 ok1] obtain s' where
    s': "forever (sp_tree_free_iter vfree) () s1 = Inr ((), s')" "tab s' Leaf" "pinv s'"
      "live s' = live s - set_tree T" "same_info (vmas s1) (vmas s') (live s - set_tree T)"
    unfolding L by blast
  have "get_field vm_start z s = Inr (start_of (vmas s) z, s)"
    using get_field_w(8) [OF zd zn, of s "root (vma_tree s)" "lock (vma_tree s)"] by (simp add: wst_self)
  then have "sp_tree_free_iter vfree () s = Inr (Continue (), s1)"
    using zn run by (simp add: sp_tree_free_iter_def bnd_def get_root_run z_def [symmetric])
  then have "forever (sp_tree_free_iter vfree) () s = Inr ((), s')"
    using s'(1) by (simp add: forever_Continue)
  moreover have "same_info (vmas s) (vmas s') (live s - set_tree T)"
    by (rule same_info_trans [OF same_info_mono [OF s1(6)] s'(5)]) (use zT in blast)
  ultimately show ?case using s' by blast
qed

lemma free_correct:
  assumes "tab s T" and "pinv s" and "set_tree T \<subseteq> live s" and "idle_areas s (set_tree T)"
    and "\<forall>z \<in> set_tree T. okf s (live s - set_tree T) z"
  shows "\<exists>s'. sp_tree_free vfree s = Inr ((), s') \<and> root (vma_tree s') = NULL \<and> pinv s' \<and>
     live s' = live s - set_tree T \<and> same_info (vmas s) (vmas s') (live s - set_tree T)"
proof -
  from free_loop [OF assms] obtain s1 where s1: "forever (sp_tree_free_iter vfree) () s = Inr ((), s1)"
    "tab s1 Leaf" "pinv s1" "live s1 = live s - set_tree T" "same_info (vmas s) (vmas s1) (live s - set_tree T)" by blast
  define s2 where "s2 = wst s1 (vmas s1) (root (vma_tree s1)) (if openmp s1 then Uninit else lock (vma_tree s1))"
  have idle: "lock_idle (openmp s1) (lock (vma_tree s1))" using s1(2) by (simp add: tab_def)
  have "upd_tree_lock lock_free (wst s1 (vmas s1) (root (vma_tree s1)) (lock (vma_tree s1))) = Inr ((), s2)"
    by (simp add: lock_free_run [OF idle] s2_def)
  then have run: "sp_tree_free vfree s = Inr ((), s2)" by (simp add: sp_tree_free_def bnd_def s1(1) wst_self)
  from pool_user [OF s1(3), of "vmas s1"] have "pinv s2" "live s2 = live s1" by (simp_all add: s2_def)
  moreover have "root (vma_tree s2) = NULL" using s1(2) by (simp add: s2_def tab_def wf_tab_def)
  ultimately show ?thesis using run s1(4,5) by (auto simp: s2_def)
qed

end
subsection \<open>Lookup\<close>

text \<open>
  \<open>ranges\<close>: the areas are non-empty and disjoint, in the order of the list. \<open>covers h a x\<close>: the
  address \<open>x\<close> lies in the area \<open>a\<close>.
\<close>

definition ranges :: "heap \<Rightarrow> addr list \<Rightarrow> bool" where
  "ranges h xs \<longleftrightarrow> (\<forall>a \<in> set xs. start_of h a < end_of h a) \<and>
     sorted_wrt (\<lambda>a b. end_of h a \<le> start_of h b) xs"

definition covers :: "heap \<Rightarrow> addr \<Rightarrow> addr \<Rightarrow> bool" where
  "covers h a x \<longleftrightarrow> start_of h a \<le> x \<and> x < end_of h a"

lemma ranges_append:
  "ranges h (xs @ ys) \<longleftrightarrow> ranges h xs \<and> ranges h ys \<and> (\<forall>a \<in> set xs. \<forall>b \<in> set ys. end_of h a \<le> start_of h b)"
  by (auto simp: ranges_def sorted_wrt_append)

lemma ranges_Cons:
  "ranges h (x # xs) \<longleftrightarrow> start_of h x < end_of h x \<and> ranges h xs \<and> (\<forall>b \<in> set xs. end_of h x \<le> start_of h b)"
  by (auto simp: ranges_def)

lemma covers_unique:
  assumes "ranges h xs" and "a \<in> set xs" and "b \<in> set xs" and "covers h a x" and "covers h b x"
  shows "a = b"
  using assms
proof (induction xs)
  case (Cons y ys)
  have "\<And>c. c \<in> set ys \<Longrightarrow> covers h y x \<Longrightarrow> \<not> covers h c x"
    using Cons.prems(1) by (force simp: ranges_Cons covers_def)
  with Cons show ?case by (auto simp: ranges_Cons)
qed simp

text \<open>Where the splayed tree has the area of \<open>x\<close>: at the root, or just before it in the list.\<close>

lemma last0_snoc [simp]: "last0 a (xs @ [x]) = x"
  by simp

lemma locate_root:
  assumes "ranges h (inorder A @ t # inorder B)" and "a \<in> set (inorder A @ t # inorder B)" and "covers h a x"
    and "start_of h t \<le> x" and "\<forall>b \<in> set_tree B. x < start_of h b"
  shows "a = t"
proof -
  have "\<not> covers h b x" if "b \<in> set_tree A" for b
    using assms(1,4) that by (fastforce simp: ranges_append covers_def)
  moreover have "\<not> covers h b x" if "b \<in> set_tree B" for b using assms(5) that by (auto simp: covers_def)
  ultimately show ?thesis using assms(2,3) by auto
qed

lemma locate_prev:
  assumes "ranges h (inorder A @ t # inorder B)" and "a \<in> set (inorder A @ t # inorder B)" and "covers h a x"
    and "x < start_of h t" and "\<forall>b \<in> set_tree A. start_of h b < x" and "\<forall>b \<in> set_tree B. x < start_of h b"
  shows "a = last0 NULL (inorder A) \<and> A \<noteq> Leaf"
proof -
  have aA: "a \<in> set_tree A" using assms(2-4,6) by (auto simp: covers_def dest: less_not_sym leD)
  then obtain xs b where A: "inorder A = xs @ [b]"
    by (metis append_butlast_last_id empty_iff list.set(1) set_inorder)
  have "\<not> covers h c x" if "c \<in> set xs" for c
  proof -
    have "end_of h c \<le> start_of h b" using assms(1) that by (simp add: A ranges_append)
    moreover have "start_of h b < x" using assms(5) by (metis A in_set_conv_decomp set_inorder)
    ultimately show ?thesis by (auto simp: covers_def)
  qed
  moreover have "a \<in> set xs \<union> {b}" using aA by (metis A set_append set_inorder list.set)
  ultimately show ?thesis using assms(3) A aA by auto
qed

text \<open>The state after the splay, from which both outcomes of the lookup are read off.\<close>

lemma tab_lock:
  assumes "tab s T"
  shows "upd_tree_lock lock_get s =
    Inr ((), wst s (vmas s) (root (vma_tree s)) (got (openmp s) (lock (vma_tree s))))"
  using assms by (subst wst_self [of s, symmetric], subst tree_w(3)) (simp add: tab_def)

lemma find_prologue:
  assumes t: "tab s T" and ne: "T \<noteq> Leaf"
  defines "h \<equiv> vmas s" and "r \<equiv> root (vma_tree s)" and "g \<equiv> got (openmp s) (lock (vma_tree s))"
  shows "\<exists>h1 A t1 B. splay (start_of h) x T = Node A t1 B \<and> wf_tab h1 t1 (Node A t1 B) \<and> kept h (set_tree T) h1 \<and>
     upd_tree_lock lock_get s = Inr ((), wst s h r g) \<and> r \<noteq> NULL \<and>
     S_sp_tree_splay x r (wst s h r g) = Inr (t1, wst s h1 r g) \<and>
     (\<forall>b \<in> set_tree A. start_of h b < x) \<and> (\<forall>b \<in> set_tree B. x < start_of h b) \<and>
     inorder T = inorder A @ t1 # inorder B \<and> t1 \<noteq> NULL \<and> t1 \<in> dom h1"
proof -
  define l where "l = lock (vma_tree s)"
  have idle: "lock_idle (openmp s) l" and fr: "h (frame_n s) = None" "frame_n s \<noteq> NULL" and wf: "wf_tab h r T"
    using t by (simp_all add: tab_def l_def h_def r_def)
  have s: "s = wst s h r l" by (simp add: h_def r_def l_def wst_self)
  have rn: "r \<noteq> NULL" using wf_tab_facts(3) [OF wf] ne by auto
  have lk: "upd_tree_lock lock_get s = Inr ((), wst s h r g)"
    by (subst s) (simp add: idle g_def l_def [symmetric])
  from splay_wf [OF wf fr, of x r g] obtain h1 t1 where
    run1: "S_sp_tree_splay x r (wst s h r g) = Inr (t1, wst s h1 r g)"
    and wf1: "wf_tab h1 t1 (splay (start_of h) x T)" and m: "moved h (set_tree T) h1" by blast
  obtain A a B where spl: "splay (start_of h) x T = Node A a B" using ne by (metis splay_Leaf_iff neq_Leaf_iff)
  have a: "a = t1" using wf1 spl by (simp add: wf_tab_def)
  note wf1 = wf1 [unfolded spl a]
  have srt: "sorted_by (start_of h) (inorder T)" using wf by (simp add: wf_tab_def)
  from splay_neighbours [OF spl srt] have nb: "\<forall>y\<in>set_tree A. start_of h y < x" "\<forall>y\<in>set_tree B. x < start_of h y" by auto
  have io: "inorder T = inorder A @ t1 # inorder B" using inorder_splay [of "start_of h" x T] spl a by simp
  have "t1 \<noteq> NULL" "t1 \<in> dom h1" using wf_tab_links(5,6) [OF wf1] by auto
  with spl a wf1 kept_moved [OF m] lk rn run1 nb io show ?thesis by blast
qed

lemma wf_tab_lock: "wf_tab h r T \<Longrightarrow> wf_tab (hupd a (\<lambda>v. v\<lparr>vm_lock := k\<rparr>) h) r T"
  by (auto simp: wf_tab_def)

lemma kept_hupd_lock:
  assumes "kept h X h'" and "a \<in> X" and "a \<in> dom h"
  shows "kept (hupd a (\<lambda>v. v\<lparr>vm_lock := k\<rparr>) h) X (hupd a (\<lambda>v. v\<lparr>vm_lock := k\<rparr>) h')"
proof -
  have "hupd a (\<lambda>v. v\<lparr>vm_lock := k\<rparr>) h' x = hupd a (\<lambda>v. v\<lparr>vm_lock := k\<rparr>) h x" if "x \<notin> X" for x
  proof -
    have "x \<noteq> a" using assms(2) that by blast
    then show ?thesis using assms(1) that by (simp add: hupd_other kept_def)
  qed
  then show ?thesis using assms by (auto simp: kept_def)
qed

lemma wf_tab_neighbours:
  assumes "wf_tab h r (Node A t B)"
  shows "fpv h t = last0 NULL (inorder A)" and "fnx h t = hd0 (inorder B) NULL"
proof -
  have "dll (fnx h) (fpv h) (inorder A @ t # inorder B)" using assms by (simp add: wf_tab_def)
  then show "fpv h t = last0 NULL (inorder A)" "fnx h t = hd0 (inorder B) NULL" by (rule dll_mem(2), rule dll_mem(1))
qed

text \<open>A lookup of a covered address gets as far as locking the area that covers it.\<close>

lemma find_reach:
  assumes t: "tab s T" and rg: "ranges (vmas s) (inorder T)"
    and a: "a \<in> set_tree T" "covers (vmas s) a x"
  defines "g \<equiv> got (openmp s) (lock (vma_tree s))"
  shows "\<exists>h1 t1. sp_tree_find_and_lock x s =
      bnd (upd_lock lock_get a) (\<lambda>_. bnd (upd_tree_lock lock_let) (\<lambda>_. ret a)) (wst s h1 t1 g) \<and>
     wf_tab h1 t1 (splay (start_of (vmas s)) x T) \<and> kept (vmas s) (set_tree T) h1 \<and> a \<in> dom h1 \<and> a \<noteq> NULL"
proof -
  define h where "h = vmas s"
  have ne: "T \<noteq> Leaf" using a(1) by auto
  obtain h1 A t1 B where spl: "splay (start_of h) x T = Node A t1 B" and wf1: "wf_tab h1 t1 (Node A t1 B)"
    and k: "kept h (set_tree T) h1" and lk: "upd_tree_lock lock_get s = Inr ((), wst s h (root (vma_tree s)) g)"
    and rn: "root (vma_tree s) \<noteq> NULL"
    and run1: "S_sp_tree_splay x (root (vma_tree s)) (wst s h (root (vma_tree s)) g) = Inr (t1, wst s h1 (root (vma_tree s)) g)"
    and nb: "\<forall>b \<in> set_tree A. start_of h b < x" "\<forall>b \<in> set_tree B. x < start_of h b"
    and io: "inorder T = inorder A @ t1 # inorder B" and t1: "t1 \<noteq> NULL" "t1 \<in> dom h1"
    using find_prologue [OF t ne, of x] by (auto simp: h_def g_def)
  have v: "start_of h1 = start_of h" "end_of h1 = end_of h" "lock_of h1 = lock_of h" "dom h1 = dom h"
    using k by (simp_all add: kept_def)
  have aT: "a \<in> set (inorder A @ t1 # inorder B)" using a(1) io by (metis set_inorder)
  have ad: "a \<in> dom h1" "a \<noteq> NULL" using wf_tab_links(5,6) [OF wf1] aT by auto
  have cov: "start_of h a \<le> x" "x < end_of h a" and cov': "covers h a x" using a(2) by (simp_all add: covers_def h_def)
  have rg': "ranges h (inorder A @ t1 # inorder B)" using rg io by (simp add: h_def)
  have run: "sp_tree_find_and_lock x s =
      bnd (upd_lock lock_get a) (\<lambda>_. bnd (upd_tree_lock lock_let) (\<lambda>_. ret a)) (wst s h1 t1 g)"
  proof (cases "start_of h t1 \<le> x")
    case True
    then have "a = t1" using locate_root [OF rg' aT cov'] nb by simp
    then show ?thesis using cov t1 v rn
      by (simp add: sp_tree_find_and_lock_def bnd_def lk run1)
  next
    case False
    then have "a = last0 NULL (inorder A)" using locate_prev [OF rg' aT cov'] nb by simp
    then have "fpv h1 t1 = a" using wf_tab_neighbours(1) [OF wf1] by simp
    then show ?thesis using False cov t1 v rn ad
      by (simp add: sp_tree_find_and_lock_def bnd_def lk run1)
  qed
  with wf1 spl k ad show ?thesis by (auto simp: h_def)
qed

lemma sp_tree_find_correct:
  assumes t: "tab s T" and rg: "ranges (vmas s) (inorder T)"
    and a: "a \<in> set_tree T" "covers (vmas s) a x" "lock_idle (openmp s) (lock_of (vmas s) a)"
  shows "\<exists>h r. sp_tree_find_and_lock x s = Inr (a, wst s h r (lock (vma_tree s))) \<and>
     wf_tab h r (splay (start_of (vmas s)) x T) \<and>
     kept (hupd a (\<lambda>v. v\<lparr>vm_lock := got (openmp s) (lock_of (vmas s) a)\<rparr>) (vmas s)) (set_tree T) h"
proof -
  define g where "g = got (openmp s) (lock (vma_tree s))"
  have gl: "lock_let (openmp s) g = Inr (lock (vma_tree s))" using t by (simp add: g_def released_got tab_def)
  obtain h1 t1 where run: "sp_tree_find_and_lock x s =
      bnd (upd_lock lock_get a) (\<lambda>_. bnd (upd_tree_lock lock_let) (\<lambda>_. ret a)) (wst s h1 t1 g)"
    and wf1: "wf_tab h1 t1 (splay (start_of (vmas s)) x T)" and k: "kept (vmas s) (set_tree T) h1"
    and ad: "a \<in> dom h1" "a \<noteq> NULL" using find_reach [OF t rg a(1,2)] by (auto simp: g_def)
  define h2 where "h2 = hupd a (\<lambda>v. v\<lparr>vm_lock := got (openmp s) (lock_of (vmas s) a)\<rparr>) h1"
  have lk: "lock_of h1 = lock_of (vmas s)" using k by (simp add: kept_def)
  have "sp_tree_find_and_lock x s = Inr (a, wst s h2 t1 (lock (vma_tree s)))"
    using ad a(3) gl by (simp add: run bnd_def lk h2_def)
  moreover have "wf_tab h2 t1 (splay (start_of (vmas s)) x T)" using wf1 unfolding h2_def by (rule wf_tab_lock)
  moreover have "kept (hupd a (\<lambda>v. v\<lparr>vm_lock := got (openmp s) (lock_of (vmas s) a)\<rparr>) (vmas s)) (set_tree T) h2"
    unfolding h2_def using k a(1) ad(1) kept_dom [OF k] by (simp add: kept_hupd_lock)
  ultimately show ?thesis by blast
qed

lemma sp_tree_find_busy:
  assumes "tab s T" and "ranges (vmas s) (inorder T)" and "a \<in> set_tree T" and "covers (vmas s) a x"
    and "openmp s" and "lock_of (vmas s) a = Locked"
  shows "sp_tree_find_and_lock x s = Inl Deadlock"
proof -
  obtain h1 t1 where "sp_tree_find_and_lock x s =
      bnd (upd_lock lock_get a) (\<lambda>_. bnd (upd_tree_lock lock_let) (\<lambda>_. ret a))
        (wst s h1 t1 (got (openmp s) (lock (vma_tree s))))"
    and "kept (vmas s) (set_tree T) h1" "a \<in> dom h1" "a \<noteq> NULL" using find_reach [OF assms(1-4)] by blast
  then show ?thesis using assms(5,6) by (simp add: bnd_def kept_def lock_get_def)
qed

lemma sp_tree_find_absent:
  assumes t: "tab s T" and none: "\<forall>a \<in> set_tree T. \<not> covers (vmas s) a x"
  shows "sp_tree_find_and_lock x s =
     Inl (if T = Leaf \<or> (\<exists>a \<in> set_tree T. start_of (vmas s) a \<le> x) then AssertFail else NullDeref)"
proof (cases "T = Leaf")
  case True
  then have "root (vma_tree s) = NULL" using t by (simp add: tab_def wf_tab_def)
  with tab_lock [OF t] have "upd_tree_lock lock_get s =
      Inr ((), wst s (vmas s) NULL (got (openmp s) (lock (vma_tree s))))" by simp
  then show ?thesis using True by (simp add: sp_tree_find_and_lock_def bnd_def)
next
  case ne: False
  define h where "h = vmas s"
  define g where "g = got (openmp s) (lock (vma_tree s))"
  obtain h1 A t1 B where wf1: "wf_tab h1 t1 (Node A t1 B)"
    and k: "kept h (set_tree T) h1" and lk: "upd_tree_lock lock_get s = Inr ((), wst s h (root (vma_tree s)) g)"
    and rn: "root (vma_tree s) \<noteq> NULL"
    and run1: "S_sp_tree_splay x (root (vma_tree s)) (wst s h (root (vma_tree s)) g) = Inr (t1, wst s h1 (root (vma_tree s)) g)"
    and nb: "\<forall>b \<in> set_tree A. start_of h b < x" "\<forall>b \<in> set_tree B. x < start_of h b"
    and io: "inorder T = inorder A @ t1 # inorder B" and t1: "t1 \<noteq> NULL" "t1 \<in> dom h1"
    using find_prologue [OF t ne, of x] by (auto simp: h_def g_def)
  have v: "start_of h1 = start_of h" "end_of h1 = end_of h" using k by (simp_all add: kept_def)
  have set: "set_tree T = insert t1 (set_tree A \<union> set_tree B)"
    by (metis io set_inorder set_append list.set(2) Un_insert_right)
  have none': "\<not> covers h b x" if "b \<in> set_tree T" for b using none that by (simp add: h_def)
  show ?thesis
  proof (cases "start_of h t1 \<le> x")
    case True
    then have "\<not> x < end_of h t1" using none' [of t1] set by (auto simp: covers_def)
    moreover have "\<exists>a \<in> set_tree T. start_of (vmas s) a \<le> x" using True set by (auto simp: h_def)
    ultimately show ?thesis using True t1 v rn
      by (simp add: sp_tree_find_and_lock_def bnd_def lk run1)
  next
    case False
    show ?thesis
    proof (cases "A = Leaf")
      case True
      then have "fpv h1 t1 = NULL" using wf_tab_neighbours(1) [OF wf1] by simp
      moreover have "\<not> (\<exists>a \<in> set_tree T. start_of h a \<le> x)" using False True nb(2) set by (auto dest: leD)
      then have "\<not> (\<exists>a \<in> set_tree T. start_of (vmas s) a \<le> x)" by (simp add: h_def)
      ultimately show ?thesis using False t1 v rn ne
        by (simp add: sp_tree_find_and_lock_def bnd_def lk run1)
    next
      case A: False
      have N: "NULL \<notin> set (inorder A)" using wf_tab_facts(2) [OF wf1] by simp
      define b where "b = last0 NULL (inorder A)"
      have "b \<noteq> NULL" using last0_nonnull [OF N] A by (simp add: b_def)
      then have bA: "b \<in> set_tree A" using last0_in [of NULL "inorder A"] by (simp add: b_def)
      then have bd: "b \<in> dom h1" "b \<in> set_tree T" using wf1 set by (auto simp: wf_tab_def)
      have "start_of h b < x" using nb(1) bA by blast
      moreover from this have "\<not> x < end_of h b" using none' [OF bd(2)] by (auto simp: covers_def)
      moreover have "fpv h1 t1 = b" using wf_tab_neighbours(1) [OF wf1] by (simp add: b_def)
      moreover have "\<exists>a \<in> set_tree T. start_of (vmas s) a \<le> x" using bd(2) less_imp_le [OF calculation(1)] by (auto simp: h_def)
      ultimately show ?thesis using False t1 v rn bd \<open>b \<noteq> NULL\<close> less_imp_le [of "start_of h b" x]
        by (simp add: sp_tree_find_and_lock_def bnd_def lk run1)
    qed
  qed
qed

text \<open>A new area in a gap keeps the areas disjoint.\<close>

lemma sorted_wrt_cases: "sorted_wrt P xs \<Longrightarrow> a \<in> set xs \<Longrightarrow> b \<in> set xs \<Longrightarrow> a \<noteq> b \<Longrightarrow> P a b \<or> P b a"
  by (induction xs) auto

lemma ranges_new_area:
  assumes rg: "ranges h xs" and f: "\<forall>a \<in> set xs. end_of h a \<le> p \<or> q \<le> start_of h a" and b: "p \<le> st" "st < en" "en \<le> q" and z: "z \<notin> set xs"
    and h': "start_of h' = (start_of h)(z := st)" "end_of h' = (end_of h)(z := en)"
  shows "ranges h' (filter (\<lambda>a. start_of h a < st) xs @ z # filter (\<lambda>a. st < start_of h a) xs)"
proof -
  let ?S = "start_of h" and ?E = "end_of h"
  have ne: "\<forall>a \<in> set xs. ?S a < ?E a" and so: "sorted_wrt (\<lambda>a b. ?E a \<le> ?S b) xs" using rg by (simp_all add: ranges_def)
  have l: "?E a \<le> st" if "a \<in> set xs" "?S a < st" for a using f b that by (meson le_less_trans less_imp_le not_le order.trans order.strict_trans2)
  have r: "en \<le> ?S a" if "a \<in> set xs" "st < ?S a" for a
    using f b that ne by (meson less_imp_le not_le order.trans order.strict_trans2)
  have cross: "?E a \<le> ?S c" if "a \<in> set xs" "?S a < st" "c \<in> set xs" "st < ?S c" for a c
    using l [OF that(1,2)] that(4) by simp
  have s1: "sorted_wrt (\<lambda>a b. ?E a \<le> ?S b) (filter P xs)" for P using so by (rule sorted_wrt_filter)
  have zz: "\<And>a. a \<in> set xs \<Longrightarrow> a \<noteq> z" using z by blast
  have s2: "sorted_wrt (\<lambda>a b. end_of h' a \<le> start_of h' b) (filter P xs)" for P
    using s1 [of P] by (rule sorted_wrt_mono_rel [rotated]) (use zz h' in auto)
  show ?thesis unfolding ranges_def sorted_wrt_append
    using ne zz l r cross s2 b h' by auto
qed

end
