(* ===== verification/Sp_Tree_Mod.thy ===== *)
theory Sp_Tree_Mod
  imports Sp_Tree
begin

section \<open>sp\_tree.c: find, modify and lock\<close>

text \<open>
  Models \<open>sp_tree_find_mod_and_lock\<close> (lines 384-672): the operation of the fault handler that
  raises the protection of one page and returns, locked, the area that holds the page. One
  definition per branch of the code, composed by \<open>sp_tree_find_mod_and_lock\<close> at the end; a
  field that the code reads twice is read twice. The variable \<open>t\<close> is the result of the splay,
  which the code does not store in \<open>sp->root\<close>.
\<close>

subsection \<open>Creating the area of one page\<close>

text \<open>The first three statements of every branch that creates an area.\<close>

definition new_page_area :: "('z st_scheme, addr) prog \<Rightarrow> addr \<Rightarrow> ('z st_scheme, addr) prog" where
  "new_page_area valloc vm_addr =
     bnd valloc (\<lambda>z.
     bnd (upd_vma z (\<lambda>v. v\<lparr>vm_start := vm_addr\<rparr>)) (\<lambda>_.
     bnd (get_field vm_start z) (\<lambda>zs.
     bnd (gets OOC_PAGE_SIZE) (\<lambda>ps.
     bnd (upd_vma z (\<lambda>v. v\<lparr>vm_end := zs + ps\<rparr>)) (\<lambda>_. ret z)))))"

definition new_read_area :: "('z st_scheme, addr) prog \<Rightarrow> addr \<Rightarrow> ('z st_scheme, addr) prog" where
  "new_read_area valloc vm_addr =
     bnd (new_page_area valloc vm_addr) (\<lambda>z.
     bnd (upd_vma z (\<lambda>v. v\<lparr>vm_flags := VM_PROT_READ\<rparr>)) (\<lambda>_.
     bnd (S_sp_node_init z) (\<lambda>_. ret z)))"

subsection \<open>Locating the area of the page (lines 430-438)\<close>

definition find_mod_locate :: "addr \<Rightarrow> addr \<Rightarrow> ('z st_scheme, addr) prog" where
  "find_mod_locate vm_addr t =
     bnd (andp (bnd (get_field vm_start t) (\<lambda>ts. ret (ts \<le> vm_addr)))
               (bnd (get_field vm_end t) (\<lambda>te. ret (vm_addr < te)))) (\<lambda>b.
     if b then ret t
     else
       bnd (get_field vm_prev t) (\<lambda>p.
       if p \<noteq> NULL then
         bnd (andp (bnd (get_field vm_start p) (\<lambda>ps. ret (ps \<le> vm_addr)))
                   (bnd (get_field vm_end p) (\<lambda>pe. ret (vm_addr < pe)))) (\<lambda>b.
         ret (if b then p else NULL))
       else ret NULL))"

subsection \<open>No area holds the page (lines 444-497)\<close>

definition mergeable_prev :: "addr \<Rightarrow> ('z st_scheme, 64 word) prog \<Rightarrow> ('z st_scheme, bool) prog" where
  "mergeable_prev z flags =
     andp (bnd (get_field vm_prev z) (\<lambda>p. ret (p \<noteq> NULL)))
    (andp (bnd (get_field vm_prev z) (\<lambda>p.
           bnd (get_field vm_end p) (\<lambda>pe.
           bnd (get_field vm_start z) (\<lambda>zs. ret (pe = zs)))))
          (bnd (get_field vm_prev z) (\<lambda>p.
           bnd (get_field vm_flags p) (\<lambda>pf.
           bnd flags (\<lambda>f. ret (pf = f))))))"

definition mergeable_next :: "addr \<Rightarrow> ('z st_scheme, 64 word) prog \<Rightarrow> ('z st_scheme, bool) prog" where
  "mergeable_next z flags =
     andp (bnd (get_field vm_next z) (\<lambda>p. ret (p \<noteq> NULL)))
    (andp (bnd (get_field vm_next z) (\<lambda>p.
           bnd (get_field vm_start p) (\<lambda>ps.
           bnd (get_field vm_end z) (\<lambda>ze. ret (ps = ze)))))
          (bnd (get_field vm_next z) (\<lambda>p.
           bnd (get_field vm_flags p) (\<lambda>pf.
           bnd flags (\<lambda>f. ret (pf = f))))))"

text \<open>The two merges remove \<open>z\<close> and let the neighbour take over its range.\<close>

definition prefix_merge ::
    "(addr \<Rightarrow> ('z st_scheme, unit) prog) \<Rightarrow> addr \<Rightarrow> ('z st_scheme, addr) prog" where
  "prefix_merge vfree z =
     bnd (get_field vm_prev z) (\<lambda>prev.
     bnd (get_field vm_end z) (\<lambda>ve.
     bnd (S_sp_tree_remove_helper z) (\<lambda>_.
     bnd (S_sp_node_free vfree z) (\<lambda>_.
     bnd (upd_vma prev (\<lambda>v. v\<lparr>vm_end := ve\<rparr>)) (\<lambda>_. ret prev)))))"

definition suffix_merge ::
    "(addr \<Rightarrow> ('z st_scheme, unit) prog) \<Rightarrow> addr \<Rightarrow> ('z st_scheme, addr) prog" where
  "suffix_merge vfree z =
     bnd (get_field vm_next z) (\<lambda>next.
     bnd (get_field vm_start z) (\<lambda>vs.
     bnd (S_sp_tree_remove_helper z) (\<lambda>_.
     bnd (S_sp_node_free vfree z) (\<lambda>_.
     bnd (upd_vma next (\<lambda>v. v\<lparr>vm_start := vs\<rparr>)) (\<lambda>_. ret next)))))"

definition find_mod_insert ::
    "('z st_scheme, addr) prog \<Rightarrow> (addr \<Rightarrow> ('z st_scheme, unit) prog) \<Rightarrow> addr \<Rightarrow> addr \<Rightarrow>
     ('z st_scheme, addr) prog" where
  "find_mod_insert valloc vfree vm_addr t =
     bnd (new_read_area valloc vm_addr) (\<lambda>z.
     bnd (S_sp_tree_insert_helper t z) (\<lambda>_.
     bnd (mergeable_prev z (get_field vm_flags z)) (\<lambda>b.
     bnd (if b then prefix_merge vfree z else ret z) (\<lambda>z.
     bnd (mergeable_next z (get_field vm_flags z)) (\<lambda>b.
     if b then suffix_merge vfree z else ret z)))))"

subsection \<open>The page is in the middle of its area (lines 501-524)\<close>

definition find_mod_mid_split ::
    "('z st_scheme, addr) prog \<Rightarrow> addr \<Rightarrow> addr \<Rightarrow> ('z st_scheme, addr) prog" where
  "find_mod_mid_split valloc vm_addr n =
     bnd (new_page_area valloc vm_addr) (\<lambda>z.
     bnd (get_field vm_flags n) (\<lambda>nf.
     bnd (upd_vma z (\<lambda>v. v\<lparr>vm_flags := VM_PROT_PROMOTE nf\<rparr>)) (\<lambda>_.
     bnd (S_sp_node_init z) (\<lambda>_.
     bnd valloc (\<lambda>t.
     bnd (get_field vm_end z) (\<lambda>ze.
     bnd (upd_vma t (\<lambda>v. v\<lparr>vm_start := ze\<rparr>)) (\<lambda>_.
     bnd (get_field vm_end n) (\<lambda>ne.
     bnd (upd_vma t (\<lambda>v. v\<lparr>vm_end := ne\<rparr>)) (\<lambda>_.
     bnd (get_field vm_flags n) (\<lambda>nf.
     bnd (upd_vma t (\<lambda>v. v\<lparr>vm_flags := nf\<rparr>)) (\<lambda>_.
     bnd (S_sp_node_init t) (\<lambda>_.
     bnd (get_field vm_start z) (\<lambda>zs.
     bnd (upd_vma n (\<lambda>v. v\<lparr>vm_end := zs\<rparr>)) (\<lambda>_.
     bnd get_root (\<lambda>rt.
     bnd (S_sp_tree_insert_helper rt t) (\<lambda>_.
     bnd get_root (\<lambda>rt.
     bnd (S_sp_tree_insert_helper rt z) (\<lambda>_. ret z))))))))))))))))))"

subsection \<open>The page is the first of a longer area (lines 526-573)\<close>

definition prefix_migrate ::
    "(addr \<Rightarrow> ('z st_scheme, unit) prog) \<Rightarrow> addr \<Rightarrow> addr \<Rightarrow> addr \<Rightarrow> ('z st_scheme, addr) prog" where
  "prefix_migrate vfree vm_addr t n =
     bnd (get_field vm_prev n) (\<lambda>prev.
     bnd (gets OOC_PAGE_SIZE) (\<lambda>ps.
     bnd (get_field vm_end n) (\<lambda>ne.
     bnd (if vm_addr + ps = ne then
            bnd (S_sp_tree_remove_helper n) (\<lambda>_. S_sp_node_free vfree n)
          else upd_vma n (\<lambda>v. v\<lparr>vm_start := vm_addr + ps\<rparr>)) (\<lambda>_.
     bnd (upd_vma prev (\<lambda>v. v\<lparr>vm_end := vm_addr + ps\<rparr>)) (\<lambda>_.
     bnd (get_field vm_start prev) (\<lambda>vs.
     bnd (S_sp_tree_splay vs t) (\<lambda>n.
     bnd (set_root n) (\<lambda>_. ret n))))))))"

definition prefix_split ::
    "('z st_scheme, addr) prog \<Rightarrow> addr \<Rightarrow> addr \<Rightarrow> ('z st_scheme, addr) prog" where
  "prefix_split valloc vm_addr n =
     bnd (new_page_area valloc vm_addr) (\<lambda>z.
     bnd (S_sp_node_init z) (\<lambda>_.
     bnd (get_field vm_end z) (\<lambda>ze.
     bnd (upd_vma n (\<lambda>v. v\<lparr>vm_start := ze\<rparr>)) (\<lambda>_.
     bnd get_root (\<lambda>rt.
     bnd (S_sp_tree_insert_helper rt z) (\<lambda>_. ret z))))))"

definition promoted :: "addr \<Rightarrow> ('z st_scheme, 64 word) prog" where
  "promoted n = bnd (get_field vm_flags n) (\<lambda>nf. ret (VM_PROT_PROMOTE nf))"

definition find_mod_prefix ::
    "('z st_scheme, addr) prog \<Rightarrow> (addr \<Rightarrow> ('z st_scheme, unit) prog) \<Rightarrow> addr \<Rightarrow> addr \<Rightarrow> addr \<Rightarrow>
     ('z st_scheme, addr) prog" where
  "find_mod_prefix valloc vfree vm_addr t n =
     bnd (mergeable_prev n (promoted n)) (\<lambda>b.
     if b then prefix_migrate vfree vm_addr t n else prefix_split valloc vm_addr n)"

subsection \<open>The page is the last of a longer area (lines 574-621)\<close>

definition suffix_migrate ::
    "(addr \<Rightarrow> ('z st_scheme, unit) prog) \<Rightarrow> addr \<Rightarrow> addr \<Rightarrow> addr \<Rightarrow> ('z st_scheme, addr) prog" where
  "suffix_migrate vfree vm_addr t n =
     bnd (get_field vm_next n) (\<lambda>next.
     bnd (get_field vm_start n) (\<lambda>ns.
     bnd (if vm_addr = ns then
            bnd (S_sp_tree_remove_helper n) (\<lambda>_. S_sp_node_free vfree n)
          else upd_vma n (\<lambda>v. v\<lparr>vm_end := vm_addr\<rparr>)) (\<lambda>_.
     bnd (upd_vma next (\<lambda>v. v\<lparr>vm_start := vm_addr\<rparr>)) (\<lambda>_.
     bnd (get_field vm_start next) (\<lambda>vs.
     bnd (S_sp_tree_splay vs t) (\<lambda>n.
     bnd (set_root n) (\<lambda>_. ret n)))))))"

definition suffix_split ::
    "('z st_scheme, addr) prog \<Rightarrow> addr \<Rightarrow> addr \<Rightarrow> ('z st_scheme, addr) prog" where
  "suffix_split valloc vm_addr n =
     bnd (new_page_area valloc vm_addr) (\<lambda>z.
     bnd (S_sp_node_init z) (\<lambda>_.
     bnd (get_field vm_start z) (\<lambda>zs.
     bnd (upd_vma n (\<lambda>v. v\<lparr>vm_end := zs\<rparr>)) (\<lambda>_.
     bnd get_root (\<lambda>rt.
     bnd (S_sp_tree_insert_helper rt z) (\<lambda>_. ret z))))))"

definition find_mod_suffix ::
    "('z st_scheme, addr) prog \<Rightarrow> (addr \<Rightarrow> ('z st_scheme, unit) prog) \<Rightarrow> addr \<Rightarrow> addr \<Rightarrow> addr \<Rightarrow>
     ('z st_scheme, addr) prog" where
  "find_mod_suffix valloc vfree vm_addr t n =
     bnd (mergeable_next n (promoted n)) (\<lambda>b.
     if b then suffix_migrate vfree vm_addr t n else suffix_split valloc vm_addr n)"

subsection \<open>The page is the whole area (lines 622-658)\<close>

text \<open>
  The second condition reads the flags of \<open>n->vm_prev\<close>, as the code does on line 642, after
  testing \<open>n->vm_next\<close>.
\<close>

definition mergeable_next3 :: "addr \<Rightarrow> ('z st_scheme, bool) prog" where
  "mergeable_next3 n =
     andp (bnd (get_field vm_next n) (\<lambda>p. ret (p \<noteq> NULL)))
    (andp (bnd (get_field vm_next n) (\<lambda>p.
           bnd (get_field vm_start p) (\<lambda>ps.
           bnd (get_field vm_end n) (\<lambda>ne. ret (ps = ne)))))
          (bnd (get_field vm_prev n) (\<lambda>p.
           bnd (get_field vm_flags p) (\<lambda>pf.
           bnd (promoted n) (\<lambda>f. ret (pf = f))))))"

definition find_mod_merge3 ::
    "(addr \<Rightarrow> ('z st_scheme, unit) prog) \<Rightarrow> addr \<Rightarrow> ('z st_scheme, addr) prog" where
  "find_mod_merge3 vfree n =
     bnd (mergeable_prev n (promoted n)) (\<lambda>b.
     bnd (if b then prefix_merge vfree n else ret n) (\<lambda>n.
     bnd (mergeable_next3 n) (\<lambda>b.
     if b then suffix_merge vfree n else ret n)))"

subsection \<open>The operation\<close>

definition find_mod_empty :: "('z st_scheme, addr) prog \<Rightarrow> addr \<Rightarrow> ('z st_scheme, addr) prog" where
  "find_mod_empty valloc vm_addr =
     bnd (new_read_area valloc vm_addr) (\<lambda>z.
     bnd (set_root z) (\<lambda>_. ret z))"

text \<open>The chain of conditions of lines 444, 498, 526 and 574.\<close>

definition find_mod_dispatch ::
    "('z st_scheme, addr) prog \<Rightarrow> (addr \<Rightarrow> ('z st_scheme, unit) prog) \<Rightarrow> addr \<Rightarrow> addr \<Rightarrow> addr \<Rightarrow>
     ('z st_scheme, addr) prog" where
  "find_mod_dispatch valloc vfree vm_addr t n =
     (if n = NULL then find_mod_insert valloc vfree vm_addr t
      else
        bnd (get_field vm_start n) (\<lambda>ns.
        bnd (get_field vm_end n) (\<lambda>ne.
        bnd (gets OOC_PAGE_SIZE) (\<lambda>ps.
        if ns \<noteq> vm_addr \<and> ne \<noteq> vm_addr + ps then find_mod_mid_split valloc vm_addr n
        else if ns = vm_addr \<and> ne \<noteq> vm_addr + ps then find_mod_prefix valloc vfree vm_addr t n
        else if ns \<noteq> vm_addr \<and> ne = vm_addr + ps then find_mod_suffix valloc vfree vm_addr t n
        else find_mod_merge3 vfree n))))"

definition sp_tree_find_mod_and_lock ::
    "('z st_scheme, addr) prog \<Rightarrow> (addr \<Rightarrow> ('z st_scheme, unit) prog) \<Rightarrow> addr \<Rightarrow>
     ('z st_scheme, addr) prog" where
  "sp_tree_find_mod_and_lock valloc vfree vm_addr =
     bnd (upd_tree_lock lock_get) (\<lambda>_.
     bnd get_root (\<lambda>rt.
     bnd (if rt = NULL then find_mod_empty valloc vm_addr
          else
            bnd (S_sp_tree_splay vm_addr rt) (\<lambda>t.
            bnd (find_mod_locate vm_addr t) (\<lambda>n.
            find_mod_dispatch valloc vfree vm_addr t n)))
         (\<lambda>n.
     bnd (upd_lock lock_get n) (\<lambda>_.
     bnd (upd_tree_lock lock_let) (\<lambda>_. ret n)))))"

end
