(* ===== verification/Find_Mod.thy ===== *)
theory Find_Mod
  imports Table_Ops Sp_Tree_Mod
begin

section \<open>sp\_tree\_find\_mod\_and\_lock\<close>

text \<open>
  The branches of \<open>sp_tree_find_mod_and_lock\<close>. The contract is stated on pages: after the
  call the page of \<open>vm_addr\<close> has the raised protection and every other address keeps its own
  (\<open>maps\<close>); the returned area covers the page and is locked.
\<close>

subsection \<open>Assignments to data fields\<close>

lemma wf_tab_data:
  assumes "wf_tab h r T" and "\<And>v. sp_l (f v) = sp_l v" "\<And>v. sp_r (f v) = sp_r v" "\<And>v. sp_p (f v) = sp_p v"
    "\<And>v. vm_next (f v) = vm_next v" "\<And>v. vm_prev (f v) = vm_prev v" "\<And>v. vm_start (f v) = vm_start v"
  shows "wf_tab (hupd a f h) r T"
  using assms by (auto simp: wf_tab_def)

text \<open>An area may get another start between its neighbours.\<close>

lemma wf_tab_restart:
  assumes wf: "wf_tab h r T" and io: "inorder T = X @ a # Y"
    and X: "\<forall>b \<in> set X. start_of h b < x" and Y: "\<forall>b \<in> set Y. x < start_of h b"
  shows "wf_tab (hupd a (\<lambda>v. v\<lparr>vm_start := x\<rparr>) h) r T"
proof -
  have srt: "sorted_by (start_of h) (X @ a # Y)" and d: "distinct (X @ a # Y)"
    using wf wf_tab_facts(1) [OF wf] by (simp_all add: wf_tab_def io)
  have XY: "sorted_by (start_of h) X" "sorted_by (start_of h) Y" "a \<notin> set X" "a \<notin> set Y"
    "\<forall>b \<in> set X. \<forall>c \<in> set Y. start_of h b < start_of h c"
    using srt d by (auto simp: sorted_wrt_append)
  let ?k = "(start_of h)(a := x)"
  have "sorted_by ?k X" by (rule sorted_wrt_mono_rel [OF _ XY(1)]) (use XY(3) in auto)
  moreover have "sorted_by ?k Y" by (rule sorted_wrt_mono_rel [OF _ XY(2)]) (use XY(4) in auto)
  moreover have "\<forall>b \<in> set X. ?k b = start_of h b" "\<forall>b \<in> set Y. ?k b = start_of h b" using XY(3,4) by auto
  ultimately have "sorted_by ?k (X @ a # Y)" using XY X Y by (simp add: sorted_wrt_append del: fun_upd_apply) simp
  then show ?thesis using wf by (auto simp: wf_tab_def io)
qed

text \<open>Ranges, flags and locks read off at the areas of a table.\<close>

lemma ranges_cong: "same_info h h' (set xs) \<Longrightarrow> ranges h' xs = ranges h xs"
proof (induction xs)
  case (Cons x xs)
  then have "ranges h' xs = ranges h xs" by (simp add: same_info_def)
  then show ?case using Cons.prems by (auto simp: ranges_Cons same_info_def)
qed (simp add: ranges_def)

subsection \<open>The neighbour tests\<close>

lemma mergeable_prev_w:
  assumes "z \<in> dom h" "z \<noteq> NULL" "fpv h z = NULL \<or> fpv h z \<in> dom h"
    and "m (wst s h r l) = Inr (f, wst s h r l)"
  shows "mergeable_prev z m (wst s h r l) =
     Inr (fpv h z \<noteq> NULL \<and> end_of h (fpv h z) = start_of h z \<and> flags_of h (fpv h z) = f, wst s h r l)"
  using assms by (cases "fpv h z = NULL") (simp_all add: mergeable_prev_def andp_def bnd_def)

lemma mergeable_next_w:
  assumes "z \<in> dom h" "z \<noteq> NULL" "fnx h z = NULL \<or> fnx h z \<in> dom h"
    and "m (wst s h r l) = Inr (f, wst s h r l)"
  shows "mergeable_next z m (wst s h r l) =
     Inr (fnx h z \<noteq> NULL \<and> start_of h (fnx h z) = end_of h z \<and> flags_of h (fnx h z) = f, wst s h r l)"
  using assms by (cases "fnx h z = NULL") (simp_all add: mergeable_next_def andp_def bnd_def)

lemma promoted_w:
  "n \<in> dom h \<Longrightarrow> n \<noteq> NULL \<Longrightarrow> promoted n (wst s h r l) = Inr (VM_PROT_PROMOTE (flags_of h n), wst s h r l)"
  by (simp add: promoted_def bnd_def)

subsection \<open>Creating an area\<close>

definition page_area :: "64 word \<Rightarrow> addr \<Rightarrow> addr \<Rightarrow> heap \<Rightarrow> heap" where
  "page_area ps z x h = hupd z (\<lambda>v. v\<lparr>vm_end := x + ps\<rparr>) (hupd z (\<lambda>v. v\<lparr>vm_start := x\<rparr>) h)"

lemma page_area_views [simp]:
  "start_of (page_area ps z x h) = (start_of h)(z := x)" "end_of (page_area ps z x h) = (end_of h)(z := x + ps)"
  "flags_of (page_area ps z x h) = flags_of h" "lock_of (page_area ps z x h) = lock_of h"
  "fl (page_area ps z x h) = fl h" "fr (page_area ps z x h) = fr h" "fp (page_area ps z x h) = fp h"
  "fnx (page_area ps z x h) = fnx h" "fpv (page_area ps z x h) = fpv h"
  "dom (page_area ps z x h) = insert z (dom h)"
  by (auto simp: page_area_def)

lemma page_area_other: "a \<noteq> z \<Longrightarrow> page_area ps z x h a = h a"
  by (simp add: page_area_def hupd_other)

context vma_pool
begin

text \<open>The user may assign to a live area.\<close>

lemma pool_hupd:
  assumes p: "pinv (wst s h r l)" and q: "q \<in> live (wst s h r l)"
  shows "pinv (wst s (hupd q f h) r' l')" "live (wst s (hupd q f h) r' l') = live (wst s h r l)"
    "avail (wst s (hupd q f h) r' l') = avail (wst s h r l)" "okf (wst s (hupd q f h) r' l') = okf (wst s h r l)"
    "roomy (wst s (hupd q f h) r' l') = roomy (wst s h r l)"
proof -
  have "q \<in> dom h" using pool_mem [OF p] q by auto
  then have "dom (hupd q f h) = dom (vmas (wst s h r l))" by auto
  moreover have "\<forall>a. a \<notin> live (wst s h r l) \<longrightarrow> hupd q f h a = vmas (wst s h r l) a"
    using q by (metis hupd_other wst_sel(1))
  ultimately show "pinv (wst s (hupd q f h) r' l')" "live (wst s (hupd q f h) r' l') = live (wst s h r l)"
    "avail (wst s (hupd q f h) r' l') = avail (wst s h r l)" "okf (wst s (hupd q f h) r' l') = okf (wst s h r l)"
    "roomy (wst s (hupd q f h) r' l') = roomy (wst s h r l)"
    using pool_user [OF p, of "hupd q f h" r' l'] by simp_all
qed

lemma new_page_area_run:
  assumes p: "pinv (wst s h r l)" and av: "avail (wst s h r l)"
  shows "\<exists>z s1. new_page_area valloc x (wst s h r l) =
        Inr (z, wst s1 (page_area (OOC_PAGE_SIZE s) z x (vmas s1)) r l) \<and>
      s1 = wst s1 (vmas s1) r l \<and> z \<noteq> NULL \<and> z \<notin> live (wst s h r l) \<and> z \<in> dom (vmas s1) \<and> pinv s1 \<and>
      same_env (wst s h r l) s1 \<and> live s1 = insert z (live (wst s h r l)) \<and>
      (\<forall>a \<in> live (wst s h r l). vmas s1 a = h a) \<and>
      le_on (okf (wst s h r l)) (okf s1) (live (wst s h r l)) \<and>
      (roomy (wst s h r l) \<longrightarrow> okf s1 (live (wst s h r l)) z)"
proof -
  from pool_alloc [OF p] av obtain z s1 where z: "valloc (wst s h r l) = Inr (z, s1)" "z \<noteq> NULL"
    and s1: "pinv s1" "same_env (wst s h r l) s1" "z \<notin> live (wst s h r l)" "live s1 = insert z (live (wst s h r l))"
      "\<forall>a \<in> live (wst s h r l). vmas s1 a = h a" "roomy (wst s h r l) \<longrightarrow> okf s1 (live (wst s h r l)) z"
      "le_on (okf (wst s h r l)) (okf s1) (live (wst s h r l))" by auto
  have e: "root (vma_tree s1) = r" "lock (vma_tree s1) = l" "OOC_PAGE_SIZE s1 = OOC_PAGE_SIZE s"
    using s1(2) by (simp_all add: same_env_def)
  have s1w: "s1 = wst s1 (vmas s1) r l" using wst_self [of s1] e by simp
  have zd: "z \<in> dom (vmas s1)" using pool_mem [OF s1(1)] s1(4) by auto
  have "new_page_area valloc x (wst s h r l) = Inr (z, wst s1 (page_area (OOC_PAGE_SIZE s) z x (vmas s1)) r l)"
    using z zd e(3) by (simp add: new_page_area_def bnd_def) (subst s1w, simp add: bnd_def page_area_def)
  with z s1 s1w zd show ?thesis by blast
qed

text \<open>The area that every branch but the splits creates: one readable page.\<close>

lemma new_read_area_run:
  assumes p: "pinv (wst s h r l)" and av: "avail (wst s h r l)"
  shows "\<exists>z s1 h1. new_read_area valloc x (wst s h r l) = Inr (z, wst s1 h1 r l) \<and>
      z \<noteq> NULL \<and> z \<notin> live (wst s h r l) \<and> z \<in> dom h1 \<and> pinv (wst s1 h1 r l) \<and> same_env (wst s h r l) (wst s1 h1 r l) \<and>
      live (wst s1 h1 r l) = insert z (live (wst s h r l)) \<and> (\<forall>a \<in> live (wst s h r l). h1 a = h a) \<and>
      start_of h1 z = x \<and> end_of h1 z = x + OOC_PAGE_SIZE s \<and> flags_of h1 z = VM_PROT_READ \<and>
      lock_idle (openmp s) (lock_of h1 z) \<and> fl h1 z = NULL \<and> fr h1 z = NULL \<and> fp h1 z = NULL \<and>
      fnx h1 z = NULL \<and> fpv h1 z = NULL \<and>
      le_on (okf (wst s h r l)) (okf (wst s1 h1 r l)) (live (wst s h r l)) \<and>
      (roomy (wst s h r l) \<longrightarrow> okf (wst s1 h1 r l) (live (wst s h r l)) z)"
proof -
  obtain z s1 where run: "new_page_area valloc x (wst s h r l) =
        Inr (z, wst s1 (page_area (OOC_PAGE_SIZE s) z x (vmas s1)) r l)"
      and s1w: "s1 = wst s1 (vmas s1) r l" and z: "z \<noteq> NULL" "z \<notin> live (wst s h r l)" "z \<in> dom (vmas s1)" and p1: "pinv s1"
      and env: "same_env (wst s h r l) s1" and lv: "live s1 = insert z (live (wst s h r l))"
      and eq: "\<forall>a \<in> live (wst s h r l). vmas s1 a = h a"
      and ok: "le_on (okf (wst s h r l)) (okf s1) (live (wst s h r l))"
        "roomy (wst s h r l) \<longrightarrow> okf s1 (live (wst s h r l)) z"
    using new_page_area_run [OF p av, of x] by blast
  define h1 where "h1 = node_init (openmp s) z
     (hupd z (\<lambda>v. v\<lparr>vm_flags := VM_PROT_READ\<rparr>) (page_area (OOC_PAGE_SIZE s) z x (vmas s1)))"
  have omp: "openmp s1 = openmp s" using env by (simp add: same_env_def)
  have d1: "dom h1 = dom (vmas s1)" using z(3) by (auto simp: h1_def)
  have other: "h1 a = vmas s1 a" if "a \<noteq> z" for a
    using that by (simp add: h1_def node_init_other hupd_other page_area_other)
  from pool_user [OF p1 d1, of r l] other lv have u: "pinv (wst s1 h1 r l)" "live (wst s1 h1 r l) = live s1"
    "okf (wst s1 h1 r l) = okf s1" by blast+
  have run2: "new_read_area valloc x (wst s h r l) = Inr (z, wst s1 h1 r l)"
    using run z omp by (simp add: new_read_area_def bnd_def S_sp_node_init_w h1_def)
  have env1: "same_env (wst s h r l) (wst s1 h1 r l)" using env by (simp add: same_env_def wst_def)
  have "\<forall>a \<in> live (wst s h r l). h1 a = h a" using other eq z(2) by metis
  moreover have "start_of h1 z = x" "end_of h1 z = x + OOC_PAGE_SIZE s" "flags_of h1 z = VM_PROT_READ"
      "lock_idle (openmp s) (lock_of h1 z)" "fl h1 z = NULL" "fr h1 z = NULL" "fp h1 z = NULL"
      "fnx h1 z = NULL" "fpv h1 z = NULL" by (simp_all add: h1_def)
  moreover have "z \<in> dom h1" using d1 z(3) by simp
  ultimately show ?thesis using run2 z u lv env1 ok
    by (intro exI [of _ z] exI [of _ s1] exI [of _ h1]) simp
qed


text \<open>
  Removing the root \<open>z\<close> of the tree in favour of a neighbour: the common part of the two merges.
\<close>

lemma drop_root:
  assumes p: "pinv (wst s h r l)" and fr: "frame_n s \<noteq> NULL"
    and wf: "wf_tab h z (Node A z B)" "set_tree (Node A z B) \<subseteq> live (wst s h r l)"
    and z: "lock_idle (openmp s) (lock_of h z)" "okf (wst s h r l) (live (wst s h r l) - {z}) z"
  shows "\<exists>s1 h1 r1 J. bnd (S_sp_tree_remove_helper z) (\<lambda>_. S_sp_node_free vfree z) (wst s h r l) = Inr ((), wst s1 h1 r1 l) \<and>
     wf_tab h1 r1 J \<and> inorder J = inorder A @ inorder B \<and> (A \<noteq> Leaf \<longrightarrow> r1 = last0 NULL (inorder A)) \<and>
     J = join_trees (start_of h) (start_of h z) A B \<and>
     pinv (wst s1 h1 r1 l) \<and> live (wst s1 h1 r1 l) = live (wst s h r l) - {z} \<and>
     openmp s1 = openmp s \<and> OOC_PAGE_SIZE s1 = OOC_PAGE_SIZE s \<and> frame_n s1 = frame_n s \<and>
     same_info h h1 (live (wst s h r l) - {z}) \<and>
     le_on (okf (wst s h r l)) (okf (wst s1 h1 r1 l)) (live (wst s h r l) - {z})"
proof -
  let ?L = "live (wst s h r l)" and ?J = "join_trees (start_of h) (start_of h z) A B"
  have fr0: "h (frame_n s) = None" using pool_mem [OF p] by simp
  from remove_helper_run [OF wf(1) fr0 fr, of r l] obtain h2 z2 where
    run2: "S_sp_tree_remove_helper z (wst s h r l) = Inr ((), wst s h2 z2 l)"
    and wf2: "wf_tab h2 z2 ?J" and io: "inorder ?J = inorder A @ inorder B" and k2: "kept h (set_tree (Node A z B)) h2"
    by blast
  have srtA: "sorted_by (start_of h) (inorder A)" "\<forall>b \<in> set_tree A. start_of h b < start_of h z"
    using wf(1) by (simp_all add: wf_tab_def sorted_wrt_append)
  have z2: "z2 = last0 NULL (inorder A)" if A: "A \<noteq> Leaf"
  proof -
    obtain L a where spl: "splay (start_of h) (start_of h z) A = Node L a Leaf"
      using splay_greatest [OF srtA A] by blast
    then have "?J = Node L a B" using A by (cases A) auto
    moreover have "inorder A = inorder L @ [a]" using inorder_splay [of "start_of h" "start_of h z" A] spl by simp
    ultimately show ?thesis using wf2 by (simp add: wf_tab_def)
  qed
  have "kept (vmas (wst s h r l)) (set_tree (Node A z B)) h2" using k2 by simp
  note pk = pool_kept [OF p this wf(2), of z2 l, simplified]
  have lz: "lock_of h2 z = lock_of h z" using k2 by (simp add: kept_def)
  have "\<exists>s'. S_sp_node_free vfree z (wst s h2 z2 l) = Inr ((), s') \<and> pinv s' \<and> same_env (wst s h2 z2 l) s' \<and>
    live s' = live (wst s h2 z2 l) - {z} \<and> (\<forall>a \<in> live (wst s h2 z2 l) - {z}. vmas s' a = h2 a) \<and>
    le_on (okf (wst s h2 z2 l)) (okf s') (live (wst s h2 z2 l) - {z})"
    by (rule node_free) (use pk wf(2) z lz in auto)
  then obtain s3 where run3: "S_sp_node_free vfree z (wst s h2 z2 l) = Inr ((), s3)" and s3: "pinv s3"
    "same_env (wst s h2 z2 l) s3" "live s3 = ?L - {z}" "\<forall>a \<in> ?L - {z}. vmas s3 a = h2 a"
    "le_on (okf (wst s h r l)) (okf s3) (?L - {z})"
    using pk by auto
  have env: "openmp s3 = openmp s" "frame_n s3 = frame_n s" "OOC_PAGE_SIZE s3 = OOC_PAGE_SIZE s"
    "root (vma_tree s3) = z2" "lock (vma_tree s3) = l" using s3(2) by (simp_all add: same_env_def)
  have s3w: "s3 = wst s3 (vmas s3) z2 l" using wst_self [of s3] env by simp
  have setJ: "set_tree ?J \<subseteq> ?L - {z}"
  proof -
    have "set_tree ?J = set_tree A \<union> set_tree B" by (metis io set_append set_inorder)
    moreover have "z \<notin> set_tree A" "z \<notin> set_tree B" using wf_tab_facts(1) [OF wf(1)] by auto
    ultimately show ?thesis using wf(2) by auto
  qed
  have wf3: "wf_tab (vmas s3) z2 ?J" using wf2 by (rule wf_tab_cong) (use s3(4) setJ in blast)
  have "same_info h2 (vmas s3) (?L - {z})" by (rule same_info_eq) (use s3(4) in blast)
  then have info: "same_info h (vmas s3) (?L - {z})" by (rule same_info_trans [OF same_info_kept [OF k2]])
  have "bnd (S_sp_tree_remove_helper z) (\<lambda>_. S_sp_node_free vfree z) (wst s h r l) = Inr ((), wst s3 (vmas s3) z2 l)"
    using run2 run3 s3w by (simp add: bnd_def)
  moreover have "pinv (wst s3 (vmas s3) z2 l)" "live (wst s3 (vmas s3) z2 l) = ?L - {z}"
    "le_on (okf (wst s h r l)) (okf (wst s3 (vmas s3) z2 l)) (?L - {z})"
    using s3(1,3,5) s3w by simp_all
  ultimately show ?thesis using wf3 io z2 env(1-3) info by blast
qed

text \<open>The step before a merge, common to both: \<open>bnd\<close> of the two calls, then the rest.\<close>

lemma prefix_merge_run:
  assumes p: "pinv (wst s h r l)" and fr: "frame_n s \<noteq> NULL"
    and wf: "wf_tab h z (Node A z B)" "set_tree (Node A z B) \<subseteq> live (wst s h r l)"
    and z: "lock_idle (openmp s) (lock_of h z)" "okf (wst s h r l) (live (wst s h r l) - {z}) z"
    and A: "A \<noteq> Leaf"
  defines "q \<equiv> fpv h z"
  shows "\<exists>s1 h1 J. prefix_merge vfree z (wst s h r l) = Inr (q, wst s1 h1 q l) \<and>
     wf_tab h1 q J \<and> inorder J = inorder A @ inorder B \<and> q \<in> set_tree A \<and> q = last0 NULL (inorder A) \<and>
     pinv (wst s1 h1 q l) \<and> live (wst s1 h1 q l) = live (wst s h r l) - {z} \<and>
     openmp s1 = openmp s \<and> OOC_PAGE_SIZE s1 = OOC_PAGE_SIZE s \<and> frame_n s1 = frame_n s \<and>
     same_info (hupd q (\<lambda>v. v\<lparr>vm_end := end_of h z\<rparr>) h) h1 (live (wst s h r l) - {z}) \<and>
     le_on (okf (wst s h r l)) (okf (wst s1 h1 q l)) (live (wst s h r l) - {z})"
proof -
  let ?L = "live (wst s h r l)"
  have q: "q = last0 NULL (inorder A)" unfolding q_def by (rule wf_tab_neighbours(1) [OF wf(1)])
  have N: "NULL \<notin> set (inorder A)" using wf_tab_facts(2) [OF wf(1)] by simp
  have "q \<noteq> NULL" using last0_nonnull [OF N] A q by simp
  then have qA: "q \<in> set_tree A" using last0_in [of NULL "inorder A"] q by simp
  have zA: "z \<notin> set_tree A" using wf_tab_facts(1) [OF wf(1)] by simp
  obtain s1 h1 r1 J where run: "bnd (S_sp_tree_remove_helper z) (\<lambda>_. S_sp_node_free vfree z) (wst s h r l) = Inr ((), wst s1 h1 r1 l)"
    and wf1: "wf_tab h1 r1 J" "inorder J = inorder A @ inorder B" "r1 = q"
    and p1: "pinv (wst s1 h1 r1 l)" and lv: "live (wst s1 h1 r1 l) = ?L - {z}"
    and env: "openmp s1 = openmp s" "OOC_PAGE_SIZE s1 = OOC_PAGE_SIZE s" "frame_n s1 = frame_n s"
    and info: "same_info h h1 (?L - {z})" and ok: "le_on (okf (wst s h r l)) (okf (wst s1 h1 r1 l)) (?L - {z})"
    using drop_root [OF p fr wf z] A q by blast
  have qL: "q \<in> ?L - {z}" using qA zA wf(2) by auto
  then have qd: "q \<in> dom h1" using pool_mem [OF p1] lv by auto
  have zd: "z \<in> dom h" "z \<noteq> NULL" using wf_tab_links(5,6) [OF wf(1), of z] by auto
  define h2 where "h2 = hupd q (\<lambda>v. v\<lparr>vm_end := end_of h z\<rparr>) h1"
  obtain s2 where r12: "S_sp_tree_remove_helper z (wst s h r l) = Inr ((), s2)"
    "S_sp_node_free vfree z s2 = Inr ((), wst s1 h1 r1 l)" using run by (auto simp: bnd_eq_Inr)
  have run2: "prefix_merge vfree z (wst s h r l) = Inr (q, wst s1 h2 q l)"
    using zd qd \<open>q \<noteq> NULL\<close> wf1(3)
    by (simp add: prefix_merge_def bnd_def q_def [symmetric] h2_def r12)
  have "wf_tab h2 q J" unfolding h2_def wf1(3) [symmetric] by (rule wf_tab_data [OF wf1(1)]) simp_all
  moreover have p2: "pinv (wst s1 h2 q l)" "live (wst s1 h2 q l) = ?L - {z}"
    "le_on (okf (wst s h r l)) (okf (wst s1 h2 q l)) (?L - {z})"
    using pool_hupd [OF p1, of q _ q l] qL lv ok by (simp_all add: h2_def)
  moreover have "same_info (hupd q (\<lambda>v. v\<lparr>vm_end := end_of h z\<rparr>) h) h2 (?L - {z})"
    using info by (simp add: same_info_def h2_def)
  ultimately show ?thesis using run2 wf1(2) qA q env by blast
qed

lemma suffix_merge_run:
  assumes p: "pinv (wst s h r l)" and fr: "frame_n s \<noteq> NULL"
    and wf: "wf_tab h z (Node A z B)" "set_tree (Node A z B) \<subseteq> live (wst s h r l)"
    and z: "lock_idle (openmp s) (lock_of h z)" "okf (wst s h r l) (live (wst s h r l) - {z}) z"
    and B: "B \<noteq> Leaf"
  defines "q \<equiv> fnx h z"
  shows "\<exists>s1 h1 r1 J. suffix_merge vfree z (wst s h r l) = Inr (q, wst s1 h1 r1 l) \<and>
     wf_tab h1 r1 J \<and> inorder J = inorder A @ inorder B \<and> q \<in> set_tree B \<and> q = hd0 (inorder B) NULL \<and>
     pinv (wst s1 h1 r1 l) \<and> live (wst s1 h1 r1 l) = live (wst s h r l) - {z} \<and>
     openmp s1 = openmp s \<and> OOC_PAGE_SIZE s1 = OOC_PAGE_SIZE s \<and> frame_n s1 = frame_n s \<and>
     same_info (hupd q (\<lambda>v. v\<lparr>vm_start := start_of h z\<rparr>) h) h1 (live (wst s h r l) - {z}) \<and>
     le_on (okf (wst s h r l)) (okf (wst s1 h1 r1 l)) (live (wst s h r l) - {z})"
proof -
  let ?L = "live (wst s h r l)"
  have q: "q = hd0 (inorder B) NULL" unfolding q_def by (rule wf_tab_neighbours(2) [OF wf(1)])
  have N: "NULL \<notin> set (inorder B)" using wf_tab_facts(2) [OF wf(1)] by simp
  have "q \<noteq> NULL" using hd0_nonnull [OF N] B q by simp
  obtain ys where ys: "inorder B = q # ys" using B q by (cases "inorder B") auto
  then have qB: "q \<in> set_tree B" by (metis list.set_intros(1) set_inorder)
  have dist: "distinct (inorder A @ z # q # ys)" using wf_tab_facts(1) [OF wf(1)] ys by simp
  then have zq: "z \<noteq> q" by simp
  obtain s1 h1 r1 J where run: "bnd (S_sp_tree_remove_helper z) (\<lambda>_. S_sp_node_free vfree z) (wst s h r l) = Inr ((), wst s1 h1 r1 l)"
    and wf1: "wf_tab h1 r1 J" "inorder J = inorder A @ inorder B"
    and p1: "pinv (wst s1 h1 r1 l)" and lv: "live (wst s1 h1 r1 l) = ?L - {z}"
    and env: "openmp s1 = openmp s" "OOC_PAGE_SIZE s1 = OOC_PAGE_SIZE s" "frame_n s1 = frame_n s"
    and info: "same_info h h1 (?L - {z})" and ok: "le_on (okf (wst s h r l)) (okf (wst s1 h1 r1 l)) (?L - {z})"
    using drop_root [OF p fr wf z] by blast
  have qL: "q \<in> ?L - {z}" using qB zq wf(2) by auto
  then have qd: "q \<in> dom h1" using pool_mem [OF p1] lv by auto
  have zd: "z \<in> dom h" "z \<noteq> NULL" using wf_tab_links(5,6) [OF wf(1), of z] by auto
  define h2 where "h2 = hupd q (\<lambda>v. v\<lparr>vm_start := start_of h z\<rparr>) h1"
  obtain s2 where r12: "S_sp_tree_remove_helper z (wst s h r l) = Inr ((), s2)"
    "S_sp_node_free vfree z s2 = Inr ((), wst s1 h1 r1 l)" using run by (auto simp: bnd_eq_Inr)
  have run2: "suffix_merge vfree z (wst s h r l) = Inr (q, wst s1 h2 r1 l)"
    using zd qd \<open>q \<noteq> NULL\<close>
    by (simp add: suffix_merge_def bnd_def q_def [symmetric] h2_def r12)
  have srt: "sorted_by (start_of h) (inorder A @ z # q # ys)" using wf(1) ys by (simp add: wf_tab_def)
  have sub: "set (inorder A @ ys) \<subseteq> ?L - {z}"
    using wf(2) dist ys by auto (metis list.set_intros(2) set_inorder subsetD)+
  have same: "start_of h1 b = start_of h b" if "b \<in> set (inorder A @ ys)" for b
    using info sub that by (auto simp: same_info_def)
  have "wf_tab h2 r1 J" unfolding h2_def
  proof (rule wf_tab_restart [OF wf1(1)])
    show "inorder J = inorder A @ q # ys" using wf1(2) ys by simp
    show "\<forall>b\<in>set (inorder A). start_of h1 b < start_of h z" using srt same by (auto simp: sorted_wrt_append)
    show "\<forall>b\<in>set ys. start_of h z < start_of h1 b" using srt same by (auto simp: sorted_wrt_append)
  qed
  moreover have p2: "pinv (wst s1 h2 r1 l)" "live (wst s1 h2 r1 l) = ?L - {z}"
    "le_on (okf (wst s h r l)) (okf (wst s1 h2 r1 l)) (?L - {z})"
    using pool_hupd [OF p1, of q _ r1 l] qL lv ok by (simp_all add: h2_def)
  moreover have "same_info (hupd q (\<lambda>v. v\<lparr>vm_start := start_of h z\<rparr>) h) h2 (?L - {z})"
    using info by (simp add: same_info_def h2_def)
  ultimately show ?thesis using run2 wf1(2) qB q env by blast
qed

end

subsection \<open>Protection of addresses\<close>

text \<open>\<open>maps h S p f\<close>: the address \<open>p\<close> lies in an area of \<open>S\<close> with protection \<open>f\<close>.\<close>

definition maps :: "heap \<Rightarrow> addr set \<Rightarrow> addr \<Rightarrow> 64 word \<Rightarrow> bool" where
  "maps h S p f \<longleftrightarrow> (\<exists>a \<in> S. covers h a p \<and> flags_of h a = f)"

lemma maps_cong: "same_info h h' S \<Longrightarrow> maps h' S = maps h S"
  by (auto simp: maps_def same_info_def covers_def fun_eq_iff)

lemma maps_Un: "maps h (S \<union> S') p f \<longleftrightarrow> maps h S p f \<or> maps h S' p f"
  by (auto simp: maps_def)

lemma maps_insert: "maps h (insert a S) p f \<longleftrightarrow> (covers h a p \<and> flags_of h a = f) \<or> maps h S p f"
  by (auto simp: maps_def)

text \<open>Joining two neighbours with the same protection changes no address.\<close>

lemma merge_into_prev:
  assumes rg: "ranges h (X @ q # z # Y)" and d: "distinct (X @ q # z # Y)"
    and adj: "end_of h q = start_of h z" and fl: "flags_of h q = flags_of h z"
    and info: "same_info (hupd q (\<lambda>v. v\<lparr>vm_end := end_of h z\<rparr>) h) h' (set (X @ q # Y))"
  shows "ranges h' (X @ q # Y)" "maps h' (set (X @ q # Y)) = maps h (set (X @ q # z # Y))"
    "covers h z p \<Longrightarrow> covers h' q p"
proof -
  have eq: "start_of h' a = start_of h a" "end_of h' a = ((end_of h)(q := end_of h z)) a" "flags_of h' a = flags_of h a"
    if "a \<in> set (X @ q # Y)" for a using info that by (auto simp: same_info_def)
  have ne: "q \<notin> set X" "q \<notin> set Y" using d by auto
  have oth: "start_of h' a = start_of h a" "end_of h' a = end_of h a" "flags_of h' a = flags_of h a" if "a \<in> set X \<union> set Y" for a
    using eq [of a] that ne by auto
  have q: "start_of h' q = start_of h q" "end_of h' q = end_of h z" "flags_of h' q = flags_of h q" using eq [of q] by simp_all
  have qz: "start_of h q < end_of h q" "start_of h z < end_of h z" using rg by (simp_all add: ranges_append ranges_Cons)
  have XY: "ranges h' X = ranges h X" "ranges h' Y = ranges h Y"
    using oth by (auto intro!: ranges_cong simp: same_info_def) (use info in \<open>auto simp: same_info_def\<close>)
  have "start_of h q < end_of h z" using qz adj by simp
  then show "ranges h' (X @ q # Y)"
    using rg XY q oth by (auto simp: ranges_append ranges_Cons)
  have cq: "covers h' q p \<longleftrightarrow> covers h q p \<or> covers h z p" for p
    using q adj qz by (auto simp: covers_def)
  then show "covers h z p \<Longrightarrow> covers h' q p" by simp
  have "maps h' (set X) = maps h (set X)" "maps h' (set Y) = maps h (set Y)"
    using oth by (auto simp: maps_def covers_def fun_eq_iff)
  then show "maps h' (set (X @ q # Y)) = maps h (set (X @ q # z # Y))"
    using cq q(3) fl by (auto simp: fun_eq_iff maps_Un maps_insert)
qed

lemma merge_into_next:
  assumes rg: "ranges h (X @ z # q # Y)" and d: "distinct (X @ z # q # Y)"
    and adj: "start_of h q = end_of h z" and fl: "flags_of h q = flags_of h z"
    and info: "same_info (hupd q (\<lambda>v. v\<lparr>vm_start := start_of h z\<rparr>) h) h' (set (X @ q # Y))"
  shows "ranges h' (X @ q # Y)" "maps h' (set (X @ q # Y)) = maps h (set (X @ z # q # Y))"
    "covers h z p \<Longrightarrow> covers h' q p"
proof -
  have eq: "end_of h' a = end_of h a" "start_of h' a = ((start_of h)(q := start_of h z)) a" "flags_of h' a = flags_of h a"
    if "a \<in> set (X @ q # Y)" for a using info that by (auto simp: same_info_def)
  have ne: "q \<notin> set X" "q \<notin> set Y" using d by auto
  have oth: "start_of h' a = start_of h a" "end_of h' a = end_of h a" "flags_of h' a = flags_of h a" if "a \<in> set X \<union> set Y" for a
    using eq [of a] that ne by auto
  have q: "start_of h' q = start_of h z" "end_of h' q = end_of h q" "flags_of h' q = flags_of h q" using eq [of q] by simp_all
  have qz: "start_of h q < end_of h q" "start_of h z < end_of h z" using rg by (simp_all add: ranges_append ranges_Cons)
  have XY: "ranges h' X = ranges h X" "ranges h' Y = ranges h Y"
    using oth by (auto intro!: ranges_cong simp: same_info_def) (use info in \<open>auto simp: same_info_def\<close>)
  have "start_of h z < end_of h q" using qz adj by simp
  then show "ranges h' (X @ q # Y)"
    using rg XY q oth by (auto simp: ranges_append ranges_Cons)
  have cq: "covers h' q p \<longleftrightarrow> covers h q p \<or> covers h z p" for p
    using q adj qz by (auto simp: covers_def)
  then show "covers h z p \<Longrightarrow> covers h' q p" by simp
  have "maps h' (set X) = maps h (set X)" "maps h' (set Y) = maps h (set Y)"
    using oth by (auto simp: maps_def covers_def fun_eq_iff)
  then show "maps h' (set (X @ q # Y)) = maps h (set (X @ z # q # Y))"
    using cq q(3) fl by (auto simp: fun_eq_iff maps_Un maps_insert)
qed

subsection \<open>The stages of the insertion of a page\<close>

definition good :: "('z st_scheme \<Rightarrow> bool) \<Rightarrow> ('z st_scheme \<Rightarrow> addr set) \<Rightarrow> 'z st_scheme \<Rightarrow> heap \<Rightarrow> addr \<Rightarrow>
    lock_t \<Rightarrow> addr tree \<Rightarrow> bool" where
  "good pinv live s h r l T \<longleftrightarrow> pinv (wst s h r l) \<and> wf_tab h r T \<and> set_tree T \<subseteq> live (wst s h r l) \<and>
     ranges h (inorder T) \<and> frame_n s \<noteq> NULL \<and> (\<forall>a \<in> set_tree T. lock_idle (openmp s) (lock_of h a))"

definition env_eq :: "'z st_scheme \<Rightarrow> 'z st_scheme \<Rightarrow> bool" where
  "env_eq s s' \<longleftrightarrow> openmp s' = openmp s \<and> OOC_PAGE_SIZE s' = OOC_PAGE_SIZE s \<and> frame_n s' = frame_n s"

lemma env_eq_refl [simp]: "env_eq s s"
  by (simp add: env_eq_def)

lemma env_eq_trans: "env_eq s s' \<Longrightarrow> env_eq s' s'' \<Longrightarrow> env_eq s s''"
  by (simp add: env_eq_def)

context vma_pool
begin

lemma stage_prefix:
  assumes g: "good pinv live s h z l (Node A z B)" and A: "A \<noteq> Leaf"
    and ok: "okf (wst s h z l) (live (wst s h z l) - {z}) z"
    and adj: "end_of h (fpv h z) = start_of h z" "flags_of h (fpv h z) = flags_of h z"
  shows "\<exists>s1 h1 J. prefix_merge vfree z (wst s h z l) = Inr (fpv h z, wst s1 h1 (fpv h z) l) \<and>
     good pinv live s1 h1 (fpv h z) l J \<and> fpv h z \<in> set_tree J \<and> set_tree J = set_tree A \<union> set_tree B \<and>
     maps h1 (set_tree J) = maps h (set_tree (Node A z B)) \<and> (\<forall>p. covers h z p \<longrightarrow> covers h1 (fpv h z) p) \<and>
     live (wst s1 h1 (fpv h z) l) = live (wst s h z l) - {z} \<and> env_eq s s1 \<and>
     le_on (okf (wst s h z l)) (okf (wst s1 h1 (fpv h z) l)) (live (wst s h z l) - {z})"
proof -
  let ?q = "fpv h z" and ?L = "live (wst s h z l)"
  from g have p: "pinv (wst s h z l)" and fr: "frame_n s \<noteq> NULL" and wf: "wf_tab h z (Node A z B)"
    and sub: "set_tree (Node A z B) \<subseteq> ?L" and rg: "ranges h (inorder (Node A z B))"
    and idle: "\<forall>a \<in> set_tree (Node A z B). lock_idle (openmp s) (lock_of h a)" by (simp_all add: good_def)
  obtain s1 h1 J where run: "prefix_merge vfree z (wst s h z l) = Inr (?q, wst s1 h1 ?q l)"
    and J: "wf_tab h1 ?q J" "inorder J = inorder A @ inorder B" "?q \<in> set_tree A" "?q = last0 NULL (inorder A)"
    and p1: "pinv (wst s1 h1 ?q l)" "live (wst s1 h1 ?q l) = ?L - {z}"
    and env: "openmp s1 = openmp s" "OOC_PAGE_SIZE s1 = OOC_PAGE_SIZE s" "frame_n s1 = frame_n s"
    and info: "same_info (hupd ?q (\<lambda>v. v\<lparr>vm_end := end_of h z\<rparr>) h) h1 (?L - {z})"
    and le: "le_on (okf (wst s h z l)) (okf (wst s1 h1 ?q l)) (?L - {z})"
    using prefix_merge_run [OF p fr wf sub _ ok A] idle by auto
  obtain X where X: "inorder A = X @ [?q]"
    using A J(4) by (metis append_butlast_last_id eq_inorder_Nil last0_snoc)
  have dist: "distinct (X @ ?q # z # inorder B)" using wf_tab_facts(1) [OF wf] X by simp
  have setJ: "set_tree J = set (X @ ?q # inorder B)" using J(2) X by (metis append.assoc append_Cons append_Nil set_inorder)
  have sub': "set (X @ ?q # inorder B) \<subseteq> ?L - {z}"
  proof -
    have "set (X @ ?q # inorder B) = set_tree A \<union> set_tree B"
      using X by (metis append.assoc append_Cons append_Nil set_append set_inorder)
    moreover have "z \<notin> set_tree A" "z \<notin> set_tree B" using wf_tab_facts(1) [OF wf] by auto
    ultimately show ?thesis using sub by auto
  qed
  have rg': "ranges h (X @ ?q # z # inorder B)" using rg X by simp
  note m = merge_into_prev [OF rg' dist adj same_info_mono [OF info sub']]
  have "inorder (Node A z B) = X @ ?q # z # inorder B" using X by simp
  then have setT: "set (X @ ?q # z # inorder B) = set_tree (Node A z B)" by (metis set_inorder)
  have "ranges h1 (inorder J)" using m(1) J(2) X by simp
  moreover have "\<forall>a \<in> set_tree J. lock_idle (openmp s1) (lock_of h1 a)"
  proof
    fix a assume "a \<in> set_tree J"
    then have a: "a \<in> ?L - {z}" "a \<in> set_tree (Node A z B)" using sub' setJ setT by auto
    then have "lock_of h1 a = lock_of h a" using info by (simp add: same_info_def)
    then show "lock_idle (openmp s1) (lock_of h1 a)" using bspec [OF idle a(2)] env by simp
  qed
  ultimately have "good pinv live s1 h1 ?q l J" using p1 J(1) setJ sub' env fr by (simp add: good_def)
  moreover have "maps h1 (set_tree J) = maps h (set_tree (Node A z B))" using m(2) setJ setT by simp
  moreover have "set_tree J = set_tree A \<union> set_tree B" using J(2) by (metis set_append set_inorder)
  ultimately show ?thesis using run J(3) p1(2) env le m(3)
    by (intro exI [of _ s1] exI [of _ h1] exI [of _ J]) (simp add: env_eq_def)
qed

lemma stage_suffix:
  assumes g: "good pinv live s h z l (Node A z B)" and B: "B \<noteq> Leaf"
    and ok: "okf (wst s h z l) (live (wst s h z l) - {z}) z"
    and adj: "start_of h (fnx h z) = end_of h z" "flags_of h (fnx h z) = flags_of h z"
  shows "\<exists>s1 h1 r1 J. suffix_merge vfree z (wst s h z l) = Inr (fnx h z, wst s1 h1 r1 l) \<and>
     good pinv live s1 h1 r1 l J \<and> fnx h z \<in> set_tree J \<and> set_tree J = set_tree A \<union> set_tree B \<and>
     maps h1 (set_tree J) = maps h (set_tree (Node A z B)) \<and> (\<forall>p. covers h z p \<longrightarrow> covers h1 (fnx h z) p) \<and>
     live (wst s1 h1 r1 l) = live (wst s h z l) - {z} \<and> env_eq s s1"
proof -
  let ?q = "fnx h z" and ?L = "live (wst s h z l)"
  from g have p: "pinv (wst s h z l)" and fr: "frame_n s \<noteq> NULL" and wf: "wf_tab h z (Node A z B)"
    and sub: "set_tree (Node A z B) \<subseteq> ?L" and rg: "ranges h (inorder (Node A z B))"
    and idle: "\<forall>a \<in> set_tree (Node A z B). lock_idle (openmp s) (lock_of h a)" by (simp_all add: good_def)
  obtain s1 h1 r1 J where run: "suffix_merge vfree z (wst s h z l) = Inr (?q, wst s1 h1 r1 l)"
    and J: "wf_tab h1 r1 J" "inorder J = inorder A @ inorder B" "?q \<in> set_tree B" "?q = hd0 (inorder B) NULL"
    and p1: "pinv (wst s1 h1 r1 l)" "live (wst s1 h1 r1 l) = ?L - {z}"
    and env: "openmp s1 = openmp s" "OOC_PAGE_SIZE s1 = OOC_PAGE_SIZE s" "frame_n s1 = frame_n s"
    and info: "same_info (hupd ?q (\<lambda>v. v\<lparr>vm_start := start_of h z\<rparr>) h) h1 (?L - {z})"
    using suffix_merge_run [OF p fr wf sub _ ok B] idle by auto
  obtain Y where Y: "inorder B = ?q # Y" using B J(4) by (cases "inorder B") auto
  have dist: "distinct (inorder A @ z # ?q # Y)" using wf_tab_facts(1) [OF wf] Y by simp
  have setJ: "set_tree J = set (inorder A @ ?q # Y)" using J(2) Y by (metis set_inorder)
  have sub': "set (inorder A @ ?q # Y) \<subseteq> ?L - {z}"
  proof -
    have "set (inorder A @ ?q # Y) = set_tree A \<union> set_tree B" using Y by (metis set_append set_inorder)
    moreover have "z \<notin> set_tree A" "z \<notin> set_tree B" using wf_tab_facts(1) [OF wf] by auto
    ultimately show ?thesis using sub by auto
  qed
  have rg': "ranges h (inorder A @ z # ?q # Y)" using rg Y by simp
  note m = merge_into_next [OF rg' dist adj same_info_mono [OF info sub']]
  have "inorder (Node A z B) = inorder A @ z # ?q # Y" using Y by simp
  then have setT: "set (inorder A @ z # ?q # Y) = set_tree (Node A z B)" by (metis set_inorder)
  have "ranges h1 (inorder J)" using m(1) J(2) Y by simp
  moreover have "\<forall>a \<in> set_tree J. lock_idle (openmp s1) (lock_of h1 a)"
  proof
    fix a assume "a \<in> set_tree J"
    then have a: "a \<in> ?L - {z}" "a \<in> set_tree (Node A z B)" using sub' setJ setT by auto
    then have "lock_of h1 a = lock_of h a" using info by (simp add: same_info_def)
    then show "lock_idle (openmp s1) (lock_of h1 a)" using bspec [OF idle a(2)] env by simp
  qed
  ultimately have "good pinv live s1 h1 r1 l J" using p1 J(1) setJ sub' env fr by (simp add: good_def)
  moreover have "maps h1 (set_tree J) = maps h (set_tree (Node A z B))" using m(2) setJ setT by simp
  moreover have "set_tree J = set_tree A \<union> set_tree B" using J(2) by (metis set_append set_inorder)
  ultimately show ?thesis using run J(3) p1(2) env m(3)
    by (intro exI [of _ s1] exI [of _ h1] exI [of _ r1] exI [of _ J]) (simp add: env_eq_def)
qed

end

subsection \<open>A page that no area holds\<close>

lemma stage_insert:
  assumes wf: "wf_tab h t (Node A t B)" and r: "r \<noteq> NULL"
    and z: "z \<in> dom h" "z \<noteq> NULL" "z \<notin> set_tree (Node A t B)" "fp h z = NULL"
    and ord: "start_of h t \<noteq> start_of h z" "\<forall>a \<in> set_tree A. start_of h a < start_of h z"
      "\<forall>a \<in> set_tree B. start_of h z < start_of h a"
  shows "\<exists>h' A' B'. S_sp_tree_insert_helper t z (wst s h r l) = Inr ((), wst s h' z l) \<and>
     wf_tab h' z (Node A' z B') \<and> inorder A' @ inorder B' = inorder A @ t # inorder B \<and>
     kept h (insert z (set_tree (Node A t B))) h'"
proof (cases "start_of h z < start_of h t")
  case True
  from insert_helper_lt [OF wf r z True ord(2), of s l] obtain h' where
    "S_sp_tree_insert_helper t z (wst s h r l) = Inr ((), wst s h' z l)"
    "wf_tab h' z (Node A z (Node Leaf t B))" "kept h (insert z (set_tree (Node A t B))) h'" by blast
  then show ?thesis by (intro exI [of _ h'] exI [of _ A] exI [of _ "Node Leaf t B"]) simp
next
  case False
  then have "start_of h t < start_of h z" using ord(1) by simp
  from insert_helper_gt [OF wf r z this ord(3), of s l] obtain h' where
    "S_sp_tree_insert_helper t z (wst s h r l) = Inr ((), wst s h' z l)"
    "wf_tab h' z (Node (Node A t Leaf) z B)" "kept h (insert z (set_tree (Node A t B))) h'" by blast
  then show ?thesis by (intro exI [of _ h'] exI [of _ "Node A t Leaf"] exI [of _ B]) simp
qed

text \<open>The addresses before and after a free page.\<close>

lemma free_page_split:
  assumes rg: "ranges h xs" and none: "\<forall>a \<in> set xs. \<not> covers h a x"
    and gap: "\<forall>a \<in> set xs. x < start_of h a \<longrightarrow> x + ps \<le> start_of h a" and a: "a \<in> set xs"
  shows "start_of h a < x \<Longrightarrow> end_of h a \<le> x" "x < start_of h a \<Longrightarrow> x + ps \<le> start_of h a" "start_of h a \<noteq> x"
proof -
  have "start_of h a < end_of h a" using rg a by (simp add: ranges_def)
  then show "start_of h a < x \<Longrightarrow> end_of h a \<le> x" "start_of h a \<noteq> x"
    using none a by (auto simp: covers_def not_less)
  show "x < start_of h a \<Longrightarrow> x + ps \<le> start_of h a" using gap a by simp
qed

lemma ranges_new_page:
  assumes rg: "ranges h (P @ Q)" and info: "same_info h h' (set (P @ Q))"
    and z: "start_of h' z = x" "end_of h' z = x + ps" "x < x + ps"
    and P: "\<forall>a \<in> set P. end_of h a \<le> x" and Q: "\<forall>a \<in> set Q. x + ps \<le> start_of h a"
  shows "ranges h' (P @ z # Q)"
proof -
  have "ranges h' (P @ Q)" using rg info ranges_cong by blast
  moreover have "\<forall>a \<in> set P. end_of h' a = end_of h a" "\<forall>a \<in> set Q. start_of h' a = start_of h a"
    using info by (auto simp: same_info_def)
  ultimately show ?thesis using z P Q by (auto simp: ranges_append ranges_Cons)
qed

context vma_pool
begin

lemma find_mod_insert_correct:
  assumes g: "pinv (wst s h r l)" "wf_tab h t (Node A t B)" "set_tree (Node A t B) \<subseteq> live (wst s h r l)"
      "ranges h (inorder (Node A t B))" "frame_n s \<noteq> NULL"
      "\<forall>a \<in> set_tree (Node A t B). lock_idle (openmp s) (lock_of h a)"
    and r: "r \<noteq> NULL" and av: "avail (wst s h r l)" "roomy (wst s h r l)"
    and okT: "\<forall>a \<in> set_tree (Node A t B). okf (wst s h r l) (live (wst s h r l) - {a}) a"
    and none: "\<forall>a \<in> set_tree (Node A t B). \<not> covers h a x"
    and split: "\<forall>a \<in> set_tree A. start_of h a < x" "\<forall>a \<in> set_tree B. x < start_of h a"
    and wrap: "x < x + OOC_PAGE_SIZE s"
    and gap: "\<forall>a \<in> set_tree (Node A t B). x < start_of h a \<longrightarrow> x + OOC_PAGE_SIZE s \<le> start_of h a"
  shows "\<exists>n s1 h1 r1 J. find_mod_insert valloc vfree x t (wst s h r l) = Inr (n, wst s1 h1 r1 l) \<and>
     good pinv live s1 h1 r1 l J \<and> n \<in> set_tree J \<and> env_eq s s1 \<and>
     (\<forall>p. x \<le> p \<and> p < x + OOC_PAGE_SIZE s \<longrightarrow> covers h1 n p) \<and>
     (\<forall>p f. maps h1 (set_tree J) p f \<longleftrightarrow>
        (if x \<le> p \<and> p < x + OOC_PAGE_SIZE s then f = VM_PROT_READ else maps h (set_tree (Node A t B)) p f))"
proof -
  let ?T = "Node A t B" and ?S = "wst s h r l" and ?ps = "OOC_PAGE_SIZE s"
  let ?L = "live ?S"
  obtain z s1 h1 where run1: "new_read_area valloc x ?S = Inr (z, wst s1 h1 r l)"
    and z: "z \<noteq> NULL" "z \<notin> ?L" "z \<in> dom h1" and p1: "pinv (wst s1 h1 r l)" and env1: "same_env ?S (wst s1 h1 r l)"
    and lv1: "live (wst s1 h1 r l) = insert z ?L" and eq1: "\<forall>a \<in> ?L. h1 a = h a"
    and zf: "start_of h1 z = x" "end_of h1 z = x + ?ps" "flags_of h1 z = VM_PROT_READ" "lock_idle (openmp s) (lock_of h1 z)"
      "fp h1 z = NULL"
    and le1: "le_on (okf ?S) (okf (wst s1 h1 r l)) ?L" and okz: "okf (wst s1 h1 r l) ?L z"
    using new_read_area_run [OF g(1) av(1), of x] av(2) by blast
  have e1: "env_eq s s1" using env1 by (simp add: env_eq_def same_env_def)
  have wf1: "wf_tab h1 t ?T" using g(2) by (rule wf_tab_cong) (use eq1 g(3) in blast)
  have info1: "same_info h h1 (set_tree ?T)" by (rule same_info_eq) (use eq1 g(3) in blast)
  have zT: "z \<notin> set_tree ?T" using z(2) g(3) by blast
  have st1: "start_of h1 a = start_of h a" if "a \<in> set_tree ?T" for a by (rule same_infoD(1) [OF info1 that])
  note fps = free_page_split [OF g(4), unfolded set_inorder, OF none gap]
  have ord1: "start_of h1 t \<noteq> start_of h1 z" "\<forall>a\<in>set_tree A. start_of h1 a < start_of h1 z"
    "\<forall>a\<in>set_tree B. start_of h1 z < start_of h1 a"
    using split fps(3) [of t] st1 zf(1) by auto
  obtain h2 A1 B1 where run2: "S_sp_tree_insert_helper t z (wst s1 h1 r l) = Inr ((), wst s1 h2 z l)"
    and wf2: "wf_tab h2 z (Node A1 z B1)" and io: "inorder A1 @ inorder B1 = inorder A @ t # inorder B"
    and k2: "kept h1 (insert z (set_tree ?T)) h2"
    using stage_insert [OF wf1 r z(3,1) zT zf(5) ord1, of s1 l] by blast
  have "set (inorder A1 @ inorder B1) = set (inorder ?T)" using io by simp
  then have setAB: "set_tree A1 \<union> set_tree B1 = set_tree ?T" by simp
  have k2v: "start_of h2 = start_of h1" "end_of h2 = end_of h1" "flags_of h2 = flags_of h1" "lock_of h2 = lock_of h1"
    using k2 by (simp_all add: kept_def)
  have info2: "same_info h h2 (set_tree ?T)" using info1 k2v by (simp add: same_info_def)
  have zf2: "start_of h2 z = x" "end_of h2 z = x + ?ps" "flags_of h2 z = VM_PROT_READ" "lock_idle (openmp s) (lock_of h2 z)"
    using zf k2v by simp_all
  have srt2: "\<forall>a \<in> set_tree A1. start_of h a < x" "\<forall>a \<in> set_tree B1. x < start_of h a"
  proof -
    have "sorted_by (start_of h2) (inorder A1 @ z # inorder B1)" using wf2 by (simp add: wf_tab_def)
    then have "\<forall>a \<in> set_tree A1. start_of h2 a < x" "\<forall>a \<in> set_tree B1. x < start_of h2 a"
      using zf2(1) by (auto simp: sorted_wrt_append)
    moreover have "start_of h2 a = start_of h a" if "a \<in> set_tree A1 \<union> set_tree B1" for a
      using that unfolding setAB by (rule same_infoD(1) [OF info2])
    ultimately show "\<forall>a \<in> set_tree A1. start_of h a < x" "\<forall>a \<in> set_tree B1. x < start_of h a" by simp_all
  qed
  have rg2: "ranges h2 (inorder A1 @ z # inorder B1)"
  proof (rule ranges_new_page [where h = h and x = x and ps = ?ps])
    show "ranges h (inorder A1 @ inorder B1)" using g(4) io by simp
    show "same_info h h2 (set (inorder A1 @ inorder B1))" using info2 setAB by simp
    show "\<forall>a\<in>set (inorder A1). end_of h a \<le> x" using srt2(1) setAB fps(1) by (metis UnCI set_inorder)
    show "\<forall>a\<in>set (inorder B1). x + ?ps \<le> start_of h a" using srt2(2) setAB fps(2) by (metis UnCI set_inorder)
  qed (use zf2 wrap in simp_all)
  have sub2: "insert z (set_tree ?T) \<subseteq> live (wst s1 h1 r l)" using g(3) lv1 by blast
  have "kept (vmas (wst s1 h1 r l)) (insert z (set_tree ?T)) h2" using k2 by simp
  note pk = pool_kept [OF p1 this sub2, of z l, simplified]
  have idle2: "\<forall>a \<in> set_tree (Node A1 z B1). lock_idle (openmp s1) (lock_of h2 a)"
  proof
    fix a assume "a \<in> set_tree (Node A1 z B1)"
    then consider "a = z" | "a \<in> set_tree ?T" using setAB by auto
    then show "lock_idle (openmp s1) (lock_of h2 a)"
    proof cases
      case 2
      then show ?thesis using same_infoD(4) [OF info2 2] bspec [OF g(6) 2] e1 by (simp add: env_eq_def)
    qed (use zf2(4) e1 in \<open>simp add: env_eq_def\<close>)
  qed
  have good2: "good pinv live s1 h2 z l (Node A1 z B1)"
    using pk wf2 rg2 idle2 sub2 setAB e1 g(5) by (auto simp: good_def env_eq_def)
  have covz: "covers h2 z p \<longleftrightarrow> x \<le> p \<and> p < x + ?ps" for p using zf2 by (simp add: covers_def)
  have maps2: "maps h2 (set_tree (Node A1 z B1)) p f \<longleftrightarrow>
        (if x \<le> p \<and> p < x + ?ps then f = VM_PROT_READ else maps h (set_tree ?T) p f)" for p f
  proof -
    have "maps h2 (set_tree ?T) = maps h (set_tree ?T)" using info2 by (rule maps_cong)
    moreover have "\<not> maps h (set_tree ?T) p f" if "x \<le> p" "p < x + ?ps" for p f
    proof
      assume "maps h (set_tree ?T) p f"
      then obtain a where a: "a \<in> set_tree ?T" "covers h a p" by (auto simp: maps_def)
      then show False using fps [OF a(1)] that by (cases "start_of h a" x rule: linorder_cases) (auto simp: covers_def)
    qed
    moreover have "set_tree (Node A1 z B1) = insert z (set_tree ?T)" using setAB by auto
    ultimately show ?thesis using covz zf2(3) by (auto simp: maps_insert)
  qed
  have lv2: "live (wst s1 h2 z l) = insert z ?L" using pk lv1 by simp
  have ok2: "okf (wst s1 h2 z l) = okf (wst s1 h1 r l)" using pk by simp
  have okz2: "okf (wst s1 h2 z l) (live (wst s1 h2 z l) - {z}) z" using okz lv2 ok2 z(2) by simp
  have dz: "z \<in> dom h2" "z \<noteq> NULL" using z kept_dom [OF k2] by simp_all
  have nbp: "fpv h2 z = NULL \<or> fpv h2 z \<in> dom h2" "fnx h2 z = NULL \<or> fnx h2 z \<in> dom h2"
    using wf_tab_links [OF wf2, of z] wf2 by (auto simp: wf_tab_def)
  define b where "b \<longleftrightarrow> fpv h2 z \<noteq> NULL \<and> end_of h2 (fpv h2 z) = start_of h2 z \<and> flags_of h2 (fpv h2 z) = flags_of h2 z"
  have runb: "mergeable_prev z (get_field vm_flags z) (wst s1 h2 z l) = Inr (b, wst s1 h2 z l)"
    unfolding b_def by (rule mergeable_prev_w) (use dz nbp in simp_all)
  text \<open>After the first merge, or without it.\<close>
  have "\<exists>n s3 h3 A3 B3. (if b then prefix_merge vfree z else ret z) (wst s1 h2 z l) = Inr (n, wst s3 h3 n l) \<and>
     good pinv live s3 h3 n l (Node A3 n B3) \<and> env_eq s s3 \<and> (\<forall>p. covers h2 z p \<longrightarrow> covers h3 n p) \<and>
     maps h3 (set_tree (Node A3 n B3)) = maps h2 (set_tree (Node A1 z B1)) \<and>
     okf (wst s3 h3 n l) (live (wst s3 h3 n l) - {n}) n"
  proof (cases b)
    case False
    then show ?thesis using good2 e1 okz2 by (intro exI [of _ z] exI [of _ s1] exI [of _ h2] exI [of _ A1] exI [of _ B1]) simp
  next
    case True
    have A1: "A1 \<noteq> Leaf" using True wf_tab_neighbours(1) [OF wf2] by (auto simp: b_def)
    let ?q = "fpv h2 z"
    obtain s3 h3 J where run3: "prefix_merge vfree z (wst s1 h2 z l) = Inr (?q, wst s3 h3 ?q l)"
      and good3: "good pinv live s3 h3 ?q l J" and q: "?q \<in> set_tree J" "set_tree J = set_tree A1 \<union> set_tree B1"
      and m3: "maps h3 (set_tree J) = maps h2 (set_tree (Node A1 z B1))" "\<forall>p. covers h2 z p \<longrightarrow> covers h3 ?q p"
      and lv3: "live (wst s3 h3 ?q l) = live (wst s1 h2 z l) - {z}" and e3: "env_eq s1 s3"
      and le3: "le_on (okf (wst s1 h2 z l)) (okf (wst s3 h3 ?q l)) (live (wst s1 h2 z l) - {z})"
      using stage_prefix [OF good2 A1 okz2] True by (auto simp: b_def)
    have "wf_tab h3 ?q J" using good3 by (simp add: good_def)
    then obtain A3 B3 where J: "J = Node A3 ?q B3" using q(1) by (cases J) (auto simp: wf_tab_def)
    have qT: "?q \<in> set_tree ?T" using q setAB by simp
    then have qL: "?q \<in> ?L" using g(3) by blast
    have "okf ?S (?L - {?q}) ?q" using okT qT by blast
    then have "okf (wst s1 h2 z l) (?L - {?q}) ?q" using le_onD [OF le1 _ qL] ok2 by auto
    moreover have "live (wst s1 h2 z l) - {z} = ?L" using lv2 z(2) by auto
    ultimately have "okf (wst s3 h3 ?q l) (live (wst s3 h3 ?q l) - {?q}) ?q"
      using le_onD [OF le3, of "?L - {?q}" ?q] lv3 qL by auto
    then show ?thesis using True run3 good3 m3 env_eq_trans [OF e1 e3] unfolding J
      by (intro exI [of _ ?q] exI [of _ s3] exI [of _ h3] exI [of _ A3] exI [of _ B3]) simp
  qed
  then obtain n s3 h3 A3 B3 where run3: "(if b then prefix_merge vfree z else ret z) (wst s1 h2 z l) = Inr (n, wst s3 h3 n l)"
    and good3: "good pinv live s3 h3 n l (Node A3 n B3)" and e3: "env_eq s s3"
    and cov3: "\<forall>p. covers h2 z p \<longrightarrow> covers h3 n p"
    and maps3: "maps h3 (set_tree (Node A3 n B3)) = maps h2 (set_tree (Node A1 z B1))"
    and ok3: "okf (wst s3 h3 n l) (live (wst s3 h3 n l) - {n}) n" by blast
  have wf3: "wf_tab h3 n (Node A3 n B3)" using good3 by (simp add: good_def)
  have dn: "n \<in> dom h3" "n \<noteq> NULL" "fnx h3 n = NULL \<or> fnx h3 n \<in> dom h3"
    using wf_tab_links [OF wf3, of n] wf3 by (auto simp: wf_tab_def)
  define c where "c \<longleftrightarrow> fnx h3 n \<noteq> NULL \<and> start_of h3 (fnx h3 n) = end_of h3 n \<and> flags_of h3 (fnx h3 n) = flags_of h3 n"
  have runc: "mergeable_next n (get_field vm_flags n) (wst s3 h3 n l) = Inr (c, wst s3 h3 n l)"
    unfolding c_def by (rule mergeable_next_w) (use dn in simp_all)
  have "\<exists>n' s4 h4 r4 J. (if c then suffix_merge vfree n else ret n) (wst s3 h3 n l) = Inr (n', wst s4 h4 r4 l) \<and>
     good pinv live s4 h4 r4 l J \<and> n' \<in> set_tree J \<and> env_eq s s4 \<and> (\<forall>p. covers h3 n p \<longrightarrow> covers h4 n' p) \<and>
     maps h4 (set_tree J) = maps h3 (set_tree (Node A3 n B3))"
  proof (cases c)
    case False
    then show ?thesis using good3 e3
      by (intro exI [of _ n] exI [of _ s3] exI [of _ h3] exI [of _ n] exI [of _ "Node A3 n B3"]) simp
  next
    case True
    have B3: "B3 \<noteq> Leaf" using True wf_tab_neighbours(2) [OF wf3] by (auto simp: c_def)
    obtain s4 h4 r4 J where "suffix_merge vfree n (wst s3 h3 n l) = Inr (fnx h3 n, wst s4 h4 r4 l)"
      "good pinv live s4 h4 r4 l J" "fnx h3 n \<in> set_tree J"
      "maps h4 (set_tree J) = maps h3 (set_tree (Node A3 n B3))" "\<forall>p. covers h3 n p \<longrightarrow> covers h4 (fnx h3 n) p"
      "env_eq s3 s4"
      using stage_suffix [OF good3 B3 ok3] True by (auto simp: c_def)
    then show ?thesis using True env_eq_trans [OF e3]
      by (intro exI [of _ "fnx h3 n"] exI [of _ s4] exI [of _ h4] exI [of _ r4] exI [of _ J]) simp
  qed
  then obtain n' s4 h4 r4 J where run4: "(if c then suffix_merge vfree n else ret n) (wst s3 h3 n l) = Inr (n', wst s4 h4 r4 l)"
    and good4: "good pinv live s4 h4 r4 l J" and n': "n' \<in> set_tree J" and e4: "env_eq s s4"
    and cov4: "\<forall>p. covers h3 n p \<longrightarrow> covers h4 n' p"
    and maps4: "maps h4 (set_tree J) = maps h3 (set_tree (Node A3 n B3))" by blast
  have run: "find_mod_insert valloc vfree x t ?S = Inr (n', wst s4 h4 r4 l)"
    using run1 run2 runb run3 runc run4 by (simp add: find_mod_insert_def bnd_def)
  have mp: "maps h4 (set_tree J) = maps h2 (set_tree (Node A1 z B1))" using maps3 maps4 by simp
  show ?thesis using run good4 n' e4 cov3 cov4 covz maps2
    by (intro exI [of _ n'] exI [of _ s4] exI [of _ h4] exI [of _ r4] exI [of _ J]) (simp add: mp)
qed

end

subsection \<open>Finding the area of the page\<close>

lemma find_mod_locate_w:
  assumes wf: "wf_tab h t (Node A t B)" and rg: "ranges h (inorder (Node A t B))"
    and nb: "\<forall>a \<in> set_tree A. start_of h a < x" "\<forall>a \<in> set_tree B. x < start_of h a"
  shows "\<exists>n. find_mod_locate x t (wst s h r l) = Inr (n, wst s h r l) \<and>
     (\<forall>a \<in> set_tree (Node A t B). covers h a x \<longrightarrow> n = a) \<and>
     (n \<noteq> NULL \<longrightarrow> n \<in> set_tree (Node A t B) \<and> covers h n x)"
proof -
  note lk = wf_tab_links [OF wf, of t, simplified]
  have pd: "fpv h t \<noteq> NULL \<Longrightarrow> fpv h t \<in> dom h \<and> fpv h t \<in> set_tree (Node A t B)"
    using lk(2) wf by (auto simp: wf_tab_def)
  have rg': "ranges h (inorder A @ t # inorder B)" using rg by simp
  have only: "a = t \<or> a = fpv h t" if "a \<in> set_tree (Node A t B)" "covers h a x" for a
  proof (cases "start_of h t \<le> x")
    case True
    then show ?thesis using locate_root [OF rg' _ that(2) True] that(1) nb by simp
  next
    case False
    then show ?thesis using locate_prev [OF rg' _ that(2)] that(1) nb wf_tab_neighbours(1) [OF wf] by simp
  qed
  show ?thesis
  proof (cases "covers h t x")
    case True
    have "find_mod_locate x t (wst s h r l) = Inr (t, wst s h r l)"
      using lk(5,6) True by (simp add: find_mod_locate_def andp_def bnd_def covers_def)
    moreover have "a = t" if "a \<in> set_tree (Node A t B)" "covers h a x" for a
      using covers_unique [OF rg _ _ that(2) True] that(1) by simp
    ultimately show ?thesis using True by (intro exI [of _ t]) auto
  next
    case False
    define n where "n = (if fpv h t \<noteq> NULL \<and> covers h (fpv h t) x then fpv h t else NULL)"
    have "find_mod_locate x t (wst s h r l) = Inr (n, wst s h r l)"
      using lk(5,6) False pd
      by (cases "fpv h t = NULL") (auto simp: find_mod_locate_def andp_def bnd_def covers_def n_def)
    moreover have "n = a" if "a \<in> set_tree (Node A t B)" "covers h a x" for a
    proof -
      have "a = fpv h t" using only [OF that] that(2) False by auto
      moreover have "a \<noteq> NULL" using that(1) wf_tab_facts(2) [OF wf] by metis
      ultimately show ?thesis using that(2) by (simp add: n_def)
    qed
    moreover have "n \<noteq> NULL \<Longrightarrow> n \<in> set_tree (Node A t B) \<and> covers h n x" using pd by (auto simp: n_def split: if_splits)
    ultimately show ?thesis by blast
  qed
qed

subsection \<open>The contract\<close>

text \<open>
  \<open>fault_pre\<close>: a well-formed table of areas that consist of whole pages, none of them locked,
  and a page \<open>[x, x + OOC_PAGE_SIZE)\<close>. \<open>fault_post\<close>: the result \<open>n\<close> is the area of that page,
  locked, and the protection of the page, and of nothing else, has become \<open>f'\<close>.
\<close>

definition fault_pre :: "('z st_scheme \<Rightarrow> bool) \<Rightarrow> ('z st_scheme \<Rightarrow> addr set) \<Rightarrow>
    ('z st_scheme \<Rightarrow> addr set \<Rightarrow> addr \<Rightarrow> bool) \<Rightarrow> 'z st_scheme \<Rightarrow> addr tree \<Rightarrow> addr \<Rightarrow> bool" where
  "fault_pre pinv live okf s T x \<longleftrightarrow> tab s T \<and> pinv s \<and> set_tree T \<subseteq> live s \<and> ranges (vmas s) (inorder T) \<and>
     idle_areas s (set_tree T) \<and> (\<forall>a \<in> set_tree T. okf s (live s - {a}) a) \<and>
     x < x + OOC_PAGE_SIZE s \<and>
     (\<forall>a \<in> set_tree T. (x < start_of (vmas s) a \<longrightarrow> x + OOC_PAGE_SIZE s \<le> start_of (vmas s) a) \<and>
        (covers (vmas s) a x \<longrightarrow> x + OOC_PAGE_SIZE s \<le> end_of (vmas s) a))"

definition fault_post :: "('z st_scheme \<Rightarrow> bool) \<Rightarrow> ('z st_scheme \<Rightarrow> addr set) \<Rightarrow>
    'z st_scheme \<Rightarrow> addr tree \<Rightarrow> addr \<Rightarrow> 64 word \<Rightarrow> addr \<Rightarrow> 'z st_scheme \<Rightarrow> addr tree \<Rightarrow> bool" where
  "fault_post pinv live s T x f' n s' T' \<longleftrightarrow> tab s' T' \<and> pinv s' \<and> set_tree T' \<subseteq> live s' \<and>
     ranges (vmas s') (inorder T') \<and> env_eq s s' \<and> n \<in> set_tree T' \<and>
     lock_held (openmp s) (lock_of (vmas s') n) \<and> idle_areas s' (set_tree T' - {n}) \<and>
     (\<forall>p. x \<le> p \<and> p < x + OOC_PAGE_SIZE s \<longrightarrow> covers (vmas s') n p) \<and>
     (\<forall>p f. maps (vmas s') (set_tree T') p f \<longleftrightarrow>
        (if x \<le> p \<and> p < x + OOC_PAGE_SIZE s then f = f' else maps (vmas s) (set_tree T) p f))"

context vma_pool
begin

text \<open>The end of the operation: the area found is locked and the tree released.\<close>

lemma find_mod_finish:
  assumes g: "good pinv live s1 h1 r1 (got (openmp s) l) J" and n: "n \<in> set_tree J" and e: "env_eq s s1"
    and l: "lock_idle (openmp s) l"
    and cov: "\<forall>p. x \<le> p \<and> p < x + OOC_PAGE_SIZE s \<longrightarrow> covers h1 n p"
    and mp: "\<forall>p f. maps h1 (set_tree J) p f \<longleftrightarrow>
        (if x \<le> p \<and> p < x + OOC_PAGE_SIZE s then f = f' else maps (vmas s) (set_tree T) p f)"
  shows "\<exists>s'. bnd (upd_lock lock_get n) (\<lambda>_. bnd (upd_tree_lock lock_let) (\<lambda>_. ret n))
       (wst s1 h1 r1 (got (openmp s) l)) = Inr (n, s') \<and> fault_post pinv live s T x f' n s' J"
proof -
  let ?g = "got (openmp s) l"
  from g have p: "pinv (wst s1 h1 r1 ?g)" and wf: "wf_tab h1 r1 J" and sub: "set_tree J \<subseteq> live (wst s1 h1 r1 ?g)"
    and rg: "ranges h1 (inorder J)" and fr: "frame_n s1 \<noteq> NULL"
    and idle: "\<forall>a \<in> set_tree J. lock_idle (openmp s1) (lock_of h1 a)" by (simp_all add: good_def)
  have omp: "openmp s1 = openmp s" using e by (simp add: env_eq_def)
  have nd: "n \<in> dom h1" "n \<noteq> NULL" using wf_tab_links(5,6) [OF wf n] by auto
  define k where "k = got (openmp s) (lock_of h1 n)"
  define h2 where "h2 = hupd n (\<lambda>v. v\<lparr>vm_lock := k\<rparr>) h1"
  define s' where "s' = wst s1 h2 r1 l"
  have run: "bnd (upd_lock lock_get n) (\<lambda>_. bnd (upd_tree_lock lock_let) (\<lambda>_. ret n)) (wst s1 h1 r1 ?g) = Inr (n, s')"
    using nd bspec [OF idle n] omp l by (simp add: bnd_def s'_def h2_def k_def released_got)
  have nL: "n \<in> live (wst s1 h1 r1 ?g)" using sub n by blast
  have p2: "pinv s'" "live s' = live (wst s1 h1 r1 ?g)"
    unfolding s'_def h2_def by (rule pool_hupd [OF p nL])+
  have wf2: "wf_tab h2 r1 J" unfolding h2_def using wf by (rule wf_tab_lock)
  have v: "start_of h2 = start_of h1" "end_of h2 = end_of h1" "flags_of h2 = flags_of h1" "lock_of h2 = (lock_of h1)(n := k)"
    by (simp_all add: h2_def)
  have cv: "covers h2 = covers h1" using v by (simp add: covers_def fun_eq_iff)
  have vm: "vmas s' = h2" by (simp add: s'_def)
  have "h2 (frame_n s1) = None" using pool_mem [OF p2(1)] by (simp add: s'_def)
  then have "tab s' J" using wf2 fr l omp by (simp add: tab_def s'_def)
  moreover have "ranges h2 (inorder J)" using rg v by (simp add: ranges_def)
  moreover have "env_eq s s'" using e by (simp add: env_eq_def s'_def)
  moreover have "lock_held (openmp s) (lock_of h2 n)" by (simp add: v k_def)
  moreover have "idle_areas s' (set_tree J - {n})" using idle v omp by (simp add: idle_areas_def s'_def)
  moreover have "maps h2 (set_tree J) = maps h1 (set_tree J)" using cv v by (simp add: maps_def fun_eq_iff)
  ultimately show ?thesis using run p2 sub n cov mp
    by (intro exI [of _ s']) (simp add: fault_post_def vm cv)
qed

text \<open>The beginning: lock the tree, splay, locate.\<close>

lemma find_mod_start:
  assumes pre: "fault_pre pinv live okf s T x" and ne: "T \<noteq> Leaf"
  defines "h \<equiv> vmas s" and "g \<equiv> got (openmp s) (lock (vma_tree s))" and "r \<equiv> root (vma_tree s)"
  shows "\<exists>h1 A t B n. sp_tree_find_mod_and_lock valloc vfree x s =
       bnd (find_mod_dispatch valloc vfree x t n) (\<lambda>n. bnd (upd_lock lock_get n) (\<lambda>_. bnd (upd_tree_lock lock_let) (\<lambda>_. ret n)))
         (wst s h1 r g) \<and> r \<noteq> NULL \<and> splay (start_of h) x T = Node A t B \<and>
     good pinv live s h1 t g (Node A t B) \<and> kept h (set_tree T) h1 \<and> set_tree (Node A t B) = set_tree T \<and>
     inorder T = inorder A @ t # inorder B \<and>
     (\<forall>a \<in> set_tree A. start_of h a < x) \<and> (\<forall>a \<in> set_tree B. x < start_of h a) \<and>
     (\<forall>a \<in> set_tree T. covers h a x \<longrightarrow> n = a) \<and> (n \<noteq> NULL \<longrightarrow> n \<in> set_tree T \<and> covers h n x) \<and>
     live (wst s h1 r g) = live s \<and> avail (wst s h1 r g) = avail s \<and> okf (wst s h1 r g) = okf s \<and>
     roomy (wst s h1 r g) = roomy s \<and> pinv (wst s h1 r g)"
proof -
  from pre have t: "tab s T" and p: "pinv s" "set_tree T \<subseteq> live s" and rg: "ranges h (inorder T)"
    and idle: "idle_areas s (set_tree T)" by (simp_all add: fault_pre_def h_def)
  obtain h1 A t1 B where spl: "splay (start_of h) x T = Node A t1 B" and wf1: "wf_tab h1 t1 (Node A t1 B)"
    and k: "kept h (set_tree T) h1" and lk: "upd_tree_lock lock_get s = Inr ((), wst s h r g)"
    and rn: "r \<noteq> NULL" and run1: "S_sp_tree_splay x r (wst s h r g) = Inr (t1, wst s h1 r g)"
    and nb: "\<forall>b \<in> set_tree A. start_of h b < x" "\<forall>b \<in> set_tree B. x < start_of h b"
    and io: "inorder T = inorder A @ t1 # inorder B"
    using find_prologue [OF t ne, of x] by (auto simp: h_def g_def r_def)
  have v: "start_of h1 = start_of h" "end_of h1 = end_of h" "lock_of h1 = lock_of h" using k by (simp_all add: kept_def)
  have cv: "covers h1 = covers h" using v by (simp add: covers_def fun_eq_iff)
  have rg1: "ranges h1 (inorder (Node A t1 B))" using rg v io by (simp add: ranges_def)
  have set: "set_tree (Node A t1 B) = set_tree T" by (metis spl set_splay)
  have nb1: "\<forall>a\<in>set_tree A. start_of h1 a < x" "\<forall>a\<in>set_tree B. x < start_of h1 a" using nb v by simp_all
  obtain n where loc: "find_mod_locate x t1 (wst s h1 r g) = Inr (n, wst s h1 r g)"
    and n: "\<forall>a \<in> set_tree T. covers h a x \<longrightarrow> n = a" "n \<noteq> NULL \<longrightarrow> n \<in> set_tree T \<and> covers h n x"
    using find_mod_locate_w [OF wf1 rg1 nb1, of s r g] unfolding set cv by blast
  have run: "sp_tree_find_mod_and_lock valloc vfree x s =
       bnd (find_mod_dispatch valloc vfree x t1 n) (\<lambda>n. bnd (upd_lock lock_get n) (\<lambda>_. bnd (upd_tree_lock lock_let) (\<lambda>_. ret n)))
         (wst s h1 r g)"
    using rn run1 loc by (simp add: sp_tree_find_mod_and_lock_def bnd_def lk)
  have "kept (vmas s) (set_tree T) h1" using k by (simp add: h_def)
  note pk = pool_kept [OF p(1) this p(2)]
  have "good pinv live s h1 t1 g (Node A t1 B)"
    using pk [of t1 g] wf1 rg1 p(2) set t idle v(3) unfolding good_def set
    by (simp add: tab_def idle_areas_def h_def)
  with run rn spl k set nb n pk [of r g] io show ?thesis
    by (intro exI [of _ h1] exI [of _ A] exI [of _ t1] exI [of _ B] exI [of _ n]) simp
qed

text \<open>A page that no area holds becomes readable, merged with its neighbours where possible.\<close>

lemma find_mod_absent:
  assumes pre: "fault_pre pinv live okf s T x" and av: "avail s" "roomy s" and ne: "T \<noteq> Leaf"
    and none: "\<forall>a \<in> set_tree T. \<not> covers (vmas s) a x"
  shows "\<exists>n s' T'. sp_tree_find_mod_and_lock valloc vfree x s = Inr (n, s') \<and>
     fault_post pinv live s T x VM_PROT_READ n s' T'"
proof -
  define h where "h = vmas s"
  define g where "g = got (openmp s) (lock (vma_tree s))"
  define r where "r = root (vma_tree s)"
  obtain h1 A t B n where run: "sp_tree_find_mod_and_lock valloc vfree x s =
       bnd (find_mod_dispatch valloc vfree x t n) (\<lambda>n. bnd (upd_lock lock_get n) (\<lambda>_. bnd (upd_tree_lock lock_let) (\<lambda>_. ret n)))
         (wst s h1 r g)" and r: "r \<noteq> NULL"
    and gd: "good pinv live s h1 t g (Node A t B)" and k: "kept h (set_tree T) h1" and set: "set_tree (Node A t B) = set_tree T"
    and nb: "\<forall>a \<in> set_tree A. start_of h a < x" "\<forall>a \<in> set_tree B. x < start_of h a"
    and n: "n \<noteq> NULL \<longrightarrow> n \<in> set_tree T \<and> covers h n x"
    and pk: "live (wst s h1 r g) = live s" "avail (wst s h1 r g) = avail s" "okf (wst s h1 r g) = okf s"
     "roomy (wst s h1 r g) = roomy s" "pinv (wst s h1 r g)"
    using find_mod_start [OF pre ne] unfolding h_def [symmetric] g_def [symmetric] r_def [symmetric] by blast
  have v: "start_of h1 = start_of h" "end_of h1 = end_of h" "flags_of h1 = flags_of h" using k by (simp_all add: kept_def)
  have n0: "n = NULL" using n none by (auto simp: h_def)
  have cv: "covers h1 = covers h" using v by (simp add: covers_def fun_eq_iff)
  have gd': "wf_tab h1 t (Node A t B)" "ranges h1 (inorder (Node A t B))" "frame_n s \<noteq> NULL"
      "\<forall>a \<in> set_tree (Node A t B). lock_idle (openmp s) (lock_of h1 a)" using gd unfolding good_def by blast+
  have "\<exists>n s1 h2 r1 J. find_mod_insert valloc vfree x t (wst s h1 r g) = Inr (n, wst s1 h2 r1 g) \<and>
     good pinv live s1 h2 r1 g J \<and> n \<in> set_tree J \<and> env_eq s s1 \<and>
     (\<forall>p. x \<le> p \<and> p < x + OOC_PAGE_SIZE s \<longrightarrow> covers h2 n p) \<and>
     (\<forall>p f. maps h2 (set_tree J) p f \<longleftrightarrow>
        (if x \<le> p \<and> p < x + OOC_PAGE_SIZE s then f = VM_PROT_READ else maps h1 (set_tree (Node A t B)) p f))"
  proof (rule find_mod_insert_correct [OF pk(5) gd'(1) _ gd'(2-4) r])
    show "set_tree (Node A t B) \<subseteq> live (wst s h1 r g)" unfolding set pk using pre by (simp add: fault_pre_def)
    show "\<forall>a\<in>set_tree (Node A t B). okf (wst s h1 r g) (live (wst s h1 r g) - {a}) a"
      unfolding set pk using pre by (simp add: fault_pre_def)
    show "\<forall>a\<in>set_tree (Node A t B). \<not> covers h1 a x" unfolding set cv using none by (simp add: h_def)
    show "\<forall>a\<in>set_tree (Node A t B). x < start_of h1 a \<longrightarrow> x + OOC_PAGE_SIZE s \<le> start_of h1 a"
      unfolding set v using pre by (simp add: fault_pre_def h_def)
  qed (use av pk nb v pre in \<open>simp_all add: fault_pre_def\<close>)
  then obtain n' s1 h2 r1 J where run2: "find_mod_insert valloc vfree x t (wst s h1 r g) = Inr (n', wst s1 h2 r1 g)"
    and gd2: "good pinv live s1 h2 r1 g J" and n': "n' \<in> set_tree J" and e: "env_eq s s1"
    and cov: "\<forall>p. x \<le> p \<and> p < x + OOC_PAGE_SIZE s \<longrightarrow> covers h2 n' p"
    and mp: "\<forall>p f. maps h2 (set_tree J) p f \<longleftrightarrow>
        (if x \<le> p \<and> p < x + OOC_PAGE_SIZE s then f = VM_PROT_READ else maps h1 (set_tree (Node A t B)) p f)"
    by blast
  have mh: "maps h1 (set_tree (Node A t B)) = maps (vmas s) (set_tree T)"
    unfolding set using cv v by (simp add: maps_def fun_eq_iff h_def)
  have mp': "\<forall>p f. maps h2 (set_tree J) p f \<longleftrightarrow>
        (if x \<le> p \<and> p < x + OOC_PAGE_SIZE s then f = VM_PROT_READ else maps (vmas s) (set_tree T) p f)"
    using mp unfolding mh .
  have idle: "lock_idle (openmp s) (lock (vma_tree s))" using pre by (simp add: fault_pre_def tab_def)
  from find_mod_finish [OF gd2 [unfolded g_def] n' e idle cov mp']
  obtain s' where "bnd (upd_lock lock_get n') (\<lambda>_. bnd (upd_tree_lock lock_let) (\<lambda>_. ret n')) (wst s1 h2 r1 g) = Inr (n', s')"
    "fault_post pinv live s T x VM_PROT_READ n' s' J" unfolding g_def by blast
  moreover from this have "sp_tree_find_mod_and_lock valloc vfree x s = Inr (n', s')"
    unfolding run using run2 n0 by (simp add: find_mod_dispatch_def bnd_def [of "find_mod_insert v f x t" for v f x t])
  ultimately show ?thesis by blast
qed

end
end
