(* ===== verification/Vma_Alloc.thy ===== *)
theory Vma_Alloc
  imports Common
begin

section \<open>vma\_alloc.c: the allocator of areas\<close>

text \<open>
  Models \<open>src/src/vma_alloc.c\<close> (lines 96-711). A superblock is 256 KiB from the system, cut
  into 63 blocks of 4 KiB after a header page; a block holds 56 areas after its header. The
  process has one list of superblocks with free blocks (\<open>S_gpool\<close>), every thread a list of
  blocks with free areas (\<open>S_mpool\<close>); the free areas of a block are linked by \<open>vm_next\<close>.
  Sizes are those of an LP64 platform with a lock of four bytes: \<open>sizeof(struct block)\<close> is 64
  and \<open>sizeof(struct vm_area)\<close> is 72. The system allocator is a parameter: \<open>os_alloc A n\<close>
  is the result of the call number \<open>n\<close> of \<open>posix_memalign\<close> when the superblocks in \<open>A\<close> are
  allocated (NULL is a failure), and \<open>os_vma\<close>, \<open>os_blk\<close>, \<open>os_sb\<close> what fresh memory
  happens to contain.
  Areas, blocks and superblocks are objects with a type: a pointer to anything else is the error \<open>BadPtr\<close>, where the code
  would go on with the bytes that it finds there.
\<close>

subsection \<open>Constants and data\<close>

definition BLOCK_SIZE :: "64 word" where "BLOCK_SIZE = 4096"
definition SUPERBLOCK_SIZE :: "64 word" where "SUPERBLOCK_SIZE = 262144"
definition sizeof_block :: "64 word" where "sizeof_block = 64"
definition sizeof_vm_area :: "64 word" where "sizeof_vm_area = 72"

definition BLOCK_CTR_FULL :: "64 word" where
  "BLOCK_CTR_FULL = (BLOCK_SIZE - sizeof_block) div sizeof_vm_area"

definition SUPERBLOCK_CTR_FULL :: "64 word" where
  "SUPERBLOCK_CTR_FULL = (SUPERBLOCK_SIZE - BLOCK_SIZE) div BLOCK_SIZE"

record block =
  b_vctr :: "64 word"
  b_lctr :: "64 word"
  b_lock :: lock_t
  b_head :: addr
  b_superblock :: addr
  b_mpool :: addr
  b_prev :: addr
  b_next :: addr

record superblock =
  sb_bctr :: "64 word"
  sb_lctr :: "64 word"
  sb_blctr :: "64 word"
  sb_lock :: lock_t
  sb_head :: addr
  sb_prev :: addr
  sb_next :: addr

record mpool =
  mp_lctr :: "64 word"
  mp_lock :: lock_t
  mp_head :: addr

record gpool =
  gp_actr :: "64 word"
  gp_lctr :: "64 word"
  gp_mlctr :: "64 word"
  gp_blctr :: "64 word"
  gp_slctr :: "64 word"
  gp_lock :: lock_t
  gp_head :: addr

text \<open>
  The thread-local variables \<open>S_init\<close> and \<open>S_mpool\<close> of a thread are found under the address of
  its \<open>S_mpool\<close>; \<open>self\<close> is the address of the running thread's.
\<close>

record ast = st +
  blocks :: "addr \<rightharpoonup> block"
  superblocks :: "addr \<rightharpoonup> superblock"
  mpools :: "addr \<rightharpoonup> mpool"
  S_init :: "addr \<Rightarrow> int"
  self :: addr
  S_gpool :: gpool
  os_alloc :: "addr set \<Rightarrow> nat \<Rightarrow> addr"
  os_calls :: nat
  os_vma :: "addr \<Rightarrow> vm_area"
  os_blk :: "addr \<Rightarrow> block"
  os_sb :: "addr \<Rightarrow> superblock"

subsection \<open>Access to the objects\<close>

definition rd_blk :: "addr \<Rightarrow> ('y ast_scheme, block) prog" where
  "rd_blk p s = (if p = NULL then Inl NullDeref
     else case blocks s p of None \<Rightarrow> Inl (BadPtr p) | Some b \<Rightarrow> Inr (b, s))"

definition wr_blk :: "addr \<Rightarrow> block \<Rightarrow> ('y ast_scheme, unit) prog" where
  "wr_blk p b = modify (\<lambda>s. s\<lparr>blocks := (blocks s)(p \<mapsto> b)\<rparr>)"

definition upd_blk :: "addr \<Rightarrow> (block \<Rightarrow> block) \<Rightarrow> ('y ast_scheme, unit) prog" where
  "upd_blk p f = bnd (rd_blk p) (\<lambda>b. wr_blk p (f b))"

definition rd_sb :: "addr \<Rightarrow> ('y ast_scheme, superblock) prog" where
  "rd_sb p s = (if p = NULL then Inl NullDeref
     else case superblocks s p of None \<Rightarrow> Inl (BadPtr p) | Some b \<Rightarrow> Inr (b, s))"

definition wr_sb :: "addr \<Rightarrow> superblock \<Rightarrow> ('y ast_scheme, unit) prog" where
  "wr_sb p b = modify (\<lambda>s. s\<lparr>superblocks := (superblocks s)(p \<mapsto> b)\<rparr>)"

definition upd_sb :: "addr \<Rightarrow> (superblock \<Rightarrow> superblock) \<Rightarrow> ('y ast_scheme, unit) prog" where
  "upd_sb p f = bnd (rd_sb p) (\<lambda>b. wr_sb p (f b))"

definition rd_mp :: "addr \<Rightarrow> ('y ast_scheme, mpool) prog" where
  "rd_mp p s = (if p = NULL then Inl NullDeref
     else case mpools s p of None \<Rightarrow> Inl (BadPtr p) | Some b \<Rightarrow> Inr (b, s))"

definition wr_mp :: "addr \<Rightarrow> mpool \<Rightarrow> ('y ast_scheme, unit) prog" where
  "wr_mp p b = modify (\<lambda>s. s\<lparr>mpools := (mpools s)(p \<mapsto> b)\<rparr>)"

definition upd_mp :: "addr \<Rightarrow> (mpool \<Rightarrow> mpool) \<Rightarrow> ('y ast_scheme, unit) prog" where
  "upd_mp p f = bnd (rd_mp p) (\<lambda>b. wr_mp p (f b))"

definition get_blk :: "(block \<Rightarrow> 'a) \<Rightarrow> addr \<Rightarrow> ('y ast_scheme, 'a) prog" where
  "get_blk f p = bnd (rd_blk p) (\<lambda>b. ret (f b))"

definition get_sb :: "(superblock \<Rightarrow> 'a) \<Rightarrow> addr \<Rightarrow> ('y ast_scheme, 'a) prog" where
  "get_sb f p = bnd (rd_sb p) (\<lambda>b. ret (f b))"

definition get_mp :: "(mpool \<Rightarrow> 'a) \<Rightarrow> addr \<Rightarrow> ('y ast_scheme, 'a) prog" where
  "get_mp f p = bnd (rd_mp p) (\<lambda>b. ret (f b))"

definition get_gp :: "(gpool \<Rightarrow> 'a) \<Rightarrow> ('y ast_scheme, 'a) prog" where
  "get_gp f = gets (\<lambda>s. f (S_gpool s))"

definition upd_gp :: "(gpool \<Rightarrow> gpool) \<Rightarrow> ('y ast_scheme, unit) prog" where
  "upd_gp f = modify (\<lambda>s. s\<lparr>S_gpool := f (S_gpool s)\<rparr>)"

subsection \<open>LOCK\_GET and LOCK\_LET\<close>

text \<open>\<open>LOCK_GET\<close> counts a contention when the lock is not free, and then waits for it.\<close>

definition LOCK_GET :: "bool \<Rightarrow> lock_t \<times> 64 word \<Rightarrow> error + (lock_t \<times> 64 word)" where
  "LOCK_GET omp = (\<lambda>(l, ctr).
     case lock_try omp l of
       Inl e \<Rightarrow> Inl e
     | Inr (n, l') \<Rightarrow>
         if n \<noteq> 0 then
           (case lock_get omp l' of Inl e \<Rightarrow> Inl e | Inr l'' \<Rightarrow> Inr (l'', ctr + 1))
         else Inr (l', ctr))"

definition liftE :: "error + 'a \<Rightarrow> ('s, 'a) prog" where
  "liftE r s = (case r of Inl e \<Rightarrow> Inl e | Inr x \<Rightarrow> Inr (x, s))"

definition blk_LOCK_GET :: "addr \<Rightarrow> ('y ast_scheme, unit) prog" where
  "blk_LOCK_GET p = bnd (rd_blk p) (\<lambda>b. bnd (gets openmp) (\<lambda>omp.
     bnd (liftE (LOCK_GET omp (b_lock b, b_lctr b))) (\<lambda>(l, c). wr_blk p (b\<lparr>b_lock := l, b_lctr := c\<rparr>))))"

definition blk_with_lock :: "(bool \<Rightarrow> lock_t \<Rightarrow> error + lock_t) \<Rightarrow> addr \<Rightarrow> ('y ast_scheme, unit) prog" where
  "blk_with_lock op p = bnd (rd_blk p) (\<lambda>b. bnd (gets openmp) (\<lambda>omp.
     bnd (liftE (op omp (b_lock b))) (\<lambda>l. wr_blk p (b\<lparr>b_lock := l\<rparr>))))"

abbreviation blk_LOCK_LET :: "addr \<Rightarrow> ('y ast_scheme, unit) prog" where
  "blk_LOCK_LET \<equiv> blk_with_lock lock_let"

definition sb_LOCK_GET :: "addr \<Rightarrow> ('y ast_scheme, unit) prog" where
  "sb_LOCK_GET p = bnd (rd_sb p) (\<lambda>b. bnd (gets openmp) (\<lambda>omp.
     bnd (liftE (LOCK_GET omp (sb_lock b, sb_lctr b))) (\<lambda>(l, c). wr_sb p (b\<lparr>sb_lock := l, sb_lctr := c\<rparr>))))"

definition sb_with_lock :: "(bool \<Rightarrow> lock_t \<Rightarrow> error + lock_t) \<Rightarrow> addr \<Rightarrow> ('y ast_scheme, unit) prog" where
  "sb_with_lock op p = bnd (rd_sb p) (\<lambda>b. bnd (gets openmp) (\<lambda>omp.
     bnd (liftE (op omp (sb_lock b))) (\<lambda>l. wr_sb p (b\<lparr>sb_lock := l\<rparr>))))"

abbreviation sb_LOCK_LET :: "addr \<Rightarrow> ('y ast_scheme, unit) prog" where
  "sb_LOCK_LET \<equiv> sb_with_lock lock_let"

definition mp_LOCK_GET :: "addr \<Rightarrow> ('y ast_scheme, unit) prog" where
  "mp_LOCK_GET p = bnd (rd_mp p) (\<lambda>b. bnd (gets openmp) (\<lambda>omp.
     bnd (liftE (LOCK_GET omp (mp_lock b, mp_lctr b))) (\<lambda>(l, c). wr_mp p (b\<lparr>mp_lock := l, mp_lctr := c\<rparr>))))"

definition mp_with_lock :: "(bool \<Rightarrow> lock_t \<Rightarrow> error + lock_t) \<Rightarrow> addr \<Rightarrow> ('y ast_scheme, unit) prog" where
  "mp_with_lock op p = bnd (rd_mp p) (\<lambda>b. bnd (gets openmp) (\<lambda>omp.
     bnd (liftE (op omp (mp_lock b))) (\<lambda>l. wr_mp p (b\<lparr>mp_lock := l\<rparr>))))"

abbreviation mp_LOCK_LET :: "addr \<Rightarrow> ('y ast_scheme, unit) prog" where
  "mp_LOCK_LET \<equiv> mp_with_lock lock_let"

definition gp_LOCK_GET :: "('y ast_scheme, unit) prog" where
  "gp_LOCK_GET = bnd (get_gp (\<lambda>g. (gp_lock g, gp_lctr g))) (\<lambda>lc. bnd (gets openmp) (\<lambda>omp.
     bnd (liftE (LOCK_GET omp lc)) (\<lambda>(l, c). upd_gp (\<lambda>g. g\<lparr>gp_lock := l, gp_lctr := c\<rparr>))))"

definition gp_with_lock :: "(bool \<Rightarrow> lock_t \<Rightarrow> error + lock_t) \<Rightarrow> ('y ast_scheme, unit) prog" where
  "gp_with_lock op = bnd (get_gp gp_lock) (\<lambda>l. bnd (gets openmp) (\<lambda>omp.
     bnd (liftE (op omp l)) (\<lambda>l. upd_gp (\<lambda>g. g\<lparr>gp_lock := l\<rparr>))))"

abbreviation gp_LOCK_LET :: "('y ast_scheme, unit) prog" where
  "gp_LOCK_LET \<equiv> gp_with_lock lock_let"

subsection \<open>Where the objects of a superblock lie\<close>

definition block_at :: "addr \<Rightarrow> addr \<Rightarrow> bool" where
  "block_at p a \<longleftrightarrow> (let d = a - p in d mod BLOCK_SIZE = 0 \<and> 0 < d \<and> d < SUPERBLOCK_SIZE)"

definition vma_at :: "addr \<Rightarrow> addr \<Rightarrow> bool" where
  "vma_at p a \<longleftrightarrow> (let d = a - p; e = d mod BLOCK_SIZE in
     BLOCK_SIZE \<le> d \<and> d < SUPERBLOCK_SIZE \<and> sizeof_block \<le> e \<and>
     (e - sizeof_block) mod sizeof_vm_area = 0 \<and> e + sizeof_vm_area \<le> BLOCK_SIZE)"

text \<open>\<open>CALL_SYS_ALLOC(superblock, SUPERBLOCK_SIZE)\<close>: fresh memory, with arbitrary contents.\<close>

definition CALL_SYS_ALLOC :: "('y ast_scheme, addr) prog" where
  "CALL_SYS_ALLOC s =
     (let p = os_alloc s (dom (superblocks s)) (os_calls s); s = s\<lparr>os_calls := Suc (os_calls s)\<rparr>
      in if p = NULL then Inr (NULL, s)
         else Inr (p, s\<lparr>
                superblocks := (superblocks s)(p \<mapsto> os_sb s p),
                blocks := (\<lambda>a. if block_at p a then Some (os_blk s a) else blocks s a),
                vmas := (\<lambda>a. if vma_at p a then Some (os_vma s a) else vmas s a)\<rparr>))"

text \<open>\<open>CALL_SYS_FREE\<close>: the objects in the memory are gone.\<close>

definition CALL_SYS_FREE :: "addr \<Rightarrow> ('y ast_scheme, unit) prog" where
  "CALL_SYS_FREE p = modify (\<lambda>s. s\<lparr>
     superblocks := (superblocks s)(p := None),
     blocks := (\<lambda>a. if block_at p a then None else blocks s a),
     vmas := (\<lambda>a. if vma_at p a then None else vmas s a)\<rparr>)"

definition S_block_2superblock :: "addr \<Rightarrow> ('y ast_scheme, addr) prog" where
  "S_block_2superblock block = get_blk b_superblock block"

definition S_vma_2block :: "addr \<Rightarrow> addr" where
  "S_vma_2block vma = vma AND NOT (BLOCK_SIZE - 1)"

subsection \<open>Superblocks\<close>

definition setup_vmas :: "addr \<Rightarrow> ('y ast_scheme, addr) prog" where
  "setup_vmas vma =
     for_each [0..<unat BLOCK_CTR_FULL - 1] (\<lambda>j vma.
       bnd (upd_vma vma (\<lambda>v. v\<lparr>vm_next := vma + sizeof_vm_area\<rparr>)) (\<lambda>_.
       get_field vm_next vma)) vma"

definition setup_block :: "addr \<Rightarrow> nat \<Rightarrow> addr \<Rightarrow> ('y ast_scheme, addr) prog" where
  "setup_block superblock i block =
     bnd (upd_blk block (\<lambda>b. b\<lparr>b_vctr := 0\<rparr>)) (\<lambda>_.
     bnd (upd_blk block (\<lambda>b. b\<lparr>b_lctr := 0\<rparr>)) (\<lambda>_.
     bnd (upd_blk block (\<lambda>b. b\<lparr>b_superblock := superblock\<rparr>)) (\<lambda>_.
     bnd (upd_blk block (\<lambda>b. b\<lparr>b_head := block + sizeof_block\<rparr>)) (\<lambda>_.
     bnd (if unat SUPERBLOCK_CTR_FULL - 1 = i then upd_blk block (\<lambda>b. b\<lparr>b_next := NULL\<rparr>)
          else
            bnd (upd_blk block (\<lambda>b. b\<lparr>b_next := block + BLOCK_SIZE\<rparr>)) (\<lambda>_.
            bnd (get_blk b_next block) (\<lambda>n. upd_blk n (\<lambda>b. b\<lparr>b_prev := block\<rparr>)))) (\<lambda>_.
     bnd (blk_with_lock lock_init block) (\<lambda>_.
     bnd (get_blk b_head block) (\<lambda>vma.
     bnd (setup_vmas vma) (\<lambda>vma.
     bnd (upd_vma vma (\<lambda>v. v\<lparr>vm_next := NULL\<rparr>)) (\<lambda>_.
     get_blk b_next block)))))))))"

definition S_superblock_list_setup :: "addr \<Rightarrow> ('y ast_scheme, unit) prog" where
  "S_superblock_list_setup superblock =
     bnd (upd_sb superblock (\<lambda>b. b\<lparr>sb_head := superblock + BLOCK_SIZE\<rparr>)) (\<lambda>_.
     bnd (get_sb sb_head superblock) (\<lambda>block.
     bnd (upd_blk block (\<lambda>b. b\<lparr>b_prev := NULL\<rparr>)) (\<lambda>_.
     bnd (for_each [0..<unat SUPERBLOCK_CTR_FULL] (setup_block superblock) block) (\<lambda>_. ret ()))))"

definition destroy_block :: "addr \<Rightarrow> nat \<Rightarrow> addr \<Rightarrow> ('y ast_scheme, addr) prog" where
  "destroy_block superblock i block =
     bnd (upd_blk block (\<lambda>b. b\<lparr>b_head := block + sizeof_block\<rparr>)) (\<lambda>_.
     bnd (if unat SUPERBLOCK_CTR_FULL - 1 = i then upd_blk block (\<lambda>b. b\<lparr>b_next := NULL\<rparr>)
          else upd_blk block (\<lambda>b. b\<lparr>b_next := block + BLOCK_SIZE\<rparr>)) (\<lambda>_.
     bnd (blk_with_lock lock_free block) (\<lambda>_.
     bnd (get_blk b_lctr block) (\<lambda>c.
     bnd (upd_sb superblock (\<lambda>b. b\<lparr>sb_blctr := sb_blctr b + c\<rparr>)) (\<lambda>_.
     get_blk b_next block)))))"

definition S_superblock_list_destroy :: "addr \<Rightarrow> ('y ast_scheme, unit) prog" where
  "S_superblock_list_destroy superblock =
     bnd (upd_sb superblock (\<lambda>b. b\<lparr>sb_head := superblock + BLOCK_SIZE\<rparr>)) (\<lambda>_.
     bnd (get_sb sb_head superblock) (\<lambda>block.
     bnd (for_each [0..<unat SUPERBLOCK_CTR_FULL] (destroy_block superblock) block) (\<lambda>_. ret ())))"

definition S_superblock_get_and_lock :: "('y ast_scheme, addr) prog" where
  "S_superblock_get_and_lock =
     bnd (get_gp gp_head) (\<lambda>superblock.
     bnd (if superblock = NULL then
            bnd CALL_SYS_ALLOC (\<lambda>superblock.
            if superblock = NULL then ret NULL
            else
              bnd (upd_gp (\<lambda>g. g\<lparr>gp_actr := gp_actr g + 1\<rparr>)) (\<lambda>_.
              bnd (upd_gp (\<lambda>g. g\<lparr>gp_head := superblock\<rparr>)) (\<lambda>_.
              bnd (upd_sb superblock (\<lambda>b. b\<lparr>sb_prev := NULL\<rparr>)) (\<lambda>_.
              bnd (upd_sb superblock (\<lambda>b. b\<lparr>sb_next := NULL\<rparr>)) (\<lambda>_.
              bnd (upd_sb superblock (\<lambda>b. b\<lparr>sb_bctr := 0\<rparr>)) (\<lambda>_.
              bnd (upd_sb superblock (\<lambda>b. b\<lparr>sb_lctr := 0\<rparr>)) (\<lambda>_.
              bnd (upd_sb superblock (\<lambda>b. b\<lparr>sb_blctr := 0\<rparr>)) (\<lambda>_.
              bnd (sb_with_lock lock_init superblock) (\<lambda>_.
              bnd (S_superblock_list_setup superblock) (\<lambda>_. ret superblock))))))))))
          else ret superblock) (\<lambda>superblock.
     if superblock = NULL then ret NULL
     else bnd (sb_LOCK_GET superblock) (\<lambda>_. ret superblock)))"

definition S_superblock_unlock_and_put :: "addr \<Rightarrow> ('y ast_scheme, unit) prog" where
  "S_superblock_unlock_and_put superblock =
     bnd gp_LOCK_GET (\<lambda>_.
     bnd (get_gp gp_head) (\<lambda>h.
     bnd (if h = superblock then
            bnd (get_sb sb_next superblock) (\<lambda>n. upd_gp (\<lambda>g. g\<lparr>gp_head := n\<rparr>))
          else
            bnd (get_sb sb_prev superblock) (\<lambda>p.
            bnd (get_sb sb_next superblock) (\<lambda>n. upd_sb p (\<lambda>b. b\<lparr>sb_next := n\<rparr>)))) (\<lambda>_.
     bnd (get_sb sb_next superblock) (\<lambda>n.
     bnd (whenp (n \<noteq> NULL)
           (bnd (get_sb sb_prev superblock) (\<lambda>p. upd_sb n (\<lambda>b. b\<lparr>sb_prev := p\<rparr>)))) (\<lambda>_.
     bnd gp_LOCK_LET (\<lambda>_.
     bnd (sb_LOCK_LET superblock) (\<lambda>_.
     bnd (sb_with_lock lock_free superblock) (\<lambda>_.
     bnd (S_superblock_list_destroy superblock) (\<lambda>_.
     bnd gp_LOCK_GET (\<lambda>_.
     bnd (get_sb sb_blctr superblock) (\<lambda>c.
     bnd (upd_gp (\<lambda>g. g\<lparr>gp_blctr := gp_blctr g + c\<rparr>)) (\<lambda>_.
     bnd (get_sb sb_lctr superblock) (\<lambda>c.
     bnd (upd_gp (\<lambda>g. g\<lparr>gp_slctr := gp_slctr g + c\<rparr>)) (\<lambda>_.
     bnd gp_LOCK_LET (\<lambda>_.
     CALL_SYS_FREE superblock)))))))))))))))"

subsection \<open>Blocks\<close>

definition S_block_steal_and_lock :: "('y ast_scheme, addr) prog" where
  "S_block_steal_and_lock =
     bnd gp_LOCK_GET (\<lambda>_.
     bnd S_superblock_get_and_lock (\<lambda>superblock.
     if superblock = NULL then bnd gp_LOCK_LET (\<lambda>_. ret NULL)
     else
       bnd (get_sb sb_head superblock) (\<lambda>block.
       bnd (blk_LOCK_GET block) (\<lambda>_.
       bnd (get_blk b_next block) (\<lambda>n.
       bnd (upd_sb superblock (\<lambda>b. b\<lparr>sb_head := n\<rparr>)) (\<lambda>_.
       bnd (get_blk b_next block) (\<lambda>n.
       bnd (whenp (n \<noteq> NULL)
             (bnd (get_blk b_prev block) (\<lambda>p. upd_blk n (\<lambda>b. b\<lparr>b_prev := p\<rparr>)))) (\<lambda>_.
       bnd (upd_sb superblock (\<lambda>b. b\<lparr>sb_bctr := sb_bctr b + 1\<rparr>)) (\<lambda>_.
       bnd (get_sb sb_head superblock) (\<lambda>h.
       bnd (whenp (h = NULL)
             (bnd (get_sb sb_next superblock) (\<lambda>n.
              bnd (upd_gp (\<lambda>g. g\<lparr>gp_head := n\<rparr>)) (\<lambda>_.
              bnd (whenp (n \<noteq> NULL)
                    (bnd (get_sb sb_prev superblock) (\<lambda>p. upd_sb n (\<lambda>b. b\<lparr>sb_prev := p\<rparr>)))) (\<lambda>_.
              bnd (get_sb sb_bctr superblock) (\<lambda>c. assertion (SUPERBLOCK_CTR_FULL = c))))))) (\<lambda>_.
       bnd (sb_LOCK_LET superblock) (\<lambda>_.
       bnd gp_LOCK_LET (\<lambda>_. ret block)))))))))))))"

text \<open>
  The return of a block in two parts: lines 453-473, up to the point where the locks of the
  superblock and of the block are released, and the rest. The result says whether the
  superblock has no used block left.
\<close>

definition return_to_superblock :: "addr \<Rightarrow> ('y ast_scheme, addr) prog" where
  "return_to_superblock block =
     bnd (S_block_2superblock block) (\<lambda>superblock.
     bnd (sb_LOCK_GET superblock) (\<lambda>_.
     bnd (get_sb sb_head superblock) (\<lambda>h.
     bnd (upd_blk block (\<lambda>b. b\<lparr>b_next := h\<rparr>)) (\<lambda>_.
     bnd (get_blk b_next block) (\<lambda>n.
     bnd (whenp (n \<noteq> NULL) (upd_blk n (\<lambda>b. b\<lparr>b_prev := block\<rparr>))) (\<lambda>_.
     bnd (upd_sb superblock (\<lambda>b. b\<lparr>sb_head := block\<rparr>)) (\<lambda>_.
     bnd (upd_sb superblock (\<lambda>b. b\<lparr>sb_bctr := sb_bctr b - 1\<rparr>)) (\<lambda>_. ret superblock))))))))"

definition S_block_unlock_and_return :: "addr \<Rightarrow> ('y ast_scheme, unit) prog" where
  "S_block_unlock_and_return block =
     bnd (return_to_superblock block) (\<lambda>superblock.
     bnd (get_sb sb_bctr superblock) (\<lambda>c.
     if c = 0 then
       bnd (sb_LOCK_LET superblock) (\<lambda>_.
       bnd (blk_LOCK_LET block) (\<lambda>_.
       S_superblock_unlock_and_put superblock))
     else
       bnd (get_blk b_next block) (\<lambda>n.
       bnd (whenp (n = NULL)
             (bnd gp_LOCK_GET (\<lambda>_.
              bnd (get_gp gp_head) (\<lambda>h.
              bnd (upd_sb superblock (\<lambda>b. b\<lparr>sb_next := h\<rparr>)) (\<lambda>_.
              bnd (whenp (h \<noteq> NULL) (upd_sb h (\<lambda>b. b\<lparr>sb_prev := superblock\<rparr>))) (\<lambda>_.
              bnd (upd_gp (\<lambda>g. g\<lparr>gp_head := superblock\<rparr>)) (\<lambda>_.
              bnd gp_LOCK_LET (\<lambda>_.
              bnd (get_sb sb_bctr superblock) (\<lambda>c. assertion (SUPERBLOCK_CTR_FULL - 1 = c)))))))))) (\<lambda>_.
       bnd (sb_LOCK_LET superblock) (\<lambda>_.
       blk_LOCK_LET block)))))"

subsection \<open>vma\_alloc and vma\_free\<close>

definition init_mpool :: "('y ast_scheme, unit) prog" where
  "init_mpool =
     bnd (gets self) (\<lambda>me. bnd (gets (\<lambda>s. S_init s me)) (\<lambda>i.
     whenp (i = 0)
       (bnd (modify (\<lambda>s. s\<lparr>S_init := (S_init s)(me := 1)\<rparr>)) (\<lambda>_.
        bnd (upd_mp me (\<lambda>m. m\<lparr>mp_lctr := 0\<rparr>)) (\<lambda>_.
        bnd (mp_with_lock lock_init me) (\<lambda>_.
        upd_mp me (\<lambda>m. m\<lparr>mp_head := NULL\<rparr>)))))))"

text \<open>Taking an area from the block, which is locked together with the pool.\<close>

definition take_vma :: "addr \<Rightarrow> addr \<Rightarrow> ('y ast_scheme, addr) prog" where
  "take_vma me block =
     bnd (get_blk b_head block) (\<lambda>vma.
     bnd (get_field vm_next vma) (\<lambda>n.
     bnd (upd_blk block (\<lambda>b. b\<lparr>b_head := n\<rparr>)) (\<lambda>_.
     bnd (upd_blk block (\<lambda>b. b\<lparr>b_vctr := b_vctr b + 1\<rparr>)) (\<lambda>_.
     bnd (get_blk b_head block) (\<lambda>h.
     bnd (whenp (h = NULL)
           (bnd (get_blk b_next block) (\<lambda>n.
            bnd (upd_mp me (\<lambda>m. m\<lparr>mp_head := n\<rparr>)) (\<lambda>_.
            bnd (whenp (n \<noteq> NULL)
                  (bnd (get_blk b_prev block) (\<lambda>p. upd_blk n (\<lambda>b. b\<lparr>b_prev := p\<rparr>)))) (\<lambda>_.
            bnd (get_blk b_vctr block) (\<lambda>c. assertion (BLOCK_CTR_FULL = c))))))) (\<lambda>_.
     bnd (mp_LOCK_LET me) (\<lambda>_.
     bnd (blk_LOCK_LET block) (\<lambda>_. ret vma))))))))"

definition vma_alloc :: "('y ast_scheme, addr) prog" where
  "vma_alloc =
     bnd init_mpool (\<lambda>_.
     bnd (gets self) (\<lambda>me.
     bnd (get_mp mp_head me) (\<lambda>block.
     if block = NULL then
       bnd S_block_steal_and_lock (\<lambda>block.
       if block = NULL then ret NULL
       else
         bnd (mp_LOCK_GET me) (\<lambda>_.
         bnd (upd_mp me (\<lambda>m. m\<lparr>mp_head := block\<rparr>)) (\<lambda>_.
         bnd (upd_blk block (\<lambda>b. b\<lparr>b_prev := NULL\<rparr>)) (\<lambda>_.
         bnd (upd_blk block (\<lambda>b. b\<lparr>b_next := NULL\<rparr>)) (\<lambda>_.
         bnd (upd_blk block (\<lambda>b. b\<lparr>b_mpool := me\<rparr>)) (\<lambda>_.
         take_vma me block))))))
     else
       bnd (blk_LOCK_GET block) (\<lambda>_.
       bnd (mp_LOCK_GET me) (\<lambda>_.
       take_vma me block)))))"

definition vma_free :: "addr \<Rightarrow> ('y ast_scheme, unit) prog" where
  "vma_free vma =
     (let block = S_vma_2block vma in
     bnd (blk_LOCK_GET block) (\<lambda>_.
     bnd (get_blk b_head block) (\<lambda>h.
     bnd (upd_vma vma (\<lambda>v. v\<lparr>vm_next := h\<rparr>)) (\<lambda>_.
     bnd (upd_blk block (\<lambda>b. b\<lparr>b_head := vma\<rparr>)) (\<lambda>_.
     bnd (upd_blk block (\<lambda>b. b\<lparr>b_vctr := b_vctr b - 1\<rparr>)) (\<lambda>_.
     bnd (get_blk b_vctr block) (\<lambda>c.
     bnd (get_blk b_mpool block) (\<lambda>m.
     if c = 0 then
       bnd (mp_LOCK_GET m) (\<lambda>_.
       bnd (get_mp mp_head m) (\<lambda>h.
       bnd (get_blk b_next block) (\<lambda>n.
       bnd (if h = block then upd_mp m (\<lambda>x. x\<lparr>mp_head := n\<rparr>)
            else bnd (get_blk b_prev block) (\<lambda>p. upd_blk p (\<lambda>b. b\<lparr>b_next := n\<rparr>))) (\<lambda>_.
       bnd (whenp (n \<noteq> NULL)
             (bnd (get_blk b_prev block) (\<lambda>p. upd_blk n (\<lambda>b. b\<lparr>b_prev := p\<rparr>)))) (\<lambda>_.
       bnd (mp_LOCK_LET m) (\<lambda>_.
       S_block_unlock_and_return block))))))
     else
       bnd (get_field vm_next vma) (\<lambda>n.
       bnd (whenp (n = NULL)
             (bnd (mp_LOCK_GET m) (\<lambda>_.
              bnd (get_mp mp_head m) (\<lambda>h.
              bnd (upd_blk block (\<lambda>b. b\<lparr>b_next := h\<rparr>)) (\<lambda>_.
              bnd (whenp (h \<noteq> NULL) (upd_blk h (\<lambda>b. b\<lparr>b_prev := block\<rparr>))) (\<lambda>_.
              bnd (upd_mp m (\<lambda>x. x\<lparr>mp_head := block\<rparr>)) (\<lambda>_.
              bnd (mp_LOCK_LET m) (\<lambda>_.
              bnd (get_blk b_vctr block) (\<lambda>c. assertion (BLOCK_CTR_FULL - 1 = c)))))))))) (\<lambda>_.
       blk_LOCK_LET block))))))))))"

subsection \<open>The global pool\<close>

definition vma_gpool_init :: "('y ast_scheme, unit) prog" where
  "vma_gpool_init =
     bnd (upd_gp (\<lambda>g. g\<lparr>gp_actr := 0\<rparr>)) (\<lambda>_.
     bnd (upd_gp (\<lambda>g. g\<lparr>gp_blctr := 0\<rparr>)) (\<lambda>_.
     bnd (upd_gp (\<lambda>g. g\<lparr>gp_slctr := 0\<rparr>)) (\<lambda>_.
     bnd (upd_gp (\<lambda>g. g\<lparr>gp_mlctr := 0\<rparr>)) (\<lambda>_.
     bnd (upd_gp (\<lambda>g. g\<lparr>gp_lctr := 0\<rparr>)) (\<lambda>_.
     gp_with_lock lock_init)))))"

definition vma_gpool_free :: "('y ast_scheme, unit) prog" where
  "vma_gpool_free = gp_with_lock lock_free"

definition vma_gpool_gather :: "('y ast_scheme, unit) prog" where
  "vma_gpool_gather =
     bnd gp_LOCK_GET (\<lambda>_.
     bnd (gets self) (\<lambda>me.
     bnd (get_mp mp_lctr me) (\<lambda>c.
     bnd (upd_gp (\<lambda>g. g\<lparr>gp_mlctr := gp_mlctr g + c\<rparr>)) (\<lambda>_.
     gp_LOCK_LET))))"

text \<open>\<open>vma_gpool_show\<close> prints the counters; the model returns the numbers in the printed order.\<close>

definition vma_gpool_show :: "('y ast_scheme, 64 word list) prog" where
  "vma_gpool_show =
     get_gp (\<lambda>g. [gp_blctr g, gp_slctr g, gp_mlctr g, gp_lctr g, gp_actr g])"

end
