(* ===== verification/Alloc_Layout.thy ===== *)
theory Alloc_Layout
  imports Vma_Alloc Area_List
begin

section \<open>The layout of a superblock, and lists in memory\<close>

text \<open>
  Where the blocks and areas of a superblock lie (63 blocks of 56 areas), that \<open>S_vma_2block\<close>
  finds the block of an area, and the linked lists of the allocator: \<open>seg\<close>, a singly linked
  list, and \<open>dl\<close>, a doubly linked list whose head may keep a stale predecessor.
\<close>

subsection \<open>Addresses\<close>

text \<open>\<open>placed p\<close>: a superblock at \<open>p\<close> is aligned to a block and does not wrap around.\<close>

definition nth_block :: "addr \<Rightarrow> nat \<Rightarrow> addr" where
  "nth_block p i = p + of_nat (4096 * (i + 1))"

definition nth_area :: "addr \<Rightarrow> nat \<Rightarrow> addr" where
  "nth_area b j = b + of_nat (64 + 72 * j)"

definition areas :: "addr \<Rightarrow> addr set" where
  "areas b = nth_area b ` {..<56}"

definition placed :: "addr \<Rightarrow> bool" where
  "placed p \<longleftrightarrow> p \<noteq> NULL \<and> unat p mod 4096 = 0 \<and> unat p + 262144 \<le> 2 ^ 64"

lemma full_counts: "BLOCK_CTR_FULL = 56" "SUPERBLOCK_CTR_FULL = 63"
  by (simp_all add: BLOCK_CTR_FULL_def SUPERBLOCK_CTR_FULL_def BLOCK_SIZE_def SUPERBLOCK_SIZE_def
      sizeof_block_def sizeof_vm_area_def)

lemma block_off: "i < 63 \<Longrightarrow> unat (nth_block p i - p) = 4096 * (i + 1)"
  unfolding nth_block_def by (simp add: unat_of_nat del: of_nat_Suc of_nat_mult of_nat_add)

lemma area_off: "j < 56 \<Longrightarrow> unat (nth_area b j - b) = 64 + 72 * j"
  unfolding nth_area_def by (simp add: unat_of_nat del: of_nat_Suc of_nat_mult of_nat_add)

lemma area_off2: "i < 63 \<Longrightarrow> j < 56 \<Longrightarrow> unat (nth_area (nth_block p i) j - p) = 4096 * (i + 1) + 64 + 72 * j"
proof -
  assume ij: "i < 63" "j < 56"
  have "nth_area (nth_block p i) j - p = of_nat (4096 * (i + 1) + 64 + 72 * j)"
    by (simp add: nth_area_def nth_block_def algebra_simps)
  then show ?thesis using ij by (simp add: unat_of_nat del: of_nat_Suc of_nat_mult of_nat_add)
qed

lemma at_offset: "unat (a - p) = unat (b - p) \<Longrightarrow> a = (b :: addr)"
  by (simp add: word_unat_eq_iff [symmetric])

lemma block_at_unat: "block_at p b \<longleftrightarrow> (let d = unat (b - p) in d mod 4096 = 0 \<and> 0 < d \<and> d < 262144)"
  unfolding block_at_def Let_def BLOCK_SIZE_def SUPERBLOCK_SIZE_def
  by (simp add: word_less_nat_alt word_unat_eq_iff unat_mod)

lemma block_at_iff: "block_at p b \<longleftrightarrow> (\<exists>i<63. b = nth_block p i)"
proof
  assume a: "block_at p b"
  define d where "d = unat (b - p)"
  have d: "d mod 4096 = 0" "0 < d" "d < 262144"
    using a by (simp_all add: block_at_unat d_def Let_def)
  define i where "i = d div 4096 - 1"
  have e: "d = 4096 * (i + 1)" "i < 63" using d unfolding i_def by auto
  have "unat (nth_block p i - p) = unat (b - p)" using block_off [OF e(2)] e(1) d_def by simp
  then have "b = nth_block p i" by (rule at_offset [symmetric])
  then show "\<exists>i<63. b = nth_block p i" using e(2) by blast
next
  assume "\<exists>i<63. b = nth_block p i"
  then obtain i where i: "i < 63" "unat (b - p) = 4096 * (i + 1)" using block_off by blast
  then show "block_at p b" by (simp add: block_at_unat)
qed

lemma vma_at_unat: "vma_at p a \<longleftrightarrow> (let d = unat (a - p); e = d mod 4096 in
   4096 \<le> d \<and> d < 262144 \<and> 64 \<le> e \<and> (e - 64) mod 72 = 0 \<and> e + 72 \<le> 4096)"
proof -
  define e where "e = (a - p) mod (4096 :: 64 word)"
  have e: "unat e = unat (a - p) mod 4096" by (simp add: e_def unat_mod)
  then have lt: "unat e < 4096" by simp
  have s: "64 \<le> e \<Longrightarrow> unat (e - 64) = unat e - 64" by (simp add: unat_sub)
  have t: "unat (e + 72) = unat e + 72" using lt by (simp add: unat_word_ariths)
  show ?thesis unfolding vma_at_def Let_def BLOCK_SIZE_def SUPERBLOCK_SIZE_def sizeof_block_def sizeof_vm_area_def
      e_def [symmetric] e [symmetric]
    using s t by (auto simp: word_less_nat_alt word_le_nat_alt word_unat_eq_iff unat_mod)
qed

lemma vma_at_iff: "vma_at p a \<longleftrightarrow> (\<exists>i<63. \<exists>j<56. a = nth_area (nth_block p i) j)"
proof
  assume a: "vma_at p a"
  define d where "d = unat (a - p)"
  define i where "i = d div 4096 - 1"
  define j where "j = (d mod 4096 - 64) div 72"
  have d: "4096 \<le> d" "d < 262144" "64 \<le> d mod 4096" "(d mod 4096 - 64) mod 72 = 0" "d mod 4096 + 72 \<le> 4096"
    using a by (simp_all add: vma_at_unat d_def Let_def)
  have ij: "i < 63" "j < 56" using d by (auto simp: i_def j_def)
  have "d = 4096 * (d div 4096) + d mod 4096" by simp
  moreover have "d div 4096 = i + 1" using d by (auto simp: i_def)
  moreover have "d mod 4096 = 64 + 72 * j" using d by (auto simp: j_def)
  ultimately have "d = 4096 * (i + 1) + 64 + 72 * j" by simp
  then have "unat (nth_area (nth_block p i) j - p) = unat (a - p)" using area_off2 [OF ij] d_def by simp
  then have "a = nth_area (nth_block p i) j" by (rule at_offset [symmetric])
  then show "\<exists>i<63. \<exists>j<56. a = nth_area (nth_block p i) j" using ij by blast
next
  assume "\<exists>i<63. \<exists>j<56. a = nth_area (nth_block p i) j"
  then obtain i j where ij: "i < 63" "j < 56" "unat (a - p) = 4096 * (i + 1) + 64 + 72 * j" using area_off2 by blast
  have "unat (a - p) mod 4096 = (64 + 72 * j) mod 4096" unfolding ij(3) by (simp add: mod_mult_self4 add.assoc del: mult_Suc_right)
  also have "\<dots> = 64 + 72 * j" using ij by simp
  finally show "vma_at p a" using ij by (simp add: vma_at_unat)
qed

lemma vma_at_areas: "vma_at p a \<longleftrightarrow> (\<exists>b. block_at p b \<and> a \<in> areas b)"
  by (auto simp: vma_at_iff block_at_iff areas_def)

lemma area_inj: "inj_on (nth_area b) {..<56}"
  by (rule inj_onI) (metis area_off add_left_cancel lessThan_iff mult_left_cancel zero_neq_numeral)

lemma block_inj: "inj_on (nth_block p) {..<63}"
  by (rule inj_onI) (metis block_off add_right_cancel lessThan_iff mult_left_cancel zero_neq_numeral)

lemma card_areas: "finite (areas b)" "card (areas b) = 56"
  by (simp_all add: areas_def card_image [OF area_inj])

lemma blocks_image: "{b. block_at p b} = nth_block p ` {..<63}"
  by (auto simp: block_at_iff)

lemma card_blocks: "finite {b. block_at p b}" "card {b. block_at p b} = 63"
  by (simp_all add: blocks_image card_image [OF block_inj])

lemma unat_nth_block: "placed p \<Longrightarrow> i < 63 \<Longrightarrow> unat (nth_block p i) = unat p + 4096 * (i + 1)"
  unfolding nth_block_def placed_def
  by (simp add: unat_word_ariths unat_of_nat del: of_nat_Suc of_nat_mult of_nat_add)

lemma unat_nth_area: "placed p \<Longrightarrow> i < 63 \<Longrightarrow> j < 56 \<Longrightarrow>
   unat (nth_area (nth_block p i) j) = unat p + 4096 * (i + 1) + (64 + 72 * j)"
proof -
  assume a: "placed p" "i < 63" "j < 56"
  have "unat (of_nat (64 + 72 * j) :: 64 word) = 64 + 72 * j" using a(3) by (simp add: unat_of_nat del: of_nat_Suc of_nat_mult of_nat_add)
  then show ?thesis using unat_nth_block [OF a(1,2)] a unfolding nth_area_def placed_def
    by (simp add: unat_word_ariths del: of_nat_Suc of_nat_mult of_nat_add)
qed

lemma block_2_unat: "unat (S_vma_2block a) = unat a div 4096 * 4096"
proof -
  have "(BLOCK_SIZE - 1 :: 64 word) = mask 12" by (simp add: BLOCK_SIZE_def mask_eq_exp_minus_1)
  then have "S_vma_2block a = a AND NOT (mask 12)" by (simp add: S_vma_2block_def)
  also have "\<dots> = push_bit 12 (drop_bit 12 a)" by (rule bit_word_eqI) (auto simp: bit_simps)
  finally have "S_vma_2block a = a div 4096 * 4096" by (simp add: push_bit_eq_mult drop_bit_eq_div)
  then have "unat (S_vma_2block a) = (unat a div 4096 * 4096) mod 2 ^ 64" by (simp add: unat_word_ariths unat_div mod_mult_left_eq)
  moreover have "unat a div 4096 * 4096 < 2 ^ 64"
    by (rule le_less_trans [OF div_times_less_eq_dividend]) (use unsigned_less [of a] in simp)
  ultimately show ?thesis by simp
qed

lemma area_block: "placed p \<Longrightarrow> block_at p b \<Longrightarrow> a \<in> areas b \<Longrightarrow> S_vma_2block a = b"
proof -
  assume p: "placed p" and "block_at p b" "a \<in> areas b"
  then obtain i j where ij: "i < 63" "j < 56" "b = nth_block p i" "a = nth_area b j"
    by (auto simp: block_at_iff areas_def)
  have ua: "unat a = unat b + (64 + 72 * j)" using unat_nth_area [OF p ij(1,2)] unat_nth_block [OF p ij(1)] ij by simp
  have "4096 dvd unat p" using p by (simp add: placed_def mod_eq_0_iff_dvd)
  then have "4096 dvd unat p + 4096 * (i + 1)" by (intro dvd_add) simp_all
  then have "4096 dvd unat b" using unat_nth_block [OF p ij(1)] ij by simp
  then obtain k where k: "unat b = 4096 * k" ..
  have "unat a div 4096 = k" using ua ij(2) unfolding k by simp
  then have "unat (S_vma_2block a) = unat b" by (simp add: block_2_unat k)
  then show ?thesis by (simp add: word_unat_eq_iff)
qed

subsection \<open>Lists without a fixed predecessor of the head\<close>

fun seg :: "(addr \<Rightarrow> addr) \<Rightarrow> addr list \<Rightarrow> bool" where
  "seg n [] \<longleftrightarrow> True"
| "seg n (x # xs) \<longleftrightarrow> n x = hd0 xs NULL \<and> seg n xs"

lemma seg_upd [simp]: "x \<notin> set xs \<Longrightarrow> seg (n(x := v)) xs = seg n xs"
  by (induction xs) auto

lemma seg_cong: "(\<And>a. a \<in> set xs \<Longrightarrow> n' a = n a) \<Longrightarrow> seg n' xs = seg n xs"
  by (induction xs) auto

lemma seg_unique: "seg n xs \<Longrightarrow> seg n ys \<Longrightarrow> hd0 xs NULL = hd0 ys NULL \<Longrightarrow> NULL \<notin> set xs \<Longrightarrow> NULL \<notin> set ys \<Longrightarrow> xs = ys"
proof (induction xs arbitrary: ys)
  case Nil
  then show ?case by (cases ys) auto
next
  case (Cons x xs)
  then show ?case by (cases ys) auto
qed

definition dl :: "(addr \<Rightarrow> addr) \<Rightarrow> (addr \<Rightarrow> addr) \<Rightarrow> addr \<Rightarrow> addr list \<Rightarrow> bool" where
  "dl n p h xs \<longleftrightarrow> h = hd0 xs NULL \<and> dseg n p (p h) xs NULL \<and> distinct xs \<and> NULL \<notin> set xs"

lemma dl_Nil [simp]: "dl n p h [] \<longleftrightarrow> h = NULL"
  by (simp add: dl_def)

lemma dl_facts: "dl n p h xs \<Longrightarrow> distinct xs \<and> NULL \<notin> set xs \<and> h = hd0 xs NULL \<and> (h = NULL \<longleftrightarrow> xs = []) \<and> (h \<noteq> NULL \<longrightarrow> h \<in> set xs)"
  by (cases xs) (auto simp: dl_def)

lemma dl_upd [simp]:
  "x \<notin> set xs \<Longrightarrow> dl (n(x := v)) p h xs = dl n p h xs"
  "x \<notin> set xs \<Longrightarrow> dl n (p(x := v)) h xs = dl n p h xs"
  by (cases xs; auto simp: dl_def)+

lemma dl_cong:
  "(\<And>a. a \<in> set xs \<Longrightarrow> n' a = n a \<and> p' a = p a) \<Longrightarrow> dl n' p' h xs = dl n p h xs"
proof -
  have *: "dseg n' p' a xs b = dseg n p a xs b" if "\<And>a. a \<in> set xs \<Longrightarrow> n' a = n a \<and> p' a = p a" for a b
    using that by (induction n p a xs b rule: dseg.induct) auto
  assume "\<And>a. a \<in> set xs \<Longrightarrow> n' a = n a \<and> p' a = p a"
  with * show ?thesis by (cases xs) (auto simp: dl_def)
qed

lemma dl_head_prev: "dl n p h xs \<Longrightarrow> dl n (p(h := v)) h xs"
  by (auto simp: dl_def dest: dseg_new_first [of n p _ xs NULL NULL v])

lemma dl_push:
  assumes "dl n p h xs" and "x \<notin> set xs" and "x \<noteq> NULL"
  shows "dl (n(x := h)) (if h = NULL then p else p(h := x)) x (x # xs)"
proof -
  have "dseg n (p(h := x)) x xs NULL" using assms(1) by (auto simp: dl_def dest: dseg_new_first [of n p _ xs NULL NULL x])
  then show ?thesis using assms by (cases xs) (auto simp: dl_def)
qed

lemma dl_pop: "dl n p h (x # xs) \<Longrightarrow> dl n p (n x) xs \<and> dl n (p(n x := v)) (n x) xs"
proof -
  assume "dl n p h (x # xs)"
  then have "dl n p (n x) xs" by (cases xs) (auto simp: dl_def)
  then show ?thesis using dl_head_prev by blast
qed

lemma dseg_relink_last:
  assumes "dseg n p a xs b" and "distinct xs" and "xs \<noteq> []"
  shows "dseg (n(last0 a xs := b')) p a xs b'"
proof -
  obtain y ys where xs: "xs = y # ys" using assms(3) by (cases xs) auto
  have d: "p y = a" "n y = hd0 ys b" "dseg n p y ys b" "y \<notin> set ys" "distinct ys" using assms by (simp_all add: xs)
  have "dseg (n(last0 y ys := b')) p y ys b'" using dseg_new_last d by blast
  moreover have "(n(last0 y ys := b')) y = hd0 ys b'"
  proof (cases ys)
    case (Cons z zs)
    then have "last0 y ys \<in> set ys" using last0_in [of z zs] by auto
    then show ?thesis using d(2,4) Cons by auto
  qed simp
  ultimately show ?thesis using d(1) by (simp add: xs)
qed

lemma dl_remove_inner:
  assumes "dl n p h (ys @ x # zs)" and "ys \<noteq> []"
  shows "dl (n(p x := n x)) (if n x = NULL then p else p(n x := p x)) h (ys @ zs) \<and> p x \<in> set ys"
proof -
  have d: "dseg n p (p h) ys x" "p x = last0 (p h) ys" "n x = hd0 zs NULL" "dseg n p x zs NULL" "h = hd0 ys NULL"
    "distinct (ys @ x # zs)" "NULL \<notin> set (ys @ x # zs)"
  proof -
    have a: "h = hd0 (ys @ x # zs) NULL" "dseg n p (p h) (ys @ x # zs) NULL" "distinct (ys @ x # zs)" "NULL \<notin> set (ys @ x # zs)"
      using assms(1) unfolding dl_def by blast+
    have "dseg n p (p h) ys x \<and> dseg n p (last0 (p h) ys) (x # zs) NULL" using a(2) unfolding dseg_append hd0.simps .
    then show "dseg n p (p h) ys x" "p x = last0 (p h) ys" "n x = hd0 zs NULL" "dseg n p x zs NULL" by simp_all
    show "h = hd0 ys NULL" using a(1) assms(2) by (cases ys) simp_all
    show "distinct (ys @ x # zs)" "NULL \<notin> set (ys @ x # zs)" by (fact a)+
  qed
  have px: "p x \<in> set ys" using d(2) assms(2) last0_in by (cases ys) auto
  have hz: "n x \<noteq> NULL \<Longrightarrow> n x \<in> set zs" using d(3) by (cases zs) auto
  have hy: "h \<in> set ys" using d(5) assms(2) by (cases ys) auto
  have hb: "hd0 ys b = h" for b using d(5) assms(2) by (cases ys) auto
  have 1: "dseg (n(p x := n x)) p (p h) ys (n x)"
    unfolding d(2) by (rule dseg_relink_last [OF d(1)]) (use d(6) assms(2) in simp_all)
  have "p x \<notin> set zs" using px d(6) by auto
  then have 2: "dseg (n(p x := n x)) (p(n x := p x)) (p x) zs NULL"
    using dseg_new_first [OF d(4), of NULL "p x"] d(3,6) by simp
  show ?thesis
  proof (cases "n x = NULL")
    case True
    then have "zs = []" using d(3,7) by (cases zs) auto
    then show ?thesis using 1 True d(1-4,6,7) px hy hb by (simp add: dl_def)
  next
    case False
    then have "n x \<notin> set ys" using hz d(6) by auto
    then have "dseg (n(p x := n x)) (p(n x := p x)) (p h) ys (n x)" using 1 by simp
    moreover have "h \<noteq> n x" using hy \<open>n x \<notin> set ys\<close> by auto
    ultimately show ?thesis using 2 False d(1-4,6,7) px hy hb by (auto simp: dl_def)
  qed
qed

lemma dl_remove:
  assumes "dl n p h xs" and "x \<in> set xs"
  shows "dl (if h = x then n else n(p x := n x)) (if n x = NULL then p else p(n x := p x))
      (if h = x then n x else h) (filter (\<lambda>a. a \<noteq> x) xs)"
    and "h \<noteq> x \<Longrightarrow> p x \<in> set xs \<and> p x \<noteq> x" and "n x \<noteq> NULL \<Longrightarrow> n x \<in> set xs \<and> n x \<noteq> x"
proof -
  obtain ys zs where xs: "xs = ys @ x # zs" using split_list [OF assms(2)] by blast
  have d: "distinct xs" "NULL \<notin> set xs" "h = hd0 xs NULL" using assms(1) by (simp_all add: dl_def)
  have f: "filter (\<lambda>a. a \<noteq> x) xs = ys @ zs" using d(1) by (simp add: xs)
  have nx: "n x = hd0 zs NULL" using assms(1) by (cases ys) (auto simp: xs dl_def)
  show "n x \<noteq> NULL \<Longrightarrow> n x \<in> set xs \<and> n x \<noteq> x" using nx d(1) xs hd0_in [of zs NULL] by auto
  show "h \<noteq> x \<Longrightarrow> p x \<in> set xs \<and> p x \<noteq> x"
    using dl_remove_inner [OF assms(1) [unfolded xs]] d xs by (cases ys) auto
  show "dl (if h = x then n else n(p x := n x)) (if n x = NULL then p else p(n x := p x))
      (if h = x then n x else h) (filter (\<lambda>a. a \<noteq> x) xs)"
  proof (cases ys)
    case Nil
    then have "h = x" "dl n p h (x # zs)" using assms(1) d(3) by (simp_all add: xs)
    then show ?thesis using dl_pop [of n p h x zs "p x"] unfolding f by (cases "n x = NULL") (simp_all add: Nil)
  next
    case (Cons y ys')
    then have "h \<noteq> x" using d xs by auto
    then show ?thesis using dl_remove_inner [OF assms(1) [unfolded xs]] Cons unfolding f by simp
  qed
qed

end
