(* ===== verification/Alloc_Exec.thy ===== *)
theory Alloc_Exec
  imports Alloc_Layout
begin

section \<open>Symbolic execution of the allocator\<close>

subsection \<open>Fields as functions of the address\<close>

definition bvc :: "(addr \<rightharpoonup> block) \<Rightarrow> addr \<Rightarrow> 64 word" where "bvc m a = b_vctr (the (m a))"
definition bll :: "(addr \<rightharpoonup> block) \<Rightarrow> addr \<Rightarrow> lock_t" where "bll m a = b_lock (the (m a))"
definition bhd :: "(addr \<rightharpoonup> block) \<Rightarrow> addr \<Rightarrow> addr" where "bhd m a = b_head (the (m a))"
definition bsb :: "(addr \<rightharpoonup> block) \<Rightarrow> addr \<Rightarrow> addr" where "bsb m a = b_superblock (the (m a))"
definition bmp :: "(addr \<rightharpoonup> block) \<Rightarrow> addr \<Rightarrow> addr" where "bmp m a = b_mpool (the (m a))"
definition bpv :: "(addr \<rightharpoonup> block) \<Rightarrow> addr \<Rightarrow> addr" where "bpv m a = b_prev (the (m a))"
definition bnx :: "(addr \<rightharpoonup> block) \<Rightarrow> addr \<Rightarrow> addr" where "bnx m a = b_next (the (m a))"
definition sbc :: "(addr \<rightharpoonup> superblock) \<Rightarrow> addr \<Rightarrow> 64 word" where "sbc m a = sb_bctr (the (m a))"
definition sll :: "(addr \<rightharpoonup> superblock) \<Rightarrow> addr \<Rightarrow> lock_t" where "sll m a = sb_lock (the (m a))"
definition shd :: "(addr \<rightharpoonup> superblock) \<Rightarrow> addr \<Rightarrow> addr" where "shd m a = sb_head (the (m a))"
definition spv :: "(addr \<rightharpoonup> superblock) \<Rightarrow> addr \<Rightarrow> addr" where "spv m a = sb_prev (the (m a))"
definition snx :: "(addr \<rightharpoonup> superblock) \<Rightarrow> addr \<Rightarrow> addr" where "snx m a = sb_next (the (m a))"
definition pll :: "(addr \<rightharpoonup> mpool) \<Rightarrow> addr \<Rightarrow> lock_t" where "pll m a = mp_lock (the (m a))"
definition phd :: "(addr \<rightharpoonup> mpool) \<Rightarrow> addr \<Rightarrow> addr" where "phd m a = mp_head (the (m a))"

definition mupd :: "addr \<Rightarrow> ('v \<Rightarrow> 'v) \<Rightarrow> (addr \<rightharpoonup> 'v) \<Rightarrow> (addr \<rightharpoonup> 'v)" where
  "mupd p f m = m(p \<mapsto> f (the (m p)))"

lemmas blk_views = bvc_def bll_def bhd_def bsb_def bmp_def bpv_def bnx_def
lemmas sb_views = sbc_def sll_def shd_def spv_def snx_def
lemmas mp_views = pll_def phd_def

lemma dom_mupd [simp]: "dom (mupd p f m) = insert p (dom m)"
  by (simp add: mupd_def)

lemma mupd_other: "q \<noteq> p \<Longrightarrow> mupd p f m q = m q"
  by (simp add: mupd_def)

lemma mupd_blk_views [simp]:
  "bvc (mupd p (\<lambda>v. v\<lparr>b_vctr := x\<rparr>) m) = (bvc m)(p := x)"
  "bvc (mupd p (\<lambda>v. v\<lparr>b_vctr := b_vctr v + c\<rparr>) m) = (bvc m)(p := bvc m p + c)"
  "bvc (mupd p (\<lambda>v. v\<lparr>b_vctr := b_vctr v - c\<rparr>) m) = (bvc m)(p := bvc m p - c)"
  "bll (mupd p (\<lambda>v. v\<lparr>b_lock := l\<rparr>) m) = (bll m)(p := l)"
  "bhd (mupd p (\<lambda>v. v\<lparr>b_head := y\<rparr>) m) = (bhd m)(p := y)"
  "bsb (mupd p (\<lambda>v. v\<lparr>b_superblock := y\<rparr>) m) = (bsb m)(p := y)"
  "bmp (mupd p (\<lambda>v. v\<lparr>b_mpool := y\<rparr>) m) = (bmp m)(p := y)"
  "bpv (mupd p (\<lambda>v. v\<lparr>b_prev := y\<rparr>) m) = (bpv m)(p := y)"
  "bnx (mupd p (\<lambda>v. v\<lparr>b_next := y\<rparr>) m) = (bnx m)(p := y)"
  by (auto simp: blk_views mupd_def fun_eq_iff)

lemma mupd_blk_others [simp]:
  "(\<And>v. b_vctr (f v) = b_vctr v) \<Longrightarrow> bvc (mupd p f m) = bvc m"
  "(\<And>v. b_lock (f v) = b_lock v) \<Longrightarrow> bll (mupd p f m) = bll m"
  "(\<And>v. b_head (f v) = b_head v) \<Longrightarrow> bhd (mupd p f m) = bhd m"
  "(\<And>v. b_superblock (f v) = b_superblock v) \<Longrightarrow> bsb (mupd p f m) = bsb m"
  "(\<And>v. b_mpool (f v) = b_mpool v) \<Longrightarrow> bmp (mupd p f m) = bmp m"
  "(\<And>v. b_prev (f v) = b_prev v) \<Longrightarrow> bpv (mupd p f m) = bpv m"
  "(\<And>v. b_next (f v) = b_next v) \<Longrightarrow> bnx (mupd p f m) = bnx m"
  by (auto simp: blk_views mupd_def fun_eq_iff)

lemma mupd_sb_views [simp]:
  "sbc (mupd p (\<lambda>v. v\<lparr>sb_bctr := x\<rparr>) m) = (sbc m)(p := x)"
  "sbc (mupd p (\<lambda>v. v\<lparr>sb_bctr := sb_bctr v + c\<rparr>) m) = (sbc m)(p := sbc m p + c)"
  "sbc (mupd p (\<lambda>v. v\<lparr>sb_bctr := sb_bctr v - c\<rparr>) m) = (sbc m)(p := sbc m p - c)"
  "sll (mupd p (\<lambda>v. v\<lparr>sb_lock := l\<rparr>) m) = (sll m)(p := l)"
  "shd (mupd p (\<lambda>v. v\<lparr>sb_head := y\<rparr>) m) = (shd m)(p := y)"
  "spv (mupd p (\<lambda>v. v\<lparr>sb_prev := y\<rparr>) m) = (spv m)(p := y)"
  "snx (mupd p (\<lambda>v. v\<lparr>sb_next := y\<rparr>) m) = (snx m)(p := y)"
  by (auto simp: sb_views mupd_def fun_eq_iff)

lemma mupd_sb_others [simp]:
  "(\<And>v. sb_bctr (f v) = sb_bctr v) \<Longrightarrow> sbc (mupd p f m) = sbc m"
  "(\<And>v. sb_lock (f v) = sb_lock v) \<Longrightarrow> sll (mupd p f m) = sll m"
  "(\<And>v. sb_head (f v) = sb_head v) \<Longrightarrow> shd (mupd p f m) = shd m"
  "(\<And>v. sb_prev (f v) = sb_prev v) \<Longrightarrow> spv (mupd p f m) = spv m"
  "(\<And>v. sb_next (f v) = sb_next v) \<Longrightarrow> snx (mupd p f m) = snx m"
  by (auto simp: sb_views mupd_def fun_eq_iff)

lemma mupd_mp_views [simp]:
  "pll (mupd p (\<lambda>v. v\<lparr>mp_lock := l\<rparr>) m) = (pll m)(p := l)"
  "phd (mupd p (\<lambda>v. v\<lparr>mp_head := y\<rparr>) m) = (phd m)(p := y)"
  "(\<And>v. mp_lock (f v) = mp_lock v) \<Longrightarrow> pll (mupd p f m) = pll m"
  "(\<And>v. mp_head (f v) = mp_head v) \<Longrightarrow> phd (mupd p f m) = phd m"
  by (auto simp: mp_views mupd_def fun_eq_iff)

subsection \<open>States with given contents\<close>

definition aw :: "'y ast_scheme \<Rightarrow> heap \<Rightarrow> (addr \<rightharpoonup> block) \<Rightarrow> (addr \<rightharpoonup> superblock) \<Rightarrow> (addr \<rightharpoonup> mpool) \<Rightarrow> gpool \<Rightarrow>
    'y ast_scheme" where
  "aw s h b m p g = s\<lparr>vmas := h, blocks := b, superblocks := m, mpools := p, S_gpool := g\<rparr>"

lemma aw_self: "aw s (vmas s) (blocks s) (superblocks s) (mpools s) (S_gpool s) = s"
  by (simp add: aw_def)

lemma aw_sel [simp]:
  "vmas (aw s h b m p g) = h" "blocks (aw s h b m p g) = b" "superblocks (aw s h b m p g) = m"
  "mpools (aw s h b m p g) = p" "S_gpool (aw s h b m p g) = g" "openmp (aw s h b m p g) = openmp s"
  "OOC_PAGE_SIZE (aw s h b m p g) = OOC_PAGE_SIZE s" "vma_tree (aw s h b m p g) = vma_tree s"
  "frame_n (aw s h b m p g) = frame_n s" "S_init (aw s h b m p g) = S_init s" "self (aw s h b m p g) = self s"
  "os_alloc (aw s h b m p g) = os_alloc s" "os_calls (aw s h b m p g) = os_calls s"
  "aw (aw s h b m p g) h' b' m' p' g' = aw s h' b' m' p' g'"
  by (simp_all add: aw_def)

lemma upd_w [simp]:
  "q \<in> dom h \<Longrightarrow> q \<noteq> NULL \<Longrightarrow> upd_vma q fv (aw s h b m p g) = Inr ((), aw s (hupd q fv h) b m p g)"
  "q \<in> dom b \<Longrightarrow> q \<noteq> NULL \<Longrightarrow> upd_blk q fb (aw s h b m p g) = Inr ((), aw s h (mupd q fb b) m p g)"
  "q \<in> dom m \<Longrightarrow> q \<noteq> NULL \<Longrightarrow> upd_sb q fs (aw s h b m p g) = Inr ((), aw s h b (mupd q fs m) p g)"
  "q \<in> dom p \<Longrightarrow> q \<noteq> NULL \<Longrightarrow> upd_mp q fm (aw s h b m p g) = Inr ((), aw s h b m (mupd q fm p) g)"
  "upd_gp fg (aw s h b m p g) = Inr ((), aw s h b m p (fg g))"
  by (auto simp: aw_def hupd_def mupd_def bnd_def upd_blk_def rd_blk_def wr_blk_def upd_sb_def rd_sb_def wr_sb_def
      upd_mp_def rd_mp_def wr_mp_def upd_gp_def)

lemma get_vma_aw [simp]: "q \<in> dom h \<Longrightarrow> q \<noteq> NULL \<Longrightarrow> get_field vm_next q (aw s h b m p g) = Inr (fnx h q, aw s h b m p g)"
  by (auto simp: aw_def fnx_def)

lemma get_w [simp]:
  "q \<in> dom b \<Longrightarrow> q \<noteq> NULL \<Longrightarrow> get_blk b_vctr q (aw s h b m p g) = Inr (bvc b q, aw s h b m p g)"
  "q \<in> dom b \<Longrightarrow> q \<noteq> NULL \<Longrightarrow> get_blk b_head q (aw s h b m p g) = Inr (bhd b q, aw s h b m p g)"
  "q \<in> dom b \<Longrightarrow> q \<noteq> NULL \<Longrightarrow> get_blk b_superblock q (aw s h b m p g) = Inr (bsb b q, aw s h b m p g)"
  "q \<in> dom b \<Longrightarrow> q \<noteq> NULL \<Longrightarrow> get_blk b_mpool q (aw s h b m p g) = Inr (bmp b q, aw s h b m p g)"
  "q \<in> dom b \<Longrightarrow> q \<noteq> NULL \<Longrightarrow> get_blk b_prev q (aw s h b m p g) = Inr (bpv b q, aw s h b m p g)"
  "q \<in> dom b \<Longrightarrow> q \<noteq> NULL \<Longrightarrow> get_blk b_next q (aw s h b m p g) = Inr (bnx b q, aw s h b m p g)"
  "q \<in> dom b \<Longrightarrow> q \<noteq> NULL \<Longrightarrow> get_blk b_lctr q (aw s h b m p g) = Inr (b_lctr (the (b q)), aw s h b m p g)"
  "q \<in> dom m \<Longrightarrow> q \<noteq> NULL \<Longrightarrow> get_sb sb_bctr q (aw s h b m p g) = Inr (sbc m q, aw s h b m p g)"
  "q \<in> dom m \<Longrightarrow> q \<noteq> NULL \<Longrightarrow> get_sb sb_head q (aw s h b m p g) = Inr (shd m q, aw s h b m p g)"
  "q \<in> dom m \<Longrightarrow> q \<noteq> NULL \<Longrightarrow> get_sb sb_prev q (aw s h b m p g) = Inr (spv m q, aw s h b m p g)"
  "q \<in> dom m \<Longrightarrow> q \<noteq> NULL \<Longrightarrow> get_sb sb_next q (aw s h b m p g) = Inr (snx m q, aw s h b m p g)"
  "q \<in> dom m \<Longrightarrow> q \<noteq> NULL \<Longrightarrow> get_sb sb_lctr q (aw s h b m p g) = Inr (sb_lctr (the (m q)), aw s h b m p g)"
  "q \<in> dom m \<Longrightarrow> q \<noteq> NULL \<Longrightarrow> get_sb sb_blctr q (aw s h b m p g) = Inr (sb_blctr (the (m q)), aw s h b m p g)"
  "q \<in> dom p \<Longrightarrow> q \<noteq> NULL \<Longrightarrow> get_mp mp_head q (aw s h b m p g) = Inr (phd p q, aw s h b m p g)"
  "get_gp fg (aw s h b m p g) = Inr (fg g, aw s h b m p g)"
  by (auto simp: aw_def bnd_def get_blk_def rd_blk_def get_sb_def rd_sb_def get_mp_def rd_mp_def get_gp_def
      blk_views sb_views mp_views)

lemma LOCK_GET_run: "lock_idle omp l \<Longrightarrow> LOCK_GET omp (l, c) = Inr (got omp l, c)"
  by (cases omp; cases l) (auto simp: LOCK_GET_def lock_defs)

lemma LOCK_LET_run: "lock_held omp l \<Longrightarrow> lock_let omp l = Inr (released omp l)"
  by (rule any_lock.let_held)

lemma with_lock_w [simp]:
  "q \<in> dom b \<Longrightarrow> q \<noteq> NULL \<Longrightarrow> blk_with_lock op q (aw s h b m p g) =
     (case op (openmp s) (bll b q) of Inl e \<Rightarrow> Inl e | Inr l \<Rightarrow> Inr ((), aw s h (mupd q (\<lambda>v. v\<lparr>b_lock := l\<rparr>) b) m p g))"
  "q \<in> dom m \<Longrightarrow> q \<noteq> NULL \<Longrightarrow> sb_with_lock op q (aw s h b m p g) =
     (case op (openmp s) (sll m q) of Inl e \<Rightarrow> Inl e | Inr l \<Rightarrow> Inr ((), aw s h b (mupd q (\<lambda>v. v\<lparr>sb_lock := l\<rparr>) m) p g))"
  "q \<in> dom p \<Longrightarrow> q \<noteq> NULL \<Longrightarrow> mp_with_lock op q (aw s h b m p g) =
     (case op (openmp s) (pll p q) of Inl e \<Rightarrow> Inl e | Inr l \<Rightarrow> Inr ((), aw s h b m (mupd q (\<lambda>v. v\<lparr>mp_lock := l\<rparr>) p) g))"
  "gp_with_lock op (aw s h b m p g) =
     (case op (openmp s) (gp_lock g) of Inl e \<Rightarrow> Inl e | Inr l \<Rightarrow> Inr ((), aw s h b m p (g\<lparr>gp_lock := l\<rparr>)))"
  by (auto simp: aw_def bnd_def blk_with_lock_def sb_with_lock_def mp_with_lock_def gp_with_lock_def rd_blk_def wr_blk_def
      rd_sb_def wr_sb_def rd_mp_def wr_mp_def get_gp_def upd_gp_def liftE_def mupd_def bll_def sll_def pll_def split: sum.split)

lemma lock_w [simp]:
  "q \<in> dom b \<Longrightarrow> q \<noteq> NULL \<Longrightarrow> lock_idle (openmp s) (bll b q) \<Longrightarrow>
     blk_LOCK_GET q (aw s h b m p g) = Inr ((), aw s h (mupd q (\<lambda>v. v\<lparr>b_lock := got (openmp s) (bll b q)\<rparr>) b) m p g)"
  "q \<in> dom m \<Longrightarrow> q \<noteq> NULL \<Longrightarrow> lock_idle (openmp s) (sll m q) \<Longrightarrow>
     sb_LOCK_GET q (aw s h b m p g) = Inr ((), aw s h b (mupd q (\<lambda>v. v\<lparr>sb_lock := got (openmp s) (sll m q)\<rparr>) m) p g)"
  "q \<in> dom p \<Longrightarrow> q \<noteq> NULL \<Longrightarrow> lock_idle (openmp s) (pll p q) \<Longrightarrow>
     mp_LOCK_GET q (aw s h b m p g) = Inr ((), aw s h b m (mupd q (\<lambda>v. v\<lparr>mp_lock := got (openmp s) (pll p q)\<rparr>) p) g)"
  "lock_idle (openmp s) (gp_lock g) \<Longrightarrow>
     gp_LOCK_GET (aw s h b m p g) = Inr ((), aw s h b m p (g\<lparr>gp_lock := got (openmp s) (gp_lock g)\<rparr>))"
  by (auto simp: aw_def bnd_def blk_LOCK_GET_def sb_LOCK_GET_def mp_LOCK_GET_def gp_LOCK_GET_def rd_blk_def wr_blk_def
      rd_sb_def wr_sb_def rd_mp_def wr_mp_def get_gp_def upd_gp_def liftE_def LOCK_GET_run mupd_def bll_def sll_def pll_def)

declare LOCK_LET_run [simp] lock_init_run [simp]

end
