(* ===== verification/Alloc_Inv.thy ===== *)
theory Alloc_Inv
  imports Alloc_Exec Table_Ops
begin

declare domIff [iff del]

section \<open>The invariant of the allocator\<close>

text \<open>
  What holds of the memory of \<open>vma_alloc.c\<close> between any two calls: every block is on exactly one list, that of its
  superblock or that of a thread's pool; the lists are doubly linked; the counters of a block and of a superblock
  are the numbers of areas and blocks in use; no two superblocks overlap. The lemmas say how the list operations
  of the code change the lists.
\<close>

subsection \<open>The lists of blocks\<close>

datatype list_id = Sb addr | Mp addr

definition heads :: "(addr \<Rightarrow> addr) \<Rightarrow> (addr \<Rightarrow> addr) \<Rightarrow> list_id \<Rightarrow> addr" where
  "heads f g i = (case i of Sb p \<Rightarrow> f p | Mp q \<Rightarrow> g q)"

lemma heads_simps [simp]:
  "heads f g (Sb p) = f p" "heads f g (Mp q) = g q"
  "heads (f(p := x)) g = (heads f g)(Sb p := x)" "heads f (g(q := x)) = (heads f g)(Mp q := x)"
  by (auto simp: heads_def fun_eq_iff split: list_id.splits)

definition lists_ok :: "(addr \<Rightarrow> addr) \<Rightarrow> (addr \<Rightarrow> addr) \<Rightarrow> (list_id \<Rightarrow> addr) \<Rightarrow> list_id set \<Rightarrow> (list_id \<Rightarrow> addr list) \<Rightarrow> bool" where
  "lists_ok n p hs V L \<longleftrightarrow> (\<forall>i. if i \<in> V then dl n p (hs i) (L i) else L i = []) \<and>
     (\<forall>i j. i \<noteq> j \<longrightarrow> set (L i) \<inter> set (L j) = {})"

lemma lists_okD:
  assumes "lists_ok n p hs V L"
  shows "i \<in> V \<Longrightarrow> dl n p (hs i) (L i)" "i \<notin> V \<Longrightarrow> L i = []" "a \<in> set (L i) \<Longrightarrow> a \<in> set (L j) \<Longrightarrow> i = j"
  using assms unfolding lists_ok_def by (metis, metis, metis disjoint_iff)

lemma lists_okI:
  assumes "\<And>i. i \<in> V \<Longrightarrow> dl n p (hs i) (L i)" "\<And>i. i \<notin> V \<Longrightarrow> L i = []"
    "\<And>i j a. a \<in> set (L i) \<Longrightarrow> a \<in> set (L j) \<Longrightarrow> i = j"
  shows "lists_ok n p hs V L"
proof -
  have "set (L i) \<inter> set (L j) = {}" if "i \<noteq> j" for i j
  proof (rule equals0I)
    fix a assume "a \<in> set (L i) \<inter> set (L j)"
    then show False using assms(3) [of a i j] that by simp
  qed
  then show ?thesis using assms(1,2) by (simp add: lists_ok_def)
qed

lemma lists_push:
  assumes ok: "lists_ok n p hs V L" and i: "i \<in> V" and k: "k \<noteq> NULL" "\<And>j. k \<notin> set (L j)"
  shows "lists_ok (n(k := hs i)) (if hs i = NULL then p else p(hs i := k)) (hs(i := k)) V (L(i := k # L i))"
proof (rule lists_okI)
  fix j assume j: "j \<in> V"
  show "dl (n(k := hs i)) (if hs i = NULL then p else p(hs i := k)) ((hs(i := k)) j) ((L(i := k # L i)) j)"
  proof (cases "j = i")
    case True
    then show ?thesis using dl_push [OF lists_okD(1) [OF ok i] k(2,1)] by simp
  next
    case False
    have "hs i \<noteq> NULL \<Longrightarrow> hs i \<notin> set (L j)"
      using dl_facts [OF lists_okD(1) [OF ok i]] lists_okD(3) [OF ok] False by metis
    then show ?thesis using lists_okD(1) [OF ok j] k False by simp
  qed
next
  fix j assume "j \<notin> V"
  then show "(L(i := k # L i)) j = []" using lists_okD(2) [OF ok] i by auto
next
  fix a j j' assume "a \<in> set ((L(i := k # L i)) j)" "a \<in> set ((L(i := k # L i)) j')"
  then show "j = j'" using k(2) lists_okD(3) [OF ok] by (auto split: if_splits)
qed

lemma lists_remove:
  assumes ok: "lists_ok n p hs V L" and k: "k \<in> set (L i)"
  shows "lists_ok (if hs i = k then n else n(p k := n k)) (if n k = NULL then p else p(n k := p k))
     (hs(i := if hs i = k then n k else hs i)) V (L(i := filter (\<lambda>a. a \<noteq> k) (L i)))"
    and "hs i \<noteq> k \<Longrightarrow> p k \<in> set (L i) \<and> p k \<noteq> k" and "n k \<noteq> NULL \<Longrightarrow> n k \<in> set (L i) \<and> n k \<noteq> k"
proof -
  have i: "i \<in> V" using lists_okD(2) [OF ok] k by force
  note r = dl_remove [OF lists_okD(1) [OF ok i] k]
  show 1: "hs i \<noteq> k \<Longrightarrow> p k \<in> set (L i) \<and> p k \<noteq> k" and 2: "n k \<noteq> NULL \<Longrightarrow> n k \<in> set (L i) \<and> n k \<noteq> k"
    using r(2,3) by blast+
  show "lists_ok (if hs i = k then n else n(p k := n k)) (if n k = NULL then p else p(n k := p k))
     (hs(i := if hs i = k then n k else hs i)) V (L(i := filter (\<lambda>a. a \<noteq> k) (L i)))"
  proof (rule lists_okI)
    fix j assume j: "j \<in> V"
    show "dl (if hs i = k then n else n(p k := n k)) (if n k = NULL then p else p(n k := p k))
       ((hs(i := if hs i = k then n k else hs i)) j) ((L(i := filter (\<lambda>a. a \<noteq> k) (L i))) j)"
    proof (cases "j = i")
      case True
      then show ?thesis using r(1) by simp
    next
      case False
      have "hs i \<noteq> k \<Longrightarrow> p k \<notin> set (L j)" "n k \<noteq> NULL \<Longrightarrow> n k \<notin> set (L j)"
        using 1 2 lists_okD(3) [OF ok] False by blast+
      then show ?thesis using lists_okD(1) [OF ok j] False by simp
    qed
  next
    fix j assume "j \<notin> V"
    then show "(L(i := filter (\<lambda>a. a \<noteq> k) (L i))) j = []" using lists_okD(2) [OF ok] i by auto
  next
    fix a j j' assume "a \<in> set ((L(i := filter (\<lambda>a. a \<noteq> k) (L i))) j)" "a \<in> set ((L(i := filter (\<lambda>a. a \<noteq> k) (L i))) j')"
    then show "j = j'" using lists_okD(3) [OF ok] by (auto split: if_splits)
  qed
qed

text \<open>Taking the head of a list off; its successor may get any predecessor.\<close>

lemma lists_pop:
  assumes ok: "lists_ok n p hs V L" and L: "L i = k # ks"
  shows "lists_ok n (if n k = NULL then p else p(n k := p k)) (hs(i := n k)) V (L(i := ks))"
proof -
  have i: "i \<in> V" using lists_okD(2) [OF ok] L by force
  have "hs i = k" "k \<notin> set ks" using dl_facts [OF lists_okD(1) [OF ok i]] L by auto
  then show ?thesis using lists_remove(1) [OF ok, of k i] L by simp
qed

text \<open>The fields of a block that is on no list do not matter.\<close>

lemma lists_off:
  assumes "lists_ok n p hs V L" and "\<And>j. k \<notin> set (L j)"
  shows "lists_ok (n(k := v)) p hs V L" "lists_ok n (p(k := v)) hs V L"
  using assms by (simp_all add: lists_ok_def)

subsection \<open>Counting\<close>

lemma not_all_taken:
  assumes "distinct xs" and "set xs \<subseteq> A" and "finite A" and "X \<subseteq> A" and "set xs \<inter> X = {}"
  shows "length xs + card X \<le> card A"
proof -
  have "card (set xs \<union> X) = card (set xs) + card X"
    using assms finite_subset by (intro card_Un_disjoint) auto
  moreover have "card (set xs \<union> X) \<le> card A" using assms by (intro card_mono) auto
  ultimately show ?thesis using distinct_card [OF assms(1)] by simp
qed

lemma some_not_taken:
  assumes "length xs < card A" and "finite A"
  shows "\<exists>x \<in> A. x \<notin> set xs"
proof (rule ccontr)
  assume "\<not> ?thesis"
  then have "A \<subseteq> set xs" by auto
  then have "card A \<le> card (set xs)" by (intro card_mono) auto
  then show False using card_length [of xs] assms(1) by simp
qed

subsection \<open>The invariant\<close>

definition loc :: "(addr \<Rightarrow> addr list) \<Rightarrow> (addr \<rightharpoonup> block) \<Rightarrow> addr \<Rightarrow> list_id option" where
  "loc F bm b = (if length (F b) = 56 then Some (Sb (bsb bm b))
     else if F b = [] then None else Some (Mp (bmp bm b)))"

definition apart :: "addr \<Rightarrow> addr \<Rightarrow> bool" where
  "apart p q \<longleftrightarrow> unat p + 262144 \<le> unat q \<or> unat q + 262144 \<le> unat p"

definition mem_ok :: "heap \<Rightarrow> (addr \<rightharpoonup> block) \<Rightarrow> (addr \<rightharpoonup> superblock) \<Rightarrow> bool" where
  "mem_ok h bm sm \<longleftrightarrow> dom bm = {b. \<exists>p \<in> dom sm. block_at p b} \<and> dom h = {a. \<exists>p \<in> dom sm. vma_at p a} \<and>
     (\<forall>p \<in> dom sm. placed p) \<and> (\<forall>p \<in> dom sm. \<forall>q \<in> dom sm. p \<noteq> q \<longrightarrow> apart p q) \<and>
     (\<forall>p \<in> dom sm. \<forall>b. block_at p b \<longrightarrow> bsb bm b = p)"

definition block_ok :: "heap \<Rightarrow> (addr \<rightharpoonup> block) \<Rightarrow> (addr \<Rightarrow> addr list) \<Rightarrow> addr \<Rightarrow> bool" where
  "block_ok h bm F b \<longleftrightarrow> seg (fnx h) (F b) \<and> bhd bm b = hd0 (F b) NULL \<and> distinct (F b) \<and> set (F b) \<subseteq> areas b \<and>
     unat (bvc bm b) + length (F b) = 56"

definition pools :: "(addr \<rightharpoonup> mpool) \<Rightarrow> (addr \<Rightarrow> int) \<Rightarrow> addr set" where
  "pools mm ini = {q. q \<in> dom mm \<and> q \<noteq> NULL \<and> ini q \<noteq> 0}"

definition valid_ids :: "(addr \<rightharpoonup> superblock) \<Rightarrow> addr set \<Rightarrow> list_id set" where
  "valid_ids sm P = Sb ` dom sm \<union> Mp ` P"

definition global_ok :: "(addr \<rightharpoonup> superblock) \<Rightarrow> addr \<Rightarrow> (list_id \<Rightarrow> addr list) \<Rightarrow> addr list \<Rightarrow> addr set \<Rightarrow> bool" where
  "global_ok sm gh L G E \<longleftrightarrow> dl (snx sm) (spv sm) gh G \<and> set G \<subseteq> dom sm \<and>
     (\<forall>p \<in> dom sm. (p \<in> set G \<longleftrightarrow> L (Sb p) \<noteq> []) \<and> unat (sbc sm p) + length (L (Sb p)) = 63 \<and>
       (length (L (Sb p)) = 63 \<longleftrightarrow> p \<in> E))"

definition lists_placed :: "(addr \<rightharpoonup> block) \<Rightarrow> (addr \<Rightarrow> addr list) \<Rightarrow> (list_id \<Rightarrow> addr list) \<Rightarrow> addr set \<Rightarrow> bool" where
  "lists_placed bm F L X \<longleftrightarrow> (\<forall>i. set (L i) \<subseteq> dom bm) \<and>
     (\<forall>b \<in> dom bm. b \<notin> X \<longrightarrow> (\<forall>i. b \<in> set (L i) \<longleftrightarrow> loc F bm b = Some i))"

text \<open>A block that is not on the list of its superblock belongs to an initialised pool.\<close>

definition owned :: "(addr \<rightharpoonup> block) \<Rightarrow> (addr \<rightharpoonup> mpool) \<Rightarrow> addr set \<Rightarrow> (addr \<Rightarrow> addr list) \<Rightarrow> addr set \<Rightarrow> bool" where
  "owned bm mm P F X \<longleftrightarrow> P \<subseteq> dom mm - {NULL} \<and> (\<forall>b \<in> dom bm. b \<notin> X \<longrightarrow> length (F b) \<noteq> 56 \<longrightarrow> bmp bm b \<in> P)"

definition shape :: "heap \<Rightarrow> (addr \<rightharpoonup> block) \<Rightarrow> (addr \<rightharpoonup> superblock) \<Rightarrow> (addr \<rightharpoonup> mpool) \<Rightarrow> addr \<Rightarrow> addr set \<Rightarrow>
    (addr \<Rightarrow> addr list) \<Rightarrow> (list_id \<Rightarrow> addr list) \<Rightarrow> addr list \<Rightarrow> addr set \<Rightarrow> addr set \<Rightarrow> bool" where
  "shape h bm sm mm gh P F L G X E \<longleftrightarrow> mem_ok h bm sm \<and> (\<forall>b \<in> dom bm. block_ok h bm F b) \<and>
     lists_ok (bnx bm) (bpv bm) (heads (shd sm) (phd mm)) (valid_ids sm P) L \<and>
     lists_placed bm F L X \<and> global_ok sm gh L G E \<and> owned bm mm P F X"

definition lk :: "bool \<Rightarrow> bool \<Rightarrow> lock_t \<Rightarrow> bool" where
  "lk omp held l \<longleftrightarrow> (if held then lock_held omp l else lock_idle omp l)"

definition locks_ok :: "bool \<Rightarrow> (addr \<rightharpoonup> block) \<Rightarrow> (addr \<rightharpoonup> superblock) \<Rightarrow> (addr \<rightharpoonup> mpool) \<Rightarrow> addr set \<Rightarrow> gpool \<Rightarrow>
    addr set \<Rightarrow> addr set \<Rightarrow> addr set \<Rightarrow> bool \<Rightarrow> bool" where
  "locks_ok omp bm sm mm P g HB HS HM hg \<longleftrightarrow> (\<forall>b \<in> dom bm. lk omp (b \<in> HB) (bll bm b)) \<and>
     (\<forall>p \<in> dom sm. lk omp (p \<in> HS) (sll sm p)) \<and> (\<forall>q \<in> P. lk omp (q \<in> HM) (pll mm q)) \<and> lk omp hg (gp_lock g)"

lemma lk_simps [simp]: "lk omp True (got omp l)" "lk omp False (released omp l)"
  "lk omp True l \<longleftrightarrow> lock_held omp l" "lk omp False l \<longleftrightarrow> lock_idle omp l"
  by (simp_all add: lk_def)

lemma shapeD:
  assumes "shape h bm sm mm gh P F L G X E"
  shows "mem_ok h bm sm" "b \<in> dom bm \<Longrightarrow> block_ok h bm F b"
    "lists_ok (bnx bm) (bpv bm) (heads (shd sm) (phd mm)) (valid_ids sm P) L"
    "lists_placed bm F L X" "global_ok sm gh L G E" "q \<in> P \<Longrightarrow> q \<in> dom mm \<and> q \<noteq> NULL"
    "b \<in> dom bm \<Longrightarrow> b \<notin> X \<Longrightarrow> length (F b) \<noteq> 56 \<Longrightarrow> bmp bm b \<in> P"
  using assms by (auto simp: shape_def owned_def)

lemma locksD:
  assumes "locks_ok omp bm sm mm P g HB HS HM hg"
  shows "b \<in> dom bm \<Longrightarrow> b \<notin> HB \<Longrightarrow> lock_idle omp (bll bm b)" "b \<in> dom bm \<Longrightarrow> b \<in> HB \<Longrightarrow> lock_held omp (bll bm b)"
    "p \<in> dom sm \<Longrightarrow> p \<notin> HS \<Longrightarrow> lock_idle omp (sll sm p)" "p \<in> dom sm \<Longrightarrow> p \<in> HS \<Longrightarrow> lock_held omp (sll sm p)"
    "q \<in> P \<Longrightarrow> q \<notin> HM \<Longrightarrow> lock_idle omp (pll mm q)" "q \<in> P \<Longrightarrow> q \<in> HM \<Longrightarrow> lock_held omp (pll mm q)"
    "\<not> hg \<Longrightarrow> lock_idle omp (gp_lock g)" "hg \<Longrightarrow> lock_held omp (gp_lock g)"
  using assms unfolding locks_ok_def by (metis lk_simps(3,4))+

lemma areas_iff: "a \<in> areas b \<longleftrightarrow> (\<exists>j<56. a = nth_area b j)"
  unfolding areas_def image_iff Bex_def lessThan_iff by (rule refl)

lemma memD:
  assumes m: "mem_ok h bm sm"
  shows "b \<in> dom bm \<Longrightarrow> bsb bm b \<in> dom sm \<and> block_at (bsb bm b) b \<and> b \<noteq> NULL"
    and "b \<in> dom bm \<Longrightarrow> a \<in> areas b \<Longrightarrow> a \<in> dom h \<and> a \<noteq> NULL \<and> S_vma_2block a = b"
    and "a \<in> dom h \<Longrightarrow> S_vma_2block a \<in> dom bm \<and> a \<in> areas (S_vma_2block a)"
    and "p \<in> dom sm \<Longrightarrow> placed p \<and> p \<noteq> NULL"
    and "block_at p b \<Longrightarrow> p \<in> dom sm \<Longrightarrow> b \<in> dom bm \<and> bsb bm b = p"
proof -
  have d: "dom bm = {b. \<exists>p \<in> dom sm. block_at p b}" "dom h = {a. \<exists>p \<in> dom sm. vma_at p a}"
    "\<And>p. p \<in> dom sm \<Longrightarrow> placed p" "\<And>p b. p \<in> dom sm \<Longrightarrow> block_at p b \<Longrightarrow> bsb bm b = p"
    using m by (auto simp: mem_ok_def)
  show "p \<in> dom sm \<Longrightarrow> placed p \<and> p \<noteq> NULL" using d(3) by (auto simp: placed_def)
  show "block_at p b \<Longrightarrow> p \<in> dom sm \<Longrightarrow> b \<in> dom bm \<and> bsb bm b = p" using d by auto
  have nz: "b \<noteq> NULL" if t: "placed p" "block_at p b" for p b
  proof -
    obtain i where "i < 63" "b = nth_block p i" using t(2) unfolding block_at_iff by blast
    then have "unat b \<noteq> 0" using unat_nth_block [OF t(1)] by simp
    then show ?thesis by auto
  qed
  show "b \<in> dom bm \<Longrightarrow> bsb bm b \<in> dom sm \<and> block_at (bsb bm b) b \<and> b \<noteq> NULL"
  proof -
    assume "b \<in> dom bm"
    then obtain p where "p \<in> dom sm" "block_at p b" unfolding d(1) by blast
    then show ?thesis using d(3,4) nz by blast
  qed
  have az: "a \<noteq> NULL" if t: "placed p" "block_at p b" "a \<in> areas b" for p b a
  proof -
    obtain i j where "i < 63" "j < 56" "a = nth_area (nth_block p i) j" using t(2,3) unfolding block_at_iff areas_iff by blast
    then have "unat a \<noteq> 0" using unat_nth_area [OF t(1)] by simp
    then show ?thesis by auto
  qed
  show "b \<in> dom bm \<Longrightarrow> a \<in> areas b \<Longrightarrow> a \<in> dom h \<and> a \<noteq> NULL \<and> S_vma_2block a = b"
  proof -
    assume "b \<in> dom bm" "a \<in> areas b"
    then obtain p where pb: "p \<in> dom sm" "block_at p b" unfolding d(1) by blast
    then have "a \<in> dom h" unfolding d(2) vma_at_areas using \<open>a \<in> areas b\<close> by blast
    then show ?thesis using az area_block d(3) pb \<open>a \<in> areas b\<close> by blast
  qed
  show "a \<in> dom h \<Longrightarrow> S_vma_2block a \<in> dom bm \<and> a \<in> areas (S_vma_2block a)"
  proof -
    assume "a \<in> dom h"
    then obtain p b where pb: "p \<in> dom sm" "block_at p b" "a \<in> areas b" unfolding d(2) vma_at_areas by blast
    then have "S_vma_2block a = b" using area_block d(3) by blast
    then show ?thesis using pb d(1) by blast
  qed
qed

subsection \<open>Using and preserving the parts\<close>

lemma placedD:
  assumes "lists_placed bm F L X"
  shows "b \<in> set (L i) \<Longrightarrow> b \<in> dom bm" "b \<in> dom bm \<Longrightarrow> b \<notin> X \<Longrightarrow> b \<in> set (L i) \<longleftrightarrow> loc F bm b = Some i"
  using assms unfolding lists_placed_def by blast+

lemma placedI:
  assumes "\<And>i b. b \<in> set (L i) \<Longrightarrow> b \<in> dom bm" "\<And>b i. b \<in> dom bm \<Longrightarrow> b \<notin> X \<Longrightarrow> b \<in> set (L i) \<longleftrightarrow> loc F bm b = Some i"
  shows "lists_placed bm F L X"
  using assms unfolding lists_placed_def by blast

lemma loc_cong: "F' b = F b \<Longrightarrow> bsb bm' b = bsb bm b \<Longrightarrow> bmp bm' b = bmp bm b \<Longrightarrow> loc F' bm' b = loc F bm b"
  by (simp add: loc_def)

lemma mem_ok_cong: "mem_ok h bm sm \<Longrightarrow> dom h' = dom h \<Longrightarrow> dom bm' = dom bm \<Longrightarrow> dom sm' = dom sm \<Longrightarrow> bsb bm' = bsb bm \<Longrightarrow>
    mem_ok h' bm' sm'"
  by (simp add: mem_ok_def)

lemma block_ok_cong:
  "block_ok h bm F b \<Longrightarrow> (\<And>a. a \<in> areas b \<Longrightarrow> fnx h' a = fnx h a) \<Longrightarrow> F' b = F b \<Longrightarrow> bhd bm' b = bhd bm b \<Longrightarrow>
     bvc bm' b = bvc bm b \<Longrightarrow> block_ok h' bm' F' b"
  unfolding block_ok_def using seg_cong [of "F b" "fnx h'" "fnx h"] by (metis subset_iff)

lemma global_ok_cong:
  "global_ok sm gh L G E \<Longrightarrow> snx sm' = snx sm \<Longrightarrow> spv sm' = spv sm \<Longrightarrow> sbc sm' = sbc sm \<Longrightarrow> dom sm' = dom sm \<Longrightarrow>
     (\<And>p. L' (Sb p) = L (Sb p)) \<Longrightarrow> global_ok sm' gh L' G E"
  by (simp add: global_ok_def)

end
