(* ===== verification/Alloc_Setup.thy ===== *)
theory Alloc_Setup
  imports Alloc_Inv
begin

section \<open>Setting up a superblock\<close>

text \<open>
  The two nested loops of \<open>S_superblock_list_setup\<close> on memory with arbitrary contents: every
  block ends up empty and unlocked, the blocks form a list, the areas of each block form a list.
\<close>

lemma nth_area_Suc: "nth_area b (Suc j) = nth_area b j + sizeof_vm_area"
  by (simp add: nth_area_def sizeof_vm_area_def algebra_simps)

lemma nth_block_Suc: "nth_block p (Suc i) = nth_block p i + BLOCK_SIZE"
  by (simp add: nth_block_def BLOCK_SIZE_def algebra_simps)

lemma nth_first: "nth_area b 0 = b + sizeof_block" "nth_block p 0 = p + BLOCK_SIZE"
  by (simp_all add: nth_area_def nth_block_def sizeof_block_def BLOCK_SIZE_def)

lemma nth_area_in: "j < 56 \<Longrightarrow> nth_area b j \<in> areas b"
  by (auto simp: areas_iff)

lemma nth_block_at: "i < 63 \<Longrightarrow> block_at p (nth_block p i)"
  by (auto simp: block_at_iff)

lemma nth_area_neq: "i < 56 \<Longrightarrow> j < 56 \<Longrightarrow> nth_area b i = nth_area b j \<longleftrightarrow> i = j"
  using area_inj [of b] by (auto simp: inj_on_def)

lemma nth_block_neq: "i < 63 \<Longrightarrow> j < 63 \<Longrightarrow> nth_block p i = nth_block p j \<longleftrightarrow> i = j"
  using block_inj [of p] by (auto simp: inj_on_def)

text \<open>The areas of a block become a list.\<close>

lemma setup_vmas_loop:
  assumes "areas b \<subseteq> dom h" and "NULL \<notin> areas b" and "n \<le> 55"
  shows "\<exists>h'. for_each [0..<n] (\<lambda>j vma. bnd (upd_vma vma (\<lambda>v. v\<lparr>vm_next := vma + sizeof_vm_area\<rparr>)) (\<lambda>_. get_field vm_next vma))
      (nth_area b 0) (aw s h bm sm mm g) = Inr (nth_area b n, aw s h' bm sm mm g) \<and> dom h' = dom h \<and>
      (\<forall>j<n. fnx h' (nth_area b j) = nth_area b (Suc j)) \<and> (\<forall>a. a \<notin> areas b \<longrightarrow> h' a = h a)"
  using assms(3)
proof (induction n)
  case (Suc n)
  then obtain h' where IH: "for_each [0..<n] (\<lambda>j vma. bnd (upd_vma vma (\<lambda>v. v\<lparr>vm_next := vma + sizeof_vm_area\<rparr>)) (\<lambda>_. get_field vm_next vma))
      (nth_area b 0) (aw s h bm sm mm g) = Inr (nth_area b n, aw s h' bm sm mm g)" "dom h' = dom h"
      "\<forall>j<n. fnx h' (nth_area b j) = nth_area b (Suc j)" "\<forall>a. a \<notin> areas b \<longrightarrow> h' a = h a" by auto
  have a: "nth_area b n \<in> areas b" using Suc.prems by (simp add: nth_area_in)
  then have d: "nth_area b n \<in> dom h'" "nth_area b n \<noteq> NULL" using assms(1,2) IH(2) by auto
  let ?h = "hupd (nth_area b n) (\<lambda>v. v\<lparr>vm_next := nth_area b n + sizeof_vm_area\<rparr>) h'"
  have "\<forall>j<Suc n. fnx ?h (nth_area b j) = nth_area b (Suc j)"
    using IH(3) Suc.prems by (auto simp: less_Suc_eq nth_area_neq nth_area_Suc)
  moreover have "\<forall>x. x \<notin> areas b \<longrightarrow> ?h x = h x" using IH(4) a by (auto intro: hupd_other [THEN trans])
  moreover have "dom ?h = dom h" using d IH(2) by (simp add: insert_absorb)
  moreover have "for_each [0..<Suc n] (\<lambda>j vma. bnd (upd_vma vma (\<lambda>v. v\<lparr>vm_next := vma + sizeof_vm_area\<rparr>)) (\<lambda>_. get_field vm_next vma))
      (nth_area b 0) (aw s h bm sm mm g) = Inr (nth_area b (Suc n), aw s ?h bm sm mm g)"
    using for_each_snoc [OF IH(1), of n] d by (simp add: bnd_def nth_area_Suc)
  ultimately show ?case by blast
qed (auto intro!: exI [of _ h])

lemma seg_map: "(\<And>j. j < n \<Longrightarrow> f (g j) = (if Suc j < n then g (Suc j) else NULL)) \<Longrightarrow> i \<le> n \<Longrightarrow> seg f (map g [i..<n])"
proof (induction "n - i" arbitrary: i)
  case (Suc k)
  then have "i < n" by simp
  then have u: "map g [i..<n] = g i # map g [Suc i..<n]" by (simp add: upt_conv_Cons)
  have "seg f (map g [Suc i..<n])" using Suc \<open>i < n\<close> by auto
  moreover have "hd0 (map g [Suc i..<n]) NULL = (if Suc i < n then g (Suc i) else NULL)" by (simp add: upt_conv_Cons)
  ultimately show ?case using Suc.prems(1) [OF \<open>i < n\<close>] unfolding u by simp
qed simp

lemma dseg_map:
  "(\<And>j. j < n \<Longrightarrow> f (g j) = (if Suc j < n then g (Suc j) else NULL)) \<Longrightarrow> (\<And>j. Suc j < n \<Longrightarrow> p (g (Suc j)) = g j) \<Longrightarrow>
   i < n \<Longrightarrow> dseg f p (p (g i)) (map g [i..<n]) NULL"
proof (induction "n - i" arbitrary: i)
  case (Suc k)
  then have u: "map g [i..<n] = g i # map g [Suc i..<n]" by (simp add: upt_conv_Cons)
  have "dseg f p (g i) (map g [Suc i..<n]) NULL"
  proof (cases "Suc i < n")
    case True
    have "k = n - Suc i" using Suc.hyps(2) by simp
    then have "dseg f p (p (g (Suc i))) (map g [Suc i..<n]) NULL" using Suc.hyps(1) Suc.prems(1,2) True by blast
    then show ?thesis using Suc.prems(2) [OF True] by simp
  qed simp
  moreover have "hd0 (map g [Suc i..<n]) NULL = (if Suc i < n then g (Suc i) else NULL)" by (simp add: upt_conv_Cons)
  ultimately show ?case using Suc.prems(1) [OF Suc.prems(3)] unfolding u by simp
qed simp

lemma setup_vmas_run:
  assumes "areas b \<subseteq> dom h" and "NULL \<notin> areas b"
  shows "\<exists>h'. bnd (setup_vmas (nth_area b 0)) (\<lambda>vma. upd_vma vma (\<lambda>v. v\<lparr>vm_next := NULL\<rparr>)) (aw s h bm sm mm g) =
       Inr ((), aw s h' bm sm mm g) \<and> dom h' = dom h \<and>
      seg (fnx h') (map (nth_area b) [0..<56]) \<and> (\<forall>a. a \<notin> areas b \<longrightarrow> h' a = h a)"
proof -
  obtain h' where r: "for_each [0..<55] (\<lambda>j vma. bnd (upd_vma vma (\<lambda>v. v\<lparr>vm_next := vma + sizeof_vm_area\<rparr>)) (\<lambda>_. get_field vm_next vma))
      (nth_area b 0) (aw s h bm sm mm g) = Inr (nth_area b 55, aw s h' bm sm mm g)" "dom h' = dom h"
      "\<forall>j<55. fnx h' (nth_area b j) = nth_area b (Suc j)" "\<forall>a. a \<notin> areas b \<longrightarrow> h' a = h a"
    using setup_vmas_loop [OF assms, of 55] by blast
  have a: "nth_area b 55 \<in> areas b" by (simp add: nth_area_in)
  then have d: "nth_area b 55 \<in> dom h'" "nth_area b 55 \<noteq> NULL" using assms r(2) by auto
  let ?h = "hupd (nth_area b 55) (\<lambda>v. v\<lparr>vm_next := NULL\<rparr>) h'"
  have "seg (fnx ?h) (map (nth_area b) [0..<56])"
  proof (rule seg_map)
    fix j :: nat assume "j < 56"
    then show "fnx ?h (nth_area b j) = (if Suc j < 56 then nth_area b (Suc j) else NULL)"
      using r(3) by (cases "j = 55") (auto simp: nth_area_neq)
  qed simp
  moreover have "\<forall>x. x \<notin> areas b \<longrightarrow> ?h x = h x" using r(4) a by (auto intro: hupd_other [THEN trans])
  moreover have "dom ?h = dom h" using d r(2) by (simp add: insert_absorb)
  ultimately show ?thesis using d r(1)
    by (intro exI [of _ ?h]) (simp add: setup_vmas_def full_counts bnd_def)
qed

text \<open>One block. \<open>fresh_block\<close>: what the setup establishes for block number \<open>i\<close>.\<close>

definition fresh_block :: "bool \<Rightarrow> heap \<Rightarrow> (addr \<rightharpoonup> block) \<Rightarrow> addr \<Rightarrow> nat \<Rightarrow> bool" where
  "fresh_block omp h bm p i \<longleftrightarrow> (let k = nth_block p i in
     bvc bm k = 0 \<and> bsb bm k = p \<and> bhd bm k = nth_area k 0 \<and> lock_idle omp (bll bm k) \<and>
     bnx bm k = (if Suc i < 63 then nth_block p (Suc i) else NULL) \<and>
     (Suc i < 63 \<longrightarrow> bpv bm (nth_block p (Suc i)) = k) \<and>
     seg (fnx h) (map (nth_area k) [0..<56]))"

lemma setup_block_run:
  assumes i: "i < 63" and p: "placed p" "{b. block_at p b} \<subseteq> dom bm" "{a. vma_at p a} \<subseteq> dom h"
  defines "k \<equiv> nth_block p i"
  shows "\<exists>h' bm'. setup_block p i k (aw s h bm sm mm g) =
       Inr (if Suc i < 63 then nth_block p (Suc i) else NULL, aw s h' bm' sm mm g) \<and> dom h' = dom h \<and> dom bm' = dom bm \<and>
     fresh_block (openmp s) h' bm' p i \<and> (\<forall>a. a \<notin> areas k \<longrightarrow> h' a = h a) \<and>
     (\<forall>b. b \<noteq> k \<and> (Suc i < 63 \<longrightarrow> b \<noteq> nth_block p (Suc i)) \<longrightarrow> bm' b = bm b) \<and>
     bpv bm' k = bpv bm k"
proof -
  have k: "block_at p k" unfolding k_def by (rule nth_block_at [OF i])
  have kd: "k \<in> dom bm" "k \<noteq> NULL"
  proof -
    show "k \<in> dom bm" using p(2) k by blast
    show "k \<noteq> NULL" using unat_nth_block [OF p(1) i] by (auto simp: k_def)
  qed
  have nd: "nth_block p (Suc i) \<in> dom bm" "nth_block p (Suc i) \<noteq> NULL" "nth_block p (Suc i) \<noteq> k" if "Suc i < 63"
  proof -
    show "nth_block p (Suc i) \<in> dom bm" using p(2) nth_block_at [OF that] by blast
    show "nth_block p (Suc i) \<noteq> NULL" using unat_nth_block [OF p(1) that] by auto
    show "nth_block p (Suc i) \<noteq> k" using nth_block_neq [OF that i] by (simp add: k_def)
  qed
  have A: "areas k \<subseteq> dom h" using p(3) k by (auto simp: vma_at_areas)
  have N: "NULL \<notin> areas k"
  proof
    assume "NULL \<in> areas k"
    then obtain j where "j < 56" "NULL = nth_area k j" by (auto simp: areas_iff)
    then show False using unat_nth_area [OF p(1) i, of j] by (simp add: k_def)
  qed
  define b1 where "b1 = mupd k (\<lambda>b. b\<lparr>b_head := nth_area k 0\<rparr>) (mupd k (\<lambda>b. b\<lparr>b_superblock := p\<rparr>)
     (mupd k (\<lambda>b. b\<lparr>b_lctr := 0\<rparr>) (mupd k (\<lambda>b. b\<lparr>b_vctr := 0\<rparr>) bm)))"
  define b2 where "b2 = (if Suc i < 63 then mupd (nth_block p (Suc i)) (\<lambda>b. b\<lparr>b_prev := k\<rparr>)
       (mupd k (\<lambda>b. b\<lparr>b_next := nth_block p (Suc i)\<rparr>) b1) else mupd k (\<lambda>b. b\<lparr>b_next := NULL\<rparr>) b1)"
  define b3 where "b3 = mupd k (\<lambda>b. b\<lparr>b_lock := released (openmp s) (bll b2 k)\<rparr>) b2"
  have d1: "dom b1 = dom bm" "dom b2 = dom bm" "dom b3 = dom bm" using kd nd by (auto simp: b1_def b2_def b3_def)
  obtain h' where sv: "bnd (setup_vmas (nth_area k 0)) (\<lambda>vma. upd_vma vma (\<lambda>v. v\<lparr>vm_next := NULL\<rparr>)) (aw s h b3 sm mm g) =
       Inr ((), aw s h' b3 sm mm g)" and h': "dom h' = dom h" "seg (fnx h') (map (nth_area k) [0..<56])" "\<forall>a. a \<notin> areas k \<longrightarrow> h' a = h a"
    using setup_vmas_run [OF A N] by blast
  obtain va sa where sva: "setup_vmas (nth_area k 0) (aw s h b3 sm mm g) = Inr (va, sa)"
    "upd_vma va (\<lambda>v. v\<lparr>vm_next := NULL\<rparr>) sa = Inr ((), aw s h' b3 sm mm g)" using sv by (auto simp: bnd_eq_Inr)
  have lk: "blk_with_lock lock_init k (aw s h b2 sm mm g) = Inr ((), aw s h b3 sm mm g)"
    using kd d1(2) by (simp add: b3_def)
  have hd3: "bhd b3 k = nth_area k 0" by (auto simp: b3_def b2_def b1_def)
  have nx3: "bnx b3 k = (if Suc i < 63 then nth_block p (Suc i) else NULL)" using nd(3) by (auto simp: b3_def b2_def)
  have c62: "(62 = i) = (\<not> Suc i < 63)" using i by auto
  have sz: "k + BLOCK_SIZE = nth_block p (Suc i)" "k + sizeof_block = nth_area k 0"
    by (simp_all add: k_def nth_block_Suc nth_first)
  have run: "setup_block p i k (aw s h bm sm mm g) = Inr (bnx b3 k, aw s h' b3 sm mm g)"
  proof (cases "Suc i < 63")
    case True
    then have "b2 = mupd (nth_block p (Suc i)) (\<lambda>b. b\<lparr>b_prev := k\<rparr>) (mupd k (\<lambda>b. b\<lparr>b_next := nth_block p (Suc i)\<rparr>) b1)"
      by (simp add: b2_def)
    then have b2: "mupd (nth_block p (Suc i)) (\<lambda>b. b\<lparr>b_prev := k\<rparr>) (mupd k (\<lambda>b. b\<lparr>b_next := nth_block p (Suc i)\<rparr>)
      (mupd k (\<lambda>b. b\<lparr>b_head := nth_area k 0\<rparr>) (mupd k (\<lambda>b. b\<lparr>b_superblock := p\<rparr>)
     (mupd k (\<lambda>b. b\<lparr>b_lctr := 0\<rparr>) (mupd k (\<lambda>b. b\<lparr>b_vctr := 0\<rparr>) bm))))) = b2" by (simp add: b1_def)
    show ?thesis using True kd nd [OF True] d1 lk hd3 sva c62
      by (simp add: setup_block_def full_counts bnd_def sz b2)
  next
    case False
    then have "b2 = mupd k (\<lambda>b. b\<lparr>b_next := NULL\<rparr>) b1" by (simp add: b2_def)
    then have b2: "mupd k (\<lambda>b. b\<lparr>b_next := NULL\<rparr>)
      (mupd k (\<lambda>b. b\<lparr>b_head := nth_area k 0\<rparr>) (mupd k (\<lambda>b. b\<lparr>b_superblock := p\<rparr>)
     (mupd k (\<lambda>b. b\<lparr>b_lctr := 0\<rparr>) (mupd k (\<lambda>b. b\<lparr>b_vctr := 0\<rparr>) bm)))) = b2" by (simp add: b1_def)
    show ?thesis using False kd d1 lk hd3 sva c62
      by (simp add: setup_block_def full_counts bnd_def sz b2)
  qed
  have other: "b3 b = bm b" if "b \<noteq> k" "Suc i < 63 \<longrightarrow> b \<noteq> nth_block p (Suc i)" for b
    using that by (simp add: b3_def b2_def b1_def mupd_other)
  have fr: "fresh_block (openmp s) h' b3 p i"
    unfolding fresh_block_def Let_def k_def [symmetric]
    using h'(2) hd3 nx3 nd(3) by (auto simp: b3_def b2_def b1_def)
  have vc: "bpv b3 k = bpv bm k"
    using nd(3) by (auto simp: b3_def b2_def b1_def)
  show ?thesis unfolding nx3 [symmetric]
    using run d1(3) h'(1,3) fr other vc by (intro exI [of _ h'] exI [of _ b3]) blast
qed

lemma areas_of_block: "block_at p b \<Longrightarrow> a \<in> areas b \<Longrightarrow> vma_at p a"
  by (auto simp: vma_at_areas)

lemma areas_disjoint: "placed p \<Longrightarrow> block_at p b \<Longrightarrow> block_at p c \<Longrightarrow> a \<in> areas b \<Longrightarrow> a \<in> areas c \<Longrightarrow> b = c"
  using area_block by blast

lemma fresh_block_cong:
  assumes "fresh_block omp h bm p i" and "bm' (nth_block p i) = bm (nth_block p i)"
    and "Suc i < 63 \<Longrightarrow> bpv bm' (nth_block p (Suc i)) = bpv bm (nth_block p (Suc i))"
    and "\<And>a. a \<in> areas (nth_block p i) \<Longrightarrow> h' a = h a"
  shows "fresh_block omp h' bm' p i"
proof -
  have "seg (fnx h') (map (nth_area (nth_block p i)) [0..<56]) = seg (fnx h) (map (nth_area (nth_block p i)) [0..<56])"
    by (rule seg_cong) (use assms(4) in \<open>auto simp: fnx_def nth_area_in\<close>)
  then show ?thesis using assms(1-3) by (simp add: fresh_block_def Let_def blk_views)
qed

lemma setup_blocks_loop:
  assumes p: "placed p" "{b. block_at p b} \<subseteq> dom bm" "{a. vma_at p a} \<subseteq> dom h" and n: "n \<le> 63"
  shows "\<exists>h' bm'. for_each [0..<n] (setup_block p) (nth_block p 0) (aw s h bm sm mm g) =
       Inr (if n < 63 then nth_block p n else NULL, aw s h' bm' sm mm g) \<and> dom h' = dom h \<and> dom bm' = dom bm \<and>
     (\<forall>i<n. fresh_block (openmp s) h' bm' p i) \<and> (\<forall>a. \<not> vma_at p a \<longrightarrow> h' a = h a) \<and> (\<forall>b. \<not> block_at p b \<longrightarrow> bm' b = bm b) \<and>
     bpv bm' (nth_block p 0) = bpv bm (nth_block p 0)"
  using n
proof (induction n)
  case 0
  then show ?case by (auto intro!: exI [of _ h] exI [of _ bm])
next
  case (Suc n)
  then have n: "n < 63" by simp
  with Suc obtain h1 b1 where r1: "for_each [0..<n] (setup_block p) (nth_block p 0) (aw s h bm sm mm g) =
       Inr (nth_block p n, aw s h1 b1 sm mm g)" and d1: "dom h1 = dom h" "dom b1 = dom bm"
     and f1: "\<forall>i<n. fresh_block (openmp s) h1 b1 p i" and o1: "\<forall>a. \<not> vma_at p a \<longrightarrow> h1 a = h a" "\<forall>b. \<not> block_at p b \<longrightarrow> b1 b = bm b"
      "bpv b1 (nth_block p 0) = bpv bm (nth_block p 0)"
    by auto
  obtain h2 b2 where r2: "setup_block p n (nth_block p n) (aw s h1 b1 sm mm g) =
       Inr (if Suc n < 63 then nth_block p (Suc n) else NULL, aw s h2 b2 sm mm g)" and d2: "dom h2 = dom h1" "dom b2 = dom b1"
     and f2: "fresh_block (openmp s) h2 b2 p n" and o2: "\<forall>a. a \<notin> areas (nth_block p n) \<longrightarrow> h2 a = h1 a"
       "\<forall>b. b \<noteq> nth_block p n \<and> (Suc n < 63 \<longrightarrow> b \<noteq> nth_block p (Suc n)) \<longrightarrow> b2 b = b1 b"
     and pv: "bpv b2 (nth_block p n) = bpv b1 (nth_block p n)"
    using setup_block_run [OF n p(1), of b1 h1 s sm mm g] p(2,3) d1 by auto
  have "fresh_block (openmp s) h2 b2 p i" if "i < Suc n" for i
  proof (cases "i = n")
    case False
    then have i: "i < n" "i < 63" using that n by auto
    have ne: "nth_block p i \<noteq> nth_block p n" using nth_block_neq [OF i(2) n] i by simp
    have ne2: "Suc n < 63 \<Longrightarrow> nth_block p i \<noteq> nth_block p (Suc n)" using nth_block_neq [OF i(2), of "Suc n" p] i by simp
    show ?thesis
    proof (rule fresh_block_cong [where h = h1 and bm = b1])
      show "fresh_block (openmp s) h1 b1 p i" using f1 i by blast
      show "b2 (nth_block p i) = b1 (nth_block p i)" using o2(2) ne ne2 by blast
      show "h2 a = h1 a" if "a \<in> areas (nth_block p i)" for a
        using o2(1) areas_disjoint [OF p(1) nth_block_at [OF i(2)] nth_block_at [OF n] that] ne by blast
      assume s: "Suc i < 63"
      show "bpv b2 (nth_block p (Suc i)) = bpv b1 (nth_block p (Suc i))"
      proof (cases "Suc i = n")
        case False
        then have "nth_block p (Suc i) \<noteq> nth_block p n" "Suc n < 63 \<longrightarrow> nth_block p (Suc i) \<noteq> nth_block p (Suc n)"
          using nth_block_neq [OF s n] nth_block_neq [OF s, of "Suc n" p] i by auto
        then show ?thesis using o2(2) by (simp add: bpv_def)
      qed (use pv in simp)
    qed
  qed (use f2 in simp)
  moreover have "\<forall>a. \<not> vma_at p a \<longrightarrow> h2 a = h a" using o1(1) o2(1) areas_of_block [OF nth_block_at [OF n]] by metis
  moreover have "\<forall>b. \<not> block_at p b \<longrightarrow> b2 b = bm b"
  proof (intro allI impI)
    fix b assume b: "\<not> block_at p b"
    then have "b \<noteq> nth_block p n \<and> (Suc n < 63 \<longrightarrow> b \<noteq> nth_block p (Suc n))" using nth_block_at n by blast
    then show "b2 b = bm b" using o1(2) o2(2) b by simp
  qed
  moreover have "for_each [0..<Suc n] (setup_block p) (nth_block p 0) (aw s h bm sm mm g) =
       Inr (if Suc n < 63 then nth_block p (Suc n) else NULL, aw s h2 b2 sm mm g)"
    using for_each_snoc [OF r1, of n] r2 by simp
  moreover have "bpv b2 (nth_block p 0) = bpv bm (nth_block p 0)"
  proof (cases "n = 0")
    case False
    then have "nth_block p 0 \<noteq> nth_block p n" "Suc n < 63 \<longrightarrow> nth_block p 0 \<noteq> nth_block p (Suc n)"
      using nth_block_neq [of 0 n p] nth_block_neq [of 0 "Suc n" p] n by auto
    then show ?thesis using o2(2) o1(3) by (simp add: bpv_def)
  qed (use pv o1(3) in simp)
  ultimately show ?case using d1 d2 by blast
qed

lemma list_setup_run:
  assumes p: "placed p" "{b. block_at p b} \<subseteq> dom bm" "{a. vma_at p a} \<subseteq> dom h" and sm: "p \<in> dom sm"
  shows "\<exists>h' bm'. S_superblock_list_setup p (aw s h bm sm mm g) =
       Inr ((), aw s h' bm' (mupd p (\<lambda>b. b\<lparr>sb_head := nth_block p 0\<rparr>) sm) mm g) \<and> dom h' = dom h \<and> dom bm' = dom bm \<and>
     (\<forall>i<63. fresh_block (openmp s) h' bm' p i) \<and> (\<forall>a. \<not> vma_at p a \<longrightarrow> h' a = h a) \<and> (\<forall>b. \<not> block_at p b \<longrightarrow> bm' b = bm b) \<and>
     bpv bm' (nth_block p 0) = NULL"
proof -
  have b: "nth_block p 0 \<in> dom bm" using p(2) nth_block_at [of 0 p] by auto
  have n: "nth_block p 0 \<noteq> NULL" "p \<noteq> NULL" using unat_nth_block [OF p(1), of 0] p(1) by (auto simp: placed_def)
  let ?bm = "mupd (nth_block p 0) (\<lambda>b. b\<lparr>b_prev := NULL\<rparr>) bm" and ?sm = "mupd p (\<lambda>b. b\<lparr>sb_head := nth_block p 0\<rparr>) sm"
  have "{b. block_at p b} \<subseteq> dom ?bm" using p(2) by auto
  then obtain h' bm' where r: "for_each [0..<63] (setup_block p) (nth_block p 0) (aw s h ?bm ?sm mm g) = Inr (NULL, aw s h' bm' ?sm mm g)"
    "dom h' = dom h" "dom bm' = dom ?bm" "\<forall>i<63. fresh_block (openmp s) h' bm' p i" "\<forall>a. \<not> vma_at p a \<longrightarrow> h' a = h a"
    "\<forall>b. \<not> block_at p b \<longrightarrow> bm' b = ?bm b" "bpv bm' (nth_block p 0) = bpv ?bm (nth_block p 0)"
    using setup_blocks_loop [OF p(1) _ p(3), of ?bm 63 s ?sm mm g] by auto
  have "S_superblock_list_setup p (aw s h bm sm mm g) = Inr ((), aw s h' bm' ?sm mm g)"
    using b n sm r(1) by (simp add: S_superblock_list_setup_def bnd_def full_counts nth_first)
  moreover have "dom bm' = dom bm" using r(3) b by auto
  moreover have "\<forall>b. \<not> block_at p b \<longrightarrow> bm' b = bm b" using r(6) nth_block_at [of 0 p] by (auto simp: mupd_def)
  moreover have "bpv bm' (nth_block p 0) = NULL" using r(7) by simp
  ultimately show ?thesis using r(2,4,5) by blast
qed

end
