(* ===== verification/Alloc_System.thy ===== *)
theory Alloc_System
  imports Alloc_Setup
begin

section \<open>A superblock from the system\<close>

text \<open>
  \<open>os_contract\<close> states what the allocator relies on of \<open>posix_memalign\<close>: aligned memory that
  does not overlap memory already given out. \<open>S_superblock_get_and_lock\<close> in its three cases, and
  the invariant after a new superblock.
\<close>

subsection \<open>Disjoint superblocks\<close>

lemma block_at_range: "placed p \<Longrightarrow> block_at p b \<Longrightarrow> unat p < unat b \<and> unat b < unat p + 262144"
  using unat_nth_block unfolding block_at_iff by fastforce

lemma apart_blocks: "placed p \<Longrightarrow> placed q \<Longrightarrow> apart p q \<Longrightarrow> block_at p b \<Longrightarrow> \<not> block_at q b"
  using block_at_range [of p b] block_at_range [of q b] unfolding apart_def by linarith

lemma apart_areas: "placed p \<Longrightarrow> placed q \<Longrightarrow> apart p q \<Longrightarrow> vma_at p a \<Longrightarrow> \<not> vma_at q a"
  unfolding vma_at_areas using apart_blocks area_block by metis

lemma apart_sym: "apart p q \<Longrightarrow> apart q p"
  by (auto simp: apart_def)

definition os_contract :: "'y ast_scheme \<Rightarrow> bool" where
  "os_contract s \<longleftrightarrow> (\<forall>A i. let p = os_alloc s A i in p \<noteq> NULL \<longrightarrow>
     placed p \<and> (\<forall>q \<in> A. apart p q) \<and> \<not> vma_at p (frame_n s))"

lemma os_contractD:
  assumes "os_contract s" and "p = os_alloc s A i" and "p \<noteq> NULL"
  shows "placed p" "q \<in> A \<Longrightarrow> apart p q" "\<not> vma_at p (frame_n s)" "p \<notin> A"
proof -
  have *: "placed p \<and> (\<forall>q \<in> A. apart p q) \<and> \<not> vma_at p (frame_n s)"
    using assms unfolding os_contract_def Let_def by blast
  then show "placed p" "q \<in> A \<Longrightarrow> apart p q" "\<not> vma_at p (frame_n s)" by blast+
  show "p \<notin> A" using * by (auto simp: apart_def)
qed

subsection \<open>A superblock from the system\<close>

definition called :: "'y ast_scheme \<Rightarrow> 'y ast_scheme" where
  "called s = s\<lparr>os_calls := Suc (os_calls s)\<rparr>"

lemma called_sel [simp]:
  "openmp (called s) = openmp s" "OOC_PAGE_SIZE (called s) = OOC_PAGE_SIZE s" "vma_tree (called s) = vma_tree s"
  "frame_n (called s) = frame_n s" "S_init (called s) = S_init s" "self (called s) = self s" "os_alloc (called s) = os_alloc s"
  "os_contract (called s) = os_contract s"
  by (simp_all add: called_def os_contract_def)

lemma CALL_SYS_ALLOC_w:
  "CALL_SYS_ALLOC (aw s h bm sm mm g) =
     (let p = os_alloc s (dom sm) (os_calls s) in
      if p = NULL then Inr (NULL, aw (called s) h bm sm mm g)
      else Inr (p, aw (called s) (\<lambda>a. if vma_at p a then Some (os_vma s a) else h a)
                    (\<lambda>a. if block_at p a then Some (os_blk s a) else bm a) (sm(p \<mapsto> os_sb s p)) mm g))"
  by (simp add: CALL_SYS_ALLOC_def aw_def called_def Let_def cong: if_cong)

lemma get_and_lock_fail:
  assumes "gp_head g = NULL" and "os_alloc s (dom sm) (os_calls s) = NULL"
  shows "S_superblock_get_and_lock (aw s h bm sm mm g) = Inr (NULL, aw (called s) h bm sm mm g)"
  using assms by (simp add: S_superblock_get_and_lock_def bnd_def CALL_SYS_ALLOC_w)

lemma get_and_lock_old:
  assumes "p = gp_head g" "p \<noteq> NULL" "p \<in> dom sm" "lock_idle (openmp s) (sll sm p)"
  shows "S_superblock_get_and_lock (aw s h bm sm mm g) =
     Inr (p, aw s h bm (mupd p (\<lambda>b. b\<lparr>sb_lock := got (openmp s) (sll sm p)\<rparr>) sm) mm g)"
  using assms by (simp add: S_superblock_get_and_lock_def bnd_def)

lemma get_and_lock_new:
  assumes g: "gp_head g = NULL" and p: "p = os_alloc s (dom sm) (os_calls s)" "p \<noteq> NULL" "placed p"
  shows "\<exists>h' bm' sm'. S_superblock_get_and_lock (aw s h bm sm mm g) =
       Inr (p, aw (called s) h' bm' sm' mm (g\<lparr>gp_actr := gp_actr g + 1, gp_head := p\<rparr>)) \<and>
     dom h' = dom h \<union> {a. vma_at p a} \<and> dom bm' = dom bm \<union> {b. block_at p b} \<and> dom sm' = insert p (dom sm) \<and>
     (\<forall>i<63. fresh_block (openmp s) h' bm' p i) \<and> (\<forall>a. \<not> vma_at p a \<longrightarrow> h' a = h a) \<and>
     (\<forall>b. \<not> block_at p b \<longrightarrow> bm' b = bm b) \<and> (\<forall>q. q \<noteq> p \<longrightarrow> sm' q = sm q) \<and>
     sbc sm' p = 0 \<and> shd sm' p = nth_block p 0 \<and> snx sm' p = NULL \<and> lock_held (openmp s) (sll sm' p) \<and>
     spv sm' p = NULL \<and> bpv bm' (nth_block p 0) = NULL"
proof -
  let ?h = "\<lambda>a. if vma_at p a then Some (os_vma s a) else h a"
  let ?b = "\<lambda>a. if block_at p a then Some (os_blk s a) else bm a"
  define s0 where "s0 = mupd p (\<lambda>b. b\<lparr>sb_blctr := 0\<rparr>) (mupd p (\<lambda>b. b\<lparr>sb_lctr := 0\<rparr>) (mupd p (\<lambda>b. b\<lparr>sb_bctr := 0\<rparr>)
     (mupd p (\<lambda>b. b\<lparr>sb_next := NULL\<rparr>) (mupd p (\<lambda>b. b\<lparr>sb_prev := NULL\<rparr>) (sm(p \<mapsto> os_sb s p))))))"
  define s1 where "s1 = mupd p (\<lambda>b. b\<lparr>sb_lock := released (openmp s) (sll s0 p)\<rparr>) s0"
  define s2 where "s2 = mupd p (\<lambda>b. b\<lparr>sb_head := nth_block p 0\<rparr>) s1"
  define s3 where "s3 = mupd p (\<lambda>b. b\<lparr>sb_lock := got (openmp s) (sll s2 p)\<rparr>) s2"
  let ?g = "g\<lparr>gp_actr := gp_actr g + 1, gp_head := p\<rparr>"
  have d: "dom s0 = insert p (dom sm)" "dom s1 = insert p (dom sm)" "dom s2 = insert p (dom sm)" "dom s3 = insert p (dom sm)"
    by (auto simp: s0_def s1_def s2_def s3_def)
  have dh: "dom ?h = dom h \<union> {a. vma_at p a}" "dom ?b = dom bm \<union> {b. block_at p b}" by (auto simp: dom_def)
  obtain h' bm' where r: "S_superblock_list_setup p (aw (called s) ?h ?b s1 mm ?g) = Inr ((), aw (called s) h' bm' s2 mm ?g)"
    and hb: "dom h' = dom ?h" "dom bm' = dom ?b" "\<forall>i<63. fresh_block (openmp s) h' bm' p i"
      "\<forall>a. \<not> vma_at p a \<longrightarrow> h' a = ?h a" "\<forall>b. \<not> block_at p b \<longrightarrow> bm' b = ?b b"
      "bpv bm' (nth_block p 0) = NULL"
    using list_setup_run [OF p(3), of ?b ?h s1 "called s" mm ?g] dh d by (auto simp: s2_def)
  have i2: "lock_idle (openmp s) (sll s2 p)" by (simp add: s2_def s1_def)
  have "S_superblock_get_and_lock (aw s h bm sm mm g) = Inr (p, aw (called s) h' bm' s3 mm ?g)"
    using g p(2) r d i2 by (simp add: S_superblock_get_and_lock_def bnd_def CALL_SYS_ALLOC_w p(1) [symmetric] s0_def [symmetric]
        s1_def [symmetric] s3_def)
  moreover have "\<forall>q. q \<noteq> p \<longrightarrow> s3 q = sm q" by (simp add: s3_def s2_def s1_def s0_def mupd_other)
  moreover have "sbc s3 p = 0" "shd s3 p = nth_block p 0" "snx s3 p = NULL" "lock_held (openmp s) (sll s3 p)" "spv s3 p = NULL"
    by (simp_all add: s3_def s2_def s1_def s0_def)
  ultimately show ?thesis using hb dh d(4) by (intro exI [of _ h'] exI [of _ bm'] exI [of _ s3]) simp
qed

text \<open>The invariant after a new superblock: all its blocks are free and on its list.\<close>

definition new_F :: "addr \<Rightarrow> (addr \<Rightarrow> addr list) \<Rightarrow> addr \<Rightarrow> addr list" where
  "new_F p F b = (if block_at p b then map (nth_area b) [0..<56] else F b)"

definition new_L :: "addr \<Rightarrow> (list_id \<Rightarrow> addr list) \<Rightarrow> list_id \<Rightarrow> addr list" where
  "new_L p L = L(Sb p := map (nth_block p) [0..<63])"

lemma fresh_block_ok:
  assumes "fresh_block omp h bm p i" and "i < 63"
  shows "block_ok h bm (new_F p F) (nth_block p i)"
proof -
  let ?k = "nth_block p i"
  have F: "new_F p F ?k = map (nth_area ?k) [0..<56]" using nth_block_at [OF assms(2)] by (simp add: new_F_def)
  have "distinct (map (nth_area ?k) [0..<56])" using area_inj [of ?k] by (simp add: distinct_map atLeast0LessThan)
  moreover have "set (map (nth_area ?k) [0..<56]) \<subseteq> areas ?k" by (auto simp: nth_area_in)
  moreover have "hd0 (map (nth_area ?k) [0..<56]) NULL = nth_area ?k 0" by (simp add: upt_conv_Cons)
  ultimately show ?thesis unfolding block_ok_def F using assms(1) by (simp add: fresh_block_def Let_def del: upt_Suc)
qed

lemma new_blocks_list:
  assumes p: "placed p" and f: "\<forall>i<63. fresh_block omp h bm p i"
  shows "dl (bnx bm) (bpv bm) (nth_block p 0) (map (nth_block p) [0..<63])"
proof -
  have "dseg (bnx bm) (bpv bm) (bpv bm (nth_block p 0)) (map (nth_block p) [0..<63]) NULL"
  proof (rule dseg_map)
    show "bnx bm (nth_block p j) = (if Suc j < 63 then nth_block p (Suc j) else NULL)" if "j < 63" for j
      using f that by (simp add: fresh_block_def Let_def)
    show "bpv bm (nth_block p (Suc j)) = nth_block p j" if j: "Suc j < 63" for j
    proof -
      have "fresh_block omp h bm p j" using f j by simp
      then show ?thesis using j by (simp add: fresh_block_def Let_def)
    qed
  qed simp
  moreover have "distinct (map (nth_block p) [0..<63])" using block_inj [of p] by (simp add: distinct_map atLeast0LessThan)
  moreover have "NULL \<notin> set (map (nth_block p) [0..<63])"
  proof
    assume "NULL \<in> set (map (nth_block p) [0..<63])"
    then obtain i where "i < 63" "NULL = nth_block p i" by auto
    then show False using unat_nth_block [OF p, of i] by simp
  qed
  moreover have "nth_block p 0 = hd0 (map (nth_block p) [0..<63]) NULL" by (simp add: upt_conv_Cons)
  ultimately show ?thesis unfolding dl_def by blast
qed

lemma shape_new:
  assumes sh: "shape h bm sm mm NULL P F L G {} {}"
    and p: "placed p" "p \<notin> dom sm" "\<forall>q \<in> dom sm. apart p q"
    and d: "dom h' = dom h \<union> {a. vma_at p a}" "dom bm' = dom bm \<union> {b. block_at p b}" "dom sm' = insert p (dom sm)"
    and f: "\<forall>i<63. fresh_block omp h' bm' p i"
    and o: "\<forall>a. \<not> vma_at p a \<longrightarrow> h' a = h a" "\<forall>b. \<not> block_at p b \<longrightarrow> bm' b = bm b" "\<forall>q. q \<noteq> p \<longrightarrow> sm' q = sm q"
    and s: "sbc sm' p = 0" "shd sm' p = nth_block p 0" "snx sm' p = NULL"
  shows "shape h' bm' sm' mm p P (new_F p F) (new_L p L) [p] {} {p}"
proof -
  note D = shapeD [OF sh]
  have pl: "placed q" "apart p q" if "q \<in> dom sm" for q using memD(4) [OF D(1) that] p(3) that by auto
  have nb: "\<not> block_at p b" if "b \<in> dom bm" for b
  proof -
    have q: "bsb bm b \<in> dom sm" "block_at (bsb bm b) b" using memD(1) [OF D(1) that] by auto
    show ?thesis using apart_blocks [OF p(1) pl [OF q(1)]] q(2) by blast
  qed
  have na: "\<not> vma_at p a" if "b \<in> dom bm" "a \<in> areas b" for a b
  proof -
    have q: "bsb bm b \<in> dom sm" "block_at (bsb bm b) b" using memD(1) [OF D(1) that(1)] by auto
    then have "vma_at (bsb bm b) a" using areas_of_block that(2) by blast
    then show ?thesis using apart_areas [OF p(1) pl [OF q(1)]] by blast
  qed
  have old: "bm' b = bm b" if "b \<in> dom bm" for b using o(2) nb [OF that] by blast
  have fsb: "bsb bm' b = p" if t: "block_at p b" for b
  proof -
    obtain i where "i < 63" "b = nth_block p i" using t unfolding block_at_iff by blast
    then show ?thesis using f by (simp add: fresh_block_def Let_def)
  qed
  have dm: "dom bm = {b. \<exists>q \<in> dom sm. block_at q b}" "dom h = {a. \<exists>q \<in> dom sm. vma_at q a}" using D(1) by (simp_all add: mem_ok_def)
  have "mem_ok h' bm' sm'"
    unfolding mem_ok_def
  proof (intro conjI ballI allI impI)
    show "dom bm' = {b. \<exists>q \<in> dom sm'. block_at q b}" "dom h' = {a. \<exists>q \<in> dom sm'. vma_at q a}" unfolding d dm by blast+
    show "placed q" if "q \<in> dom sm'" for q using that d(3) p(1) pl by auto
    show "apart q r" if "q \<in> dom sm'" "r \<in> dom sm'" "q \<noteq> r" for q r
      using that d(3) p(3) apart_sym D(1) unfolding mem_ok_def by (metis insertE)
    show "bsb bm' b = q" if "q \<in> dom sm'" "block_at q b" for q b
    proof (cases "q = p")
      case False
      then have "b \<in> dom bm \<and> bsb bm b = q" using memD(5) [OF D(1) that(2)] that(1) d(3) by simp
      then show ?thesis using old by (simp add: bsb_def)
    qed (use fsb that in simp)
  qed
  moreover have "block_ok h' bm' (new_F p F) b" if "b \<in> dom bm'" for b
  proof (cases "block_at p b")
    case True
    then obtain i where i: "i < 63" "b = nth_block p i" unfolding block_at_iff by blast
    then show ?thesis using fresh_block_ok f by blast
  next
    case False
    then have b: "b \<in> dom bm" using that d(2) by simp
    have "fnx h' a = fnx h a" if "a \<in> areas b" for a using o(1) na [OF b that] by (simp add: fnx_def)
    then show ?thesis
      by (rule block_ok_cong [OF D(2) [OF b]]) (use old [OF b] False in \<open>simp_all add: blk_views new_F_def\<close>)
  qed
  moreover have "lists_ok (bnx bm') (bpv bm') (heads (shd sm') (phd mm)) (valid_ids sm' P) (new_L p L)"
  proof (rule lists_okI)
    fix i assume i: "i \<in> valid_ids sm' P"
    show "dl (bnx bm') (bpv bm') (heads (shd sm') (phd mm) i) (new_L p L i)"
    proof (cases "i = Sb p")
      case True
      then show ?thesis using new_blocks_list [OF p(1) f] by (simp add: new_L_def s)
    next
      case False
      then have "i \<in> valid_ids sm P" using i d(3) by (auto simp: valid_ids_def)
      then have "dl (bnx bm) (bpv bm) (heads (shd sm) (phd mm) i) (L i)" by (rule lists_okD(1) [OF D(3)])
      moreover have "heads (shd sm') (phd mm) i = heads (shd sm) (phd mm) i"
        using False o(3) by (cases i) (simp_all add: shd_def)
      moreover have "dl (bnx bm') (bpv bm') x (L i) = dl (bnx bm) (bpv bm) x (L i)" for x
        by (rule dl_cong) (use placedD(1) [OF D(4)] old in \<open>simp add: blk_views\<close>)
      ultimately show ?thesis using False by (simp add: new_L_def)
    qed
  next
    fix i assume "i \<notin> valid_ids sm' P"
    then have "i \<noteq> Sb p" "i \<notin> valid_ids sm P" using d(3) by (auto simp: valid_ids_def)
    then show "new_L p L i = []" using lists_okD(2) [OF D(3)] by (simp add: new_L_def)
  next
    have side: "(k = Sb p \<and> block_at p a) \<or> (k \<noteq> Sb p \<and> a \<in> set (L k) \<and> \<not> block_at p a)" if "a \<in> set (new_L p L k)" for k a
      using that nb [OF placedD(1) [OF D(4)]] by (cases "k = Sb p") (auto simp: new_L_def nth_block_at)
    fix i j a assume "a \<in> set (new_L p L i)" "a \<in> set (new_L p L j)"
    from side [OF this(1)] side [OF this(2)] show "i = j" using lists_okD(3) [OF D(3)] by blast
  qed
  moreover have "lists_placed bm' (new_F p F) (new_L p L) {}"
  proof (rule placedI)
    fix i b assume "b \<in> set (new_L p L i)"
    then show "b \<in> dom bm'" using placedD(1) [OF D(4)] d(2) by (auto simp: new_L_def nth_block_at split: if_splits)
  next
    fix b i assume b: "b \<in> dom bm'"
    show "b \<in> set (new_L p L i) \<longleftrightarrow> loc (new_F p F) bm' b = Some i"
    proof (cases "block_at p b")
      case True
      then have "loc (new_F p F) bm' b = Some (Sb p)" using fsb by (simp add: loc_def new_F_def)
      moreover have "b \<in> set (new_L p L i) \<longleftrightarrow> i = Sb p"
        using True nb placedD(1) [OF D(4)] by (auto simp: new_L_def block_at_iff)
      ultimately show ?thesis by auto
    next
      case False
      then have bm: "b \<in> dom bm" using b d(2) by simp
      have "loc (new_F p F) bm' b = loc F bm b" using False old [OF bm] by (simp add: loc_def new_F_def blk_views)
      moreover have "b \<in> set (new_L p L i) \<longleftrightarrow> b \<in> set (L i)"
      proof (cases "i = Sb p")
        case True
        then have "i \<notin> valid_ids sm P" using p(2) by (auto simp: valid_ids_def)
        then have "L i = []" by (rule lists_okD(2) [OF D(3)])
        moreover have "b \<notin> set (new_L p L i)" using False True by (auto simp: new_L_def nth_block_at)
        ultimately show ?thesis by simp
      qed (simp add: new_L_def)
      ultimately show ?thesis using placedD(2) [OF D(4) bm] by simp
    qed
  qed
  moreover have "global_ok sm' p (new_L p L) [p] {p}"
  proof -
    have gs: "G = []" using D(5) dl_facts by (fastforce simp: global_ok_def)
    have o2: "sbc sm' q = sbc sm q" "q \<noteq> p" if "q \<in> dom sm" for q using that o(3) p(2) by (auto simp: sbc_def)
    have "dl (snx sm') (spv sm') p [p]" using s(3) p(1) by (simp add: dl_def placed_def)
    moreover have "length (L (Sb q)) \<noteq> 63" "L (Sb q) = []" "unat (sbc sm' q) + length (L (Sb q)) = 63" if "q \<in> dom sm" for q
      using that D(5) o2 gs by (auto simp: global_ok_def)
    ultimately show ?thesis using o2(2) by (auto simp: global_ok_def d(3) new_L_def s)
  qed
  moreover have "owned bm' mm P (new_F p F) {}"
    using D(6,7) d(2) old by (auto simp: owned_def new_F_def bmp_def)
  ultimately show ?thesis by (simp add: shape_def)
qed

end
