(* ===== verification/Alloc_Take.thy ===== *)
theory Alloc_Take
  imports Alloc_Inv
begin

section \<open>Taking an area from a block\<close>

text \<open>
  \<open>take_vma\<close>, the second half of \<open>vma_alloc\<close>: the first free area leaves the list of its block,
  and a block that has no free area left leaves the list of its pool.
\<close>

lemma block_ok_take:
  assumes "block_ok h bm F k" and "F k = v # vs"
  shows "bhd bm k = v" "fnx h v = hd0 vs NULL" "v \<in> areas k" "unat (bvc bm k) = 55 - length vs" "length vs \<le> 55"
    "unat (bvc bm k + 1) = 56 - length vs" "vs \<noteq> [] \<longleftrightarrow> hd0 vs NULL \<noteq> NULL \<or> NULL \<in> set vs" "set vs \<subseteq> areas k" "distinct vs" "seg (fnx h) vs"
  using assms by (cases vs; force simp: block_ok_def unat_word_ariths)+

lemma take_vma_views:
  assumes "k \<in> dom bm" "k \<noteq> NULL" "v \<in> dom h" "v \<noteq> NULL" "me \<in> dom mm" "me \<noteq> NULL"
    and "bhd bm k = v" "lock_held (openmp s) (bll bm k)" "lock_held (openmp s) (pll mm me)"
    and "fnx h v = NULL \<Longrightarrow> bvc bm k = 55 \<and> (bnx bm k = NULL \<or> bnx bm k \<in> dom bm) \<and> bnx bm k \<noteq> k"
  shows "\<exists>bm' mm'. take_vma me k (aw s h bm sm mm g) = Inr (v, aw s h bm' sm mm' g) \<and> dom bm' = dom bm \<and> dom mm' = dom mm \<and>
     bsb bm' = bsb bm \<and> bmp bm' = bmp bm \<and> bhd bm' = (bhd bm)(k := fnx h v) \<and> bvc bm' = (bvc bm)(k := bvc bm k + 1) \<and>
     bll bm' = (bll bm)(k := released (openmp s) (bll bm k)) \<and> pll mm' = (pll mm)(me := released (openmp s) (pll mm me)) \<and>
     bnx bm' = bnx bm \<and>
     bpv bm' = (if fnx h v = NULL \<and> bnx bm k \<noteq> NULL then (bpv bm)(bnx bm k := bpv bm k) else bpv bm) \<and>
     phd mm' = (if fnx h v = NULL then (phd mm)(me := bnx bm k) else phd mm)"
proof -
  note x = take_vma_def bnd_def full_counts insert_absorb
  consider "fnx h v \<noteq> NULL" | "fnx h v = NULL" "bnx bm k = NULL" | "fnx h v = NULL" "bnx bm k \<noteq> NULL" "bnx bm k \<in> dom bm" "bnx bm k \<noteq> k"
    using assms(10) by blast
  then show ?thesis
  proof cases
    case 1
    show ?thesis by (intro exI, rule conjI, use assms(1-9) 1 in \<open>simp add: x\<close>, (rule refl)?, use assms(1-9) 1 in \<open>simp add: insert_absorb\<close>)
  next
    case 2
    show ?thesis by (intro exI, rule conjI, use assms 2 in \<open>simp add: x\<close>, (rule refl)?, use assms 2 in \<open>simp add: insert_absorb\<close>)
  next
    case 3
    show ?thesis by (intro exI, rule conjI, use assms 3 in \<open>simp add: x\<close>, (rule refl)?, use assms 3 in \<open>simp add: insert_absorb\<close>)
  qed
qed

lemma take_vma_run:
  assumes sh: "shape h bm sm mm gh P F L G {k} {}" and L: "L (Mp me) = k # ks" and F: "F k = v # vs"
    and only: "\<And>i. k \<in> set (L i) \<Longrightarrow> i = Mp me"
    and me: "me \<in> P" "bmp bm k = me"
    and lks: "locks_ok (openmp s) bm sm mm P g {k} {} {me} False"
  shows "\<exists>bm' mm'. take_vma me k (aw s h bm sm mm g) = Inr (v, aw s h bm' sm mm' g) \<and>
     shape h bm' sm mm' gh P (F(k := vs)) (L(Mp me := if vs = [] then ks else k # ks)) G {} {} \<and>
     locks_ok (openmp s) bm' sm mm' P g {} {} {} False \<and> bsb bm' = bsb bm \<and> dom bm' = dom bm \<and> dom mm' = dom mm"
proof -
  note D = shapeD [OF sh]
  have kin: "k \<in> set (L (Mp me))" by (simp add: L)
  have k: "k \<in> dom bm" by (rule placedD(1) [OF D(4) kin])
  then have k0: "k \<noteq> NULL" using memD(1) [OF D(1)] by blast
  note bk = block_ok_take [OF D(2) [OF k] F]
  have v: "v \<in> dom h" "v \<noteq> NULL" using memD(2) [OF D(1) k bk(3)] by simp_all
  have m: "me \<in> dom mm" "me \<noteq> NULL" using D(6) me by auto
  have held: "lock_held (openmp s) (bll bm k)" "lock_held (openmp s) (pll mm me)" using locksD [OF lks] k me by auto
  have N0: "NULL \<notin> areas k" using memD(2) [OF D(1) k] by blast
  have vs0: "fnx h v = NULL \<longleftrightarrow> vs = []" using bk(2,7,8) N0 by auto
  have nk: "bnx bm k \<noteq> NULL \<Longrightarrow> bnx bm k \<in> dom bm \<and> bnx bm k \<noteq> k"
    using lists_remove(3) [OF D(3) kin] placedD(1) [OF D(4)] by blast
  have c: "fnx h v = NULL \<Longrightarrow> bvc bm k = 55" using bk(4) vs0 by (simp add: word_unat_eq_iff)
  have hk: "bhd bm k = v" by (rule bk(1))
  have e: "fnx h v = NULL \<Longrightarrow> bvc bm k = 55 \<and> (bnx bm k = NULL \<or> bnx bm k \<in> dom bm) \<and> bnx bm k \<noteq> k"
    using c nk k0 by (cases "bnx bm k = NULL") auto
  obtain bm' mm' where run: "take_vma me k (aw s h bm sm mm g) = Inr (v, aw s h bm' sm mm' g)"
    and dm: "dom bm' = dom bm" "dom mm' = dom mm" and v1: "bsb bm' = bsb bm" "bmp bm' = bmp bm"
      "bhd bm' = (bhd bm)(k := fnx h v)" "bvc bm' = (bvc bm)(k := bvc bm k + 1)"
    and lk1: "bll bm' = (bll bm)(k := released (openmp s) (bll bm k))"
      "pll mm' = (pll mm)(me := released (openmp s) (pll mm me))"
    and v2: "bnx bm' = bnx bm" "bpv bm' = (if fnx h v = NULL \<and> bnx bm k \<noteq> NULL then (bpv bm)(bnx bm k := bpv bm k) else bpv bm)"
      "phd mm' = (if fnx h v = NULL then (phd mm)(me := bnx bm k) else phd mm)"
    using take_vma_views [where s = s and sm = sm and g = g, OF k k0 v m hk held e] by blast
  let ?L = "L(Mp me := if vs = [] then ks else k # ks)" and ?F = "F(k := vs)"
  have "lists_ok (bnx bm') (bpv bm') (heads (shd sm) (phd mm')) (valid_ids sm P) ?L"
  proof (cases "vs = []")
    case True
    then show ?thesis using lists_pop [OF D(3) L] vs0 by (cases "bnx bm k = NULL") (simp_all add: v2)
  next
    case False
    then have "?L = L" using L by (simp add: fun_upd_idem)
    then show ?thesis using D(3) vs0 False by (simp add: v2)
  qed
  moreover have "mem_ok h bm' sm" using D(1) by (rule mem_ok_cong) (simp_all add: dm v1)
  moreover have "block_ok h bm' ?F b" if "b \<in> dom bm'" for b
  proof (cases "b = k")
    case True
    then show ?thesis using bk(2,5,6,8-10) by (simp add: block_ok_def v1)
  next
    case False
    have "b \<in> dom bm" using that dm by simp
    show ?thesis by (rule block_ok_cong [OF D(2) [OF \<open>b \<in> dom bm\<close>]]) (use False in \<open>simp_all add: v1\<close>)
  qed
  moreover have "lists_placed bm' ?F ?L {}"
  proof (rule placedI)
    fix i b assume "b \<in> set (?L i)"
    then have "b \<in> set (L i)" using L by (auto split: if_splits)
    then show "b \<in> dom bm'" using placedD(1) [OF D(4)] dm by simp
  next
    fix b i assume b: "b \<in> dom bm'"
    show "b \<in> set (?L i) \<longleftrightarrow> loc ?F bm' b = Some i"
    proof (cases "b = k")
      case True
      have "k \<notin> set ks" using dl_facts [OF lists_okD(1) [OF D(3)], of "Mp me"] L me(1) by (auto simp: valid_ids_def)
      moreover have "loc ?F bm' k = (if vs = [] then None else Some (Mp me))" using bk(5) me(2) by (simp add: loc_def v1)
      moreover have "k \<in> set (L i) \<longleftrightarrow> i = Mp me" using only kin by blast
      ultimately show ?thesis using True by simp
    next
      case False
      have "loc ?F bm' b = loc F bm b" using False by (intro loc_cong) (simp_all add: v1)
      moreover have "b \<in> set (?L i) \<longleftrightarrow> b \<in> set (L i)" using False L by auto
      ultimately show ?thesis using placedD(2) [OF D(4), of b i] b False dm by simp
    qed
  qed
  moreover have "global_ok sm gh ?L G {}" using D(5) by (rule global_ok_cong) simp_all
  moreover have "owned bm' mm' P ?F {}"
    using D(6,7) dm me by (auto simp: owned_def v1)
  ultimately have "shape h bm' sm mm' gh P ?F ?L G {} {}" by (simp add: shape_def)
  moreover have "locks_ok (openmp s) bm' sm mm' P g {} {} {} False"
    using lks by (auto simp: locks_ok_def lk_def dm lk1)
  ultimately show ?thesis using run v1 dm by blast
qed

end
