(* ===== verification/Alloc_Steal.thy ===== *)
theory Alloc_Steal
  imports Alloc_System Alloc_Take
begin

section \<open>Stealing a block, and the pool of a thread\<close>

text \<open>
  \<open>S_block_steal_and_lock\<close>: the first free block of the first superblock becomes the caller's;
  the first initialisation of a thread's pool; the stolen block as its only block.
\<close>

lemma steal_views:
  assumes gl: "S_superblock_get_and_lock (aw s h bm sm mm (g\<lparr>gp_lock := got (openmp s) (gp_lock g)\<rparr>)) = Inr (p, aw t h1 b1 m1 mm g1)"
    and o: "openmp t = openmp s" and gi: "lock_idle (openmp s) (gp_lock g)" "lock_held (openmp s) (gp_lock g1)"
    and p: "p \<in> dom m1" "p \<noteq> NULL" "lock_held (openmp s) (sll m1 p)"
    and k: "shd m1 p = k" "k \<in> dom b1" "k \<noteq> NULL" "lock_idle (openmp s) (bll b1 k)"
    and n: "bnx b1 k \<noteq> NULL \<Longrightarrow> bnx b1 k \<in> dom b1 \<and> bnx b1 k \<noteq> k"
    and e: "bnx b1 k = NULL \<Longrightarrow> sbc m1 p = 62 \<and> (snx m1 p \<noteq> NULL \<longrightarrow> snx m1 p \<in> dom m1 \<and> snx m1 p \<noteq> p)"
  shows "\<exists>b2 m2 g2. S_block_steal_and_lock (aw s h bm sm mm g) = Inr (k, aw t h1 b2 m2 mm g2) \<and> dom b2 = dom b1 \<and> dom m2 = dom m1 \<and>
     bvc b2 = bvc b1 \<and> bhd b2 = bhd b1 \<and> bsb b2 = bsb b1 \<and> bmp b2 = bmp b1 \<and> bnx b2 = bnx b1 \<and>
     bpv b2 = (if bnx b1 k = NULL then bpv b1 else (bpv b1)(bnx b1 k := bpv b1 k)) \<and>
     bll b2 = (bll b1)(k := got (openmp s) (bll b1 k)) \<and>
     sbc m2 = (sbc m1)(p := sbc m1 p + 1) \<and> shd m2 = (shd m1)(p := bnx b1 k) \<and> snx m2 = snx m1 \<and>
     spv m2 = (if bnx b1 k = NULL \<and> snx m1 p \<noteq> NULL then (spv m1)(snx m1 p := spv m1 p) else spv m1) \<and>
     sll m2 = (sll m1)(p := released (openmp s) (sll m1 p)) \<and>
     gp_head g2 = (if bnx b1 k = NULL then snx m1 p else gp_head g1) \<and> gp_lock g2 = released (openmp s) (gp_lock g1)"
proof -
  note x = S_block_steal_and_lock_def bnd_def full_counts insert_absorb
  note y = o gi p k gl
  consider "bnx b1 k \<noteq> NULL" "bnx b1 k \<in> dom b1" "bnx b1 k \<noteq> k"
    | "bnx b1 k = NULL" "sbc m1 p = 62" "snx m1 p = NULL"
    | "bnx b1 k = NULL" "sbc m1 p = 62" "snx m1 p \<noteq> NULL" "snx m1 p \<in> dom m1" "snx m1 p \<noteq> p" using n e by blast
  then show ?thesis
  proof cases
    case 1
    show ?thesis by (intro exI, rule conjI, use y 1 in \<open>simp add: x\<close>, (rule refl)?, use y 1 in \<open>simp add: insert_absorb\<close>)
  next
    case 2
    show ?thesis by (intro exI, rule conjI, use y 2 in \<open>simp add: x\<close>, (rule refl)?, use y 2 in \<open>simp add: insert_absorb\<close>)
  next
    case 3
    show ?thesis by (intro exI, rule conjI, use y 3 in \<open>simp add: x\<close>, (rule refl)?, use y 3 in \<open>simp add: insert_absorb\<close>)
  qed
qed

lemma steal_shape:
  assumes sh: "shape h bm sm mm (gp_head g) P F L (p # ps) {} E" and E: "E \<subseteq> {p}"
    and gl: "S_superblock_get_and_lock (aw s h0 bm0 sm0 mm (g0\<lparr>gp_lock := got (openmp s) (gp_lock g0)\<rparr>)) = Inr (p, aw t h bm sm mm g)"
    and o: "openmp t = openmp s" and gi: "lock_idle (openmp s) (gp_lock g0)"
    and lks: "locks_ok (openmp s) bm sm mm P g {} {p} {} True"
  shows "\<exists>k bm' sm' g' L' G'. S_block_steal_and_lock (aw s h0 bm0 sm0 mm g0) = Inr (k, aw t h bm' sm' mm g') \<and>
     k \<in> dom bm \<and> dom bm' = dom bm \<and> dom sm' = dom sm \<and> bsb bm' = bsb bm \<and> length (F k) = 56 \<and> (\<forall>i. k \<notin> set (L' i)) \<and>
     shape h bm' sm' mm (gp_head g') P F L' G' {k} {} \<and> locks_ok (openmp s) bm' sm' mm P g' {k} {} {} False \<and>
     (\<forall>i. i \<noteq> Sb p \<longrightarrow> L' i = L i) \<and> bsb bm k = p"
proof -
  note D = shapeD [OF sh]
  have gl5: "dl (snx sm) (spv sm) (gp_head g) (p # ps)" "set (p # ps) \<subseteq> dom sm"
    "\<And>q. q \<in> dom sm \<Longrightarrow> (q \<in> set (p # ps) \<longleftrightarrow> L (Sb q) \<noteq> []) \<and> unat (sbc sm q) + length (L (Sb q)) = 63 \<and>
       (length (L (Sb q)) = 63 \<longleftrightarrow> q \<in> E)" using D(5) by (simp_all add: global_ok_def)
  have p: "p \<in> dom sm" "p \<noteq> NULL" using gl5(2) memD(4) [OF D(1)] by auto
  then obtain k ks where L: "L (Sb p) = k # ks" using gl5(3) [OF p(1)] by (cases "L (Sb p)") auto
  have kin: "k \<in> set (L (Sb p))" by (simp add: L)
  have k: "k \<in> dom bm" by (rule placedD(1) [OF D(4) kin])
  have k0: "k \<noteq> NULL" using memD(1) [OF D(1) k] by blast
  have pv: "Sb p \<in> valid_ids sm P" using p by (simp add: valid_ids_def)
  have dp: "dl (bnx bm) (bpv bm) (shd sm p) (k # ks)" using lists_okD(1) [OF D(3) pv] L by simp
  then have hk: "shd sm p = k" "bnx bm k = hd0 ks NULL" "k \<notin> set ks" "NULL \<notin> set ks" by (auto simp: dl_def)
  have n0: "bnx bm k = NULL \<longleftrightarrow> ks = []" using hk(2,4) by (cases ks) auto
  have nk: "bnx bm k \<noteq> NULL \<Longrightarrow> bnx bm k \<in> dom bm \<and> bnx bm k \<noteq> k"
    using lists_remove(3) [OF D(3) kin] placedD(1) [OF D(4)] by blast
  have lp: "loc F bm k = Some (Sb p)" using placedD(2) [OF D(4) k] kin by simp
  then have F56: "length (F k) = 56" and bp: "bsb bm k = p" by (auto simp: loc_def split: if_splits)
  have sp: "dl (snx sm) (spv sm) (snx sm p) ps" using dl_pop [OF gl5(1)] by blast
  have sp2: "p \<notin> set ps" "gp_head g = p" using gl5(1) by (auto simp: dl_def)
  have snx: "snx sm p \<noteq> NULL \<Longrightarrow> snx sm p \<in> set ps" using dl_facts [OF sp] by blast
  have c62: "ks = [] \<Longrightarrow> sbc sm p = 62" using gl5(3) [OF p(1)] L by (simp add: word_unat_eq_iff)
  have e: "bnx bm k = NULL \<Longrightarrow> sbc sm p = 62 \<and> (snx sm p \<noteq> NULL \<longrightarrow> snx sm p \<in> dom sm \<and> snx sm p \<noteq> p)"
    using c62 gl5(2) n0 snx sp2(1) by auto
  note lk = locksD [OF lks]
  obtain b2 m2 g2 where run: "S_block_steal_and_lock (aw s h0 bm0 sm0 mm g0) = Inr (k, aw t h b2 m2 mm g2)"
    and d2: "dom b2 = dom bm" "dom m2 = dom sm" and v: "bvc b2 = bvc bm" "bhd b2 = bhd bm" "bsb b2 = bsb bm" "bmp b2 = bmp bm" "bnx b2 = bnx bm"
     "bpv b2 = (if bnx bm k = NULL then bpv bm else (bpv bm)(bnx bm k := bpv bm k))"
     "bll b2 = (bll bm)(k := got (openmp s) (bll bm k))"
     "sbc m2 = (sbc sm)(p := sbc sm p + 1)" "shd m2 = (shd sm)(p := bnx bm k)" "snx m2 = snx sm"
     "spv m2 = (if bnx bm k = NULL \<and> snx sm p \<noteq> NULL then (spv sm)(snx sm p := spv sm p) else spv sm)"
     "sll m2 = (sll sm)(p := released (openmp s) (sll sm p))"
     "gp_head g2 = (if bnx bm k = NULL then snx sm p else gp_head g)" "gp_lock g2 = released (openmp s) (gp_lock g)"
    using steal_views [OF gl o gi lk(8) p lk(4) hk(1) k k0 lk(1) nk e] p k by auto
  let ?L = "L(Sb p := ks)"
  let ?G = "if ks = [] then ps else p # ps"
  have "mem_ok h b2 m2" using D(1) by (rule mem_ok_cong) (simp_all add: d2 v)
  moreover have "block_ok h b2 F b" if "b \<in> dom b2" for b
  proof -
    have "b \<in> dom bm" using that d2 by simp
    show ?thesis by (rule block_ok_cong [OF D(2) [OF \<open>b \<in> dom bm\<close>]]) (simp_all add: v)
  qed
  moreover have "lists_ok (bnx b2) (bpv b2) (heads (shd m2) (phd mm)) (valid_ids m2 P) ?L"
    using lists_pop [OF D(3) L] by (simp add: v d2 valid_ids_def)
  moreover have off: "k \<notin> set (?L i)" for i
    using hk(3) lists_okD(3) [OF D(3) kin, of i] by (cases "i = Sb p") auto
  moreover have "lists_placed b2 F ?L {k}"
  proof (rule placedI)
    fix i b assume "b \<in> set (?L i)"
    then have "b \<in> set (L i)" using L by (auto split: if_splits)
    then show "b \<in> dom b2" using placedD(1) [OF D(4)] d2 by simp
  next
    fix b i assume b: "b \<in> dom b2" "b \<notin> {k}"
    have "loc F b2 b = loc F bm b" by (intro loc_cong) (simp_all add: v)
    moreover have "b \<in> set (?L i) \<longleftrightarrow> b \<in> set (L i)" using b L by auto
    ultimately show "b \<in> set (?L i) \<longleftrightarrow> loc F b2 b = Some i" using placedD(2) [OF D(4), of b i] b d2 by simp
  qed
  moreover have "global_ok m2 (gp_head g2) ?L ?G {}"
  proof -
    have "dl (snx m2) (spv m2) (gp_head g2) ?G"
    proof (cases "ks = []")
      case True
      then show ?thesis using dl_pop [OF gl5(1), of "spv sm p"] n0 by (cases "snx sm p = NULL") (simp_all add: v)
    next
      case False
      then show ?thesis using gl5(1) n0 by (simp add: v)
    qed
    moreover have "set ?G \<subseteq> dom m2" using gl5(2) d2 by auto
    moreover have "(q \<in> set ?G \<longleftrightarrow> ?L (Sb q) \<noteq> []) \<and> unat (sbc m2 q) + length (?L (Sb q)) = 63 \<and> length (?L (Sb q)) \<noteq> 63"
      if "q \<in> dom m2" for q
    proof (cases "q = p")
      case True
      have "unat (sbc sm p) + Suc (length ks) = 63" using gl5(3) [OF p(1)] L by simp
      then have "unat (sbc sm p + 1) + length ks = 63" by (simp add: unat_word_ariths)
      moreover have "length ks \<noteq> 63" using \<open>unat (sbc sm p) + Suc (length ks) = 63\<close> by simp
      ultimately show ?thesis using True sp2(1) by (simp add: v)
    next
      case False
      then have "q \<in> dom sm" "q \<notin> E" using that d2 E by auto
      then show ?thesis using gl5(3) [of q] False by (auto simp: v)
    qed
    ultimately show ?thesis by (simp add: global_ok_def)
  qed
  moreover have "owned b2 mm P F {k}" using D(6,7) d2 by (auto simp: owned_def v)
  ultimately have "shape h b2 m2 mm (gp_head g2) P F ?L ?G {k} {}" by (simp add: shape_def)
  moreover have "locks_ok (openmp s) b2 m2 mm P g2 {k} {} {} False"
    using lks by (auto simp: locks_ok_def lk_def d2 v)
  moreover have "\<forall>i. i \<noteq> Sb p \<longrightarrow> ?L i = L i" by simp
  ultimately show ?thesis using run k d2 v(3) F56 off bp by blast
qed

subsection \<open>The pool of the thread\<close>

lemma init_mpool_done: "S_init s (self s) \<noteq> 0 \<Longrightarrow> init_mpool s = Inr ((), s)"
  by (simp add: init_mpool_def bnd_def)

lemma init_mpool_first:
  assumes "S_init s (self s) = 0" and "self s \<in> dom mm" and "self s \<noteq> NULL"
  shows "\<exists>mm'. init_mpool (aw s h bm sm mm g) = Inr ((), aw (s\<lparr>S_init := (S_init s)(self s := 1)\<rparr>) h bm sm mm' g) \<and>
     dom mm' = dom mm \<and> phd mm' = (phd mm)(self s := NULL) \<and> lock_idle (openmp s) (pll mm' (self s)) \<and>
     (\<forall>q. q \<noteq> self s \<longrightarrow> mm' q = mm q)"
proof -
  let ?t = "s\<lparr>S_init := (S_init s)(self s := 1)\<rparr>"
  have m: "modify (\<lambda>s. s\<lparr>S_init := (S_init s)(q := 1)\<rparr>) (aw s h bm sm mm g) =
     Inr ((), aw (s\<lparr>S_init := (S_init s)(q := 1)\<rparr>) h bm sm mm g)" for q
    by (simp add: aw_def)
  define m1 where "m1 = mupd (self s) (\<lambda>m. m\<lparr>mp_lctr := 0\<rparr>) mm"
  define m2 where "m2 = mupd (self s) (\<lambda>m. m\<lparr>mp_lock := released (openmp s) (pll m1 (self s))\<rparr>) m1"
  define m3 where "m3 = mupd (self s) (\<lambda>m. m\<lparr>mp_head := NULL\<rparr>) m2"
  have d: "dom m1 = dom mm" "dom m2 = dom mm" "dom m3 = dom mm" using assms(2) by (auto simp: m1_def m2_def m3_def)
  have "init_mpool (aw s h bm sm mm g) = Inr ((), aw ?t h bm sm m3 g)"
    using assms d by (simp add: init_mpool_def bnd_def m del: modify_run) (simp add: m1_def m2_def m3_def)
  moreover have "phd m3 = (phd mm)(self s := NULL)" "lock_idle (openmp s) (pll m3 (self s))" "\<forall>q. q \<noteq> self s \<longrightarrow> m3 q = mm q"
    by (simp_all add: m1_def m2_def m3_def mupd_other)
  ultimately show ?thesis using d by blast
qed

lemma shape_new_pool:
  assumes sh: "shape h bm sm mm gh P F L G X E" and q: "q \<in> dom mm" "q \<noteq> NULL" "q \<notin> P"
    and m: "dom mm' = dom mm" "phd mm' = (phd mm)(q := NULL)"
  shows "shape h bm sm mm' gh (insert q P) F L G X E"
proof -
  note D = shapeD [OF sh]
  have "Mp q \<notin> valid_ids sm P" using q(3) by (auto simp: valid_ids_def)
  then have e: "L (Mp q) = []" by (rule lists_okD(2) [OF D(3)])
  have "lists_ok (bnx bm) (bpv bm) (heads (shd sm) (phd mm')) (valid_ids sm (insert q P)) L"
  proof (rule lists_okI)
    fix i assume i: "i \<in> valid_ids sm (insert q P)"
    show "dl (bnx bm) (bpv bm) (heads (shd sm) (phd mm') i) (L i)"
    proof (cases "i = Mp q")
      case False
      then have "i \<in> valid_ids sm P" using i by (auto simp: valid_ids_def)
      then show ?thesis using lists_okD(1) [OF D(3)] False by (simp add: m)
    qed (use e in \<open>simp add: m\<close>)
  next
    fix i assume "i \<notin> valid_ids sm (insert q P)"
    then show "L i = []" using lists_okD(2) [OF D(3)] by (auto simp: valid_ids_def)
  qed (use lists_okD(3) [OF D(3)] in blast)
  moreover have "owned bm mm' (insert q P) F X" using D(6,7) q m by (auto simp: owned_def)
  ultimately show ?thesis using sh by (simp add: shape_def)
qed

text \<open>A stolen block becomes the only block of the pool.\<close>

lemma attach_shape:
  assumes sh: "shape h bm sm mm gh P F L G {k} E" and k: "k \<in> dom bm" "\<And>i. k \<notin> set (L i)"
    and q: "q \<in> P" "phd mm q = NULL"
    and v: "dom bm' = dom bm" "dom mm' = dom mm" "bvc bm' = bvc bm" "bhd bm' = bhd bm" "bsb bm' = bsb bm" "bmp bm' = (bmp bm)(k := q)"
      "bnx bm' = (bnx bm)(k := NULL)" "bpv bm' = (bpv bm)(k := NULL)" "phd mm' = (phd mm)(q := k)"
  shows "shape h bm' sm mm' gh P F (L(Mp q := [k])) G {k} E"
proof -
  note D = shapeD [OF sh]
  have qv: "Mp q \<in> valid_ids sm P" using q(1) by (simp add: valid_ids_def)
  have L: "L (Mp q) = []" using dl_facts [OF lists_okD(1) [OF D(3) qv]] q(2) by simp
  have k0: "k \<noteq> NULL" using memD(1) [OF D(1) k(1)] by blast
  have "mem_ok h bm' sm" using D(1) by (rule mem_ok_cong) (simp_all add: v)
  moreover have "block_ok h bm' F b" if "b \<in> dom bm'" for b
  proof -
    have "b \<in> dom bm" using that v by simp
    show ?thesis by (rule block_ok_cong [OF D(2) [OF \<open>b \<in> dom bm\<close>]]) (simp_all add: v)
  qed
  moreover have "lists_ok (bnx bm') (bpv bm') (heads (shd sm) (phd mm')) (valid_ids sm P) (L(Mp q := [k]))"
    using lists_push [OF lists_off(2) [OF D(3) k(2), of NULL] qv k0 k(2)] q(2) L by (simp add: v)
  moreover have "lists_placed bm' F (L(Mp q := [k])) {k}"
  proof (rule placedI)
    fix i b assume "b \<in> set ((L(Mp q := [k])) i)"
    then show "b \<in> dom bm'" using placedD(1) [OF D(4)] k(1) v(1) by (cases "i = Mp q") auto
  next
    fix b i assume b: "b \<in> dom bm'" "b \<notin> {k}"
    have "loc F bm' b = loc F bm b" using b by (intro loc_cong) (simp_all add: v)
    moreover have "b \<in> set ((L(Mp q := [k])) i) \<longleftrightarrow> b \<in> set (L i)" using b L by auto
    ultimately show "b \<in> set ((L(Mp q := [k])) i) \<longleftrightarrow> loc F bm' b = Some i" using placedD(2) [OF D(4), of b i] b v by simp
  qed
  moreover have "global_ok sm gh (L(Mp q := [k])) G E" using D(5) by (rule global_ok_cong) simp_all
  moreover have "owned bm' mm' P F {k}" using D(6,7) v by (auto simp: owned_def)
  ultimately show ?thesis by (simp add: shape_def)
qed

end
