(* ===== verification/Alloc_Correct.thy ===== *)
theory Alloc_Correct
  imports Alloc_Steal
begin

section \<open>vma\_alloc\<close>

text \<open>
  \<open>vma_alloc\<close> as a whole: the areas in use (\<open>used\<close>), and the three ways an allocation goes: from
  the pool of the thread, with a stolen block, or not at all when the system has no memory.
\<close>

subsection \<open>Areas in use\<close>

definition used :: "heap \<Rightarrow> (addr \<Rightarrow> addr list) \<Rightarrow> addr set" where
  "used h F = {a \<in> dom h. a \<notin> set (F (S_vma_2block a))}"

definition grown :: "heap \<Rightarrow> (addr \<rightharpoonup> block) \<Rightarrow> (addr \<Rightarrow> addr list) \<Rightarrow> heap \<Rightarrow> (addr \<rightharpoonup> block) \<Rightarrow> (addr \<Rightarrow> addr list) \<Rightarrow> bool" where
  "grown h bm F h' bm' F' \<longleftrightarrow> dom h \<subseteq> dom h' \<and> dom bm \<subseteq> dom bm' \<and> (\<forall>a \<in> dom h. h' a = h a) \<and>
     (\<forall>b \<in> dom bm. F' b = F b \<and> bsb bm' b = bsb bm b) \<and> (\<forall>b \<in> dom bm' - dom bm. areas b \<subseteq> set (F' b))"

lemma grown_refl [simp]: "grown h bm F h bm F"
  by (simp add: grown_def)

lemma used_grown:
  assumes g: "grown h bm F h' bm' F'" and m: "mem_ok h bm sm" "mem_ok h' bm' sm'"
  shows "used h' F' = used h F"
proof (rule set_eqI)
  fix a
  show "a \<in> used h' F' \<longleftrightarrow> a \<in> used h F"
  proof (cases "a \<in> dom h")
    case True
    then have "a \<in> dom h'" "S_vma_2block a \<in> dom bm" using g memD(3) [OF m(1)] by (auto simp: grown_def)
    then show ?thesis using True g by (simp add: used_def grown_def)
  next
    case False
    then have no: "a \<notin> used h F" by (simp add: used_def)
    have "a \<in> set (F' (S_vma_2block a))" if "a \<in> dom h'"
    proof -
      note a = memD(3) [OF m(2) that]
      have "S_vma_2block a \<notin> dom bm" using memD(2) [OF m(1)] a False by blast
      then show ?thesis using g a by (auto simp: grown_def)
    qed
    then show ?thesis using no by (auto simp: used_def)
  qed
qed

lemma used_take:
  assumes m: "mem_ok h bm sm" and k: "k \<in> dom bm" and b: "block_ok h bm F k" and F: "F k = v # vs"
  shows "used h (F(k := vs)) = insert v (used h F)" and "v \<notin> used h F"
proof -
  have v: "v \<in> areas k" "v \<notin> set vs" "set vs \<subseteq> areas k" using b F by (auto simp: block_ok_def)
  note vd = memD(2) [OF m k v(1)]
  then show "v \<notin> used h F" using F by (simp add: used_def)
  show "used h (F(k := vs)) = insert v (used h F)"
  proof (rule set_eqI)
    fix a
    show "a \<in> used h (F(k := vs)) \<longleftrightarrow> a \<in> insert v (used h F)"
    proof (cases "a = v")
      case True
      then show ?thesis using vd v(2) by (simp add: used_def)
    qed (use F in \<open>auto simp: used_def\<close>)
  qed
qed

text \<open>The invariant reads neither locks nor counters of contentions.\<close>

lemma shape_views:
  assumes "shape h bm sm mm gh P F L G X E"
    and "dom bm' = dom bm" "bvc bm' = bvc bm" "bhd bm' = bhd bm" "bsb bm' = bsb bm" "bmp bm' = bmp bm" "bpv bm' = bpv bm" "bnx bm' = bnx bm"
    and "dom sm' = dom sm" "sbc sm' = sbc sm" "shd sm' = shd sm" "spv sm' = spv sm" "snx sm' = snx sm"
    and "dom mm' = dom mm" "phd mm' = phd mm" and "X \<subseteq> X'" and "gh' = gh"
  shows "shape h bm' sm' mm' gh' P F L G X' E"
proof -
  note D = shapeD [OF assms(1)]
  have "mem_ok h bm' sm'" using D(1) by (rule mem_ok_cong) (simp_all add: assms)
  moreover have "block_ok h bm' F b = block_ok h bm F b" for b by (simp add: block_ok_def assms)
  moreover have "lists_placed bm' F L X'"
  proof (rule placedI)
    show "b \<in> dom bm'" if "b \<in> set (L i)" for i b using placedD(1) [OF D(4) that] assms(2) by simp
    show "b \<in> set (L i) \<longleftrightarrow> loc F bm' b = Some i" if "b \<in> dom bm'" "b \<notin> X'" for b i
    proof -
      have "b \<in> dom bm" "b \<notin> X" using that assms(2,16) by auto
      moreover have "loc F bm' b = loc F bm b" by (rule loc_cong) (simp_all add: assms)
      ultimately show ?thesis using placedD(2) [OF D(4), of b i] by simp
    qed
  qed
  moreover have "global_ok sm' gh' L G E" using D(5) by (simp add: global_ok_def assms)
  moreover have "owned bm' mm' P F X'" using D(6,7) assms(16) by (auto simp: owned_def assms(2,6,14))
  ultimately show ?thesis using assms(1) by (simp add: shape_def valid_ids_def assms)
qed

subsection \<open>The whole of vma\_alloc\<close>

definition grants :: "'y ast_scheme \<Rightarrow> addr set \<Rightarrow> gpool \<Rightarrow> bool" where
  "grants s A g \<longleftrightarrow> gp_head g \<noteq> NULL \<or> os_alloc s A (os_calls s) \<noteq> NULL"

lemma gp_relock: "lock_idle omp (gp_lock g) \<Longrightarrow> g\<lparr>gp_lock := released omp (got omp (gp_lock g))\<rparr> = g"
  by (simp add: released_got)

lemma steal_none:
  assumes "\<not> grants s (dom sm) g" and "lock_idle (openmp s) (gp_lock g)"
  shows "S_block_steal_and_lock (aw s h bm sm mm g) = Inr (NULL, aw (called s) h bm sm mm g)"
  using assms get_and_lock_fail [of "g\<lparr>gp_lock := got (openmp s) (gp_lock g)\<rparr>" s sm h bm mm]
  by (simp add: S_block_steal_and_lock_def bnd_def grants_def gp_relock)

lemma steal_run:
  assumes sh: "shape h bm sm mm (gp_head g) P F L G {} {}" and lks: "locks_ok (openmp s) bm sm mm P g {} {} {} False"
    and c: "os_contract s" and gr: "grants s (dom sm) g"
  shows "\<exists>k t h' bm' sm' g' F' L' G'. S_block_steal_and_lock (aw s h bm sm mm g) = Inr (k, aw t h' bm' sm' mm g') \<and>
     (t = s \<or> t = called s) \<and> k \<in> dom bm' \<and> length (F' k) = 56 \<and> (\<forall>i. k \<notin> set (L' i)) \<and>
     shape h' bm' sm' mm (gp_head g') P F' L' G' {k} {} \<and> locks_ok (openmp s) bm' sm' mm P g' {k} {} {} False \<and>
     grown h bm F h' bm' F' \<and> (h (frame_n s) = None \<longrightarrow> h' (frame_n s) = None) \<and> (\<forall>q. L' (Mp q) = L (Mp q)) \<and>
     (gp_head g \<noteq> NULL \<longrightarrow> bsb bm' k = gp_head g) \<and> dom sm \<subseteq> dom sm'"
proof -
  note D = shapeD [OF sh]
  have gi: "lock_idle (openmp s) (gp_lock g)" using locksD(7) [OF lks] by simp
  let ?g = "g\<lparr>gp_lock := got (openmp s) (gp_lock g)\<rparr>"
  show ?thesis
  proof (cases "gp_head g = NULL")
    case False
    define p where "p = gp_head g"
    have G: "dl (snx sm) (spv sm) p G" "set G \<subseteq> dom sm" using D(5) by (simp_all add: global_ok_def p_def)
    then obtain ps where ps: "G = p # ps" using dl_facts [OF G(1)] False by (cases G) (auto simp: p_def)
    then have p: "p \<in> dom sm" "p \<noteq> NULL" using G False by (auto simp: p_def)
    let ?m = "mupd p (\<lambda>b. b\<lparr>sb_lock := got (openmp s) (sll sm p)\<rparr>) sm"
    have gl: "S_superblock_get_and_lock (aw s h bm sm mm ?g) = Inr (p, aw s h bm ?m mm ?g)"
      using locksD(3) [OF lks p(1)] p by (intro get_and_lock_old) (simp_all add: p_def)
    have dm: "dom ?m = dom sm" using p by auto
    have "shape h bm ?m mm (gp_head ?g) P F L (p # ps) {} {}"
      unfolding ps [symmetric] by (rule shape_views [OF sh]) (simp_all del: dom_mupd add: dm)
    moreover have "locks_ok (openmp s) bm ?m mm P ?g {} {p} {} True"
      using lks dm by (auto simp: locks_ok_def lk_def)
    ultimately obtain k bm' sm' g' L' G' where "S_block_steal_and_lock (aw s h bm sm mm g) = Inr (k, aw s h bm' sm' mm g')"
      and "k \<in> dom bm" "dom bm' = dom bm" "dom sm' = dom ?m" "bsb bm' = bsb bm" "length (F k) = 56" "\<forall>i. k \<notin> set (L' i)"
      "shape h bm' sm' mm (gp_head g') P F L' G' {k} {}" "locks_ok (openmp s) bm' sm' mm P g' {k} {} {} False"
      "\<forall>i. i \<noteq> Sb p \<longrightarrow> L' i = L i" "bsb bm k = p"
      using steal_shape [where E = "{}", OF _ _ gl refl gi] by blast
    moreover from this have "grown h bm F h bm' F" by (simp add: grown_def)
    ultimately show ?thesis using dm by (intro exI [of _ k] exI [of _ s] exI [of _ h] exI [of _ bm'] exI [of _ sm'] exI [of _ g']
        exI [of _ F] exI [of _ L'] exI [of _ G']) (simp add: p_def)
  next
    case True
    define p where "p = os_alloc s (dom sm) (os_calls s)"
    have p0: "p \<noteq> NULL" using gr True by (simp add: grants_def p_def)
    note pc = os_contractD [OF c p_def p0]
    obtain h1 b1 m1 where gl: "S_superblock_get_and_lock (aw s h bm sm mm ?g) =
       Inr (p, aw (called s) h1 b1 m1 mm (?g\<lparr>gp_actr := gp_actr ?g + 1, gp_head := p\<rparr>))" and d: "dom h1 = dom h \<union> {a. vma_at p a}"
      "dom b1 = dom bm \<union> {b. block_at p b}" "dom m1 = insert p (dom sm)" and f: "\<forall>i<63. fresh_block (openmp s) h1 b1 p i"
      and o: "\<forall>a. \<not> vma_at p a \<longrightarrow> h1 a = h a" "\<forall>b. \<not> block_at p b \<longrightarrow> b1 b = bm b" "\<forall>q. q \<noteq> p \<longrightarrow> m1 q = sm q"
      and v: "sbc m1 p = 0" "shd m1 p = nth_block p 0" "snx m1 p = NULL" and lp: "lock_held (openmp s) (sll m1 p)"
      using get_and_lock_new [of ?g p s sm h bm mm] True p_def p0 pc(1) by auto
    let ?g1 = "?g\<lparr>gp_actr := gp_actr ?g + 1, gp_head := p\<rparr>"
    have sh0: "shape h bm sm mm NULL P F L G {} {}" using sh True by simp
    have sh1: "shape h1 b1 m1 mm (gp_head ?g1) P (new_F p F) (new_L p L) [p] {} {p}"
      using shape_new [OF sh0 pc(1) pc(4) _ d f o v] pc(2) apart_sym by auto
    note D1 = shapeD [OF sh1]
    have dj: "\<not> block_at p b" if "b \<in> dom bm" for b
    proof -
      have q: "bsb bm b \<in> dom sm" "block_at (bsb bm b) b" using memD(1) [OF D(1) that] by auto
      show ?thesis using apart_blocks [OF pc(1) _ pc(2) [OF q(1)]] memD(4) [OF D(1) q(1)] q(2) by blast
    qed
    have lk1: "locks_ok (openmp s) b1 m1 mm P ?g1 {} {p} {} True"
    proof -
      have "lock_idle (openmp s) (bll b1 b)" if "b \<in> dom b1" for b
      proof (cases "block_at p b")
        case t: True
        then obtain i where "i < 63" "b = nth_block p i" unfolding block_at_iff by blast
        then show ?thesis using f by (simp add: fresh_block_def Let_def)
      next
        case False
        then have "b \<in> dom bm" "b1 b = bm b" using that d o by auto
        then show ?thesis using locksD(1) [OF lks] by (simp add: bll_def)
      qed
      moreover have "lk (openmp s) (q \<in> {p}) (sll m1 q)" if "q \<in> dom m1" for q
      proof (cases "q = p")
        case False
        then have "q \<in> dom sm" "m1 q = sm q" using that d o by auto
        then show ?thesis using locksD(3) [OF lks] False by (simp add: sll_def)
      qed (use lp in simp)
      ultimately show ?thesis using locksD(5) [OF lks] by (simp add: locks_ok_def)
    qed
    obtain k bm' sm' g' L' G' where st: "S_block_steal_and_lock (aw s h bm sm mm g) = Inr (k, aw (called s) h1 bm' sm' mm g')"
      and r: "k \<in> dom b1" "dom bm' = dom b1" "dom sm' = dom m1" "bsb bm' = bsb b1" "length (new_F p F k) = 56" "\<forall>i. k \<notin> set (L' i)"
      "shape h1 bm' sm' mm (gp_head g') P (new_F p F) L' G' {k} {}" "locks_ok (openmp s) bm' sm' mm P g' {k} {} {} False"
      and L': "\<forall>i. i \<noteq> Sb p \<longrightarrow> L' i = new_L p L i" "bsb b1 k = p"
      using steal_shape [OF sh1 subset_refl gl called_sel(1) gi lk1] by blast
    have "dom h \<subseteq> dom h1" "dom bm \<subseteq> dom bm'" using d r(2) by auto
    moreover have "h1 a = h a" if "a \<in> dom h" for a
    proof -
      have "\<not> vma_at p a"
      proof
        assume "vma_at p a"
        then obtain b where b: "block_at p b" "a \<in> areas b" unfolding vma_at_areas by blast
        then have "S_vma_2block a = b" using area_block pc(1) by blast
        then show False using memD(3) [OF D(1) that] dj b(1) by blast
      qed
      then show ?thesis using o(1) by blast
    qed
    moreover have "new_F p F b = F b \<and> bsb bm' b = bsb bm b" if "b \<in> dom bm" for b
      using dj [OF that] o(2) r(4) by (simp add: new_F_def bsb_def)
    moreover have "areas b \<subseteq> set (new_F p F b)" if "b \<in> dom bm' - dom bm" for b
      using that r(2) d(2) by (auto simp: new_F_def areas_iff)
    ultimately have "grown h bm F h1 bm' (new_F p F)" unfolding grown_def by blast
    moreover have "h (frame_n s) = None \<longrightarrow> h1 (frame_n s) = None" using o(1) pc(3) by simp
    moreover have "\<forall>q. L' (Mp q) = L (Mp q)" using L' by (simp add: new_L_def)
    moreover have "k \<in> dom bm'" "dom sm \<subseteq> dom sm'" using r(1-3) d(3) by auto
    ultimately show ?thesis using st r(5-8) True
      by (intro exI [of _ k] exI [of _ "called s"] exI [of _ h1] exI [of _ bm'] exI [of _ sm'] exI [of _ g']
        exI [of _ "new_F p F"] exI [of _ L'] exI [of _ G']) simp
  qed
qed

definition pool_inv_with :: "'y ast_scheme \<Rightarrow> (addr \<Rightarrow> addr list) \<Rightarrow> (list_id \<Rightarrow> addr list) \<Rightarrow> addr list \<Rightarrow> bool" where
  "pool_inv_with s F L G \<longleftrightarrow>
     shape (vmas s) (blocks s) (superblocks s) (mpools s) (gp_head (S_gpool s)) (pools (mpools s) (S_init s)) F L G {} {} \<and>
     locks_ok (openmp s) (blocks s) (superblocks s) (mpools s) (pools (mpools s) (S_init s)) (S_gpool s) {} {} {} False \<and>
     os_contract s \<and> self s \<in> dom (mpools s) \<and> self s \<noteq> NULL \<and> vmas s (frame_n s) = None"

text \<open>What a successful allocation does, apart from the invariant.\<close>

definition allocated :: "'y ast_scheme \<Rightarrow> (addr \<Rightarrow> addr list) \<Rightarrow> addr \<Rightarrow> 'y ast_scheme \<Rightarrow> (addr \<Rightarrow> addr list) \<Rightarrow> bool" where
  "allocated s F z s' F' \<longleftrightarrow> z \<noteq> NULL \<and> z \<notin> used (vmas s) F \<and> used (vmas s') F' = insert z (used (vmas s) F) \<and>
     (\<forall>a \<in> dom (vmas s). vmas s' a = vmas s a) \<and> dom (blocks s) \<subseteq> dom (blocks s') \<and>
     (\<forall>b \<in> dom (blocks s). bsb (blocks s') b = bsb (blocks s) b) \<and>
     (if phd (mpools s) (self s) \<noteq> NULL \<and> S_init s (self s) \<noteq> 0 then S_vma_2block z = phd (mpools s) (self s)
      else gp_head (S_gpool s) \<noteq> NULL \<longrightarrow> bsb (blocks s') (S_vma_2block z) = gp_head (S_gpool s))"

lemma pools_dom: "dom mm' = dom mm \<Longrightarrow> pools mm' ini = pools mm ini"
  by (simp add: pools_def)

lemma alloc_cached:
  assumes i: "pool_inv_with s F L G" and me: "S_init s (self s) \<noteq> 0" and k: "phd (mpools s) (self s) \<noteq> NULL"
  shows "\<exists>z bm' mm' F' L'. vma_alloc s = Inr (z, aw s (vmas s) bm' (superblocks s) mm' (S_gpool s)) \<and>
     pool_inv_with (aw s (vmas s) bm' (superblocks s) mm' (S_gpool s)) F' L' G \<and>
     allocated s F z (aw s (vmas s) bm' (superblocks s) mm' (S_gpool s)) F'"
proof -
  define h bm sm mm g where "h = vmas s" and "bm = blocks s" and "sm = superblocks s" and "mm = mpools s" and "g = S_gpool s"
  define P where "P = pools mm (S_init s)"
  define q where "q = self s"
  have s: "s = aw s h bm sm mm g" by (simp add: h_def bm_def sm_def mm_def g_def aw_self)
  have sh: "shape h bm sm mm (gp_head g) P F L G {} {}" and lks: "locks_ok (openmp s) bm sm mm P g {} {} {} False"
    using i by (simp_all add: pool_inv_with_def P_def h_def bm_def sm_def mm_def g_def)
  note D = shapeD [OF sh]
  have qP: "q \<in> P" "q \<in> dom mm" "q \<noteq> NULL" using i me by (auto simp: pool_inv_with_def P_def pools_def mm_def q_def)
  then have qv: "Mp q \<in> valid_ids sm P" by (simp add: valid_ids_def)
  define k where "k = phd mm q"
  have k0: "k \<noteq> NULL" using k by (simp add: k_def mm_def q_def)
  have dq: "dl (bnx bm) (bpv bm) k (L (Mp q))" using lists_okD(1) [OF D(3) qv] by (simp add: k_def)
  then obtain ks where L: "L (Mp q) = k # ks" using dl_facts [OF dq] k0 by (cases "L (Mp q)") auto
  then have kin: "k \<in> set (L (Mp q))" by simp
  then have kd: "k \<in> dom bm" by (rule placedD(1) [OF D(4)])
  have lk: "loc F bm k = Some (Mp q)" using placedD(2) [OF D(4) kd] kin by simp
  then obtain v vs where F: "F k = v # vs" and bk: "bmp bm k = q" "F k \<noteq> []" by (cases "F k") (auto simp: loc_def split: if_splits)
  define bm1 where "bm1 = mupd k (\<lambda>b. b\<lparr>b_lock := got (openmp s) (bll bm k)\<rparr>) bm"
  define mm1 where "mm1 = mupd q (\<lambda>m. m\<lparr>mp_lock := got (openmp s) (pll mm q)\<rparr>) mm"
  have d1: "dom bm1 = dom bm" "dom mm1 = dom mm" using kd qP by (auto simp: bm1_def mm1_def)
  have run: "vma_alloc s = take_vma q k (aw s h bm1 sm mm1 g)"
    using init_mpool_done [of s] me qP kd k0 locksD(1) [OF lks kd] locksD(5) [OF lks qP(1)]
    by (simp add: vma_alloc_def bnd_def q_def [symmetric] k_def [symmetric]) (subst s, simp add: bnd_def k_def [symmetric] bm1_def mm1_def)
  have sh1: "shape h bm1 sm mm1 (gp_head g) P F L G {k} {}"
    by (rule shape_views [OF sh]) (simp_all add: d1, simp_all add: bm1_def mm1_def)
  have lks1: "locks_ok (openmp s) bm1 sm mm1 P g {k} {} {q} False"
    using lks by (auto simp: locks_ok_def lk_def d1) (auto simp: bm1_def mm1_def)
  have "bmp bm1 k = q" using bk by (simp add: bm1_def)
  moreover have "i = Mp q" if "k \<in> set (L i)" for i using lists_okD(3) [OF D(3) that kin] .
  ultimately obtain bm' mm' where tk: "take_vma q k (aw s h bm1 sm mm1 g) = Inr (v, aw s h bm' sm mm' g)"
    and sh': "shape h bm' sm mm' (gp_head g) P (F(k := vs)) (L(Mp q := if vs = [] then ks else k # ks)) G {} {}"
    and lk': "locks_ok (openmp s) bm' sm mm' P g {} {} {} False" and dd: "bsb bm' = bsb bm1" "dom bm' = dom bm1" "dom mm' = dom mm1"
    using take_vma_run [OF sh1 L F _ qP(1) _ lks1] by blast
  let ?s = "aw s h bm' sm mm' g"
  have oc: "os_contract ?s" using i by (simp add: pool_inv_with_def os_contract_def)
  have inv: "pool_inv_with ?s (F(k := vs)) (L(Mp q := if vs = [] then ks else k # ks)) G"
    using i sh' lk' oc qP dd d1 pools_dom [of mm' mm]
    by (simp add: pool_inv_with_def P_def h_def q_def)
  note ut = used_take [OF D(1) kd D(2) [OF kd] F]
  have vk: "v \<in> areas k" using D(2) [OF kd] F by (simp add: block_ok_def)
  have "allocated s F v ?s (F(k := vs))"
    using ut memD(2) [OF D(1) kd vk] dd d1 me k
    by (simp add: allocated_def h_def [symmetric] bm_def [symmetric] k_def [symmetric] mm_def [symmetric] q_def [symmetric])
       (simp add: bm1_def)
  then show ?thesis using run tk inv by (simp add: h_def sm_def g_def) blast
qed

definition kin :: "'y ast_scheme \<Rightarrow> 'y ast_scheme \<Rightarrow> bool" where
  "kin s s' \<longleftrightarrow> same_env s s' \<and> self s' = self s \<and> os_alloc s' = os_alloc s"

lemma kin_aw [simp]: "kin s (aw s h bm sm mm g)" "kin s (aw (called s) h bm sm mm g)"
  by (simp_all add: kin_def same_env_def)

lemma alloc_none:
  assumes i: "pool_inv_with s F L G" and me: "S_init s (self s) \<noteq> 0" and k: "phd (mpools s) (self s) = NULL"
    and gr: "\<not> grants s (dom (superblocks s)) (S_gpool s)"
  shows "vma_alloc s = Inr (NULL, called s)" and "pool_inv_with (called s) F L G"
proof -
  have s: "s = aw s (vmas s) (blocks s) (superblocks s) (mpools s) (S_gpool s)" by (simp add: aw_self)
  have gi: "lock_idle (openmp s) (gp_lock (S_gpool s))" using i locksD(7) by (auto simp: pool_inv_with_def)
  have c: "called s = aw (called s) (vmas s) (blocks s) (superblocks s) (mpools s) (S_gpool s)" by (simp add: aw_def called_def)
  have q: "self s \<in> dom (mpools s)" "self s \<noteq> NULL" using i by (simp_all add: pool_inv_with_def)
  have "get_mp mp_head (self s) s = Inr (NULL, s)"
    using get_w(14) [OF q, of s "vmas s" "blocks s" "superblocks s" "S_gpool s"] k s by simp
  moreover have "S_block_steal_and_lock s = Inr (NULL, called s)" using steal_none [OF gr gi] s c by metis
  ultimately show "vma_alloc s = Inr (NULL, called s)" using init_mpool_done [OF me] by (simp add: vma_alloc_def bnd_def)
  show "pool_inv_with (called s) F L G" using i by (simp add: pool_inv_with_def called_def os_contract_def)
qed

lemma alloc_steals:
  assumes i: "pool_inv_with s F L G" and me: "S_init s (self s) \<noteq> 0" and k: "phd (mpools s) (self s) = NULL"
    and gr: "grants s (dom (superblocks s)) (S_gpool s)"
  shows "\<exists>z s' F' L' G'. vma_alloc s = Inr (z, s') \<and> pool_inv_with s' F' L' G' \<and> allocated s F z s' F' \<and> kin s s'"
proof -
  define h bm sm mm g where "h = vmas s" and "bm = blocks s" and "sm = superblocks s" and "mm = mpools s" and "g = S_gpool s"
  define P where "P = pools mm (S_init s)"
  define q where "q = self s"
  have s: "s = aw s h bm sm mm g" by (simp add: h_def bm_def sm_def mm_def g_def aw_self)
  have sh: "shape h bm sm mm (gp_head g) P F L G {} {}" and lks: "locks_ok (openmp s) bm sm mm P g {} {} {} False"
    and oc: "os_contract s" and fn: "h (frame_n s) = None"
    using i by (simp_all add: pool_inv_with_def P_def h_def bm_def sm_def mm_def g_def)
  note D = shapeD [OF sh]
  have qP: "q \<in> P" "q \<in> dom mm" "q \<noteq> NULL" using i me by (auto simp: pool_inv_with_def P_def pools_def mm_def q_def)
  have pq: "phd mm q = NULL" using k by (simp add: mm_def q_def)
  have qv: "Mp q \<in> valid_ids sm P" using qP by (simp add: valid_ids_def)
  have Lq: "L (Mp q) = []" using dl_facts [OF lists_okD(1) [OF D(3) qv]] pq by simp
  obtain k t h1 b1 s1 g1 F1 L1 G1 where st: "S_block_steal_and_lock (aw s h bm sm mm g) = Inr (k, aw t h1 b1 s1 mm g1)"
    and t: "t = s \<or> t = called s" and kd: "k \<in> dom b1" "length (F1 k) = 56" "\<forall>i. k \<notin> set (L1 i)"
    and sh1: "shape h1 b1 s1 mm (gp_head g1) P F1 L1 G1 {k} {}" and lk1: "locks_ok (openmp s) b1 s1 mm P g1 {k} {} {} False"
    and gw: "grown h bm F h1 b1 F1" and fn1: "h (frame_n s) = None \<longrightarrow> h1 (frame_n s) = None" and Lm: "\<forall>q. L1 (Mp q) = L (Mp q)"
    and bg: "gp_head g \<noteq> NULL \<longrightarrow> bsb b1 k = gp_head g"
    using steal_run [OF sh lks oc gr [folded sm_def g_def]] by (elim exE conjE, intro that) assumption+
  note D1 = shapeD [OF sh1]
  have k0: "k \<noteq> NULL" using memD(1) [OF D1(1) kd(1)] by blast
  have tt: "openmp t = openmp s" "self t = self s" "S_init t = S_init s" "os_contract t = os_contract s" "frame_n t = frame_n s" using t by auto
  define b2 where "b2 = mupd k (\<lambda>b. b\<lparr>b_mpool := q\<rparr>) (mupd k (\<lambda>b. b\<lparr>b_next := NULL\<rparr>) (mupd k (\<lambda>b. b\<lparr>b_prev := NULL\<rparr>) b1))"
  define m2 where "m2 = mupd q (\<lambda>m. m\<lparr>mp_head := k\<rparr>) (mupd q (\<lambda>m. m\<lparr>mp_lock := got (openmp s) (pll mm q)\<rparr>) mm)"
  have d2: "dom b2 = dom b1" "dom m2 = dom mm" using kd(1) qP by (auto simp: b2_def m2_def)
  have gm: "get_mp mp_head q s = Inr (NULL, s)"
    using get_w(14) [OF qP(2,3), of s h bm sm g] pq s by simp
  have run: "vma_alloc s = take_vma q k (aw t h1 b2 s1 m2 g1)"
    using init_mpool_done [OF me] gm st [folded s] k0 kd(1) qP locksD(5) [OF lk1 qP(1)] tt
    by (simp add: vma_alloc_def bnd_def q_def [symmetric]) (simp add: b2_def m2_def)
  have sh2: "shape h1 b2 s1 m2 (gp_head g1) P F1 (L1(Mp q := [k])) G1 {k} {}"
  proof (rule attach_shape [OF sh1 kd(1) _ qP(1) pq])
    show "k \<notin> set (L1 i)" for i using kd(3) by blast
  qed (use d2 in simp_all, simp_all add: b2_def m2_def)
  have lk2: "locks_ok (openmp t) b2 s1 m2 P g1 {k} {} {q} False"
  proof -
    have "bll b2 = bll b1" "pll m2 = (pll mm)(q := got (openmp s) (pll mm q))" by (simp_all add: b2_def m2_def)
    then show ?thesis using lk1 tt(1) by (simp add: locks_ok_def d2)
  qed
  obtain v vs where F: "F1 k = v # vs" using kd(2) by (cases "F1 k") auto
  have bq: "bmp b2 k = q" by (simp add: b2_def)
  have only: "i = Mp q" if "k \<in> set ((L1(Mp q := [k])) i)" for i using that kd(3) by (auto split: if_splits)
  have Lk: "(L1(Mp q := [k])) (Mp q) = k # []" by simp
  obtain b3 m3 where tk: "take_vma q k (aw t h1 b2 s1 m2 g1) = Inr (v, aw t h1 b3 s1 m3 g1)"
    and sh3: "shape h1 b3 s1 m3 (gp_head g1) P (F1(k := vs)) (L1(Mp q := if vs = [] then [] else [k])) G1 {} {}"
    and lk3: "locks_ok (openmp t) b3 s1 m3 P g1 {} {} {} False" and d3: "bsb b3 = bsb b2" "dom b3 = dom b2" "dom m3 = dom m2"
    using take_vma_run [OF sh2 Lk F only qP(1) bq lk2] unfolding fun_upd_upd by blast
  let ?s = "aw t h1 b3 s1 m3 g1"
  have inv: "pool_inv_with ?s (F1(k := vs)) (L1(Mp q := if vs = [] then [] else [k])) G1"
    using sh3 lk3 oc tt qP fn fn1 d2 d3 pools_dom [of m3 mm]
    by (simp add: pool_inv_with_def P_def q_def) (auto simp: os_contract_def)
  note ut = used_take [OF D1(1) kd(1) D1(2) [OF kd(1)] F]
  have vk: "v \<in> areas k" using D1(2) [OF kd(1)] F by (simp add: block_ok_def)
  note vd = memD(2) [OF D1(1) kd(1) vk]
  have ug: "used h1 F1 = used h F" by (rule used_grown [OF gw D(1) D1(1)])
  have b31: "bsb b3 = bsb b1" using d3 by (simp add: b2_def)
  have "allocated s F v ?s (F1(k := vs))"
    using ut vd d2 d3(2) k bg gw ug unfolding allocated_def
    by (simp add: h_def [symmetric] bm_def [symmetric] g_def [symmetric] b31 grown_def)
  moreover have "kin s ?s" using t by auto
  ultimately show ?thesis using run tk inv by (simp only: exI) blast
qed

end
