(* ===== verification/Alloc_Release.thy ===== *)
theory Alloc_Release
  imports Alloc_Correct
begin

section \<open>The steps of vma\_free\<close>

text \<open>
  The branches of \<open>vma_free\<close> and \<open>S_block_unlock_and_return\<close>, each executed on views and with its
  effect on the invariant.
\<close>

lemma free_views_plain:
  assumes k: "S_vma_2block v = k" "k \<in> dom bm" "k \<noteq> NULL" "lock_idle (openmp s) (bll bm k)" and v: "v \<in> dom h" "v \<noteq> NULL"
    and c: "bvc bm k \<noteq> 1" "bhd bm k \<noteq> NULL" and m: "bmp bm k = q"
  shows "\<exists>h' bm'. vma_free v (aw s h bm sm mm g) = Inr ((), aw s h' bm' sm mm g) \<and>
     dom h' = dom h \<and> fnx h' = (fnx h)(v := bhd bm k) \<and> (\<forall>a. a \<noteq> v \<longrightarrow> h' a = h a) \<and> dom bm' = dom bm \<and>
     bvc bm' = (bvc bm)(k := bvc bm k - 1) \<and> bhd bm' = (bhd bm)(k := v) \<and> bsb bm' = bsb bm \<and> bmp bm' = bmp bm \<and>
     bnx bm' = bnx bm \<and> bpv bm' = bpv bm \<and> bll bm' = bll bm"
  by (intro exI, rule conjI, use k v c m in \<open>simp add: vma_free_def bnd_def insert_absorb\<close>, (rule refl)?,
      use k v c in \<open>simp add: insert_absorb released_got fun_upd_idem hupd_other\<close>)

lemma free_views_push:
  assumes k: "S_vma_2block v = k" "k \<in> dom bm" "k \<noteq> NULL" "lock_idle (openmp s) (bll bm k)" and v: "v \<in> dom h" "v \<noteq> NULL"
    and c: "bvc bm k = 56" "bhd bm k = NULL" and m: "bmp bm k = q" "q \<in> dom mm" "q \<noteq> NULL" "lock_idle (openmp s) (pll mm q)"
    and n: "phd mm q \<noteq> NULL \<Longrightarrow> phd mm q \<in> dom bm \<and> phd mm q \<noteq> k"
  shows "\<exists>h' bm' mm'. vma_free v (aw s h bm sm mm g) = Inr ((), aw s h' bm' sm mm' g) \<and>
     dom h' = dom h \<and> fnx h' = (fnx h)(v := NULL) \<and> (\<forall>a. a \<noteq> v \<longrightarrow> h' a = h a) \<and> dom bm' = dom bm \<and> dom mm' = dom mm \<and>
     bvc bm' = (bvc bm)(k := 55) \<and> bhd bm' = (bhd bm)(k := v) \<and> bsb bm' = bsb bm \<and> bmp bm' = bmp bm \<and>
     bnx bm' = (bnx bm)(k := phd mm q) \<and> bpv bm' = (if phd mm q = NULL then bpv bm else (bpv bm)(phd mm q := k)) \<and> bll bm' = bll bm \<and>
     phd mm' = (phd mm)(q := k) \<and> pll mm' = pll mm"
proof -
  note x = vma_free_def bnd_def insert_absorb full_counts
  note y = insert_absorb released_got fun_upd_idem hupd_other
  consider "phd mm q = NULL" | "phd mm q \<noteq> NULL" "phd mm q \<in> dom bm" "phd mm q \<noteq> k" using n by blast
  then show ?thesis
  proof cases
    case 1
    show ?thesis by (intro exI, rule conjI, use k v c m 1 in \<open>simp add: x\<close>, (rule refl)?, use k v c m 1 in \<open>simp add: y\<close>)
  next
    case 2
    show ?thesis by (intro exI, rule conjI, use k v c m 2 in \<open>simp add: x\<close>, (rule refl)?, use k v c m 2 in \<open>simp add: y\<close>)
  qed
qed

lemma free_views_unlink:
  assumes k: "S_vma_2block v = k" "k \<in> dom bm" "k \<noteq> NULL" "lock_idle (openmp s) (bll bm k)" and v: "v \<in> dom h" "v \<noteq> NULL"
    and c: "bvc bm k = 1" and m: "bmp bm k = q" "q \<in> dom mm" "q \<noteq> NULL" "lock_idle (openmp s) (pll mm q)"
    and n: "bnx bm k \<noteq> NULL \<Longrightarrow> bnx bm k \<in> dom bm \<and> bnx bm k \<noteq> k"
    and p: "phd mm q \<noteq> k \<Longrightarrow> bpv bm k \<in> dom bm \<and> bpv bm k \<noteq> k \<and> bpv bm k \<noteq> NULL"
  shows "\<exists>h' bm' mm'. vma_free v (aw s h bm sm mm g) = S_block_unlock_and_return k (aw s h' bm' sm mm' g) \<and>
     dom h' = dom h \<and> fnx h' = (fnx h)(v := bhd bm k) \<and> (\<forall>a. a \<noteq> v \<longrightarrow> h' a = h a) \<and> dom bm' = dom bm \<and> dom mm' = dom mm \<and>
     bvc bm' = (bvc bm)(k := 0) \<and> bhd bm' = (bhd bm)(k := v) \<and> bsb bm' = bsb bm \<and> bmp bm' = bmp bm \<and>
     bnx bm' = (if phd mm q = k then bnx bm else (bnx bm)(bpv bm k := bnx bm k)) \<and>
     bpv bm' = (if bnx bm k = NULL then bpv bm else (bpv bm)(bnx bm k := bpv bm k)) \<and>
     bll bm' = (bll bm)(k := got (openmp s) (bll bm k)) \<and>
     phd mm' = (phd mm)(q := if phd mm q = k then bnx bm k else phd mm q) \<and> pll mm' = pll mm"
proof -
  note x = vma_free_def bnd_def insert_absorb full_counts
  note y = insert_absorb released_got fun_upd_idem hupd_other
  consider (1) "phd mm q = k" "bnx bm k = NULL" | (2) "phd mm q = k" "bnx bm k \<noteq> NULL" "bnx bm k \<in> dom bm" "bnx bm k \<noteq> k"
    | (3) "phd mm q \<noteq> k" "bnx bm k = NULL" "bpv bm k \<in> dom bm" "bpv bm k \<noteq> k" "bpv bm k \<noteq> NULL"
    | (4) "phd mm q \<noteq> k" "bnx bm k \<noteq> NULL" "bnx bm k \<in> dom bm" "bnx bm k \<noteq> k" "bpv bm k \<in> dom bm" "bpv bm k \<noteq> k" "bpv bm k \<noteq> NULL"
    using n p by blast
  then show ?thesis
  proof cases
    case 1
    show ?thesis by (intro exI, rule conjI, use k v c m 1 in \<open>simp add: x\<close>, (rule refl)?, use k v c m 1 in \<open>simp add: y\<close>)
  next
    case 2
    show ?thesis by (intro exI, rule conjI, use k v c m 2 in \<open>simp add: x\<close>, (rule refl)?, use k v c m 2 in \<open>simp add: y\<close>)
  next
    case 3
    show ?thesis by (intro exI, rule conjI, use k v c m 3 in \<open>simp add: x\<close>, (rule refl)?, use k v c m 3 in \<open>simp add: y\<close>)
  next
    case 4
    show ?thesis by (intro exI, rule conjI, use k v c m 4 in \<open>simp add: x\<close>, (rule refl)?, use k v c m 4 in \<open>simp add: y\<close>)
  qed
qed

lemma unat_pred: "0 < unat (x :: 64 word) \<Longrightarrow> unat (x - 1) = unat x - 1"
  by (simp add: unat_sub word_le_nat_alt)

text \<open>The area goes back to its block.\<close>

lemma block_ok_put:
  assumes "block_ok h bm F k" and v: "v \<in> areas k" "v \<notin> set (F k)"
  shows "length (F k) \<le> 55" and "0 < unat (bvc bm k)" and "unat (bvc bm k - 1) + Suc (length (F k)) = 56"
proof -
  have b: "distinct (F k)" "set (F k) \<subseteq> areas k" "unat (bvc bm k) + length (F k) = 56" using assms(1) by (simp_all add: block_ok_def)
  show 1: "length (F k) \<le> 55" using not_all_taken [OF b(1,2) card_areas(1), of "{v}"] v card_areas(2) [of k] by simp
  then show 2: "0 < unat (bvc bm k)" using b(3) by simp
  show "unat (bvc bm k - 1) + Suc (length (F k)) = 56" using b(3) 2 by (simp add: unat_pred)
qed

lemma free_area_shape:
  assumes sh: "shape h bm sm mm gh P F L G {} E" and k: "k \<in> dom bm" and v: "v \<in> areas k" "v \<notin> set (F k)"
    and h': "dom h' = dom h" "fnx h' = (fnx h)(v := bhd bm k)"
    and d: "dom bm' = dom bm" "bvc bm' = (bvc bm)(k := bvc bm k - 1)" "bhd bm' = (bhd bm)(k := v)" "bsb bm' = bsb bm"
      "bmp bm' = bmp bm" "bnx bm' = bnx bm" "bpv bm' = bpv bm"
  shows "shape h' bm' sm mm gh P (F(k := v # F k)) L G {k} E"
proof -
  note D = shapeD [OF sh]
  have "mem_ok h' bm' sm" using D(1) by (rule mem_ok_cong) (simp_all add: h' d)
  moreover have "block_ok h' bm' (F(k := v # F k)) b" if "b \<in> dom bm'" for b
  proof (cases "b = k")
    case True
    then show ?thesis using D(2) [OF k] block_ok_put(3) [OF D(2) [OF k] v] v by (simp add: block_ok_def d h')
  next
    case False
    have b: "b \<in> dom bm" using that d by simp
    have "v \<notin> areas b" using memD(2) [OF D(1)] b k v(1) False by blast
    then show ?thesis by (intro block_ok_cong [OF D(2) [OF b]]) (use False in \<open>auto simp: h' d\<close>)
  qed
  moreover have "lists_placed bm' (F(k := v # F k)) L {k}"
  proof (rule placedI)
    show "b \<in> dom bm'" if "b \<in> set (L i)" for i b using placedD(1) [OF D(4) that] d by simp
    show "b \<in> set (L i) \<longleftrightarrow> loc (F(k := v # F k)) bm' b = Some i" if "b \<in> dom bm'" "b \<notin> {k}" for b i
    proof -
      have "loc (F(k := v # F k)) bm' b = loc F bm b" using that by (intro loc_cong) (simp_all add: d)
      then show ?thesis using placedD(2) [OF D(4), of b i] that d by simp
    qed
  qed
  moreover have "owned bm' mm P (F(k := v # F k)) {k}" using D(6,7) by (auto simp: owned_def d)
  ultimately show ?thesis using D(3,5) by (simp add: shape_def d)
qed

text \<open>A block enters or leaves the list of its pool.\<close>

lemma pool_push_shape:
  assumes sh: "shape h bm sm mm gh P F L G {k} E" and k: "k \<in> dom bm" "\<And>i. k \<notin> set (L i)" and q: "bmp bm k = q" "q \<in> P"
    and F: "F k \<noteq> []" "length (F k) \<noteq> 56"
    and v: "dom bm' = dom bm" "dom mm' = dom mm" "bvc bm' = bvc bm" "bhd bm' = bhd bm" "bsb bm' = bsb bm" "bmp bm' = bmp bm"
      "bnx bm' = (bnx bm)(k := phd mm q)" "bpv bm' = (if phd mm q = NULL then bpv bm else (bpv bm)(phd mm q := k))" "phd mm' = (phd mm)(q := k)"
  shows "shape h bm' sm mm' gh P F (L(Mp q := k # L (Mp q))) G {} E"
proof -
  note D = shapeD [OF sh]
  have qv: "Mp q \<in> valid_ids sm P" using q(2) by (simp add: valid_ids_def)
  have k0: "k \<noteq> NULL" using memD(1) [OF D(1) k(1)] by blast
  let ?L = "L(Mp q := k # L (Mp q))"
  have "mem_ok h bm' sm" using D(1) by (rule mem_ok_cong) (simp_all add: v)
  moreover have "block_ok h bm' F b = block_ok h bm F b" for b by (simp add: block_ok_def v)
  moreover have "lists_ok (bnx bm') (bpv bm') (heads (shd sm) (phd mm')) (valid_ids sm P) ?L"
    using lists_push [OF D(3) qv k0 k(2)] unfolding v(7-9) heads_simps .
  moreover have "lists_placed bm' F ?L {}"
  proof (rule placedI)
    show "b \<in> dom bm'" if "b \<in> set (?L i)" for i b using that placedD(1) [OF D(4)] k(1) v(1) by (auto split: if_splits)
    show "b \<in> set (?L i) \<longleftrightarrow> loc F bm' b = Some i" if b: "b \<in> dom bm'" for b i
    proof (cases "b = k")
      case True
      then show ?thesis using k(2) F q by (auto simp: loc_def v)
    next
      case False
      have "loc F bm' b = loc F bm b" by (intro loc_cong) (simp_all add: v)
      then show ?thesis using placedD(2) [OF D(4), of b] b False v(1) by simp
    qed
  qed
  moreover have "global_ok sm gh ?L G E" using D(5) by (rule global_ok_cong) simp_all
  moreover have "owned bm' mm' P F {}" using D(6,7) q F by (auto simp: owned_def v)
  ultimately show ?thesis using D(2) by (simp add: shape_def v(1))
qed

lemma pool_remove_shape:
  assumes sh: "shape h bm sm mm gh P F L G {k} E" and k: "k \<in> set (L (Mp q))"
    and v: "dom bm' = dom bm" "dom mm' = dom mm" "bvc bm' = bvc bm" "bhd bm' = bhd bm" "bsb bm' = bsb bm" "bmp bm' = bmp bm"
      "bnx bm' = (if phd mm q = k then bnx bm else (bnx bm)(bpv bm k := bnx bm k))"
      "bpv bm' = (if bnx bm k = NULL then bpv bm else (bpv bm)(bnx bm k := bpv bm k))"
      "phd mm' = (phd mm)(q := if phd mm q = k then bnx bm k else phd mm q)"
  shows "shape h bm' sm mm' gh P F (L(Mp q := filter (\<lambda>a. a \<noteq> k) (L (Mp q)))) G {k} E"
    and "k \<notin> set ((L(Mp q := filter (\<lambda>a. a \<noteq> k) (L (Mp q)))) i)"
proof -
  note D = shapeD [OF sh]
  let ?L = "L(Mp q := filter (\<lambda>a. a \<noteq> k) (L (Mp q)))"
  show "k \<notin> set (?L i)" using lists_okD(3) [OF D(3) k, of i] by auto
  have "mem_ok h bm' sm" using D(1) by (rule mem_ok_cong) (simp_all add: v)
  moreover have "block_ok h bm' F b = block_ok h bm F b" for b by (simp add: block_ok_def v)
  moreover have "lists_ok (bnx bm') (bpv bm') (heads (shd sm) (phd mm')) (valid_ids sm P) ?L"
    using lists_remove(1) [OF D(3) k] unfolding v(7-9) heads_simps .
  moreover have "lists_placed bm' F ?L {k}"
  proof (rule placedI)
    show "b \<in> dom bm'" if "b \<in> set (?L i)" for i b using that placedD(1) [OF D(4)] v(1) by (auto split: if_splits)
    show "b \<in> set (?L i) \<longleftrightarrow> loc F bm' b = Some i" if b: "b \<in> dom bm'" "b \<notin> {k}" for b i
    proof -
      have "loc F bm' b = loc F bm b" by (intro loc_cong) (simp_all add: v)
      then show ?thesis using placedD(2) [OF D(4), of b] b v(1) by simp
    qed
  qed
  moreover have "global_ok sm gh ?L G E" using D(5) by (rule global_ok_cong) simp_all
  moreover have "owned bm' mm' P F {k}" using D(6,7) by (auto simp: owned_def v)
  ultimately show "shape h bm' sm mm' gh P F ?L G {k} E" using D(2) by (simp add: shape_def v(1))
qed

subsection \<open>Returning a block\<close>

lemma return_views_keep:
  assumes p: "bsb bm k = p" "p \<in> dom sm" "p \<noteq> NULL" "lock_idle (openmp s) (sll sm p)"
    and k: "k \<in> dom bm" "k \<noteq> NULL" "lock_held (openmp s) (bll bm k)" and gi: "lock_idle (openmp s) (gp_lock g)"
    and h: "shd sm p \<noteq> NULL \<Longrightarrow> shd sm p \<in> dom bm \<and> shd sm p \<noteq> k"
    and c: "sbc sm p \<noteq> 1" "shd sm p = NULL \<Longrightarrow> sbc sm p = 63 \<and> (gp_head g \<noteq> NULL \<longrightarrow> gp_head g \<in> dom sm \<and> gp_head g \<noteq> p)"
  shows "\<exists>bm' sm' g'. S_block_unlock_and_return k (aw s hp bm sm mm g) = Inr ((), aw s hp bm' sm' mm g') \<and> dom bm' = dom bm \<and> dom sm' = dom sm \<and>
     bvc bm' = bvc bm \<and> bhd bm' = bhd bm \<and> bsb bm' = bsb bm \<and> bmp bm' = bmp bm \<and> bnx bm' = (bnx bm)(k := shd sm p) \<and>
     bpv bm' = (if shd sm p = NULL then bpv bm else (bpv bm)(shd sm p := k)) \<and> bll bm' = (bll bm)(k := released (openmp s) (bll bm k)) \<and>
     sbc sm' = (sbc sm)(p := sbc sm p - 1) \<and> shd sm' = (shd sm)(p := k) \<and> sll sm' = sll sm \<and>
     snx sm' = (if shd sm p = NULL then (snx sm)(p := gp_head g) else snx sm) \<and>
     spv sm' = (if shd sm p = NULL \<and> gp_head g \<noteq> NULL then (spv sm)(gp_head g := p) else spv sm) \<and>
     gp_head g' = (if shd sm p = NULL then p else gp_head g) \<and> gp_lock g' = gp_lock g"
proof -
  note x = S_block_unlock_and_return_def return_to_superblock_def S_block_2superblock_def bnd_def insert_absorb full_counts
  note y = insert_absorb released_got fun_upd_idem
  note ps = p k gi c(1)
  consider (1) "shd sm p \<noteq> NULL" "shd sm p \<in> dom bm" "shd sm p \<noteq> k" | (2) "shd sm p = NULL" "sbc sm p = 63" "gp_head g = NULL"
    | (3) "shd sm p = NULL" "sbc sm p = 63" "gp_head g \<noteq> NULL" "gp_head g \<in> dom sm" "gp_head g \<noteq> p" using h c(2) by blast
  then show ?thesis
  proof cases
    case 1
    show ?thesis by (intro exI, rule conjI, use ps 1 in \<open>simp add: x\<close>, (rule refl)?, use ps 1 in \<open>simp add: y\<close>)
  next
    case 2
    show ?thesis by (intro exI, rule conjI, use ps 2 in \<open>simp add: x\<close>, (rule refl)?, use ps 2 in \<open>simp add: y\<close>)
  next
    case 3
    show ?thesis by (intro exI, rule conjI, use ps 3 in \<open>simp add: x\<close>, (rule refl)?, use ps 3 in \<open>simp add: y\<close>)
  qed
qed

text \<open>The last used block: everything up to the call of \<open>S_superblock_unlock_and_put\<close>.\<close>

lemma return_views_last:
  assumes p: "bsb bm k = p" "p \<in> dom sm" "p \<noteq> NULL" "lock_idle (openmp s) (sll sm p)"
    and k: "k \<in> dom bm" "k \<noteq> NULL" "lock_held (openmp s) (bll bm k)"
    and h: "shd sm p \<in> dom bm" "shd sm p \<noteq> k" "shd sm p \<noteq> NULL" and c: "sbc sm p = 1"
  shows "\<exists>bm' sm'. S_block_unlock_and_return k (aw s hp bm sm mm g) = S_superblock_unlock_and_put p (aw s hp bm' sm' mm g) \<and>
     dom bm' = dom bm \<and> dom sm' = dom sm \<and>
     bvc bm' = bvc bm \<and> bhd bm' = bhd bm \<and> bsb bm' = bsb bm \<and> bmp bm' = bmp bm \<and> bnx bm' = (bnx bm)(k := shd sm p) \<and>
     bpv bm' = (bpv bm)(shd sm p := k) \<and> bll bm' = (bll bm)(k := released (openmp s) (bll bm k)) \<and>
     sbc sm' = (sbc sm)(p := 0) \<and> shd sm' = (shd sm)(p := k) \<and> sll sm' = sll sm \<and> snx sm' = snx sm \<and> spv sm' = spv sm"
proof -
  note x = S_block_unlock_and_return_def return_to_superblock_def S_block_2superblock_def bnd_def insert_absorb
  show ?thesis by (intro exI, rule conjI, use p k h c in \<open>simp add: x\<close>, (rule refl)?,
      use p k h c in \<open>simp add: insert_absorb released_got fun_upd_idem\<close>)
qed

end
