(* ===== verification/Alloc_Put.thy ===== *)
theory Alloc_Put
  imports Alloc_Release
begin

section \<open>Returning a block and giving a superblock back\<close>

text \<open>
  A block back on the list of its superblock (\<open>sb_push_shape\<close>), and \<open>S_superblock_unlock_and_put\<close>: the
  run that unlinks and destroys a superblock (\<open>put_views\<close>), what is left of the invariant after it
  (\<open>put_shape\<close>), and the failure of the same call when OpenMP checks its locks (\<open>put_bad_lock\<close>).
\<close>

lemma sb_push_facts:
  assumes sh: "shape h bm sm mm gh P F L G {k} {}" and k: "k \<in> dom bm" "\<And>i. k \<notin> set (L i)" "bsb bm k = p"
  shows "unat (sbc sm p) = 63 - length (L (Sb p))" "length (L (Sb p)) \<le> 62" "p \<in> dom sm" "p \<noteq> NULL" "Sb p \<in> valid_ids sm P"
      "L (Sb p) = [] \<longleftrightarrow> shd sm p = NULL" "shd sm p \<noteq> NULL \<Longrightarrow> shd sm p \<in> dom bm \<and> shd sm p \<noteq> k"
      "shd sm p = NULL \<Longrightarrow> gh \<noteq> NULL \<Longrightarrow> gh \<in> dom sm \<and> gh \<noteq> p"
proof -
  note D = shapeD [OF sh]
  show p: "p \<in> dom sm" using memD(1) [OF D(1) k(1)] k(3) by blast
  then show "p \<noteq> NULL" using memD(4) [OF D(1)] by blast
  show pv: "Sb p \<in> valid_ids sm P" using p by (simp add: valid_ids_def)
  have d: "dl (bnx bm) (bpv bm) (shd sm p) (L (Sb p))" using lists_okD(1) [OF D(3) pv] by simp
  show L0: "L (Sb p) = [] \<longleftrightarrow> shd sm p = NULL" using dl_facts [OF d] by auto
  show "shd sm p \<noteq> NULL \<Longrightarrow> shd sm p \<in> dom bm \<and> shd sm p \<noteq> k" using dl_facts [OF d] placedD(1) [OF D(4)] k(2) by metis
  have g: "dl (snx sm) (spv sm) gh G" "set G \<subseteq> dom sm"
    "\<And>q. q \<in> dom sm \<Longrightarrow> (q \<in> set G \<longleftrightarrow> L (Sb q) \<noteq> []) \<and> unat (sbc sm q) + length (L (Sb q)) = 63 \<and> length (L (Sb q)) \<noteq> 63"
    using D(5) by (simp_all add: global_ok_def)
  show "unat (sbc sm p) = 63 - length (L (Sb p))" "length (L (Sb p)) \<le> 62" using g(3) [OF p] by auto
  show "shd sm p = NULL \<Longrightarrow> gh \<noteq> NULL \<Longrightarrow> gh \<in> dom sm \<and> gh \<noteq> p" using g L0 p dl_facts [OF g(1)] by auto
qed

lemma sb_push_shape:
  assumes sh: "shape h bm sm mm gh P F L G {k} {}" and k: "k \<in> dom bm" "\<And>i. k \<notin> set (L i)" "length (F k) = 56" "bsb bm k = p"
    and v: "dom bm' = dom bm" "dom sm' = dom sm" "bvc bm' = bvc bm" "bhd bm' = bhd bm" "bsb bm' = bsb bm" "bmp bm' = bmp bm"
      "bnx bm' = (bnx bm)(k := shd sm p)" "bpv bm' = (if shd sm p = NULL then bpv bm else (bpv bm)(shd sm p := k))"
      "sbc sm' = (sbc sm)(p := sbc sm p - 1)" "shd sm' = (shd sm)(p := k)"
      "snx sm' = (if shd sm p = NULL then (snx sm)(p := gh) else snx sm)"
      "spv sm' = (if shd sm p = NULL \<and> gh \<noteq> NULL then (spv sm)(gh := p) else spv sm)" "gh' = (if shd sm p = NULL then p else gh)"
  shows "shape h bm' sm' mm gh' P F (L(Sb p := k # L (Sb p))) (if L (Sb p) = [] then p # G else G) {}
     (if length (L (Sb p)) = 62 then {p} else {})"
proof -
  note D = shapeD [OF sh]
  note c = sb_push_facts [OF sh k(1,2,4)]
  note p = c(3) and pv = c(5) and L0 = c(6)
  have k0: "k \<noteq> NULL" using memD(1) [OF D(1) k(1)] by blast
  have g: "dl (snx sm) (spv sm) gh G" "set G \<subseteq> dom sm"
    "\<And>q. q \<in> dom sm \<Longrightarrow> (q \<in> set G \<longleftrightarrow> L (Sb q) \<noteq> []) \<and> unat (sbc sm q) + length (L (Sb q)) = 63 \<and> length (L (Sb q)) \<noteq> 63"
    using D(5) by (simp_all add: global_ok_def)
  let ?L = "L(Sb p := k # L (Sb p))" and ?G = "if L (Sb p) = [] then p # G else G"
  have "mem_ok h bm' sm'" using D(1) by (rule mem_ok_cong) (simp_all add: v)
  moreover have "block_ok h bm' F b = block_ok h bm F b" for b by (simp add: block_ok_def v)
  moreover have "lists_ok (bnx bm') (bpv bm') (heads (shd sm') (phd mm)) (valid_ids sm P) ?L"
    using lists_push [OF D(3) pv k0 k(2)] unfolding v(7,8,10) heads_simps .
  moreover have "lists_placed bm' F ?L {}"
  proof (rule placedI)
    show "b \<in> dom bm'" if "b \<in> set (?L i)" for i b using that placedD(1) [OF D(4)] k(1) v(1) by (auto split: if_splits)
    show "b \<in> set (?L i) \<longleftrightarrow> loc F bm' b = Some i" if b: "b \<in> dom bm'" for b i
    proof (cases "b = k")
      case True
      then show ?thesis using k by (auto simp: loc_def v)
    next
      case False
      have "loc F bm' b = loc F bm b" by (intro loc_cong) (simp_all add: v)
      then show ?thesis using placedD(2) [OF D(4), of b] b False v(1) by simp
    qed
  qed
  moreover have "global_ok sm' gh' ?L ?G (if length (L (Sb p)) = 62 then {p} else {})"
  proof -
    have "dl (snx sm') (spv sm') gh' ?G"
    proof (cases "L (Sb p) = []")
      case True
      then have "p \<notin> set G" using g(3) [OF p] by simp
      then show ?thesis using dl_push [OF g(1) _ c(4)] True L0 by (cases "gh = NULL") (simp_all add: v(11-13))
    next
      case False
      then show ?thesis using g(1) L0 by (simp add: v(11-13))
    qed
    moreover have "set ?G \<subseteq> dom sm'" using g(2) p v(2) by auto
    moreover have "(q \<in> set ?G \<longleftrightarrow> ?L (Sb q) \<noteq> []) \<and> unat (sbc sm' q) + length (?L (Sb q)) = 63 \<and>
        (length (?L (Sb q)) = 63 \<longleftrightarrow> q \<in> (if length (L (Sb p)) = 62 then {p} else {}))" if "q \<in> dom sm'" for q
    proof (cases "q = p")
      case True
      have "unat (sbc sm p - 1) + Suc (length (L (Sb p))) = 63" using c(1,2) by (simp add: unat_pred)
      then show ?thesis using True g(3) [OF p] by (auto simp: v(9))
    next
      case False
      then show ?thesis using g(3) [of q] that v(2) by (auto simp: v(9))
    qed
    ultimately show ?thesis by (simp add: global_ok_def)
  qed
  moreover have "owned bm' mm P F {}" using D(6,7) k by (auto simp: owned_def v)
  ultimately show "shape h bm' sm' mm gh' P F ?L ?G {} (if length (L (Sb p)) = 62 then {p} else {})"
    using D(2) by (simp add: shape_def v(1,2) valid_ids_def)
qed

subsection \<open>Giving a superblock back to the system\<close>

lemma destroy_loop:
  assumes o: "\<not> openmp s" and p: "placed p" "{b. block_at p b} \<subseteq> dom bm" "p \<in> dom sm" and n: "n \<le> 63"
  shows "\<exists>bm' sm'. for_each [0..<n] (destroy_block p) (nth_block p 0) (aw s h bm sm mm g) =
       Inr (if n < 63 then nth_block p n else NULL, aw s h bm' sm' mm g) \<and> dom bm' = dom bm \<and> dom sm' = dom sm \<and>
     (\<forall>b. \<not> block_at p b \<longrightarrow> bm' b = bm b) \<and> (\<forall>q. q \<noteq> p \<longrightarrow> sm' q = sm q)"
  using n
proof (induction n)
  case 0
  then show ?case by (auto intro!: exI [of _ bm] exI [of _ sm])
next
  case (Suc n)
  then have n: "n < 63" by simp
  with Suc obtain b1 s1 where r1: "for_each [0..<n] (destroy_block p) (nth_block p 0) (aw s h bm sm mm g) =
       Inr (nth_block p n, aw s h b1 s1 mm g)" and d1: "dom b1 = dom bm" "dom s1 = dom sm"
     and o1: "\<forall>b. \<not> block_at p b \<longrightarrow> b1 b = bm b" "\<forall>q. q \<noteq> p \<longrightarrow> s1 q = sm q" by auto
  let ?k = "nth_block p n"
  have k: "?k \<in> dom b1" "?k \<noteq> NULL" "p \<in> dom s1" "p \<noteq> NULL" "block_at p ?k"
    using p nth_block_at [OF n] d1 unat_nth_block [OF p(1) n] by (auto simp: placed_def)
  have "\<exists>b2 s2. destroy_block p n ?k (aw s h b1 s1 mm g) = Inr (if Suc n < 63 then nth_block p (Suc n) else NULL, aw s h b2 s2 mm g) \<and>
     dom b2 = dom b1 \<and> dom s2 = dom s1 \<and> (\<forall>b. b \<noteq> ?k \<longrightarrow> b2 b = b1 b) \<and> (\<forall>q. q \<noteq> p \<longrightarrow> s2 q = s1 q)"
  proof (cases "Suc n < 63")
    case True
    show ?thesis by (intro exI, rule conjI, use k o True in \<open>simp add: destroy_block_def bnd_def full_counts lock_free_def nth_block_Suc\<close>,
        (rule refl)?, use k in \<open>simp add: insert_absorb mupd_other\<close>)
  next
    case False
    have e: "n = 62" using n False by simp
    note k62 = k [unfolded e]
    show ?thesis unfolding e by (intro exI, rule conjI, use k62 o in \<open>simp add: destroy_block_def bnd_def full_counts lock_free_def\<close>,
        (rule refl)?, use k62 in \<open>simp add: insert_absorb mupd_other\<close>)
  qed
  then obtain b2 s2 where r2: "destroy_block p n ?k (aw s h b1 s1 mm g) = Inr (if Suc n < 63 then nth_block p (Suc n) else NULL, aw s h b2 s2 mm g)"
    and d2: "dom b2 = dom b1" "dom s2 = dom s1" and o2: "\<forall>b. b \<noteq> ?k \<longrightarrow> b2 b = b1 b" "\<forall>q. q \<noteq> p \<longrightarrow> s2 q = s1 q" by blast
  have "\<forall>b. \<not> block_at p b \<longrightarrow> b2 b = bm b" using o1(1) o2(1) k(5) by metis
  moreover have "\<forall>q. q \<noteq> p \<longrightarrow> s2 q = sm q" using o1(2) o2(2) by simp
  moreover have "for_each [0..<Suc n] (destroy_block p) (nth_block p 0) (aw s h bm sm mm g) =
       Inr (if Suc n < 63 then nth_block p (Suc n) else NULL, aw s h b2 s2 mm g)" using for_each_snoc [OF r1, of n] r2 by simp
  ultimately show ?case using d1 d2 by blast
qed

lemma list_destroy_run:
  assumes o: "\<not> openmp s" and p: "placed p" "{b. block_at p b} \<subseteq> dom bm" "p \<in> dom sm"
  shows "\<exists>bm' sm'. S_superblock_list_destroy p (aw s h bm sm mm g) = Inr ((), aw s h bm' sm' mm g) \<and> dom bm' = dom bm \<and> dom sm' = dom sm \<and>
     (\<forall>b. \<not> block_at p b \<longrightarrow> bm' b = bm b) \<and> (\<forall>q. q \<noteq> p \<longrightarrow> sm' q = sm q)"
proof -
  have p0: "p \<noteq> NULL" using p(1) by (simp add: placed_def)
  let ?sm = "mupd p (\<lambda>b. b\<lparr>sb_head := nth_block p 0\<rparr>) sm"
  have pd: "p \<in> dom ?sm" by simp
  obtain bm' sm' where r: "for_each [0..<63] (destroy_block p) (nth_block p 0) (aw s h bm ?sm mm g) = Inr (NULL, aw s h bm' sm' mm g)"
    "dom bm' = dom bm" "dom sm' = dom ?sm" "\<forall>b. \<not> block_at p b \<longrightarrow> bm' b = bm b" "\<forall>q. q \<noteq> p \<longrightarrow> sm' q = ?sm q"
    using destroy_loop [OF o p(1,2) pd, of 63 h mm g] by auto
  have "S_superblock_list_destroy p (aw s h bm sm mm g) = Inr ((), aw s h bm' sm' mm g)"
    using p(3) p0 r(1) by (simp add: S_superblock_list_destroy_def bnd_def full_counts nth_first)
  moreover have "\<forall>q. q \<noteq> p \<longrightarrow> sm' q = sm q" "dom sm' = dom sm" using r(3,5) p(3) by (auto simp: mupd_other)
  ultimately show ?thesis using r(2,4) by blast
qed


lemma SYS_FREE_w: "CALL_SYS_FREE p (aw s h bm sm mm g) =
    Inr ((), aw s (\<lambda>a. if vma_at p a then None else h a) (\<lambda>b. if block_at p b then None else bm b) (sm(p := None)) mm g)"
  unfolding CALL_SYS_FREE_def modify_def aw_sel by (simp add: aw_def)

lemma put_views:
  fixes s :: "'y ast_scheme"
  assumes o: "\<not> openmp s" and p: "placed p" "{b. block_at p b} \<subseteq> dom bm" "p \<in> dom sm"
    and h: "gp_head g \<noteq> p \<longrightarrow> spv sm p \<in> dom sm \<and> spv sm p \<noteq> p \<and> spv sm p \<noteq> NULL"
    and n: "snx sm p \<noteq> NULL \<longrightarrow> snx sm p \<in> dom sm \<and> snx sm p \<noteq> p"
  shows "\<exists>sm' g'. S_superblock_unlock_and_put p (aw s hp bm sm mm g) =
       Inr ((), aw s (\<lambda>a. if vma_at p a then None else hp a) (\<lambda>b. if block_at p b then None else bm b) (sm'(p := None)) mm g') \<and>
     dom sm' = dom sm \<and> sbc sm' = sbc sm \<and> shd sm' = shd sm \<and>
     snx sm' = (if gp_head g = p then snx sm else (snx sm)(spv sm p := snx sm p)) \<and>
     spv sm' = (if snx sm p = NULL then spv sm else (spv sm)(snx sm p := spv sm p)) \<and> sll sm' = sll sm \<and>
     gp_head g' = (if gp_head g = p then snx sm p else gp_head g) \<and> gp_lock g' = gp_lock g"
proof -
  have p0: "p \<noteq> NULL" using p(1) by (simp add: placed_def)
  note lks = lock_let_def lock_free_def lock_idle_def got_def
  define g1 where "g1 = g\<lparr>gp_head := if gp_head g = p then snx sm p else gp_head g\<rparr>"
  have g1v: "gp_head g1 = (if gp_head g = p then snx sm p else gp_head g)" "gp_lock g1 = gp_lock g" by (simp_all add: g1_def)
  have un: "\<exists>sm'. (\<forall>rest :: ('y ast_scheme, unit) prog. bnd (get_gp gp_head) (\<lambda>h.
       bnd (if h = p then bnd (get_sb sb_next p) (\<lambda>n. upd_gp (\<lambda>g. g\<lparr>gp_head := n\<rparr>))
            else bnd (get_sb sb_prev p) (\<lambda>q. bnd (get_sb sb_next p) (\<lambda>n. upd_sb q (\<lambda>b. b\<lparr>sb_next := n\<rparr>)))) (\<lambda>_.
       bnd (get_sb sb_next p) (\<lambda>n.
       bnd (whenp (n \<noteq> NULL) (bnd (get_sb sb_prev p) (\<lambda>q. upd_sb n (\<lambda>b. b\<lparr>sb_prev := q\<rparr>)))) (\<lambda>_. rest)))) (aw s hp bm sm mm g) =
       rest (aw s hp bm sm' mm g1)) \<and>
     dom sm' = dom sm \<and> sbc sm' = sbc sm \<and> shd sm' = shd sm \<and> sll sm' = sll sm \<and>
     snx sm' = (if gp_head g = p then snx sm else (snx sm)(spv sm p := snx sm p)) \<and>
     spv sm' = (if snx sm p = NULL then spv sm else (spv sm)(snx sm p := spv sm p))"
  proof -
    consider (1) "gp_head g = p" "snx sm p = NULL" | (2) "gp_head g = p" "snx sm p \<noteq> NULL" "snx sm p \<in> dom sm" "snx sm p \<noteq> p"
      | (3) "gp_head g \<noteq> p" "snx sm p = NULL" "spv sm p \<in> dom sm" "spv sm p \<noteq> p" "spv sm p \<noteq> NULL"
      | (4) "gp_head g \<noteq> p" "snx sm p \<noteq> NULL" "snx sm p \<in> dom sm" "snx sm p \<noteq> p" "spv sm p \<in> dom sm" "spv sm p \<noteq> p" "spv sm p \<noteq> NULL"
      using h n by blast
    then show ?thesis
    proof cases
      case 1
      show ?thesis by (intro exI, rule conjI, rule allI, use p(3) p0 1 in \<open>simp add: bnd_def g1_def\<close>, (rule refl)?, use p p0 1 in \<open>simp add: insert_absorb\<close>)
    next
      case 2
      show ?thesis by (intro exI, rule conjI, rule allI, use p(3) p0 2 in \<open>simp add: bnd_def g1_def\<close>, (rule refl)?, use p p0 2 in \<open>simp add: insert_absorb\<close>)
    next
      case 3
      show ?thesis by (intro exI, rule conjI, rule allI, use p(3) p0 3 in \<open>simp add: bnd_def g1_def\<close>, (rule refl)?, use p p0 3 in \<open>simp add: insert_absorb\<close>)
    next
      case 4
      show ?thesis by (intro exI, rule conjI, rule allI, use p(3) p0 4 in \<open>simp add: bnd_def g1_def\<close>, (rule refl)?, use p p0 4 in \<open>simp add: insert_absorb\<close>)
    qed
  qed
  then obtain sm1 where un: "\<And>rest :: ('y ast_scheme, unit) prog. bnd (get_gp gp_head) (\<lambda>h.
       bnd (if h = p then bnd (get_sb sb_next p) (\<lambda>n. upd_gp (\<lambda>g. g\<lparr>gp_head := n\<rparr>))
            else bnd (get_sb sb_prev p) (\<lambda>q. bnd (get_sb sb_next p) (\<lambda>n. upd_sb q (\<lambda>b. b\<lparr>sb_next := n\<rparr>)))) (\<lambda>_.
       bnd (get_sb sb_next p) (\<lambda>n.
       bnd (whenp (n \<noteq> NULL) (bnd (get_sb sb_prev p) (\<lambda>q. upd_sb n (\<lambda>b. b\<lparr>sb_prev := q\<rparr>)))) (\<lambda>_. rest)))) (aw s hp bm sm mm g) =
       rest (aw s hp bm sm1 mm g1)"
    and v: "dom sm1 = dom sm" "sbc sm1 = sbc sm" "shd sm1 = shd sm" "sll sm1 = sll sm"
     "snx sm1 = (if gp_head g = p then snx sm else (snx sm)(spv sm p := snx sm p))"
     "spv sm1 = (if snx sm p = NULL then spv sm else (spv sm)(snx sm p := spv sm p))" by blast
  let ?l = "mupd p (\<lambda>b. b\<lparr>sb_lock := sll sm1 p\<rparr>)"
  have pd: "p \<in> dom (?l (?l sm1))" "p \<in> dom (?l sm1)" "p \<in> dom sm1" using v(1) p(3) by auto
  obtain bm3 sm3 where r: "S_superblock_list_destroy p (aw s hp bm (?l (?l sm1)) mm g1) = Inr ((), aw s hp bm3 sm3 mm g1)"
    and d: "dom sm3 = dom (?l (?l sm1))" "\<forall>b. \<not> block_at p b \<longrightarrow> bm3 b = bm b" "\<forall>q. q \<noteq> p \<longrightarrow> sm3 q = ?l (?l sm1) q"
    using list_destroy_run [OF o p(1,2) pd(1)] by blast
  have e: "sm3(p := None) = sm1(p := None)" "(\<lambda>b. if block_at p b then None else bm3 b) = (\<lambda>b. if block_at p b then None else bm b)"
    using d by (auto simp: mupd_other fun_eq_iff)
  have d3: "p \<in> dom sm3" using d(1) by simp
  have "\<exists>g'. S_superblock_unlock_and_put p (aw s hp bm sm mm g) =
       Inr ((), aw s (\<lambda>a. if vma_at p a then None else hp a) (\<lambda>b. if block_at p b then None else bm b) (sm1(p := None)) mm g') \<and>
     gp_head g' = (if gp_head g = p then snx sm p else gp_head g) \<and> gp_lock g' = gp_lock g"
    unfolding S_superblock_unlock_and_put_def
    apply (subst bnd_Inr [where t = "aw s hp bm sm mm g"])
     apply (use o in \<open>simp add: lks\<close>)
    apply (subst un)
    using o pd p0 d3 e apply (intro exI conjI)
      apply (simp add: bnd_def lks r SYS_FREE_w)

     apply (simp_all add: g1v)
    done
  then show ?thesis using v by blast
qed

text \<open>
  Under OpenMP the lock of the superblock, which the caller has released, cannot be released again.
\<close>

lemma put_bad_lock:
  assumes o: "openmp s" and p: "p \<in> dom sm" "p \<noteq> NULL" "lock_idle (openmp s) (sll sm p)" and gi: "lock_idle (openmp s) (gp_lock g)"
    and h: "gp_head g \<noteq> p \<Longrightarrow> spv sm p \<in> dom sm \<and> spv sm p \<noteq> p \<and> spv sm p \<noteq> NULL"
    and n: "snx sm p \<noteq> NULL \<Longrightarrow> snx sm p \<in> dom sm \<and> snx sm p \<noteq> p"
  shows "S_superblock_unlock_and_put p (aw s hp bm sm mm g) = Inl BadLock"
proof -
  have l: "sll sm p = Unlocked" "gp_lock g = Unlocked" using p(3) gi o by (simp_all add: lock_idle_def)
  note x = S_superblock_unlock_and_put_def bnd_def lock_let_def lock_idle_def
  consider (1) "gp_head g = p" "snx sm p = NULL" | (2) "gp_head g = p" "snx sm p \<noteq> NULL" "snx sm p \<in> dom sm" "snx sm p \<noteq> p"
    | (3) "gp_head g \<noteq> p" "snx sm p = NULL" "spv sm p \<in> dom sm" "spv sm p \<noteq> p" "spv sm p \<noteq> NULL"
    | (4) "gp_head g \<noteq> p" "snx sm p \<noteq> NULL" "snx sm p \<in> dom sm" "snx sm p \<noteq> p" "spv sm p \<in> dom sm" "spv sm p \<noteq> p" "spv sm p \<noteq> NULL"
    using h n by blast
  then show ?thesis
    by cases (use o p(1,2) l in \<open>simp_all add: x got_def\<close>)
qed

subsection \<open>The invariant without the superblock\<close>

lemma full_block:
  assumes b: "block_ok h bm F b" and l: "length (F b) = 56"
  shows "areas b \<subseteq> set (F b)"
proof -
  have d: "distinct (F b)" "set (F b) \<subseteq> areas b" using b by (simp_all add: block_ok_def)
  have "card (set (F b)) = card (areas b)" using distinct_card [OF d(1)] l card_areas by simp
  then show ?thesis using card_subset_eq [OF card_areas(1) d(2)] by simp
qed

lemma full_superblock:
  assumes sh: "shape h bm sm mm gh P F L G X E" and p: "p \<in> dom sm" "length (L (Sb p)) = 63" and X: "X = {}"
  shows "set (L (Sb p)) = {b. block_at p b}" and "\<And>b. block_at p b \<Longrightarrow> length (F b) = 56"
proof -
  note D = shapeD [OF sh]
  have "Sb p \<in> valid_ids sm P" using p by (simp add: valid_ids_def)
  then have d: "distinct (L (Sb p))" using dl_facts [OF lists_okD(1) [OF D(3)]] by blast
  have m: "block_at p b \<and> length (F b) = 56" if "b \<in> set (L (Sb p))" for b
  proof -
    have b: "b \<in> dom bm" using placedD(1) [OF D(4) that] .
    have "loc F bm b = Some (Sb p)" using placedD(2) [OF D(4), of b] b that X by blast
    then show ?thesis using memD(1) [OF D(1) b] by (auto simp: loc_def split: if_splits)
  qed
  have "card (set (L (Sb p))) = card {b. block_at p b}" using distinct_card [OF d] p(2) card_blocks by simp
  then show e: "set (L (Sb p)) = {b. block_at p b}" using m card_subset_eq [OF card_blocks(1)] by blast
  show "length (F b) = 56" if "block_at p b" for b using m e that by blast
qed

lemma put_facts:
  assumes sh: "shape h bm sm mm gh P F L G {} {p}" and p: "p \<in> dom sm"
  shows "length (L (Sb p)) = 63" and "p \<in> set G" and "placed p" and "{b. block_at p b} \<subseteq> dom bm"
    and "gh \<noteq> p \<Longrightarrow> spv sm p \<in> dom sm \<and> spv sm p \<noteq> p \<and> spv sm p \<noteq> NULL" and "snx sm p \<noteq> NULL \<Longrightarrow> snx sm p \<in> dom sm \<and> snx sm p \<noteq> p"
proof -
  note D = shapeD [OF sh]
  have g: "dl (snx sm) (spv sm) gh G" "set G \<subseteq> dom sm"
    "\<And>q. q \<in> dom sm \<Longrightarrow> (q \<in> set G \<longleftrightarrow> L (Sb q) \<noteq> []) \<and> (length (L (Sb q)) = 63 \<longleftrightarrow> q = p)"
    using D(5) by (simp_all add: global_ok_def)
  show len: "length (L (Sb p)) = 63" using g(3) [OF p] by simp
  then show pG: "p \<in> set G" using g(3) [OF p] by auto
  note r = dl_remove [OF g(1) pG]
  show "placed p" "{b. block_at p b} \<subseteq> dom bm" using memD(4,5) [OF D(1)] p by blast+
  show "gh \<noteq> p \<Longrightarrow> spv sm p \<in> dom sm \<and> spv sm p \<noteq> p \<and> spv sm p \<noteq> NULL" using r(2) g(2) memD(4) [OF D(1)] by blast
  show "snx sm p \<noteq> NULL \<Longrightarrow> snx sm p \<in> dom sm \<and> snx sm p \<noteq> p" using r(3) g(2) by blast
qed

lemma put_shape:
  assumes sh: "shape h bm sm mm gh P F L G {} {p}" and p: "p \<in> dom sm"
    and v: "dom sm' = dom sm" "sbc sm' = sbc sm" "shd sm' = shd sm"
      "snx sm' = (if gh = p then snx sm else (snx sm)(spv sm p := snx sm p))"
      "spv sm' = (if snx sm p = NULL then spv sm else (spv sm)(snx sm p := spv sm p))"
      "gh' = (if gh = p then snx sm p else gh)"
    and h': "h' = (\<lambda>a. if vma_at p a then None else h a)" and bm': "bm' = (\<lambda>b. if block_at p b then None else bm b)"
  shows "shape h' bm' (sm'(p := None)) mm gh' P F (L(Sb p := [])) (filter (\<lambda>q. q \<noteq> p) G) {} {}"
    and "used h' F = used h F"
proof -
  note D = shapeD [OF sh]
  have g: "dl (snx sm) (spv sm) gh G" "set G \<subseteq> dom sm"
    "\<And>q. q \<in> dom sm \<Longrightarrow> (q \<in> set G \<longleftrightarrow> L (Sb q) \<noteq> []) \<and> unat (sbc sm q) + length (L (Sb q)) = 63 \<and> (length (L (Sb q)) = 63 \<longleftrightarrow> q = p)"
    using D(5) by (simp_all add: global_ok_def)
  note len = put_facts(1) [OF sh p]
  note r = dl_remove [OF g(1) put_facts(2) [OF sh p]]
  note fs = full_superblock [OF sh p len refl]
  have bu: "\<not> block_at p b" if t: "block_at q b" "q \<in> dom sm" "q \<noteq> p" for q b
    using memD(5) [OF D(1) t(1,2)] memD(5) [OF D(1) _ p] t(3) by blast
  have va: "\<not> vma_at p a" if t: "vma_at q a" "q \<in> dom sm" "q \<noteq> p" for q a
  proof
    assume "vma_at p a"
    then obtain b where b: "block_at p b" "a \<in> areas b" unfolding vma_at_areas by blast
    obtain c where c: "block_at q c" "a \<in> areas c" using t(1) unfolding vma_at_areas by blast
    have "b \<in> dom bm" "c \<in> dom bm" using memD(5) [OF D(1)] b c p t by blast+
    then have "b = c" using memD(2) [OF D(1)] b(2) c(2) by blast
    then show False using bu [OF c(1) t(2,3)] b(1) by blast
  qed
  have ds: "dom (sm'(p := None)) = dom sm - {p}" using v(1) by simp
  have db: "dom bm' = {b. b \<in> dom bm \<and> \<not> block_at p b}" "dom h' = {a. a \<in> dom h \<and> \<not> vma_at p a}"
    by (simp_all add: bm' h' dom_def) (auto split: if_splits)
  have vb: "bnx bm' b = bnx bm b" "bpv bm' b = bpv bm b" "bsb bm' b = bsb bm b" "bmp bm' b = bmp bm b" "bhd bm' b = bhd bm b" "bvc bm' b = bvc bm b"
    if "\<not> block_at p b" for b using that by (simp_all add: blk_views bm')
  have vs: "snx (sm'(p := None)) q = snx sm' q" "spv (sm'(p := None)) q = spv sm' q" "sbc (sm'(p := None)) q = sbc sm' q"
    "shd (sm'(p := None)) q = shd sm' q" if "q \<noteq> p" for q using that by (simp_all add: sb_views)
  have m: "dom bm = {b. \<exists>p \<in> dom sm. block_at p b}" "dom h = {a. \<exists>p \<in> dom sm. vma_at p a}" using D(1) by (simp_all add: mem_ok_def)
  have "mem_ok h' bm' (sm'(p := None))"
  proof -
    have "dom bm' = {b. \<exists>q \<in> dom sm - {p}. block_at q b}" unfolding db m using bu by blast
    moreover have "dom h' = {a. \<exists>q \<in> dom sm - {p}. vma_at q a}" unfolding db m using va by blast
    moreover have "bsb bm' b = q" if "q \<in> dom sm - {p}" "block_at q b" for q b
      using vb(3) [OF bu] memD(5) [OF D(1)] that by auto
    ultimately show ?thesis using D(1) unfolding mem_ok_def ds by blast
  qed
  moreover have "block_ok h' bm' F b" if "b \<in> dom bm'" for b
  proof -
    have b: "b \<in> dom bm" "\<not> block_at p b" using that db by auto
    have "fnx h' a = fnx h a" if "a \<in> areas b" for a
    proof -
      have "vma_at (bsb bm b) a" "bsb bm b \<in> dom sm" "bsb bm b \<noteq> p" using memD(1) [OF D(1) b(1)] b(2) that by (auto simp: vma_at_areas)
      then have "\<not> vma_at p a" by (rule va)
      then show ?thesis by (simp add: h' fnx_def)
    qed
    then show ?thesis by (rule block_ok_cong [OF D(2) [OF b(1)]]) (simp_all add: vb b)
  qed
  moreover have "lists_ok (bnx bm') (bpv bm') (heads (shd (sm'(p := None))) (phd mm)) (valid_ids (sm'(p := None)) P) (L(Sb p := []))"
  proof (rule lists_okI)
    fix i assume i: "i \<in> valid_ids (sm'(p := None)) P"
    then have ip: "i \<noteq> Sb p" "i \<in> valid_ids sm P" using ds by (auto simp: valid_ids_def)
    have "\<not> block_at p b" if "b \<in> set (L i)" for b using lists_okD(3) [OF D(3) that, of "Sb p"] fs(1) ip(1) by blast
    then have "dl (bnx bm') (bpv bm') (heads (shd sm) (phd mm) i) (L i)"
      using lists_okD(1) [OF D(3) ip(2)] by (subst dl_cong) (auto simp: vb)
    moreover have "heads (shd (sm'(p := None))) (phd mm) i = heads (shd sm) (phd mm) i" using ip(1) by (cases i) (simp_all add: vs v)
    ultimately show "dl (bnx bm') (bpv bm') (heads (shd (sm'(p := None))) (phd mm) i) ((L(Sb p := [])) i)" using ip(1) by simp
  next
    fix i assume "i \<notin> valid_ids (sm'(p := None)) P"
    then show "(L(Sb p := [])) i = []" using lists_okD(2) [OF D(3), of i] ds by (auto simp: valid_ids_def)
  next
    fix i j a assume "a \<in> set ((L(Sb p := [])) i)" "a \<in> set ((L(Sb p := [])) j)"
    then show "i = j" using lists_okD(3) [OF D(3)] by (auto split: if_splits)
  qed
  moreover have "lists_placed bm' F (L(Sb p := [])) {}"
  proof (rule placedI)
    fix i b assume b: "b \<in> set ((L(Sb p := [])) i)"
    then have i: "i \<noteq> Sb p" "b \<in> set (L i)" by (auto split: if_splits)
    have "\<not> block_at p b" using lists_okD(3) [OF D(3) i(2), of "Sb p"] fs(1) i(1) by blast
    then show "b \<in> dom bm'" using placedD(1) [OF D(4) i(2)] db by blast
  next
    fix b i assume b: "b \<in> dom bm'"
    then have b': "b \<in> dom bm" "\<not> block_at p b" using db by auto
    have l: "loc F bm' b = loc F bm b" by (rule loc_cong) (simp_all add: vb b')
    show "b \<in> set ((L(Sb p := [])) i) \<longleftrightarrow> loc F bm' b = Some i"
    proof (cases "i = Sb p")
      case True
      have "b \<notin> set (L (Sb p))" using fs(1) b'(2) by simp
      then show ?thesis using True l placedD(2) [OF D(4) b'(1), of "Sb p"] by simp
    next
      case False
      then show ?thesis using l placedD(2) [OF D(4) b'(1), of i] by simp
    qed
  qed
  moreover have "global_ok (sm'(p := None)) gh' (L(Sb p := [])) (filter (\<lambda>q. q \<noteq> p) G) {}"
  proof -
    have "dl (snx (sm'(p := None))) (spv (sm'(p := None))) gh' (filter (\<lambda>q. q \<noteq> p) G)"
      using r(1) by (subst dl_cong) (auto simp: vs v)
    moreover have "(q \<in> set (filter (\<lambda>q. q \<noteq> p) G) \<longleftrightarrow> (L(Sb p := [])) (Sb q) \<noteq> []) \<and>
        unat (sbc (sm'(p := None)) q) + length ((L(Sb p := [])) (Sb q)) = 63 \<and> (length ((L(Sb p := [])) (Sb q)) = 63 \<longleftrightarrow> q \<in> {})"
      if "q \<in> dom (sm'(p := None))" for q
      using g(3) [of q] that ds by (auto simp: vs v)
    ultimately show ?thesis using g(2) ds by (auto simp: global_ok_def)
  qed
  moreover have "owned bm' mm P F {}" using D(6,7) db by (auto simp: owned_def vb)
  ultimately show "shape h' bm' (sm'(p := None)) mm gh' P F (L(Sb p := [])) (filter (\<lambda>q. q \<noteq> p) G) {} {}" by (simp add: shape_def)
  have "a \<notin> used h F" if t: "vma_at p a" for a
  proof -
    obtain b where b: "block_at p b" "a \<in> areas b" using t unfolding vma_at_areas by blast
    have bd: "b \<in> dom bm" using memD(5) [OF D(1) b(1) p] by blast
    then have "a \<in> set (F b)" using full_block [OF D(2) [OF bd] fs(2) [OF b(1)]] b(2) by blast
    then show ?thesis using memD(2) [OF D(1) bd b(2)] by (simp add: used_def)
  qed
  then show "used h' F = used h F" using db(2) by (auto simp: used_def)
qed

end
