(* ===== verification/Alloc_Free.thy ===== *)
theory Alloc_Free
  imports Alloc_Put
begin

section \<open>vma\_free\<close>

text \<open>
  The four ways a call of \<open>vma_free\<close> goes, and the call as a whole (\<open>free_run\<close>): the area is no
  longer in use, the other areas in use are untouched and the invariant holds again; except that
  under OpenMP the return of the last block in use of a superblock releases a lock that is not held.
\<close>

lemma used_put:
  assumes m: "mem_ok h bm sm" and k: "k \<in> dom bm" and v: "v \<in> areas k" and d: "dom h' = dom h"
  shows "used h' (F(k := v # F k)) = used h F - {v}"
proof -
  have "S_vma_2block v = k" using memD(2) [OF m k v] by blast
  then show ?thesis using d by (auto simp: used_def)
qed

text \<open>What a call of \<open>vma_free\<close> does to the memory: the area is no longer in use, every other area in
  use keeps its contents and its superblock.\<close>

definition freed :: "heap \<Rightarrow> (addr \<rightharpoonup> block) \<Rightarrow> (addr \<Rightarrow> addr list) \<Rightarrow> addr \<Rightarrow> heap \<Rightarrow> (addr \<rightharpoonup> block) \<Rightarrow> (addr \<Rightarrow> addr list) \<Rightarrow> bool" where
  "freed h bm F v h' bm' F' \<longleftrightarrow> used h' F' = used h F - {v} \<and> dom h' \<subseteq> dom h \<and>
     (\<forall>a \<in> used h F - {v}. h' a = h a \<and> bsb bm' (S_vma_2block a) = bsb bm (S_vma_2block a))"

lemma used_block:
  assumes m: "mem_ok h bm sm" and v: "v \<in> used h F"
  shows "S_vma_2block v \<in> dom bm" "S_vma_2block v \<noteq> NULL" "v \<in> areas (S_vma_2block v)" "v \<notin> set (F (S_vma_2block v))" "v \<in> dom h" "v \<noteq> NULL"
  using memD(1-3) [OF m] v by (auto simp: used_def)

lemma locks_views:
  assumes "locks_ok omp bm sm mm P g HB HS HM hg" and "dom bm' \<subseteq> dom bm" "\<And>b. b \<in> dom bm' \<Longrightarrow> bll bm' b = bll bm b"
    and "dom sm' \<subseteq> dom sm" "\<And>q. q \<in> dom sm' \<Longrightarrow> sll sm' q = sll sm q" and "pll mm' = pll mm" "gp_lock g' = gp_lock g"
  shows "locks_ok omp bm' sm' mm' P g' HB HS HM hg"
proof -
  have "lk omp (b \<in> HB) (bll bm' b)" if "b \<in> dom bm'" for b using assms(1,2) assms(3) [OF that] that by (auto simp: locks_ok_def)
  moreover have "lk omp (q \<in> HS) (sll sm' q)" if "q \<in> dom sm'" for q using assms(1,4) assms(5) [OF that] that by (auto simp: locks_ok_def)
  ultimately show ?thesis using assms(1,6,7) by (simp add: locks_ok_def)
qed

lemma shape_settle:
  assumes sh: "shape h bm sm mm gh P F L G {k} E" and k: "\<And>i. k \<in> set (L i) \<longleftrightarrow> loc F bm k = Some i" "length (F k) \<noteq> 56 \<Longrightarrow> bmp bm k \<in> P"
  shows "shape h bm sm mm gh P F L G {} E"
proof -
  note D = shapeD [OF sh]
  have "lists_placed bm F L {}"
  proof (rule placedI)
    show "b \<in> dom bm" if "b \<in> set (L i)" for i b using placedD(1) [OF D(4) that] .
    show "b \<in> set (L i) \<longleftrightarrow> loc F bm b = Some i" if "b \<in> dom bm" for b i
      using placedD(2) [OF D(4) that, of i] k(1) by (cases "b = k") auto
  qed
  moreover have "owned bm mm P F {}" using D(6,7) k(2) by (auto simp: owned_def)
  ultimately show ?thesis using sh by (simp add: shape_def)
qed

lemma free_plain:
  assumes sh: "shape h bm sm mm (gp_head g) P F L G {} {}" and lks: "locks_ok (openmp s) bm sm mm P g {} {} {} False"
    and v: "v \<in> used h F" and k: "k = S_vma_2block v" and c: "bvc bm k \<noteq> 1" "F k \<noteq> []"
  shows "\<exists>h' bm' F'. vma_free v (aw s h bm sm mm g) = Inr ((), aw s h' bm' sm mm g) \<and>
     shape h' bm' sm mm (gp_head g) P F' L G {} {} \<and> locks_ok (openmp s) bm' sm mm P g {} {} {} False \<and> freed h bm F v h' bm' F'"
proof -
  note D = shapeD [OF sh]
  note u = used_block [OF D(1) v, folded k]
  note b = D(2) [OF u(1)]
  have hd: "bhd bm k \<noteq> NULL" 
  proof -
    have "set (F k) \<subseteq> areas k" "bhd bm k = hd0 (F k) NULL" using b by (simp_all add: block_ok_def)
    then show ?thesis using c(2) memD(2) [OF D(1) u(1)] by (cases "F k") auto
  qed
  obtain h' bm' where r: "vma_free v (aw s h bm sm mm g) = Inr ((), aw s h' bm' sm mm g)"
    and h': "dom h' = dom h" "fnx h' = (fnx h)(v := bhd bm k)" "\<forall>a. a \<noteq> v \<longrightarrow> h' a = h a"
    and d: "dom bm' = dom bm" "bvc bm' = (bvc bm)(k := bvc bm k - 1)" "bhd bm' = (bhd bm)(k := v)" "bsb bm' = bsb bm"
      "bmp bm' = bmp bm" "bnx bm' = bnx bm" "bpv bm' = bpv bm" "bll bm' = bll bm"
    using free_views_plain [OF k [symmetric] u(1,2) locksD(1) [OF lks u(1)] u(5,6) c(1) hd refl] by blast
  have s1: "shape h' bm' sm mm (gp_head g) P (F(k := v # F k)) L G {k} {}"
    by (rule free_area_shape [OF sh u(1,3,4) h'(1,2) d(1-7)])
  have n: "0 < length (F k)" "length (F k) < 55"
  proof -
    have u1: "unat (bvc bm k) \<noteq> 1" using c(1) by (metis unat_1 word_unat_eq_iff)
    show "0 < length (F k)" "length (F k) < 55" using block_ok_put [OF b u(3,4)] b c(2) u1 by (auto simp: block_ok_def)
  qed
  have lc: "loc (F(k := v # F k)) bm' k = Some (Mp (bmp bm k))" "loc F bm k = Some (Mp (bmp bm k))"
    using n by (auto simp: loc_def d)
  have s2: "shape h' bm' sm mm (gp_head g) P (F(k := v # F k)) L G {} {}"
  proof (rule shape_settle [OF s1])
    show "k \<in> set (L i) \<longleftrightarrow> loc (F(k := v # F k)) bm' k = Some i" for i using placedD(2) [OF D(4) u(1), of i] lc by simp
    show "bmp bm' k \<in> P" using D(7) [OF u(1)] n d(5) by simp
  qed
  have "locks_ok (openmp s) bm' sm mm P g {} {} {} False" by (rule locks_views [OF lks]) (simp_all add: d)
  moreover have "freed h bm F v h' bm' (F(k := v # F k))"
    using used_put [OF D(1) u(1,3) h'(1)] h' d by (simp add: freed_def)
  ultimately show ?thesis using r s2 by blast
qed


text \<open>The block after the area is back on its list, before any list of blocks changes.\<close>

definition area_back :: "addr \<Rightarrow> addr \<Rightarrow> (addr \<rightharpoonup> block) \<Rightarrow> (addr \<rightharpoonup> block)" where
  "area_back k v bm = mupd k (\<lambda>b. b\<lparr>b_vctr := b_vctr b - 1\<rparr>) (mupd k (\<lambda>b. b\<lparr>b_head := v\<rparr>) bm)"

lemma area_back_views:
  "k \<in> dom bm \<Longrightarrow> dom (area_back k v bm) = dom bm" "bvc (area_back k v bm) = (bvc bm)(k := bvc bm k - 1)"
  "bhd (area_back k v bm) = (bhd bm)(k := v)" "bsb (area_back k v bm) = bsb bm" "bmp (area_back k v bm) = bmp bm"
  "bnx (area_back k v bm) = bnx bm" "bpv (area_back k v bm) = bpv bm" "bll (area_back k v bm) = bll bm"
  by (simp_all add: area_back_def insert_absorb)

lemma free_push:
  assumes sh: "shape h bm sm mm (gp_head g) P F L G {} {}" and lks: "locks_ok (openmp s) bm sm mm P g {} {} {} False"
    and v: "v \<in> used h F" and k: "k = S_vma_2block v" and c: "F k = []"
  shows "\<exists>h' bm' mm' F' L'. vma_free v (aw s h bm sm mm g) = Inr ((), aw s h' bm' sm mm' g) \<and> dom mm' = dom mm \<and>
     shape h' bm' sm mm' (gp_head g) P F' L' G {} {} \<and> locks_ok (openmp s) bm' sm mm' P g {} {} {} False \<and> freed h bm F v h' bm' F'"
proof -
  note D = shapeD [OF sh]
  note u = used_block [OF D(1) v, folded k]
  note b = D(2) [OF u(1)]
  define q where "q = bmp bm k"
  have q: "q \<in> P" "q \<in> dom mm" "q \<noteq> NULL" using D(7) [OF u(1)] D(6) c by (auto simp: q_def)
  have hd: "bhd bm k = NULL" "bvc bm k = 56" using b c by (auto simp: block_ok_def word_unat_eq_iff)
  have qv: "Mp q \<in> valid_ids sm P" using q by (simp add: valid_ids_def)
  have nok: "k \<notin> set (L i)" for i using placedD(2) [OF D(4) u(1), of i] c by (simp add: loc_def)
  have n: "phd mm q \<in> dom bm \<and> phd mm q \<noteq> k" if "phd mm q \<noteq> NULL"
  proof -
    have "phd mm q \<in> set (L (Mp q))" using dl_facts [OF lists_okD(1) [OF D(3) qv, unfolded heads_simps]] that by blast
    then show ?thesis using placedD(1) [OF D(4)] nok by metis
  qed
  obtain h' bm' mm' where r: "vma_free v (aw s h bm sm mm g) = Inr ((), aw s h' bm' sm mm' g)"
    and h': "dom h' = dom h" "fnx h' = (fnx h)(v := NULL)" "\<forall>a. a \<noteq> v \<longrightarrow> h' a = h a" and d: "dom bm' = dom bm" "dom mm' = dom mm"
      "bvc bm' = (bvc bm)(k := 55)" "bhd bm' = (bhd bm)(k := v)" "bsb bm' = bsb bm" "bmp bm' = bmp bm"
      "bnx bm' = (bnx bm)(k := phd mm q)" "bpv bm' = (if phd mm q = NULL then bpv bm else (bpv bm)(phd mm q := k))" "bll bm' = bll bm"
      "phd mm' = (phd mm)(q := k)" "pll mm' = pll mm"
    using free_views_push [OF k [symmetric] u(1,2) locksD(1) [OF lks u(1)] u(5,6) hd(2,1) q_def [symmetric] q(2,3) locksD(5) [OF lks q(1)] n] by blast
  note a = area_back_views [where k = k and v = v and bm = bm]
  have s1: "shape h' (area_back k v bm) sm mm (gp_head g) P (F(k := v # F k)) L G {k} {}"
    by (rule free_area_shape [OF sh u(1,3,4) h'(1)]) (simp_all add: a u(1) h'(2) hd(1))
  have s2: "shape h' bm' sm mm' (gp_head g) P (F(k := v # F k)) (L(Mp q := k # L (Mp q))) G {} {}"
    by (rule pool_push_shape [OF s1 _ nok _ q(1)]) (simp_all add: a u(1) c d hd(2) q_def [symmetric])
  have "locks_ok (openmp s) bm' sm mm' P g {} {} {} False" by (rule locks_views [OF lks]) (simp_all add: d)
  moreover have "freed h bm F v h' bm' (F(k := v # F k))"
    using used_put [OF D(1) u(1,3) h'(1)] h' d by (simp add: freed_def)
  ultimately show ?thesis using r s2 d(2) by blast
qed

lemma free_unlink:
  assumes sh: "shape h bm sm mm (gp_head g) P F L G {} {}" and lks: "locks_ok (openmp s) bm sm mm P g {} {} {} False"
    and v: "v \<in> used h F" and k: "k = S_vma_2block v" and c: "bvc bm k = 1"
  shows "\<exists>h' bm' mm' F' L'. vma_free v (aw s h bm sm mm g) = S_block_unlock_and_return k (aw s h' bm' sm mm' g) \<and> dom mm' = dom mm \<and>
     shape h' bm' sm mm' (gp_head g) P F' L' G {k} {} \<and> locks_ok (openmp s) bm' sm mm' P g {k} {} {} False \<and> freed h bm F v h' bm' F' \<and>
     k \<in> dom bm' \<and> k \<noteq> NULL \<and> length (F' k) = 56 \<and> (\<forall>i. k \<notin> set (L' i)) \<and> bsb bm' = bsb bm"
proof -
  note D = shapeD [OF sh]
  note u = used_block [OF D(1) v, folded k]
  note b = D(2) [OF u(1)]
  have n: "length (F k) = 55" using b c by (simp add: block_ok_def)
  define q where "q = bmp bm k"
  have q: "q \<in> P" "q \<in> dom mm" "q \<noteq> NULL" using D(7) [OF u(1)] D(6) n by (auto simp: q_def)
  have qv: "Mp q \<in> valid_ids sm P" using q by (simp add: valid_ids_def)
  have lc: "loc F bm k = Some (Mp q)" using n by (auto simp: loc_def q_def)
  then have kL: "k \<in> set (L (Mp q))" using placedD(2) [OF D(4) u(1), of "Mp q"] by simp
  note rm = lists_remove [OF D(3) kL, simplified]
  have nx: "bnx bm k \<in> dom bm \<and> bnx bm k \<noteq> k" if "bnx bm k \<noteq> NULL" using rm(3) that placedD(1) [OF D(4)] by blast
  have pv: "bpv bm k \<in> dom bm \<and> bpv bm k \<noteq> k \<and> bpv bm k \<noteq> NULL" if "phd mm q \<noteq> k"
    using rm(2) that placedD(1) [OF D(4)] memD(1) [OF D(1)] by blast
  obtain h' bm' mm' where r: "vma_free v (aw s h bm sm mm g) = S_block_unlock_and_return k (aw s h' bm' sm mm' g)"
    and h': "dom h' = dom h" "fnx h' = (fnx h)(v := bhd bm k)" "\<forall>a. a \<noteq> v \<longrightarrow> h' a = h a" and d: "dom bm' = dom bm" "dom mm' = dom mm"
      "bvc bm' = (bvc bm)(k := 0)" "bhd bm' = (bhd bm)(k := v)" "bsb bm' = bsb bm" "bmp bm' = bmp bm"
      "bnx bm' = (if phd mm q = k then bnx bm else (bnx bm)(bpv bm k := bnx bm k))"
      "bpv bm' = (if bnx bm k = NULL then bpv bm else (bpv bm)(bnx bm k := bpv bm k))"
      "bll bm' = (bll bm)(k := got (openmp s) (bll bm k))"
      "phd mm' = (phd mm)(q := if phd mm q = k then bnx bm k else phd mm q)" "pll mm' = pll mm"
    using free_views_unlink [OF k [symmetric] u(1,2) locksD(1) [OF lks u(1)] u(5,6) c q_def [symmetric] q(2,3) locksD(5) [OF lks q(1)] nx pv] by blast
  note a = area_back_views [where k = k and v = v and bm = bm]
  have s1: "shape h' (area_back k v bm) sm mm (gp_head g) P (F(k := v # F k)) L G {k} {}"
    by (rule free_area_shape [OF sh u(1,3,4) h'(1)]) (simp_all add: a u(1) h'(2))
  have s2: "shape h' bm' sm mm' (gp_head g) P (F(k := v # F k)) (L(Mp q := filter (\<lambda>a. a \<noteq> k) (L (Mp q)))) G {k} {}"
    and off: "\<And>i. k \<notin> set ((L(Mp q := filter (\<lambda>a. a \<noteq> k) (L (Mp q)))) i)"
    by (rule pool_remove_shape [where bm' = bm' and mm' = mm', OF s1 kL]; simp add: a u(1) d c)+
  have "locks_ok (openmp s) bm' sm mm' P g {k} {} {} False" using lks by (auto simp: locks_ok_def d lk_def)
  moreover have "freed h bm F v h' bm' (F(k := v # F k))"
    using used_put [OF D(1) u(1,3) h'(1)] h' d by (simp add: freed_def)
  moreover have "length ((F(k := v # F k)) k) = 56" using n by simp
  ultimately show ?thesis using r s2 d(1,2,5) u(1,2) off by blast
qed


subsection \<open>The block goes back to its superblock\<close>

lemma return_keep:
  assumes sh: "shape h bm sm mm (gp_head g) P F L G {k} {}" and lks: "locks_ok (openmp s) bm sm mm P g {k} {} {} False"
    and k: "k \<in> dom bm" "k \<noteq> NULL" "\<forall>i. k \<notin> set (L i)" "length (F k) = 56" and c: "sbc sm (bsb bm k) \<noteq> 1"
  shows "\<exists>bm' sm' g' L' G'. S_block_unlock_and_return k (aw s h bm sm mm g) = Inr ((), aw s h bm' sm' mm g') \<and>
     shape h bm' sm' mm (gp_head g') P F L' G' {} {} \<and> locks_ok (openmp s) bm' sm' mm P g' {} {} {} False \<and> bsb bm' = bsb bm"
proof -
  define p where "p = bsb bm k"
  have nok: "k \<notin> set (L i)" for i using k(3) by blast
  note x = sb_push_facts [OF sh k(1) nok p_def [symmetric]]
  have n62: "length (L (Sb p)) \<noteq> 62" using x(1) c by (auto simp: p_def word_unat_eq_iff)
  have c63: "sbc sm p = 63 \<and> (gp_head g \<noteq> NULL \<longrightarrow> gp_head g \<in> dom sm \<and> gp_head g \<noteq> p)" if "shd sm p = NULL"
    using that x(1,6,8) by (auto simp: word_unat_eq_iff)
  have li: "lock_idle (openmp s) (sll sm p)" "lock_held (openmp s) (bll bm k)" "lock_idle (openmp s) (gp_lock g)"
    using locksD(3) [OF lks x(3)] locksD(2) [OF lks k(1)] locksD(7) [OF lks] by auto
  obtain bm' sm' g' where r: "S_block_unlock_and_return k (aw s h bm sm mm g) = Inr ((), aw s h bm' sm' mm g')"
    and d: "dom bm' = dom bm" "dom sm' = dom sm" "bvc bm' = bvc bm" "bhd bm' = bhd bm" "bsb bm' = bsb bm" "bmp bm' = bmp bm"
      "bnx bm' = (bnx bm)(k := shd sm p)" "bpv bm' = (if shd sm p = NULL then bpv bm else (bpv bm)(shd sm p := k))"
      "bll bm' = (bll bm)(k := released (openmp s) (bll bm k))" "sbc sm' = (sbc sm)(p := sbc sm p - 1)" "shd sm' = (shd sm)(p := k)" "sll sm' = sll sm"
      "snx sm' = (if shd sm p = NULL then (snx sm)(p := gp_head g) else snx sm)"
      "spv sm' = (if shd sm p = NULL \<and> gp_head g \<noteq> NULL then (spv sm)(gp_head g := p) else spv sm)"
      "gp_head g' = (if shd sm p = NULL then p else gp_head g)" "gp_lock g' = gp_lock g"
    using return_views_keep [OF p_def [symmetric] x(3,4) li(1) k(1,2) li(2,3) x(7) c [folded p_def] c63] by blast
  have "shape h bm' sm' mm (gp_head g') P F (L(Sb p := k # L (Sb p))) (if L (Sb p) = [] then p # G else G) {} {}"
    using sb_push_shape [OF sh k(1) nok k(4) p_def [symmetric] d(1-8,10,11,13-15)] n62 by simp
  moreover have "locks_ok (openmp s) bm' sm' mm P g' {} {} {} False" using lks by (auto simp: locks_ok_def d lk_def)
  ultimately show ?thesis using r d(5) by blast
qed

text \<open>The last used block of its superblock, up to the call of \<open>S_superblock_unlock_and_put\<close>.\<close>

lemma return_last:
  assumes sh: "shape h bm sm mm (gp_head g) P F L G {k} {}" and lks: "locks_ok (openmp s) bm sm mm P g {k} {} {} False"
    and k: "k \<in> dom bm" "k \<noteq> NULL" "\<forall>i. k \<notin> set (L i)" "length (F k) = 56" and c: "sbc sm p = 1" and p: "p = bsb bm k"
  shows "\<exists>bm' sm' L'. S_block_unlock_and_return k (aw s h bm sm mm g) = S_superblock_unlock_and_put p (aw s h bm' sm' mm g) \<and>
     shape h bm' sm' mm (gp_head g) P F L' G {} {p} \<and> locks_ok (openmp s) bm' sm' mm P g {} {} {} False \<and> bsb bm' = bsb bm \<and> p \<in> dom sm'"
proof -
  have nok: "k \<notin> set (L i)" for i using k(3) by blast
  note x = sb_push_facts [OF sh k(1) nok p [symmetric]]
  have n62: "length (L (Sb p)) = 62" using x(1,2) c by simp
  then have sn: "shd sm p \<noteq> NULL" "shd sm p \<in> dom bm" "shd sm p \<noteq> k" using x(6,7) by auto
  have li: "lock_idle (openmp s) (sll sm p)" "lock_held (openmp s) (bll bm k)"
    using locksD(3) [OF lks x(3)] locksD(2) [OF lks k(1)] by auto
  obtain bm' sm' where r: "S_block_unlock_and_return k (aw s h bm sm mm g) = S_superblock_unlock_and_put p (aw s h bm' sm' mm g)"
    and d: "dom bm' = dom bm" "dom sm' = dom sm" "bvc bm' = bvc bm" "bhd bm' = bhd bm" "bsb bm' = bsb bm" "bmp bm' = bmp bm"
      "bnx bm' = (bnx bm)(k := shd sm p)" "bpv bm' = (bpv bm)(shd sm p := k)"
      "bll bm' = (bll bm)(k := released (openmp s) (bll bm k))" "sbc sm' = (sbc sm)(p := 0)" "shd sm' = (shd sm)(p := k)" "sll sm' = sll sm"
      "snx sm' = snx sm" "spv sm' = spv sm"
    using return_views_last [OF p [symmetric] x(3,4) li(1) k(1,2) li(2) sn(2,3,1) c] by blast
  have "shape h bm' sm' mm (gp_head g) P F (L(Sb p := k # L (Sb p))) (if L (Sb p) = [] then p # G else G) {} (if length (L (Sb p)) = 62 then {p} else {})"
    by (rule sb_push_shape [OF sh k(1) nok k(4) p [symmetric]]) (simp_all add: d sn c)
  then have "shape h bm' sm' mm (gp_head g) P F (L(Sb p := k # L (Sb p))) G {} {p}" using n62 by (auto split: if_splits)
  moreover have "locks_ok (openmp s) bm' sm' mm P g {} {} {} False" using lks by (auto simp: locks_ok_def d lk_def)
  ultimately show ?thesis using r d(2,5) x(3) by blast
qed


text \<open>The whole of \<open>vma_free\<close>. \<open>last_of s v\<close>: \<open>v\<close> is the only area in use of the only block in use of its superblock.\<close>

definition last_of :: "'y ast_scheme \<Rightarrow> addr \<Rightarrow> bool" where
  "last_of s v \<longleftrightarrow> bvc (blocks s) (S_vma_2block v) = 1 \<and> sbc (superblocks s) (bsb (blocks s) (S_vma_2block v)) = 1"

lemma freed_trans:
  assumes "freed h bm F v h1 b1 F1" and "used h2 F2 = used h1 F1" "dom h2 \<subseteq> dom h1"
    and "\<And>a. a \<in> used h1 F1 \<Longrightarrow> h2 a = h1 a \<and> bsb b2 (S_vma_2block a) = bsb b1 (S_vma_2block a)"
  shows "freed h bm F v h2 b2 F2"
  using assms unfolding freed_def by auto

lemma put_run:
  assumes no: "\<not> openmp s" and sh: "shape h1 b1 s1 m1 (gp_head g) P F1 L2 G {} {p}" and lks: "locks_ok (openmp s) b1 s1 m1 P g {} {} {} False"
    and p: "p \<in> dom s1"
  shows "\<exists>h2 b2 s2 g2 L' G'. S_superblock_unlock_and_put p (aw s h1 b1 s1 m1 g) = Inr ((), aw s h2 b2 s2 m1 g2) \<and>
     shape h2 b2 s2 m1 (gp_head g2) P F1 L' G' {} {} \<and> locks_ok (openmp s) b2 s2 m1 P g2 {} {} {} False \<and>
     used h2 F1 = used h1 F1 \<and> dom h2 \<subseteq> dom h1 \<and> (\<forall>a \<in> used h1 F1. h2 a = h1 a \<and> bsb b2 (S_vma_2block a) = bsb b1 (S_vma_2block a))"
proof -
  have nb: "gp_head g \<noteq> p \<longrightarrow> spv s1 p \<in> dom s1 \<and> spv s1 p \<noteq> p \<and> spv s1 p \<noteq> NULL"
    "snx s1 p \<noteq> NULL \<longrightarrow> snx s1 p \<in> dom s1 \<and> snx s1 p \<noteq> p" using put_facts(5,6) [OF sh p] by blast+
  obtain s2 g2 where r2: "S_superblock_unlock_and_put p (aw s h1 b1 s1 m1 g) =
      Inr ((), aw s (\<lambda>a. if vma_at p a then None else h1 a) (\<lambda>b. if block_at p b then None else b1 b) (s2(p := None)) m1 g2)"
    and d: "dom s2 = dom s1" "sbc s2 = sbc s1" "shd s2 = shd s1"
      "snx s2 = (if gp_head g = p then snx s1 else (snx s1)(spv s1 p := snx s1 p))"
      "spv s2 = (if snx s1 p = NULL then spv s1 else (spv s1)(snx s1 p := spv s1 p))" "sll s2 = sll s1"
      "gp_head g2 = (if gp_head g = p then snx s1 p else gp_head g)" "gp_lock g2 = gp_lock g"
    using put_views [OF no put_facts(3,4) [OF sh p] p nb, of h1 m1] by (elim exE conjE) (rule that)
  let ?h = "\<lambda>a. if vma_at p a then None else h1 a" and ?b = "\<lambda>b. if block_at p b then None else b1 b"
  note ps = put_shape [OF sh p d(1-5,7) refl refl]
  have sub: "dom ?b \<subseteq> dom b1" "dom ?h \<subseteq> dom h1" "dom (s2(p := None)) \<subseteq> dom s1" using d(1) by (auto simp: dom_def split: if_splits)
  have lk: "locks_ok (openmp s) ?b (s2(p := None)) m1 P g2 {} {} {} False"
  proof (rule locks_views [OF lks sub(1) _ sub(3)])
    show "bll ?b b = bll b1 b" if "b \<in> dom ?b" for b using that by (auto simp: bll_def dom_def split: if_splits)
    show "sll (s2(p := None)) q = sll s1 q" if "q \<in> dom (s2(p := None))" for q using that d(6) by (auto simp: sll_def fun_eq_iff dom_def split: if_splits)
  qed (simp_all add: d)
  have keep: "?h a = h1 a \<and> bsb ?b (S_vma_2block a) = bsb b1 (S_vma_2block a)" if a: "a \<in> used h1 F1" for a
  proof -
    have a2: "a \<in> used ?h F1" using ps(2) a by simp
    then have "S_vma_2block a \<in> dom ?b" using used_block(1) [OF shapeD(1) [OF ps(1)]] by blast
    moreover have "a \<in> dom ?h" using a2 by (simp add: used_def)
    ultimately show ?thesis by (auto simp: bsb_def dom_def split: if_splits)
  qed
  show ?thesis by (rule exI)+ (rule conjI [OF r2 conjI [OF ps(1) conjI [OF lk conjI [OF ps(2) conjI [OF sub(2)]]]]], use keep in blast)
qed

lemma free_to_put:
  assumes sh: "shape h bm sm mm (gp_head g) P F L G {} {}" and lks: "locks_ok (openmp s) bm sm mm P g {} {} {} False"
    and v: "v \<in> used h F" and k: "k = S_vma_2block v" and p: "p = bsb bm k" and c: "bvc bm k = 1" "sbc sm p = 1"
  shows "\<exists>h1 b1 m1 F1 s1 L2. vma_free v (aw s h bm sm mm g) = S_superblock_unlock_and_put p (aw s h1 b1 s1 m1 g) \<and> dom m1 = dom mm \<and>
      shape h1 b1 s1 m1 (gp_head g) P F1 L2 G {} {p} \<and> locks_ok (openmp s) b1 s1 m1 P g {} {} {} False \<and> freed h bm F v h1 b1 F1 \<and> p \<in> dom s1"
proof -
  obtain h1 b0 m1 F1 L1 where r: "vma_free v (aw s h bm sm mm g) = S_block_unlock_and_return k (aw s h1 b0 sm m1 g)" and dm: "dom m1 = dom mm"
    and s1: "shape h1 b0 sm m1 (gp_head g) P F1 L1 G {k} {}" "locks_ok (openmp s) b0 sm m1 P g {k} {} {} False" and fr: "freed h bm F v h1 b0 F1"
    and kk: "k \<in> dom b0" "k \<noteq> NULL" "length (F1 k) = 56" "\<forall>i. k \<notin> set (L1 i)" and sb: "bsb b0 = bsb bm"
    using free_unlink [OF sh lks v k c(1)] by blast
  have pp: "p = bsb b0 k" using p sb by simp
  obtain b1 s1' L2 where "S_block_unlock_and_return k (aw s h1 b0 sm m1 g) = S_superblock_unlock_and_put p (aw s h1 b1 s1' m1 g)"
    "shape h1 b1 s1' m1 (gp_head g) P F1 L2 G {} {p}" "locks_ok (openmp s) b1 s1' m1 P g {} {} {} False" "bsb b1 = bsb b0" "p \<in> dom s1'"
    using return_last [OF s1 kk(1,2,4,3) c(2) pp] by blast
  moreover from this have "freed h bm F v h1 b1 F1" using fr by (simp add: freed_def)
  ultimately show ?thesis using r dm by metis
qed

lemma free_run:
  assumes sh: "shape h bm sm mm (gp_head g) P F L G {} {}" and lks: "locks_ok (openmp s) bm sm mm P g {} {} {} False"
    and v: "v \<in> used h F"
  shows "openmp s \<Longrightarrow> last_of (aw s h bm sm mm g) v \<Longrightarrow> vma_free v (aw s h bm sm mm g) = Inl BadLock"
    and "\<not> (openmp s \<and> last_of (aw s h bm sm mm g) v) \<Longrightarrow>
     \<exists>h' bm' sm' mm' g' F' L' G'. vma_free v (aw s h bm sm mm g) = Inr ((), aw s h' bm' sm' mm' g') \<and> dom mm' = dom mm \<and>
       shape h' bm' sm' mm' (gp_head g') P F' L' G' {} {} \<and> locks_ok (openmp s) bm' sm' mm' P g' {} {} {} False \<and> freed h bm F v h' bm' F'"
proof -
  define k where "k = S_vma_2block v"
  note D = shapeD [OF sh]
  note u = used_block [OF D(1) v, folded k_def]
  have lo: "last_of (aw s h bm sm mm g) v \<longleftrightarrow> bvc bm k = 1 \<and> sbc sm (bsb bm k) = 1" by (simp add: last_of_def k_def)
  show "vma_free v (aw s h bm sm mm g) = Inl BadLock" if o: "openmp s" "last_of (aw s h bm sm mm g) v"
  proof -
    define p where "p = bsb bm k"
    obtain h1 b1 m1 F1 s1 L2 where r: "vma_free v (aw s h bm sm mm g) = S_superblock_unlock_and_put p (aw s h1 b1 s1 m1 g)"
      and s1: "shape h1 b1 s1 m1 (gp_head g) P F1 L2 G {} {p}" "locks_ok (openmp s) b1 s1 m1 P g {} {} {} False" and p: "p \<in> dom s1"
      using free_to_put [OF sh lks v k_def p_def] o(2) unfolding lo p_def by blast
    show ?thesis unfolding r
    proof (rule put_bad_lock [OF o(1) p])
      show "p \<noteq> NULL" using memD(4) [OF shapeD(1) [OF s1(1)] p] by blast
      show "lock_idle (openmp s) (sll s1 p)" "lock_idle (openmp s) (gp_lock g)" using locksD(3) [OF s1(2) p] locksD(7) [OF s1(2)] by auto
    qed (use put_facts(5,6) [OF s1(1) p] in blast)+
  qed
  show "\<exists>h' bm' sm' mm' g' F' L' G'. vma_free v (aw s h bm sm mm g) = Inr ((), aw s h' bm' sm' mm' g') \<and> dom mm' = dom mm \<and>
       shape h' bm' sm' mm' (gp_head g') P F' L' G' {} {} \<and> locks_ok (openmp s) bm' sm' mm' P g' {} {} {} False \<and> freed h bm F v h' bm' F'"
    if o: "\<not> (openmp s \<and> last_of (aw s h bm sm mm g) v)"
  proof -
    consider (plain) "bvc bm k \<noteq> 1" "F k \<noteq> []" | (push) "F k = []" | (keep) "bvc bm k = 1" "sbc sm (bsb bm k) \<noteq> 1"
      | (last) "bvc bm k = 1" "sbc sm (bsb bm k) = 1" "\<not> openmp s" using o unfolding lo by blast
    then show ?thesis
    proof cases
      case plain
      show ?thesis using free_plain [OF sh lks v k_def plain] by blast
    next
      case push
      show ?thesis using free_push [OF sh lks v k_def push] by blast
    next
      case keep
      obtain h1 b1 m1 F1 L1 where r: "vma_free v (aw s h bm sm mm g) = S_block_unlock_and_return k (aw s h1 b1 sm m1 g)" and dm: "dom m1 = dom mm"
        and s1: "shape h1 b1 sm m1 (gp_head g) P F1 L1 G {k} {}" "locks_ok (openmp s) b1 sm m1 P g {k} {} {} False" and fr: "freed h bm F v h1 b1 F1"
        and kk: "k \<in> dom b1" "k \<noteq> NULL" "length (F1 k) = 56" "\<forall>i. k \<notin> set (L1 i)" and sb: "bsb b1 = bsb bm"
        using free_unlink [OF sh lks v k_def keep(1)] by blast
      have cc: "sbc sm (bsb b1 k) \<noteq> 1" using keep(2) sb by simp
      obtain b2 s2 g2 L2 G2 where "S_block_unlock_and_return k (aw s h1 b1 sm m1 g) = Inr ((), aw s h1 b2 s2 m1 g2)"
        "shape h1 b2 s2 m1 (gp_head g2) P F1 L2 G2 {} {}" "locks_ok (openmp s) b2 s2 m1 P g2 {} {} {} False" "bsb b2 = bsb b1"
        using return_keep [OF s1 kk(1,2,4,3) cc] by blast
      moreover from this have "freed h bm F v h1 b2 F1" using fr by (simp add: freed_def)
      ultimately show ?thesis using r dm by metis
    next
      case last
      define p where "p = bsb bm k"
      obtain h1 b1 m1 F1 s1 L2 where r: "vma_free v (aw s h bm sm mm g) = S_superblock_unlock_and_put p (aw s h1 b1 s1 m1 g)"
        and dm: "dom m1 = dom mm" and s1: "shape h1 b1 s1 m1 (gp_head g) P F1 L2 G {} {p}" "locks_ok (openmp s) b1 s1 m1 P g {} {} {} False"
        and fr: "freed h bm F v h1 b1 F1" and p: "p \<in> dom s1"
        using free_to_put [OF sh lks v k_def p_def] last(1,2) unfolding p_def by blast
      obtain h2 b2 s2 g2 L' G' where r2: "S_superblock_unlock_and_put p (aw s h1 b1 s1 m1 g) = Inr ((), aw s h2 b2 s2 m1 g2)"
        and s2: "shape h2 b2 s2 m1 (gp_head g2) P F1 L' G' {} {}" "locks_ok (openmp s) b2 s2 m1 P g2 {} {} {} False"
        and u2: "used h2 F1 = used h1 F1" "dom h2 \<subseteq> dom h1" "\<forall>a \<in> used h1 F1. h2 a = h1 a \<and> bsb b2 (S_vma_2block a) = bsb b1 (S_vma_2block a)"
        using put_run [OF last(3) s1 p] by (elim exE conjE) (rule that)
      have "freed h bm F v h2 b2 F1" by (rule freed_trans [OF fr u2(1,2)]) (use u2(3) in blast)
      then show ?thesis using r r2 s2 dm by metis
    qed
  qed
qed

end
