(* ===== verification/Alloc_Pool.thy ===== *)
theory Alloc_Pool
  imports Alloc_Free
begin

section \<open>The allocator as the page table sees it\<close>

text \<open>
  The allocator provides the interface \<open>vma_pool\<close> of the page table: \<open>pinv\<close> is its invariant and
  \<open>live\<close> the areas in use; an allocation succeeds when \<open>avail\<close>, and \<open>okf\<close> says when giving an area
  back is harmless (always without OpenMP; with it, while another area of the same superblock is in
  use). The laws of the interface are proved here for \<open>vma_alloc\<close> and \<open>vma_free\<close>.
\<close>

definition cached :: "'y ast_scheme \<Rightarrow> bool" where
  "cached s \<longleftrightarrow> S_init s (self s) \<noteq> 0 \<and> phd (mpools s) (self s) \<noteq> NULL"

definition pinv :: "'y ast_scheme \<Rightarrow> bool" where
  "pinv s \<longleftrightarrow> (\<exists>F L G. pool_inv_with s F L G)"

definition live :: "'y ast_scheme \<Rightarrow> addr set" where
  "live s = {a. \<exists>F L G. pool_inv_with s F L G \<and> a \<in> used (vmas s) F}"

definition avail :: "'y ast_scheme \<Rightarrow> bool" where
  "avail s \<longleftrightarrow> cached s \<or> grants s (dom (superblocks s)) (S_gpool s)"

definition sb_of :: "'y ast_scheme \<Rightarrow> addr \<Rightarrow> addr" where
  "sb_of s a = bsb (blocks s) (S_vma_2block a)"

definition okf :: "'y ast_scheme \<Rightarrow> addr set \<Rightarrow> addr \<Rightarrow> bool" where
  "okf s A z \<longleftrightarrow> \<not> openmp s \<or> (\<exists>x \<in> A. x \<in> live s \<and> x \<noteq> z \<and> sb_of s x = sb_of s z)"

definition roomy :: "'y ast_scheme \<Rightarrow> bool" where
  "roomy s \<longleftrightarrow> \<not> openmp s \<or> cached s \<or> gp_head (S_gpool s) \<noteq> NULL"

lemma invD:
  assumes "pool_inv_with s F L G"
  shows "shape (vmas s) (blocks s) (superblocks s) (mpools s) (gp_head (S_gpool s)) (pools (mpools s) (S_init s)) F L G {} {}"
    "locks_ok (openmp s) (blocks s) (superblocks s) (mpools s) (pools (mpools s) (S_init s)) (S_gpool s) {} {} {} False"
    "os_contract s" "self s \<in> dom (mpools s)" "self s \<noteq> NULL" "vmas s (frame_n s) = None"
  using assms by (simp_all add: pool_inv_with_def)

lemma live_used:
  assumes i: "pool_inv_with s F L G"
  shows "live s = used (vmas s) F"
proof -
  have e: "used (vmas s) F' = used (vmas s) F" if j: "pool_inv_with s F' L' G'" for F' L' G'
  proof -
    note D = shapeD [OF invD(1) [OF i]] and D' = shapeD [OF invD(1) [OF j]]
    have FF: "F' b = F b" if b: "b \<in> dom (blocks s)" for b
    proof -
      note x = D(2) [OF b, unfolded block_ok_def] and y = D'(2) [OF b, unfolded block_ok_def]
      have "NULL \<notin> areas b" using memD(2) [OF D(1) b] by blast
      then have "NULL \<notin> set (F b)" "NULL \<notin> set (F' b)" using x y by blast+
      moreover have "hd0 (F' b) NULL = hd0 (F b) NULL" using x y by metis
      ultimately show ?thesis using seg_unique x y by blast
    qed
    show ?thesis using FF memD(3) [OF D(1)] by (auto simp: used_def)
  qed
  show ?thesis unfolding live_def using i e by blast
qed

lemma init_step:
  assumes i: "pool_inv_with s F L G" and n: "S_init s (self s) = 0"
  shows "\<exists>t. init_mpool s = Inr ((), t) \<and> pool_inv_with t F L G \<and> vmas t = vmas s \<and> blocks t = blocks s \<and>
     superblocks t = superblocks s \<and> S_gpool t = S_gpool s \<and> S_init t (self t) \<noteq> 0 \<and> phd (mpools t) (self t) = NULL \<and>
     kin s t \<and> os_calls t = os_calls s"
proof -
  define q where "q = self s"
  have s: "s = aw s (vmas s) (blocks s) (superblocks s) (mpools s) (S_gpool s)" by (simp add: aw_self)
  have q: "q \<in> dom (mpools s)" "q \<noteq> NULL" using i by (simp_all add: pool_inv_with_def q_def)
  obtain mm' where r: "init_mpool s = Inr ((), aw (s\<lparr>S_init := (S_init s)(q := 1)\<rparr>) (vmas s) (blocks s) (superblocks s) mm' (S_gpool s))"
    and m: "dom mm' = dom (mpools s)" "phd mm' = (phd (mpools s))(q := NULL)" "lock_idle (openmp s) (pll mm' q)"
      "\<forall>x. x \<noteq> q \<longrightarrow> mm' x = mpools s x"
    using init_mpool_first [OF n, of "mpools s" "vmas s" "blocks s" "superblocks s" "S_gpool s"] q s unfolding q_def by auto
  let ?t = "aw (s\<lparr>S_init := (S_init s)(q := 1)\<rparr>) (vmas s) (blocks s) (superblocks s) mm' (S_gpool s)"
  let ?P = "pools (mpools s) (S_init s)"
  have P: "pools mm' ((S_init s)(q := 1)) = insert q ?P" "q \<notin> ?P" using q m(1) n by (auto simp: pools_def q_def)
  have "shape (vmas s) (blocks s) (superblocks s) mm' (gp_head (S_gpool s)) (insert q ?P) F L G {} {}"
    by (rule shape_new_pool [OF invD(1) [OF i] q P(2) m(1,2)])
  moreover have "locks_ok (openmp s) (blocks s) (superblocks s) mm' (insert q ?P) (S_gpool s) {} {} {} False"
    using invD(2) [OF i] m(3,4) P(2) by (auto simp: locks_ok_def pll_def)
  ultimately have "pool_inv_with ?t F L G" using invD(3-6) [OF i] P(1) m(1) by (simp add: pool_inv_with_def os_contract_def)
  moreover have "kin s ?t" "os_calls ?t = os_calls s" by (simp_all add: kin_def same_env_def)
  ultimately show ?thesis using r m(2) q_def by (intro exI [of _ ?t]) simp
qed

definition alloc_spec :: "'y ast_scheme \<Rightarrow> (addr \<Rightarrow> addr list) \<Rightarrow> addr \<Rightarrow> 'y ast_scheme \<Rightarrow> (addr \<Rightarrow> addr list) \<Rightarrow> bool" where
  "alloc_spec s F z s' F' \<longleftrightarrow> (if z = NULL then \<not> avail s \<and> vmas s' = vmas s \<and> blocks s' = blocks s \<and> F' = F
     else avail s \<and> allocated s F z s' F')"

lemma alloc_ready:
  assumes i: "pool_inv_with s F L G" and me: "S_init s (self s) \<noteq> 0"
  shows "\<exists>z s' F' L' G'. vma_alloc s = Inr (z, s') \<and> pool_inv_with s' F' L' G' \<and> kin s s' \<and> alloc_spec s F z s' F'"
proof -
  have sp: "alloc_spec s F z s' F'" if "allocated s F z s' F'" "avail s" for z s' F'
    using that by (simp add: alloc_spec_def allocated_def)
  consider "phd (mpools s) (self s) \<noteq> NULL" | "phd (mpools s) (self s) = NULL" "grants s (dom (superblocks s)) (S_gpool s)"
    | "phd (mpools s) (self s) = NULL" "\<not> grants s (dom (superblocks s)) (S_gpool s)" by blast
  then show ?thesis
  proof cases
    case 1
    then have av: "avail s" using me by (simp add: avail_def cached_def)
    obtain z bm' mm' F' L' where a: "vma_alloc s = Inr (z, aw s (vmas s) bm' (superblocks s) mm' (S_gpool s))"
      "pool_inv_with (aw s (vmas s) bm' (superblocks s) mm' (S_gpool s)) F' L' G"
      "allocated s F z (aw s (vmas s) bm' (superblocks s) mm' (S_gpool s)) F'"
      using alloc_cached [OF i me 1] by (elim exE conjE) (rule that)
    show ?thesis by (rule exI)+ (rule conjI [OF a(1) conjI [OF a(2) conjI [OF kin_aw(1) sp [OF a(3) av]]]])
  next
    case 2
    then have "avail s" by (simp add: avail_def)
    then show ?thesis using alloc_steals [OF i me 2] sp by blast
  next
    case 3
    then have "\<not> avail s" by (simp add: avail_def cached_def)
    moreover have "kin s (called s)" by (simp add: kin_def same_env_def)
    moreover have "vmas (called s) = vmas s" "blocks (called s) = blocks s" by (simp_all add: called_def)
    ultimately have "alloc_spec s F NULL (called s) F" "kin s (called s)" by (simp_all add: alloc_spec_def)
    then show ?thesis using alloc_none [OF i me 3] by blast
  qed
qed

lemma alloc_total:
  assumes i: "pool_inv_with s F L G"
  shows "\<exists>z s' F' L' G'. vma_alloc s = Inr (z, s') \<and> pool_inv_with s' F' L' G' \<and> kin s s' \<and> alloc_spec s F z s' F'"
proof (cases "S_init s (self s) = 0")
  case False
  then show ?thesis using alloc_ready [OF i] by blast
next
  case True
  obtain t where t: "init_mpool s = Inr ((), t)" "pool_inv_with t F L G" "vmas t = vmas s" "blocks t = blocks s"
     "superblocks t = superblocks s" "S_gpool t = S_gpool s" "S_init t (self t) \<noteq> 0" "phd (mpools t) (self t) = NULL"
     "kin s t" "os_calls t = os_calls s" using init_step [OF i True] by blast
  have e: "vma_alloc s = vma_alloc t" unfolding vma_alloc_def by (simp only: bnd_Inr [where m = init_mpool, OF t(1)] bnd_Inr [where m = init_mpool, OF init_mpool_done [OF t(7)]])
  obtain z s' F' L' G' where a: "vma_alloc t = Inr (z, s')" "pool_inv_with s' F' L' G'" "kin t s'" "alloc_spec t F z s' F'"
    using alloc_ready [OF t(2,7)] by blast
  have k: "kin s s'" using t(9) a(3) by (auto simp: kin_def same_env_def)
  have "avail t = avail s" using t True by (simp add: avail_def cached_def grants_def kin_def)
  moreover have "allocated t F z s' F' = allocated s F z s' F'" using t True by (simp add: allocated_def)
  ultimately have "alloc_spec s F z s' F'" using a(4) t(3,4) unfolding alloc_spec_def by (cases "z = NULL") simp_all
  then show ?thesis using a(1,2) k e by metis
qed

subsection \<open>The interface of the page table\<close>

lemma free_total:
  assumes i: "pool_inv_with s F L G" and z: "z \<in> live s"
  shows "openmp s \<Longrightarrow> last_of s z \<Longrightarrow> vma_free z s = Inl BadLock"
    and "\<not> (openmp s \<and> last_of s z) \<Longrightarrow>
     \<exists>s' F' L' G'. vma_free z s = Inr ((), s') \<and> pool_inv_with s' F' L' G' \<and> kin s s' \<and> freed (vmas s) (blocks s) F z (vmas s') (blocks s') F'"
proof -
  have s: "s = aw s (vmas s) (blocks s) (superblocks s) (mpools s) (S_gpool s)" by (simp add: aw_self)
  have zu: "z \<in> used (vmas s) F" using z live_used [OF i] by simp
  note fr = free_run [OF invD(1,2) [OF i] zu, folded s]
  show "openmp s \<Longrightarrow> last_of s z \<Longrightarrow> vma_free z s = Inl BadLock" by (rule fr(1))
  assume "\<not> (openmp s \<and> last_of s z)"
  then obtain h' bm' sm' mm' g' F' L' G' where r: "vma_free z s = Inr ((), aw s h' bm' sm' mm' g')" "dom mm' = dom (mpools s)"
       "shape h' bm' sm' mm' (gp_head g') (pools (mpools s) (S_init s)) F' L' G' {} {}"
       "locks_ok (openmp s) bm' sm' mm' (pools (mpools s) (S_init s)) g' {} {} {} False" "freed (vmas s) (blocks s) F z h' bm' F'"
    using fr(2) by blast
  have "h' (frame_n s) = None" using r(5) invD(6) [OF i] by (auto simp: freed_def dom_def)
  then have "pool_inv_with (aw s h' bm' sm' mm' g') F' L' G'" using r invD(3-5) [OF i] pools_dom [OF r(2)]
    by (simp add: pool_inv_with_def os_contract_def)
  then show "\<exists>s' F' L' G'. vma_free z s = Inr ((), s') \<and> pool_inv_with s' F' L' G' \<and> kin s s' \<and> freed (vmas s) (blocks s) F z (vmas s') (blocks s') F'"
    using r(1,5) by (intro exI [of _ "aw s h' bm' sm' mm' g'"]) auto
qed

subsection \<open>Counting the areas and blocks in use\<close>

lemma used_in_block:
  assumes sh: "shape h bm sm mm gh P F L G {} {}" and k: "k \<in> dom bm" "length (F k) \<noteq> 56"
  shows "\<exists>x \<in> used h F. S_vma_2block x = k"
proof -
  note D = shapeD [OF sh]
  have "length (F k) < card (areas k)" using D(2) [OF k(1)] k(2) card_areas by (simp add: block_ok_def)
  then obtain x where x: "x \<in> areas k" "x \<notin> set (F k)" using some_not_taken card_areas(1) by blast
  then show ?thesis using memD(2) [OF D(1) k(1) x(1)] by (auto simp: used_def)
qed

lemma used_in_superblock:
  assumes sh: "shape h bm sm mm gh P F L G {} {}" and p: "gh \<noteq> NULL"
  shows "\<exists>x \<in> used h F. bsb bm (S_vma_2block x) = gh"
proof -
  note D = shapeD [OF sh]
  have g: "dl (snx sm) (spv sm) gh G" "set G \<subseteq> dom sm"
    "\<And>q. q \<in> dom sm \<Longrightarrow> unat (sbc sm q) + length (L (Sb q)) = 63 \<and> length (L (Sb q)) \<noteq> 63"
    using D(5) by (simp_all add: global_ok_def)
  have gd: "gh \<in> dom sm" using dl_facts [OF g(1)] p g(2) by auto
  have "length (L (Sb gh)) < card {b. block_at gh b}" using g(3) [OF gd] card_blocks by simp
  then obtain b where b: "block_at gh b" "b \<notin> set (L (Sb gh))" using some_not_taken card_blocks(1) by blast
  have bd: "b \<in> dom bm" "bsb bm b = gh" using memD(5) [OF D(1) b(1) gd] by auto
  have "length (F b) \<noteq> 56" using placedD(2) [OF D(4) bd(1), of "Sb gh"] b(2) bd(2) by (auto simp: loc_def)
  then show ?thesis using used_in_block [OF sh bd(1)] bd(2) by blast
qed

lemma not_last:
  assumes i: "pool_inv_with s F L G" and z: "z \<in> live s" and x: "x \<in> live s" "x \<noteq> z" and e: "sb_of s x = sb_of s z"
  shows "\<not> last_of s z"
proof -
  note sh = invD(1) [OF i]
  note D = shapeD [OF sh]
  let ?bm = "blocks s" and ?k = "S_vma_2block z" and ?j = "S_vma_2block x"
  note zu = used_block [OF D(1) z [unfolded live_used [OF i]]]
  note xu = used_block [OF D(1) x(1) [unfolded live_used [OF i]]]
  define p where "p = bsb ?bm ?k"
  have nf: "length (F ?k) \<noteq> 56" "length (F ?j) \<noteq> 56"
    using block_ok_put(1) [OF D(2) [OF zu(1)] zu(3,4)] block_ok_put(1) [OF D(2) [OF xu(1)] xu(3,4)] by simp_all
  show ?thesis
  proof (cases "?j = ?k")
    case True
    note b = D(2) [OF zu(1), unfolded block_ok_def]
    have "length (F ?k) + card {x, z} \<le> card (areas ?k)"
      using b zu(3,4) xu(3,4) True by (intro not_all_taken) (auto simp: card_areas)
    then have "unat (bvc ?bm ?k) \<noteq> 1" using b x(2) card_areas(2) [of ?k] by simp
    then show ?thesis by (auto simp: last_of_def)
  next
    case False
    have p: "p \<in> dom (superblocks s)" "block_at p ?k" "block_at p ?j"
      using memD(1) [OF D(1) zu(1)] memD(1) [OF D(1) xu(1)] e by (simp_all add: sb_of_def p_def)
    have pv: "Sb p \<in> valid_ids (superblocks s) (pools (mpools s) (S_init s))" using p by (simp add: valid_ids_def)
    have dL: "distinct (L (Sb p))" using dl_facts [OF lists_okD(1) [OF D(3) pv]] by blast
    have sub: "set (L (Sb p)) \<subseteq> {b. block_at p b}"
    proof
      fix b assume b: "b \<in> set (L (Sb p))"
      have bd: "b \<in> dom ?bm" by (rule placedD(1) [OF D(4) b])
      then have "loc F ?bm b = Some (Sb p)" using placedD(2) [OF D(4) bd, of "Sb p"] b by blast
      then show "b \<in> {b. block_at p b}" using memD(1) [OF D(1) bd] by (auto simp: loc_def split: if_splits)
    qed
    have "?k \<notin> set (L (Sb p))" "?j \<notin> set (L (Sb p))"
      using placedD(2) [OF D(4) zu(1), of "Sb p"] placedD(2) [OF D(4) xu(1), of "Sb p"] nf by (auto simp: loc_def split: if_splits)
    then have "length (L (Sb p)) + card {?j, ?k} \<le> card {b. block_at p b}"
      using dL sub p by (intro not_all_taken) (auto simp: card_blocks)
    then have "length (L (Sb p)) \<le> 61" using False card_blocks(2) [of p] by simp
    moreover have "unat (sbc (superblocks s) p) + length (L (Sb p)) = 63" using D(5) p(1) by (simp add: global_ok_def)
    ultimately have "unat (sbc (superblocks s) p) \<noteq> 1" by linarith
    then show ?thesis by (auto simp: last_of_def p_def)
  qed
qed

subsection \<open>The laws\<close>

lemma wst_ast [simp]:
  fixes s :: "'y ast_scheme"
  shows "blocks (wst s h r l) = blocks s" "superblocks (wst s h r l) = superblocks s" "mpools (wst s h r l) = mpools s"
    "S_gpool (wst s h r l) = S_gpool s" "S_init (wst s h r l) = S_init s" "self (wst s h r l) = self s"
    "os_alloc (wst s h r l) = os_alloc s" "os_calls (wst s h r l) = os_calls s" "os_contract (wst s h r l) = os_contract s"
  by (simp_all add: wst_def os_contract_def)

lemma user_inv:
  fixes s :: "'y ast_scheme"
  assumes i: "pool_inv_with s F L G" and h: "dom h = dom (vmas s)" "\<forall>a. a \<notin> live s \<longrightarrow> h a = vmas s a"
  shows "pool_inv_with (wst s h r l) F L G" and "used h F = used (vmas s) F"
proof -
  note D = shapeD [OF invD(1) [OF i]]
  show "used h F = used (vmas s) F" using h(1) by (simp add: used_def)
  have "block_ok h (blocks s) F b" if b: "b \<in> dom (blocks s)" for b
  proof -
    note x = D(2) [OF b, unfolded block_ok_def]
    have "fnx h a = fnx (vmas s) a" if a: "a \<in> set (F b)" for a
    proof -
      have "S_vma_2block a = b" using x a memD(2) [OF D(1) b] by blast
      then have "a \<notin> live s" using a live_used [OF i] by (simp add: used_def)
      then show ?thesis using h(2) by (simp add: fnx_def)
    qed
    then show ?thesis unfolding block_ok_def using seg_cong [of "F b" "fnx h" "fnx (vmas s)"] x by blast
  qed
  moreover have "mem_ok h (blocks s) (superblocks s)" using D(1) by (rule mem_ok_cong) (simp_all add: h)
  moreover have "h (frame_n s) = None" using invD(6) [OF i] h(1) by (metis domIff)
  ultimately show "pool_inv_with (wst s h r l) F L G" using i by (simp add: pool_inv_with_def shape_def)
qed

lemma live_wst:
  fixes s :: "'y ast_scheme"
  assumes i: "pool_inv_with s F L G" and h: "dom h = dom (vmas s)" "\<forall>a. a \<notin> live s \<longrightarrow> h a = vmas s a"
  shows "live (wst s h r l) = live s"
  using live_used [OF user_inv(1) [OF i h]] live_used [OF i] user_inv(2) [OF i h] by simp

lemma live_mem:
  assumes i: "pool_inv_with s F L G"
  shows "live s \<subseteq> dom (vmas s)" "NULL \<notin> live s" "z \<in> live s \<Longrightarrow> S_vma_2block z \<in> dom (blocks s)"
proof -
  note D = shapeD [OF invD(1) [OF i]]
  show "live s \<subseteq> dom (vmas s)" "NULL \<notin> live s" unfolding live_used [OF i] using used_block(5,6) [OF D(1)] by blast+
  show "z \<in> live s \<Longrightarrow> S_vma_2block z \<in> dom (blocks s)" unfolding live_used [OF i] using used_block(1) [OF D(1)] by blast
qed

lemma kinD: "kin s s' \<Longrightarrow> same_env s s' \<and> openmp s' = openmp s"
  by (simp add: kin_def same_env_def)

lemma cached_partial:
  assumes i: "pool_inv_with s F L G" and c: "cached s"
  shows "\<exists>x \<in> live s. S_vma_2block x = phd (mpools s) (self s)"
proof -
  note sh = invD(1) [OF i]
  note D = shapeD [OF sh]
  let ?q = "self s" and ?k = "phd (mpools s) (self s)"
  have "Mp ?q \<in> valid_ids (superblocks s) (pools (mpools s) (S_init s))"
    using c invD(4,5) [OF i] by (simp add: valid_ids_def pools_def cached_def)
  then have "?k \<in> set (L (Mp ?q))" using dl_facts [OF lists_okD(1) [OF D(3), unfolded heads_simps]] c unfolding cached_def by fastforce
  then have k: "?k \<in> dom (blocks s)" "loc F (blocks s) ?k = Some (Mp ?q)" using placedD [OF D(4)] by blast+
  then have "length (F ?k) \<noteq> 56" by (auto simp: loc_def split: if_splits)
  then show ?thesis using used_in_block [OF sh k(1)] live_used [OF i] by simp
qed

lemma pool_law_alloc:
  assumes p: "pinv s"
  shows "\<exists>z s'. vma_alloc s = Inr (z, s') \<and> pinv s' \<and> same_env s s' \<and>
      (\<forall>a \<in> live s. vmas s' a = vmas s a) \<and> (avail s \<longrightarrow> z \<noteq> NULL) \<and>
      (if z = NULL then live s' = live s else z \<notin> live s \<and> live s' = insert z (live s)) \<and>
      le_on (okf s) (okf s') (live s) \<and> (roomy s \<longrightarrow> okf s' (live s) z)"
proof -
  obtain F L G where i: "pool_inv_with s F L G" using p unfolding pinv_def by blast
  obtain z s' F' L' G' where r: "vma_alloc s = Inr (z, s')" and i': "pool_inv_with s' F' L' G'" and k: "kin s s'"
    and sp: "alloc_spec s F z s' F'" using alloc_total [OF i] by blast
  note lv = live_used [OF i] live_used [OF i']
  note ke = kinD [OF k]
  show ?thesis
  proof (cases "z = NULL")
    case True
    then have s: "\<not> avail s" "live s' = live s" "vmas s' = vmas s" "blocks s' = blocks s" using sp lv by (simp_all add: alloc_spec_def)
    have "okf s' = okf s" using s ke by (intro ext) (simp add: okf_def sb_of_def)
    moreover have "roomy s \<longrightarrow> okf s' (live s) z" using s(1) ke by (auto simp: roomy_def okf_def avail_def grants_def)
    ultimately show ?thesis using r i' ke s True by (auto simp: pinv_def)
  next
    case False
    then have a: "avail s" "allocated s F z s' F'" using sp by (simp_all add: alloc_spec_def)
    have u: "z \<notin> live s" "live s' = insert z (live s)" "\<forall>a \<in> live s. vmas s' a = vmas s a"
      using a(2) lv live_mem(1) [OF i] unfolding allocated_def by (simp, simp, blast)
    have b: "sb_of s' x = sb_of s x" if "x \<in> live s" for x
      using a(2) live_mem(3) [OF i that] by (simp add: allocated_def sb_of_def)
    have "le_on (okf s) (okf s') (live s)" unfolding le_on_def
    proof (intro allI impI)
      fix A y assume A: "A \<subseteq> live s" "y \<in> live s" "okf s A y"
      then show "okf s' A y" using b ke u(2) unfolding okf_def by (metis insertI2 subsetD)
    qed
    moreover have "okf s' (live s) z" if ro: "roomy s"
    proof -
      consider (seq) "\<not> openmp s" | (cached) "cached s" | (stolen) "\<not> cached s" "gp_head (S_gpool s) \<noteq> NULL" using ro unfolding roomy_def by blast
      then show ?thesis
      proof cases
        case seq
        then show ?thesis using ke by (simp add: okf_def)
      next
        case cached
        then obtain x where "x \<in> live s" "S_vma_2block x = S_vma_2block z" using cached_partial [OF i] a(2) by (auto simp: allocated_def cached_def)
        then show ?thesis using u unfolding okf_def sb_of_def by (metis insertI2)
      next
        case stolen
        obtain x where "x \<in> live s" "sb_of s x = gp_head (S_gpool s)"
          using used_in_superblock [OF invD(1) [OF i] stolen(2)] lv(1) unfolding sb_of_def by auto
        moreover have "sb_of s' z = gp_head (S_gpool s)" using a(2) stolen by (simp add: allocated_def cached_def sb_of_def split: if_splits)
        ultimately show ?thesis using u b unfolding okf_def by (metis insertI2)
      qed
    qed
    ultimately show ?thesis using r i' ke u a(1) False by (auto simp: pinv_def)
  qed
qed

lemma pool_law_free:
  assumes p: "pinv s" and z: "z \<in> live s" and ok: "okf s (live s - {z}) z"
  shows "\<exists>s'. vma_free z s = Inr ((), s') \<and> pinv s' \<and> same_env s s' \<and> live s' = live s - {z} \<and>
      (\<forall>a \<in> live s - {z}. vmas s' a = vmas s a) \<and> le_on (okf s) (okf s') (live s - {z})"
proof -
  obtain F L G where i: "pool_inv_with s F L G" using p unfolding pinv_def by blast
  have nl: "\<not> (openmp s \<and> last_of s z)" using ok not_last [OF i z] by (auto simp: okf_def)
  obtain s' F' L' G' where r: "vma_free z s = Inr ((), s')" and i': "pool_inv_with s' F' L' G'" and k: "kin s s'"
    and fr: "freed (vmas s) (blocks s) F z (vmas s') (blocks s') F'" using free_total(2) [OF i z nl] by blast
  note lv = live_used [OF i] live_used [OF i'] and ke = kinD [OF k]
  have l: "live s' = live s - {z}" "\<forall>a \<in> live s - {z}. vmas s' a = vmas s a \<and> sb_of s' a = sb_of s a"
    using fr lv by (simp_all add: freed_def sb_of_def)
  have "le_on (okf s) (okf s') (live s - {z})" unfolding le_on_def
  proof (intro allI impI)
    fix A y assume A: "A \<subseteq> live s - {z}" "y \<in> live s - {z}" "okf s A y"
    then show "okf s' A y" using l ke unfolding okf_def by (metis subsetD)
  qed
  then show ?thesis using r i' ke l by (auto simp: pinv_def)
qed

interpretation va: vma_pool vma_alloc vma_free pinv live avail okf roomy
proof unfold_locales
  show "live s \<subseteq> dom (vmas s) \<and> NULL \<notin> live s \<and> vmas s (frame_n s) = None" if "pinv s" for s
    using that live_mem invD(6) unfolding pinv_def by blast
  show "pinv (wst s h r l) \<and> live (wst s h r l) = live s \<and> avail (wst s h r l) = avail s \<and>
      okf (wst s h r l) = okf s \<and> roomy (wst s h r l) = roomy s"
    if p: "pinv s" "dom h = dom (vmas s)" "\<forall>a. a \<notin> live s \<longrightarrow> h a = vmas s a" for s h r l
  proof -
    obtain F L G where i: "pool_inv_with s F L G" using p(1) unfolding pinv_def by blast
    have "pinv (wst s h r l)" using user_inv(1) [OF i p(2,3)] unfolding pinv_def by blast
    then show ?thesis using live_wst [OF i p(2,3)]
      by (simp add: avail_def cached_def grants_def roomy_def okf_def sb_of_def fun_eq_iff)
  qed
  show "okf s L' z" if "okf s L z" "L \<subseteq> L'" for s L z L' using that unfolding okf_def by blast
qed (use pool_law_alloc pool_law_free in blast)+

end
