(* ===== verification/Alloc_Trace.thy ===== *)
theory Alloc_Trace
  imports Alloc_Pool
begin

section \<open>Runs of the allocator\<close>

text \<open>
  The client's view of \<open>vma_alloc.c\<close> as a transition system: after \<open>vma_gpool_init\<close>, threads take
  turns to allocate areas, write to the areas they hold, give them back, and add up their counters.
  A state is the memory together with the set of areas that are handed out and not given back.
\<close>

datatype event = Alloc addr | Free addr | Write addr vm_area | Thread addr | Gather

definition booted :: "'y ast_scheme \<Rightarrow> bool" where
  "booted s \<longleftrightarrow> vmas s = Map.empty \<and> blocks s = Map.empty \<and> superblocks s = Map.empty \<and> S_init s = (\<lambda>_. 0) \<and>
     gp_head (S_gpool s) = NULL \<and> os_contract s \<and> self s \<in> dom (mpools s) \<and> self s \<noteq> NULL"

inductive astep :: "'y ast_scheme \<times> addr set \<Rightarrow> event \<Rightarrow> 'y ast_scheme \<times> addr set \<Rightarrow> bool" where
  Alloc: "vma_alloc s = Inr (z, s') \<Longrightarrow> astep (s, H) (Alloc z) (s', if z = NULL then H else insert z H)"
| Free: "z \<in> H \<Longrightarrow> vma_free z s = Inr ((), s') \<Longrightarrow> astep (s, H) (Free z) (s', H - {z})"
| Write: "z \<in> H \<Longrightarrow> astep (s, H) (Write z v) (s\<lparr>vmas := (vmas s)(z \<mapsto> v)\<rparr>, H)"
| Thread: "q \<in> dom (mpools s) \<Longrightarrow> q \<noteq> NULL \<Longrightarrow> astep (s, H) (Thread q) (s\<lparr>self := q\<rparr>, H)"
| Gather: "vma_gpool_gather s = Inr ((), s') \<Longrightarrow> astep (s, H) Gather (s', H)"

inductive areach :: "'y ast_scheme \<times> addr set \<Rightarrow> bool" where
  start: "booted s \<Longrightarrow> vma_gpool_init s = Inr ((), s') \<Longrightarrow> areach (s', {})"
| step: "areach c \<Longrightarrow> astep c e c' \<Longrightarrow> areach c'"

inductive_cases astepE: "astep c e c'"

subsection \<open>The start\<close>

lemma gpool_init_run:
  "vma_gpool_init s = Inr ((), s\<lparr>S_gpool := (S_gpool s)\<lparr>gp_actr := 0, gp_lctr := 0, gp_mlctr := 0, gp_blctr := 0,
     gp_slctr := 0, gp_lock := released (openmp s) (gp_lock (S_gpool s))\<rparr>\<rparr>)"
  by (simp add: vma_gpool_init_def upd_gp_def get_gp_def gp_with_lock_def liftE_def bnd_def)

lemma booted_inv:
  assumes b: "booted s" and r: "vma_gpool_init s = Inr ((), s')"
  shows "pool_inv_with s' (\<lambda>_. []) (\<lambda>_. []) []"
proof -
  have P: "pools (mpools s) (\<lambda>_. 0) = {}" by (simp add: pools_def)
  show ?thesis using b r
    by (auto simp: gpool_init_run booted_def pool_inv_with_def shape_def locks_ok_def mem_ok_def lists_ok_def valid_ids_def P
        lists_placed_def global_ok_def owned_def os_contract_def)
qed

lemma start_inv:
  assumes "booted s" and "vma_gpool_init s = Inr ((), s')"
  shows "pinv s'" "live s' = {}"
proof -
  note i = booted_inv [OF assms]
  have "vmas s' = Map.empty" using assms by (auto simp: gpool_init_run booted_def)
  then show "pinv s'" "live s' = {}" using i live_used [OF i] by (auto simp: pinv_def used_def)
qed

subsection \<open>Every step keeps the invariant\<close>

lemma write_inv:
  assumes "pinv s" and "z \<in> live s"
  shows "pinv (s\<lparr>vmas := (vmas s)(z \<mapsto> v)\<rparr>)" "live (s\<lparr>vmas := (vmas s)(z \<mapsto> v)\<rparr>) = live s"
proof -
  obtain F L G where i: "pool_inv_with s F L G" using assms(1) unfolding pinv_def by blast
  have h: "dom ((vmas s)(z \<mapsto> v)) = dom (vmas s)" "\<forall>a. a \<notin> live s \<longrightarrow> ((vmas s)(z \<mapsto> v)) a = vmas s a"
    using assms(2) live_mem(1) [OF i] by auto
  have e: "s\<lparr>vmas := (vmas s)(z \<mapsto> v)\<rparr> = wst s ((vmas s)(z \<mapsto> v)) (root (vma_tree s)) (lock (vma_tree s))"
    by (simp add: wst_def)
  show "pinv (s\<lparr>vmas := (vmas s)(z \<mapsto> v)\<rparr>)" "live (s\<lparr>vmas := (vmas s)(z \<mapsto> v)\<rparr>) = live s"
    unfolding e using user_inv(1) [OF i h] live_wst [OF i h] unfolding pinv_def by blast+
qed

lemma self_inv:
  assumes "pool_inv_with s F L G" and "q \<in> dom (mpools s)" "q \<noteq> NULL"
  shows "pool_inv_with (s\<lparr>self := q\<rparr>) F L G"
  using assms by (simp add: pool_inv_with_def os_contract_def)

lemma gather_inv:
  assumes i: "pool_inv_with s F L G"
  shows "\<exists>s'. vma_gpool_gather s = Inr ((), s') \<and> pool_inv_with s' F L G \<and> vmas s' = vmas s"
proof -
  obtain m where m: "mpools s (self s) = Some m" "self s \<noteq> NULL" using invD(4,5) [OF i] unfolding dom_def by blast
  have l: "lock_idle (openmp s) (gp_lock (S_gpool s))" using invD(2) [OF i] by (simp add: locks_ok_def)
  have "vma_gpool_gather s = Inr ((), s\<lparr>S_gpool := (S_gpool s)\<lparr>gp_mlctr := gp_mlctr (S_gpool s) + mp_lctr m\<rparr>\<rparr>)"
    using m l by (simp add: vma_gpool_gather_def gp_LOCK_GET_def gp_with_lock_def get_gp_def upd_gp_def liftE_def bnd_def
        LOCK_GET_run get_mp_def rd_mp_def released_got)
  then show ?thesis using i by (simp add: pool_inv_with_def locks_ok_def os_contract_def)
qed

lemma astep_inv:
  assumes "astep c e c'" and "pinv (fst c)" and "live (fst c) = snd c"
  shows "pinv (fst c') \<and> live (fst c') = snd c'"
  using assms
proof (cases rule: astep.cases)
  case (Alloc s z s' H)
  then have "pinv s" "live s = H" using assms by simp_all
  then show ?thesis using va.pool_alloc [of s] Alloc by (auto split: if_splits)
next
  case (Free z H s s')
  then have s: "pinv s" "live s = H" using assms by simp_all
  obtain F L G where i: "pool_inv_with s F L G" using s(1) unfolding pinv_def by blast
  have z: "z \<in> live s" using Free s by simp
  have nl: "\<not> (openmp s \<and> last_of s z)" using free_total(1) [OF i z] Free by auto
  obtain s2 F' L' G' where r: "vma_free z s = Inr ((), s2)" "pool_inv_with s2 F' L' G'" "freed (vmas s) (blocks s) F z (vmas s2) (blocks s2) F'"
    using free_total(2) [OF i z nl] by blast
  have "live s2 = live s - {z}" using r(3) live_used [OF i] live_used [OF r(2)] by (simp add: freed_def)
  then show ?thesis using r Free s by (auto simp: pinv_def)
next
  case (Write z H s v)
  then show ?thesis using write_inv [of s z v] assms by simp
next
  case (Thread q s H)
  then have s: "pinv s" "live s = H" using assms by simp_all
  obtain F L G where i: "pool_inv_with s F L G" using s(1) unfolding pinv_def by blast
  note j = self_inv [OF i Thread(4,5)]
  show ?thesis using j live_used [OF i] live_used [OF j] Thread s unfolding pinv_def by auto
next
  case (Gather s s' H)
  then have s: "pinv s" "live s = H" using assms by simp_all
  obtain F L G where i: "pool_inv_with s F L G" using s(1) unfolding pinv_def by blast
  obtain s2 where r: "vma_gpool_gather s = Inr ((), s2)" "pool_inv_with s2 F L G" "vmas s2 = vmas s" using gather_inv [OF i] by blast
  show ?thesis using r live_used [OF i] live_used [OF r(2)] Gather s unfolding pinv_def by auto
qed

lemma areach_inv: "areach c \<Longrightarrow> pinv (fst c) \<and> live (fst c) = snd c"
proof (induction rule: areach.induct)
  case (start s s')
  then show ?case using start_inv [of s s'] by simp
next
  case (step c e c')
  then show ?case using astep_inv by blast
qed

subsection \<open>No two areas overlap\<close>

lemma vma_at_bounds: "placed p \<Longrightarrow> vma_at p a \<Longrightarrow> unat p \<le> unat a \<and> unat a + 72 \<le> unat p + 262144"
  using unat_nth_area unfolding vma_at_iff by fastforce

lemma same_superblock:
  assumes "placed p" and "vma_at p a" "vma_at p b" and "a \<noteq> b"
  shows "unat a + 72 \<le> unat b \<or> unat b + 72 \<le> unat a"
proof -
  obtain i j where a: "i < 63" "j < 56" "a = nth_area (nth_block p i) j" using assms(2) unfolding vma_at_iff by blast
  obtain k l where b: "k < 63" "l < 56" "b = nth_area (nth_block p k) l" using assms(3) unfolding vma_at_iff by blast
  have u: "unat a = unat p + 4096 * (i + 1) + (64 + 72 * j)" "unat b = unat p + 4096 * (k + 1) + (64 + 72 * l)"
    using unat_nth_area [OF assms(1)] a b by simp_all
  have jl: "72 * j \<le> 3960" "72 * l \<le> 3960" using a(2) b(2) by simp_all
  consider "i = k" "j < l" | "i = k" "l < j" | "i < k" | "k < i" using assms(4) a b by (metis linorder_neqE_nat)
  then show ?thesis
  proof cases
    case 1
    then show ?thesis using u by simp
  next
    case 2
    then show ?thesis using u by simp
  next
    case 3
    then have "4096 * (i + 1) + 4096 \<le> 4096 * (k + 1)" by simp
    then show ?thesis using u jl by linarith
  next
    case 4
    then have "4096 * (k + 1) + 4096 \<le> 4096 * (i + 1)" by simp
    then show ?thesis using u jl by linarith
  qed
qed

lemma areas_apart:
  assumes i: "pool_inv_with s F L G" and a: "a \<in> dom (vmas s)" "b \<in> dom (vmas s)" "a \<noteq> b"
  shows "unat a + 72 \<le> unat b \<or> unat b + 72 \<le> unat a"
proof -
  have m: "mem_ok (vmas s) (blocks s) (superblocks s)" using invD(1) [OF i] by (simp add: shape_def)
  obtain p q where p: "p \<in> dom (superblocks s)" "vma_at p a" and q: "q \<in> dom (superblocks s)" "vma_at q b"
    using m a by (auto simp: mem_ok_def)
  have pl: "placed p" "placed q" using m p q by (simp_all add: mem_ok_def)
  show ?thesis
  proof (cases "p = q")
    case True
    then show ?thesis using same_superblock pl p q a by blast
  next
    case False
    then have "apart p q" using m p q by (simp add: mem_ok_def)
    then show ?thesis using vma_at_bounds [OF pl(1) p(2)] vma_at_bounds [OF pl(2) q(2)] by (auto simp: apart_def)
  qed
qed


subsection \<open>Memory goes back to the system\<close>

text \<open>Every superblock holds an area in use, so that memory without areas in use is not kept.\<close>

lemma superblock_in_use:
  assumes i: "pool_inv_with s F L G" and p: "p \<in> dom (superblocks s)"
  shows "\<exists>z \<in> live s. sb_of s z = p"
proof -
  note sh = invD(1) [OF i]
  note D = shapeD [OF sh]
  have "length (L (Sb p)) < card {b. block_at p b}" using D(5) p card_blocks(2) [of p] by (fastforce simp: global_ok_def)
  then obtain b where b: "block_at p b" "b \<notin> set (L (Sb p))" using some_not_taken card_blocks(1) by blast
  have bd: "b \<in> dom (blocks s)" "bsb (blocks s) b = p" using memD(5) [OF D(1) b(1) p] by auto
  have "length (F b) \<noteq> 56" using placedD(2) [OF D(4) bd(1), of "Sb p"] b(2) bd(2) by (auto simp: loc_def)
  then obtain z where "z \<in> used (vmas s) F" "S_vma_2block z = b" using used_in_block [OF sh bd(1)] by blast
  then show ?thesis using live_used [OF i] bd(2) unfolding sb_of_def by blast
qed

lemma alone_last:
  assumes i: "pool_inv_with s F L G" and z: "z \<in> live s" and alone: "\<forall>x \<in> live s. x \<noteq> z \<longrightarrow> sb_of s x \<noteq> sb_of s z"
  shows "last_of s z"
proof -
  note sh = invD(1) [OF i]
  note D = shapeD [OF sh]
  let ?k = "S_vma_2block z" and ?bm = "blocks s"
  define p where "p = sb_of s z"
  note zu = used_block [OF D(1) z [unfolded live_used [OF i]]]
  have pb: "p \<in> dom (superblocks s)" "block_at p ?k" using memD(1) [OF D(1) zu(1)] by (simp_all add: p_def sb_of_def)
  have free: "areas b - {z} \<subseteq> set (F b)" if b: "b \<in> dom ?bm" "bsb ?bm b = p" for b
  proof
    fix a assume a: "a \<in> areas b - {z}"
    then have m: "a \<in> dom (vmas s)" "S_vma_2block a = b" using memD(2) [OF D(1) b(1)] by auto
    then have "sb_of s a = sb_of s z" using b(2) by (simp add: sb_of_def p_def)
    then have "a \<notin> used (vmas s) F" using a alone live_used [OF i] by blast
    then show "a \<in> set (F b)" using m by (simp add: used_def)
  qed
  have len: "card X \<le> length xs" if "X \<subseteq> set xs" for X :: "addr set" and xs
    using that by (meson card_length card_mono finite_set le_trans)
  have "55 \<le> length (F ?k)" using len [OF free [OF zu(1)]] zu(3) card_areas [of ?k] by (simp add: p_def sb_of_def)
  then have "unat (bvc ?bm ?k) = 1"
    using block_ok_put(1) [OF D(2) [OF zu(1)] zu(3,4)] D(2) [OF zu(1)] by (simp add: block_ok_def)
  moreover have "{b. block_at p b} - {?k} \<subseteq> set (L (Sb p))"
  proof
    fix b assume b: "b \<in> {b. block_at p b} - {?k}"
    have bd: "b \<in> dom ?bm" "bsb ?bm b = p" using memD(5) [OF D(1) _ pb(1)] b by auto
    have "z \<notin> areas b" using memD(2) [OF D(1) bd(1)] b by blast
    then have "card (areas b) \<le> length (F b)" using len [OF free [OF bd]] by simp
    moreover have "unat (bvc ?bm b) + length (F b) = 56" using D(2) [OF bd(1)] by (simp add: block_ok_def)
    ultimately have "length (F b) = 56" using card_areas(2) [of b] by simp
    then show "b \<in> set (L (Sb p))" using placedD(2) [OF D(4) bd(1), of "Sb p"] bd(2) by (simp add: loc_def)
  qed
  then have "card ({b. block_at p b} - {?k}) \<le> length (L (Sb p))" by (rule len)
  then have "62 \<le> length (L (Sb p))" using pb(2) card_blocks [of p] by simp
  then have "unat (sbc (superblocks s) p) = 1" using D(5) pb(1) by (fastforce simp: global_ok_def)
  ultimately show ?thesis unfolding last_of_def p_def sb_of_def by (metis unsigned_1 word_unat_eq_iff)
qed

text \<open>Another area in use lies in the same superblock as \<open>z\<close>.\<close>

definition shared_superblock :: "'y ast_scheme \<Rightarrow> addr set \<Rightarrow> addr \<Rightarrow> bool" where
  "shared_superblock s H z \<longleftrightarrow> (\<exists>x \<in> H. x \<noteq> z \<and> sb_of s x = sb_of s z)"

lemma last_iff: "pool_inv_with s F L G \<Longrightarrow> z \<in> live s \<Longrightarrow> last_of s z \<longleftrightarrow> \<not> shared_superblock s (live s) z"
  using alone_last not_last unfolding shared_superblock_def by blast

lemma areachE:
  assumes "areach (s, H)"
  obtains F L G where "pool_inv_with s F L G" "pinv s" "live s = H"
  using areach_inv [OF assms] unfolding pinv_def by auto

lemma areach_live:
  assumes "areach (s, H)"
  obtains F L G where "pool_inv_with s F L G" "live s = H"
  using areachE [OF assms] .

text \<open>The bytes of two areas do not overlap.\<close>

definition separate :: "addr \<Rightarrow> addr \<Rightarrow> bool" where
  "separate a b \<longleftrightarrow> unat a + unat sizeof_vm_area \<le> unat b \<or> unat b + unat sizeof_vm_area \<le> unat a"

lemma sizeof_72: "unat sizeof_vm_area = 72"
  by (simp add: sizeof_vm_area_def)

lemma live_dom: "pool_inv_with s F L G \<Longrightarrow> z \<in> live s \<Longrightarrow> z \<in> dom (vmas s)"
  using live_mem(1) by blast

lemma live_separate: "pool_inv_with s F L G \<Longrightarrow> a \<in> live s \<Longrightarrow> b \<in> live s \<Longrightarrow> a \<noteq> b \<Longrightarrow> separate a b"
  using areas_apart live_dom unfolding separate_def sizeof_72 by blast

subsection \<open>A first run\<close>

text \<open>
  Two threads, whose pools lie at \<open>0x50\<close> and \<open>0x60\<close>, and a system with room for two superblocks.
\<close>

definition two_places :: "addr set \<Rightarrow> addr" where
  "two_places A = (if \<forall>q \<in> A. apart 0x100000 q then 0x100000 else if \<forall>q \<in> A. apart 0x200000 q then 0x200000 else NULL)"

lemma two_places_one: "two_places {p} \<noteq> NULL"
  by (auto simp: two_places_def apart_def)

definition no_area :: vm_area where
  "no_area = \<lparr>vm_next = NULL, vm_prev = NULL, sp_p = NULL, sp_l = NULL, sp_r = NULL, vm_flags = 0, vm_start = NULL,
     vm_end = NULL, vm_lock = Uninit\<rparr>"

definition no_pool :: mpool where
  "no_pool = \<lparr>mp_lctr = 0, mp_lock = Uninit, mp_head = NULL\<rparr>"

definition boot :: "bool \<Rightarrow> ast" where
  "boot omp = \<lparr>openmp = omp, OOC_PAGE_SIZE = 4096, vmas = Map.empty, vma_tree = \<lparr>root = NULL, lock = Unlocked\<rparr>, frame_n = 0x40,
     blocks = Map.empty, superblocks = Map.empty, mpools = [0x50 \<mapsto> no_pool, 0x60 \<mapsto> no_pool], S_init = (\<lambda>_. 0), self = 0x50,
     S_gpool = \<lparr>gp_actr = 7, gp_lctr = 7, gp_mlctr = 7, gp_blctr = 7, gp_slctr = 7, gp_lock = Uninit, gp_head = NULL\<rparr>,
     os_alloc = (\<lambda>A n. two_places A), os_calls = 0,
     os_vma = (\<lambda>_. no_area),
     os_blk = (\<lambda>_. \<lparr>b_vctr = 0, b_lctr = 0, b_lock = Uninit, b_head = NULL, b_superblock = NULL, b_mpool = NULL, b_prev = NULL, b_next = NULL\<rparr>),
     os_sb = (\<lambda>_. \<lparr>sb_bctr = 0, sb_lctr = 0, sb_blctr = 0, sb_lock = Uninit, sb_head = NULL, sb_prev = NULL, sb_next = NULL\<rparr>)\<rparr>"

definition ready :: "bool \<Rightarrow> ast" where
  "ready omp = (boot omp)\<lparr>S_gpool := \<lparr>gp_actr = 0, gp_lctr = 0, gp_mlctr = 0, gp_blctr = 0, gp_slctr = 0,
     gp_lock = released omp Uninit, gp_head = NULL\<rparr>\<rparr>"

lemma boot_booted: "booted (boot omp)"
  by (auto simp: booted_def boot_def os_contract_def placed_def vma_at_unat two_places_def Let_def)

lemma boot_init: "vma_gpool_init (boot omp) = Inr ((), ready omp)"
  by (simp add: gpool_init_run boot_def ready_def)

lemma ready_reach: "areach (ready omp, {})"
  using areach.start [OF boot_booted boot_init] .

lemma ready_avail: "avail (ready omp)"
  by (simp add: avail_def grants_def ready_def boot_def two_places_def)

text \<open>The state after the first allocation.\<close>

lemma first_alloc:
  obtains z s where "vma_alloc (ready omp) = Inr (z, s)" "z \<noteq> NULL" "areach (s, {z})" "openmp s = omp"
proof -
  obtain F L G where i: "pool_inv_with (ready omp) F L G" "pinv (ready omp)" "live (ready omp) = {}" by (rule areachE [OF ready_reach])
  obtain z s where r: "vma_alloc (ready omp) = Inr (z, s)" "same_env (ready omp) s" "z \<noteq> NULL"
    using va.pool_alloc [OF i(2)] ready_avail by blast
  have "areach (s, {z})" using areach.step [OF ready_reach astep.Alloc [OF r(1)]] r(3) by simp
  then show thesis using that r by (simp add: same_env_def ready_def boot_def)
qed

text \<open>There is room for more.\<close>

lemma first_alloc_avail:
  assumes "vma_alloc (ready omp) = Inr (y, s)"
  shows "y \<noteq> NULL" and "areach (s, {y})" and "avail s"
proof -
  obtain F L G where i: "pool_inv_with (ready omp) F L G" "live (ready omp) = {}" by (rule areach_live [OF ready_reach])
  obtain F' L' G' where r: "pool_inv_with s F' L' G'" "kin (ready omp) s" "alloc_spec (ready omp) F y s F'"
    using alloc_total [OF i(1)] assms by auto
  show y: "y \<noteq> NULL" using r(3) ready_avail by (auto simp: alloc_spec_def)
  show re: "areach (s, {y})" using areach.step [OF ready_reach astep.Alloc [OF assms]] y by simp
  have li: "live s = {y}" using areach_inv [OF re] by simp
  have "dom (superblocks s) = {sb_of s y}"
    using superblock_in_use [OF r(1)] live_mem(3) [OF r(1)] memD(1) [OF shapeD(1) [OF invD(1) [OF r(1)]]] unfolding li sb_of_def by fastforce
  moreover have "os_alloc s = (\<lambda>A n. two_places A)" using r(2) by (simp add: kin_def ready_def boot_def)
  ultimately show "avail s" using two_places_one by (simp add: avail_def grants_def)
qed

lemma second_alloc:
  obtains y z and s :: ast where "areach (s, {y, z})" "y \<noteq> z"
proof -
  obtain F L G where i: "pool_inv_with (ready False) F L G" "live (ready False) = {}" by (rule areach_live [OF ready_reach])
  obtain y s where r: "vma_alloc (ready False) = Inr (y, s)" using alloc_total [OF i(1)] by blast
  note f = first_alloc_avail [OF r]
  obtain z s2 where p: "vma_alloc s = Inr (z, s2)" "z \<noteq> NULL" "z \<notin> live s"
    using va.pool_alloc [of s] areach_inv [OF f(2)] f(3) by (auto split: if_splits)
  have "areach (s2, insert z {y})" using areach.step [OF f(2) astep.Alloc [OF p(1)]] p(2) by simp
  then show thesis using that [of s2 y z] p(3) areach_inv [OF f(2)] by (simp add: insert_commute)
qed

subsection \<open>The properties of the allocator\<close>

text \<open>C15: from every reachable state \<open>vma_alloc\<close> returns (no assertion fails, no lock is misused,
  no loop runs forever). It returns \<open>NULL\<close> exactly when no memory is available; otherwise the area overlaps
  no area in use, and the contents of the areas in use are unchanged.\<close>

theorem alloc_total_and_fresh:
  assumes "areach (s, H)"
  shows "\<exists>z s'. vma_alloc s = Inr (z, s') \<and> areach (s', if z = NULL then H else insert z H) \<and>
     (z = NULL \<longleftrightarrow> \<not> avail s) \<and> (z \<noteq> NULL \<longrightarrow> z \<notin> H \<and> (\<forall>a \<in> H. separate a z)) \<and> (\<forall>a \<in> H. vmas s' a = vmas s a)"
proof -
  obtain F L G where i: "pool_inv_with s F L G" "pinv s" "live s = H" by (rule areachE [OF assms])
  obtain z s' F' L' G' where r: "vma_alloc s = Inr (z, s')" and i': "pool_inv_with s' F' L' G'" and sp: "alloc_spec s F z s' F'"
    using alloc_total [OF i(1)] by blast
  have re: "areach (s', if z = NULL then H else insert z H)" using areach.step [OF assms astep.Alloc [OF r]] .
  obtain z2 s2 where p: "vma_alloc s = Inr (z2, s2)" "\<forall>a \<in> live s. vmas s2 a = vmas s a"
      "if z2 = NULL then live s2 = live s else z2 \<notin> live s \<and> live s2 = insert z2 (live s)"
    using va.pool_alloc [OF i(2)] by blast
  then have e: "z2 = z" "s2 = s'" using r by simp_all
  have n: "z = NULL \<longleftrightarrow> \<not> avail s" using sp by (auto simp: alloc_spec_def split: if_splits)
  have "z \<notin> H \<and> (\<forall>a \<in> H. separate a z)" if z: "z \<noteq> NULL"
  proof -
    have "z \<notin> H" "live s' = insert z H" using p(3) e z i(3) by simp_all
    then show ?thesis using live_separate [OF i'] by blast
  qed
  then show ?thesis using r re n p(2) e i(3) by blast
qed

theorem alloc_total_and_fresh_witness:
  "\<exists>z s'. vma_alloc (ready True) = Inr (z, s') \<and> z \<noteq> NULL \<and> areach (s', {z})"
proof -
  obtain z s' where r: "vma_alloc (ready True) = Inr (z, s')" "areach (s', if z = NULL then {} else {z})"
      "z = NULL \<longleftrightarrow> \<not> avail (ready True)"
    using alloc_total_and_fresh [OF ready_reach [of True]] by blast
  then show ?thesis using ready_avail [of True] by (intro exI [of _ z] exI [of _ s']) simp
qed

text \<open>C16: freeing an area in use succeeds whenever its superblock has another area in use, or the build
  is without OpenMP; afterwards that area, and no other, is free.\<close>

theorem free_returns_the_area:
  assumes "areach (s, H)" and "z \<in> H" and "\<not> openmp s \<or> shared_superblock s H z"
  shows "\<exists>s'. vma_free z s = Inr ((), s') \<and> areach (s', H - {z}) \<and> (\<forall>a \<in> H - {z}. vmas s' a = vmas s a)"
proof -
  obtain F L G where i: "pool_inv_with s F L G" "pinv s" "live s = H" by (rule areachE [OF assms(1)])
  have nl: "\<not> (openmp s \<and> last_of s z)" using assms(2,3) last_iff [OF i(1)] i(3) by blast
  have z: "z \<in> live s" using assms(2) i(3) by simp
  obtain s' F' L' G' where r: "vma_free z s = Inr ((), s')" "freed (vmas s) (blocks s) F z (vmas s') (blocks s') F'"
    using free_total(2) [OF i(1) z nl] by blast
  have "areach (s', H - {z})" using areach.step [OF assms(1) astep.Free [OF assms(2) r(1)]] .
  moreover have "\<forall>a \<in> H - {z}. vmas s' a = vmas s a" using r(2) live_used [OF i(1)] i(3) by (simp add: freed_def)
  ultimately show ?thesis using r(1) by blast
qed

theorem free_returns_the_area_witness:
  "\<exists>z s s'. vma_alloc (ready False) = Inr (z, s) \<and> vma_free z s = Inr ((), s') \<and> areach (s', {})"
proof -
  obtain z s where r: "vma_alloc (ready False) = Inr (z, s)" "areach (s, {z})" "openmp s = False" using first_alloc by metis
  obtain s' where "vma_free z s = Inr ((), s')" "areach (s', {z} - {z})"
    using free_returns_the_area [OF r(2), of z] r(3) by blast
  then show ?thesis using r(1) by auto
qed

text \<open>C17: with OpenMP, freeing the last area in use of a superblock unsets the lock of the superblock
  twice: \<open>S_block_unlock_and_return\<close> releases it before it calls \<open>S_superblock_unlock_and_put\<close>, which
  releases it again.\<close>

theorem free_last_unsets_twice:
  assumes "areach (s, H)" and "z \<in> H" and "openmp s" and "\<not> shared_superblock s H z"
  shows "vma_free z s = Inl BadLock"
proof -
  obtain F L G where i: "pool_inv_with s F L G" "live s = H" by (rule areach_live [OF assms(1)])
  have z: "z \<in> live s" using assms(2) i(2) by simp
  have "last_of s z" using last_iff [OF i(1) z] assms(4) i(2) by simp
  then show ?thesis using free_total(1) [OF i(1) z assms(3)] by simp
qed

theorem free_last_unsets_twice_witness:
  "\<exists>z s. vma_alloc (ready True) = Inr (z, s) \<and> vma_free z s = Inl BadLock"
proof -
  obtain z s where r: "vma_alloc (ready True) = Inr (z, s)" "areach (s, {z})" "openmp s" using first_alloc by metis
  have "\<not> shared_superblock s {z} z" by (simp add: shared_superblock_def)
  then have "vma_free z s = Inl BadLock" using free_last_unsets_twice [OF r(2) _ r(3)] by blast
  then show ?thesis using r(1) by blast
qed

text \<open>C19: in every reachable state the superblocks that the allocator holds are those of the areas in use;
  in particular, when nothing is in use all memory has gone back to the system.\<close>

theorem superblocks_in_use:
  assumes "areach (s, H)"
  shows "dom (superblocks s) = sb_of s ` H \<and>
     (H = {} \<longrightarrow> superblocks s = Map.empty \<and> blocks s = Map.empty \<and> vmas s = Map.empty)"
proof (intro conjI impI)
  obtain F L G where i: "pool_inv_with s F L G" "live s = H" by (rule areach_live [OF assms])
  note D = shapeD [OF invD(1) [OF i(1)]]
  have "sb_of s z \<in> dom (superblocks s)" if z: "z \<in> H" for z
    using memD(1) [OF D(1)] live_mem(3) [OF i(1)] z i(2) by (simp add: sb_of_def)
  moreover have "dom (superblocks s) \<subseteq> sb_of s ` H" using superblock_in_use [OF i(1)] unfolding i(2) by blast
  ultimately show e: "dom (superblocks s) = sb_of s ` H" by (intro equalityI) auto
  assume "H = {}"
  then have d: "dom (superblocks s) = {}" using e by simp
  then have "dom (blocks s) = {}" "dom (vmas s) = {}" using D(1) by (simp_all add: mem_ok_def)
  then show "superblocks s = Map.empty" "blocks s = Map.empty" "vmas s = Map.empty" using d by simp_all
qed

theorem superblocks_in_use_witness:
  "\<exists>z s s'. vma_alloc (ready False) = Inr (z, s) \<and> dom (superblocks s) = {sb_of s z} \<and>
     vma_free z s = Inr ((), s') \<and> superblocks s' = Map.empty"
proof -
  obtain z s where r: "vma_alloc (ready False) = Inr (z, s)" "areach (s, {z})" "openmp s = False" using first_alloc by metis
  obtain F L G where i: "pool_inv_with s F L G" "live s = {z}" by (rule areach_live [OF r(2)])
  have z: "z \<in> live s" using i(2) by simp
  obtain s' where f: "vma_free z s = Inr ((), s')" using free_total(2) [OF i(1) z] r(3) by blast
  have "areach (s', {})" using areach.step [OF r(2) astep.Free [OF _ f]] by simp
  then have "superblocks s' = Map.empty" using superblocks_in_use by blast
  then show ?thesis using superblocks_in_use [OF r(2)] r(1) f by auto
qed

text \<open>C20: the areas in use are objects in memory, none of them at \<open>NULL\<close>, and no two of them overlap.\<close>

theorem areas_in_use_separate:
  assumes "areach (s, H)" and "a \<in> H" and "b \<in> H" and "a \<noteq> b"
  shows "a \<noteq> NULL \<and> vmas s a \<noteq> None \<and> separate a b"
proof -
  obtain F L G where i: "pool_inv_with s F L G" "live s = H" by (rule areach_live [OF assms(1)])
  then have l: "a \<in> live s" "b \<in> live s" using assms by simp_all
  have "vmas s a \<noteq> None" "a \<noteq> NULL" using live_dom [OF i(1) l(1)] live_mem(2) [OF i(1)] l(1) by (simp_all add: domIff) metis
  then show ?thesis using live_separate [OF i(1) l assms(4)] by simp
qed

theorem areas_in_use_separate_witness:
  "\<exists>y z s. areach (s :: ast, {y, z}) \<and> y \<noteq> z \<and> y \<noteq> NULL \<and> separate y z"
proof -
  obtain y z and s :: ast where r: "areach (s, {y, z})" "y \<noteq> z" by (rule second_alloc)
  show ?thesis using areas_in_use_separate [OF r(1) _ _ r(2)] r by blast
qed

end
