(* ===== verification/Table_Trace.thy ===== *)
theory Table_Trace
  imports Find_Mod Alloc_Trace
begin

section \<open>Runs of the page table\<close>

text \<open>
  The page table of \<open>sp_tree.c\<close> together with the allocator that supplies its nodes, as a transition
  system: areas are allocated, filled in and inserted, looked up, and removed again. It is refined from
  a map from areas to intervals, in which a lookup returns the area of the interval that holds the
  address.
\<close>

subsection \<open>The operations\<close>

datatype tevent = Map addr addr addr | Unmap addr | Lookup addr addr

definition free_range :: "heap \<Rightarrow> addr set \<Rightarrow> addr \<Rightarrow> addr \<Rightarrow> bool" where
  "free_range h A st en \<longleftrightarrow> st < en \<and> (\<forall>a \<in> A. end_of h a \<le> st \<or> en \<le> start_of h a)"

inductive tstep :: "'y ast_scheme \<times> addr set \<Rightarrow> tevent \<Rightarrow> 'y ast_scheme \<times> addr set \<Rightarrow> bool" where
  Map: "vma_alloc s = Inr (z, s1) \<Longrightarrow> z \<noteq> NULL \<Longrightarrow> free_range (vmas s) A st en \<Longrightarrow>
    upd_vma z (\<lambda>v. v\<lparr>vm_flags := f, vm_start := st, vm_end := en\<rparr>) s1 = Inr ((), s2) \<Longrightarrow>
    sp_tree_insert z s2 = Inr ((), s') \<Longrightarrow> tstep (s, A) (Map z st en) (s', insert z A)"
| Unmap: "z \<in> A \<Longrightarrow> sp_tree_remove vma_free (start_of (vmas s) z) s = Inr ((), s') \<Longrightarrow>
    tstep (s, A) (Unmap z) (s', A - {z})"
| Lookup: "sp_tree_find_and_lock x s = Inr (a, s1) \<Longrightarrow> upd_lock lock_let a s1 = Inr ((), s') \<Longrightarrow>
    tstep (s, A) (Lookup x a) (s', A)"

inductive treach :: "'y ast_scheme \<times> addr set \<Rightarrow> bool" where
  start: "areach (s, {}) \<Longrightarrow> frame_n s \<noteq> NULL \<Longrightarrow> sp_tree_init s = Inr ((), s') \<Longrightarrow> treach (s', {})"
| step: "treach c \<Longrightarrow> tstep c e c' \<Longrightarrow> treach c'"

subsection \<open>The specification\<close>

type_synonym interval_map = "addr \<rightharpoonup> addr \<times> addr"

definition vacant :: "interval_map \<Rightarrow> addr \<Rightarrow> addr \<Rightarrow> bool" where
  "vacant M st en \<longleftrightarrow> st < en \<and> (\<forall>a b c. M a = Some (b, c) \<longrightarrow> c \<le> st \<or> en \<le> b)"

inductive spec_step :: "interval_map \<Rightarrow> tevent \<Rightarrow> interval_map \<Rightarrow> bool" where
  "z \<notin> dom M \<Longrightarrow> vacant M st en \<Longrightarrow> spec_step M (Map z st en) (M(z \<mapsto> (st, en)))"
| "z \<in> dom M \<Longrightarrow> spec_step M (Unmap z) (M(z := None))"
| "M a = Some (st, en) \<Longrightarrow> st \<le> x \<Longrightarrow> x < en \<Longrightarrow> spec_step M (Lookup x a) M"

inductive_cases spec_LookupE: "spec_step M (Lookup x a) M'"
inductive_cases spec_UnmapE: "spec_step M (Unmap z) M'"

definition intervals :: "'y ast_scheme \<times> addr set \<Rightarrow> interval_map" where
  "intervals c = (\<lambda>a. if a \<in> snd c then Some (start_of (vmas (fst c)) a, end_of (vmas (fst c)) a) else None)"

subsection \<open>The invariant\<close>

definition tinv :: "'y ast_scheme \<Rightarrow> addr set \<Rightarrow> addr tree \<Rightarrow> bool" where
  "tinv s A T \<longleftrightarrow> tab s T \<and> set_tree T = A \<and> ranges (vmas s) (inorder T) \<and> idle_areas s A \<and> pinv s \<and> live s = A"

lemma tinv_start:
  assumes "areach (s, {})" and "frame_n s \<noteq> NULL" and "sp_tree_init s = Inr ((), s')"
  shows "tinv s' {} Leaf"
proof -
  obtain F L G where i: "pool_inv_with s F L G" "pinv s" "live s = {}" by (rule areachE [OF assms(1)])
  have e: "s' = wst s (vmas s) NULL (released (openmp s) (lock (vma_tree s)))"
    using assms(3) by (cases "vma_tree s") (auto simp: sp_tree_init_def bnd_def upd_tree_lock_def lock_init_run wst_def)
  have p: "pinv s'" "live s' = {}" unfolding e using va.pool_user [OF i(2), of "vmas s"] i(3) by simp_all
  have f: "vmas s (frame_n s) = None" using va.pool_mem [OF i(2)] by simp
  have "tab s' Leaf" using f assms(2) by (simp add: e tab_def wf_tab_def dll_def)
  then show ?thesis using p by (simp add: tinv_def ranges_def idle_areas_def)
qed

lemma tinv_facts:
  assumes "tinv s A T"
  shows "A \<subseteq> dom (vmas s)" "NULL \<notin> A" "vmas s (frame_n s) = None" "frame_n s \<noteq> NULL"
    "a \<in> A \<Longrightarrow> lock_idle (openmp s) (lock_of (vmas s) a)"
  using assms va.pool_mem [of s] by (auto simp: tinv_def tab_def idle_areas_def)

lemma free_range_new:
  assumes "free_range h A st en" and "a \<in> A" and "start_of h a < end_of h a"
  shows "start_of h a \<noteq> st"
  using assms by (auto simp: free_range_def)

text \<open>A new area: allocated, filled in, inserted.\<close>

lemma map_run:
  assumes i: "tinv s A T" and r: "vma_alloc s = Inr (z, s1)" "z \<noteq> NULL" and fr: "free_range (vmas s) A st en"
  shows "\<exists>s2 s' T'. upd_vma z (\<lambda>v. v\<lparr>vm_flags := f, vm_start := st, vm_end := en\<rparr>) s1 = Inr ((), s2) \<and>
     sp_tree_insert z s2 = Inr ((), s') \<and> tinv s' (insert z A) T' \<and> z \<notin> A \<and>
     start_of (vmas s') z = st \<and> end_of (vmas s') z = en \<and> same_info (vmas s) (vmas s') A \<and> openmp s' = openmp s \<and>
     avail s' = avail s1 \<and> OOC_PAGE_SIZE s' = OOC_PAGE_SIZE s \<and> root (vma_tree s') = z \<and> os_alloc s' = os_alloc s1 \<and> blocks s' = blocks s1"
proof -
  have t: "tab s T" and A: "set_tree T = A" and rg: "ranges (vmas s) (inorder T)" and p: "pinv s" "live s = A"
    using i by (simp_all add: tinv_def)
  obtain z2 s3 where "vma_alloc s = Inr (z2, s3)" "pinv s3" "same_env s s3" "\<forall>a \<in> live s. vmas s3 a = vmas s a"
      "if z2 = NULL then live s3 = live s else z2 \<notin> live s \<and> live s3 = insert z2 (live s)"
    using va.pool_alloc [OF p(1)] by blast
  then have p1: "pinv s1" and en1: "same_env s s1" and keep: "\<forall>a \<in> A. vmas s1 a = vmas s a" and z: "z \<notin> A" "live s1 = insert z A"
    using r p(2) by auto
  let ?h = "hupd z (\<lambda>v. v\<lparr>vm_flags := f, vm_start := st, vm_end := en\<rparr>) (vmas s1)"
  let ?s2 = "wst s1 ?h (root (vma_tree s1)) (lock (vma_tree s1))"
  have zd: "z \<in> dom (vmas s1)" using va.pool_mem [OF p1] z(2) by blast
  have u: "upd_vma z (\<lambda>v. v\<lparr>vm_flags := f, vm_start := st, vm_end := en\<rparr>) s1 = Inr ((), ?s2)"
    using upd_vma_w [OF zd r(2), of _ s1 "root (vma_tree s1)" "lock (vma_tree s1)"] by (simp add: wst_self)
  have hA: "?h a = vmas s a" if "a \<in> A" for a using that z(1) keep by (auto simp: hupd_def)
  have d: "dom ?h = dom (vmas s1)" using zd by auto
  have p2: "pinv ?s2" "live ?s2 = insert z A" and a2: "avail ?s2 = avail s1"
    using va.pool_user [OF p1 d, of "root (vma_tree s1)" "lock (vma_tree s1)"] z(2) by (simp_all add: hupd_def)
  have env: "vma_tree s1 = vma_tree s" "openmp s1 = openmp s" "frame_n s1 = frame_n s" "OOC_PAGE_SIZE s1 = OOC_PAGE_SIZE s" using en1 by (simp_all add: same_env_def)
  have t2: "tab ?s2 T" unfolding tab_def
    using t A wf_tab_cong [of "vmas s" "root (vma_tree s)" T ?h] hA va.pool_mem [OF p2(1)] env by (simp add: tab_def)
  have si: "same_info (vmas s) ?h A" by (rule same_info_eq) (rule hA)
  have zs: "start_of ?h z = st" "end_of ?h z = en" "lock_of ?h z = lock_of (vmas s1) z" by (simp_all add: view_defs hupd_def)
  have new: "\<forall>a \<in> set_tree T. start_of (vmas ?s2) a \<noteq> start_of (vmas ?s2) z"
  proof
    fix a assume a: "a \<in> set_tree T"
    then have "start_of (vmas s) a < end_of (vmas s) a" using rg by (simp add: ranges_def)
    then have "start_of (vmas s) a \<noteq> st" using free_range_new [OF fr] a A by blast
    then show "start_of (vmas ?s2) a \<noteq> start_of (vmas ?s2) z" using same_infoD(1) [OF si] a A zs by simp
  qed
  obtain h T' where ins: "sp_tree_insert z ?s2 = Inr ((), wst ?s2 h z (lock (vma_tree ?s2)))" and wf: "wf_tab h z T'"
    and k: "kept (node_init (openmp ?s2) z (vmas ?s2)) (insert z (set_tree T)) h"
    and io: "inorder T' = filter (\<lambda>a. start_of (vmas ?s2) a < start_of (vmas ?s2) z) (inorder T) @ z #
       filter (\<lambda>a. start_of (vmas ?s2) z < start_of (vmas ?s2) a) (inorder T)"
    using sp_tree_insert_correct [OF t2 _ r(2) _ new] zd z(1) A d by auto
  let ?s' = "wst ?s2 h z (lock (vma_tree ?s2))"
  have v: "start_of h = start_of ?h" "end_of h = end_of ?h" "flags_of h = flags_of ?h"
    "lock_of h = (lock_of ?h)(z := released (openmp s) (lock_of ?h z))" "dom h = dom ?h"
    using k zd env by (auto simp: kept_def)
  have st: "set_tree T' = insert z A"
  proof -
    have "set (inorder T') = insert z {a \<in> A. start_of ?h a \<noteq> start_of ?h z}" unfolding io using A by auto
    then show ?thesis using new A by (auto simp: set_inorder)
  qed
  have "\<forall>a. a \<notin> live ?s2 \<longrightarrow> h a = vmas ?s2 a" using k p2(2) A node_init_other by (auto simp: kept_def)
  then have p3: "pinv ?s'" "live ?s' = insert z A" and a3: "avail ?s' = avail s1"
    using va.pool_user [OF p2(1), of h z "lock (vma_tree ?s2)"] v(5) p2(2) a2 by simp_all
  have frz: "\<forall>a \<in> set (inorder T). end_of ?h a \<le> st \<or> en \<le> start_of ?h a"
    using fr same_infoD(1,2) [OF si] A by (simp add: free_range_def)
  have "ranges ?h (inorder T)" using rg ranges_cong [of "vmas s" ?h "inorder T"] si A by simp
  have "ranges h (inorder T')" unfolding io wst_sel zs
    by (rule ranges_new_area [OF \<open>ranges ?h (inorder T)\<close> frz]) (use fr z A v zs in \<open>simp_all add: free_range_def fun_eq_iff\<close>)
  moreover have "idle_areas ?s' (insert z A)"
    using i same_infoD(4) [OF si] v(4) z(1) env by (auto simp: idle_areas_def tinv_def)
  moreover have "tab ?s' T'" using wf t2 va.pool_mem [OF p3(1)] by (simp add: tab_def)
  ultimately have "tinv ?s' (insert z A) T'" using p3 st by (simp add: tinv_def)
  moreover have "same_info (vmas s) h A" using si v z(1) by (auto simp: same_info_def)
  ultimately show ?thesis using u ins z(1) v zs env a3 by (intro exI [of _ ?s2] exI [of _ ?s'] exI [of _ T']) (simp add: wst_def)
qed

text \<open>A lookup, and the lock of the area released again.\<close>

lemma lookup_run:
  assumes i: "tinv s A T" and a: "a \<in> A" "covers (vmas s) a x"
  shows "\<exists>s1 s' T'. sp_tree_find_and_lock x s = Inr (a, s1) \<and> upd_lock lock_let a s1 = Inr ((), s') \<and> tinv s' A T' \<and>
     same_info (vmas s) (vmas s') A \<and> openmp s' = openmp s"
proof -
  have t: "tab s T" and A: "set_tree T = A" and rg: "ranges (vmas s) (inorder T)" and p: "pinv s" "live s = A"
    using i by (simp_all add: tinv_def)
  have li: "lock_idle (openmp s) (lock_of (vmas s) a)" using tinv_facts(5) [OF i a(1)] .
  obtain h r where run: "sp_tree_find_and_lock x s = Inr (a, wst s h r (lock (vma_tree s)))"
    and wf: "wf_tab h r (splay (start_of (vmas s)) x T)"
    and k: "kept (hupd a (\<lambda>v. v\<lparr>vm_lock := got (openmp s) (lock_of (vmas s) a)\<rparr>) (vmas s)) (set_tree T) h"
    using sp_tree_find_correct [OF t rg _ a(2) li] a(1) A by blast
  have ad: "a \<in> dom (vmas s)" "a \<noteq> NULL" using tinv_facts(1,2) [OF i] a(1) by auto
  define h2 where "h2 = hupd a (\<lambda>v. v\<lparr>vm_lock := lock_of (vmas s) a\<rparr>) h"
  let ?T = "splay (start_of (vmas s)) x T" and ?s' = "wst s h2 r (lock (vma_tree s))"
  have hv: "dom h = dom (vmas s)" "lock_of h a = got (openmp s) (lock_of (vmas s) a)" using k ad by (auto simp: kept_def)
  have u: "upd_lock lock_let a (wst s h r (lock (vma_tree s))) = Inr ((), ?s')"
    using ad hv released_got [OF li] by (simp add: h2_def any_lock.let_held)
  have v: "start_of h2 = start_of (vmas s)" "end_of h2 = end_of (vmas s)" "flags_of h2 = flags_of (vmas s)"
      "lock_of h2 = lock_of (vmas s)" "dom h2 = dom (vmas s)"
    using k ad by (auto simp: kept_def h2_def fun_eq_iff)
  have o: "\<forall>b. b \<notin> live s \<longrightarrow> h2 b = vmas s b"
  proof (intro allI impI)
    fix b assume "b \<notin> live s"
    then have "b \<notin> set_tree T" "b \<noteq> a" using a(1) A p(2) by auto
    then show "h2 b = vmas s b" using k by (simp add: kept_def h2_def hupd_other)
  qed
  have p2: "pinv ?s'" "live ?s' = A" using va.pool_user [OF p(1) v(5) o] p(2) by simp_all
  have "wf_tab h2 r ?T" unfolding h2_def using wf by (rule wf_tab_lock)
  then have "tab ?s' ?T" using t va.pool_mem [OF p2(1)] by (simp add: tab_def)
  then have "tinv ?s' A ?T" using i p2 v by (simp add: tinv_def A ranges_def idle_areas_def)
  then show ?thesis using run u v by (intro exI [of _ "wst s h r (lock (vma_tree s))"] exI [of _ ?s'] exI [of _ ?T]) (simp add: same_info_def)
qed

text \<open>Removing an area.\<close>

lemma okf_shared: "okf s (live s - {z}) z \<longleftrightarrow> \<not> openmp s \<or> shared_superblock s (live s) z"
  by (auto simp: okf_def shared_superblock_def)

lemma unmap_run:
  assumes i: "tinv s A T" and z: "z \<in> A" and ok: "\<not> openmp s \<or> shared_superblock s A z"
  shows "\<exists>s' T'. sp_tree_remove vma_free (start_of (vmas s) z) s = Inr ((), s') \<and> tinv s' (A - {z}) T' \<and>
     same_info (vmas s) (vmas s') (A - {z}) \<and> openmp s' = openmp s"
proof -
  have t: "tab s T" and A: "set_tree T = A" and rg: "ranges (vmas s) (inorder T)" and p: "pinv s" "live s = A"
    using i by (simp_all add: tinv_def)
  have zT: "z \<in> set_tree T" "set_tree T \<subseteq> live s" "okf s (live s - {z}) z" using z A p(2) ok okf_shared [of s z] by simp_all
  obtain s' T' where r: "sp_tree_remove vma_free (start_of (vmas s) z) s = Inr ((), s')" "tab s' T'" "pinv s'"
      "live s' = live s - {z}" "inorder T' = filter (\<lambda>a. a \<noteq> z) (inorder T)" "openmp s' = openmp s"
      "same_info (vmas s) (vmas s') (live s - {z})"
    using va.remove_correct [OF t p(1) zT(2,1) tinv_facts(5) [OF i z] zT(3)] by (elim exE conjE) (rule that)
  have "set (inorder T') = set (inorder T) - {z}" unfolding r(5) by auto
  then have st: "set_tree T' = A - {z}" using A by (simp add: set_inorder)
  have si: "same_info (vmas s) (vmas s') (A - {z})" using r(7) p(2) by simp
  have "ranges (vmas s) (inorder T')" using rg unfolding r(5) ranges_def by (auto intro: sorted_wrt_filter)
  then have "ranges (vmas s') (inorder T')" using ranges_cong [of "vmas s" "vmas s'" "inorder T'"] si st by simp
  moreover have "idle_areas s' (A - {z})" using i same_infoD(4) [OF si] r(6) by (simp add: idle_areas_def tinv_def)
  ultimately have "tinv s' (A - {z}) T'" using r(2-4) st p(2) by (simp add: tinv_def)
  then show ?thesis using r(1,6) si by blast
qed

text \<open>With OpenMP the removal of the last area of a superblock fails in the allocator.\<close>

lemma unmap_bad:
  assumes i: "tinv s A T" and z: "z \<in> A" and bad: "openmp s" "\<not> shared_superblock s A z"
  shows "sp_tree_remove vma_free (start_of (vmas s) z) s = Inl BadLock"
proof -
  have t: "tab s T" and A: "set_tree T = A" and p: "pinv s" "live s = A" using i by (simp_all add: tinv_def)
  define g where "g = got (openmp s) (lock (vma_tree s))"
  obtain h r where rem: "sp_tree_remove vma_free (start_of (vmas s) z) s =
       bnd (S_sp_node_free vma_free z) (\<lambda>_. upd_tree_lock lock_let) (wst s h r g)"
    and k: "kept (vmas s) (set_tree T) h" and zd: "z \<in> dom h" "z \<noteq> NULL"
    using remove_reach [OF t, of z] z A unfolding g_def by auto
  define k1 where "k1 = (if openmp s then Uninit else lock_of h z)"
  let ?s = "wst s (hupd z (\<lambda>v. v\<lparr>vm_lock := k1\<rparr>) h) r g"
  have l: "lock_free (openmp s) (lock_of h z) = Inr k1"
    using lock_free_run [OF tinv_facts(5) [OF i z]] k by (simp add: k1_def kept_def)
  obtain F L G where inv: "pool_inv_with s F L G" using p(1) unfolding pinv_def by blast
  have d: "dom (hupd z (\<lambda>v. v\<lparr>vm_lock := k1\<rparr>) h) = dom (vmas s)" using k zd by (auto simp: kept_def)
  have o: "\<forall>a. a \<notin> live s \<longrightarrow> hupd z (\<lambda>v. v\<lparr>vm_lock := k1\<rparr>) h a = vmas s a"
  proof (intro allI impI)
    fix b assume "b \<notin> live s"
    then have "b \<notin> set_tree T" "b \<noteq> z" using z A p(2) by auto
    then show "hupd z (\<lambda>v. v\<lparr>vm_lock := k1\<rparr>) h b = vmas s b" using k by (simp add: kept_def hupd_other)
  qed
  have lv: "live ?s = live s" by (rule live_wst [OF inv d o])
  have "last_of s z" using last_iff [OF inv] z p(2) bad(2) by simp
  then have "last_of ?s z" by (simp add: last_of_def)
  then have "vma_free z ?s = Inl BadLock" using free_total(1) [OF user_inv(1) [OF inv d o]] lv z p(2) bad(1) by simp
  then show ?thesis using rem zd l by (simp add: bnd_def S_sp_node_free_def)
qed

subsection \<open>Every reachable state satisfies the invariant\<close>

lemma tstep_inv:
  assumes "tstep (s, A) e (s', A')" and i: "tinv s A T"
  shows "\<exists>T'. tinv s' A' T'"
  using assms(1)
proof (cases rule: tstep.cases)
  case (Map z s1 st en f s2)
  then show ?thesis using map_run [OF i, of z s1 st en f] by auto
next
  case (Unmap z)
  then have "\<not> openmp s \<or> shared_superblock s A z" using unmap_bad [OF i] by fastforce
  then show ?thesis using unmap_run [OF i, of z] Unmap by auto
next
  case (Lookup x a s1)
  then have "\<exists>a \<in> A. covers (vmas s) a x" using sp_tree_find_absent [of s T x] i by (fastforce simp: tinv_def)
  then obtain b where b: "b \<in> A" "covers (vmas s) b x" by blast
  show ?thesis using lookup_run [OF i b] Lookup by auto
qed

lemma treach_inv: "treach c \<Longrightarrow> \<exists>T. tinv (fst c) (snd c) T"
proof (induction rule: treach.induct)
  case (start s s')
  then show ?case using tinv_start by fastforce
next
  case (step c e c')
  then show ?case using tstep_inv by (metis prod.collapse)
qed

subsection \<open>Simulation\<close>

lemma intervals_dom: "dom (intervals (s, A)) = A"
  by (auto simp: intervals_def split: if_splits)

lemma vacant_intervals:
  "vacant (intervals (s, A)) st en \<longleftrightarrow> free_range (vmas s) A st en"
  by (auto simp: vacant_def free_range_def intervals_def split: if_splits)

lemma intervals_same: "same_info (vmas s) (vmas s') A \<Longrightarrow> intervals (s', A) = intervals (s, A)"
  by (auto simp: intervals_def same_info_def fun_eq_iff)

lemma intervals_map:
  assumes "same_info (vmas s) (vmas s') A" and "start_of (vmas s') z = st" and "end_of (vmas s') z = en"
  shows "intervals (s', insert z A) = (intervals (s, A))(z \<mapsto> (st, en))"
  using assms by (auto simp: intervals_def same_info_def fun_eq_iff)

lemma intervals_unmap:
  assumes "same_info (vmas s) (vmas s') (A - {z})"
  shows "intervals (s', A - {z}) = (intervals (s, A))(z := None)"
  using assms by (auto simp: intervals_def same_info_def fun_eq_iff)

lemma map_sim:
  assumes i: "tinv s A T" and fr: "free_range (vmas s) A st en" and r: "vma_alloc s = Inr (z, s1)" "z \<noteq> NULL"
  shows "\<exists>s'. tstep (s, A) (Map z st en) (s', insert z A) \<and> z \<notin> A \<and> openmp s' = openmp s \<and>
     intervals (s', insert z A) = (intervals (s, A))(z \<mapsto> (st, en))"
proof -
  obtain s2 s' T' where "upd_vma z (\<lambda>v. v\<lparr>vm_flags := 0, vm_start := st, vm_end := en\<rparr>) s1 = Inr ((), s2)"
      "sp_tree_insert z s2 = Inr ((), s')" "z \<notin> A" "start_of (vmas s') z = st" "end_of (vmas s') z = en" "same_info (vmas s) (vmas s') A" "openmp s' = openmp s"
    using map_run [OF i r fr, of 0] by blast
  then show ?thesis using tstep.Map [OF r fr] intervals_map by blast
qed

lemma tstep_sim:
  assumes st: "tstep (s, A) e (s', A')" and i: "tinv s A T"
  shows "spec_step (intervals (s, A)) e (intervals (s', A'))"
  using st
proof (cases rule: tstep.cases)
  case (Map z s1 st en f s2)
  obtain s2' s'' where x: "upd_vma z (\<lambda>v. v\<lparr>vm_flags := f, vm_start := st, vm_end := en\<rparr>) s1 = Inr ((), s2')"
      "sp_tree_insert z s2' = Inr ((), s'')" "z \<notin> A" "start_of (vmas s'') z = st" "end_of (vmas s'') z = en" "same_info (vmas s) (vmas s'') A"
    using map_run [OF i Map(3-5), of f] by blast
  then have "intervals (s', A') = (intervals (s, A))(z \<mapsto> (st, en))" using Map intervals_map by simp
  then show ?thesis using spec_step.intros(1) [of z "intervals (s, A)" st en] x(3) Map by (simp add: intervals_dom vacant_intervals)
next
  case (Unmap z)
  then have "\<not> openmp s \<or> shared_superblock s A z" using unmap_bad [OF i] by fastforce
  then obtain T2 where "same_info (vmas s) (vmas s') (A - {z})" using unmap_run [OF i Unmap(3)] Unmap(4) by auto
  then have "intervals (s', A') = (intervals (s, A))(z := None)" using Unmap intervals_unmap by simp
  then show ?thesis using spec_step.intros(2) [of z "intervals (s, A)"] Unmap by (simp add: intervals_dom)
next
  case (Lookup x a s1)
  have "\<exists>a \<in> A. covers (vmas s) a x"
    using sp_tree_find_absent [of s T x] i Lookup(3) by (fastforce simp: tinv_def)
  then obtain b where b: "b \<in> A" "covers (vmas s) b x" by blast
  obtain s1' s'' where "sp_tree_find_and_lock x s = Inr (b, s1')" "upd_lock lock_let b s1' = Inr ((), s'')" "same_info (vmas s) (vmas s'') A"
    using lookup_run [OF i b] by blast
  then have e: "a = b" "intervals (s', A') = intervals (s, A)" using Lookup intervals_same by simp_all
  have "intervals (s, A) b = Some (start_of (vmas s) b, end_of (vmas s) b)" using b(1) by (simp add: intervals_def)
  then have "spec_step (intervals (s, A)) (Lookup x b) (intervals (s, A))" by (rule spec_step.intros(3)) (use b(2) in \<open>simp_all add: covers_def\<close>)
  then show ?thesis using e Lookup(1) by simp
qed

subsection \<open>A first run\<close>

lemma ready_table: "treach (ready omp, {})"
proof (rule treach.start [OF ready_reach])
  show "frame_n (ready omp) \<noteq> NULL" by (simp add: ready_def boot_def)
  show "sp_tree_init (ready omp) = Inr ((), ready omp)"
    by (simp add: sp_tree_init_def bnd_def upd_tree_lock_def lock_init_run ready_def boot_def released_def)
qed

lemma one_area:
  assumes "st < en"
  obtains z s where "tstep (ready omp, {}) (Map z st en) (s, {z})" "treach (s, {z})" "intervals (s, {z}) = [z \<mapsto> (st, en)]" "openmp s = omp"
proof -
  obtain T where i: "tinv (ready omp) {} T" using treach_inv [OF ready_table, of omp] by auto
  obtain z s1 where r: "vma_alloc (ready omp) = Inr (z, s1)" "z \<noteq> NULL" by (rule first_alloc)
  obtain s where m: "tstep (ready omp, {}) (Map z st en) (s, {z})" "intervals (s, {z}) = (intervals (ready omp, {}))(z \<mapsto> (st, en))"
      "openmp s = openmp (ready omp)"
    using map_sim [OF i _ r, of st en] assms by (auto simp: free_range_def)
  have "intervals (ready omp, {}) = Map.empty" by (simp add: intervals_def)
  then show thesis using that [OF m(1) treach.step [OF ready_table m(1)]] m(2,3) by (simp add: ready_def boot_def)
qed

subsection \<open>The properties of the page table\<close>

text \<open>C6: in every reachable state, each operation of the page table is a step of the interval map: an
  insertion adds its interval, a removal removes one, and a lookup that returns has found the area
  whose interval holds the address and has changed nothing.\<close>

theorem table_refines_interval_map:
  assumes "treach c" and "tstep c e c'"
  shows "spec_step (intervals c) e (intervals c')"
proof -
  obtain s A s' A' where c: "c = (s, A)" "c' = (s', A')" by (cases c, cases c')
  obtain T where "tinv s A T" using treach_inv [OF assms(1)] c by auto
  then show ?thesis using tstep_sim assms(2) c by simp
qed

theorem table_refines_interval_map_witness:
  "\<exists>z s. tstep (ready True, {}) (Map z 0x1000 0x3000) (s, {z}) \<and>
     spec_step Map.empty (Map z 0x1000 0x3000) (intervals (s, {z}))"
proof -
  obtain z s where m: "tstep (ready True, {}) (Map z 0x1000 0x3000) (s, {z})" by (rule one_area [of "0x1000" "0x3000" True]) simp
  have "intervals (ready True, {}) = Map.empty" by (simp add: intervals_def)
  then show ?thesis using table_refines_interval_map [OF ready_table m] m by auto
qed

text \<open>C7: a lookup of an address inside a mapped interval always returns the area of that interval,
  locked, after finitely many steps, and the lock can be released again.\<close>

theorem lookup_finds_every_mapped_address:
  assumes "treach (s, A)" and "intervals (s, A) a = Some (st, en)" and "st \<le> x" and "x < en"
  shows "\<exists>s1 s'. sp_tree_find_and_lock x s = Inr (a, s1) \<and> lock_held (openmp s1) (lock_of (vmas s1) a) \<and>
     upd_lock lock_let a s1 = Inr ((), s') \<and> treach (s', A) \<and> intervals (s', A) = intervals (s, A)"
proof -
  obtain T where i: "tinv s A T" using treach_inv [OF assms(1)] by auto
  have a: "a \<in> A" "covers (vmas s) a x" using assms(2-4) by (auto simp: intervals_def covers_def split: if_splits)
  obtain s1 s' where r: "sp_tree_find_and_lock x s = Inr (a, s1)" "upd_lock lock_let a s1 = Inr ((), s')" "same_info (vmas s) (vmas s') A"
    using lookup_run [OF i a] by blast
  have "lock_held (openmp s1) (lock_of (vmas s1) a)"
    using r(2) by (auto simp: upd_lock_def bnd_def rd_vma_def lock_of_def lock_let_def lock_held_def split: sum.splits if_splits option.splits)
  then show ?thesis using r treach.step [OF assms(1) tstep.Lookup [OF r(1,2)]] intervals_same by blast
qed

theorem lookup_finds_every_mapped_address_witness:
  "\<exists>z s s1. tstep (ready True, {}) (Map z 0x1000 0x3000) (s, {z}) \<and> sp_tree_find_and_lock 0x2fff s = Inr (z, s1)"
proof -
  obtain z s where m: "tstep (ready True, {}) (Map z 0x1000 0x3000) (s, {z})" "treach (s, {z})" "intervals (s, {z}) = [z \<mapsto> (0x1000, 0x3000)]"
    by (rule one_area [of "0x1000" "0x3000" True]) simp
  show ?thesis using lookup_finds_every_mapped_address [OF m(2), of z "0x1000" "0x3000" "0x2fff"] m(1,3) by auto
qed

text \<open>C8: removing a mapped area gives its node back to the allocator, unless OpenMP is on and the node
  is the last one of its superblock, when the allocator unsets a lock twice.\<close>

theorem remove_gives_the_area_back:
  assumes "treach (s, A)" and "z \<in> A"
  shows "if openmp s \<and> \<not> shared_superblock s A z then sp_tree_remove vma_free (start_of (vmas s) z) s = Inl BadLock
     else \<exists>s'. sp_tree_remove vma_free (start_of (vmas s) z) s = Inr ((), s') \<and> treach (s', A - {z}) \<and>
       live s' = live s - {z} \<and> intervals (s', A - {z}) = (intervals (s, A))(z := None)"
proof -
  obtain T where i: "tinv s A T" using treach_inv [OF assms(1)] by auto
  show ?thesis
  proof (cases "openmp s \<and> \<not> shared_superblock s A z")
    case True
    then show ?thesis using unmap_bad [OF i assms(2)] by simp
  next
    case False
    then obtain s' T' where r: "sp_tree_remove vma_free (start_of (vmas s) z) s = Inr ((), s')" "tinv s' (A - {z}) T'" "same_info (vmas s) (vmas s') (A - {z})"
      using unmap_run [OF i assms(2)] by blast
    then have "live s' = live s - {z}" using i by (simp add: tinv_def)
    then show ?thesis using False r intervals_unmap treach.step [OF assms(1) tstep.Unmap [OF assms(2) r(1)]] by auto
  qed
qed

theorem remove_gives_the_area_back_witness:
  "\<exists>z s s'. tstep (ready False, {}) (Map z 0x1000 0x3000) (s, {z}) \<and>
     sp_tree_remove vma_free (start_of (vmas s) z) s = Inr ((), s') \<and> live s' = {}"
proof -
  obtain z s where m: "tstep (ready False, {}) (Map z 0x1000 0x3000) (s, {z})" "treach (s, {z})"
      "openmp s = False" by (rule one_area [of "0x1000" "0x3000" False]) simp
  obtain T where i: "live s = {z}" using treach_inv [OF m(2)] by (auto simp: tinv_def)
  obtain s' where "sp_tree_remove vma_free (start_of (vmas s) z) s = Inr ((), s')" "live s' = live s - {z}"
    using remove_gives_the_area_back [OF m(2), of z] m(3) by auto
  then show ?thesis using m(1) i by auto
qed

text \<open>C9: the areas of the table form a search tree and a doubly linked list in the order of their
  addresses, their intervals are disjoint, and none of them is locked between operations.\<close>

theorem table_is_an_ordered_list:
  assumes "treach (s, A)"
  shows "\<exists>T. wf_tab (vmas s) (root (vma_tree s)) T \<and> set_tree T = A \<and> dll (fnx (vmas s)) (fpv (vmas s)) (inorder T) \<and>
     sorted_wrt (\<lambda>a b. end_of (vmas s) a \<le> start_of (vmas s) b) (inorder T) \<and>
     (\<forall>a \<in> A. start_of (vmas s) a < end_of (vmas s) a \<and> lock_idle (openmp s) (lock_of (vmas s) a))"
proof -
  obtain T where i: "tinv s A T" using treach_inv [OF assms] by auto
  then show ?thesis by (intro exI [of _ T]) (auto simp: tinv_def tab_def wf_tab_def ranges_def idle_areas_def)
qed

theorem table_is_an_ordered_list_witness:
  "\<exists>z s T. tstep (ready True, {}) (Map z 0x1000 0x3000) (s, {z}) \<and> wf_tab (vmas s) (root (vma_tree s)) T \<and> set_tree T = {z}"
proof -
  obtain z s where m: "tstep (ready True, {}) (Map z 0x1000 0x3000) (s, {z})" "treach (s, {z})"
    by (rule one_area [of "0x1000" "0x3000" True]) simp
  show ?thesis using table_is_an_ordered_list [OF m(2)] m(1) by blast
qed

end
