(* ===== verification/Table_Claims.thy ===== *)
theory Table_Claims
  imports Table_Trace
begin

section \<open>Properties of the page table's operations\<close>

text \<open>
  Properties of single operations of \<open>sp_tree.c\<close> on an arbitrary well-formed table, and of
  \<open>sp_tree_free\<close> on every reachable one. The samples are a table of three areas and runs of the
  allocator.
\<close>

subsection \<open>A table of three areas\<close>

definition sample_area :: "addr \<Rightarrow> addr \<Rightarrow> addr \<Rightarrow> addr \<Rightarrow> addr \<Rightarrow> 64 word \<Rightarrow> addr \<Rightarrow> addr \<Rightarrow> lock_t \<Rightarrow> vm_area" where
  "sample_area nx pv p l r f st en lck = \<lparr>vm_next = nx, vm_prev = pv, sp_p = p, sp_l = l, sp_r = r,
     vm_flags = f, vm_start = st, vm_end = en, vm_lock = lck\<rparr>"

definition three_areas :: st where
  "three_areas = \<lparr>openmp = True, OOC_PAGE_SIZE = 4096,
     vmas = [0x10 \<mapsto> sample_area 0x20 NULL 0x20 NULL NULL VM_PROT_READ 0x1000 0x2000 Unlocked,
             0x20 \<mapsto> sample_area 0x30 0x10 NULL 0x10 0x30 VM_PROT_READ 0x3000 0x4000 Unlocked,
             0x30 \<mapsto> sample_area NULL 0x20 0x20 NULL NULL VM_PROT_READ 0x5000 0x8000 Unlocked],
     vma_tree = \<lparr>root = 0x20, lock = Unlocked\<rparr>, frame_n = 0x40\<rparr>"

definition three_tree :: "addr tree" where
  "three_tree = Node (Node Leaf 0x10 Leaf) 0x20 (Node Leaf 0x30 Leaf)"

lemmas sample_defs = three_areas_def three_tree_def sample_area_def view_defs

lemma three_tab: "tab three_areas three_tree"
  by (simp add: tab_def wf_tab_def sample_defs dll_def lock_idle_def domIff)

lemma three_ranges: "ranges (vmas three_areas) (inorder three_tree)"
  by (simp add: ranges_def sample_defs)

subsection \<open>Splaying\<close>

lemma three_wf: "wf_tab (vmas three_areas) 0x20 three_tree"
  using three_tab by (simp add: tab_def three_areas_def)

text \<open>C10: \<open>S_sp_tree_splay\<close> returns on every search tree, after finitely many rounds of its
  loop and without touching anything but links: the tree it leaves is the functional top-down splay
  of the tree it got, with the same areas in the same order, and the areas left of the new root
  start below the address, those right of it above.\<close>

theorem splay_brings_the_address_to_the_root:
  assumes "wf_tab (vmas s) t T" and "T \<noteq> Leaf" and "vmas s (frame_n s) = None" and "frame_n s \<noteq> NULL"
  shows "\<exists>h t' A B. S_sp_tree_splay x t s = Inr (t', s\<lparr>vmas := h\<rparr>) \<and> wf_tab h t' (splay (start_of (vmas s)) x T) \<and>
     moved (vmas s) (set_tree T) h \<and> splay (start_of (vmas s)) x T = Node A t' B \<and> inorder A @ t' # inorder B = inorder T \<and>
     (\<forall>a \<in> set_tree A. start_of (vmas s) a < x) \<and> (\<forall>b \<in> set_tree B. x < start_of (vmas s) b)"
proof -
  obtain h t' where r: "S_sp_tree_splay x t (wst s (vmas s) (root (vma_tree s)) (lock (vma_tree s))) =
       Inr (t', wst s h (root (vma_tree s)) (lock (vma_tree s)))"
    and wf: "wf_tab h t' (splay (start_of (vmas s)) x T)" and m: "moved (vmas s) (set_tree T) h"
    using splay_wf [OF assms(1,3,4)] by blast
  obtain A a B where n: "splay (start_of (vmas s)) x T = Node A a B" using assms(2) by (metis splay_Leaf_iff neq_Leaf_iff)
  have "sorted_by (start_of (vmas s)) (inorder T)" using assms(1) by (simp add: wf_tab_def)
  note nb = splay_neighbours [OF n this]
  have "t' = a" using wf n by (auto simp: wf_tab_def)
  moreover have "inorder A @ a # inorder B = inorder T" using inorder_splay [of "start_of (vmas s)" x T] n by simp
  moreover have "wst s h (root (vma_tree s)) (lock (vma_tree s)) = s\<lparr>vmas := h\<rparr>" by (simp add: wst_def)
  ultimately show ?thesis using r wf m n nb
    by (intro exI [of _ h] exI [of _ t'] exI [of _ A] exI [of _ B]) (simp add: wst_self)
qed

theorem splay_brings_the_address_to_the_root_witness:
  "\<exists>h. S_sp_tree_splay 0x6000 0x20 three_areas = Inr (0x30, three_areas\<lparr>vmas := h\<rparr>)"
proof -
  have e: "splay (start_of (vmas three_areas)) 0x6000 three_tree = Node (Node (Node Leaf 0x10 Leaf) 0x20 Leaf) 0x30 Leaf"
    by (simp add: sample_defs splay_def splay_abs.simps)
  show ?thesis
    using splay_brings_the_address_to_the_root [OF three_wf, of "0x6000"] unfolding e
    by (force simp: three_tree_def three_areas_def)
qed

subsection \<open>Lookups that fail\<close>

text \<open>C11: a lookup of an address that no area covers never returns: the assertion on the end of the
  area fails, except when the address lies below every area of a non-empty table, where
  \<open>vm_prev\<close> of the first area, a NULL pointer, is dereferenced before the assertion on it.\<close>

theorem lookup_of_unmapped_address_stops:
  assumes "tab s T" and "\<forall>a \<in> set_tree T. \<not> covers (vmas s) a x"
  shows "sp_tree_find_and_lock x s =
     Inl (if T = Leaf \<or> (\<exists>a \<in> set_tree T. start_of (vmas s) a \<le> x) then AssertFail else NullDeref)"
  using assms by (rule sp_tree_find_absent)

theorem lookup_of_unmapped_address_stops_witness:
  "sp_tree_find_and_lock 0x4800 three_areas = Inl AssertFail \<and> sp_tree_find_and_lock 0x800 three_areas = Inl NullDeref"
  using lookup_of_unmapped_address_stops [OF three_tab, of "0x4800"] lookup_of_unmapped_address_stops [OF three_tab, of "0x800"]
  by (simp add: sample_defs covers_def)

subsection \<open>Freeing the whole table\<close>

lemma root_in:
  assumes "tinv s A T"
  shows "root (vma_tree s) = NULL \<longleftrightarrow> A = {}" "root (vma_tree s) \<noteq> NULL \<Longrightarrow> root (vma_tree s) \<in> A"
proof -
  have "wf_tab (vmas s) (root (vma_tree s)) T" and A: "set_tree T = A" using assms by (simp_all add: tinv_def tab_def)
  then have tr: "tree_at (fl (vmas s)) (fr (vmas s)) (fp (vmas s)) (root (vma_tree s)) T" by (simp add: wf_tab_def)
  show "root (vma_tree s) = NULL \<longleftrightarrow> A = {}" "root (vma_tree s) \<noteq> NULL \<Longrightarrow> root (vma_tree s) \<in> A"
    using tr A by (cases T; auto)+
qed

lemma free_iter_root:
  assumes i: "tinv s A T" and ne: "A \<noteq> {}"
  shows "sp_tree_free_iter vma_free () s =
     bnd (sp_tree_remove vma_free (start_of (vmas s) (root (vma_tree s)))) (\<lambda>_. ret (Continue ())) s"
proof -
  have r: "root (vma_tree s) \<noteq> NULL" "root (vma_tree s) \<in> dom (vmas s)" using root_in [OF i] ne tinv_facts(1) [OF i] by auto
  then have "get_field vm_start (root (vma_tree s)) s = Inr (start_of (vmas s) (root (vma_tree s)), s)"
    by (auto simp: start_of_def)
  then show ?thesis using r by (simp add: sp_tree_free_iter_def bnd_def)
qed

lemma free_loop_all:
  assumes "tinv s A T" and "treach (s, A)"
  shows "if openmp s \<and> A \<noteq> {} then forever (sp_tree_free_iter vma_free) () s = Inl BadLock
     else \<exists>s'. forever (sp_tree_free_iter vma_free) () s = Inr ((), s') \<and> tinv s' {} Leaf \<and> treach (s', {})"
  using assms
proof (induction "card A" arbitrary: s A T)
  case 0
  have "finite A" using "0.prems"(1) by (auto simp: tinv_def)
  then have A: "A = {}" using 0(1) by simp
  have "root (vma_tree s) = NULL" using root_in(1) [OF "0.prems"(1)] A by simp
  then have "forever (sp_tree_free_iter vma_free) () s = Inr ((), s)"
    by (intro forever_Break) (simp add: sp_tree_free_iter_def bnd_def)
  moreover have "T = Leaf" using "0.prems"(1) A by (simp add: tinv_def)
  ultimately show ?case using "0.prems" A by simp
next
  case (Suc n)
  note i = Suc.prems(1)
  let ?z = "root (vma_tree s)"
  have ne: "A \<noteq> {}" using Suc(2) by auto
  have z: "?z \<in> A" using root_in [OF i] ne by blast
  show ?case
  proof (cases "openmp s \<and> \<not> shared_superblock s A ?z")
    case True
    then have "sp_tree_free_iter vma_free () s = Inl BadLock"
      unfolding free_iter_root [OF i ne] using unmap_bad [OF i z] by (simp add: bnd_def)
    then show ?thesis using True ne by (simp add: forever_unfold)
  next
    case False
    then obtain s' T' where r: "sp_tree_remove vma_free (start_of (vmas s) ?z) s = Inr ((), s')" "tinv s' (A - {?z}) T'" "openmp s' = openmp s"
      using unmap_run [OF i z] by blast
    have c: "forever (sp_tree_free_iter vma_free) () s = forever (sp_tree_free_iter vma_free) () s'"
      by (rule forever_Continue) (unfold free_iter_root [OF i ne], simp add: bnd_def r(1))
    have re: "treach (s', A - {?z})" using treach.step [OF Suc.prems(2) tstep.Unmap [OF z r(1)]] .
    have n: "n = card (A - {?z})" using Suc(2) z by simp
    have o: "openmp s \<Longrightarrow> A - {?z} \<noteq> {}" using False by (auto simp: shared_superblock_def)
    show ?thesis using Suc.hyps(1) [OF n r(2) re] c r(3) o ne by auto
  qed
qed

lemma sp_tree_free_outcome:
  assumes "treach (s, A)"
  shows "if openmp s \<and> A \<noteq> {} then sp_tree_free vma_free s = Inl BadLock
     else \<exists>s'. sp_tree_free vma_free s = Inr ((), s') \<and> root (vma_tree s') = NULL \<and> live s' = {} \<and> superblocks s' = Map.empty"
proof -
  obtain T where i: "tinv s A T" using treach_inv [OF assms] by auto
  show ?thesis
  proof (cases "openmp s \<and> A \<noteq> {}")
    case True
    then show ?thesis using free_loop_all [OF i assms] by (simp add: sp_tree_free_def bnd_def)
  next
    case False
    then obtain s' where r: "forever (sp_tree_free_iter vma_free) () s = Inr ((), s')" "tinv s' {} Leaf"
      using free_loop_all [OF i assms] by auto
    have l: "lock_idle (openmp s') (lock (vma_tree s'))" "pinv s'" "live s' = {}" "root (vma_tree s') = NULL"
      using r(2) root_in(1) [OF r(2)] by (simp_all add: tinv_def tab_def)
    obtain F L G where inv: "pool_inv_with s' F L G" using l(2) unfolding pinv_def by blast
    have "superblocks s' = Map.empty" using superblock_in_use [OF inv] l(3) by auto
    moreover obtain k where k: "upd_tree_lock lock_free s' = Inr ((), s'\<lparr>vma_tree := (vma_tree s')\<lparr>lock := k\<rparr>\<rparr>)"
      using lock_free_run [OF l(1)] by (simp add: upd_tree_lock_def)
    moreover have "s'\<lparr>vma_tree := (vma_tree s')\<lparr>lock := k\<rparr>\<rparr> = wst s' (vmas s') (root (vma_tree s')) k"
      by (cases "vma_tree s'") (simp add: wst_def)
    then have "live (s'\<lparr>vma_tree := (vma_tree s')\<lparr>lock := k\<rparr>\<rparr>) = {}"
      using va.pool_user [OF l(2), of "vmas s'" "root (vma_tree s')" k] l(3) by simp
    ultimately show ?thesis using False r(1) l(4) by (simp add: sp_tree_free_def bnd_def)
  qed
qed

text \<open>C14: without OpenMP, \<open>sp_tree_free\<close> of any reachable table ends, gives every area back, and all memory of the
  allocator has then gone back to the system; with OpenMP it does so for an empty table only, and on any
  other table the allocator unsets a lock twice.\<close>

theorem free_table_gives_everything_back:
  assumes "treach (s, A)"
  shows "if openmp s \<and> A \<noteq> {} then sp_tree_free vma_free s = Inl BadLock
     else \<exists>s'. sp_tree_free vma_free s = Inr ((), s') \<and> root (vma_tree s') = NULL \<and> live s' = {} \<and> superblocks s' = Map.empty"
  using assms by (rule sp_tree_free_outcome)

theorem free_table_gives_everything_back_witness:
  "\<exists>z s s'. tstep (ready False, {}) (Map z 0x1000 0x3000) (s, {z}) \<and> sp_tree_free vma_free s = Inr ((), s') \<and>
     superblocks s' = Map.empty"
proof -
  obtain z s where m: "tstep (ready False, {}) (Map z 0x1000 0x3000) (s, {z})" "treach (s, {z})" "openmp s = False"
    by (rule one_area [of "0x1000" "0x3000" False]) simp
  show ?thesis using free_table_gives_everything_back [OF m(2)] m(1,3) by auto
qed

end
