(* ===== verification/Fault_Claims.thy ===== *)
theory Fault_Claims
  imports Table_Claims
begin

section \<open>Raising the protection of a page\<close>

text \<open>
  What \<open>sp_tree_find_mod_and_lock\<close> does: the branch for a page that no area holds is correct on every reachable
  table; the branches for a page inside of an area are not, which the last section shows on small tables.
\<close>

subsection \<open>A page that no area holds\<close>

text \<open>The next page is free to be mapped.\<close>

definition absent_page :: "'y ast_scheme \<Rightarrow> addr set \<Rightarrow> addr \<Rightarrow> bool" where
  "absent_page s A x \<longleftrightarrow> x < x + OOC_PAGE_SIZE s \<and>
     (\<forall>a \<in> A. \<not> covers (vmas s) a x \<and> (x < start_of (vmas s) a \<longrightarrow> x + OOC_PAGE_SIZE s \<le> start_of (vmas s) a))"

text \<open>
  Under OpenMP, giving back the last area of a superblock unsets locks twice, so that no superblock may come to hold a single area:
  each holds two areas of the table at least, and the area to come will share a superblock with another one.
\<close>

definition superblocks_shared :: "'y ast_scheme \<Rightarrow> addr set \<Rightarrow> bool" where
  "superblocks_shared s A \<longleftrightarrow> (cached s \<or> gp_head (S_gpool s) \<noteq> NULL) \<and> (\<forall>a \<in> A. shared_superblock s A a)"

text \<open>C13: on a reachable, non-empty table, when memory for an area is available and, under OpenMP, no superblock would come
  to hold a single area, \<open>sp_tree_find_mod_and_lock\<close> of a page that no area holds returns an area that holds the page. The page is now readable,
  and every other address keeps its protection, although neighbouring areas may have been merged. Under OpenMP the lock of the area is
  set, and those of all other areas and of the table are not.\<close>

theorem absent_page_becomes_readable:
  assumes "treach (s, A)" and "A \<noteq> {}" and "avail s" and "absent_page s A x" and "openmp s \<Longrightarrow> superblocks_shared s A"
  shows "\<exists>n s' T. sp_tree_find_mod_and_lock vma_alloc vma_free x s = Inr (n, s') \<and>
     wf_tab (vmas s') (root (vma_tree s')) T \<and> ranges (vmas s') (inorder T) \<and> set_tree T \<subseteq> live s' \<and> n \<in> set_tree T \<and>
     (openmp s \<longrightarrow> lock_of (vmas s') n = Locked \<and> (\<forall>a \<in> set_tree T - {n}. lock_of (vmas s') a = Unlocked) \<and> lock (vma_tree s') = Unlocked) \<and>
     (\<forall>p. x \<le> p \<and> p < x + OOC_PAGE_SIZE s \<longrightarrow> covers (vmas s') n p) \<and>
     (\<forall>p f. maps (vmas s') (set_tree T) p f \<longleftrightarrow>
        (if x \<le> p \<and> p < x + OOC_PAGE_SIZE s then f = VM_PROT_READ else maps (vmas s) A p f))"
proof -
  obtain T where i: "tinv s A T" using treach_inv [OF assms(1)] by auto
  then have T: "set_tree T = A" "T \<noteq> Leaf" "live s = A" using assms(2) by (auto simp: tinv_def)
  have ok: "\<forall>a \<in> A. okf s (live s - {a}) a" unfolding okf_shared using assms(5) T(3) by (auto simp: superblocks_shared_def)
  have pre: "fault_pre pinv live okf s T x"
    using i assms(4) ok by (auto simp: fault_pre_def tinv_def absent_page_def)
  have none: "\<forall>a \<in> set_tree T. \<not> covers (vmas s) a x" using assms(4) T by (simp add: absent_page_def)
  have "roomy s" using assms(5) by (auto simp: roomy_def superblocks_shared_def)
  then obtain n s' T' where r: "sp_tree_find_mod_and_lock vma_alloc vma_free x s = Inr (n, s')" "fault_post pinv live s T x VM_PROT_READ n s' T'"
    using vma_pool.find_mod_absent [OF va.vma_pool_axioms pre assms(3) _ T(2) none] by blast
  have "openmp s' = openmp s" using r(2) by (simp add: fault_post_def env_eq_def)
  then have lk: "openmp s \<longrightarrow> lock_of (vmas s') n = Locked \<and> (\<forall>a \<in> set_tree T' - {n}. lock_of (vmas s') a = Unlocked) \<and> lock (vma_tree s') = Unlocked"
    using r(2) by (auto simp: fault_post_def tab_def idle_areas_def lock_held_def lock_idle_def)
  note f = r(2) [unfolded fault_post_def tab_def T(1)]
  show ?thesis by (rule exI [of _ n], rule exI [of _ s'], rule exI [of _ T']) (use r(1) f lk in \<open>elim conjE, intro conjI\<close>)
qed

text \<open>Two areas of one superblock, in the build with OpenMP.\<close>

lemma few_areas_roomy:
  assumes p: "pinv s" and c: "live s \<noteq> {}" "finite (live s)" "card (live s) < 63"
  shows "gp_head (S_gpool s) \<noteq> NULL"
proof
  assume g: "gp_head (S_gpool s) = NULL"
  obtain F L G where i: "pool_inv_with s F L G" using p unfolding pinv_def by blast
  note sh = invD(1) [OF i]
  note D = shapeD [OF sh]
  obtain q where q: "q \<in> dom (superblocks s)" using c(1) live_mem(3) [OF i] memD(1) [OF D(1)] by blast
  have "dl (snx (superblocks s)) (spv (superblocks s)) NULL G" using D(5) g by (simp add: global_ok_def)
  then have "G = []" using dl_facts by (cases G) fastforce+
  then have L: "L (Sb q) = []" using D(5) q by (simp add: global_ok_def)
  have "\<exists>a \<in> live s. S_vma_2block a = b" if b: "block_at q b" for b
  proof -
    have bd: "b \<in> dom (blocks s)" "bsb (blocks s) b = q" using memD(5) [OF D(1) b q] by auto
    have "length (F b) \<noteq> 56" using placedD(2) [OF D(4) bd(1), of "Sb q"] bd(2) L by (auto simp: loc_def)
    then show ?thesis using used_in_block [OF sh bd(1)] live_used [OF i] by simp
  qed
  then have "{b. block_at q b} \<subseteq> S_vma_2block ` live s" by blast
  then have "63 \<le> card (live s)" using card_blocks(2) [of q] surj_card_le [OF c(2)] by metis
  then show False using c(3) by simp
qed

lemma map_area:
  fixes s :: "'y ast_scheme"
  assumes i: "tinv s A T" and re: "treach (s, A)" and av: "avail s" and fr: "free_range (vmas s) A st en"
  obtains z and s' :: "'y ast_scheme" and T' where "treach (s', insert z A)" "tinv s' (insert z A) T'" "z \<notin> A" "start_of (vmas s') z = st" "end_of (vmas s') z = en"
    "same_info (vmas s) (vmas s') A" "openmp s' = openmp s" "OOC_PAGE_SIZE s' = OOC_PAGE_SIZE s" "roomy s \<Longrightarrow> openmp s \<Longrightarrow> shared_superblock s' (insert z A) z"
proof -
  have p: "pinv s" "live s = A" using i by (simp_all add: tinv_def)
  obtain z and s1 :: "'y ast_scheme" where r: "vma_alloc s = Inr (z, s1)" "z \<noteq> NULL" "live s1 = insert z A" "z \<notin> A" "openmp s1 = openmp s" "roomy s \<longrightarrow> okf s1 A z"
    using va.pool_alloc [OF p(1)] av p(2) by (auto simp: same_env_def)
  obtain s2 s' :: "'y ast_scheme" and T' where m: "upd_vma z (\<lambda>v. v\<lparr>vm_flags := 0, vm_start := st, vm_end := en\<rparr>) s1 = Inr ((), s2)" "sp_tree_insert z s2 = Inr ((), s')"
      "tinv s' (insert z A) T'" "start_of (vmas s') z = st" "end_of (vmas s') z = en" "same_info (vmas s) (vmas s') A" "openmp s' = openmp s"
      "OOC_PAGE_SIZE s' = OOC_PAGE_SIZE s" "blocks s' = blocks s1"
    using map_run [OF i r(1,2) fr, of 0] by (elim exE conjE) (rule that)
  have "sb_of s' = sb_of s1" by (rule ext) (simp only: sb_of_def m(9))
  then have "shared_superblock s' (insert z A) z" if "roomy s" "openmp s" using r(5,6) that by (auto simp: okf_def shared_superblock_def)
  then show thesis using that [OF treach.step [OF re tstep.Map [OF r(1,2) fr m(1,2)]] m(3) r(4) m(4-8)] by blast
qed

lemma two_areas:
  obtains y z and s :: ast where "treach (s, {z, y})" "openmp s" "avail s" "superblocks_shared s {z, y}" "OOC_PAGE_SIZE s = 4096"
    "start_of (vmas s) y = 0x1000" "end_of (vmas s) y = 0x3000" "start_of (vmas s) z = 0x4000" "end_of (vmas s) z = 0x8000"
proof -
  obtain T where i: "tinv (ready True) {} T" using treach_inv [OF ready_table, of True] by auto
  have fr: "free_range (vmas (ready True)) {} 0x1000 0x3000" by (simp add: free_range_def)
  obtain y and s1 :: ast and T1 where 1: "treach (s1, {y})" "tinv s1 {y} T1" "start_of (vmas s1) y = 0x1000" "end_of (vmas s1) y = 0x3000"
      "openmp s1" "OOC_PAGE_SIZE s1 = 4096"
    by (rule map_area [OF i ready_table ready_avail fr]) (simp add: ready_def boot_def)
  have g1: "gp_head (S_gpool s1) \<noteq> NULL" by (rule few_areas_roomy) (use 1(2) in \<open>simp_all add: tinv_def\<close>)
  then have av1: "avail s1" "roomy s1" by (simp_all add: avail_def grants_def roomy_def)
  have fr1: "free_range (vmas s1) {y} 0x4000 0x8000" using 1(3,4) by (simp add: free_range_def)
  obtain z and s2 :: ast and T2 where 2: "treach (s2, {z, y})" "tinv s2 {z, y} T2" "z \<notin> {y}" "start_of (vmas s2) z = 0x4000" "end_of (vmas s2) z = 0x8000"
      "same_info (vmas s1) (vmas s2) {y}" "openmp s2 = openmp s1" "OOC_PAGE_SIZE s2 = OOC_PAGE_SIZE s1"
      "roomy s1 \<Longrightarrow> openmp s1 \<Longrightarrow> shared_superblock s2 {z, y} z"
    by (rule map_area [OF 1(2,1) av1(1) fr1]) (rule that)
  have "card {z, y} < 63" using card_insert_le [of "{z, y}"] by (simp add: card_insert_if)
  then have g2: "gp_head (S_gpool s2) \<noteq> NULL" by (intro few_areas_roomy) (use 2(2) in \<open>simp_all add: tinv_def\<close>)
  have "shared_superblock s2 {z, y} z" using 2(9) av1 1(5) by blast
  then have "superblocks_shared s2 {z, y}" using g2 2(3) by (auto simp: superblocks_shared_def shared_superblock_def)
  moreover have "start_of (vmas s2) y = 0x1000" "end_of (vmas s2) y = 0x3000" using 2(6) 1(3,4) by (simp_all add: same_info_def)
  moreover have "avail s2" using g2 by (simp add: avail_def grants_def)
  ultimately show thesis using that [OF 2(1)] 2(4,5,7,8) 1(5,6) by simp
qed

theorem absent_page_becomes_readable_witness:
  "\<exists>y z (s :: ast) n s' T. treach (s, {z, y}) \<and> sp_tree_find_mod_and_lock vma_alloc vma_free 0x8000 s = Inr (n, s') \<and>
     lock_of (vmas s') n = Locked \<and> maps (vmas s') (set_tree T) 0x8800 VM_PROT_READ"
proof -
  obtain y z and s :: ast where z: "treach (s, {z, y})" "openmp s" "avail s" "superblocks_shared s {z, y}" "OOC_PAGE_SIZE s = 4096"
    "start_of (vmas s) y = 0x1000" "end_of (vmas s) y = 0x3000" "start_of (vmas s) z = 0x4000" "end_of (vmas s) z = 0x8000"
    by (rule two_areas)
  have "absent_page s {z, y} 0x8000" using z(5-9) by (simp add: absent_page_def covers_def)
  from absent_page_becomes_readable [OF z(1) insert_not_empty z(3) this z(4)]
  obtain n s' T where r: "sp_tree_find_mod_and_lock vma_alloc vma_free 0x8000 s = Inr (n, s')" "lock_of (vmas s') n = Locked"
      "\<forall>p f. maps (vmas s') (set_tree T) p f \<longleftrightarrow> (if 0x8000 \<le> p \<and> p < 0x8000 + OOC_PAGE_SIZE s then f = VM_PROT_READ else maps (vmas s) {z, y} p f)"
    using z(2) by blast
  then have "maps (vmas s') (set_tree T) 0x8800 VM_PROT_READ" using z(5) by simp
  then show ?thesis using z(1) r(1,2) by blast
qed

subsection \<open>Pages inside of an area\<close>

text \<open>Three areas as before, two spare nodes, and an allocator that hands out the spare nodes with whatever they hold.\<close>

definition spare :: vm_area where
  "spare = sample_area NULL NULL NULL NULL NULL 0xBAD NULL NULL Unlocked"

definition with_spares :: "st \<Rightarrow> st" where
  "with_spares s = s\<lparr>vmas := (vmas s)(0x50 \<mapsto> spare, 0x60 \<mapsto> spare)\<rparr>"

definition take_spare :: "(st, addr) prog" where
  "take_spare = bnd (get_field vm_end 0x50) (\<lambda>e. ret (if e = 0 then 0x50 else 0x60))"

definition fault :: "addr \<Rightarrow> (st, addr) prog" where
  "fault x = bnd (sp_tree_find_mod_and_lock take_spare (\<lambda>_. ret ()) x) (\<lambda>n. bnd (upd_lock lock_let n) (\<lambda>_. ret n))"

text \<open>
  The middle of an area: the splayed tree is not stored in \<open>sp->root\<close> before the two new areas are inserted there, so that an
  area of the table is lost: an address that could be looked up before no longer can be.
\<close>

lemma split_loses_an_area:
  "map_sum id fst (sp_tree_find_and_lock 0x5000 (with_spares three_areas)) = Inr 0x30 \<and>
   bnd (fault 0x6000) (\<lambda>_. sp_tree_find_and_lock 0x5000) (with_spares three_areas) = Inl AssertFail"
  by code_simp

text \<open>The first page of an area: the flags of the new area are never set.\<close>

lemma split_leaves_flags_unset:
  "map_sum id fst (bnd (fault 0x5000) (get_field vm_flags) (with_spares three_areas)) = Inr 0xBAD"
  by code_simp

text \<open>The whole area: its protection is not raised.\<close>

lemma whole_area_keeps_its_flags:
  "map_sum id fst (bnd (fault 0x3000) (get_field vm_flags) (with_spares three_areas)) = Inr VM_PROT_READ"
  by code_simp

text \<open>The whole first area, next to another one: the flags of the area before it are read, which does not exist.\<close>

definition two_adjacent :: st where
  "two_adjacent = three_areas\<lparr>vmas :=
     [0x10 \<mapsto> sample_area 0x20 NULL 0x20 NULL NULL VM_PROT_READ 0x1000 0x2000 Unlocked,
      0x20 \<mapsto> sample_area NULL 0x10 NULL 0x10 NULL VM_PROT_READ 0x2000 0x3000 Unlocked]\<rparr>"

lemma merge_reads_the_wrong_neighbour:
  "fault 0x1000 (with_spares two_adjacent) = Inl NullDeref"
  by code_simp

text \<open>Raising the protection of a writable page leaves the two bits that there are.\<close>

lemma promote_leaves_the_flags: "VM_PROT_PROMOTE VM_PROT_NONE = VM_PROT_READ" "VM_PROT_PROMOTE VM_PROT_READ = VM_PROT_WRITE" "VM_PROT_PROMOTE VM_PROT_WRITE = 7"
  by (simp_all add: VM_PROT_PROMOTE_def VM_PROT_NONE_def VM_PROT_READ_def VM_PROT_WRITE_def)

end
