(* ===== verification/Vm_Sys.thy ===== *)
theory Vm_Sys
  imports Vma_Alloc
begin

section \<open>The system calls of the library\<close>

text \<open>
  What \<open>malloc.c\<close> and \<open>sched.c\<close> use of the operating system: \<open>mmap\<close>, \<open>mprotect\<close> and \<open>munmap\<close>,
  with the protection of every mapped page, and the return values of the calls that can fail. The
  system itself is a parameter: \<open>os_mmap n len\<close> is the address that the system call number \<open>n\<close>
  returns for an anonymous mapping of \<open>len\<close> bytes, and \<open>os_ret c n\<close> the return value of the call
  number \<open>n\<close>, a call of \<open>c\<close>.
\<close>

datatype syscall = Mprotect | Munmap | Sigaction | Getcontext | Swapcontext

definition PROT_READ :: "64 word" where "PROT_READ = 0x1"
definition PROT_WRITE :: "64 word" where "PROT_WRITE = 0x2"
definition MAP_FAILED :: addr where "MAP_FAILED = - 1"

record vst = ast +
  prots :: "addr \<rightharpoonup> 64 word"
  os_mmap :: "nat \<Rightarrow> 64 word \<Rightarrow> addr"
  os_ret :: "syscall \<Rightarrow> nat \<Rightarrow> int"
  sys_calls :: nat

definition sys :: "syscall \<Rightarrow> ('x vst_scheme, int) prog" where
  "sys c s = Inr (os_ret s c (sys_calls s), s\<lparr>sys_calls := Suc (sys_calls s)\<rparr>)"

text \<open>The first byte of the page of an address, and the bytes of a mapping.\<close>

definition page_of :: "64 word \<Rightarrow> addr \<Rightarrow> addr" where
  "page_of ps a = a AND NOT (ps - 1)"

definition within :: "addr \<Rightarrow> 64 word \<Rightarrow> addr \<Rightarrow> bool" where
  "within p n a \<longleftrightarrow> a - p < n"

text \<open>Anonymous memory is filled with zeros; a \<open>struct vm_area\<close> in it has not been set up.\<close>

definition zero_area :: vm_area where
  "zero_area = \<lparr>vm_next = NULL, vm_prev = NULL, sp_p = NULL, sp_l = NULL, sp_r = NULL,
     vm_flags = 0, vm_start = NULL, vm_end = NULL, vm_lock = Uninit\<rparr>"

text \<open>
  \<open>mmap(NULL, n, prot, MAP_PRIVATE|MAP_ANONYMOUS, -1, 0)\<close>. The callers use the first bytes of the
  mapping as a \<open>struct vm_area\<close>.
\<close>

definition mmap :: "64 word \<Rightarrow> 64 word \<Rightarrow> ('x vst_scheme, addr) prog" where
  "mmap n prot s =
     (let p = os_mmap s (sys_calls s) n; s = s\<lparr>sys_calls := Suc (sys_calls s)\<rparr>
      in if p = MAP_FAILED then Inr (MAP_FAILED, s)
         else Inr (p, s\<lparr>
           vmas := (vmas s)(p \<mapsto> zero_area),
           prots := (\<lambda>a. if within p n a \<and> page_of (OOC_PAGE_SIZE s) a = a then Some prot else prots s a)\<rparr>))"

definition mprotect :: "addr \<Rightarrow> 64 word \<Rightarrow> 64 word \<Rightarrow> ('x vst_scheme, int) prog" where
  "mprotect p n prot =
     bnd (sys Mprotect) (\<lambda>ret.
     bnd (whenp (ret = 0) (modify (\<lambda>s. s\<lparr>prots :=
        (\<lambda>a. if within p n a \<and> prots s a \<noteq> None then Some prot else prots s a)\<rparr>))) (\<lambda>_. Prelude.ret ret))"

definition munmap :: "addr \<Rightarrow> 64 word \<Rightarrow> ('x vst_scheme, int) prog" where
  "munmap p n =
     bnd (sys Munmap) (\<lambda>ret.
     bnd (whenp (ret = 0) (modify (\<lambda>s. s\<lparr>
        vmas := (\<lambda>a. if within p n a then None else vmas s a),
        prots := (\<lambda>a. if within p n a then None else prots s a)\<rparr>))) (\<lambda>_. Prelude.ret ret))"

end
