(* ===== verification/Malloc.thy ===== *)
theory Malloc
  imports Vm_Sys Sp_Tree
begin

section \<open>malloc.c: out-of-core memory\<close>

text \<open>
  Models \<open>src/src/malloc.c\<close>. A block of out-of-core memory is one mapping: its first pages hold the
  \<open>struct vm_area\<close> of the page table, the pages after them the data, which stays read-only until
  the fault handler of \<open>sched.c\<close> opens it. \<open>sp_tree_insert\<close> and \<open>sp_tree_remove\<close> always return 0
  (they assert), so that the tests of their results have one outcome.
\<close>

definition ALIGN :: "64 word \<Rightarrow> 64 word \<Rightarrow> 64 word" where
  "ALIGN ps m = (m + ps - 1) AND NOT (ps - 1)"

text \<open>\<open>fn_cleanup\<close>: the mapping is released again.\<close>

definition malloc_cleanup :: "addr \<Rightarrow> 64 word \<Rightarrow> ('x vst_scheme, addr) prog" where
  "malloc_cleanup vma mmap_sz =
     bnd (munmap vma mmap_sz) (\<lambda>ret.
     bnd (assertion (ret = 0)) (\<lambda>_. Prelude.ret NULL))"

definition ooc_malloc :: "64 word \<Rightarrow> ('x vst_scheme, addr) prog" where
  "ooc_malloc sz =
     bnd (gets OOC_PAGE_SIZE) (\<lambda>ps.
     let data_sz = ALIGN ps sz; info_sz = ALIGN ps sizeof_vm_area; mmap_sz = info_sz + data_sz in
     bnd (mmap mmap_sz PROT_READ) (\<lambda>vma.
     if vma = MAP_FAILED then Prelude.ret NULL
     else
       bnd (mprotect vma info_sz (PROT_READ OR PROT_WRITE)) (\<lambda>ret.
       if ret \<noteq> 0 then malloc_cleanup vma mmap_sz
       else
         bnd (upd_vma vma (\<lambda>v. v\<lparr>vm_start := vma + info_sz\<rparr>)) (\<lambda>_.
         bnd (get_field vm_start vma) (\<lambda>st.
         bnd (upd_vma vma (\<lambda>v. v\<lparr>vm_end := st + sz\<rparr>)) (\<lambda>_.
         bnd (sp_tree_insert vma) (\<lambda>_.
         get_field vm_start vma)))))))"

definition ooc_free :: "addr \<Rightarrow> ('x vst_scheme, unit) prog" where
  "ooc_free ptr =
     bnd (sp_tree_find_and_lock ptr) (\<lambda>vma.
     bnd (get_field vm_start vma) (\<lambda>st.
     bnd (sp_tree_remove vma_free st) (\<lambda>_.
     bnd (get_field vm_end vma) (\<lambda>en.
     bnd (get_field vm_start vma) (\<lambda>st.
     bnd (gets OOC_PAGE_SIZE) (\<lambda>ps.
     let data_sz = ALIGN ps (en - st); info_sz = ALIGN ps sizeof_vm_area; mmap_sz = info_sz + data_sz in
     bnd (munmap vma mmap_sz) (\<lambda>ret.
     assertion (ret = 0))))))))"

end
