(* ===== verification/Sched.thy ===== *)
theory Sched
  imports Malloc
begin

section \<open>sched.c: fibers and the fault handler\<close>

text \<open>
  Models \<open>src/src/sched.c\<close>. The arrays of the fibers are functions of the fiber number; a context
  (\<open>ucontext_t\<close>) is what a switch to it does: \<open>S_kern i\<close> starts \<open>S_kernel_trampoline\<close> with the
  argument that \<open>makecontext\<close> stored, the handler contexts are never set up. A switch away from the
  main context comes back when the other side switches to \<open>S_main\<close>, so that \<open>swapcontext\<close> is a call.
  A kernel is client code: the parameter \<open>kernels\<close> gives for a function pointer, an iteration and an
  argument the loads and stores that the kernel makes.
\<close>

subsection \<open>State\<close>

datatype disposition = SIG_DFL | Trampoline | Foreign addr

datatype access = Load addr | Store addr

definition OOC_NUM_FIBERS :: nat where "OOC_NUM_FIBERS = 10"

record sst = vst +
  S_iter :: "nat \<Rightarrow> 64 word"
  S_args :: "nat \<Rightarrow> addr"
  S_kernel :: "nat \<Rightarrow> addr"
  S_addr :: "nat \<Rightarrow> addr"
  S_kern :: "nat \<Rightarrow> nat option"
  S_me :: nat
  S_old_act :: disposition
  S_ps :: "64 word"
  S_is_init :: bool
  sigsegv :: disposition
  kernels :: "addr \<Rightarrow> 64 word \<Rightarrow> addr \<Rightarrow> access list"

subsection \<open>The fault handler\<close>

text \<open>The new flags and the protection that the handler grants.\<close>

definition fault_flags :: "64 word \<Rightarrow> 64 word" where
  "fault_flags f = (if f AND 0x1 = 0 then f OR 0x1 else f OR 0x10)"

definition fault_prot :: "64 word \<Rightarrow> 64 word" where
  "fault_prot f = (if f AND 0x1 = 0 then PROT_READ else PROT_READ OR PROT_WRITE)"

text \<open>
  \<open>setcontext\<close> of the trampoline context ends the handler; the test whether asynchronous I/O has
  finished is the constant 0 in the code, so that the branch on \<open>0x10\<close> has no effect.
\<close>

definition S_sigsegv_handler :: "('x sst_scheme, unit) prog" where
  "S_sigsegv_handler =
     bnd (gets (\<lambda>s. S_addr s (S_me s))) (\<lambda>fault.
     bnd (sp_tree_find_and_lock fault) (\<lambda>vma.
     bnd (get_field vm_flags vma) (\<lambda>f.
     bnd (upd_vma vma (\<lambda>v. v\<lparr>vm_flags := fault_flags f\<rparr>)) (\<lambda>_.
     bnd (gets (\<lambda>s. S_addr s (S_me s) AND NOT (S_ps s - 1))) (\<lambda>a.
     bnd (gets S_ps) (\<lambda>ps.
     bnd (mprotect a ps (fault_prot f)) (\<lambda>ret.
     bnd (assertion (ret = 0)) (\<lambda>_.
     upd_lock lock_let vma))))))))"

text \<open>The result of the \<open>swapcontext\<close> to the handler is not looked at: when it fails, nothing is done.\<close>

definition SIGSEGV :: int where "SIGSEGV = 11"

definition S_sigsegv_trampoline :: "int \<Rightarrow> addr \<Rightarrow> ('x sst_scheme, unit) prog" where
  "S_sigsegv_trampoline sig si_addr =
     bnd (assertion (SIGSEGV = sig)) (\<lambda>_.
     bnd (modify (\<lambda>s. s\<lparr>S_addr := (S_addr s)(S_me s := si_addr)\<rparr>)) (\<lambda>_.
     bnd (sys Getcontext) (\<lambda>r.
     bnd (assertion (r = 0)) (\<lambda>_.
     bnd (sys Swapcontext) (\<lambda>r.
     whenp (r = 0) S_sigsegv_handler)))))"

subsection \<open>A memory access of a kernel\<close>

definition addr_of :: "access \<Rightarrow> addr" where
  "addr_of x = (case x of Load a \<Rightarrow> a | Store a \<Rightarrow> a)"

definition permits :: "access \<Rightarrow> 64 word \<Rightarrow> bool" where
  "permits x p \<longleftrightarrow> (case x of Load _ \<Rightarrow> p AND PROT_READ \<noteq> 0 | Store _ \<Rightarrow> p AND PROT_WRITE \<noteq> 0)"

text \<open>
  The processor repeats an access until the page permits it; a fault goes to the action that is
  installed for \<open>SIGSEGV\<close>.
\<close>

definition access_step :: "access \<Rightarrow> unit \<Rightarrow> ('x sst_scheme, (unit, unit) ctrl) prog" where
  "access_step x = (\<lambda>_.
     bnd (gets (\<lambda>s. prots s (page_of (OOC_PAGE_SIZE s) (addr_of x)))) (\<lambda>p.
     if (case p of None \<Rightarrow> False | Some p \<Rightarrow> permits x p) then ret (Break ())
     else
       bnd (gets sigsegv) (\<lambda>act.
       if act = Trampoline then bnd (S_sigsegv_trampoline SIGSEGV (addr_of x)) (\<lambda>_. ret (Continue ()))
       else fails (Segv (addr_of x)))))"

definition do_access :: "access \<Rightarrow> ('x sst_scheme, unit) prog" where
  "do_access x = forever (access_step x) ()"

fun do_accesses :: "access list \<Rightarrow> ('x sst_scheme, unit) prog" where
  "do_accesses [] = ret ()"
| "do_accesses (x # xs) = bnd (do_access x) (\<lambda>_. do_accesses xs)"

subsection \<open>Fibers\<close>

definition S_flush :: "('x sst_scheme, unit) prog" where
  "S_flush = ret ()"

text \<open>\<open>setcontext (&S_main)\<close> at the end is the return to the caller of \<open>swapcontext\<close>.\<close>

definition S_kernel_trampoline :: "nat \<Rightarrow> ('x sst_scheme, unit) prog" where
  "S_kernel_trampoline i =
     bnd (gets (\<lambda>s. kernels s (S_kernel s i) (S_iter s i) (S_args s i))) (\<lambda>xs.
     bnd (do_accesses xs) (\<lambda>_. S_flush))"

definition S_kern_init :: "nat \<Rightarrow> ('x sst_scheme, int) prog" where
  "S_kern_init i =
     bnd (sys Getcontext) (\<lambda>r.
     bnd (assertion (r = 0)) (\<lambda>_.
     bnd (modify (\<lambda>s. s\<lparr>S_kern := (S_kern s)(i := Some i)\<rparr>)) (\<lambda>_. ret 0)))"

text \<open>\<open>sigaction (SIGSEGV, act, old)\<close> stores the action it replaces, when it succeeds.\<close>

definition sigaction :: "disposition \<Rightarrow> ('x sst_scheme, int \<times> disposition) prog" where
  "sigaction act =
     bnd (gets sigsegv) (\<lambda>old.
     bnd (sys Sigaction) (\<lambda>r.
     bnd (whenp (r = 0) (modify (\<lambda>s. s\<lparr>sigsegv := act\<rparr>))) (\<lambda>_. ret (r, old))))"

definition Sched_init :: "('x sst_scheme, int) prog" where
  "Sched_init =
     bnd (modify (\<lambda>s. s\<lparr>S_ps := OOC_PAGE_SIZE s\<rparr>)) (\<lambda>_.
     bnd (sigaction Trampoline) (\<lambda>(r, old).
     bnd (whenp (r = 0) (modify (\<lambda>s. s\<lparr>S_old_act := old\<rparr>))) (\<lambda>_.
     bnd (assertion (r = 0)) (\<lambda>_.
     bnd (for_each [0..<OOC_NUM_FIBERS] (\<lambda>i _. bnd (S_kern_init i) (\<lambda>r. bnd (assertion (r = 0)) (\<lambda>_. ret r))) r) (\<lambda>r.
     bnd (modify (\<lambda>s. s\<lparr>S_is_init := True\<rparr>)) (\<lambda>_. ret r))))))"

definition ooc_finalize :: "('x sst_scheme, int) prog" where
  "ooc_finalize =
     bnd (gets S_old_act) (\<lambda>old.
     bnd (sigaction old) (\<lambda>(r, _).
     bnd (modify (\<lambda>s. s\<lparr>S_is_init := False\<rparr>)) (\<lambda>_. ret r)))"

text \<open>
  The search of lines 324-333, with its two conditions as they stand in the code: no fiber is
  runnable, every fiber is idle. The results are \<open>run\<close> and \<open>idle\<close>.
\<close>

fun find_fiber :: "nat list \<Rightarrow> int \<times> int \<Rightarrow> int \<times> int" where
  "find_fiber [] r = r"
| "find_fiber (j # js) (run, idle) =
     (let runnable = False; is_idle = True in
      if runnable then (int j, idle) else if is_idle then (run, int j) else find_fiber js (run, idle))"

definition sched_iter :: "addr \<Rightarrow> 64 word \<Rightarrow> addr \<Rightarrow> int \<times> int \<Rightarrow> unit \<Rightarrow> ('x sst_scheme, (unit, unit) ctrl) prog" where
  "sched_iter kern i args = (\<lambda>(run, idle) _.
     if run \<noteq> - 1 then
       bnd (modify (\<lambda>s. s\<lparr>S_me := nat run\<rparr>)) (\<lambda>_. fails BadContext)
     else if idle \<noteq> - 1 then
       bnd (modify (\<lambda>s. s\<lparr>S_iter := (S_iter s)(nat idle := i)\<rparr>)) (\<lambda>_.
       bnd (modify (\<lambda>s. s\<lparr>S_kernel := (S_kernel s)(nat idle := kern)\<rparr>)) (\<lambda>_.
       bnd (modify (\<lambda>s. s\<lparr>S_args := (S_args s)(nat idle := args)\<rparr>)) (\<lambda>_.
       bnd (modify (\<lambda>s. s\<lparr>S_me := nat idle\<rparr>)) (\<lambda>_.
       bnd (gets (\<lambda>s. S_kern s (S_me s))) (\<lambda>ctx.
       bnd (sys Swapcontext) (\<lambda>r.
       bnd (if r = 0 then (case ctx of None \<Rightarrow> fails BadContext | Some k \<Rightarrow> S_kernel_trampoline k) else ret ()) (\<lambda>_.
       bnd (assertion (r = 0)) (\<lambda>_. ret (Break ())))))))))
     else ret (Continue ()))"

definition ooc_sched :: "addr \<Rightarrow> 64 word \<Rightarrow> addr \<Rightarrow> ('x sst_scheme, unit) prog" where
  "ooc_sched kern i args =
     bnd (gets S_is_init) (\<lambda>b.
     bnd (whenp (\<not> b) (bnd Sched_init (\<lambda>r. assertion (r = 0)))) (\<lambda>_.
     forever (sched_iter kern i args (find_fiber [0..<OOC_NUM_FIBERS] (- 1, - 1))) ()))"

end
