(* ===== verification/Page_Fault.thy ===== *)
theory Page_Fault
  imports Sched Table_Ops
begin

section \<open>Page faults\<close>

text \<open>
  The fault handler on a well-formed page table: a fault on out-of-core memory marks the area and
  opens the page (\<open>fault_run\<close>), no page is writable before its area is marked dirty
  (\<open>served\<close>), and every access completes after two faults at most (\<open>access_completes\<close>).
\<close>

subsection \<open>Pages\<close>

lemma page_of_bits:
  assumes "ps = 2 ^ k"
  shows "page_of ps a = push_bit k (drop_bit k a)" and "page_of ps a = a \<longleftrightarrow> take_bit k a = 0"
    and "page_of ps (page_of ps a) = page_of ps a"
proof -
  have m: "ps - 1 = mask k" using assms by (simp add: mask_eq_exp_minus_1)
  show e: "page_of ps a = push_bit k (drop_bit k a)" for a
    unfolding page_of_def m by (rule bit_word_eqI) (auto simp: bit_simps)
  show "page_of ps a = a \<longleftrightarrow> take_bit k a = 0" for a
    unfolding e using bits_ident [of k a] by (metis add.right_neutral add_left_cancel)
  then show "page_of ps (page_of ps a) = page_of ps a" by (simp add: e take_bit_push_bit)
qed

lemma unat_exp: "k < 64 \<Longrightarrow> unat (2 ^ k :: 64 word) = 2 ^ k"
proof -
  assume "k < 64"
  then have "(2::nat) ^ k < 2 ^ 64" by (intro power_strict_increasing) simp_all
  moreover have "unat (of_nat (2 ^ k) :: 64 word) = 2 ^ k mod 2 ^ 64" by (simp only: unat_of_nat) simp
  ultimately show ?thesis by simp
qed

lemma take_bit_small: "k < 64 \<Longrightarrow> (x :: 64 word) < 2 ^ k \<longleftrightarrow> take_bit k x = x"
  by (simp add: word_less_nat_alt unat_exp word_unat_eq_iff unsigned_take_bit_eq take_bit_nat_eq_self_iff)

lemma page_unique:
  assumes ps: "ps = 2 ^ k" "k < 64" and a: "page_of ps a = a" "page_of ps b = b" and w: "within b ps a"
  shows "a = b"
proof -
  have "a - b = push_bit k (drop_bit k a) - push_bit k (drop_bit k b)" using a page_of_bits(1) [OF ps(1)] by metis
  also have "\<dots> = push_bit k (drop_bit k a - drop_bit k b)" by (simp add: push_bit_eq_mult left_diff_distrib)
  finally have "take_bit k (a - b) = 0" by (simp add: take_bit_push_bit)
  moreover have "take_bit k (a - b) = a - b" using w ps by (simp add: within_def take_bit_small)
  ultimately show ?thesis by simp
qed

lemma within_page: "ps = 2 ^ k \<Longrightarrow> k < 64 \<Longrightarrow> within (page_of ps a) ps a"
proof -
  assume ps: "ps = 2 ^ k" "k < 64"
  have "a = push_bit k (drop_bit k a) + take_bit k a" by (simp add: bits_ident)
  then have "a - page_of ps a = take_bit k a" using page_of_bits(1) [OF ps(1)] by (metis add_diff_cancel_left')
  then show ?thesis using ps by (simp add: within_def take_bit_small)
qed

subsection \<open>One fault\<close>

text \<open>
  What the handler relies on: the page table with disjoint ranges, no area of it locked, the handler
  installed and the page size taken over, pages of a power of two; and the system calls of the
  handler succeed.
\<close>

definition os_works :: "'x sst_scheme \<Rightarrow> bool" where
  "os_works s \<longleftrightarrow> (\<forall>c n. os_ret s c n = 0)"

definition handling :: "'x sst_scheme \<Rightarrow> addr tree \<Rightarrow> bool" where
  "handling s T \<longleftrightarrow> tab s T \<and> ranges (vmas s) (inorder T) \<and> idle_areas s (set_tree T) \<and>
     sigsegv s = Trampoline \<and> S_ps s = OOC_PAGE_SIZE s \<and> (\<exists>k<64. OOC_PAGE_SIZE s = 2 ^ k) \<and> os_works s \<and>
     (\<forall>p. prots s p \<noteq> None \<longrightarrow> page_of (OOC_PAGE_SIZE s) p = p)"

text \<open>The part of the state that only the scheduler changes.\<close>

definition same_sched :: "'x sst_scheme \<Rightarrow> 'x sst_scheme \<Rightarrow> bool" where
  "same_sched s s' \<longleftrightarrow> OOC_PAGE_SIZE s' = OOC_PAGE_SIZE s \<and> S_ps s' = S_ps s \<and> sigsegv s' = sigsegv s \<and> S_is_init s' = S_is_init s \<and>
     S_kern s' = S_kern s \<and> kernels s' = kernels s \<and> S_old_act s' = S_old_act s \<and> openmp s' = openmp s \<and>
     os_mmap s' = os_mmap s \<and> os_ret s' = os_ret s \<and> blocks s' = blocks s \<and> frame_n s' = frame_n s"

text \<open>The change of the memory: links, the flags of one area and the protection of one page.\<close>

definition flagged :: "'x sst_scheme \<Rightarrow> addr tree \<Rightarrow> addr \<Rightarrow> (64 word \<Rightarrow> 64 word) \<Rightarrow> addr \<Rightarrow> 64 word \<Rightarrow> 'x sst_scheme \<Rightarrow> addr tree \<Rightarrow> bool" where
  "flagged s T a f pg p s' T' \<longleftrightarrow> handling s' T' \<and> inorder T' = inorder T \<and>
     start_of (vmas s') = start_of (vmas s) \<and> end_of (vmas s') = end_of (vmas s) \<and> dom (vmas s') = dom (vmas s) \<and>
     flags_of (vmas s') = (flags_of (vmas s))(a := f (flags_of (vmas s) a)) \<and>
     lock_of (vmas s') = lock_of (vmas s) \<and> prots s' = (prots s)(pg \<mapsto> p) \<and> S_me s' = S_me s \<and> same_sched s s' \<and>
     sys_calls s' = sys_calls s + 3"

lemma same_schedD:
  assumes "same_sched s s'"
  shows "openmp s' = openmp s" "OOC_PAGE_SIZE s' = OOC_PAGE_SIZE s" "kernels s' = kernels s" "S_old_act s' = S_old_act s"
    "S_is_init s' = S_is_init s" "S_kern s' = S_kern s" "sigsegv s' = sigsegv s" "S_ps s' = S_ps s"
  using assms by (simp_all add: same_sched_def)

lemma same_sched_refl [simp]: "same_sched s s"
  by (simp add: same_sched_def)

lemma same_sched_trans: "same_sched s s' \<Longrightarrow> same_sched s' s'' \<Longrightarrow> same_sched s s''"
  by (simp add: same_sched_def)

lemma wst_sst [simp]:
  fixes s :: "'x sst_scheme"
  shows "S_addr (wst s h r l) = S_addr s" "S_me (wst s h r l) = S_me s" "S_ps (wst s h r l) = S_ps s" "prots (wst s h r l) = prots s"
    "os_ret (wst s h r l) = os_ret s" "sys_calls (wst s h r l) = sys_calls s" "sigsegv (wst s h r l) = sigsegv s"
    "kernels (wst s h r l) = kernels s" "S_old_act (wst s h r l) = S_old_act s" "S_is_init (wst s h r l) = S_is_init s"
  by (simp_all add: wst_def)

lemma mprotect_page:
  assumes "os_ret s Mprotect (sys_calls s) = 0" and k: "ps = 2 ^ k" "k < 64" and al: "\<forall>q. prots s q \<noteq> None \<longrightarrow> page_of ps q = q"
    and m: "prots s (page_of ps x) \<noteq> None"
  shows "mprotect (page_of ps x) ps p s =
     Inr (0, s\<lparr>sys_calls := Suc (sys_calls s), prots := (prots s)(page_of ps x \<mapsto> p)\<rparr>)"
proof -
  have "(\<lambda>a. if within (page_of ps x) ps a \<and> prots s a \<noteq> None then Some p else prots s a) = (prots s)(page_of ps x \<mapsto> p)"
  proof
    fix a
    show "(if within (page_of ps x) ps a \<and> prots s a \<noteq> None then Some p else prots s a) = ((prots s)(page_of ps x \<mapsto> p)) a"
      using page_unique [OF k, of a "page_of ps x"] al m page_of_bits(3) [OF k(1)] within_page [OF k, of "page_of ps x"] by auto
  qed
  then show ?thesis using assms(1) by (simp add: mprotect_def bnd_def sys_def cong: if_cong)
qed

definition hw :: "'x vst_scheme \<Rightarrow> heap \<Rightarrow> addr \<Rightarrow> lock_t \<Rightarrow> (addr \<rightharpoonup> 64 word) \<Rightarrow> nat \<Rightarrow> 'x vst_scheme" where
  "hw s h r l P c = s\<lparr>vma_tree := \<lparr>root = r, lock = l\<rparr>, vmas := h, prots := P, sys_calls := c\<rparr>"

lemma hw_wst: "wst s h r l = hw s h r l (prots s) (sys_calls s)"
  by (simp add: hw_def wst_def)

lemma hw_run:
  assumes "q \<in> dom h" and "q \<noteq> NULL"
  shows "get_field vm_flags q (hw s h r l P c) = Inr (flags_of h q, hw s h r l P c)"
    and "get_field vm_start q (hw s h r l P c) = Inr (start_of h q, hw s h r l P c)"
    and "upd_vma q f (hw s h r l P c) = Inr ((), hw s (hupd q f h) r l P c)"
    and "lock_held (openmp s) (lock_of h q) \<Longrightarrow> upd_lock lock_let q (hw s h r l P c) =
       Inr ((), hw s (hupd q (\<lambda>v. v\<lparr>vm_lock := released (openmp s) (lock_of h q)\<rparr>) h) r l P c)"
  using assms any_lock.let_held [of "openmp s"]
  by (auto simp: hw_def flags_of_def start_of_def lock_of_def hupd_def upd_lock_def bnd_def rd_vma_def split: sum.splits)

lemma mprotect_hw:
  assumes "os_ret s Mprotect c = 0" and "ps = 2 ^ k" "k < 64" and "\<forall>q. P q \<noteq> None \<longrightarrow> page_of ps q = q" and "P (page_of ps x) \<noteq> None"
  shows "mprotect (page_of ps x) ps p (hw s h r l P c) = Inr (0, hw s h r l (P(page_of ps x \<mapsto> p)) (Suc c))"
  using mprotect_page [of "hw s h r l P c" ps k x p] assms by (simp add: hw_def)

lemma fault_run:
  assumes hd: "handling s T" and a: "a \<in> set_tree T" "covers (vmas s) a x" and m: "prots s (page_of (OOC_PAGE_SIZE s) x) \<noteq> None"
  shows "\<exists>s' T'. S_sigsegv_trampoline SIGSEGV x s = Inr ((), s') \<and>
     flagged s T a fault_flags (page_of (OOC_PAGE_SIZE s) x) (fault_prot (flags_of (vmas s) a)) s' T'"
proof -
  define s1 where "s1 = s\<lparr>S_addr := (S_addr s)(S_me s := x), sys_calls := Suc (Suc (sys_calls s))\<rparr>"
  let ?ps = "OOC_PAGE_SIZE s" and ?h = "vmas s"
  let ?pg = "page_of ?ps x" and ?f = "flags_of ?h a"
  from hd have t: "tab s T" and rg: "ranges ?h (inorder T)" and idle: "idle_areas s (set_tree T)" and ok: "os_works s"
    and ps: "S_ps s = ?ps" and al: "\<forall>p. prots s p \<noteq> None \<longrightarrow> page_of ?ps p = p" by (simp_all add: handling_def)
  obtain k where k: "?ps = 2 ^ k" "k < 64" using hd unfolding handling_def by blast
  have la: "lock_idle (openmp s) (lock_of ?h a)" using idle a(1) by (simp add: idle_areas_def)
  have t1: "tab s1 T" "ranges (vmas s1) (inorder T)" "covers (vmas s1) a x" "lock_idle (openmp s1) (lock_of (vmas s1) a)"
    using t rg a la by (simp_all add: tab_def s1_def)
  obtain h1 r where run: "sp_tree_find_and_lock x s1 = Inr (a, wst s1 h1 r (lock (vma_tree s1)))"
    and wf: "wf_tab h1 r (splay (start_of (vmas s1)) x T)"
    and kp: "kept (hupd a (\<lambda>v. v\<lparr>vm_lock := got (openmp s1) (lock_of (vmas s1) a)\<rparr>) (vmas s1)) (set_tree T) h1"
    using sp_tree_find_correct [OF t1(1,2) a(1) t1(3,4)] by blast
  let ?l = "lock (vma_tree s)" and ?T = "splay (start_of ?h) x T"
  define h2 where "h2 = hupd a (\<lambda>v. v\<lparr>vm_flags := fault_flags ?f\<rparr>) h1"
  define h3 where "h3 = hupd a (\<lambda>v. v\<lparr>vm_lock := released (openmp s) (lock_of h2 a)\<rparr>) h2"
  define P where "P = (prots s)(?pg \<mapsto> fault_prot ?f)"
  define s' where "s' = hw s1 h3 r ?l P (Suc (Suc (Suc (sys_calls s))))"
  have ad: "a \<in> dom ?h" "a \<noteq> NULL" using t a(1) wf_tab_links(5,6) unfolding tab_def by blast+
  have v1: "start_of h1 = start_of ?h" "end_of h1 = end_of ?h" "flags_of h1 = flags_of ?h"
      "lock_of h1 = (lock_of ?h)(a := got (openmp s) (lock_of ?h a))" "dom h1 = dom ?h"
    using kp ad by (simp_all add: kept_def s1_def insert_absorb)
  have v3: "start_of h3 = start_of ?h" "end_of h3 = end_of ?h" "flags_of h3 = (flags_of ?h)(a := fault_flags ?f)" "lock_of h3 = lock_of ?h" "dom h3 = dom ?h"
    using v1 ad la by (simp_all add: h3_def h2_def insert_absorb released_got fun_upd_idem)
  have h: "a \<in> dom h1" "a \<in> dom h2" "lock_held (openmp s) (lock_of h2 a)" using ad v1 by (simp_all add: h2_def)
  have w: "wst s1 h1 r (lock (vma_tree s1)) = hw s1 h1 r ?l (prots s) (Suc (Suc (sys_calls s)))" by (simp add: hw_wst s1_def)
  have mp: "mprotect ?pg ?ps (fault_prot ?f) (hw s1 h2 r ?l (prots s) (Suc (Suc (sys_calls s)))) =
      Inr (0, hw s1 h2 r ?l P (Suc (Suc (Suc (sys_calls s)))))"
    unfolding P_def using ok k al m by (intro mprotect_hw) (auto simp: os_works_def s1_def)
  have "S_sigsegv_trampoline SIGSEGV x s = S_sigsegv_handler s1"
    using ok by (simp add: S_sigsegv_trampoline_def bnd_def sys_def os_works_def s1_def)
  moreover have "S_sigsegv_handler s1 = Inr ((), s')"
  proof -
    have o1: "openmp s1 = openmp s" "S_addr s1 (S_me s1) = x" "S_ps s1 = ?ps" using ps by (simp_all add: s1_def)
    have sel: "S_addr (hw s1 h r l P c) = S_addr s1" "S_me (hw s1 h r l P c) = S_me s1" "S_ps (hw s1 h r l P c) = S_ps s1" for h r l P c by (simp_all add: hw_def)
    show ?thesis using run mp [unfolded page_of_def] o1 ad h v1(3)
      by (simp add: S_sigsegv_handler_def bnd_def w hw_run sel h2_def [symmetric]) (simp add: s'_def h3_def)
  qed
  moreover have "flagged s T a fault_flags ?pg (fault_prot ?f) s' ?T"
  proof -
    have vs: "vmas s' = h3" "root (vma_tree s') = r" "lock (vma_tree s') = ?l" "frame_n s' = frame_n s" "openmp s' = openmp s"
      "prots s' = P" "OOC_PAGE_SIZE s' = ?ps" "S_ps s' = S_ps s" "sigsegv s' = sigsegv s" "os_ret s' = os_ret s"
      "S_me s' = S_me s" "kernels s' = kernels s" "S_old_act s' = S_old_act s" "S_is_init s' = S_is_init s"
      "S_kern s' = S_kern s" "os_mmap s' = os_mmap s" "blocks s' = blocks s"
      "sys_calls s' = sys_calls s + 3" by (simp_all add: s'_def hw_def s1_def)
    have "wf_tab h3 r ?T" using wf ad v1(5) by (simp add: h3_def h2_def wf_tab_def s1_def) blast
    moreover have "h3 (frame_n s) = None" using t v3(5) by (metis domIff tab_def)
    ultimately have "tab s' ?T" using t by (simp add: tab_def vs)
    moreover have "ranges h3 (inorder ?T)" using rg v3 by (simp add: ranges_def)
    moreover have "idle_areas s' (set_tree ?T)" using idle v3 by (simp add: idle_areas_def vs)
    moreover have "page_of ?ps p = p" if "P p \<noteq> None" for p
      using that al page_of_bits(3) [OF k(1)] by (auto simp: P_def split: if_splits)
    ultimately have "handling s' ?T" using hd by (simp add: handling_def vs os_works_def)
    then show ?thesis using v3 by (simp add: flagged_def same_sched_def vs P_def)
  qed
  ultimately show ?thesis by auto
qed

subsection \<open>The flags and the protection of a page\<close>

lemma flag_bits:
  "(f :: 64 word) AND 0x1 \<noteq> 0 \<longleftrightarrow> bit f 0" "f AND 0x10 \<noteq> 0 \<longleftrightarrow> bit f 4"
  using bit_iff_and_push_bit_not_eq_0 [of f 0] bit_iff_and_push_bit_not_eq_0 [of f 4] by simp_all

lemma fault_flags_bits:
  "bit (fault_flags f) n \<longleftrightarrow> bit f n \<or> n = (if bit f 0 then 4 else 0)"
proof -
  have "bit (push_bit 4 1 :: 64 word) n \<longleftrightarrow> n = 4" unfolding bit_push_bit_iff bit_1_iff by auto
  then have "bit (0x10 :: 64 word) n \<longleftrightarrow> n = 4" by simp
  moreover have "bit (1 :: 64 word) n \<longleftrightarrow> n = 0" by (auto simp: bit_simps)
  ultimately show ?thesis using flag_bits(1) [of f] by (auto simp: fault_flags_def bit_or_iff)
qed

lemma fault_prots:
  "permits (Load a) (fault_prot f)" "permits (Store a) (fault_prot f) \<longleftrightarrow> bit f 0"
  using flag_bits(1) [of f] by (auto simp: permits_def fault_prot_def PROT_READ_def PROT_WRITE_def)

definition own_pages :: "'x sst_scheme \<Rightarrow> addr tree \<Rightarrow> bool" where
  "own_pages s T \<longleftrightarrow> (\<forall>a \<in> set_tree T. \<forall>b \<in> set_tree T. \<forall>x y. covers (vmas s) a x \<longrightarrow> covers (vmas s) b y \<longrightarrow>
     page_of (OOC_PAGE_SIZE s) x = page_of (OOC_PAGE_SIZE s) y \<longrightarrow> a = b)"

text \<open>No page can be written before its area is marked dirty.\<close>

definition dirty_ok :: "'x sst_scheme \<Rightarrow> addr tree \<Rightarrow> bool" where
  "dirty_ok s T \<longleftrightarrow> (\<forall>a \<in> set_tree T. \<forall>x p. covers (vmas s) a x \<longrightarrow> prots s (page_of (OOC_PAGE_SIZE s) x) = Some p \<longrightarrow>
     permits (Store x) p \<longrightarrow> bit (flags_of (vmas s) a) 4)"

definition served :: "'x sst_scheme \<Rightarrow> addr tree \<Rightarrow> bool" where
  "served s T \<longleftrightarrow> handling s T \<and> own_pages s T \<and> dirty_ok s T"

text \<open>
  What does not depend on the handler being installed.
\<close>

definition mem_sane :: "'x sst_scheme \<Rightarrow> addr tree \<Rightarrow> bool" where
  "mem_sane s T \<longleftrightarrow> tab s T \<and> ranges (vmas s) (inorder T) \<and> idle_areas s (set_tree T) \<and> (\<exists>k<64. OOC_PAGE_SIZE s = 2 ^ k) \<and>
     os_works s \<and> (\<forall>p. prots s p \<noteq> None \<longrightarrow> page_of (OOC_PAGE_SIZE s) p = p) \<and> own_pages s T \<and> dirty_ok s T"

lemma served_sane: "served s T \<longleftrightarrow> mem_sane s T \<and> sigsegv s = Trampoline \<and> S_ps s = OOC_PAGE_SIZE s"
  by (auto simp: served_def handling_def mem_sane_def)

lemma permits_store: "permits (Store a) p = permits (Store b) p"
  by (simp add: permits_def)

text \<open>What an access leaves alone, and that no flag is ever taken back.\<close>

definition steady :: "'x sst_scheme \<Rightarrow> addr tree \<Rightarrow> 'x sst_scheme \<Rightarrow> addr tree \<Rightarrow> bool" where
  "steady s T s' T' \<longleftrightarrow> inorder T' = inorder T \<and> start_of (vmas s') = start_of (vmas s) \<and> end_of (vmas s') = end_of (vmas s) \<and>
     dom (vmas s') = dom (vmas s) \<and> lock_of (vmas s') = lock_of (vmas s) \<and> dom (prots s') = dom (prots s) \<and>
     (\<forall>b n. bit (flags_of (vmas s) b) n \<longrightarrow> bit (flags_of (vmas s') b) n) \<and> S_me s' = S_me s \<and> same_sched s s'"

lemma steady_refl [simp]: "steady s T s T"
  by (simp add: steady_def same_sched_def)

lemma steady_trans: "steady s T s' T' \<Longrightarrow> steady s' T' s'' T'' \<Longrightarrow> steady s T s'' T''"
  by (simp add: steady_def same_sched_def)

lemma flagged_steady:
  assumes fl: "flagged s T a fault_flags pg p s' T'" and m: "prots s pg \<noteq> None"
  shows "steady s T s' T'"
  using fl m fault_flags_bits by (auto simp: flagged_def same_sched_def steady_def)

lemma flagged_served:
  assumes sv: "served s T" and fl: "flagged s T a fault_flags (page_of (OOC_PAGE_SIZE s) x) (fault_prot (flags_of (vmas s) a)) s' T'"
    and a: "a \<in> set_tree T" "covers (vmas s) a x"
  shows "served s' T'"
proof -
  have st: "set_tree T' = set_tree T" using fl unfolding flagged_def by (metis set_inorder)
  have cv: "covers (vmas s') = covers (vmas s)" using fl by (simp add: flagged_def same_sched_def covers_def fun_eq_iff)
  have e: "OOC_PAGE_SIZE s' = OOC_PAGE_SIZE s" "prots s' = (prots s)(page_of (OOC_PAGE_SIZE s) x \<mapsto> fault_prot (flags_of (vmas s) a))"
    "flags_of (vmas s') = (flags_of (vmas s))(a := fault_flags (flags_of (vmas s) a))" "handling s' T'"
    using fl by (simp_all add: flagged_def same_sched_def)
  have own: "own_pages s T" and dir: "dirty_ok s T" using sv by (simp_all add: served_def)
  have "own_pages s' T'" using own by (simp add: own_pages_def st cv e)
  moreover have "dirty_ok s' T'" unfolding dirty_ok_def st cv e(1)
  proof (intro ballI allI impI)
    fix b y p assume b: "b \<in> set_tree T" "covers (vmas s) b y" "prots s' (page_of (OOC_PAGE_SIZE s) y) = Some p" "permits (Store y) p"
    show "bit (flags_of (vmas s') b) 4"
    proof (cases "page_of (OOC_PAGE_SIZE s) y = page_of (OOC_PAGE_SIZE s) x")
      case True
      then have ba: "b = a" using own b(1,2) a unfolding own_pages_def by blast
      have "p = fault_prot (flags_of (vmas s) a)" using b(3) True by (simp add: e)
      then have "bit (flags_of (vmas s) a) 0" using b(4) fault_prots(2) by blast
      then show ?thesis using ba by (simp add: e fault_flags_bits)
    next
      case False
      then have "bit (flags_of (vmas s) b) 4" using dir b unfolding dirty_ok_def by (metis e(2) fun_upd_other)
      then show ?thesis by (auto simp: e fault_flags_bits)
    qed
  qed
  ultimately show ?thesis using e(4) by (simp add: served_def)
qed

subsection \<open>A memory access\<close>

definition allowed :: "'x sst_scheme \<Rightarrow> access \<Rightarrow> bool" where
  "allowed s x \<longleftrightarrow> (\<exists>p. prots s (page_of (OOC_PAGE_SIZE s) (addr_of x)) = Some p \<and> permits x p)"

lemma access_allowed: "allowed s x \<Longrightarrow> do_access x s = Inr ((), s)"
  unfolding do_access_def by (rule forever_Break) (auto simp: access_step_def allowed_def bnd_def)

lemma access_faults:
  assumes "\<not> allowed s x" and "sigsegv s = Trampoline" and "S_sigsegv_trampoline SIGSEGV (addr_of x) s = Inr ((), s')"
  shows "do_access x s = do_access x s'"
  unfolding do_access_def
proof (rule forever_Continue)
  have "\<not> (case prots s (page_of (OOC_PAGE_SIZE s) (addr_of x)) of None \<Rightarrow> False | Some p \<Rightarrow> permits x p)"
    using assms(1) by (auto simp: allowed_def split: option.splits)
  then show "access_step x () s = Inr (Continue (), s')" using assms(2,3) by (simp add: access_step_def bnd_def)
qed

text \<open>Every access to out-of-core memory completes, after two faults at most.\<close>

lemma access_completes:
  assumes sv: "served s T" and a: "a \<in> set_tree T" "covers (vmas s) a (addr_of x)"
    and m: "prots s (page_of (OOC_PAGE_SIZE s) (addr_of x)) \<noteq> None"
  shows "\<exists>s' T'. do_access x s = Inr ((), s') \<and> served s' T' \<and> steady s T s' T' \<and> allowed s' x"
proof -
  have one: "\<exists>s' T'. do_access x s = do_access x s' \<and> served s' T' \<and> steady s T s' T' \<and>
       bit (flags_of (vmas s') a) 0 \<and> (bit (flags_of (vmas s) a) 0 \<or> (\<exists>b. x = Load b) \<longrightarrow> allowed s' x)"
    if s: "\<not> allowed s x" "served s T" "a \<in> set_tree T" "covers (vmas s) a (addr_of x)"
       "prots s (page_of (OOC_PAGE_SIZE s) (addr_of x)) \<noteq> None" for s :: "'a sst_scheme" and T
  proof -
    let ?f = "flags_of (vmas s) a"
    have h: "handling s T" using s(2) by (simp add: served_def)
    obtain s' T' where r: "S_sigsegv_trampoline SIGSEGV (addr_of x) s = Inr ((), s')"
      and fl: "flagged s T a fault_flags (page_of (OOC_PAGE_SIZE s) (addr_of x)) (fault_prot ?f) s' T'"
      using fault_run [OF h s(3-5)] by blast
    have "do_access x s = do_access x s'" using access_faults [OF s(1) _ r] h by (simp add: handling_def)
    moreover have "bit (flags_of (vmas s') a) 0" using fl by (auto simp: flagged_def same_sched_def fault_flags_bits)
    moreover have "allowed s' x" if "bit ?f 0 \<or> (\<exists>b. x = Load b)"
      using that fl fault_prots by (cases x) (auto simp: flagged_def same_sched_def allowed_def)
    ultimately show ?thesis using flagged_served [OF s(2) fl s(3,4)] flagged_steady [OF fl s(5)] by blast
  qed
  show ?thesis
  proof (cases "allowed s x")
    case True
    then show ?thesis using access_allowed sv steady_refl by blast
  next
    case False
    obtain s1 T1 where s1: "do_access x s = do_access x s1" "served s1 T1" "steady s T s1 T1" "bit (flags_of (vmas s1) a) 0"
      using one [OF False sv a m] by (elim exE conjE) (rule that)
    show ?thesis
    proof (cases "allowed s1 x")
      case True
      then have "do_access x s = Inr ((), s1)" using s1(1) access_allowed by simp
      then show ?thesis using True s1(2,3) by blast
    next
      case F1: False
      have a1: "a \<in> set_tree T1" "covers (vmas s1) a (addr_of x)" "prots s1 (page_of (OOC_PAGE_SIZE s1) (addr_of x)) \<noteq> None"
      proof -
        show "a \<in> set_tree T1" using a(1) s1(3) unfolding steady_def by (metis set_inorder)
        show "covers (vmas s1) a (addr_of x)" using a(2) s1(3) by (simp add: steady_def same_sched_def covers_def)
        have "dom (prots s1) = dom (prots s)" "OOC_PAGE_SIZE s1 = OOC_PAGE_SIZE s" using s1(3) by (simp_all add: steady_def same_sched_def)
        then show "prots s1 (page_of (OOC_PAGE_SIZE s1) (addr_of x)) \<noteq> None" using m domIff [of _ "prots s"] domIff [of _ "prots s1"] by metis
      qed
      obtain s2 T2 where s2: "do_access x s1 = do_access x s2" "served s2 T2" "steady s1 T1 s2 T2" "allowed s2 x"
        using one [OF F1 s1(2) a1] s1(4) by (elim exE conjE) (rule that, assumption+, simp)
      have "do_access x s = Inr ((), s2)" using s1(1) s2(1) access_allowed [OF s2(4)] by simp
      then show ?thesis using s2(2,4) steady_trans [OF s1(3) s2(3)] by blast
    qed
  qed
qed

end
