(* ===== verification/Sched_Correct.thy ===== *)
theory Sched_Correct
  imports Page_Fault
begin

section \<open>Running kernels\<close>

text \<open>
  A kernel whose accesses lie in out-of-core memory runs to its end (\<open>accesses_complete\<close>), the
  library installs its handler once and gives the old one back (\<open>init_run\<close>, \<open>finalize_run\<close>), and
  \<open>ooc_sched\<close> runs the kernel on fiber 0 (\<open>sched_run\<close>).
\<close>

subsection \<open>A kernel\<close>

definition in_core :: "'x sst_scheme \<Rightarrow> addr tree \<Rightarrow> access \<Rightarrow> bool" where
  "in_core s T x \<longleftrightarrow> (\<exists>a \<in> set_tree T. covers (vmas s) a (addr_of x)) \<and> page_of (OOC_PAGE_SIZE s) (addr_of x) \<in> dom (prots s)"

definition stores_dirty :: "'x sst_scheme \<Rightarrow> addr tree \<Rightarrow> access list \<Rightarrow> 'x sst_scheme \<Rightarrow> bool" where
  "stores_dirty s T xs s' \<longleftrightarrow> (\<forall>b a. Store b \<in> set xs \<longrightarrow> a \<in> set_tree T \<longrightarrow> covers (vmas s) a b \<longrightarrow> bit (flags_of (vmas s') a) 4)"

text \<open>The page of the last access stays open.\<close>

definition last_allowed :: "access list \<Rightarrow> 'x sst_scheme \<Rightarrow> bool" where
  "last_allowed xs s \<longleftrightarrow> (xs \<noteq> [] \<longrightarrow> allowed s (last xs))"

lemma steady_facts:
  assumes "steady s T s' T'"
  shows "set_tree T' = set_tree T" "covers (vmas s') = covers (vmas s)" "in_core s' T' = in_core s T"
proof -
  show st: "set_tree T' = set_tree T" using assms unfolding steady_def by (metis set_inorder)
  show cv: "covers (vmas s') = covers (vmas s)" using assms by (simp add: steady_def same_sched_def covers_def fun_eq_iff)
  show "in_core s' T' = in_core s T" using assms st cv by (simp add: in_core_def steady_def same_sched_def fun_eq_iff)
qed

lemma accesses_complete:
  assumes "served s T" and "\<forall>x \<in> set xs. in_core s T x"
  shows "\<exists>s' T'. do_accesses xs s = Inr ((), s') \<and> served s' T' \<and> steady s T s' T' \<and> stores_dirty s T xs s' \<and>
     last_allowed xs s'"
  using assms
proof (induction xs arbitrary: s T)
  case Nil
  then show ?case using steady_refl [of s T] by (auto simp: stores_dirty_def last_allowed_def)
next
  case (Cons x xs)
  from Cons.prems(2) obtain a where a: "a \<in> set_tree T" "covers (vmas s) a (addr_of x)"
    and m: "prots s (page_of (OOC_PAGE_SIZE s) (addr_of x)) \<noteq> None" by (auto simp: in_core_def)
  obtain s1 T1 where r1: "do_access x s = Inr ((), s1)" and s1: "served s1 T1" "steady s T s1 T1" "allowed s1 x"
    using access_completes [OF Cons.prems(1) a m] by blast
  note f = steady_facts [OF s1(2)]
  obtain s2 T2 where r2: "do_accesses xs s1 = Inr ((), s2)" and s2: "served s2 T2" "steady s1 T1 s2 T2" "stores_dirty s1 T1 xs s2"
    "last_allowed xs s2" using Cons.IH [OF s1(1)] Cons.prems(2) f(3) by auto
  have "bit (flags_of (vmas s2) c) 4" if t: "x = Store b" "c \<in> set_tree T" "covers (vmas s) c b" for b c
  proof -
    have "allowed s1 (Store b)" using s1(3) t(1) by simp
    then obtain p where "prots s1 (page_of (OOC_PAGE_SIZE s1) b) = Some p" "permits (Store b) p" by (auto simp: allowed_def addr_of_def)
    then have "bit (flags_of (vmas s1) c) 4" using s1(1) t(2,3) f unfolding served_def dirty_ok_def by metis
    then show ?thesis using s2(2) by (simp add: steady_def same_sched_def)
  qed
  then have "stores_dirty s T (x # xs) s2" using s2(3) f by (auto simp: stores_dirty_def)
  moreover have "do_accesses (x # xs) s = Inr ((), s2)" using r1 r2 by (simp add: bnd_def)
  moreover have "last_allowed (x # xs) s2" using s2(4) s1(3) r2 by (cases "xs = []") (simp_all add: last_allowed_def)
  ultimately show ?case using s2(1) steady_trans [OF s1(2) s2(2)] by blast
qed

subsection \<open>Starting and stopping the library\<close>

lemma kern_inits:
  assumes "os_works s"
  shows "for_each [0..<n] (\<lambda>i _. bnd (S_kern_init i) (\<lambda>r. bnd (assertion (r = 0)) (\<lambda>_. ret r))) 0 s =
     Inr (0, s\<lparr>S_kern := (\<lambda>i. if i < n then Some i else S_kern s i), sys_calls := sys_calls s + n\<rparr>)"
proof (induction n)
  case 0
  show ?case by simp
next
  case (Suc n)
  have "(\<lambda>i. if i < n then Some i else S_kern s i)(n \<mapsto> n) = (\<lambda>i. if i < Suc n then Some i else S_kern s i)" by (auto simp: fun_eq_iff)
  then show ?case using for_each_snoc [OF Suc, of n] assms
    by (simp add: S_kern_init_def bnd_def sys_def os_works_def)
qed

definition initialised :: "'x sst_scheme \<Rightarrow> 'x sst_scheme" where
  "initialised s = s\<lparr>S_ps := OOC_PAGE_SIZE s, sigsegv := Trampoline, S_old_act := sigsegv s,
     S_kern := (\<lambda>i. if i < OOC_NUM_FIBERS then Some i else S_kern s i), S_is_init := True,
     sys_calls := sys_calls s + Suc OOC_NUM_FIBERS\<rparr>"

lemma init_run:
  assumes "os_works s"
  shows "Sched_init s = Inr (0, initialised s)"
proof -
  have "os_works (s\<lparr>S_ps := OOC_PAGE_SIZE s, sys_calls := Suc (sys_calls s), sigsegv := Trampoline, S_old_act := sigsegv s\<rparr>)"
    using assms by (simp add: os_works_def)
  from kern_inits [OF this, of OOC_NUM_FIBERS] show ?thesis
    using assms by (simp add: Sched_init_def sigaction_def sys_def bnd_def os_works_def initialised_def cong: if_cong)
qed

lemma finalize_run:
  assumes "os_works s"
  shows "ooc_finalize s = Inr (0, s\<lparr>sys_calls := Suc (sys_calls s), sigsegv := S_old_act s, S_is_init := False\<rparr>)"
  using assms by (simp add: ooc_finalize_def sigaction_def sys_def bnd_def os_works_def)

subsection \<open>Scheduling a kernel\<close>

lemma find_fiber_first: "find_fiber [0..<OOC_NUM_FIBERS] (- 1, - 1) = (- 1, 0)"
  by (simp add: OOC_NUM_FIBERS_def upt_rec)

text \<open>The fiber that runs the kernel, with its three arguments stored.\<close>

definition assigned :: "addr \<Rightarrow> 64 word \<Rightarrow> addr \<Rightarrow> 'x sst_scheme \<Rightarrow> 'x sst_scheme" where
  "assigned kern i args s = s\<lparr>S_iter := (S_iter s)(0 := i), S_kernel := (S_kernel s)(0 := kern),
     S_args := (S_args s)(0 := args), S_me := 0, sys_calls := Suc (sys_calls s)\<rparr>"

lemma sched_loop_run:
  assumes "os_works s" and "S_kern s 0 = Some 0"
    and "S_kernel_trampoline 0 (assigned kern i args s) = Inr ((), t)"
  shows "forever (sched_iter kern i args (find_fiber [0..<OOC_NUM_FIBERS] (- 1, - 1))) () s = Inr ((), t)"
  unfolding find_fiber_first
  by (rule forever_Break) (use assms in \<open>simp add: sched_iter_def bnd_def sys_def os_works_def assigned_def\<close>)

definition sched_ready :: "'x sst_scheme \<Rightarrow> addr tree \<Rightarrow> bool" where
  "sched_ready s T \<longleftrightarrow> served (s\<lparr>S_ps := OOC_PAGE_SIZE s, sigsegv := Trampoline\<rparr>) T \<and>
     (S_is_init s \<longrightarrow> S_ps s = OOC_PAGE_SIZE s \<and> sigsegv s = Trampoline \<and> S_kern s 0 = Some 0)"

lemma served_cong:
  assumes "served s T" and "vmas s' = vmas s" "vma_tree s' = vma_tree s" "openmp s' = openmp s" "OOC_PAGE_SIZE s' = OOC_PAGE_SIZE s" "frame_n s' = frame_n s"
    and "prots s' = prots s" "os_ret s' = os_ret s" "S_ps s' = S_ps s" "sigsegv s' = sigsegv s"
  shows "served s' T"
  using assms by (simp add: served_def handling_def own_pages_def dirty_ok_def tab_def idle_areas_def os_works_def)

lemma sched_ready_sane: "sched_ready s T \<longleftrightarrow> mem_sane s T \<and>
   (S_is_init s \<longrightarrow> S_ps s = OOC_PAGE_SIZE s \<and> sigsegv s = Trampoline \<and> S_kern s 0 = Some 0)"
  by (auto simp: sched_ready_def served_sane mem_sane_def own_pages_def dirty_ok_def tab_def idle_areas_def os_works_def)

text \<open>What a kernel leaves alone: the areas, the allocator and the system; flags are only added.\<close>

definition same_world :: "'x sst_scheme \<Rightarrow> 'x sst_scheme \<Rightarrow> bool" where
  "same_world s s' \<longleftrightarrow> openmp s' = openmp s \<and> blocks s' = blocks s \<and> kernels s' = kernels s \<and> os_mmap s' = os_mmap s \<and>
     os_ret s' = os_ret s \<and> dom (vmas s') = dom (vmas s) \<and> start_of (vmas s') = start_of (vmas s) \<and> end_of (vmas s') = end_of (vmas s) \<and>
     (\<forall>b n. bit (flags_of (vmas s) b) n \<longrightarrow> bit (flags_of (vmas s') b) n)"

lemma same_world_refl [simp]: "same_world s s"
  by (simp add: same_world_def)

lemma same_world_trans: "same_world s s' \<Longrightarrow> same_world s' s'' \<Longrightarrow> same_world s s''"
  by (simp add: same_world_def)

lemma sched_run:
  assumes rd: "sched_ready s T" and xs: "xs = kernels s kern i args" and ic: "\<forall>x \<in> set xs. in_core s T x"
  shows "\<exists>s' T'. ooc_sched kern i args s = Inr ((), s') \<and> served s' T' \<and> inorder T' = inorder T \<and> S_is_init s' \<and>
     stores_dirty s T xs s' \<and> S_old_act s' = (if S_is_init s then S_old_act s else sigsegv s) \<and>
     sched_ready s' T' \<and> covers (vmas s') = covers (vmas s) \<and> dom (prots s') = dom (prots s) \<and>
     OOC_PAGE_SIZE s' = OOC_PAGE_SIZE s \<and> kernels s' = kernels s \<and> last_allowed xs s' \<and> same_world s s'"
proof -
  define t where "t = (if S_is_init s then s else initialised s)"
  have ow: "os_works s" using rd by (simp add: sched_ready_def served_def handling_def os_works_def)
  have eq: "vmas t = vmas s" "OOC_PAGE_SIZE t = OOC_PAGE_SIZE s" "prots t = prots s" "kernels t = kernels s" "S_kern t 0 = Some 0"
    "S_is_init t" "S_old_act t = (if S_is_init s then S_old_act s else sigsegv s)" "os_works t"
    using rd ow by (auto simp: t_def initialised_def sched_ready_def OOC_NUM_FIBERS_def os_works_def)
  define a where "a = assigned kern i args t"
  have sv: "served a T"
    by (rule served_cong [of "s\<lparr>S_ps := OOC_PAGE_SIZE s, sigsegv := Trampoline\<rparr>"])
      (use rd in \<open>auto simp: a_def assigned_def t_def initialised_def sched_ready_def\<close>)
  have ica: "\<forall>x \<in> set xs. in_core a T x" using ic eq by (simp add: in_core_def a_def assigned_def)
  obtain s' T' where r: "do_accesses xs a = Inr ((), s')" and s': "served s' T'" "steady a T s' T'" "stores_dirty a T xs s'" "last_allowed xs s'"
    using accesses_complete [OF sv ica] by blast
  have tr: "S_kernel_trampoline 0 a = Inr ((), s')"
    using r xs eq by (simp add: S_kernel_trampoline_def bnd_def S_flush_def a_def assigned_def)
  have "ooc_sched kern i args s = Inr ((), s')"
    using sched_loop_run [OF eq(8,5) tr [unfolded a_def]] init_run [OF ow] by (cases "S_is_init s") (simp_all add: ooc_sched_def bnd_def t_def)
  moreover have "stores_dirty s T xs s'" using s'(3) eq by (simp add: stores_dirty_def a_def assigned_def)
  moreover have "inorder T' = inorder T" "S_is_init s'" "S_old_act s' = S_old_act t" using s'(2) eq by (simp_all add: steady_def same_sched_def a_def assigned_def)
  moreover have "S_kern s' 0 = Some 0" "kernels s' = kernels s" "dom (prots s') = dom (prots s)" "OOC_PAGE_SIZE s' = OOC_PAGE_SIZE s"
    using s'(2) eq by (simp_all add: steady_def same_sched_def a_def assigned_def)
  moreover have "same_world s s'" using s'(2) eq by (simp add: steady_def same_sched_def same_world_def a_def assigned_def t_def initialised_def)
  moreover have "covers (vmas s') = covers (vmas s)" using steady_facts(2) [OF s'(2)] eq by (simp add: a_def assigned_def)
  ultimately show ?thesis using s'(1,4) eq(7) by (auto simp: sched_ready_sane served_sane)
qed

end
