(* ===== verification/Malloc_Correct.thy ===== *)
theory Malloc_Correct
  imports Page_Fault
begin

section \<open>Allocating out-of-core memory\<close>

text \<open>
  \<open>ooc_malloc\<close> in its failing branches (\<open>malloc_no_memory\<close>, \<open>malloc_no_protect\<close>) and when it succeeds
  (\<open>malloc_run\<close>): the table has one area more; under the contract \<open>mapping_ok\<close> of \<open>mmap\<close> the memory it
  returns is out-of-core memory in the sense of the fault handler (\<open>malloc_served\<close>).
\<close>

subsection \<open>Rounding up to pages\<close>

lemma unat_page_of:
  assumes "ps = 2 ^ k" and "k < 64"
  shows "unat (page_of ps a) = unat a div 2 ^ k * 2 ^ k"
proof -
  have "unat a < 2 ^ LENGTH(64)" by (rule unsigned_less)
  then have "unat a mod 18446744073709551616 = unat a" by simp
  then have "unat (page_of ps a) = push_bit k (drop_bit k (unat a)) mod 2 ^ 64"
    unfolding page_of_bits(1) [OF assms(1)] by (simp add: unsigned_push_bit_eq unsigned_drop_bit_eq take_bit_eq_mod)
  also have "\<dots> = (unat a div 2 ^ k * 2 ^ k) mod 2 ^ 64" by (simp add: push_bit_eq_mult drop_bit_eq_div)
  also have "\<dots> = unat a div 2 ^ k * 2 ^ k"
  proof (rule mod_less)
    show "unat a div 2 ^ k * 2 ^ k < 2 ^ 64"
      by (rule le_less_trans [OF div_times_less_eq_dividend]) (use unsigned_less [of a] in simp)
  qed
  finally show ?thesis .
qed

lemma page_of_le: "ps = 2 ^ k \<Longrightarrow> k < 64 \<Longrightarrow> page_of ps a \<le> a"
  by (simp add: word_le_nat_alt unat_page_of)

lemma ALIGN_bounds:
  assumes ps: "ps = 2 ^ k" "k < 64" and m: "unat m + 2 ^ k \<le> 2 ^ 64"
  shows "m \<le> ALIGN ps m" and "unat (ALIGN ps m) < unat m + 2 ^ k" and "page_of ps (ALIGN ps m) = ALIGN ps m"
proof -
  have A: "ALIGN ps m = page_of ps (m + (ps - 1))" by (simp add: ALIGN_def page_of_def add_diff_eq)
  then show "page_of ps (ALIGN ps m) = ALIGN ps m" using page_of_bits(3) [OF ps(1)] by simp
  have p1: "unat (ps - 1) = 2 ^ k - 1" using unat_exp [OF ps(2)] ps(1) by (simp add: unat_sub_if_size word_le_nat_alt)
  have "unat (m + (ps - 1)) = unat m + (2 ^ k - 1)"
    using m p1 by (simp add: unat_word_ariths)
  then have u: "unat (ALIGN ps m) = (unat m + (2 ^ k - 1)) div 2 ^ k * 2 ^ k" unfolding A by (simp add: unat_page_of [OF ps])
  have "unat m + (2 ^ k - 1) = unat (ALIGN ps m) + (unat m + (2 ^ k - 1)) mod 2 ^ k" unfolding u by (rule div_mult_mod_eq [symmetric])
  moreover have "(unat m + (2 ^ k - 1)) mod 2 ^ k < 2 ^ k" by simp
  ultimately have "unat m \<le> unat (ALIGN ps m)" "unat (ALIGN ps m) < unat m + 2 ^ k" by linarith+
  then show "m \<le> ALIGN ps m" "unat (ALIGN ps m) < unat m + 2 ^ k" by (simp_all add: word_le_nat_alt)
qed

subsection \<open>ooc\_malloc\<close>

definition info_size :: "64 word \<Rightarrow> 64 word" where
  "info_size ps = ALIGN ps sizeof_vm_area"

definition map_size :: "64 word \<Rightarrow> 64 word \<Rightarrow> 64 word" where
  "map_size ps sz = info_size ps + ALIGN ps sz"

text \<open>What \<open>mmap\<close> promises: a mapping of whole pages that overlaps nothing in use.\<close>

definition mapping_ok :: "'x vst_scheme \<Rightarrow> addr set \<Rightarrow> addr \<Rightarrow> 64 word \<Rightarrow> bool" where
  "mapping_ok s A p n \<longleftrightarrow> p \<noteq> NULL \<and> p \<noteq> MAP_FAILED \<and> page_of (OOC_PAGE_SIZE s) p = p \<and> unat p + unat n < 2 ^ 64 \<and>
     p \<notin> dom (vmas s) \<and> p \<noteq> frame_n s \<and>
     (\<forall>a \<in> A. end_of (vmas s) a \<le> p \<or> p + n \<le> start_of (vmas s) a)"

lemma mmap_run:
  assumes "os_mmap s (sys_calls s) n = p" and "p \<noteq> MAP_FAILED"
  shows "mmap n prot s = Inr (p, s\<lparr>sys_calls := Suc (sys_calls s), vmas := (vmas s)(p \<mapsto> zero_area),
     prots := (\<lambda>a. if within p n a \<and> page_of (OOC_PAGE_SIZE s) a = a then Some prot else prots s a)\<rparr>)"
  using assms by (simp add: mmap_def Let_def cong: if_cong)

lemma malloc_unfold:
  "ooc_malloc sz =
     bnd (gets OOC_PAGE_SIZE) (\<lambda>ps.
     bnd (mmap (map_size ps sz) PROT_READ) (\<lambda>vma.
     if vma = MAP_FAILED then ret NULL
     else
       bnd (mprotect vma (info_size ps) (PROT_READ OR PROT_WRITE)) (\<lambda>r.
       if r \<noteq> 0 then malloc_cleanup vma (map_size ps sz)
       else
         bnd (upd_vma vma (\<lambda>v. v\<lparr>vm_start := vma + info_size ps\<rparr>)) (\<lambda>_.
         bnd (get_field vm_start vma) (\<lambda>st.
         bnd (upd_vma vma (\<lambda>v. v\<lparr>vm_end := st + sz\<rparr>)) (\<lambda>_.
         bnd (sp_tree_insert vma) (\<lambda>_.
         get_field vm_start vma)))))))"
  by (simp only: ooc_malloc_def Let_def map_size_def info_size_def)

lemma malloc_no_memory:
  assumes "os_mmap s (sys_calls s) (map_size (OOC_PAGE_SIZE s) sz) = MAP_FAILED"
  shows "ooc_malloc sz s = Inr (NULL, s\<lparr>sys_calls := Suc (sys_calls s)\<rparr>)"
  using assms by (simp add: malloc_unfold bnd_def mmap_def Let_def)

lemma malloc_no_protect:
  assumes "os_mmap s (sys_calls s) n = p" and n: "n = map_size (OOC_PAGE_SIZE s) sz" and "p \<noteq> MAP_FAILED" and "n \<noteq> 0"
    and "os_ret s Mprotect (Suc (sys_calls s)) \<noteq> 0"
  shows "os_ret s Munmap (Suc (Suc (sys_calls s))) \<noteq> 0 \<Longrightarrow> ooc_malloc sz s = Inl AssertFail"
    and "os_ret s Munmap (Suc (Suc (sys_calls s))) = 0 \<Longrightarrow> \<exists>s'. ooc_malloc sz s = Inr (NULL, s') \<and> vma_tree s' = vma_tree s \<and>
       (\<forall>a. vmas s' a = (if within p n a then None else vmas s a)) \<and> (\<forall>a. prots s' a = (if within p n a then None else prots s a))"
proof -
  note x = malloc_unfold n [symmetric] bnd_def mmap_run [OF assms(1,3)] mprotect_def sys_def malloc_cleanup_def munmap_def
  show "os_ret s Munmap (Suc (Suc (sys_calls s))) \<noteq> 0 \<Longrightarrow> ooc_malloc sz s = Inl AssertFail"
    using assms(3,5) by (simp add: x)
  assume "os_ret s Munmap (Suc (Suc (sys_calls s))) = 0"
  then show "\<exists>s'. ooc_malloc sz s = Inr (NULL, s') \<and> vma_tree s' = vma_tree s \<and>
       (\<forall>a. vmas s' a = (if within p n a then None else vmas s a)) \<and> (\<forall>a. prots s' a = (if within p n a then None else prots s a))"
    using assms(3-5) by (simp add: x) (simp add: within_def word_gt_0)
qed

text \<open>The memory after a successful call: one area more, with the pages of its data read-only.\<close>

definition map_prots :: "'x vst_scheme \<Rightarrow> addr \<Rightarrow> 64 word \<Rightarrow> 64 word \<Rightarrow> addr \<rightharpoonup> 64 word" where
  "map_prots s p info n = (\<lambda>a. if within p n a \<and> page_of (OOC_PAGE_SIZE s) a = a
     then Some (if within p info a then PROT_READ OR PROT_WRITE else PROT_READ)
     else if within p info a \<and> prots s a \<noteq> None then Some (PROT_READ OR PROT_WRITE) else prots s a)"

lemma malloc_run:
  assumes t: "tab s T" and p: "os_mmap s (sys_calls s) n = p" "n = map_size (OOC_PAGE_SIZE s) sz"
    and ok: "p \<noteq> NULL" "p \<noteq> MAP_FAILED" "p \<notin> dom (vmas s)" "p \<noteq> frame_n s" "os_ret s Mprotect (Suc (sys_calls s)) = 0"
    and st: "st = p + info_size (OOC_PAGE_SIZE s)" and new: "\<forall>a \<in> set_tree T. start_of (vmas s) a \<noteq> st"
  shows "\<exists>s' T'. ooc_malloc sz s = Inr (st, s') \<and> tab s' T' \<and>
     inorder T' = filter (\<lambda>a. start_of (vmas s) a < st) (inorder T) @ p # filter (\<lambda>a. st < start_of (vmas s) a) (inorder T) \<and>
     start_of (vmas s') = (start_of (vmas s))(p := st) \<and> end_of (vmas s') = (end_of (vmas s))(p := st + sz) \<and>
     flags_of (vmas s') = (flags_of (vmas s))(p := 0) \<and> (\<forall>a. a \<noteq> p \<longrightarrow> lock_of (vmas s') a = lock_of (vmas s) a) \<and>
     lock_idle (openmp s) (lock_of (vmas s') p) \<and> dom (vmas s') = insert p (dom (vmas s)) \<and>
     s' = hw s (vmas s') p (lock (vma_tree s)) (map_prots s p (info_size (OOC_PAGE_SIZE s)) n) (Suc (Suc (sys_calls s)))"
proof -
  let ?ps = "OOC_PAGE_SIZE s"
  let ?i = "info_size ?ps"
  define P where "P = map_prots s p ?i n"
  define h1 where "h1 = hupd p (\<lambda>v. v\<lparr>vm_end := st + sz\<rparr>) (hupd p (\<lambda>v. v\<lparr>vm_start := st\<rparr>) ((vmas s)(p \<mapsto> zero_area)))"
  define s1 where "s1 = s\<lparr>sys_calls := Suc (Suc (sys_calls s)), prots := P, vmas := h1\<rparr>"
  have mp: "mprotect p ?i (PROT_READ OR PROT_WRITE) (s\<lparr>sys_calls := Suc (sys_calls s), vmas := (vmas s)(p \<mapsto> zero_area),
     prots := (\<lambda>a. if within p n a \<and> page_of ?ps a = a then Some PROT_READ else prots s a)\<rparr>) =
     Inr (0, s\<lparr>sys_calls := Suc (Suc (sys_calls s)), vmas := (vmas s)(p \<mapsto> zero_area), prots := P\<rparr>)"
    using ok(5) by (simp add: mprotect_def sys_def bnd_def) (auto simp: P_def map_prots_def fun_eq_iff)
  have run: "ooc_malloc sz s = (case sp_tree_insert p s1 of Inl e \<Rightarrow> Inl e | Inr (_, s2) \<Rightarrow> get_field vm_start p s2)"
    using ok mp st by (simp add: malloc_unfold p(2) [symmetric] bnd_def mmap_run [OF p(1) ok(2)]) (simp add: s1_def h1_def hupd_def)
  have pT: "p \<notin> set_tree T" using t ok(3) unfolding tab_def wf_tab_def by blast
  have hs: "h1 a = vmas s a" if "a \<noteq> p" for a using that by (simp add: h1_def hupd_def)
  have vp: "start_of h1 p = st" "end_of h1 p = st + sz" "flags_of h1 p = 0" "p \<in> dom h1"
    by (simp_all add: h1_def hupd_def start_of_def end_of_def flags_of_def zero_area_def domIff)
  have va: "start_of h1 a = start_of (vmas s) a" "end_of h1 a = end_of (vmas s) a" "flags_of h1 a = flags_of (vmas s) a"
    "lock_of h1 a = lock_of (vmas s) a" if "a \<noteq> p" for a using hs [OF that] by (simp_all add: view_defs)
  have s1v: "vmas s1 = h1" "openmp s1 = openmp s" "vma_tree s1 = vma_tree s" "frame_n s1 = frame_n s" "prots s1 = P"
    by (simp_all add: s1_def)
  have "wf_tab (vmas s) (root (vma_tree s)) T" using t unfolding tab_def by blast
  then have "wf_tab h1 (root (vma_tree s)) T" by (rule wf_tab_cong) (metis hs pT)
  moreover have "h1 (frame_n s) = None" using t hs [of "frame_n s"] ok(4) unfolding tab_def by metis
  ultimately have t1: "tab s1 T" using t by (simp add: tab_def s1v)
  have n1: "\<forall>a \<in> set_tree T. start_of (vmas s1) a \<noteq> start_of (vmas s1) p"
  proof
    fix a assume a: "a \<in> set_tree T"
    then have "a \<noteq> p" using pT by blast
    then show "start_of (vmas s1) a \<noteq> start_of (vmas s1) p" using new a va(1) vp(1) by (simp add: s1v)
  qed
  obtain h T' where ins: "sp_tree_insert p s1 = Inr ((), wst s1 h p (lock (vma_tree s1)))" and wf: "wf_tab h p T'"
    and kp: "kept (node_init (openmp s1) p h1) (insert p (set_tree T)) h"
    and io: "inorder T' = filter (\<lambda>a. start_of h1 a < st) (inorder T) @ p # filter (\<lambda>a. st < start_of h1 a) (inorder T)"
    using sp_tree_insert_correct [OF t1 _ ok(1) pT n1] vp by (auto simp: s1v)
  have f: "filter (\<lambda>a. start_of h1 a < st) (inorder T) = filter (\<lambda>a. start_of (vmas s) a < st) (inorder T)"
    "filter (\<lambda>a. st < start_of h1 a) (inorder T) = filter (\<lambda>a. st < start_of (vmas s) a) (inorder T)"
    using va(1) pT by (intro filter_cong refl; metis set_inorder)+
  have v: "start_of h = start_of h1" "end_of h = end_of h1" "flags_of h = flags_of h1"
    "lock_of h = (lock_of h1)(p := released (openmp s) (lock_of h1 p))" "dom h = dom h1"
    using kp by (simp_all add: kept_def s1v vp)
  let ?s = "wst s1 h p (lock (vma_tree s1))"
  have "get_field vm_start p ?s = Inr (st, ?s)" using vp v ok(1) by (simp add: get_field_w)
  then have "ooc_malloc sz s = Inr (st, ?s)" using run ins by simp
  moreover have "tab ?s T'" using wf t1 v(5) by (simp add: tab_def s1v) (metis domIff)
  moreover have "dom h1 = insert p (dom (vmas s))" unfolding h1_def dom_hupd by auto
  ultimately show ?thesis using io f va vp v
    by (intro exI [of _ ?s] exI [of _ T']) (auto simp: fun_eq_iff s1v s1_def P_def wst_def hw_def)
qed

subsection \<open>Fresh memory is out-of-core memory\<close>

lemma page_mono: "ps = 2 ^ k \<Longrightarrow> k < 64 \<Longrightarrow> a \<le> b \<Longrightarrow> page_of ps a \<le> page_of ps b"
  by (simp add: word_le_nat_alt unat_page_of div_le_mono)

lemma page_add:
  assumes ps: "ps = 2 ^ k" and "page_of ps a = a" "page_of ps b = b"
  shows "page_of ps (a + b) = a + b"
proof -
  have "a + b = push_bit k (drop_bit k a + drop_bit k b)"
    using assms page_of_bits(1) [OF ps] by (metis push_bit_add)
  then show ?thesis using page_of_bits(2) [OF ps] by (simp add: take_bit_push_bit)
qed

lemma map_bounds:
  assumes ps: "ps = 2 ^ k" "k < 64" and sz: "0 < sz" "unat sz + unat (info_size ps) + unat ps \<le> 2 ^ 64"
    and p: "page_of ps p = p" "unat p + unat (map_size ps sz) < 2 ^ 64"
  shows "p \<le> p + info_size ps" and "p + info_size ps < p + info_size ps + sz" and "p + info_size ps + sz \<le> p + map_size ps sz"
    and "page_of ps (p + info_size ps) = p + info_size ps" and "page_of ps (p + map_size ps sz) = p + map_size ps sz"
    and "unat (p + map_size ps sz) = unat p + unat (map_size ps sz)" and "unat (p + info_size ps) = unat p + unat (info_size ps)"
    and "unat (info_size ps) < unat (map_size ps sz)"
proof -
  have up: "unat ps = 2 ^ k" using unat_exp [OF ps(2)] ps(1) by simp
  have k63: "(2::nat) ^ k \<le> 2 ^ 63" using ps(2) by (intro power_increasing) simp_all
  have i: "page_of ps (info_size ps) = info_size ps"
    using ALIGN_bounds(3) [OF ps, of sizeof_vm_area] k63 by (simp add: info_size_def sizeof_vm_area_def)
  have d: "sz \<le> ALIGN ps sz" "unat (ALIGN ps sz) < unat sz + 2 ^ k" "page_of ps (ALIGN ps sz) = ALIGN ps sz"
    using ALIGN_bounds [OF ps, of sz] sz(2) up by simp_all
  have s0: "0 < unat sz" "unat sz \<le> unat (ALIGN ps sz)" using sz(1) d(1) by (simp_all add: word_less_nat_alt word_le_nat_alt)
  have m: "unat (map_size ps sz) = unat (info_size ps) + unat (ALIGN ps sz)"
    using sz(2) d(2) up by (simp add: map_size_def unat_word_ariths)
  show us: "unat (p + info_size ps) = unat p + unat (info_size ps)" using p(2) m by (simp add: unat_word_ariths)
  show um: "unat (p + map_size ps sz) = unat p + unat (map_size ps sz)" using p(2) by (simp add: unat_word_ariths)
  have ue: "unat (p + info_size ps + sz) = unat p + unat (info_size ps) + unat sz"
    using p(2) m us s0 by (simp add: unat_word_ariths)
  show "p \<le> p + info_size ps" "p + info_size ps < p + info_size ps + sz" "p + info_size ps + sz \<le> p + map_size ps sz"
    using us um ue m s0 by (simp_all add: word_le_nat_alt word_less_nat_alt)
  show "page_of ps (p + info_size ps) = p + info_size ps" by (rule page_add [OF ps(1) p(1) i])
  show "page_of ps (p + map_size ps sz) = p + map_size ps sz"
    using page_add [OF ps(1) p(1) page_add [OF ps(1) i d(3)]] by (simp add: map_size_def)
  show "unat (info_size ps) < unat (map_size ps sz)" using m s0 by simp
qed

lemma within_iff:
  assumes "unat (p + n) = unat p + unat n"
  shows "within p n q \<longleftrightarrow> p \<le> q \<and> q < p + n"
proof -
  have "unat p + unat n < 2 ^ LENGTH(64)" unfolding assms [symmetric] by (rule unsigned_less)
  then show ?thesis unfolding within_def word_less_nat_alt word_le_nat_alt assms
    by (auto simp: unat_sub_if_size word_size)
qed

definition area_added :: "'x vst_scheme \<Rightarrow> addr \<Rightarrow> addr \<Rightarrow> addr \<Rightarrow> 'x vst_scheme \<Rightarrow> bool" where
  "area_added s p st en s' \<longleftrightarrow> dom (vmas s') = insert p (dom (vmas s)) \<and> start_of (vmas s') = (start_of (vmas s))(p := st) \<and>
     end_of (vmas s') = (end_of (vmas s))(p := en) \<and> sys_calls s' = Suc (Suc (sys_calls s))"

lemma malloc_sane:
  fixes s :: "'x sst_scheme"
  assumes sv: "mem_sane s T" and sz: "0 < sz" "unat sz + unat (info_size (OOC_PAGE_SIZE s)) + unat (OOC_PAGE_SIZE s) \<le> 2 ^ 64"
    and p: "os_mmap s (sys_calls s) n = p" "n = map_size (OOC_PAGE_SIZE s) sz" and mo: "mapping_ok s (set_tree T) p n"
  shows "\<exists>st s' T'. ooc_malloc sz s = Inr (st, s') \<and> mem_sane s' T' \<and> same_sched s s' \<and> set_tree T' = insert p (set_tree T) \<and>
     (\<forall>x. covers (vmas s') p x \<longleftrightarrow> st \<le> x \<and> x - st < sz) \<and>
     (\<forall>x. covers (vmas s') p x \<longrightarrow> prots s' (page_of (OOC_PAGE_SIZE s) x) = Some PROT_READ) \<and>
     (\<forall>a \<in> set_tree T. covers (vmas s') a = covers (vmas s) a) \<and> st = p + info_size (OOC_PAGE_SIZE s) \<and>
     (\<forall>a \<in> set_tree T. \<forall>x. covers (vmas s) a x \<longrightarrow> prots s' (page_of (OOC_PAGE_SIZE s) x) = prots s (page_of (OOC_PAGE_SIZE s) x)) \<and>
     area_added s p st (st + sz) s'"
proof -
  let ?ps = "OOC_PAGE_SIZE s"
  define st where "st = p + info_size ?ps"
  obtain k where k: "?ps = 2 ^ k" "k < 64" using sv by (auto simp: mem_sane_def)
  have t: "tab s T" and rg: "ranges (vmas s) (inorder T)" using sv by (simp_all add: mem_sane_def)
  have m: "p \<noteq> NULL" "p \<noteq> MAP_FAILED" "page_of ?ps p = p" "unat p + unat n < 2 ^ 64" "p \<notin> dom (vmas s)" "p \<noteq> frame_n s"
    and far: "\<forall>a \<in> set_tree T. end_of (vmas s) a \<le> p \<or> p + n \<le> start_of (vmas s) a" using mo by (simp_all add: mapping_ok_def)
  note b = map_bounds [OF k sz m(3) m(4) [unfolded p(2)], folded p(2) st_def]
  have pT: "p \<notin> set_tree T" using t m(5) unfolding tab_def wf_tab_def by blast
  have ne: "start_of (vmas s) a < end_of (vmas s) a" if "a \<in> set_tree T" for a using rg that by (simp add: ranges_def)
  have new: "\<forall>a \<in> set_tree T. start_of (vmas s) a \<noteq> st"
  proof
    fix a assume a: "a \<in> set_tree T"
    show "start_of (vmas s) a \<noteq> st" using bspec [OF far a] ne [OF a] b(1-3) by auto
  qed
  have mpo: "os_ret s Mprotect (Suc (sys_calls s)) = 0" using sv by (simp add: mem_sane_def os_works_def)
  obtain s' T' where run: "ooc_malloc sz s = Inr (st, s')" and t': "tab s' T'"
    and io: "inorder T' = filter (\<lambda>a. start_of (vmas s) a < st) (inorder T) @ p # filter (\<lambda>a. st < start_of (vmas s) a) (inorder T)"
    and v: "start_of (vmas s') = (start_of (vmas s))(p := st)" "end_of (vmas s') = (end_of (vmas s))(p := st + sz)"
      "flags_of (vmas s') = (flags_of (vmas s))(p := 0)" "\<forall>a. a \<noteq> p \<longrightarrow> lock_of (vmas s') a = lock_of (vmas s) a"
      "lock_idle (openmp s) (lock_of (vmas s') p)"
    and dm: "dom (vmas s') = insert p (dom (vmas s))"
    and e: "s' = hw s (vmas s') p (lock (vma_tree s)) (map_prots s p (info_size ?ps) n) (Suc (Suc (sys_calls s)))"
    using malloc_run [OF t p m(1,2,5,6) mpo st_def new] by (elim exE conjE) (rule that)
  have f: "openmp s' = openmp s" "OOC_PAGE_SIZE s' = ?ps" "S_ps s' = S_ps s" "sigsegv s' = sigsegv s" "os_ret s' = os_ret s"
    "prots s' = map_prots s p (info_size ?ps) n" by (subst e, simp add: hw_def)+
  have st': "set_tree T' = insert p (set_tree T)"
  proof -
    have "set (inorder T') = insert p (set (inorder T))" unfolding io using new by (auto simp: neq_iff)
    then show ?thesis by simp
  qed
  have cp: "covers (vmas s') p x \<longleftrightarrow> st \<le> x \<and> x < st + sz" for x by (simp add: covers_def v)
  have co: "covers (vmas s') a = covers (vmas s) a" if "a \<in> set_tree T" for a
    using that pT by (auto simp: covers_def v fun_eq_iff)
  text \<open>The pages of the new area lie inside the mapping, those of the others outside.\<close>
  have inside: "p \<le> page_of ?ps x \<and> st \<le> page_of ?ps x \<and> page_of ?ps x < p + n" if "covers (vmas s') p x" for x
  proof -
    have "st \<le> page_of ?ps x" using that page_mono [OF k, of st x] b(4) by (simp add: cp)
    moreover have "x < st + sz" using that by (simp add: cp)
    then have "page_of ?ps x < p + n" using page_of_le [OF k, of x] b(3) by (meson le_less_trans less_le_trans)
    ultimately show ?thesis using b(1) by simp
  qed
  have outside: "page_of ?ps x < p \<or> p + n \<le> page_of ?ps x" if "a \<in> set_tree T" "covers (vmas s) a x" for a x
  proof (cases "end_of (vmas s) a \<le> p")
    case True
    then show ?thesis using that(2) page_of_le [OF k, of x] unfolding covers_def by (meson le_less_trans less_le_trans)
  next
    case False
    then have "p + n \<le> x" using bspec [OF far that(1)] that(2) unfolding covers_def by (meson order.trans)
    then show ?thesis using page_mono [OF k] b(5) by metis
  qed
  note wi = within_iff [OF b(6)] and wj = within_iff [OF b(7) [unfolded st_def]]
  have pin: "prots s' (page_of ?ps x) = Some PROT_READ" if "covers (vmas s') p x" for x
  proof -
    have "\<not> page_of ?ps x < st" using inside [OF that] by (simp add: not_less)
    then show ?thesis using inside [OF that] page_of_bits(3) [OF k(1)] by (simp add: f map_prots_def wi wj st_def [symmetric])
  qed
  have pout: "prots s' (page_of ?ps x) = prots s (page_of ?ps x)" if "a \<in> set_tree T" "covers (vmas s) a x" for a x
    using outside [OF that] b(2,3) by (auto simp: f map_prots_def wi wj st_def [symmetric])
  have apart: "page_of ?ps x \<noteq> page_of ?ps y" if "a \<in> set_tree T" "covers (vmas s) a x" "covers (vmas s') p y" for a x y
    using outside [OF that(1,2)] inside [OF that(3)] by auto
  have core: "tab s' T' \<and> ranges (vmas s') (inorder T') \<and> idle_areas s' (set_tree T') \<and> os_works s' \<and>
     (\<forall>q. prots s' q \<noteq> None \<longrightarrow> page_of ?ps q = q)"
  proof -
    have "ranges (vmas s') (inorder T')" unfolding io
      by (rule ranges_new_area [OF rg _ b(1-3)]) (use far pT v in simp_all)
    moreover have "idle_areas s' (set_tree T')" using sv v(4,5) pT by (auto simp: mem_sane_def idle_areas_def st' f)
    moreover have "page_of ?ps q = q" if "prots s' q \<noteq> None" for q
      using that sv by (auto simp: f map_prots_def mem_sane_def split: if_splits)
    ultimately show ?thesis using t' sv by (simp add: mem_sane_def f os_works_def)
  qed
  moreover have "own_pages s' T'" unfolding own_pages_def st' f
  proof (intro ballI allI impI)
    fix a c x y assume q: "a \<in> insert p (set_tree T)" "c \<in> insert p (set_tree T)" "covers (vmas s') a x" "covers (vmas s') c y"
      "page_of ?ps x = page_of ?ps y"
    have own: "own_pages s T" using sv by (simp add: mem_sane_def)
    consider "a = p" "c = p" | "a = p" "c \<in> set_tree T" | "a \<in> set_tree T" "c = p" | "a \<in> set_tree T" "c \<in> set_tree T" using q(1,2) by blast
    then show "a = c"
    proof cases
      case 2
      then show ?thesis using apart [of c y x] q(3-5) co by simp
    next
      case 3
      then show ?thesis using apart [of a x y] q(3-5) co by simp
    next
      case 4
      have "covers (vmas s) a x" "covers (vmas s) c y" using 4 q(3,4) co by simp_all
      then show ?thesis using own 4 q(5) unfolding own_pages_def by blast
    qed simp
  qed
  moreover have "dirty_ok s' T'" unfolding dirty_ok_def st' f(2)
  proof (intro ballI allI impI)
    fix a x q assume a: "a \<in> insert p (set_tree T)" "covers (vmas s') a x" "prots s' (page_of ?ps x) = Some q" "permits (Store x) q"
    show "bit (flags_of (vmas s') a) 4"
    proof (cases "a = p")
      case True
      then have "q = PROT_READ" using a(2,3) pin by simp
      then show ?thesis using a(4) by (simp add: permits_def PROT_READ_def PROT_WRITE_def)
    next
      case False
      then have aT: "a \<in> set_tree T" using a(1) by simp
      then have "prots s (page_of ?ps x) = Some q" "covers (vmas s) a x" using a(2,3) co pout by simp_all
      then show ?thesis using sv aT a(4) False by (auto simp: mem_sane_def dirty_ok_def v)
    qed
  qed
  ultimately have "mem_sane s' T'" using k by (auto simp: mem_sane_def f(2))
  moreover have "same_sched s s'" by (subst e) (simp add: same_sched_def hw_def)
  moreover have "area_added s p st (st + sz) s'" using dm v unfolding area_added_def by (subst e) (simp add: hw_def)
  moreover have "x - st < sz \<longleftrightarrow> x < st + sz" if "st \<le> x" for x
  proof -
    have "unat (st + sz) = unat st + unat sz" using unat_plus_simple [of st sz] b(2) by (simp add: less_imp_le)
    then show ?thesis using within_iff [of st sz x] that by (simp add: within_def)
  qed
  ultimately show ?thesis using run st' cp pin co pout st_def by (intro exI [of _ st] exI [of _ s'] exI [of _ T']) auto
qed

lemma malloc_served:
  fixes s :: "'x sst_scheme"
  assumes "served s T" and "0 < sz" "unat sz + unat (info_size (OOC_PAGE_SIZE s)) + unat (OOC_PAGE_SIZE s) \<le> 2 ^ 64"
    and "os_mmap s (sys_calls s) n = p" "n = map_size (OOC_PAGE_SIZE s) sz" and "mapping_ok s (set_tree T) p n"
  shows "\<exists>st s' T'. ooc_malloc sz s = Inr (st, s') \<and> served s' T' \<and> set_tree T' = insert p (set_tree T) \<and>
     (\<forall>x. covers (vmas s') p x \<longleftrightarrow> st \<le> x \<and> x - st < sz) \<and>
     (\<forall>x. covers (vmas s') p x \<longrightarrow> prots s' (page_of (OOC_PAGE_SIZE s) x) = Some PROT_READ) \<and>
     (\<forall>a \<in> set_tree T. covers (vmas s') a = covers (vmas s) a)"
proof -
  have sn: "mem_sane s T" using assms(1) by (simp add: served_sane)
  obtain st s' T' where r: "ooc_malloc sz s = Inr (st, s')" "mem_sane s' T'" "same_sched s s'" "set_tree T' = insert p (set_tree T)"
     "\<forall>x. covers (vmas s') p x \<longleftrightarrow> st \<le> x \<and> x - st < sz"
     "\<forall>x. covers (vmas s') p x \<longrightarrow> prots s' (page_of (OOC_PAGE_SIZE s) x) = Some PROT_READ"
     "\<forall>a \<in> set_tree T. covers (vmas s') a = covers (vmas s) a"
    using malloc_sane [OF sn assms(2-6)] by (elim exE conjE) (rule that)
  have "served s' T'" using r(2,3) assms(1) by (simp add: served_sane same_sched_def)
  then show ?thesis using r by blast
qed

subsection \<open>ooc\_free\<close>

text \<open>
  \<open>ooc_free\<close> takes the lock of the area and then removes the area from the table, which destroys
  that lock and gives the area to the allocator \<open>vma_free\<close>, from which it never came.
\<close>

lemma free_fails:
  fixes s :: "'x vst_scheme"
  assumes t: "tab s T" and rg: "ranges (vmas s) (inorder T)"
    and a: "a \<in> set_tree T" "covers (vmas s) a x" "lock_idle (openmp s) (lock_of (vmas s) a)"
    and nb: "S_vma_2block a \<noteq> NULL" "S_vma_2block a \<notin> dom (blocks s)"
  shows "ooc_free x s = Inl (if openmp s then BadLock else BadPtr (S_vma_2block a))"
proof -
  obtain h r where run: "sp_tree_find_and_lock x s = Inr (a, wst s h r (lock (vma_tree s)))"
    and wf: "wf_tab h r (splay (start_of (vmas s)) x T)"
    and kp: "kept (hupd a (\<lambda>v. v\<lparr>vm_lock := got (openmp s) (lock_of (vmas s) a)\<rparr>) (vmas s)) (set_tree T) h"
    using sp_tree_find_correct [OF t rg a] by blast
  let ?s = "wst s h r (lock (vma_tree s))" and ?T = "splay (start_of (vmas s)) x T"
  have ad: "a \<in> dom (vmas s)" "a \<noteq> NULL" using t a(1) wf_tab_links(5,6) unfolding tab_def by blast+
  have hv: "dom h = dom (vmas s)" "lock_of h a = got (openmp s) (lock_of (vmas s) a)"
    using kp ad by (simp_all add: kept_def insert_absorb)
  have "h (frame_n s) = None" using t hv(1) by (metis domIff tab_def)
  then have t2: "tab ?s ?T" using wf t by (simp add: tab_def)
  have a2: "a \<in> set_tree ?T" using a(1) by simp
  obtain h2 r2 J where rem: "sp_tree_remove vma_free (start_of h a) ?s =
       bnd (S_sp_node_free vma_free a) (\<lambda>_. upd_tree_lock lock_let) (wst ?s h2 r2 (got (openmp s) (lock (vma_tree s))))"
    and k2: "kept h (set_tree ?T) h2" and ad2: "a \<in> dom h2"
    using remove_reach [OF t2 a2] by auto
  have l2: "lock_of h2 a = got (openmp s) (lock_of (vmas s) a)" using k2 hv(2) by (simp add: kept_def)
  have bl: "blocks (wst s h' r' l') = blocks s" for h' r' l' by (simp add: wst_def)
  have nf: "S_sp_node_free vma_free a (wst s h2 r2 g) = Inl (if openmp s then BadLock else BadPtr (S_vma_2block a))" for g
  proof (cases "openmp s")
    case True
    then show ?thesis using ad2 ad(2) l2 by (simp add: S_sp_node_free_def bnd_def lock_free_def got_def)
  next
    case False
    have "rd_blk (S_vma_2block a) (wst s h' r2 g) = Inl (BadPtr (S_vma_2block a))" for h'
      using nb by (auto simp: rd_blk_def bl split: option.splits)
    then show ?thesis using ad2 ad(2) False
      by (simp add: S_sp_node_free_def bnd_def lock_free_def vma_free_def Let_def blk_LOCK_GET_def)
  qed
  have "get_field vm_start a ?s = Inr (start_of h a, ?s)" using ad hv(1) by simp
  then show ?thesis using run rem nf by (simp add: ooc_free_def bnd_def)
qed

end
