(* ===== verification/Ooc_Trace.thy ===== *)
theory Ooc_Trace
  imports Sched_Correct Malloc_Correct
begin

section \<open>Runs of the library\<close>

text \<open>
  The program as its clients see it: blocks of out-of-core memory are allocated, kernels run over
  them, and the library is finalized (and set up again by the next kernel). A state is the memory
  together with the set of areas in the page table. \<open>ooc_free\<close> has no step, because it hands
  memory that is not the allocator's to \<open>vma_free\<close>, where the model ends (\<open>ooc_free_of_an_allocation\<close>).
\<close>

datatype oevent = Malloc "64 word" addr | Sched addr "64 word" addr | Final

definition fits :: "64 word \<Rightarrow> 64 word \<Rightarrow> bool" where
  "fits ps sz \<longleftrightarrow> 0 < sz \<and> unat sz + unat (info_size ps) + unat ps \<le> 2 ^ 64"

definition covered :: "'x sst_scheme \<Rightarrow> addr set \<Rightarrow> access \<Rightarrow> bool" where
  "covered s A x \<longleftrightarrow> (\<exists>a \<in> A. covers (vmas s) a (addr_of x))"

text \<open>
  The pages of all areas are mapped; the memory of the system lies apart from the areas it has
  already given, and is given in whole pages.
\<close>

inductive ostep :: "'x sst_scheme \<times> addr set \<Rightarrow> oevent \<Rightarrow> 'x sst_scheme \<times> addr set \<Rightarrow> bool" where
  Malloc: "fits (OOC_PAGE_SIZE s) sz \<Longrightarrow> p = os_mmap s (sys_calls s) (map_size (OOC_PAGE_SIZE s) sz) \<Longrightarrow>
    mapping_ok s A p (map_size (OOC_PAGE_SIZE s) sz) \<Longrightarrow> ooc_malloc sz s = Inr (st, s') \<Longrightarrow>
    ostep (s, A) (Malloc sz st) (s', insert p A)"
| Sched: "\<forall>x \<in> set (kernels s kern i args). covered s A x \<Longrightarrow> ooc_sched kern i args s = Inr ((), s') \<Longrightarrow>
    ostep (s, A) (Sched kern i args) (s', A)"
| Final: "ooc_finalize s = Inr (r, s') \<Longrightarrow> ostep (s, A) Final (s', A)"

definition started :: "'x sst_scheme \<Rightarrow> bool" where
  "started s \<longleftrightarrow> root (vma_tree s) = NULL \<and> lock_idle (openmp s) (lock (vma_tree s)) \<and> vmas s (frame_n s) = None \<and>
     frame_n s \<noteq> NULL \<and> (\<exists>k<64. OOC_PAGE_SIZE s = 2 ^ k) \<and> os_works s \<and> prots s = Map.empty \<and> \<not> S_is_init s"

inductive oreach :: "'x sst_scheme \<times> addr set \<Rightarrow> bool" where
  start: "started s \<Longrightarrow> oreach (s, {})"
| step: "oreach c \<Longrightarrow> ostep c e c' \<Longrightarrow> oreach c'"

definition mapped :: "'x sst_scheme \<Rightarrow> addr set \<Rightarrow> bool" where
  "mapped s A \<longleftrightarrow> (\<forall>a \<in> A. \<forall>x. covers (vmas s) a x \<longrightarrow> page_of (OOC_PAGE_SIZE s) x \<in> dom (prots s))"

definition oinv :: "'x sst_scheme \<Rightarrow> addr set \<Rightarrow> addr tree \<Rightarrow> bool" where
  "oinv s A T \<longleftrightarrow> sched_ready s T \<and> set_tree T = A \<and> mapped s A"

lemma covered_in_core: "oinv s A T \<Longrightarrow> covered s A x \<Longrightarrow> in_core s T x"
  by (auto simp: oinv_def covered_def in_core_def mapped_def)

lemma started_inv: "started s \<Longrightarrow> oinv s {} Leaf"
  by (auto simp: started_def oinv_def sched_ready_sane mem_sane_def mapped_def tab_def wf_tab_def dll_def ranges_def
      idle_areas_def own_pages_def dirty_ok_def)

subsection \<open>Every step keeps the invariant\<close>

lemma mem_sane_cong:
  assumes "mem_sane s T" and "vmas s' = vmas s" "vma_tree s' = vma_tree s" "openmp s' = openmp s" "OOC_PAGE_SIZE s' = OOC_PAGE_SIZE s"
    and "frame_n s' = frame_n s" "prots s' = prots s" "os_ret s' = os_ret s"
  shows "mem_sane s' T"
  using assms by (simp add: mem_sane_def own_pages_def dirty_ok_def tab_def idle_areas_def os_works_def)

lemma malloc_step:
  assumes i: "oinv s A T" and f: "fits (OOC_PAGE_SIZE s) sz" and p: "p = os_mmap s (sys_calls s) (map_size (OOC_PAGE_SIZE s) sz)"
    and m: "mapping_ok s A p (map_size (OOC_PAGE_SIZE s) sz)"
  shows "\<exists>s' T'. ooc_malloc sz s = Inr (p + info_size (OOC_PAGE_SIZE s), s') \<and> oinv s' (insert p A) T' \<and> same_sched s s' \<and>
     (\<forall>x. covers (vmas s') p x \<longleftrightarrow> p + info_size (OOC_PAGE_SIZE s) \<le> x \<and> x - (p + info_size (OOC_PAGE_SIZE s)) < sz) \<and>
     (\<forall>x. covers (vmas s') p x \<longrightarrow> prots s' (page_of (OOC_PAGE_SIZE s) x) = Some PROT_READ) \<and>
     (\<forall>a \<in> A. covers (vmas s') a = covers (vmas s) a) \<and>
     area_added s p (p + info_size (OOC_PAGE_SIZE s)) (p + info_size (OOC_PAGE_SIZE s) + sz) s'"
proof -
  have sn: "mem_sane s T" and A: "set_tree T = A" and mp: "mapped s A" using i by (simp_all add: oinv_def sched_ready_sane)
  have sz: "0 < sz" "unat sz + unat (info_size (OOC_PAGE_SIZE s)) + unat (OOC_PAGE_SIZE s) \<le> 2 ^ 64" using f by (simp_all add: fits_def)
  obtain st s' T' where r: "ooc_malloc sz s = Inr (st, s')" "mem_sane s' T'" "same_sched s s'" "set_tree T' = insert p (set_tree T)"
     "\<forall>x. covers (vmas s') p x \<longleftrightarrow> st \<le> x \<and> x - st < sz"
     "\<forall>x. covers (vmas s') p x \<longrightarrow> prots s' (page_of (OOC_PAGE_SIZE s) x) = Some PROT_READ"
     "\<forall>a \<in> set_tree T. covers (vmas s') a = covers (vmas s) a" "st = p + info_size (OOC_PAGE_SIZE s)"
     "\<forall>a \<in> set_tree T. \<forall>x. covers (vmas s) a x \<longrightarrow> prots s' (page_of (OOC_PAGE_SIZE s) x) = prots s (page_of (OOC_PAGE_SIZE s) x)"
     "area_added s p st (st + sz) s'"
    using malloc_sane [OF sn sz p [symmetric] refl m [folded A]] by (elim exE conjE) (rule that)
  have "mapped s' (insert p A)" using mp r(6,7,9) same_schedD(2) [OF r(3)] unfolding mapped_def A by (auto simp: domIff)
  moreover have "sched_ready s' T'" using r(2) i same_schedD [OF r(3)] by (simp add: sched_ready_sane oinv_def)
  ultimately have "oinv s' (insert p A) T'" using r(4) A by (simp add: oinv_def)
  then show ?thesis using r A by (intro exI [of _ s'] exI [of _ T']) simp
qed

lemma sched_step:
  assumes i: "oinv s A T" and x: "\<forall>x \<in> set (kernels s kern i args). covered s A x"
  shows "\<exists>s' T'. ooc_sched kern i args s = Inr ((), s') \<and> oinv s' A T' \<and> stores_dirty s T (kernels s kern i args) s' \<and>
     S_is_init s' \<and> sigsegv s' = Trampoline \<and> S_old_act s' = (if S_is_init s then S_old_act s else sigsegv s) \<and>
     covers (vmas s') = covers (vmas s) \<and> OOC_PAGE_SIZE s' = OOC_PAGE_SIZE s \<and> last_allowed (kernels s kern i args) s' \<and> same_world s s'"
proof -
  have rd: "sched_ready s T" and A: "set_tree T = A" using i by (simp_all add: oinv_def)
  have ic: "\<forall>x \<in> set (kernels s kern i args). in_core s T x" using x covered_in_core [OF i] by blast
  obtain s' T' where r: "ooc_sched kern i args s = Inr ((), s')" "served s' T'" "inorder T' = inorder T" "S_is_init s'"
     "stores_dirty s T (kernels s kern i args) s'" "S_old_act s' = (if S_is_init s then S_old_act s else sigsegv s)"
     "sched_ready s' T'" "covers (vmas s') = covers (vmas s)" "dom (prots s') = dom (prots s)" "OOC_PAGE_SIZE s' = OOC_PAGE_SIZE s"
     "last_allowed (kernels s kern i args) s'" "same_world s s'"
    using sched_run [OF rd refl ic] by (elim exE conjE) (rule that)
  have "set_tree T' = A" using r(3) A by (metis set_inorder)
  then have "oinv s' A T'" using r(7-10) i by (simp add: oinv_def mapped_def)
  moreover have "sigsegv s' = Trampoline" using r(2) by (simp add: served_sane)
  ultimately show ?thesis using r(1,4,5,6,8,10-12) by blast
qed

lemma final_step:
  assumes i: "oinv s A T"
  shows "\<exists>s'. ooc_finalize s = Inr (0, s') \<and> oinv s' A T \<and> \<not> S_is_init s' \<and> sigsegv s' = S_old_act s"
proof -
  have sn: "mem_sane s T" using i by (simp add: oinv_def sched_ready_sane)
  then have ow: "os_works s" by (simp add: mem_sane_def)
  let ?s = "s\<lparr>sys_calls := Suc (sys_calls s), sigsegv := S_old_act s, S_is_init := False\<rparr>"
  have "mem_sane ?s T" using sn by (rule mem_sane_cong) simp_all
  then have "oinv ?s A T" using i by (simp add: oinv_def sched_ready_sane mapped_def)
  then show ?thesis using finalize_run [OF ow] by simp
qed

lemma ostep_inv:
  assumes "ostep (s, A) e (s', A')" and "oinv s A T"
  shows "\<exists>T'. oinv s' A' T'"
  using assms(1)
proof (cases rule: ostep.cases)
  case (Malloc sz p st)
  then show ?thesis using malloc_step [OF assms(2) Malloc(3,4,5)] by auto
next
  case (Sched kern i args)
  then show ?thesis using sched_step [OF assms(2) Sched(3)] by auto
next
  case (Final r)
  then show ?thesis using final_step [OF assms(2)] by auto
qed

lemma oreach_inv: "oreach c \<Longrightarrow> \<exists>T. oinv (fst c) (snd c) T"
proof (induction rule: oreach.induct)
  case (start s)
  then show ?case using started_inv by auto
next
  case (step c e c')
  then show ?case using ostep_inv by (metis prod.collapse)
qed

subsection \<open>A first run\<close>

text \<open>
  A system that always succeeds, pages of 4096 bytes, and kernels that read the first word of their
  argument and read and write the word number \<open>i\<close>.
\<close>

definition demo_kernel :: "64 word \<Rightarrow> addr \<Rightarrow> access list" where
  "demo_kernel i a = [Load a, Load (a + 8 * i), Store (a + 8 * i)]"

definition demo :: sst where
  "demo = \<lparr>openmp = True, OOC_PAGE_SIZE = 4096, vmas = Map.empty, vma_tree = \<lparr>root = NULL, lock = Unlocked\<rparr>, frame_n = 0x40,
     blocks = Map.empty, superblocks = Map.empty, mpools = Map.empty, S_init = (\<lambda>_. 0), self = 0x50,
     S_gpool = \<lparr>gp_actr = 0, gp_lctr = 0, gp_mlctr = 0, gp_blctr = 0, gp_slctr = 0, gp_lock = Uninit, gp_head = NULL\<rparr>,
     os_alloc = (\<lambda>A n. NULL), os_calls = 0, os_vma = (\<lambda>_. zero_area),
     os_blk = (\<lambda>_. \<lparr>b_vctr = 0, b_lctr = 0, b_lock = Uninit, b_head = NULL, b_superblock = NULL, b_mpool = NULL, b_prev = NULL, b_next = NULL\<rparr>),
     os_sb = (\<lambda>_. \<lparr>sb_bctr = 0, sb_lctr = 0, sb_blctr = 0, sb_lock = Uninit, sb_head = NULL, sb_prev = NULL, sb_next = NULL\<rparr>),
     prots = Map.empty, os_mmap = (\<lambda>n len. 0x10000000 * (of_nat n + 1)), os_ret = (\<lambda>c n. 0), sys_calls = 0,
     S_iter = (\<lambda>_. 0), S_args = (\<lambda>_. NULL), S_kernel = (\<lambda>_. NULL), S_addr = (\<lambda>_. NULL), S_kern = (\<lambda>_. None), S_me = 0,
     S_old_act = SIG_DFL, S_ps = 0, S_is_init = False, sigsegv = SIG_DFL, kernels = (\<lambda>k i a. demo_kernel i a)\<rparr>"

lemma demo_sel [simp]:
  "OOC_PAGE_SIZE demo = 4096" "sys_calls demo = 0" "os_mmap demo n len = 0x10000000 * (of_nat n + 1)" "sigsegv demo = SIG_DFL"
  "S_is_init demo = False" "kernels demo k i a = demo_kernel i a" "vmas demo = Map.empty" "openmp demo = True" "frame_n demo = 0x40"
  "blocks demo = Map.empty" "os_ret demo c n = 0"
  by (simp_all add: demo_def)

lemma demo_started: "started demo"
proof -
  have "\<exists>k<64. (4096 :: 64 word) = 2 ^ k" by (rule exI [of _ 12]) simp
  then show ?thesis by (auto simp: started_def demo_def os_works_def lock_idle_def)
qed

lemma demo_oreach: "oreach (demo, {})"
  using demo_started by (rule oreach.start)

lemma demo_sizes: "info_size 4096 = 4096" "map_size 4096 10000 = 0x4000" "fits 4096 10000"
proof -
  show i: "info_size 4096 = 4096" by (simp add: info_size_def ALIGN_def sizeof_vm_area_def)
  show "map_size 4096 10000 = 0x4000" by (simp add: map_size_def i) (simp add: ALIGN_def)
  show "fits 4096 10000" by (simp add: fits_def i)
qed

lemma demo_mapping: "mapping_ok demo {} 0x10000000 0x4000"
  by (simp add: mapping_ok_def MAP_FAILED_def page_of_def)

lemma first_malloc:
  obtains s where "ooc_malloc 10000 demo = Inr (0x10001000, s)" "ostep (demo, {}) (Malloc 10000 0x10001000) (s, {0x10000000})"
    "oreach (s, {0x10000000})" "same_sched demo s" "\<forall>x. covers (vmas s) 0x10000000 x \<longleftrightarrow> 0x10001000 \<le> x \<and> x - 0x10001000 < 10000"
    "\<forall>x. covers (vmas s) 0x10000000 x \<longrightarrow> prots s (page_of 4096 x) = Some PROT_READ"
proof -
  obtain T where i: "oinv demo {} T" using oreach_inv [OF demo_oreach] by auto
  have m: "mapping_ok demo {} 0x10000000 (map_size (OOC_PAGE_SIZE demo) 10000)" using demo_mapping by (simp add: demo_sizes)
  have p: "0x10000000 = os_mmap demo (sys_calls demo) (map_size (OOC_PAGE_SIZE demo) 10000)" by simp
  have f: "fits (OOC_PAGE_SIZE demo) 10000" using demo_sizes(3) by simp
  obtain s T' where r: "ooc_malloc 10000 demo = Inr (0x10000000 + info_size (OOC_PAGE_SIZE demo), s)" "same_sched demo s"
     "\<forall>x. covers (vmas s) 0x10000000 x \<longleftrightarrow> 0x10000000 + info_size (OOC_PAGE_SIZE demo) \<le> x \<and> x - (0x10000000 + info_size (OOC_PAGE_SIZE demo)) < 10000"
     "\<forall>x. covers (vmas s) 0x10000000 x \<longrightarrow> prots s (page_of (OOC_PAGE_SIZE demo) x) = Some PROT_READ"
    using malloc_step [OF i f p m] by blast
  have e: "ooc_malloc 10000 demo = Inr (0x10001000, s)" using r(1) by (simp add: demo_sizes)
  note st = ostep.Malloc [OF f p m e]
  show thesis by (rule that [OF e st oreach.step [OF demo_oreach st] r(2)]) (use r(3,4) in \<open>simp_all add: demo_sizes\<close>)
qed

lemma demo_covered:
  assumes "\<forall>x. covers (vmas s) 0x10000000 x \<longleftrightarrow> 0x10001000 \<le> x \<and> x - 0x10001000 < 10000" and "same_sched demo s"
  shows "\<forall>x \<in> set (kernels s k 700 0x10001000). covered s {0x10000000} x"
  using assms same_schedD(3) [OF assms(2)] by (simp add: demo_kernel_def covered_def addr_of_def)

subsection \<open>The properties of the library\<close>

text \<open>C3: from every reachable state of the library, \<open>ooc_malloc\<close> of a size that fits returns the address of a
  new area of that size, in a mapping of its own after the area's record: every page of the area can be read
  and none can be written, and the areas that existed before are as they were.\<close>

theorem malloc_gives_read_only_memory:
  assumes "oreach (s, A)" and "fits (OOC_PAGE_SIZE s) sz" and "p = os_mmap s (sys_calls s) (map_size (OOC_PAGE_SIZE s) sz)"
    and "mapping_ok s A p (map_size (OOC_PAGE_SIZE s) sz)"
  shows "\<exists>s'. ooc_malloc sz s = Inr (p + info_size (OOC_PAGE_SIZE s), s') \<and> oreach (s', insert p A) \<and>
     (\<forall>x. covers (vmas s') p x \<longleftrightarrow> p + info_size (OOC_PAGE_SIZE s) \<le> x \<and> x - (p + info_size (OOC_PAGE_SIZE s)) < sz) \<and>
     (\<forall>x. covers (vmas s') p x \<longrightarrow> prots s' (page_of (OOC_PAGE_SIZE s) x) = Some PROT_READ) \<and>
     (\<forall>a \<in> A. covers (vmas s') a = covers (vmas s) a)"
proof -
  obtain T where i: "oinv s A T" using oreach_inv [OF assms(1)] by auto
  obtain s' where r: "ooc_malloc sz s = Inr (p + info_size (OOC_PAGE_SIZE s), s')"
     "\<forall>x. covers (vmas s') p x \<longleftrightarrow> p + info_size (OOC_PAGE_SIZE s) \<le> x \<and> x - (p + info_size (OOC_PAGE_SIZE s)) < sz"
     "\<forall>x. covers (vmas s') p x \<longrightarrow> prots s' (page_of (OOC_PAGE_SIZE s) x) = Some PROT_READ"
     "\<forall>a \<in> A. covers (vmas s') a = covers (vmas s) a"
    using malloc_step [OF i assms(2-4)] by blast
  have "oreach (s', insert p A)" using oreach.step [OF assms(1) ostep.Malloc [OF assms(2-4) r(1)]] .
  then show ?thesis using r by blast
qed

theorem malloc_gives_read_only_memory_witness:
  "\<exists>s. ooc_malloc 10000 demo = Inr (0x10001000, s) \<and> covers (vmas s) 0x10000000 0x10001000 \<and>
     prots s 0x10001000 = Some PROT_READ"
proof -
  have m: "mapping_ok demo {} 0x10000000 (map_size (OOC_PAGE_SIZE demo) 10000)" using demo_mapping by (simp add: demo_sizes)
  have p: "0x10000000 = os_mmap demo (sys_calls demo) (map_size (OOC_PAGE_SIZE demo) 10000)" by simp
  have f: "fits (OOC_PAGE_SIZE demo) 10000" using demo_sizes(3) by simp
  obtain s where s: "ooc_malloc 10000 demo = Inr (0x10001000, s)" "covers (vmas s) 0x10000000 0x10001000"
      "prots s (page_of 4096 0x10001000) = Some PROT_READ"
    using malloc_gives_read_only_memory [OF demo_oreach f p m] by (auto simp: demo_sizes)
  then show ?thesis by (auto simp: page_of_def)
qed

text \<open>C2: a kernel whose accesses lie inside allocated areas runs to its end: every access that faults is repeated
  until the handler has opened its page, which takes finitely many faults, and every area that the kernel wrote to
  is marked dirty.\<close>

theorem kernels_complete:
  assumes "oreach (s, A)" and "\<forall>x \<in> set (kernels s kern i args). covered s A x"
  shows "\<exists>s'. ooc_sched kern i args s = Inr ((), s') \<and> oreach (s', A) \<and> covers (vmas s') = covers (vmas s) \<and>
     (\<forall>b a. Store b \<in> set (kernels s kern i args) \<longrightarrow> a \<in> A \<longrightarrow> covers (vmas s) a b \<longrightarrow> bit (flags_of (vmas s') a) 4)"
proof -
  obtain T where i: "oinv s A T" using oreach_inv [OF assms(1)] by auto
  have A: "set_tree T = A" using i by (simp add: oinv_def)
  obtain s' where r: "ooc_sched kern i args s = Inr ((), s')" "stores_dirty s T (kernels s kern i args) s'" "covers (vmas s') = covers (vmas s)"
    using sched_step [OF i assms(2)] by blast
  have "oreach (s', A)" using oreach.step [OF assms(1) ostep.Sched [OF assms(2) r(1)]] .
  then show ?thesis using r A unfolding stores_dirty_def by blast
qed

theorem kernels_complete_witness:
  "\<exists>s s'. ooc_malloc 10000 demo = Inr (0x10001000, s) \<and> ooc_sched 0x99 700 0x10001000 s = Inr ((), s') \<and>
     bit (flags_of (vmas s') 0x10000000) 4"
proof -
  obtain s where s: "ooc_malloc 10000 demo = Inr (0x10001000, s)" "oreach (s, {0x10000000})" "same_sched demo s"
      "\<forall>x. covers (vmas s) 0x10000000 x \<longleftrightarrow> 0x10001000 \<le> x \<and> x - 0x10001000 < 10000" by (rule first_malloc) blast
  have "Store (0x10001000 + 8 * 700) \<in> set (kernels s 0x99 700 0x10001000)" using same_schedD(3) [OF s(3)] by (simp add: demo_kernel_def)
  moreover have "covers (vmas s) 0x10000000 (0x10001000 + 8 * 700)" using s(4) by simp
  ultimately show ?thesis using kernels_complete [OF s(2) demo_covered [OF s(4,3)]] s(1) by blast
qed

text \<open>C4: in every reachable state a page that can be written belongs to an area whose dirty flag is set, and
  no page belongs to two areas.\<close>

theorem only_dirty_areas_are_writable:
  assumes "oreach (s, A)" and "a \<in> A" and "covers (vmas s) a x" and "prots s (page_of (OOC_PAGE_SIZE s) x) = Some p"
    and "permits (Store x) p"
  shows "bit (flags_of (vmas s) a) 4 \<and>
     (\<forall>b \<in> A. \<forall>y. covers (vmas s) b y \<longrightarrow> page_of (OOC_PAGE_SIZE s) y = page_of (OOC_PAGE_SIZE s) x \<longrightarrow> b = a)"
proof -
  obtain T where i: "mem_sane s T" "set_tree T = A" using oreach_inv [OF assms(1)] by (auto simp: oinv_def sched_ready_sane)
  have "dirty_ok s T" "own_pages s T" using i(1) by (simp_all add: mem_sane_def)
  then show ?thesis using assms(2-5) i(2) unfolding dirty_ok_def own_pages_def by metis
qed

theorem only_dirty_areas_are_writable_witness:
  "\<exists>s s'. ooc_malloc 10000 demo = Inr (0x10001000, s) \<and> ooc_sched 0x99 700 0x10001000 s = Inr ((), s') \<and>
     (\<exists>p. prots s' 0x10002000 = Some p \<and> permits (Store 0x100025e0) p) \<and> bit (flags_of (vmas s') 0x10000000) 4"
proof -
  obtain s where s: "ooc_malloc 10000 demo = Inr (0x10001000, s)" "oreach (s, {0x10000000})" "same_sched demo s"
      "\<forall>x. covers (vmas s) 0x10000000 x \<longleftrightarrow> 0x10001000 \<le> x \<and> x - 0x10001000 < 10000" by (rule first_malloc) blast
  note cov = demo_covered [OF s(4,3)]
  obtain T where i: "oinv s {0x10000000} T" using oreach_inv [OF s(2)] by auto
  obtain s' where r: "ooc_sched 0x99 700 0x10001000 s = Inr ((), s')" "covers (vmas s') = covers (vmas s)"
      "OOC_PAGE_SIZE s' = OOC_PAGE_SIZE s" "last_allowed (kernels s 0x99 700 0x10001000) s'" using sched_step [OF i cov] by blast
  have re: "oreach (s', {0x10000000})" using oreach.step [OF s(2) ostep.Sched [OF cov r(1)]] .
  have ps: "OOC_PAGE_SIZE s' = 4096" using r(3) same_schedD(2) [OF s(3)] by simp
  have "allowed s' (Store 0x100025e0)" using r(4) same_schedD(3) [OF s(3)] by (simp add: last_allowed_def demo_kernel_def)
  then obtain p where p: "prots s' 0x10002000 = Some p" "permits (Store 0x100025e0) p"
    by (auto simp: allowed_def addr_of_def ps page_of_def)
  have "covers (vmas s') 0x10000000 0x100025e0" using r(2) s(4) by simp
  then have "bit (flags_of (vmas s') 0x10000000) 4"
    using only_dirty_areas_are_writable [OF re, of "0x10000000" "0x100025e0" p] p by (simp add: ps page_of_def)
  then show ?thesis using s(1) r(1) p by blast
qed

text \<open>C5: the first kernel installs the fault handler, and \<open>ooc_finalize\<close> restores the action that was installed
  before.\<close>

theorem finalize_restores_the_handler:
  assumes "oreach (s, A)" and "\<not> S_is_init s" and "\<forall>x \<in> set (kernels s kern i args). covered s A x"
  shows "\<exists>s1 s2. ooc_sched kern i args s = Inr ((), s1) \<and> sigsegv s1 = Trampoline \<and> S_is_init s1 \<and>
     ooc_finalize s1 = Inr (0, s2) \<and> sigsegv s2 = sigsegv s \<and> \<not> S_is_init s2 \<and> oreach (s2, A)"
proof -
  obtain T where i: "oinv s A T" using oreach_inv [OF assms(1)] by auto
  obtain s1 T1 where r: "ooc_sched kern i args s = Inr ((), s1)" "oinv s1 A T1" "S_is_init s1" "sigsegv s1 = Trampoline"
     "S_old_act s1 = (if S_is_init s then S_old_act s else sigsegv s)" using sched_step [OF i assms(3)] by blast
  obtain s2 where f: "ooc_finalize s1 = Inr (0, s2)" "\<not> S_is_init s2" "sigsegv s2 = S_old_act s1" using final_step [OF r(2)] by blast
  have o1: "oreach (s1, A)" using oreach.step [OF assms(1) ostep.Sched [OF assms(3) r(1)]] .
  have "oreach (s2, A)" using oreach.step [OF o1 ostep.Final [OF f(1)]] .
  then show ?thesis using r f assms(2) by simp
qed

theorem finalize_restores_the_handler_witness:
  "\<exists>s s1 s2. ooc_malloc 10000 demo = Inr (0x10001000, s) \<and> ooc_sched 0x99 700 0x10001000 s = Inr ((), s1) \<and>
     ooc_finalize s1 = Inr (0, s2) \<and> sigsegv s2 = SIG_DFL"
proof -
  obtain s where s: "ooc_malloc 10000 demo = Inr (0x10001000, s)" "oreach (s, {0x10000000})" "same_sched demo s"
      "\<forall>x. covers (vmas s) 0x10000000 x \<longleftrightarrow> 0x10001000 \<le> x \<and> x - 0x10001000 < 10000" by (rule first_malloc) blast
  have "\<not> S_is_init s" "sigsegv s = SIG_DFL" using same_schedD [OF s(3)] by simp_all
  then show ?thesis using finalize_restores_the_handler [OF s(2) _ demo_covered [OF s(4,3)]] s(1) by fastforce
qed

end
