(* ===== verification/Memory_Claims.thy ===== *)
theory Memory_Claims
  imports Ooc_Trace
begin

section \<open>Properties of ooc\_malloc, ooc\_free and the fault handler\<close>

text \<open>
  Rounding of sizes to pages, the error paths of \<open>ooc_malloc\<close>, the failure of \<open>ooc_free\<close>, and the
  faults that one access takes.
\<close>

subsection \<open>Rounding\<close>

text \<open>C23: \<open>ALIGN\<close> is the least multiple of the page size that is not below its argument, as long as the sum does not
  leave 64 bits.\<close>

theorem align_rounds_up:
  assumes "ps = 2 ^ k" and "k < 64" and "unat m + 2 ^ k \<le> 2 ^ 64"
  shows "m \<le> ALIGN ps m \<and> unat (ALIGN ps m) < unat m + unat ps \<and> page_of ps (ALIGN ps m) = ALIGN ps m \<and>
     (\<forall>q. page_of ps q = q \<longrightarrow> m \<le> q \<longrightarrow> ALIGN ps m \<le> q)"
proof -
  note b = ALIGN_bounds [OF assms]
  have u: "unat ps = 2 ^ k" using unat_exp [OF assms(2)] assms(1) by simp
  have "ALIGN ps m \<le> q" if q: "page_of ps q = q" "m \<le> q" for q
  proof -
    have d: "2 ^ k dvd unat q" "2 ^ k dvd unat (ALIGN ps m)" using unat_page_of [OF assms(1,2)] q(1) b(3) by (metis dvd_triv_right)+
    have "unat m \<le> unat q" using q(2) by (simp add: word_le_nat_alt)
    then have l: "unat (ALIGN ps m) < unat q + 2 ^ k" using b(2) by linarith
    from d obtain i j where ij: "unat q = 2 ^ k * i" "unat (ALIGN ps m) = 2 ^ k * j" by (elim dvdE)
    have "2 ^ k * j < 2 ^ k * (i + 1)" using l unfolding ij by (simp add: algebra_simps)
    then have "j \<le> i" unfolding mult_less_cancel1 by simp
    then show ?thesis using ij by (simp add: word_le_nat_alt)
  qed
  then show ?thesis using b u by simp
qed

theorem align_rounds_up_witness: "ALIGN 4096 10000 = 12288 \<and> 10000 \<le> ALIGN 4096 10000 \<and> page_of 4096 (ALIGN 4096 10000) = 12288"
proof -
  have "ALIGN 4096 10000 = 12288" by (simp add: ALIGN_def)
  then show ?thesis using align_rounds_up [of 4096 12 10000] by simp
qed

lemma align_wraps:
  assumes ps: "ps = 2 ^ k" "k < 64" and m: "2 ^ 64 < unat m + unat ps"
  shows "ALIGN ps m = 0"
proof -
  have u: "unat ps = 2 ^ k" using unat_exp [OF ps(2)] ps(1) by simp
  have p1: "unat (ps - 1) = 2 ^ k - 1" using u ps(1) by (simp add: unat_sub_if_size word_le_nat_alt)
  have lt: "unat m < 2 ^ 64" using unsigned_less [of m] by simp
  define q where "q = unat m + (2 ^ k - 1)"
  have e: "unat (m + (ps - 1)) = q mod 2 ^ 64" using p1 by (simp add: unat_word_ariths q_def)
  have q: "2 ^ 64 \<le> q" "q < 2 ^ 64 + 2 ^ k" using m u lt unfolding q_def by linarith+
  have k64: "(2 :: nat) ^ k < 2 ^ 64" using ps(2) by (intro power_strict_increasing) simp_all
  obtain r where r: "q = 2 ^ 64 + r" using q(1) le_Suc_ex by blast
  have "r < 2 ^ k" using q(2) unfolding r by simp
  then have "r < 2 ^ 64" using k64 by (rule less_trans)
  then have "q mod 2 ^ 64 = r" unfolding r by simp
  then have "unat (m + (ps - 1)) < 2 ^ k" using e \<open>r < 2 ^ k\<close> by simp
  then have "unat (page_of ps (m + (ps - 1))) = 0" using unat_page_of [OF ps] by simp
  then show ?thesis by (simp add: ALIGN_def page_of_def add_diff_eq unat_eq_0)
qed

text \<open>C24: a request of more than \<open>2 ^ 64 - OOC_PAGE_SIZE\<close> bytes wraps around in \<open>ALIGN\<close>: \<open>ooc_malloc\<close> maps the
  record's pages only, and still returns a non-NULL block, whose area ends before it starts and covers no address.\<close>

theorem huge_request_is_granted:
  assumes "oreach (s, {})" and "2 ^ 64 < unat sz + unat (OOC_PAGE_SIZE s)" and "p = os_mmap s (sys_calls s) (info_size (OOC_PAGE_SIZE s))"
    and "mapping_ok s {} p (info_size (OOC_PAGE_SIZE s))"
  shows "\<exists>s'. ooc_malloc sz s = Inr (p + info_size (OOC_PAGE_SIZE s), s') \<and> p + info_size (OOC_PAGE_SIZE s) \<noteq> NULL \<and>
     end_of (vmas s') p < start_of (vmas s') p \<and> (\<forall>x. \<not> covers (vmas s') p x)"
proof -
  let ?ps = "OOC_PAGE_SIZE s"
  obtain T where i: "mem_sane s T" "set_tree T = {}" using oreach_inv [OF assms(1)] by (auto simp: oinv_def sched_ready_sane)
  obtain k where k: "?ps = 2 ^ k" "k < 64" using i(1) by (auto simp: mem_sane_def)
  have n: "info_size ?ps = map_size ?ps sz" using align_wraps [OF k assms(2)] by (simp add: map_size_def)
  have t: "tab s T" and mp: "os_ret s Mprotect (Suc (sys_calls s)) = 0" using i(1) by (simp_all add: mem_sane_def os_works_def)
  have m: "p \<noteq> NULL" "p \<noteq> MAP_FAILED" "page_of ?ps p = p" "unat p + unat (info_size ?ps) < 2 ^ 64" "p \<notin> dom (vmas s)" "p \<noteq> frame_n s"
    using assms(4) by (simp_all add: mapping_ok_def)
  define st where "st = p + info_size ?ps"
  obtain s' where r: "ooc_malloc sz s = Inr (st, s')" "start_of (vmas s') = (start_of (vmas s))(p := st)" "end_of (vmas s') = (end_of (vmas s))(p := st + sz)"
    using malloc_run [OF t assms(3) [symmetric] n m(1,2,5,6) mp st_def] i(2) by blast
  have us: "unat st = unat p + unat (info_size ?ps)" using m(4) by (simp add: st_def unat_word_ariths)
  have u: "unat ?ps = 2 ^ k" using unat_exp [OF k(2)] k(1) by simp
  have "unat p div 2 ^ k * 2 ^ k = unat p" "unat p \<noteq> 0" using unat_page_of [OF k, of p] m(1,3) by (simp_all add: unat_eq_0)
  then have "2 ^ k \<le> unat p" by (metis div_less leI mult_zero_left)
  then have big: "2 ^ 64 \<le> unat st + unat sz" using assms(2) us u by linarith
  have lt: "unat st < 2 ^ 64" "unat sz < 2 ^ 64" using unsigned_less [of st] unsigned_less [of sz] by simp_all
  have "unat (st + sz) = unat st + unat sz - 2 ^ 64" using big lt by (simp add: unat_word_ariths mod_if)
  then have w: "st + sz < st" using lt big by (simp add: word_less_nat_alt)
  have "st \<noteq> NULL" using us \<open>unat p \<noteq> 0\<close> by (metis add_eq_0_iff_both_eq_0 unat_0)
  then show ?thesis using r w by (intro exI [of _ s']) (auto simp: st_def covers_def)
qed

theorem huge_request_is_granted_witness:
  "\<exists>s'. ooc_malloc 0xFFFFFFFFFFFFFFFF demo = Inr (0x10001000, s') \<and> (\<forall>x. \<not> covers (vmas s') 0x10000000 x)"
  using huge_request_is_granted [OF demo_oreach, of "0xFFFFFFFFFFFFFFFF" "0x10000000"]
  by (auto simp: demo_sizes mapping_ok_def MAP_FAILED_def page_of_def)

subsection \<open>Error paths of ooc\_malloc\<close>

text \<open>When \<open>mmap\<close> fails, \<open>ooc_malloc\<close> returns NULL and leaves the table and the memory alone.\<close>

lemma malloc_without_memory:
  assumes "os_mmap s (sys_calls s) (map_size (OOC_PAGE_SIZE s) sz) = MAP_FAILED"
  shows "ooc_malloc sz s = Inr (NULL, s\<lparr>sys_calls := Suc (sys_calls s)\<rparr>)"
  using assms by (rule malloc_no_memory)

lemma malloc_without_memory_witness:
  "ooc_malloc 1 (demo\<lparr>os_mmap := \<lambda>_ _. MAP_FAILED\<rparr>) = Inr (NULL, demo\<lparr>os_mmap := \<lambda>_ _. MAP_FAILED, sys_calls := 1\<rparr>)"
  using malloc_without_memory [of "demo\<lparr>os_mmap := \<lambda>_ _. MAP_FAILED\<rparr>" 1] by simp

text \<open>C22: when \<open>mprotect\<close> refuses to open the record, \<open>ooc_malloc\<close> releases the mapping, leaves the table alone, and
  returns NULL; when \<open>munmap\<close> fails too, the assertion on its result stops the program.\<close>

theorem malloc_undoes_its_mapping:
  assumes "os_mmap s (sys_calls s) n = p" and "n = map_size (OOC_PAGE_SIZE s) sz" and "p \<noteq> MAP_FAILED" and "n \<noteq> 0"
    and "os_ret s Mprotect (Suc (sys_calls s)) \<noteq> 0"
  shows "if os_ret s Munmap (Suc (Suc (sys_calls s))) \<noteq> 0 then ooc_malloc sz s = Inl AssertFail
     else \<exists>s'. ooc_malloc sz s = Inr (NULL, s') \<and> vma_tree s' = vma_tree s \<and>
       (\<forall>a. vmas s' a = (if within p n a then None else vmas s a)) \<and> (\<forall>a. prots s' a = (if within p n a then None else prots s a))"
  using malloc_no_protect [OF assms] by simp

theorem malloc_undoes_its_mapping_witness:
  "\<exists>s'. ooc_malloc 10000 (demo\<lparr>os_ret := \<lambda>c _. if c = Mprotect then - 1 else 0\<rparr>) = Inr (NULL, s') \<and> vmas s' = Map.empty"
proof -
  let ?s = "demo\<lparr>os_ret := \<lambda>c _. if c = Mprotect then - 1 else 0\<rparr>"
  have "os_mmap ?s (sys_calls ?s) 0x4000 = 0x10000000" "0x4000 = map_size (OOC_PAGE_SIZE ?s) 10000"
    "(0x10000000 :: addr) \<noteq> MAP_FAILED" "(0x4000 :: 64 word) \<noteq> 0" "os_ret ?s Mprotect (Suc (sys_calls ?s)) \<noteq> 0"
    by (simp_all add: demo_sizes MAP_FAILED_def)
  note m = malloc_undoes_its_mapping [OF this]
  have "os_ret ?s Munmap (Suc (Suc (sys_calls ?s))) = 0" by simp
  then obtain s' where s': "ooc_malloc 10000 ?s = Inr (NULL, s')"
      "\<forall>a. vmas s' a = (if within 0x10000000 0x4000 a then None else vmas ?s a)" using m by (simp only: if_False simp_thms) blast
  have "vmas s' = Map.empty" by (rule ext) (simp add: s'(2))
  then show ?thesis using s'(1) by blast
qed

subsection \<open>ooc\_free\<close>

text \<open>
  \<open>sp_tree_remove\<close> hands the record of the block, which lies in the mapping of the block itself, to \<open>vma_free\<close>, which expects a record of its
  own pool. In the model of memory, where objects have types, this is the end: with OpenMP the lock of the record, which the lookup has
  just set, is destroyed, and otherwise \<open>vma_free\<close> reads a block where there is none. The code goes on with the bytes that it finds
  there, which the model does not say; the unit test of \<open>sched.c\<close>, which removes such records, expects it to return.
\<close>

lemma ooc_free_of_an_allocation:
  assumes "oreach (s, A)" and "a \<in> A" and "covers (vmas s) a x" and "S_vma_2block a \<noteq> NULL" and "S_vma_2block a \<notin> dom (blocks s)"
  shows "ooc_free x s = Inl (if openmp s then BadLock else BadPtr (S_vma_2block a))"
proof -
  obtain T where i: "mem_sane s T" "set_tree T = A" using oreach_inv [OF assms(1)] by (auto simp: oinv_def sched_ready_sane)
  have "tab s T" "ranges (vmas s) (inorder T)" "lock_idle (openmp s) (lock_of (vmas s) a)"
    using i assms(2) by (simp_all add: mem_sane_def idle_areas_def)
  then show ?thesis using free_fails assms(2-5) i(2) by blast
qed

subsection \<open>The faults of one access\<close>

lemma fault_not_allowed:
  assumes sv: "served s T" and a: "a \<in> set_tree T" "covers (vmas s) a (addr_of x)" and m: "prots s (page_of (OOC_PAGE_SIZE s) (addr_of x)) \<noteq> None"
    and n: "\<not> allowed s x"
  obtains s' T' where "S_sigsegv_trampoline SIGSEGV (addr_of x) s = Inr ((), s')" "do_access x s = do_access x s'" "served s' T'" "a \<in> set_tree T'"
    "covers (vmas s') a (addr_of x)" "flags_of (vmas s') a = fault_flags (flags_of (vmas s) a)" "OOC_PAGE_SIZE s' = OOC_PAGE_SIZE s"
    "prots s' (page_of (OOC_PAGE_SIZE s) (addr_of x)) = Some (fault_prot (flags_of (vmas s) a))"
proof -
  have hd: "handling s T" and tr: "sigsegv s = Trampoline" using sv by (simp_all add: served_def handling_def)
  obtain s' T' where r: "S_sigsegv_trampoline SIGSEGV (addr_of x) s = Inr ((), s')"
    and fl: "flagged s T a fault_flags (page_of (OOC_PAGE_SIZE s) (addr_of x)) (fault_prot (flags_of (vmas s) a)) s' T'"
    using fault_run [OF hd a m] by blast
  have "set_tree T' = set_tree T" using fl unfolding flagged_def by (metis set_inorder)
  moreover have "covers (vmas s') = covers (vmas s)" using fl by (simp add: flagged_def covers_def fun_eq_iff)
  ultimately show thesis
    using that [of s' T'] access_faults [OF n tr r] flagged_served [OF sv fl a] a fl r by (simp add: flagged_def same_sched_def)
qed

text \<open>The fault of a store to a page that can be read only: with the read flag of the area not yet set, and with it set.\<close>

lemma store_fault:
  assumes s: "served s T" "a \<in> set_tree T" "covers (vmas s) a b" "prots s (page_of (OOC_PAGE_SIZE s) b) = Some PROT_READ"
  obtains s' T' where "\<not> allowed s (Store b)" "S_sigsegv_trampoline SIGSEGV b s = Inr ((), s')" "do_access (Store b) s = do_access (Store b) s'"
    "served s' T'" "a \<in> set_tree T'" "covers (vmas s') a b" "flags_of (vmas s') a = fault_flags (flags_of (vmas s) a)" "OOC_PAGE_SIZE s' = OOC_PAGE_SIZE s"
    "prots s' (page_of (OOC_PAGE_SIZE s) b) = Some (if bit (flags_of (vmas s) a) 0 then PROT_READ OR PROT_WRITE else PROT_READ)"
proof -
  have ad: "addr_of (Store b) = b" by (simp add: addr_of_def)
  have na: "\<not> allowed s (Store b)" using s(4) by (simp add: allowed_def addr_of_def permits_def PROT_READ_def PROT_WRITE_def)
  have fp: "fault_prot f = (if bit f 0 then PROT_READ OR PROT_WRITE else PROT_READ)" for f using flag_bits(1) [of f] by (auto simp: fault_prot_def)
  obtain s' T' where r: "S_sigsegv_trampoline SIGSEGV b s = Inr ((), s')" "do_access (Store b) s = do_access (Store b) s'" "served s' T'" "a \<in> set_tree T'"
    "covers (vmas s') a b" "flags_of (vmas s') a = fault_flags (flags_of (vmas s) a)" "OOC_PAGE_SIZE s' = OOC_PAGE_SIZE s"
    "prots s' (page_of (OOC_PAGE_SIZE s) b) = Some (fault_prot (flags_of (vmas s) a))"
    by (rule fault_not_allowed [OF s(1,2) _ _ na, unfolded ad]) (use s in auto)
  show thesis by (rule that [OF na r(1-7)]) (simp add: r(8) fp)
qed

lemma store_to_open_page:
  assumes "prots s (page_of (OOC_PAGE_SIZE s) b) = Some (PROT_READ OR PROT_WRITE)"
  shows "do_access (Store b) s = Inr ((), s)"
  using assms access_allowed [of s "Store b"] by (simp add: allowed_def addr_of_def permits_def PROT_READ_def PROT_WRITE_def)

text \<open>C21: a store to a page that can be read only, in an area that has not been faulted before, takes exactly two
  faults. The first marks the area read, does not mark it dirty, and opens the page for reading, which it was already, so that the store
  is refused again; the second marks the area dirty and opens the page for writing, and the store goes through.\<close>

theorem first_write_takes_two_faults:
  assumes "served s T" and "a \<in> set_tree T" and "covers (vmas s) a b" and "prots s (page_of (OOC_PAGE_SIZE s) b) = Some PROT_READ"
    and "\<not> bit (flags_of (vmas s) a) 0"
  shows "\<exists>s1 s2. \<not> allowed s (Store b) \<and> S_sigsegv_trampoline SIGSEGV b s = Inr ((), s1) \<and>
     bit (flags_of (vmas s1) a) 0 \<and> bit (flags_of (vmas s1) a) 4 = bit (flags_of (vmas s) a) 4 \<and>
     prots s1 (page_of (OOC_PAGE_SIZE s) b) = Some PROT_READ \<and>
     \<not> allowed s1 (Store b) \<and> S_sigsegv_trampoline SIGSEGV b s1 = Inr ((), s2) \<and>
     bit (flags_of (vmas s2) a) 4 \<and> prots s2 (page_of (OOC_PAGE_SIZE s) b) = Some (PROT_READ OR PROT_WRITE) \<and>
     do_access (Store b) s = Inr ((), s2)"
proof -
  obtain s1 T1 where 1: "\<not> allowed s (Store b)" "S_sigsegv_trampoline SIGSEGV b s = Inr ((), s1)" "do_access (Store b) s = do_access (Store b) s1"
    "served s1 T1" "a \<in> set_tree T1" "covers (vmas s1) a b" "flags_of (vmas s1) a = fault_flags (flags_of (vmas s) a)"
    "OOC_PAGE_SIZE s1 = OOC_PAGE_SIZE s" "prots s1 (page_of (OOC_PAGE_SIZE s) b) = Some PROT_READ"
    by (rule store_fault [OF assms(1-4)]) (use assms(5) in simp)
  have f: "bit (flags_of (vmas s1) a) 0" "bit (flags_of (vmas s1) a) 4 = bit (flags_of (vmas s) a) 4"
    using 1(7) assms(5) by (simp_all add: fault_flags_bits)
  have p: "prots s1 (page_of (OOC_PAGE_SIZE s1) b) = Some PROT_READ" using 1(8,9) by simp
  obtain s2 T2 where 2: "\<not> allowed s1 (Store b)" "S_sigsegv_trampoline SIGSEGV b s1 = Inr ((), s2)" "do_access (Store b) s1 = do_access (Store b) s2"
    "flags_of (vmas s2) a = fault_flags (flags_of (vmas s1) a)" "OOC_PAGE_SIZE s2 = OOC_PAGE_SIZE s1"
    "prots s2 (page_of (OOC_PAGE_SIZE s1) b) = Some (PROT_READ OR PROT_WRITE)"
    by (rule store_fault [OF 1(4-6) p]) (use f(1) in simp)
  have "do_access (Store b) s2 = Inr ((), s2)" by (rule store_to_open_page) (simp add: 2(5,6))
  moreover have "bit (flags_of (vmas s2) a) 4" using 2(4) f(1) by (simp add: fault_flags_bits)
  ultimately show ?thesis using 1 2 f by (intro exI [of _ s1] exI [of _ s2]) simp
qed

lemma first_malloc_flags:
  assumes "ooc_malloc 10000 demo = Inr (x, s)"
  shows "flags_of (vmas s) 0x10000000 = 0"
proof -
  obtain T where i: "mem_sane demo T" "set_tree T = {}" using oreach_inv [OF demo_oreach] by (auto simp: oinv_def sched_ready_sane)
  have t: "tab demo T" and pr: "os_ret demo Mprotect (Suc (sys_calls demo)) = 0" using i(1) by (simp_all add: mem_sane_def os_works_def)
  have m: "0x10000000 \<notin> dom (vmas demo)" "0x10000000 \<noteq> frame_n demo" "(0x10000000 :: addr) \<noteq> MAP_FAILED"
    using demo_mapping by (simp_all add: mapping_ok_def)
  have mp: "os_mmap demo (sys_calls demo) (map_size (OOC_PAGE_SIZE demo) 10000) = 0x10000000" and n0: "(0x10000000 :: addr) \<noteq> NULL" by simp_all
  obtain s' where "ooc_malloc 10000 demo = Inr (0x10000000 + info_size (OOC_PAGE_SIZE demo), s')" "flags_of (vmas s') = (flags_of (vmas demo))(0x10000000 := 0)"
    using malloc_run [OF t mp refl n0 m(3,1,2) pr refl] i(2) by auto
  then show ?thesis using assms by simp
qed

theorem first_write_takes_two_faults_witness:
  "\<exists>s s'. ooc_malloc 10000 demo = Inr (0x10001000, s) \<and> do_access (Store 0x10001000) (initialised s) = Inr ((), s') \<and>
     bit (flags_of (vmas s') 0x10000000) 4"
proof -
  obtain s where s: "ooc_malloc 10000 demo = Inr (0x10001000, s)" "oreach (s, {0x10000000})" "same_sched demo s"
      "\<forall>x. covers (vmas s) 0x10000000 x \<longleftrightarrow> 0x10001000 \<le> x \<and> x - 0x10001000 < 10000"
      "\<forall>x. covers (vmas s) 0x10000000 x \<longrightarrow> prots s (page_of 4096 x) = Some PROT_READ" by (rule first_malloc) blast
  obtain T where i: "mem_sane s T" "set_tree T = {0x10000000}" using oreach_inv [OF s(2)] by (auto simp: oinv_def sched_ready_sane)
  have "mem_sane (initialised s) T" using i(1) by (rule mem_sane_cong) (simp_all add: initialised_def)
  then have sv: "served (initialised s) T" by (simp add: served_sane initialised_def)
  have e: "vmas (initialised s) = vmas s" "prots (initialised s) = prots s" "OOC_PAGE_SIZE (initialised s) = 4096"
    using same_schedD(2) [OF s(3)] by (simp_all add: initialised_def)
  have "covers (vmas s) 0x10000000 0x10001000" using s(4) by simp
  moreover have "\<not> bit (flags_of (vmas s) 0x10000000) 0" using first_malloc_flags [OF s(1)] by simp
  ultimately show ?thesis using first_write_takes_two_faults [OF sv, of "0x10000000" "0x10001000"] s(1,5) i(2) e by auto
qed

end
