(* ===== verification/Mm.thy ===== *)
theory Mm
  imports Memory_Claims
begin

section \<open>mm.c: matrix multiplication over out-of-core memory\<close>

text \<open>
  Models \<open>src/apps/mm.c\<close> and the macros of \<open>ooc.h\<close> it uses: the kernel \<open>mm\<close>, which computes one row of
  the product, and \<open>main\<close>, which allocates three matrices, runs the kernel over all rows and frees the
  matrices. The kernel works on the values in memory (its arithmetic on \<open>double\<close> is the pair of
  parameters \<open>add\<close> and \<open>mul\<close>, no law of which is assumed) and logs its loads and stores; \<open>main\<close> runs
  the scheduler of \<open>sched.c\<close> on exactly these accesses.
\<close>

subsection \<open>The kernel\<close>

record mm_args =
  arg_n :: "64 word"
  arg_p :: "64 word"
  arg_a :: addr
  arg_b :: addr
  arg_c :: addr

record 'd mst =
  args_at :: "addr \<rightharpoonup> mm_args"
  doubles :: "addr \<rightharpoonup> 'd"
  accesses :: "access list"

definition ld :: "addr \<Rightarrow> ('d mst, 'd) prog" where
  "ld p s = (case doubles s p of None \<Rightarrow> Inl (BadPtr p) | Some v \<Rightarrow> Inr (v, s\<lparr>accesses := accesses s @ [Load p]\<rparr>))"

definition sd :: "addr \<Rightarrow> 'd \<Rightarrow> ('d mst, unit) prog" where
  "sd p v s =
     (case doubles s p of None \<Rightarrow> Inl (BadPtr p)
      | Some _ \<Rightarrow> Inr ((), s\<lparr>doubles := (doubles s)(p \<mapsto> v), accesses := accesses s @ [Store p]\<rparr>))"

text \<open>\<open>a[R*n+C]\<close>, an array of 8-byte elements.\<close>

definition el :: "addr \<Rightarrow> 64 word \<Rightarrow> 64 word \<Rightarrow> 64 word \<Rightarrow> addr" where
  "el base r w c = base + 8 * (r * w + c)"

text \<open>
  \<open>c(i,j) += a(i,k)*b(k,j)\<close>, of whose operands the right one is evaluated first; one turn of the loop over
  \<open>j\<close>; and the kernel. The loops run over \<open>j < n\<close> and \<open>k < p\<close>, as in the code.
\<close>

definition mm_term :: "('d \<Rightarrow> 'd \<Rightarrow> 'd) \<Rightarrow> ('d \<Rightarrow> 'd \<Rightarrow> 'd) \<Rightarrow> mm_args \<Rightarrow> 64 word \<Rightarrow> nat \<Rightarrow> nat \<Rightarrow> ('d mst, unit) prog" where
  "mm_term add mul x i j k =
     bnd (ld (el (arg_a x) i (arg_n x) (of_nat k))) (\<lambda>u.
     bnd (ld (el (arg_b x) (of_nat k) (arg_p x) (of_nat j))) (\<lambda>v.
     bnd (ld (el (arg_c x) i (arg_p x) (of_nat j))) (\<lambda>w.
     sd (el (arg_c x) i (arg_p x) (of_nat j)) (add w (mul u v)))))"

definition mm_column :: "('d \<Rightarrow> 'd \<Rightarrow> 'd) \<Rightarrow> ('d \<Rightarrow> 'd \<Rightarrow> 'd) \<Rightarrow> mm_args \<Rightarrow> 64 word \<Rightarrow> nat \<Rightarrow> ('d mst, unit) prog" where
  "mm_column add mul x i j =
     bnd (ld (el (arg_a x) i (arg_n x) 0)) (\<lambda>u.
     bnd (ld (el (arg_b x) 0 (arg_p x) (of_nat j))) (\<lambda>v.
     bnd (sd (el (arg_c x) i (arg_p x) (of_nat j)) (mul u v)) (\<lambda>_.
     for_each [1..<unat (arg_p x)] (\<lambda>k _. mm_term add mul x i j k) ())))"

definition mm :: "('d \<Rightarrow> 'd \<Rightarrow> 'd) \<Rightarrow> ('d \<Rightarrow> 'd \<Rightarrow> 'd) \<Rightarrow> 64 word \<Rightarrow> addr \<Rightarrow> ('d mst, unit) prog" where
  "mm add mul i state =
     bnd (gets (\<lambda>s. args_at s state)) (\<lambda>x.
     case x of None \<Rightarrow> fails (BadPtr state)
     | Some x \<Rightarrow> for_each [0..<unat (arg_n x)] (\<lambda>j _. mm_column add mul x i j) ())"

subsection \<open>What one row makes\<close>

text \<open>The element \<open>j\<close> of the row, summed from the left, and the accesses of the row.\<close>

definition mm_dot :: "('d \<Rightarrow> 'd \<Rightarrow> 'd) \<Rightarrow> ('d \<Rightarrow> 'd \<Rightarrow> 'd) \<Rightarrow> (nat \<Rightarrow> 'd) \<Rightarrow> (nat \<Rightarrow> nat \<Rightarrow> 'd) \<Rightarrow> nat \<Rightarrow> nat \<Rightarrow> 'd" where
  "mm_dot add mul u v m j = foldl (\<lambda>w k. add w (mul (u k) (v k j))) (mul (u 0) (v 0 j)) [1..<m]"

definition mm_inner :: "64 word \<Rightarrow> 64 word \<Rightarrow> addr \<Rightarrow> addr \<Rightarrow> addr \<Rightarrow> 64 word \<Rightarrow> nat \<Rightarrow> nat \<Rightarrow> access list" where
  "mm_inner n p a b c i j k =
     [Load (el a i n (of_nat k)), Load (el b (of_nat k) p (of_nat j)), Load (el c i p (of_nat j)), Store (el c i p (of_nat j))]"

definition mm_element :: "64 word \<Rightarrow> 64 word \<Rightarrow> addr \<Rightarrow> addr \<Rightarrow> addr \<Rightarrow> 64 word \<Rightarrow> nat \<Rightarrow> access list" where
  "mm_element n p a b c i j =
     [Load (el a i n 0), Load (el b 0 p (of_nat j)), Store (el c i p (of_nat j))] @
     concat (map (mm_inner n p a b c i j) [1..<unat p])"

definition mm_accesses :: "64 word \<Rightarrow> 64 word \<Rightarrow> addr \<Rightarrow> addr \<Rightarrow> addr \<Rightarrow> 64 word \<Rightarrow> access list" where
  "mm_accesses n p a b c i = concat (map (mm_element n p a b c i) [0..<unat n])"

lemma ld_run: "doubles s p = Some v \<Longrightarrow> ld p s = Inr (v, s\<lparr>accesses := accesses s @ [Load p]\<rparr>)"
  by (simp add: ld_def)

lemma sd_run:
  "doubles s p = Some v \<Longrightarrow> sd p w s = Inr ((), s\<lparr>doubles := (doubles s)(p \<mapsto> w), accesses := accesses s @ [Store p]\<rparr>)"
  by (simp add: sd_def)

abbreviation margs :: "64 word \<Rightarrow> 64 word \<Rightarrow> addr \<Rightarrow> addr \<Rightarrow> addr \<Rightarrow> mm_args" where
  "margs n p a b c \<equiv> \<lparr>arg_n = n, arg_p = p, arg_a = a, arg_b = b, arg_c = c\<rparr>"

text \<open>The inner loop adds the products of the remaining elements.\<close>

lemma inner_run:
  assumes "doubles s (el c i p (of_nat j)) = Some w"
    and "\<forall>k \<in> set ks. doubles s (el a i n (of_nat k)) = Some (u k) \<and> el a i n (of_nat k) \<noteq> el c i p (of_nat j)"
    and "\<forall>k \<in> set ks. doubles s (el b (of_nat k) p (of_nat j)) = Some (v k) \<and> el b (of_nat k) p (of_nat j) \<noteq> el c i p (of_nat j)"
  shows "for_each ks (\<lambda>k _. mm_term add mul (margs n p a b c) i j k) () s =
     Inr ((), s\<lparr>doubles := (doubles s)(el c i p (of_nat j) \<mapsto> foldl (\<lambda>w k. add w (mul (u k) (v k))) w ks),
       accesses := accesses s @ concat (map (mm_inner n p a b c i j) ks)\<rparr>)"
  using assms
proof (induction ks arbitrary: s w)
  case Nil
  then show ?case by (cases s) (simp add: fun_upd_idem)
next
  case (Cons k ks)
  let ?c = "el c i p (of_nat j)" and ?x = "margs n p a b c"
  let ?s = "s\<lparr>doubles := (doubles s)(?c \<mapsto> add w (mul (u k) (v k))), accesses := accesses s @ mm_inner n p a b c i j k\<rparr>"
  have step: "mm_term add mul ?x i j k s = Inr ((), ?s)"
    using Cons.prems by (simp add: mm_term_def bnd_def ld_run sd_run mm_inner_def)
  have ih: "for_each ks (\<lambda>k _. mm_term add mul ?x i j k) () ?s =
     Inr ((), ?s\<lparr>doubles := (doubles ?s)(?c \<mapsto> foldl (\<lambda>w k. add w (mul (u k) (v k))) (add w (mul (u k) (v k))) ks),
       accesses := accesses ?s @ concat (map (mm_inner n p a b c i j) ks)\<rparr>)"
    by (rule Cons.IH) (use Cons.prems in auto)
  show ?case using step ih by (simp add: bnd_Inr fun_upd_def cong: if_cong)
qed

text \<open>
  The elements that the first \<open>q\<close> columns of a row use are in memory, and none of those of \<open>a\<close> and \<open>b\<close> is one of
  those of \<open>c\<close>.
\<close>

definition rows_ok :: "64 word \<Rightarrow> 64 word \<Rightarrow> nat \<Rightarrow> addr \<Rightarrow> addr \<Rightarrow> addr \<Rightarrow> 64 word \<Rightarrow> (nat \<Rightarrow> 'd) \<Rightarrow> (nat \<Rightarrow> nat \<Rightarrow> 'd) \<Rightarrow> 'd mst \<Rightarrow> bool" where
  "rows_ok n p q a b c i u v s \<longleftrightarrow>
     (\<forall>k < max 1 (unat p). doubles s (el a i n (of_nat k)) = Some (u k)) \<and>
     (\<forall>k < max 1 (unat p). \<forall>j < q. doubles s (el b (of_nat k) p (of_nat j)) = Some (v k j)) \<and>
     (\<forall>j < q. doubles s (el c i p (of_nat j)) \<noteq> None) \<and>
     (\<forall>j < q. \<forall>k < max 1 (unat p). el a i n (of_nat k) \<noteq> el c i p (of_nat j)) \<and>
     (\<forall>j < q. \<forall>j' < q. \<forall>k < max 1 (unat p). el b (of_nat k) p (of_nat j') \<noteq> el c i p (of_nat j)) \<and>
     inj_on (\<lambda>j. el c i p (of_nat j)) {..<q}"

lemma rows_ok_upd:
  assumes "rows_ok n p q a b c i u v s" and "j < q"
  shows "rows_ok n p q a b c i u v (s\<lparr>doubles := (doubles s)(el c i p (of_nat j) \<mapsto> w), accesses := L\<rparr>)"
proof -
  let ?s = "s\<lparr>doubles := (doubles s)(el c i p (of_nat j) \<mapsto> w), accesses := L\<rparr>"
  note ok = assms(1) [unfolded rows_ok_def]
  have same: "doubles ?s x = doubles s x" if "x \<noteq> el c i p (of_nat j)" for x using that by simp
  have "doubles ?s (el a i n (of_nat k)) = Some (u k)" if "k < max 1 (unat p)" for k
    using ok assms(2) that same [of "el a i n (of_nat k)"] by metis
  moreover have "doubles ?s (el b (of_nat k) p (of_nat j')) = Some (v k j')" if "k < max 1 (unat p)" "j' < q" for k j'
    using ok assms(2) that same [of "el b (of_nat k) p (of_nat j')"] by metis
  moreover have "doubles ?s (el c i p (of_nat j')) \<noteq> None" if "j' < q" for j' using ok that by simp
  ultimately show ?thesis using ok unfolding rows_ok_def by blast
qed

lemma column_run:
  assumes "rows_ok n p q a b c i u v s" and "j < q"
  shows "mm_column add mul (margs n p a b c) i j s =
     Inr ((), s\<lparr>doubles := (doubles s)(el c i p (of_nat j) \<mapsto> mm_dot add mul u v (unat p) j),
       accesses := accesses s @ mm_element n p a b c i j\<rparr>)"
proof -
  let ?c = "el c i p (of_nat j)" and ?x = "margs n p a b c"
  note ok = assms(1) [unfolded rows_ok_def]
  have z: "el a i n 0 = el a i n (of_nat 0)" "el b 0 p (of_nat j) = el b (of_nat 0) p (of_nat j)" by simp_all
  have m: "0 < max 1 (unat p)" by simp
  have h: "doubles s (el a i n 0) = Some (u 0)" "doubles s (el b 0 p (of_nat j)) = Some (v 0 j)" "\<exists>w. doubles s ?c = Some w"
    unfolding z using ok assms(2) m by blast+
  have ne: "el a i n 0 \<noteq> ?c" "el b 0 p (of_nat j) \<noteq> ?c" unfolding z using ok assms(2) m by blast+
  then obtain w where w: "doubles s ?c = Some w" using h by blast
  let ?t = "s\<lparr>doubles := (doubles s)(?c \<mapsto> mul (u 0) (v 0 j)),
     accesses := accesses s @ [Load (el a i n 0), Load (el b 0 p (of_nat j)), Store ?c]\<rparr>"
  have lt: "k < max 1 (unat p)" if "k \<in> set [1..<unat p]" for k using that by simp
  have inner: "for_each [1..<unat p] (\<lambda>k _. mm_term add mul ?x i j k) () ?t =
        Inr ((), ?t\<lparr>doubles := (doubles ?t)(?c \<mapsto> foldl (\<lambda>w k. add w (mul (u k) (v k j))) (mul (u 0) (v 0 j)) [1..<unat p]),
          accesses := accesses ?t @ concat (map (mm_inner n p a b c i j) [1..<unat p])\<rparr>)"
    by (rule inner_run [where w = "mul (u 0) (v 0 j)" and v = "\<lambda>k. v k j" and s = ?t]) (use ok assms(2) lt in simp_all)
  show ?thesis using h w inner
    by (simp add: mm_column_def bnd_Inr ld_run sd_run mm_dot_def mm_element_def fun_upd_def cong: if_cong)
qed

lemma outer_run:
  assumes "rows_ok n p q a b c i u v s" and "set js \<subseteq> {..<q}" and "distinct js"
  shows "for_each js (\<lambda>j _. mm_column add mul (margs n p a b c) i j) () s =
     Inr ((), s\<lparr>doubles := (\<lambda>x. if x \<in> (\<lambda>j. el c i p (of_nat j)) ` set js
            then Some (mm_dot add mul u v (unat p) (inv_into {..<q} (\<lambda>j. el c i p (of_nat j)) x)) else doubles s x),
       accesses := accesses s @ concat (map (mm_element n p a b c i) js)\<rparr>)"
  using assms
proof (induction js arbitrary: s)
  case Nil
  then show ?case by simp
next
  case (Cons j js)
  let ?c = "\<lambda>j. el c i p (of_nat j :: 64 word)"
  let ?s = "s\<lparr>doubles := (doubles s)(?c j \<mapsto> mm_dot add mul u v (unat p) j), accesses := accesses s @ mm_element n p a b c i j\<rparr>"
  have j: "j < q" and sub: "set js \<subseteq> {..<q}" "distinct js" "j \<notin> set js" using Cons.prems(2,3) by simp_all
  have inj: "inj_on ?c {..<q}" using Cons.prems(1) by (simp add: rows_ok_def)
  have inv: "inv_into {..<q} ?c (?c j) = j" using inv_into_f_f [OF inj] j by simp
  have ok: "rows_ok n p q a b c i u v ?s" using Cons.prems(1) j by (rule rows_ok_upd)
  have ni: "?c j \<notin> ?c ` set js" using inj_on_image_mem_iff [OF inj, of j "set js"] j sub by simp
  have e: "(\<lambda>x. if x \<in> ?c ` set js then Some (mm_dot add mul u v (unat p) (inv_into {..<q} ?c x)) else doubles ?s x) =
     (\<lambda>x. if x \<in> ?c ` set (j # js) then Some (mm_dot add mul u v (unat p) (inv_into {..<q} ?c x)) else doubles s x)"
    using inv ni by (intro ext) simp
  have "for_each (j # js) (\<lambda>j _. mm_column add mul (margs n p a b c) i j) () s =
      for_each js (\<lambda>j _. mm_column add mul (margs n p a b c) i j) () ?s"
    unfolding for_each.simps by (rule bnd_Inr) (rule column_run [OF Cons.prems(1) j])
  then show ?case unfolding Cons.IH [OF ok sub(1,2)] e by simp
qed

text \<open>The row of \<open>c\<close>, as a set of addresses.\<close>

definition mm_row :: "addr \<Rightarrow> 64 word \<Rightarrow> 64 word \<Rightarrow> nat \<Rightarrow> addr set" where
  "mm_row c i p q = (\<lambda>j. el c i p (of_nat j)) ` {..<q}"

lemma mm_dot_sum:
  fixes u :: "nat \<Rightarrow> 'd :: semiring_0"
  assumes "0 < m"
  shows "mm_dot (+) (*) u v m j = (\<Sum>k<m. u k * v k j)"
proof -
  have "foldl (\<lambda>w k. w + u k * v k j) w [1..<m] = w + (\<Sum>k=1..<m. u k * v k j)" for w
    by (induction m) (simp_all add: add.assoc)
  moreover have "{..<m} = insert 0 {1..<m}" using assms by auto
  ultimately show ?thesis by (simp add: mm_dot_def)
qed

lemma mm_run:
  assumes "args_at s st = Some (margs n p a b c)" and "rows_ok n p (unat n) a b c i u v s"
  shows "mm add mul i st s = Inr ((), s\<lparr>doubles := (\<lambda>x. if x \<in> mm_row c i p (unat n)
            then Some (mm_dot add mul u v (unat p) (inv_into {..<unat n} (\<lambda>j. el c i p (of_nat j)) x)) else doubles s x),
       accesses := accesses s @ mm_accesses n p a b c i\<rparr>)"
proof -
  have st: "set [0..<unat n] = {..<unat n}" by auto
  note o = outer_run [OF assms(2) equalityD1 [OF st] distinct_upt, of add mul]
  show ?thesis using assms(1) o unfolding st by (simp add: mm_def bnd_def mm_accesses_def mm_row_def)
qed

text \<open>
  Two arguments: a 2 by 2 product, and one of a row of two elements with a column of two elements into one element.
\<close>

definition demo_matrices :: "int mst" where
  "demo_matrices = \<lparr>args_at = [0x10 \<mapsto> margs 2 2 0x100 0x200 0x300, 0x20 \<mapsto> margs 2 1 0x100 0x200 0x308],
     doubles = [0x100 \<mapsto> 1, 0x108 \<mapsto> 2, 0x200 \<mapsto> 5, 0x208 \<mapsto> 6, 0x210 \<mapsto> 7, 0x218 \<mapsto> 8, 0x300 \<mapsto> 0, 0x308 \<mapsto> 0],
     accesses = []\<rparr>"

text \<open>C27: when the elements that the row needs are in memory and \<open>c\<close> does not overlap them, the kernel returns: the
  first \<open>n\<close> elements of row \<open>i\<close> of \<open>c\<close> become the sums over \<open>k < p\<close> of \<open>a(i,k) b(k,j)\<close>, no other element changes, and
  the loads and stores are those of \<open>mm_accesses\<close>. For \<open>n = p\<close> this is the row of the matrix product.\<close>

theorem mm_computes_a_row:
  fixes u :: "nat \<Rightarrow> 'd :: semiring_0"
  assumes "args_at s st = Some (margs n p a b c)"
    and "rows_ok n p (unat n) a b c i u v s" and "p \<noteq> 0"
  shows "\<exists>s'. mm (+) (*) i st s = Inr ((), s') \<and>
     (\<forall>j < unat n. doubles s' (el c i p (of_nat j)) = Some (\<Sum>k < unat p. u k * v k j)) \<and>
     (\<forall>x. x \<notin> mm_row c i p (unat n) \<longrightarrow> doubles s' x = doubles s x) \<and> accesses s' = accesses s @ mm_accesses n p a b c i"
proof -
  let ?c = "\<lambda>j. el c i p (of_nat j :: 64 word)"
  have inj: "inj_on ?c {..<unat n}" using assms(2) by (simp add: rows_ok_def)
  have p: "0 < unat p" using assms(3) by (simp add: unat_gt_0)
  have m: "?c j \<in> mm_row c i p (unat n)" if "j < unat n" for j using that by (simp add: mm_row_def)
  show ?thesis using mm_run [OF assms(1,2), where add = "(+)" and mul = "(*)"] inv_into_f_f [OF inj] mm_dot_sum [OF p, of u v] m
    by simp
qed

theorem mm_computes_a_row_witness:
  "\<exists>s'. mm (+) (*) 0 0x10 demo_matrices = Inr ((), s') \<and> doubles s' 0x300 = Some 19"
proof -
  let ?u = "\<lambda>k. int k + 1" and ?v = "\<lambda>k j. 2 * int k + int j + 5"
  have two: "(\<forall>k < 2. P k) \<longleftrightarrow> P 0 \<and> P 1" for P :: "nat \<Rightarrow> bool" by (auto simp: less_2_cases_iff)
  have set: "{..<2 :: nat} = {0, 1}" by auto
  have u: "max 1 (2 :: nat) = 2" "unat (2 :: 64 word) = 2" by simp_all
  have "rows_ok 2 2 (unat (2 :: 64 word)) 0x100 0x200 0x300 0 ?u ?v demo_matrices"
    unfolding rows_ok_def u two set by (simp add: demo_matrices_def el_def)
  then obtain s' where "mm (+) (*) 0 0x10 demo_matrices = Inr ((), s')"
      "\<forall>j < 2. doubles s' (el 0x300 0 2 (of_nat j)) = Some (\<Sum>k < 2. ?u k * ?v k j)"
    using mm_computes_a_row [of demo_matrices "0x10" 2 2 "0x100" "0x200" "0x300" 0 ?u ?v] by (auto simp: demo_matrices_def)
  then show ?thesis unfolding two set by (auto simp: el_def)
qed

text \<open>C36: the bounds of the two loops are exchanged: with more columns of \<open>a\<close> than columns of \<open>c\<close> (\<open>p < n\<close>) the
  kernel does not stop at the end of its row of \<open>c\<close>, so that the last row ends with a store past the matrix.\<close>

theorem wide_rows_overrun:
  assumes "args_at s st = Some (margs n p a b c)" and "rows_ok n p (unat p) a b c i u v s" and "p < n" and "p \<noteq> 0"
    and "doubles s (el b 0 p p) \<noteq> None" and "doubles s (el c i p p) = None" and "el b 0 p p \<notin> mm_row c i p (unat p)"
  shows "mm add mul i st s = Inl (BadPtr (el c i p p))"
proof -
  let ?c = "\<lambda>j. el c i p (of_nat j :: 64 word)" and ?body = "\<lambda>j (_ :: unit). mm_column add mul (margs n p a b c) i j"
  have lt: "unat p < unat n" using assms(3) by (simp add: word_less_nat_alt)
  then have up: "[0..<unat n] = [0..<unat p] @ unat p # [Suc (unat p)..<unat n]"
    using upt_add_eq_append [of 0 "unat p" "unat n - unat p"] by (simp add: upt_conv_Cons)
  have st: "set [0..<unat p] = {..<unat p}" by auto
  obtain t where t: "for_each [0..<unat p] ?body () s = Inr ((), t)"
     "\<forall>x. x \<notin> mm_row c i p (unat p) \<longrightarrow> doubles t x = doubles s x"
    using outer_run [OF assms(2) equalityD1 [OF st] distinct_upt, of add mul] unfolding st by (auto simp: mm_row_def)
  have a0: "el a i n 0 \<notin> mm_row c i p (unat p)" "doubles s (el a i n 0) \<noteq> None"
  proof -
    have "el a i n (of_nat 0) \<noteq> ?c j" if "j < unat p" for j using assms(2) that unfolding rows_ok_def by (metis less_max_iff_disj zero_less_one)
    then show "el a i n 0 \<notin> mm_row c i p (unat p)" by (auto simp: mm_row_def)
    have "doubles s (el a i n (of_nat 0)) = Some (u 0)" using assms(2) unfolding rows_ok_def by (metis less_max_iff_disj zero_less_one)
    then show "doubles s (el a i n 0) \<noteq> None" by simp
  qed
  have "el c i p p \<notin> mm_row c i p (unat p)" using assms(2,6) unfolding rows_ok_def mm_row_def by auto
  then have "doubles t (el c i p p) = None" using t(2) assms(6) by simp
  moreover have "doubles t (el a i n 0) \<noteq> None" "doubles t (el b 0 p p) \<noteq> None" using t(2) a0 assms(5,7) by simp_all
  ultimately have "mm_column add mul (margs n p a b c) i (unat p) t = Inl (BadPtr (el c i p p))"
    by (auto simp: mm_column_def bnd_def ld_def sd_def)
  then show ?thesis using assms(1) t(1) up by (simp add: mm_def bnd_def for_each_append)
qed

theorem wide_rows_overrun_witness:
  "mm (+) (*) 0 0x20 demo_matrices = Inl (BadPtr 0x310)"
proof -
  let ?u = "\<lambda>k. int k + 1" and ?v = "\<lambda>k j. 2 * int k + int j + 5"
  have "rows_ok 2 1 (unat (1 :: 64 word)) 0x100 0x200 0x308 0 ?u ?v demo_matrices"
    by (simp add: rows_ok_def demo_matrices_def el_def lessThan_Suc)
  then show ?thesis
    using wide_rows_overrun [of demo_matrices "0x20" 2 1 "0x100" "0x200" "0x308" 0 ?u ?v "(+)" "(*)"]
    by (simp add: demo_matrices_def el_def mm_row_def lessThan_Suc)
qed

subsection \<open>All rows\<close>









subsection \<open>The program\<close>

text \<open>\<open>__ooc_defn\<close> makes the name of a kernel a pointer to a function that schedules it; \<open>OOC_FINAL\<close>.\<close>

definition ooc_sched_kern :: "addr \<Rightarrow> 64 word \<Rightarrow> addr \<Rightarrow> ('x sst_scheme, unit) prog" where
  "ooc_sched_kern kern i args = ooc_sched kern i args"

definition OOC_FINAL :: "('x sst_scheme, unit) prog" where
  "OOC_FINAL = bnd ooc_finalize (\<lambda>r. assertion (r = 0))"

text \<open>
  \<open>main\<close> up to the calls of \<open>ooc_free\<close>; the rows are taken in the order of the loop, one of the orders that the
  \<open>parallel for\<close> allows. Filling \<open>args\<close> fixes what the kernel \<open>kern\<close> does when it is called with them.
\<close>

definition mm_work :: "addr \<Rightarrow> addr \<Rightarrow> ('x sst_scheme, addr \<times> addr \<times> addr) prog" where
  "mm_work kern args =
     (let m = 100; n = 100; p = 100 in
      bnd (ooc_malloc (m * n * 8)) (\<lambda>a.
      bnd (assertion (a \<noteq> NULL)) (\<lambda>_.
      bnd (ooc_malloc (n * p * 8)) (\<lambda>b.
      bnd (assertion (b \<noteq> NULL)) (\<lambda>_.
      bnd (ooc_malloc (m * p * 8)) (\<lambda>c.
      bnd (assertion (c \<noteq> NULL)) (\<lambda>_.
      bnd (modify (\<lambda>s. s\<lparr>kernels := (kernels s)(kern :=
         (\<lambda>i st. if st = args then mm_accesses n p a b c i else kernels s kern i st))\<rparr>)) (\<lambda>_.
      bnd (for_each [0..<unat m] (\<lambda>i _. ooc_sched_kern kern (of_nat i) args) ()) (\<lambda>_.
      bnd OOC_FINAL (\<lambda>_. ret (a, b, c)))))))))))"

definition mm_main :: "addr \<Rightarrow> addr \<Rightarrow> ('x sst_scheme, int) prog" where
  "mm_main kern args =
     bnd (mm_work kern args) (\<lambda>(a, b, c).
     bnd (ooc_free a) (\<lambda>_.
     bnd (ooc_free b) (\<lambda>_.
     bnd (ooc_free c) (\<lambda>_. ret 0))))"















end
