(* ===== verification/Aio.thy ===== *)
theory Aio
  imports Prelude
begin

section \<open>aio.c: asynchronous input and output\<close>

text \<open>
  Models \<open>src/src/aio.c\<close>, the wrapper around POSIX asynchronous I/O. The flag \<open>native\<close> is the
  preprocessor symbol \<open>WITH_NATIVE_AIO\<close>: then only contexts are set up and torn down, by system calls,
  and every transfer answers -1. That branch is modelled as it is meant: it does not compile, because \<open>ooc_aio_cancel\<close> mentions
  a variable \<open>fd\<close> there that it does not declare, only to silence a warning. The operating system is the parameter \<open>os\<close> of the operations: it takes a
  call, its own state and the control blocks in memory, and gives the register of the result, its new
  state and the control blocks, into which it may write. An \<open>int\<close> is the low half of that register.
\<close>

subsection \<open>Control blocks and calls\<close>

text \<open>\<open>struct aiocb\<close>; \<open>aio_private\<close> stands for the bytes that belong to the implementation of the library.\<close>

record aiocb =
  aio_fildes :: "32 word"
  aio_offset :: "64 word"
  aio_buf :: addr
  aio_nbytes :: "64 word"
  aio_reqprio :: "32 word"
  aio_lio_opcode :: "32 word"
  sigev_notify :: "32 word"
  sigev_signo :: "32 word"
  sigev_value :: "64 word"
  aio_private :: "8 word list"

datatype aio_call =
    Io_setup "32 word" addr
  | Io_destroy addr
  | Aio_read addr
  | Aio_write addr
  | Aio_error addr
  | Aio_return addr
  | Aio_cancel "32 word" addr
  | Aio_suspend addr "32 word" addr

type_synonym 'w aio_os = "aio_call \<Rightarrow> 'w \<Rightarrow> (addr \<rightharpoonup> aiocb) \<Rightarrow> 64 word \<times> 'w \<times> (addr \<rightharpoonup> aiocb)"

record 'w aio_state =
  native :: bool
  aiocbs :: "addr \<rightharpoonup> aiocb"
  world :: 'w

definition aio_sys :: "'w aio_os \<Rightarrow> aio_call \<Rightarrow> ('w aio_state, 64 word) prog" where
  "aio_sys os c s = (case os c (world s) (aiocbs s) of (r, w, m) \<Rightarrow> Inr (r, s\<lparr>aiocbs := m, world := w\<rparr>))"

definition int_of :: "64 word \<Rightarrow> 32 word" where
  "int_of r = ucast r"

definition upd_aiocb :: "addr \<Rightarrow> (aiocb \<Rightarrow> aiocb) \<Rightarrow> ('w aio_state, unit) prog" where
  "upd_aiocb p f s =
     (if p = NULL then Inl NullDeref
      else case aiocbs s p of None \<Rightarrow> Inl (BadPtr p) | Some c \<Rightarrow> Inr ((), s\<lparr>aiocbs := (aiocbs s)(p \<mapsto> f c)\<rparr>))"

definition get_aiocb :: "(aiocb \<Rightarrow> 'a) \<Rightarrow> addr \<Rightarrow> ('w aio_state, 'a) prog" where
  "get_aiocb f p s =
     (if p = NULL then Inl NullDeref
      else case aiocbs s p of None \<Rightarrow> Inl (BadPtr p) | Some c \<Rightarrow> Inr (f c, s))"

text \<open>\<open>memset (aioreq, 0, sizeof ( *aioreq))\<close>.\<close>

definition memset_aiocb :: "aiocb \<Rightarrow> aiocb" where
  "memset_aiocb c = \<lparr>aio_fildes = 0, aio_offset = 0, aio_buf = NULL, aio_nbytes = 0, aio_reqprio = 0, aio_lio_opcode = 0,
     sigev_notify = 0, sigev_signo = 0, sigev_value = 0, aio_private = map (\<lambda>_. 0) (aio_private c)\<rparr>"

definition SIGEV_NONE :: "32 word" where "SIGEV_NONE = 1"

subsection \<open>Contexts\<close>

definition ooc_aio_setup :: "'w aio_os \<Rightarrow> 32 word \<Rightarrow> addr \<Rightarrow> ('w aio_state, 32 word) prog" where
  "ooc_aio_setup os nr ctx =
     bnd (gets native) (\<lambda>nat.
     if nat then bnd (aio_sys os (Io_setup nr ctx)) (\<lambda>r. ret (int_of r))
     else ret 0)"

definition ooc_aio_destroy :: "'w aio_os \<Rightarrow> addr \<Rightarrow> ('w aio_state, 32 word) prog" where
  "ooc_aio_destroy os ctx =
     bnd (gets native) (\<lambda>nat.
     if nat then bnd (aio_sys os (Io_destroy ctx)) (\<lambda>r. ret (int_of r))
     else ret 0)"

subsection \<open>Transfers\<close>

definition ooc_aio_read :: "'w aio_os \<Rightarrow> 32 word \<Rightarrow> addr \<Rightarrow> 64 word \<Rightarrow> 64 word \<Rightarrow> addr \<Rightarrow> ('w aio_state, 32 word) prog" where
  "ooc_aio_read os fd buf count off aioreq =
     bnd (gets native) (\<lambda>nat.
     if nat then ret (- 1)
     else
       bnd (upd_aiocb aioreq memset_aiocb) (\<lambda>_.
       bnd (upd_aiocb aioreq (\<lambda>c. c\<lparr>aio_fildes := fd\<rparr>)) (\<lambda>_.
       bnd (upd_aiocb aioreq (\<lambda>c. c\<lparr>aio_offset := off\<rparr>)) (\<lambda>_.
       bnd (upd_aiocb aioreq (\<lambda>c. c\<lparr>aio_buf := buf\<rparr>)) (\<lambda>_.
       bnd (upd_aiocb aioreq (\<lambda>c. c\<lparr>aio_nbytes := count\<rparr>)) (\<lambda>_.
       bnd (upd_aiocb aioreq (\<lambda>c. c\<lparr>aio_reqprio := 0\<rparr>)) (\<lambda>_.
       bnd (upd_aiocb aioreq (\<lambda>c. c\<lparr>sigev_notify := SIGEV_NONE\<rparr>)) (\<lambda>_.
       bnd (aio_sys os (Aio_read aioreq)) (\<lambda>r. ret (int_of r))))))))))"

definition ooc_aio_write :: "'w aio_os \<Rightarrow> 32 word \<Rightarrow> addr \<Rightarrow> 64 word \<Rightarrow> 64 word \<Rightarrow> addr \<Rightarrow> ('w aio_state, 32 word) prog" where
  "ooc_aio_write os fd buf count off aioreq =
     bnd (gets native) (\<lambda>nat.
     if nat then ret (- 1)
     else
       bnd (upd_aiocb aioreq memset_aiocb) (\<lambda>_.
       bnd (upd_aiocb aioreq (\<lambda>c. c\<lparr>aio_fildes := fd\<rparr>)) (\<lambda>_.
       bnd (upd_aiocb aioreq (\<lambda>c. c\<lparr>aio_offset := off\<rparr>)) (\<lambda>_.
       bnd (upd_aiocb aioreq (\<lambda>c. c\<lparr>aio_buf := buf\<rparr>)) (\<lambda>_.
       bnd (upd_aiocb aioreq (\<lambda>c. c\<lparr>aio_nbytes := count\<rparr>)) (\<lambda>_.
       bnd (upd_aiocb aioreq (\<lambda>c. c\<lparr>aio_reqprio := 0\<rparr>)) (\<lambda>_.
       bnd (upd_aiocb aioreq (\<lambda>c. c\<lparr>sigev_notify := SIGEV_NONE\<rparr>)) (\<lambda>_.
       bnd (aio_sys os (Aio_write aioreq)) (\<lambda>r. ret (int_of r))))))))))"

subsection \<open>Requests under way\<close>

definition ooc_aio_error :: "'w aio_os \<Rightarrow> addr \<Rightarrow> ('w aio_state, 32 word) prog" where
  "ooc_aio_error os aioreq =
     bnd (gets native) (\<lambda>nat.
     if nat then ret (- 1) else bnd (aio_sys os (Aio_error aioreq)) (\<lambda>r. ret (int_of r)))"

definition ooc_aio_return :: "'w aio_os \<Rightarrow> addr \<Rightarrow> ('w aio_state, 64 word) prog" where
  "ooc_aio_return os aioreq =
     bnd (gets native) (\<lambda>nat. if nat then ret (- 1) else aio_sys os (Aio_return aioreq))"

definition ooc_aio_cancel :: "'w aio_os \<Rightarrow> addr \<Rightarrow> ('w aio_state, 32 word) prog" where
  "ooc_aio_cancel os aioreq =
     bnd (gets native) (\<lambda>nat.
     if nat then ret (- 1)
     else
       bnd (get_aiocb aio_fildes aioreq) (\<lambda>fd.
       bnd (aio_sys os (Aio_cancel fd aioreq)) (\<lambda>r. ret (int_of r))))"

definition ooc_aio_suspend :: "'w aio_os \<Rightarrow> addr \<Rightarrow> 32 word \<Rightarrow> addr \<Rightarrow> ('w aio_state, 32 word) prog" where
  "ooc_aio_suspend os aioreq_list nr timeout =
     bnd (gets native) (\<lambda>nat.
     if nat then ret (- 1) else bnd (aio_sys os (Aio_suspend aioreq_list nr timeout)) (\<lambda>r. ret (int_of r)))"

subsection \<open>What a request carries\<close>

definition request :: "32 word \<Rightarrow> addr \<Rightarrow> 64 word \<Rightarrow> 64 word \<Rightarrow> nat \<Rightarrow> aiocb" where
  "request fd buf count off k = \<lparr>aio_fildes = fd, aio_offset = off, aio_buf = buf, aio_nbytes = count, aio_reqprio = 0,
     aio_lio_opcode = 0, sigev_notify = SIGEV_NONE, sigev_signo = 0, sigev_value = 0, aio_private = replicate k 0\<rparr>"

lemmas aio_simps = bnd_def upd_aiocb_def get_aiocb_def memset_aiocb_def aio_sys_def

lemma read_run:
  assumes "\<not> native s" and "aiocbs s p = Some c" and "p \<noteq> NULL"
  shows "ooc_aio_read os fd buf count off p s =
     (case os (Aio_read p) (world s) ((aiocbs s)(p \<mapsto> request fd buf count off (length (aio_private c)))) of
        (r, w, m) \<Rightarrow> Inr (int_of r, s\<lparr>aiocbs := m, world := w\<rparr>))"
  using assms by (simp add: ooc_aio_read_def aio_simps request_def map_replicate_const split: prod.splits)

lemma write_run:
  assumes "\<not> native s" and "aiocbs s p = Some c" and "p \<noteq> NULL"
  shows "ooc_aio_write os fd buf count off p s =
     (case os (Aio_write p) (world s) ((aiocbs s)(p \<mapsto> request fd buf count off (length (aio_private c)))) of
        (r, w, m) \<Rightarrow> Inr (int_of r, s\<lparr>aiocbs := m, world := w\<rparr>))"
  using assms by (simp add: ooc_aio_write_def aio_simps request_def map_replicate_const split: prod.splits)

text \<open>A system that keeps a log of the calls and of the control block each call names, and always succeeds.\<close>

definition log_os :: "(aio_call \<times> aiocb option) list aio_os" where
  "log_os c w m = (0, w @ [(c, case c of Aio_read p \<Rightarrow> m p | Aio_write p \<Rightarrow> m p | _ \<Rightarrow> None)], m)"

definition stale :: aiocb where
  "stale = \<lparr>aio_fildes = 9, aio_offset = 9, aio_buf = 9, aio_nbytes = 9, aio_reqprio = 9, aio_lio_opcode = 9, sigev_notify = 0,
     sigev_signo = 9, sigev_value = 9, aio_private = [9, 9]\<rparr>"

definition posix_demo :: "(aio_call \<times> aiocb option) list aio_state" where
  "posix_demo = \<lparr>native = False, aiocbs = [0x100 \<mapsto> stale], world = []\<rparr>"

lemma stale_private: "length (aio_private stale) = 2"
  by (simp add: stale_def)

subsection \<open>Properties\<close>

text \<open>C25: with POSIX asynchronous I/O, a read or a write hands the system exactly the transfer of its
  arguments: nothing that was in the control block before reaches the system, and no other control block changes, so
  that two states which differ only in the contents of that block give the same result and the same state.\<close>

theorem requests_carry_no_stale_data:
  assumes "\<not> native s" and "aiocbs s p = Some c" and "p \<noteq> NULL" and "length (aio_private d) = length (aio_private c)"
    and "s' = s\<lparr>aiocbs := (aiocbs s)(p \<mapsto> d)\<rparr>"
  shows "ooc_aio_read os fd buf count off p s = ooc_aio_read os fd buf count off p s' \<and>
     ooc_aio_write os fd buf count off p s = ooc_aio_write os fd buf count off p s' \<and>
     ooc_aio_read os fd buf count off p s =
       (case os (Aio_read p) (world s) ((aiocbs s)(p \<mapsto> request fd buf count off (length (aio_private c)))) of
          (r, w, m) \<Rightarrow> Inr (int_of r, s\<lparr>aiocbs := m, world := w\<rparr>)) \<and>
     ooc_aio_write os fd buf count off p s =
       (case os (Aio_write p) (world s) ((aiocbs s)(p \<mapsto> request fd buf count off (length (aio_private c)))) of
          (r, w, m) \<Rightarrow> Inr (int_of r, s\<lparr>aiocbs := m, world := w\<rparr>))"
  using assms by (simp add: read_run write_run split: prod.splits)

theorem requests_carry_no_stale_data_witness:
  "(case ooc_aio_read log_os 3 0x5000 512 1024 0x100 posix_demo of
      Inr (r, s) \<Rightarrow> r = 0 \<and> world s = [(Aio_read 0x100, Some (request 3 0x5000 512 1024 2))] | _ \<Rightarrow> False)"
  using requests_carry_no_stale_data [of posix_demo "0x100" stale stale posix_demo log_os 3 "0x5000" 512 1024]
  by (simp add: posix_demo_def stale_private log_os_def int_of_def)

text \<open>A request that was submitted and then cancelled is cancelled under the descriptor it was submitted with,
  as long as the system leaves that field of the block alone.\<close>

lemma cancel_names_the_file_of_the_request:
  assumes "\<not> native s" and "aiocbs s p = Some c" and "p \<noteq> NULL" and "ooc_aio_read os fd buf count off p s = Inr (r, t)"
    and "\<forall>w m r w' m'. os (Aio_read p) w m = (r, w', m') \<longrightarrow> map_option aio_fildes (m' p) = map_option aio_fildes (m p)"
  shows "ooc_aio_cancel os p t =
     (case os (Aio_cancel fd p) (world t) (aiocbs t) of (r, w, m) \<Rightarrow> Inr (int_of r, t\<lparr>aiocbs := m, world := w\<rparr>))"
proof -
  let ?m = "(aiocbs s)(p \<mapsto> request fd buf count off (length (aio_private c)))"
  obtain r1 w1 m1 where o: "os (Aio_read p) (world s) ?m = (r1, w1, m1)" by (metis prod.exhaust)
  have t: "t = s\<lparr>aiocbs := m1, world := w1\<rparr>" using assms(4) read_run [OF assms(1-3)] o by simp
  have "map_option aio_fildes (m1 p) = Some fd" using assms(5) o by (auto simp: request_def)
  then obtain d where "m1 p = Some d" "aio_fildes d = fd" by (cases "m1 p") simp_all
  then show ?thesis using assms(1,3) t by (simp add: ooc_aio_cancel_def aio_simps split: prod.splits)
qed

lemma cancel_names_the_file_of_the_request_witness:
  "\<exists>t. ooc_aio_read log_os 3 0x5000 512 1024 0x100 posix_demo = Inr (0, t) \<and>
     (case ooc_aio_cancel log_os 0x100 t of Inr (_, u) \<Rightarrow> fst (last (world u)) = Aio_cancel 3 0x100 | _ \<Rightarrow> False)"
proof -
  obtain t where t: "ooc_aio_read log_os 3 0x5000 512 1024 0x100 posix_demo = Inr (0, t)"
    using read_run [of posix_demo "0x100" stale log_os 3 "0x5000" 512 1024] by (simp add: posix_demo_def log_os_def int_of_def)
  show ?thesis using cancel_names_the_file_of_the_request [OF _ _ _ t, of stale] t
    by (simp add: posix_demo_def log_os_def split: prod.splits)
qed

text \<open>With native asynchronous I/O every operation but the set-up and the tear-down of a context answers -1.\<close>

lemma native_transfers_always_fail:
  assumes "native s"
  shows "ooc_aio_read os fd buf count off p s = Inr (- 1, s)" "ooc_aio_write os fd buf count off p s = Inr (- 1, s)"
    "ooc_aio_error os p s = Inr (- 1, s)" "ooc_aio_return os p s = Inr (- 1, s)" "ooc_aio_cancel os p s = Inr (- 1, s)"
    "ooc_aio_suspend os list nr timeout s = Inr (- 1, s)"
  using assms
  by (simp_all add: ooc_aio_read_def ooc_aio_write_def ooc_aio_error_def ooc_aio_return_def ooc_aio_cancel_def ooc_aio_suspend_def aio_simps)

end
