(* ===== verification/Bench_Sys.thy ===== *)
theory Bench_Sys
  imports Vm_Sys
begin

section \<open>The micro benchmark: options and system calls\<close>

text \<open>
  What \<open>src/bench\<close> builds on: the options of \<open>impl.h\<close>, bytes in memory with the protection of their
  pages, files and file descriptors, and the system calls on them. The choices of the operating system
  are parameters of the state, indexed by the number of the call: the address of a mapping, the
  descriptor that \<open>open\<close> gives, how many bytes \<open>read\<close> and \<open>write\<close> move, and the value of the calls that
  answer only success or failure.
\<close>

subsection \<open>Options\<close>

text \<open>The preprocessor symbols of \<open>impl.h\<close>, and those that hold after its lines 53 to 69.\<close>

record options =
  USE_LIBC :: bool
  USE_SBMA :: bool
  USE_LOAD :: bool
  USE_LAZY :: bool
  USE_GHOST :: bool
  USE_CTX :: bool
  USE_RAND :: bool
  USE_RD :: bool
  USE_WR :: bool
  USE_RW :: bool

definition impl_h :: "options \<Rightarrow> options" where
  "impl_h d =
     (let d = (if USE_LIBC d then d\<lparr>USE_CTX := False\<rparr> else d);
          d = (if \<not> USE_LOAD d then d\<lparr>USE_GHOST := False, USE_CTX := False\<rparr> else d)
      in if USE_SBMA d \<and> USE_LIBC d then d\<lparr>USE_SBMA := False\<rparr> else d)"

subsection \<open>State\<close>

record bst =
  opts :: options
  sys_page :: "64 word"
  mem :: "addr \<rightharpoonup> 8 word"
  bprots :: "addr \<rightharpoonup> 64 word"
  files :: "string \<rightharpoonup> 8 word list"
  descs :: "nat \<rightharpoonup> string \<times> nat"
  calls :: nat
  os_map :: "nat \<Rightarrow> 64 word \<Rightarrow> addr"
  os_fd :: "nat \<Rightarrow> nat option"
  os_count :: "nat \<Rightarrow> nat \<Rightarrow> int"
  os_val :: "nat \<Rightarrow> int"

definition tick :: "('x bst_scheme, nat) prog" where
  "tick s = Inr (calls s, s\<lparr>calls := Suc (calls s)\<rparr>)"

definition pages :: "64 word \<Rightarrow> addr \<Rightarrow> 64 word \<Rightarrow> addr list" where
  "pages ps p n = map (\<lambda>k. page_of ps p + of_nat k * ps) [0..<(unat n + unat ps - 1) div unat ps]"

subsection \<open>Memory\<close>

definition b_mmap :: "64 word \<Rightarrow> 64 word \<Rightarrow> ('x bst_scheme, addr) prog" where
  "b_mmap n prot =
     bnd tick (\<lambda>k.
     bnd (gets (\<lambda>s. os_map s k n)) (\<lambda>p.
     if p = MAP_FAILED then ret MAP_FAILED
     else
       bnd (modify (\<lambda>s. s\<lparr>mem := (\<lambda>a. if within p n a then Some 0 else mem s a),
          bprots := (\<lambda>a. if a \<in> set (pages (sys_page s) p n) then Some prot else bprots s a)\<rparr>)) (\<lambda>_. ret p)))"

text \<open>\<open>mprotect\<close> fails when the start is no page or a page of the range is not mapped.\<close>

definition b_mprotect :: "addr \<Rightarrow> 64 word \<Rightarrow> 64 word \<Rightarrow> ('x bst_scheme, int) prog" where
  "b_mprotect p n prot =
     bnd tick (\<lambda>k.
     bnd (gets (\<lambda>s. page_of (sys_page s) p = p \<and> (\<forall>a \<in> set (pages (sys_page s) p n). bprots s a \<noteq> None))) (\<lambda>ok.
     if \<not> ok then ret (- 1)
     else
       bnd (gets (\<lambda>s. os_val s k)) (\<lambda>r.
       bnd (whenp (r = 0) (modify (\<lambda>s. s\<lparr>bprots := (\<lambda>a. if a \<in> set (pages (sys_page s) p n) then Some prot else bprots s a)\<rparr>)))
         (\<lambda>_. ret r))))"

definition b_munmap :: "addr \<Rightarrow> 64 word \<Rightarrow> ('x bst_scheme, int) prog" where
  "b_munmap p n =
     bnd tick (\<lambda>k.
     bnd (gets (\<lambda>s. os_val s k)) (\<lambda>r.
     bnd (whenp (r = 0) (modify (\<lambda>s. s\<lparr>mem := (\<lambda>a. if within p n a then None else mem s a),
        bprots := (\<lambda>a. if a \<in> set (pages (sys_page s) p n) then None else bprots s a)\<rparr>))) (\<lambda>_. ret r)))"

text \<open>\<open>mremap (old, size, size, MREMAP_MAYMOVE|MREMAP_FIXED, to)\<close>, which refuses a size of 0.\<close>

definition b_mremap :: "addr \<Rightarrow> 64 word \<Rightarrow> addr \<Rightarrow> ('x bst_scheme, addr) prog" where
  "b_mremap old n to =
     bnd tick (\<lambda>_.
     if n = 0 then ret MAP_FAILED
     else bnd (modify (\<lambda>s. s\<lparr>
         mem := (\<lambda>a. if within to n a then mem s (old + (a - to)) else if within old n a then None else mem s a),
         bprots := (\<lambda>a. if a \<in> set (pages (sys_page s) to n) then bprots s (old + (a - to))
            else if a \<in> set (pages (sys_page s) old n) then None else bprots s a)\<rparr>)) (\<lambda>_. ret to))"

text \<open>\<open>memset (p, v, n)\<close> of mapped memory.\<close>

definition b_memset :: "addr \<Rightarrow> 8 word \<Rightarrow> 64 word \<Rightarrow> ('x bst_scheme, unit) prog" where
  "b_memset p v n s =
     (case find (\<lambda>i. mem s (p + of_nat i) = None) [0..<unat n] of
        Some i \<Rightarrow> Inl (BadPtr (p + of_nat i))
      | None \<Rightarrow> Inr ((), s\<lparr>mem := (\<lambda>a. if within p n a then Some v else mem s a)\<rparr>))"

subsection \<open>Files\<close>

text \<open>\<open>open\<close> for reading; \<open>open\<close> with \<open>O_WRONLY|O_CREAT|O_EXCL\<close>, which refuses a file that exists. An offset for \<open>lseek\<close> is an
  index into memory, and taken to be less than \<open>2 ^ 63\<close>, so that it is not negative.\<close>

definition b_open_read :: "string \<Rightarrow> ('x bst_scheme, nat option) prog" where
  "b_open_read name =
     bnd tick (\<lambda>k.
     bnd (gets (\<lambda>s. if files s name = None then None else os_fd s k)) (\<lambda>fd.
     case fd of None \<Rightarrow> ret None
     | Some f \<Rightarrow> bnd (modify (\<lambda>s. s\<lparr>descs := (descs s)(f \<mapsto> (name, 0))\<rparr>)) (\<lambda>_. ret fd)))"

definition b_open_new :: "string \<Rightarrow> ('x bst_scheme, nat option) prog" where
  "b_open_new name =
     bnd tick (\<lambda>k.
     bnd (gets (\<lambda>s. if files s name = None then os_fd s k else None)) (\<lambda>fd.
     case fd of None \<Rightarrow> ret None
     | Some f \<Rightarrow> bnd (modify (\<lambda>s. s\<lparr>files := (files s)(name \<mapsto> []), descs := (descs s)(f \<mapsto> (name, 0))\<rparr>)) (\<lambda>_. ret fd)))"

definition b_lseek :: "nat \<Rightarrow> 64 word \<Rightarrow> ('x bst_scheme, int) prog" where
  "b_lseek f off =
     bnd tick (\<lambda>_.
     bnd (gets (\<lambda>s. descs s f)) (\<lambda>d.
     case d of None \<Rightarrow> ret (- 1)
     | Some (name, _) \<Rightarrow> bnd (modify (\<lambda>s. s\<lparr>descs := (descs s)(f \<mapsto> (name, unat off))\<rparr>)) (\<lambda>_. ret (int (unat off)))))"

definition b_close :: "nat \<Rightarrow> ('x bst_scheme, int) prog" where
  "b_close f =
     bnd tick (\<lambda>_.
     bnd (gets (\<lambda>s. descs s f)) (\<lambda>d.
     if d = None then ret (- 1) else bnd (modify (\<lambda>s. s\<lparr>descs := (descs s)(f := None)\<rparr>)) (\<lambda>_. ret 0)))"

definition b_unlink :: "string \<Rightarrow> ('x bst_scheme, int) prog" where
  "b_unlink name =
     bnd tick (\<lambda>_.
     bnd (gets (\<lambda>s. files s name)) (\<lambda>d.
     if d = None then ret (- 1) else bnd (modify (\<lambda>s. s\<lparr>files := (files s)(name := None)\<rparr>)) (\<lambda>_. ret 0)))"

definition b_fadvise :: "nat \<Rightarrow> ('x bst_scheme, int) prog" where
  "b_fadvise f = bnd tick (\<lambda>k. gets (\<lambda>s. if descs s f = None then 9 else os_val s k))"

text \<open>The bytes of a buffer, and a buffer that receives bytes.\<close>

definition bytes_at :: "(addr \<rightharpoonup> 8 word) \<Rightarrow> addr \<Rightarrow> nat \<Rightarrow> 8 word option list" where
  "bytes_at m p n = map (\<lambda>i. m (p + of_nat i)) [0..<n]"

definition put_bytes :: "addr \<Rightarrow> 8 word list \<Rightarrow> (addr \<rightharpoonup> 8 word) \<Rightarrow> (addr \<rightharpoonup> 8 word)" where
  "put_bytes p xs m = (\<lambda>a. if unat (a - p) < length xs then Some (xs ! unat (a - p)) else m a)"

text \<open>
  \<open>read\<close> moves at most as many bytes as are wanted, left in the file, and offered by the system; -1 is
  an error, of which a buffer outside of memory is one.
\<close>

definition b_read :: "nat \<Rightarrow> addr \<Rightarrow> 64 word \<Rightarrow> ('x bst_scheme, int) prog" where
  "b_read f p n =
     bnd tick (\<lambda>k.
     bnd (gets (\<lambda>s. descs s f)) (\<lambda>d.
     case d of None \<Rightarrow> ret (- 1)
     | Some (name, off) \<Rightarrow>
       bnd (gets (\<lambda>s. (files s name, os_count s k (unat n)))) (\<lambda>(file, c).
       case file of None \<Rightarrow> ret (- 1)
       | Some xs \<Rightarrow>
         let m = min (nat c) (min (unat n) (length xs - off)); ys = take m (drop off xs) in
         bnd (gets (\<lambda>s. None \<in> set (bytes_at (mem s) p m))) (\<lambda>bad.
         if c < 0 \<or> bad then ret (- 1)
         else bnd (modify (\<lambda>s. s\<lparr>mem := put_bytes p ys (mem s), descs := (descs s)(f \<mapsto> (name, off + m))\<rparr>)) (\<lambda>_. ret (int m))))))"

definition b_write :: "nat \<Rightarrow> addr \<Rightarrow> 64 word \<Rightarrow> ('x bst_scheme, int) prog" where
  "b_write f p n =
     bnd tick (\<lambda>k.
     bnd (gets (\<lambda>s. descs s f)) (\<lambda>d.
     case d of None \<Rightarrow> ret (- 1)
     | Some (name, off) \<Rightarrow>
       bnd (gets (\<lambda>s. (files s name, os_count s k (unat n)))) (\<lambda>(file, c).
       case file of None \<Rightarrow> ret (- 1)
       | Some xs \<Rightarrow>
         let m = min (nat c) (unat n) in
         bnd (gets (\<lambda>s. bytes_at (mem s) p m)) (\<lambda>ys.
         if c < 0 \<or> None \<in> set ys then ret (- 1)
         else bnd (modify (\<lambda>s. s\<lparr>files := (files s)(name \<mapsto> take off xs @ map the ys @ drop (off + m) xs),
             descs := (descs s)(f \<mapsto> (name, off + m))\<rparr>)) (\<lambda>_. ret (int m))))))"

lemmas bench_sys = tick_def b_mmap_def b_mprotect_def b_munmap_def b_mremap_def b_open_read_def b_open_new_def b_lseek_def
  b_close_def b_unlink_def b_fadvise_def

end
