(* ===== verification/Bench_Io.thy ===== *)
theory Bench_Io
  imports Bench_Sys
begin

section \<open>io.c: the file of the benchmark\<close>

text \<open>
  Models \<open>src/bench/impl/io.c\<close>: the temporary file to which the benchmark writes its array and from which
  it loads it again. \<open>read\<close> and \<open>write\<close> may move fewer bytes than they are asked for, so that both
  transfers are loops.
\<close>

record ist = bst +
  tmp_file :: string
  io_num_mem :: "64 word"

definition io_init :: "string \<Rightarrow> 64 word \<Rightarrow> ('x ist_scheme, unit) prog" where
  "io_init f n = modify (\<lambda>s. s\<lparr>tmp_file := f, io_num_mem := n\<rparr>)"

definition io_destroy :: "('x ist_scheme, unit) prog" where
  "io_destroy =
     bnd (gets tmp_file) (\<lambda>f.
     bnd (b_unlink f) (\<lambda>r. assertion (- 1 \<noteq> r)))"

subsection \<open>Reading\<close>

text \<open>One turn of the loop, with the loop variables \<open>buf\<close> and \<open>size\<close>; the loop leaves \<open>size\<close> behind.\<close>

definition io_read_iter :: "nat \<Rightarrow> addr \<times> 64 word \<Rightarrow> ('x ist_scheme, (64 word, addr \<times> 64 word) ctrl) prog" where
  "io_read_iter fd = (\<lambda>(buf, size).
     bnd (b_read fd buf size) (\<lambda>r.
     bnd (assertion (- 1 \<noteq> r)) (\<lambda>_.
     let buf = buf + of_int r; size = size - of_int r in
     ret (if 0 < size then Continue (buf, size) else Break size))))"

definition io_read :: "addr \<Rightarrow> 64 word \<Rightarrow> 64 word \<Rightarrow> ('x ist_scheme, unit) prog" where
  "io_read addr off sz =
     bnd (gets opts) (\<lambda>d.
     bnd (if \<not> USE_GHOST d then
            bnd (whenp (\<not> USE_LIBC d) (bnd (b_mprotect addr sz PROT_WRITE) (\<lambda>r. assertion (- 1 \<noteq> r)))) (\<lambda>_. ret addr)
          else
            bnd (b_mmap sz PROT_WRITE) (\<lambda>p. bnd (assertion (MAP_FAILED \<noteq> p)) (\<lambda>_. ret p))) (\<lambda>tmp_addr.
     bnd (gets tmp_file) (\<lambda>f.
     bnd (b_open_read f) (\<lambda>fd.
     bnd (assertion (None \<noteq> fd)) (\<lambda>_.
     bnd (b_lseek (the fd) off) (\<lambda>r.
     bnd (assertion (- 1 \<noteq> r)) (\<lambda>_.
     bnd (forever (io_read_iter (the fd)) (tmp_addr, sz)) (\<lambda>size.
     bnd (b_close (the fd)) (\<lambda>r.
     bnd (assertion (- 1 \<noteq> r)) (\<lambda>_.
     bnd (whenp (\<not> USE_LIBC d) (bnd (b_mprotect tmp_addr size PROT_READ) (\<lambda>r. assertion (- 1 \<noteq> r)))) (\<lambda>_.
     whenp (USE_GHOST d) (bnd (b_mremap tmp_addr size addr) (\<lambda>p. assertion (MAP_FAILED \<noteq> p))))))))))))))"

subsection \<open>Writing\<close>

definition io_write_iter :: "nat \<Rightarrow> addr \<times> 64 word \<Rightarrow> ('x ist_scheme, (unit, addr \<times> 64 word) ctrl) prog" where
  "io_write_iter fd = (\<lambda>(buf, size).
     bnd (b_write fd buf size) (\<lambda>r.
     bnd (assertion (- 1 \<noteq> r)) (\<lambda>_.
     let buf = buf + of_int r; size = size - of_int r in
     ret (if 0 < size then Continue (buf, size) else Break ()))))"

definition io_write :: "addr \<Rightarrow> 64 word \<Rightarrow> ('x ist_scheme, unit) prog" where
  "io_write addr sz =
     bnd (gets tmp_file) (\<lambda>f.
     bnd (b_open_new f) (\<lambda>fd.
     bnd (assertion (None \<noteq> fd)) (\<lambda>_.
     bnd (forever (io_write_iter (the fd)) (addr, sz)) (\<lambda>_.
     bnd (b_close (the fd)) (\<lambda>r. assertion (- 1 \<noteq> r))))))"

definition io_flush :: "('x ist_scheme, unit) prog" where
  "io_flush =
     bnd (gets tmp_file) (\<lambda>f.
     bnd (b_open_read f) (\<lambda>fd.
     bnd (assertion (None \<noteq> fd)) (\<lambda>_.
     bnd (b_fadvise (the fd)) (\<lambda>r.
     bnd (assertion (- 1 \<noteq> r)) (\<lambda>_.
     bnd (b_close (the fd)) (\<lambda>r. assertion (- 1 \<noteq> r)))))))"

subsection \<open>Buffers\<close>

lemma unat_less_64: "unat (a :: addr) < 2 ^ 64"
  using unsigned_less [of a] by simp

lemma length_bytes_at [simp]: "length (bytes_at m p n) = n"
  by (simp add: bytes_at_def)

lemma bytes_at_split: "bytes_at m p (j + k) = bytes_at m p j @ bytes_at m (p + of_nat j) k"
  by (induction k) (simp_all add: bytes_at_def ac_simps)

lemma bytes_at_take: "j \<le> k \<Longrightarrow> bytes_at m p j = take j (bytes_at m p k)"
  by (metis append_eq_conv_conj bytes_at_split le_add_diff_inverse length_bytes_at)

lemma bytes_at_drop: "j \<le> k \<Longrightarrow> bytes_at m (p + of_nat j) (k - j) = drop j (bytes_at m p k)"
  by (metis append_eq_conv_conj bytes_at_split le_add_diff_inverse length_bytes_at)

lemma put_bytes_Nil [simp]: "put_bytes p [] m = m"
  by (simp add: put_bytes_def)

lemma put_bytes_put:
  assumes "length xs + length ys < 2 ^ 64"
  shows "put_bytes (p + of_nat (length xs)) ys (put_bytes p xs m) = put_bytes p (xs @ ys) m"
proof
  fix a :: addr
  define b where "b = a - p"
  let ?d = "unat b" and ?j = "length xs"
  have j: "unat (of_nat ?j :: addr) = ?j" using assms by (simp add: unat_of_nat)
  have e: "a - (p + of_nat ?j) = b - of_nat ?j" by (simp add: b_def)
  show "put_bytes (p + of_nat ?j) ys (put_bytes p xs m) a = put_bytes p (xs @ ys) m a"
  proof (cases "?d < ?j")
    case True
    then have "\<not> of_nat ?j \<le> b" using j by (simp add: word_le_nat_alt)
    then have "unat (a - (p + of_nat ?j)) = 2 ^ 64 + ?d - ?j" unfolding e using j True by (simp add: unat_sub_if_size word_size)
    then have "\<not> unat (a - (p + of_nat ?j)) < length ys" using assms by linarith
    then show ?thesis using True by (simp add: put_bytes_def nth_append b_def)
  next
    case False
    then have "of_nat ?j \<le> b" using j by (simp add: word_le_nat_alt)
    then have "unat (a - (p + of_nat ?j)) = ?d - ?j" unfolding e using j False by (simp add: unat_sub_if_size)
    then show ?thesis using False by (auto simp: put_bytes_def nth_append b_def)
  qed
qed

lemma put_bytes_other: "\<not> unat (a - p) < length xs \<Longrightarrow> put_bytes p xs m a = m a"
  by (simp add: put_bytes_def)

lemma put_bytes_dom: "dom m \<subseteq> dom (put_bytes p xs m)"
  by (auto simp: put_bytes_def)

lemma bytes_put_bytes: "length xs < 2 ^ 64 \<Longrightarrow> bytes_at (put_bytes p xs m) p (length xs) = map Some xs"
  by (rule nth_equalityI) (simp_all add: bytes_at_def put_bytes_def unat_of_nat)

definition buffer :: "(addr \<rightharpoonup> 8 word) \<Rightarrow> addr \<Rightarrow> nat \<Rightarrow> bool" where
  "buffer m p n \<longleftrightarrow> (\<forall>i < n. p + of_nat i \<in> dom m)"

lemma buffer_bytes: "buffer m p n \<Longrightarrow> None \<notin> set (bytes_at m p n)"
  by (auto simp: buffer_def bytes_at_def)

lemma buffer_mono: "buffer m p n \<Longrightarrow> k \<le> n \<Longrightarrow> dom m \<subseteq> dom m' \<Longrightarrow> buffer m' p k"
  unfolding buffer_def by (meson less_le_trans subsetD)

lemma buffer_drop: "buffer m p n \<Longrightarrow> j \<le> n \<Longrightarrow> buffer m (p + of_nat j) (n - j)"
proof -
  assume b: "buffer m p n" "j \<le> n"
  have "p + of_nat j + of_nat i \<in> dom m" if "i < n - j" for i
  proof -
    have "j + i < n" using b(2) that by linarith
    then have "p + of_nat (j + i) \<in> dom m" using b(1) unfolding buffer_def by blast
    then show ?thesis by (simp add: add.assoc)
  qed
  then show ?thesis by (simp add: buffer_def)
qed

subsection \<open>The system keeps moving\<close>

text \<open>What \<open>read\<close> and \<open>write\<close> promise for a file on disk: no error, and at least one byte when one is wanted.\<close>

definition moves :: "'x bst_scheme \<Rightarrow> bool" where
  "moves s \<longleftrightarrow> (\<forall>k n. 0 \<le> os_count s k n \<and> (0 < n \<longrightarrow> 0 < os_count s k n))"

text \<open>One call of \<open>read\<close>.\<close>

lemma read_step:
  assumes "moves s" and "descs s f = Some (name, off)" and "files s name = Some xs" and "buffer (mem s) p (unat n)"
  shows "\<exists>m \<le> min (unat n) (length xs - off). (0 < min (unat n) (length xs - off) \<longrightarrow> 0 < m) \<and>
     b_read f p n s = Inr (int m, s\<lparr>mem := put_bytes p (take m (drop off xs)) (mem s), descs := (descs s)(f \<mapsto> (name, off + m)),
       calls := Suc (calls s)\<rparr>)"
proof -
  define c where "c = os_count s (calls s) (unat n)"
  define m where "m = min (nat c) (min (unat n) (length xs - off))"
  have c: "\<not> c < 0" "0 < unat n \<longrightarrow> 0 < c" using assms(1) by (auto simp: moves_def c_def not_less)
  have "None \<notin> set (bytes_at (mem s) p m)" by (rule buffer_bytes) (rule buffer_mono [OF assms(4)], simp_all add: m_def)
  then have "b_read f p n s = Inr (int m, s\<lparr>mem := put_bytes p (take m (drop off xs)) (mem s), descs := (descs s)(f \<mapsto> (name, off + m)),
       calls := Suc (calls s)\<rparr>)"
    using assms(2,3) c(1) by (simp add: b_read_def tick_def bnd_def c_def [symmetric] Let_def m_def [symmetric])
  moreover have "0 < m" if "0 < min (unat n) (length xs - off)" using that c by (auto simp: m_def)
  moreover have "m \<le> min (unat n) (length xs - off)" unfolding m_def by (rule min.cobounded2)
  ultimately show ?thesis by (intro exI [of _ m]) simp
qed

text \<open>The loop reads the rest of the buffer.\<close>

lemma unat_minus_of_nat:
  fixes n :: "64 word"
  assumes "m \<le> unat n"
  shows "unat (n - of_nat m) = unat n - m"
proof -
  have "m < 2 ^ 64" using assms unat_less_64 [of n] by linarith
  then have "unat (of_nat m :: 64 word) = m" by (simp add: unat_of_nat)
  then show ?thesis using assms by (simp add: unat_sub_if_size)
qed

lemma read_loop:
  assumes "moves s" and "descs s f = Some (name, off)" and "files s name = Some xs" and "buffer (mem s) p (unat n)" and "off + unat n \<le> length xs"
  shows "\<exists>j. forever (io_read_iter f) (p, n) s = Inr (0, s\<lparr>mem := put_bytes p (take (unat n) (drop off xs)) (mem s),
     descs := (descs s)(f \<mapsto> (name, off + unat n)), calls := calls s + j\<rparr>)"
  using assms
proof (induction "unat n" arbitrary: s p n off rule: less_induct)
  case less
  let ?N = "unat n"
  have mn: "min ?N (length xs - off) = ?N" using less.prems(5) by linarith
  obtain m where m: "m \<le> ?N" "0 < ?N \<longrightarrow> 0 < m"
    and run: "b_read f p n s = Inr (int m, s\<lparr>mem := put_bytes p (take m (drop off xs)) (mem s), descs := (descs s)(f \<mapsto> (name, off + m)),
       calls := Suc (calls s)\<rparr>)"
    using read_step [OF less.prems(1-4)] unfolding mn by (elim exE conjE) (rule that)
  let ?s = "s\<lparr>mem := put_bytes p (take m (drop off xs)) (mem s), descs := (descs s)(f \<mapsto> (name, off + m)), calls := Suc (calls s)\<rparr>"
  have u: "unat (n - of_nat m) = ?N - m" using m(1) by (rule unat_minus_of_nat)
  have pos: "0 < n - of_nat m \<longleftrightarrow> m < ?N" using u by (simp add: word_gt_0 unat_eq_0 [symmetric] not_le)
  show ?case
  proof (cases "m < ?N")
    case False
    then have e: "m = ?N" using m(1) by simp
    then have "n - of_nat m = 0" by simp
    then have "io_read_iter f (p, n) s = Inr (Break 0, ?s)" using run by (simp add: io_read_iter_def bnd_def)
    then show ?thesis by (intro exI [of _ 1]) (simp add: forever_Break e)
  next
    case True
    have step: "io_read_iter f (p, n) s = Inr (Continue (p + of_nat m, n - of_nat m), ?s)"
      using run pos True by (simp add: io_read_iter_def bnd_def)
    have lt: "unat (n - of_nat m) < ?N" using u m(2) True by simp
    have bf: "buffer (mem ?s) (p + of_nat m) (unat (n - of_nat m))"
      using buffer_drop [OF buffer_mono [OF less.prems(4) order_refl put_bytes_dom] m(1)] u by simp
    have mv: "moves ?s" using less.prems(1) by (simp add: moves_def)
    have "descs ?s f = Some (name, off + m)" "files ?s name = Some xs" "off + m + unat (n - of_nat m) \<le> length xs"
      using less.prems(3,5) u m(1) by simp_all
    from less.hyps [OF lt mv this(1,2) bf this(3)] obtain j where
      ih: "forever (io_read_iter f) (p + of_nat m, n - of_nat m) ?s = Inr (0, ?s\<lparr>mem := put_bytes (p + of_nat m) (take (unat (n - of_nat m)) (drop (off + m) xs)) (mem ?s),
       descs := (descs ?s)(f \<mapsto> (name, off + m + unat (n - of_nat m))), calls := calls ?s + j\<rparr>)" by blast
    have len: "length (take m (drop off xs)) = m" "length (take (?N - m) (drop (off + m) xs)) = ?N - m" using less.prems(5) True by simp_all
    have "take m (drop off xs) @ take (?N - m) (drop (off + m) xs) = take ?N (drop off xs)"
      using take_add [of m "?N - m" "drop off xs"] m(1) by (simp add: add.commute)
    moreover have "length (take m (drop off xs)) + length (take (?N - m) (drop (off + m) xs)) < 2 ^ 64" unfolding len using m(1) unat_less_64 [of n] by simp
    ultimately have "put_bytes (p + of_nat m) (take (?N - m) (drop (off + m) xs)) (put_bytes p (take m (drop off xs)) (mem s)) =
        put_bytes p (take ?N (drop off xs)) (mem s)"
      using put_bytes_put [of "take m (drop off xs)" "take (?N - m) (drop (off + m) xs)" p "mem s"] len by simp
    then show ?thesis using ih m(1) by (intro exI [of _ "Suc j"]) (simp add: forever_Continue [where body = "io_read_iter f" and l = "(p, n)" and s = s, OF step] u)
  qed
qed

text \<open>When the file ends before the buffer is full, \<open>read\<close> answers 0 for ever.\<close>

lemma read_loop_diverges:
  fixes s :: "'x ist_scheme"
  assumes "moves s" and "descs s f = Some (name, off)" and "files s name = Some xs" and "buffer (mem s) p (unat n)" and "length xs - off < unat n"
  shows "forever (io_read_iter f) (p, n) s = Inl Diverges"
proof -
  define P where "P = (\<lambda>(p :: addr, n :: 64 word) (s :: 'x ist_scheme). moves s \<and> files s name = Some xs \<and> buffer (mem s) p (unat n) \<and>
     (\<exists>off. descs s f = Some (name, off) \<and> length xs - off < unat n))"
  show ?thesis
  proof (rule forever_diverges [where P = P])
    show "P (p, n) s" using assms by (auto simp: P_def)
    fix l and s :: "'x ist_scheme" assume "P l s"
    then obtain p n off where l: "l = (p, n)" and h: "moves s" "files s name = Some xs" "buffer (mem s) p (unat n)" "descs s f = Some (name, off)"
       "length xs - off < unat n" by (cases l) (auto simp: P_def)
    obtain m where m: "m \<le> min (unat n) (length xs - off)"
      and run: "b_read f p n s = Inr (int m, s\<lparr>mem := put_bytes p (take m (drop off xs)) (mem s), descs := (descs s)(f \<mapsto> (name, off + m)),
         calls := Suc (calls s)\<rparr>)" using read_step [OF h(1,4,2,3)] by (elim exE conjE) (rule that)
    let ?s = "s\<lparr>mem := put_bytes p (take m (drop off xs)) (mem s), descs := (descs s)(f \<mapsto> (name, off + m)), calls := Suc (calls s)\<rparr>"
    have le: "m \<le> unat n" "m < unat n" using m h(5) by linarith+
    have u: "unat (n - of_nat m) = unat n - m" using le(1) by (rule unat_minus_of_nat)
    then have "0 < n - of_nat m" using le(2) by (simp add: word_gt_0 unat_eq_0 [symmetric])
    then have "io_read_iter f l s = Inr (Continue (p + of_nat m, n - of_nat m), ?s)"
      using run by (simp add: io_read_iter_def bnd_def l)
    moreover have "buffer (mem ?s) (p + of_nat m) (unat (n - of_nat m))"
      using buffer_drop [OF buffer_mono [OF h(3) order_refl put_bytes_dom] le(1)] u by simp
    then have "P (p + of_nat m, n - of_nat m) ?s" using h m u by (auto simp: P_def moves_def)
    ultimately show "\<exists>k t. io_read_iter f l s = Inr (Continue k, t) \<and> P k t" by blast
  qed
qed

text \<open>One call of \<open>write\<close> at the end of the file, and its loop.\<close>

lemma write_step:
  assumes "moves s" and "descs s f = Some (name, length xs)" and "files s name = Some xs" and "buffer (mem s) p (unat n)"
  shows "\<exists>m \<le> unat n. (0 < unat n \<longrightarrow> 0 < m) \<and>
     b_write f p n s = Inr (int m, s\<lparr>files := (files s)(name \<mapsto> xs @ map the (bytes_at (mem s) p m)), descs := (descs s)(f \<mapsto> (name, length xs + m)),
       calls := Suc (calls s)\<rparr>)"
proof -
  define c where "c = os_count s (calls s) (unat n)"
  define m where "m = min (nat c) (unat n)"
  have c: "\<not> c < 0" "0 < unat n \<longrightarrow> 0 < c" using assms(1) by (auto simp: moves_def c_def not_less)
  have "None \<notin> set (bytes_at (mem s) p m)" by (rule buffer_bytes) (rule buffer_mono [OF assms(4)], simp_all add: m_def)
  then have "b_write f p n s = Inr (int m, s\<lparr>files := (files s)(name \<mapsto> xs @ map the (bytes_at (mem s) p m)), descs := (descs s)(f \<mapsto> (name, length xs + m)),
       calls := Suc (calls s)\<rparr>)"
    using assms(2,3) c(1) by (simp add: b_write_def tick_def bnd_def c_def [symmetric] Let_def m_def [symmetric])
  moreover have "0 < m" if "0 < unat n" using that c by (auto simp: m_def)
  moreover have "m \<le> unat n" by (simp add: m_def)
  ultimately show ?thesis by (intro exI [of _ m]) simp
qed

lemma write_loop:
  assumes "moves s" and "descs s f = Some (name, length xs)" and "files s name = Some xs" and "buffer (mem s) p (unat n)"
  shows "\<exists>j. forever (io_write_iter f) (p, n) s = Inr ((), s\<lparr>files := (files s)(name \<mapsto> xs @ map the (bytes_at (mem s) p (unat n))),
     descs := (descs s)(f \<mapsto> (name, length xs + unat n)), calls := calls s + j\<rparr>)"
  using assms
proof (induction "unat n" arbitrary: s p n xs rule: less_induct)
  case less
  let ?N = "unat n"
  obtain m where m: "m \<le> ?N" "0 < ?N \<longrightarrow> 0 < m"
    and run: "b_write f p n s = Inr (int m, s\<lparr>files := (files s)(name \<mapsto> xs @ map the (bytes_at (mem s) p m)), descs := (descs s)(f \<mapsto> (name, length xs + m)),
       calls := Suc (calls s)\<rparr>)"
    using write_step [OF less.prems] by (elim exE conjE) (rule that)
  let ?xs = "xs @ map the (bytes_at (mem s) p m)"
  let ?s = "s\<lparr>files := (files s)(name \<mapsto> ?xs), descs := (descs s)(f \<mapsto> (name, length xs + m)), calls := Suc (calls s)\<rparr>"
  have u: "unat (n - of_nat m) = ?N - m" using m(1) by (rule unat_minus_of_nat)
  have pos: "0 < n - of_nat m \<longleftrightarrow> m < ?N" using u by (simp add: word_gt_0 unat_eq_0 [symmetric] not_le)
  show ?case
  proof (cases "m < ?N")
    case False
    then have e: "m = ?N" using m(1) by simp
    then have "n - of_nat m = 0" by simp
    then have "io_write_iter f (p, n) s = Inr (Break (), ?s)" using run by (simp add: io_write_iter_def bnd_def)
    then show ?thesis by (intro exI [of _ 1]) (simp add: forever_Break e)
  next
    case True
    have step: "io_write_iter f (p, n) s = Inr (Continue (p + of_nat m, n - of_nat m), ?s)"
      using run pos True by (simp add: io_write_iter_def bnd_def)
    have lt: "unat (n - of_nat m) < ?N" using u m(2) True by simp
    have h: "moves ?s" "descs ?s f = Some (name, length ?xs)" "files ?s name = Some ?xs" "buffer (mem ?s) (p + of_nat m) (unat (n - of_nat m))"
      using less.prems(1) buffer_drop [OF less.prems(4) m(1)] u by (simp_all add: moves_def)
    from less.hyps [OF lt h] obtain j where
      ih: "forever (io_write_iter f) (p + of_nat m, n - of_nat m) ?s = Inr ((), ?s\<lparr>
         files := (files ?s)(name \<mapsto> ?xs @ map the (bytes_at (mem ?s) (p + of_nat m) (unat (n - of_nat m)))),
         descs := (descs ?s)(f \<mapsto> (name, length ?xs + unat (n - of_nat m))), calls := calls ?s + j\<rparr>)" by blast
    have "bytes_at (mem s) p m @ bytes_at (mem s) (p + of_nat m) (?N - m) = bytes_at (mem s) p ?N"
      using bytes_at_split [of "mem s" p m "?N - m"] m(1) by simp
    then have "map the (bytes_at (mem s) p m) @ map the (bytes_at (mem s) (p + of_nat m) (?N - m)) = map the (bytes_at (mem s) p ?N)"
      by (metis map_append)
    then show ?thesis using ih m(1)
      by (intro exI [of _ "Suc j"]) (simp add: forever_Continue [where body = "io_write_iter f" and l = "(p, n)" and s = s, OF step] u)
  qed
qed

subsection \<open>The two transfers of the libc build\<close>

definition plain :: "'x bst_scheme \<Rightarrow> bool" where
  "plain s \<longleftrightarrow> USE_LIBC (opts s) \<and> \<not> USE_GHOST (opts s) \<and> moves s \<and> (\<forall>k. os_fd s k \<noteq> None)"

text \<open>Everything but memory and descriptors is as before, and calls have been made.\<close>

definition same_files :: "'x ist_scheme \<Rightarrow> 'x ist_scheme \<Rightarrow> bool" where
  "same_files s s' \<longleftrightarrow> opts s' = opts s \<and> sys_page s' = sys_page s \<and> bprots s' = bprots s \<and> files s' = files s \<and> os_map s' = os_map s \<and>
     os_fd s' = os_fd s \<and> os_count s' = os_count s \<and> os_val s' = os_val s \<and> tmp_file s' = tmp_file s \<and> io_num_mem s' = io_num_mem s \<and>
     ist.more s' = ist.more s \<and> calls s \<le> calls s'"

lemma io_read_run:
  assumes "plain s" and "files s (tmp_file s) = Some xs" and "buffer (mem s) p (unat n)" and "unat off + unat n \<le> length xs"
  shows "\<exists>s'. io_read p off n s = Inr ((), s') \<and> mem s' = put_bytes p (take (unat n) (drop (unat off) xs)) (mem s) \<and> same_files s s'"
proof -
  obtain f where f: "os_fd s (calls s) = Some f" using assms(1) by (auto simp: plain_def)
  let ?s = "s\<lparr>calls := Suc (Suc (calls s)), descs := (descs s)(f \<mapsto> (tmp_file s, unat off))\<rparr>"
  have nn: "- 1 \<noteq> uint off" using uint_ge_0 [of off] by linarith
  have h: "moves ?s" "descs ?s f = Some (tmp_file s, unat off)" "files ?s (tmp_file s) = Some xs" "buffer (mem ?s) p (unat n)"
    using assms by (simp_all add: plain_def moves_def)
  obtain j where l: "forever (io_read_iter f) (p, n) ?s = Inr (0, ?s\<lparr>mem := put_bytes p (take (unat n) (drop (unat off) xs)) (mem ?s),
     descs := (descs ?s)(f \<mapsto> (tmp_file s, unat off + unat n)), calls := calls ?s + j\<rparr>)" using read_loop [OF h assms(4)] by blast
  show ?thesis using assms(1,2) f l nn
    by (simp add: io_read_def bnd_def bench_sys plain_def cong: if_cong) (simp add: same_files_def)
qed

lemma io_write_run:
  assumes "plain s" and "files s (tmp_file s) = None" and "buffer (mem s) p (unat n)"
  shows "\<exists>s'. io_write p n s = Inr ((), s') \<and> mem s' = mem s \<and>
     same_files (s\<lparr>files := (files s)(tmp_file s \<mapsto> map the (bytes_at (mem s) p (unat n)))\<rparr>) s'"
proof -
  obtain f where f: "os_fd s (calls s) = Some f" using assms(1) by (auto simp: plain_def)
  let ?s = "s\<lparr>calls := Suc (calls s), files := (files s)(tmp_file s \<mapsto> []), descs := (descs s)(f \<mapsto> (tmp_file s, 0))\<rparr>"
  have h: "moves ?s" "descs ?s f = Some (tmp_file s, length ([] :: 8 word list))" "files ?s (tmp_file s) = Some []" "buffer (mem ?s) p (unat n)"
    using assms by (simp_all add: plain_def moves_def)
  obtain j where l: "forever (io_write_iter f) (p, n) ?s = Inr ((), ?s\<lparr>files := (files ?s)(tmp_file s \<mapsto> [] @ map the (bytes_at (mem ?s) p (unat n))),
     descs := (descs ?s)(f \<mapsto> (tmp_file s, length ([] :: 8 word list) + unat n)), calls := calls ?s + j\<rparr>)" using write_loop [OF h] by blast
  show ?thesis using assms(1,2) f l
    by (simp add: io_write_def bnd_def bench_sys plain_def cong: if_cong) (simp add: same_files_def)
qed

text \<open>C37: whatever number of bytes the system moves per call, what \<open>io_write\<close> has written to a new file is what \<open>io_read\<close>
  brings back, from any offset and to any buffer, and neither touches any other byte of memory.\<close>

theorem io_write_then_read:
  assumes "plain s" and "files s (tmp_file s) = None" and "buffer (mem s) p (unat n)" and "buffer (mem s) q (unat m)" and "unat off + unat m \<le> unat n"
  shows "\<exists>s1 s2. io_write p n s = Inr ((), s1) \<and> mem s1 = mem s \<and> io_read q off m s1 = Inr ((), s2) \<and>
     bytes_at (mem s2) q (unat m) = bytes_at (mem s) (p + off) (unat m) \<and> (\<forall>a. \<not> within q m a \<longrightarrow> mem s2 a = mem s a)"
proof -
  let ?xs = "map the (bytes_at (mem s) p (unat n))"
  obtain s1 where w: "io_write p n s = Inr ((), s1)" "mem s1 = mem s" "same_files (s\<lparr>files := (files s)(tmp_file s \<mapsto> ?xs)\<rparr>) s1"
    using io_write_run [OF assms(1-3)] by blast
  have h: "plain s1" "files s1 (tmp_file s1) = Some ?xs" "buffer (mem s1) q (unat m)" "unat off + unat m \<le> length ?xs"
    using assms w(2,3) by (simp_all add: plain_def moves_def same_files_def)
  obtain s2 where r: "io_read q off m s1 = Inr ((), s2)" "mem s2 = put_bytes q (take (unat m) (drop (unat off) ?xs)) (mem s1)"
    using io_read_run [OF h] by blast
  let ?ys = "take (unat m) (drop (unat off) ?xs)"
  have len: "length ?ys = unat m" using assms(5) by simp
  have "bytes_at (mem s2) q (unat m) = map Some ?ys" using bytes_put_bytes [of ?ys q "mem s1"] unat_less_64 [of m] unfolding r(2) len by simp
  also have "\<dots> = bytes_at (mem s) (p + off) (unat m)"
  proof (rule nth_equalityI)
    fix i assume "i < length (map Some ?ys)"
    then have i: "i < unat m" using len by simp
    then have "unat off + i < unat n" using assms(5) by linarith
    then have "p + of_nat (unat off + i) \<in> dom (mem s)" using assms(3) unfolding buffer_def by blast
    then have "p + off + of_nat i \<in> dom (mem s)" by (simp add: add.assoc)
    then show "map Some ?ys ! i = bytes_at (mem s) (p + off) (unat m) ! i" using i assms(5) by (auto simp: bytes_at_def add.assoc)
  qed (use len in simp)
  finally have e: "bytes_at (mem s2) q (unat m) = bytes_at (mem s) (p + off) (unat m)" .
  have "mem s2 a = mem s a" if "\<not> within q m a" for a
  proof -
    have "\<not> unat (a - q) < length ?ys" using that len by (simp add: within_def word_less_nat_alt)
    then show ?thesis unfolding r(2) w(2) by (rule put_bytes_other)
  qed
  then show ?thesis using w(1,2) r(1) e by blast
qed

text \<open>A disk that gives one byte at a time, and ten bytes of memory.\<close>

definition slow_disk :: ist where
  "slow_disk = \<lparr>opts = \<lparr>USE_LIBC = True, USE_SBMA = False, USE_LOAD = True, USE_LAZY = False, USE_GHOST = False, USE_CTX = False,
       USE_RAND = False, USE_RD = True, USE_WR = False, USE_RW = False\<rparr>,
     sys_page = 4096, mem = (\<lambda>a. if 0x1000 \<le> a \<and> a < 0x100A then Some (ucast a) else None), bprots = [0x1000 \<mapsto> PROT_READ OR PROT_WRITE],
     files = Map.empty, descs = Map.empty, calls = 0, os_map = (\<lambda>_ _. MAP_FAILED), os_fd = (\<lambda>_. Some 3),
     os_count = (\<lambda>_ n. if n = 0 then 0 else 1), os_val = (\<lambda>_. 0), tmp_file = ''t'', io_num_mem = 4\<rparr>"

lemma slow_plain: "plain slow_disk"
  by (simp add: plain_def moves_def slow_disk_def)

lemma slow_mem: "mem slow_disk a = (if 0x1000 \<le> a \<and> a < 0x100A then Some (ucast a) else None)"
  by (simp add: slow_disk_def)

lemma slow_buffer: "buffer (mem slow_disk) 0x1000 4" "buffer (mem slow_disk) 0x1005 2"
proof -
  have "i < 4 \<longleftrightarrow> i = 0 \<or> i = 1 \<or> i = 2 \<or> i = 3" "i < 2 \<longleftrightarrow> i = 0 \<or> i = 1" for i :: nat by arith+
  then show "buffer (mem slow_disk) 0x1000 4" "buffer (mem slow_disk) 0x1005 2" by (auto simp: buffer_def domIff slow_mem)
qed

theorem io_write_then_read_witness:
  "\<exists>s1 s2. io_write 0x1000 4 slow_disk = Inr ((), s1) \<and> io_read 0x1005 1 2 s1 = Inr ((), s2) \<and>
     bytes_at (mem s2) 0x1005 2 = [Some 1, Some 2]"
proof -
  have b: "bytes_at (mem slow_disk) 0x1001 2 = [Some 1, Some 2]" by (simp add: bytes_at_def slow_mem upt_rec)
  show ?thesis using io_write_then_read [OF slow_plain, of "0x1000" 4 "0x1005" 2 1] slow_buffer b by (auto simp: slow_disk_def)
qed

text \<open>C38: a load of more bytes than the file holds never returns: \<open>read\<close> answers 0 at the end of the file, which the loop
  does not take for an error.\<close>

theorem io_read_past_end_diverges:
  assumes "plain s" and "files s (tmp_file s) = Some xs" and "buffer (mem s) p (unat n)" and "length xs - unat off < unat n"
  shows "io_read p off n s = Inl Diverges"
proof -
  obtain f where f: "os_fd s (calls s) = Some f" using assms(1) by (auto simp: plain_def)
  let ?s = "s\<lparr>calls := Suc (Suc (calls s)), descs := (descs s)(f \<mapsto> (tmp_file s, unat off))\<rparr>"
  have nn: "- 1 \<noteq> uint off" using uint_ge_0 [of off] by linarith
  have h: "moves ?s" "descs ?s f = Some (tmp_file s, unat off)" "files ?s (tmp_file s) = Some xs" "buffer (mem ?s) p (unat n)"
    using assms by (simp_all add: plain_def moves_def)
  show ?thesis using assms(1,2) f read_loop_diverges [OF h assms(4)] nn
    by (simp add: io_read_def bnd_def bench_sys plain_def cong: if_cong)
qed

theorem io_read_past_end_diverges_witness:
  "io_read 0x1005 3 2 (slow_disk\<lparr>files := [''t'' \<mapsto> [7, 8, 9, 10]]\<rparr>) = Inl Diverges"
  using io_read_past_end_diverges [of "slow_disk\<lparr>files := [''t'' \<mapsto> [7, 8, 9, 10]]\<rparr>" "[7, 8, 9, 10]" "0x1005" 2 3] slow_plain slow_buffer
  by (simp add: slow_disk_def plain_def moves_def)

lemma buffer_mmap:
  "buffer (\<lambda>a. if within p n a then Some x else m a) p (unat n)"
proof -
  have "(of_nat i :: 64 word) < n" if "i < unat n" for i
    using that unat_less_64 [of n] by (simp add: word_less_nat_alt unat_of_nat)
  then show ?thesis by (auto simp: buffer_def within_def domIff)
qed

lemma ghost_load_fails:
  assumes "USE_GHOST (opts s)" and "USE_LIBC (opts s)" and "moves s" and "\<forall>k. os_fd s k \<noteq> None" and "files s (tmp_file s) = Some xs"
    and "unat off + unat n \<le> length xs" and "os_map s (calls s) n \<noteq> MAP_FAILED"
  shows "io_read p off n s = Inl AssertFail"
proof -
  define t where "t = os_map s (calls s) n"
  obtain f where f: "os_fd s (Suc (calls s)) = Some f" using assms(4) by blast
  let ?s = "s\<lparr>mem := (\<lambda>a. if within t n a then Some 0 else mem s a),
     bprots := (\<lambda>a. if a \<in> set (pages (sys_page s) t n) then Some PROT_WRITE else bprots s a),
     calls := Suc (Suc (Suc (calls s))), descs := (descs s)(f \<mapsto> (tmp_file s, unat off))\<rparr>"
  have nn: "- 1 \<noteq> uint off" using uint_ge_0 [of off] by linarith
  have h: "moves ?s" "descs ?s f = Some (tmp_file s, unat off)" "files ?s (tmp_file s) = Some xs" "buffer (mem ?s) t (unat n)"
    using assms(3,5) by (simp_all add: moves_def buffer_mmap)
  obtain j where l: "forever (io_read_iter f) (t, n) ?s = Inr (0, ?s\<lparr>mem := put_bytes t (take (unat n) (drop (unat off) xs)) (mem ?s),
     descs := (descs ?s)(f \<mapsto> (tmp_file s, unat off + unat n)), calls := calls ?s + j\<rparr>)" using read_loop [OF h assms(6)] by blast
  show ?thesis using assms(1,2,5,7) f l nn
    by (simp add: io_read_def bnd_def bench_sys t_def [symmetric] cong: if_cong)
qed

text \<open>C39: with \<open>USE_GHOST\<close> a load never returns: the loop has counted \<open>size\<close> down to 0 when \<open>mremap\<close> is asked to move
  that many bytes, which it refuses.\<close>

theorem ghost_load_never_returns:
  fixes s :: "'x ist_scheme"
  assumes "USE_GHOST (opts s)"
  shows "io_read p off n s \<noteq> Inr ((), s') \<and>
     (USE_LIBC (opts s) \<and> moves s \<and> (\<forall>k. os_fd s k \<noteq> None) \<and> os_map s (calls s) n \<noteq> MAP_FAILED \<and>
      files s (tmp_file s) = Some xs \<and> unat off + unat n \<le> length xs \<longrightarrow> io_read p off n s = Inl AssertFail)"
proof (intro conjI impI notI)
  assume "USE_LIBC (opts s) \<and> moves s \<and> (\<forall>k. os_fd s k \<noteq> None) \<and> os_map s (calls s) n \<noteq> MAP_FAILED \<and>
      files s (tmp_file s) = Some xs \<and> unat off + unat n \<le> length xs"
  then show "io_read p off n s = Inl AssertFail" using ghost_load_fails [OF assms] by blast
next
  assume r: "io_read p off n s = Inr ((), s')"
  have z: "k = 0" if F: "forever (io_read_iter f) l u = Inr (k, v)" for f l v and u :: "'x ist_scheme" and k :: "64 word"
  proof -
    obtain j w where "io_read_iter f j w = Inr (Break k, v)" using forever_result [OF F] by blast
    then have "\<not> 0 < k" by (cases j) (auto simp: io_read_iter_def bnd_eq_Inr Let_def split: if_splits)
    then show ?thesis by (simp add: word_gt_0)
  qed
  obtain t k u f l w and v :: "'x ist_scheme" where w: "whenp (USE_GHOST (opts s)) (bnd (b_mremap t k p) (\<lambda>p. assertion (MAP_FAILED \<noteq> p))) u = Inr ((), s')"
      "forever (io_read_iter f) l v = Inr (k, w)"
    using r unfolding io_read_def bnd_Inr [of "gets opts" s, OF gets_run] bnd_eq_Inr by (elim exE conjE) (rule that)
  have "k = 0" by (rule z) (rule w(2))
  then show False using assms w(1) by (simp add: bench_sys bnd_def)
qed

theorem ghost_load_never_returns_witness:
  "io_read 0x1005 1 2 (slow_disk\<lparr>opts := (opts slow_disk)\<lparr>USE_GHOST := True\<rparr>, files := [''t'' \<mapsto> [7, 8, 9, 10]], os_map := (\<lambda>_ _. 0x8000)\<rparr>) =
     Inl AssertFail"
proof -
  let ?s = "slow_disk\<lparr>opts := (opts slow_disk)\<lparr>USE_GHOST := True\<rparr>, files := [''t'' \<mapsto> [7, 8, 9, 10]], os_map := (\<lambda>_ _. 0x8000)\<rparr>"
  have "USE_GHOST (opts ?s)" by simp
  from ghost_load_never_returns [OF this, of "0x1005" 1 2 ?s "[7, 8, 9, 10]"] show ?thesis
    by (simp add: slow_disk_def moves_def MAP_FAILED_def)
qed

end
