(* ===== verification/Bench_Array.thy ===== *)
theory Bench_Array
  imports Bench_Io
begin

section \<open>Arrays of unsigned integers in memory\<close>

text \<open>
  The \<open>DATATYPE\<close> of the benchmark is \<open>unsigned\<close>: four bytes, the least significant first. \<open>arr m p xs\<close> says
  that memory \<open>m\<close> holds the array \<open>xs\<close> at \<open>p\<close>; reading and writing an element are then list operations.
\<close>

definition bytes32 :: "32 word \<Rightarrow> 8 word list" where
  "bytes32 w = [ucast w, ucast (drop_bit 8 w), ucast (drop_bit 16 w), ucast (drop_bit 24 w)]"

definition word32 :: "8 word list \<Rightarrow> 32 word" where
  "word32 xs = (case xs of [a, b, c, d] \<Rightarrow>
     ucast a OR push_bit 8 (ucast b) OR push_bit 16 (ucast c) OR push_bit 24 (ucast d) | _ \<Rightarrow> 0)"

definition ld32 :: "addr \<Rightarrow> ('x bst_scheme, 32 word) prog" where
  "ld32 p =
     bnd (gets (\<lambda>s. bytes_at (mem s) p 4)) (\<lambda>ys.
     if None \<in> set ys then fails (BadPtr p) else ret (word32 (map the ys)))"

definition st32 :: "addr \<Rightarrow> 32 word \<Rightarrow> ('x bst_scheme, unit) prog" where
  "st32 p v =
     bnd (gets (\<lambda>s. bytes_at (mem s) p 4)) (\<lambda>ys.
     if None \<in> set ys then fails (BadPtr p) else modify (\<lambda>s. s\<lparr>mem := put_bytes p (bytes32 v) (mem s)\<rparr>))"

lemma length_bytes32 [simp]: "length (bytes32 w) = 4"
  by (simp add: bytes32_def)

lemma word32_bytes32 [simp]: "word32 (bytes32 w) = w"
proof (rule bit_word_eqI)
  fix n assume "n < LENGTH(32)"
  then have n: "n < 32" by simp
  consider "n < 8" | "8 \<le> n" "n < 16" | "16 \<le> n" "n < 24" | "24 \<le> n" "n < 32" using n by linarith
  then show "bit (word32 (bytes32 w)) n = bit w n"
    by cases (auto simp: word32_def bytes32_def bit_or_iff bit_push_bit_iff bit_ucast_iff bit_drop_bit_eq)
qed

subsection \<open>Lists of words as lists of bytes\<close>

abbreviation bytes :: "32 word list \<Rightarrow> 8 word list" where
  "bytes xs \<equiv> concat (map bytes32 xs)"

lemma length_bytes [simp]: "length (bytes xs) = 4 * length xs"
  by (induction xs) simp_all

lemma bytes_nth: "i < length xs \<Longrightarrow> j < 4 \<Longrightarrow> bytes xs ! (4 * i + j) = bytes32 (xs ! i) ! j"
proof (induction xs arbitrary: i)
  case (Cons x xs)
  then show ?case by (cases i) (simp_all add: nth_append)
qed simp

lemma nth_bytes: "k < 4 * length xs \<Longrightarrow> bytes xs ! k = bytes32 (xs ! (k div 4)) ! (k mod 4)"
  using bytes_nth [of "k div 4" xs "k mod 4"] by (simp add: less_mult_imp_div_less mult.commute)

definition arr :: "(addr \<rightharpoonup> 8 word) \<Rightarrow> addr \<Rightarrow> 32 word list \<Rightarrow> bool" where
  "arr m p xs \<longleftrightarrow> 4 * length xs < 2 ^ 64 \<and> bytes_at m p (4 * length xs) = map Some (bytes xs)"

lemma arr_iff: "arr m p xs \<longleftrightarrow> 4 * length xs < 2 ^ 64 \<and> (\<forall>k < 4 * length xs. m (p + of_nat k) = Some (bytes xs ! k))"
  unfolding arr_def list_eq_iff_nth_eq by (simp add: bytes_at_def)

text \<open>The address of an element.\<close>

definition at :: "addr \<Rightarrow> 64 word \<Rightarrow> addr" where
  "at p i = p + 4 * i"

lemma arr_element:
  assumes "arr m p xs" and "i < length xs"
  shows "bytes_at m (at p (of_nat i)) 4 = map Some (bytes32 (xs ! i))"
proof (rule nth_equalityI)
  fix j assume "j < length (bytes_at m (at p (of_nat i)) 4)"
  then have j: "j < 4" by simp
  have "4 * i + j < 4 * length xs" using assms(2) j by linarith
  then have "m (p + of_nat (4 * i + j)) = Some (bytes xs ! (4 * i + j))" using assms(1) unfolding arr_iff by blast
  then show "bytes_at m (at p (of_nat i)) 4 ! j = map Some (bytes32 (xs ! i)) ! j"
    using j bytes_nth [OF assms(2) j] by (simp add: bytes_at_def at_def add.assoc)
qed simp

lemma arr_ld:
  assumes "arr (mem s) p xs" and "i < length xs"
  shows "ld32 (at p (of_nat i)) s = Inr (xs ! i, s)"
  using arr_element [OF assms] by (auto simp: ld32_def bnd_def comp_def)

subsection \<open>Writing\<close>

text \<open>Two ranges of memory without a common address.\<close>

definition apart :: "addr \<Rightarrow> nat \<Rightarrow> addr \<Rightarrow> nat \<Rightarrow> bool" where
  "apart p n q m \<longleftrightarrow> (\<forall>i < n. \<forall>j < m. p + of_nat i \<noteq> q + of_nat j)"

lemma put_bytes_at:
  assumes "length ys < 2 ^ 64" and "j < length ys"
  shows "put_bytes q ys m (q + of_nat j) = Some (ys ! j)"
  using assms by (simp add: put_bytes_def unat_of_nat)

lemma put_bytes_apart:
  assumes "apart p n q (length ys)" and "k < n"
  shows "put_bytes q ys m (p + of_nat k) = m (p + of_nat k)"
proof (rule put_bytes_other)
  let ?j = "unat (p + of_nat k - q)"
  have "p + of_nat k = q + of_nat ?j" by simp
  then show "\<not> ?j < length ys" using assms unfolding apart_def by blast
qed

lemma arr_apart: "arr m p xs \<Longrightarrow> apart p (4 * length xs) q (length ys) \<Longrightarrow> arr (put_bytes q ys m) p xs"
  using put_bytes_apart [of p "4 * length xs" q ys] by (simp add: arr_iff)

lemma st_run:
  assumes "arr (mem s) p xs" and "i < length xs"
  shows "st32 (at p (of_nat i)) v s = Inr ((), s\<lparr>mem := put_bytes (at p (of_nat i)) (bytes32 v) (mem s)\<rparr>)"
  using arr_element [OF assms] by (auto simp: st32_def bnd_def)

lemma arr_st:
  assumes a: "arr m p xs" and i: "i < length xs"
  shows "arr (put_bytes (at p (of_nat i)) (bytes32 v) m) p (xs[i := v])"
proof -
  let ?q = "at p (of_nat i)" and ?m = "put_bytes (at p (of_nat i)) (bytes32 v) m"
  have L: "4 * length xs < 2 ^ 64" using a by (simp add: arr_iff)
  have "?m (p + of_nat k) = Some (bytes (xs[i := v]) ! k)" if k: "k < 4 * length xs" for k
  proof (cases "k div 4 = i")
    case True
    then have e: "k = 4 * i + k mod 4" by (metis mult.commute div_mult_mod_eq)
    have "p + of_nat k = ?q + of_nat (k mod 4)" by (subst e) (simp add: at_def)
    then have "?m (p + of_nat k) = Some (bytes32 v ! (k mod 4))" using put_bytes_at [of "bytes32 v" "k mod 4"] by simp
    then show ?thesis using nth_bytes [of k "xs[i := v]"] k True i by simp
  next
    case False
    have "\<not> unat (p + of_nat k - ?q) < 4"
    proof
      assume l: "unat (p + of_nat k - ?q) < 4"
      define j where "j = unat (p + of_nat k - ?q)"
      have "p + of_nat k = p + of_nat (4 * i + j)" by (simp add: j_def at_def)
      then have "(of_nat k :: addr) = of_nat (4 * i + j)" by simp
      moreover have "4 * i + j < 2 ^ 64" "k < 2 ^ 64" using i l L k by (simp_all add: j_def)
      moreover have "unat (of_nat n :: addr) = n" if "n < 2 ^ 64" for n using that by (simp add: unat_of_nat)
      ultimately have "k = 4 * i + j" by metis
      then show False using False l by (simp add: j_def)
    qed
    then have "?m (p + of_nat k) = m (p + of_nat k)" by (intro put_bytes_other) simp
    then show ?thesis using a k nth_bytes [of k xs] nth_bytes [of k "xs[i := v]"] False by (simp add: arr_iff)
  qed
  then show ?thesis using L by (simp add: arr_iff)
qed

lemma arr_st_other:
  assumes "arr m q ys" and "apart q (4 * length ys) p (4 * n)" and "i < n"
  shows "arr (put_bytes (at p (of_nat i)) (bytes32 v) m) q ys"
proof (rule arr_apart [OF assms(1)])
  have "q + of_nat k \<noteq> at p (of_nat i) + of_nat j" if "k < 4 * length ys" "j < 4" for k j
  proof -
    have "4 * i + j < 4 * n" using assms(3) that(2) by linarith
    then have "q + of_nat k \<noteq> p + of_nat (4 * i + j)" using assms(2) that(1) unfolding apart_def by blast
    then show ?thesis by (simp add: at_def add.assoc)
  qed
  then show "apart q (4 * length ys) (at p (of_nat i)) (length (bytes32 v))" by (simp add: apart_def)
qed

end
