(* ===== verification/Bench_Libc.thy ===== *)
theory Bench_Libc
  imports Bench_Array
begin

section \<open>libc.c: the benchmark on plain memory\<close>

text \<open>
  Models \<open>src/bench/impl/libc.c\<close>, the implementation of \<open>impl.h\<close> that the benchmark is configured with:
  one anonymous mapping, which is loaded from the file as a whole, or a page at a time with \<open>USE_LAZY\<close>.
\<close>

record lst = ist +
  l_num_mem :: "64 word"
  l_siz_pag :: "64 word"
  l_base :: addr

definition libc_init :: "64 word \<Rightarrow> 64 word \<Rightarrow> ('x lst_scheme, addr) prog" where
  "libc_init num_mem num_sys =
     bnd (modify (\<lambda>s. s\<lparr>l_siz_pag := sys_page s * num_sys\<rparr>)) (\<lambda>_.
     bnd (modify (\<lambda>s. s\<lparr>l_num_mem := num_mem\<rparr>)) (\<lambda>_.
     bnd (b_mmap num_mem (PROT_READ OR PROT_WRITE)) (\<lambda>p.
     bnd (modify (\<lambda>s. s\<lparr>l_base := p\<rparr>)) (\<lambda>_. ret p))))"

definition libc_destroy :: "('x lst_scheme, unit) prog" where
  "libc_destroy =
     bnd (gets l_base) (\<lambda>p.
     bnd (gets l_num_mem) (\<lambda>n.
     bnd (b_munmap p n) (\<lambda>r. assertion (0 = r))))"

definition libc_flush :: "('x lst_scheme, unit) prog" where
  "libc_flush =
     bnd (gets opts) (\<lambda>d.
     if USE_LOAD d then bnd (gets l_base) (\<lambda>p. bnd (gets l_num_mem) (\<lambda>n. b_memset p 0 n))
     else ret ())"

definition libc_ondisk :: "('x lst_scheme, unit) prog" where
  "libc_ondisk = ret ()"

definition libc_fetch_bulk :: "addr \<Rightarrow> 64 word \<Rightarrow> 64 word \<Rightarrow> ('x lst_scheme, unit) prog" where
  "libc_fetch_bulk addr off sz =
     bnd (gets opts) (\<lambda>d. whenp (USE_LOAD d \<and> \<not> USE_LAZY d) (io_read addr off sz))"

definition libc_fetch_page :: "addr \<Rightarrow> 64 word \<Rightarrow> 64 word \<Rightarrow> ('x lst_scheme, unit) prog" where
  "libc_fetch_page addr off sz =
     bnd (gets opts) (\<lambda>d.
     if USE_LOAD d \<and> USE_LAZY d then
       bnd (gets l_siz_pag) (\<lambda>ps. whenp (0 = addr AND (ps - 1)) (io_read addr off sz))
     else ret ())"

end
