(* ===== verification/Micro.thy ===== *)
theory Micro
  imports Bench_Libc
begin

section \<open>micro.c: the benchmark\<close>

text \<open>
  Models \<open>src/bench/micro.c\<close> with the libc implementation: the command line, the shuffled index array, and
  the passes over the array, each of which is checked with assertions. The clock and the report on
  \<open>stderr\<close> change nothing that the passes look at and are left out, except for the difference of two times.
  \<open>rand\<close> is a parameter: \<open>rands k\<close> is the value of its call number \<open>k\<close>.
\<close>

record ust = lst +
  SIZ_PAG :: "64 word"
  NUM_MEM :: "64 word"
  NUM_SYS :: "64 word"
  NUM_PAG :: "64 word"
  TMPFILE :: string
  rands :: "nat \<Rightarrow> nat"
  rand_calls :: nat

subsection \<open>Elapsed time\<close>

record timespec =
  tv_sec :: int
  tv_nsec :: int

definition getelapsed :: "timespec \<Rightarrow> timespec \<Rightarrow> 64 word" where
  "getelapsed ts te =
     (let t = (if tv_nsec te < tv_nsec ts
               then \<lparr>tv_sec = tv_sec te - 1 - tv_sec ts, tv_nsec = 1000000000 + tv_nsec te - tv_nsec ts\<rparr>
               else \<lparr>tv_sec = tv_sec te - tv_sec ts, tv_nsec = tv_nsec te - tv_nsec ts\<rparr>)
      in word_of_int (tv_sec t * 1000000000 + tv_nsec t))"

subsection \<open>The command line\<close>

definition isdigit :: "char \<Rightarrow> bool" where
  "isdigit c \<longleftrightarrow> 48 \<le> (of_char c :: nat) \<and> (of_char c :: nat) \<le> 57"

definition isspace :: "char \<Rightarrow> bool" where
  "isspace c \<longleftrightarrow> (of_char c :: nat) = 32 \<or> 9 \<le> (of_char c :: nat) \<and> (of_char c :: nat) \<le> 13"

definition digit :: "char \<Rightarrow> int" where
  "digit c = of_char c - 48"

text \<open>\<open>(size_t)atol (s)\<close>; the value of a number outside of \<open>long\<close>, which C leaves open, is taken modulo \<open>2 ^ 64\<close>.\<close>

definition atol :: "string \<Rightarrow> 64 word" where
  "atol s =
     (let s = dropWhile isspace s;
          neg = (s \<noteq> [] \<and> hd s = CHR ''-'');
          s = (if s \<noteq> [] \<and> (hd s = CHR ''-'' \<or> hd s = CHR ''+'') then tl s else s);
          v = foldl (\<lambda>v c. 10 * v + digit c) 0 (takeWhile isdigit s)
      in word_of_int (if neg then - v else v))"

definition parse_arg :: "string \<Rightarrow> ('x ust_scheme, unit) prog" where
  "parse_arg a =
     (if take 6 a = ''--mem='' then modify (\<lambda>s. s\<lparr>NUM_MEM := atol (drop 6 a)\<rparr>)
      else if take 6 a = ''--sys='' then modify (\<lambda>s. s\<lparr>NUM_SYS := atol (drop 6 a)\<rparr>)
      else if take 7 a = ''--file='' then modify (\<lambda>s. s\<lparr>TMPFILE := drop 7 a\<rparr>)
      else ret ())"

definition parse :: "string list \<Rightarrow> ('x ust_scheme, unit) prog" where
  "parse argv =
     bnd (for_each (tl argv) (\<lambda>a _. parse_arg a) ()) (\<lambda>_.
     bnd (modify (\<lambda>s. s\<lparr>SIZ_PAG := sys_page s * NUM_SYS s\<rparr>)) (\<lambda>_.
     bnd (gets (\<lambda>s. NUM_MEM s AND (SIZ_PAG s - 1))) (\<lambda>r.
     bnd (assertion (0 = r)) (\<lambda>_.
     bnd (gets SIZ_PAG) (\<lambda>ps.
     if ps = 0 then fails DivByZero
     else modify (\<lambda>s. s\<lparr>NUM_PAG := NUM_MEM s div ps\<rparr>))))))"

subsection \<open>Flushing the caches\<close>

definition st8 :: "addr \<Rightarrow> 8 word \<Rightarrow> ('x bst_scheme, unit) prog" where
  "st8 p v s = (if mem s p = None then Inl (BadPtr p) else Inr ((), s\<lparr>mem := (mem s)(p \<mapsto> v)\<rparr>))"

definition ld8 :: "addr \<Rightarrow> ('x bst_scheme, 8 word) prog" where
  "ld8 p s = (case mem s p of None \<Rightarrow> Inl (BadPtr p) | Some v \<Rightarrow> Inr (v, s))"

definition cacheflush :: "('x bst_scheme, unit) prog" where
  "cacheflush =
     bnd (b_mmap 0x10000000 (PROT_READ OR PROT_WRITE)) (\<lambda>p.
     if MAP_FAILED \<noteq> p then
       bnd (for_each [0..<0x10000000] (\<lambda>i _. st8 (p + of_nat i) (of_nat i)) ()) (\<lambda>_.
       bnd (for_each [0..<0x10000000] (\<lambda>i _. bnd (ld8 (p + of_nat i)) (\<lambda>v. assertion (of_nat i = v))) ()) (\<lambda>_.
       bnd (b_munmap p 0x10000000) (\<lambda>_. ret ())))
     else ret ())"

subsection \<open>The index array\<close>

definition fill_indices :: "addr \<Rightarrow> 64 word \<Rightarrow> ('x ust_scheme, unit) prog" where
  "fill_indices rnum elem = for_each [0..<unat elem] (\<lambda>i _. st32 (at rnum (of_nat i)) (of_nat i)) ()"

definition rand :: "('x ust_scheme, 64 word) prog" where
  "rand s = Inr (of_nat (rands s (rand_calls s)), s\<lparr>rand_calls := Suc (rand_calls s)\<rparr>)"

definition swap_step :: "addr \<Rightarrow> 64 word \<Rightarrow> nat \<Rightarrow> ('x ust_scheme, unit) prog" where
  "swap_step rnum elem i =
     bnd rand (\<lambda>r.
     let j = r mod ((elem - 1) - of_nat i) + of_nat i in
     bnd (ld32 (at rnum j)) (\<lambda>tmp.
     bnd (ld32 (at rnum (of_nat i))) (\<lambda>v.
     bnd (st32 (at rnum j) v) (\<lambda>_.
     st32 (at rnum (of_nat i)) tmp))))"

definition shuffle :: "addr \<Rightarrow> 64 word \<Rightarrow> ('x ust_scheme, unit) prog" where
  "shuffle rnum elem = for_each [0..<unat (elem - 1)] (\<lambda>i _. swap_step rnum elem i) ()"

text \<open>The element that a pass visits at its turn \<open>i\<close>.\<close>

definition visit :: "addr \<Rightarrow> nat \<Rightarrow> ('x ust_scheme, 64 word) prog" where
  "visit rnum i =
     bnd (gets opts) (\<lambda>d.
     if USE_RAND d then bnd (ld32 (at rnum (of_nat i))) (\<lambda>v. ret (ucast v)) else ret (of_nat i))"

subsection \<open>Writing\<close>

definition write_turn :: "addr \<Rightarrow> addr \<Rightarrow> nat \<Rightarrow> ('x ust_scheme, unit) prog" where
  "write_turn addr rnum i =
     bnd (visit rnum i) (\<lambda>ii.
     bnd (visit rnum (i - 1)) (\<lambda>jj.
     bnd (ld32 (at addr jj)) (\<lambda>u.
     bnd (ld32 (at rnum ii)) (\<lambda>v.
     st32 (at addr ii) (u + v)))))"

definition write_pass :: "addr \<Rightarrow> addr \<Rightarrow> 64 word \<Rightarrow> ('x ust_scheme, unit) prog" where
  "write_pass addr rnum elem =
     bnd (visit rnum 0) (\<lambda>ii.
     bnd (ld32 (at rnum ii)) (\<lambda>v.
     bnd (st32 (at addr ii) v) (\<lambda>_.
     for_each [1..<unat elem] (\<lambda>i _. write_turn addr rnum i) ())))"

definition check_turn :: "addr \<Rightarrow> addr \<Rightarrow> nat \<Rightarrow> ('x ust_scheme, unit) prog" where
  "check_turn addr rnum i =
     bnd (visit rnum i) (\<lambda>ii.
     bnd (visit rnum (i - 1)) (\<lambda>jj.
     bnd (ld32 (at addr jj)) (\<lambda>u.
     bnd (ld32 (at rnum ii)) (\<lambda>v.
     bnd (ld32 (at addr ii)) (\<lambda>w.
     assertion (u + v = w))))))"

definition check_pass :: "addr \<Rightarrow> addr \<Rightarrow> 64 word \<Rightarrow> ('x ust_scheme, unit) prog" where
  "check_pass addr rnum elem =
     bnd (visit rnum 0) (\<lambda>ii.
     bnd (ld32 (at rnum ii)) (\<lambda>v.
     bnd (ld32 (at addr ii)) (\<lambda>w.
     bnd (assertion (v = w)) (\<lambda>_.
     for_each [1..<unat elem] (\<lambda>i _. check_turn addr rnum i) ()))))"

subsection \<open>Reading\<close>

definition read_turn :: "addr \<Rightarrow> addr \<Rightarrow> nat \<Rightarrow> ('x ust_scheme, unit) prog" where
  "read_turn addr rnum i =
     bnd (visit rnum i) (\<lambda>ii.
     bnd (visit rnum (i - 1)) (\<lambda>jj.
     bnd (gets SIZ_PAG) (\<lambda>ps.
     bnd (libc_fetch_page (at addr ii) (ii * 4) ps) (\<lambda>_.
     bnd (ld32 (at addr jj)) (\<lambda>u.
     bnd (ld32 (at rnum ii)) (\<lambda>v.
     bnd (ld32 (at addr ii)) (\<lambda>w.
     assertion (u + v = w))))))))"

definition read_pass :: "addr \<Rightarrow> addr \<Rightarrow> 64 word \<Rightarrow> ('x ust_scheme, unit) prog" where
  "read_pass addr rnum elem =
     bnd (gets NUM_MEM) (\<lambda>n.
     bnd (libc_fetch_bulk addr 0 n) (\<lambda>_.
     bnd (visit rnum 0) (\<lambda>ii.
     bnd (gets SIZ_PAG) (\<lambda>ps.
     bnd (libc_fetch_page (at addr ii) (ii * 4) ps) (\<lambda>_.
     bnd (ld32 (at rnum ii)) (\<lambda>v.
     bnd (ld32 (at addr ii)) (\<lambda>w.
     bnd (assertion (v = w)) (\<lambda>_.
     for_each [1..<unat elem] (\<lambda>i _. read_turn addr rnum i) ()))))))))"

subsection \<open>Reading and writing\<close>

text \<open>\<open>addr[ii] += addr[jj]+rnum[ii]\<close> and \<open>addr[ii] -= addr[jj]+rnum[ii]\<close>.\<close>

definition step_up :: "addr \<Rightarrow> addr \<Rightarrow> 64 word \<Rightarrow> 64 word \<Rightarrow> ('x ust_scheme, unit) prog" where
  "step_up addr rnum ii jj =
     bnd (ld32 (at addr jj)) (\<lambda>u.
     bnd (ld32 (at rnum ii)) (\<lambda>v.
     bnd (ld32 (at addr ii)) (\<lambda>w.
     st32 (at addr ii) (w + (u + v)))))"

definition step_down :: "addr \<Rightarrow> addr \<Rightarrow> 64 word \<Rightarrow> 64 word \<Rightarrow> ('x ust_scheme, unit) prog" where
  "step_down addr rnum ii jj =
     bnd (ld32 (at addr jj)) (\<lambda>u.
     bnd (ld32 (at rnum ii)) (\<lambda>v.
     bnd (ld32 (at addr ii)) (\<lambda>w.
     st32 (at addr ii) (w - (u + v)))))"

text \<open>\<open>assert(addr[jj]+rnum[ii] == addr[ii])\<close>.\<close>

definition check_step :: "addr \<Rightarrow> addr \<Rightarrow> 64 word \<Rightarrow> 64 word \<Rightarrow> ('x ust_scheme, unit) prog" where
  "check_step addr rnum ii jj =
     bnd (ld32 (at addr jj)) (\<lambda>u.
     bnd (ld32 (at rnum ii)) (\<lambda>v.
     bnd (ld32 (at addr ii)) (\<lambda>w.
     assertion (u + v = w))))"

definition rw_turn :: "addr \<Rightarrow> addr \<Rightarrow> nat \<Rightarrow> ('x ust_scheme, unit) prog" where
  "rw_turn addr rnum i =
     bnd (visit rnum i) (\<lambda>ii.
     bnd (visit rnum (i - 1)) (\<lambda>jj.
     bnd (gets SIZ_PAG) (\<lambda>ps.
     bnd (libc_fetch_page (at addr ii) (ii * 4) ps) (\<lambda>_.
     step_up addr rnum ii jj))))"

definition rw_pass :: "addr \<Rightarrow> addr \<Rightarrow> 64 word \<Rightarrow> ('x ust_scheme, unit) prog" where
  "rw_pass addr rnum elem =
     bnd (gets NUM_MEM) (\<lambda>n.
     bnd (libc_fetch_bulk addr 0 n) (\<lambda>_.
     bnd (visit rnum 0) (\<lambda>ii.
     bnd (gets SIZ_PAG) (\<lambda>ps.
     bnd (libc_fetch_page (at addr ii) (ii * 4) ps) (\<lambda>_.
     bnd (ld32 (at rnum ii)) (\<lambda>v.
     bnd (ld32 (at addr ii)) (\<lambda>w.
     bnd (st32 (at addr ii) (w + v)) (\<lambda>_.
     for_each [1..<unat elem] (\<lambda>i _. rw_turn addr rnum i) ()))))))))"

text \<open>The check takes two elements back to what they were, compares them, and puts them forward again.\<close>

definition rw_check_turn :: "addr \<Rightarrow> addr \<Rightarrow> nat \<Rightarrow> ('x ust_scheme, unit) prog" where
  "rw_check_turn addr rnum i =
     bnd (visit rnum i) (\<lambda>ii.
     bnd (visit rnum (i - 1)) (\<lambda>jj.
     bnd (visit rnum (i - 2)) (\<lambda>kk.
     bnd (step_down addr rnum ii jj) (\<lambda>_.
     bnd (step_down addr rnum jj kk) (\<lambda>_.
     bnd (check_step addr rnum ii jj) (\<lambda>_.
     bnd (step_up addr rnum jj kk) (\<lambda>_.
     step_up addr rnum ii jj)))))))"

definition rw_check :: "addr \<Rightarrow> addr \<Rightarrow> 64 word \<Rightarrow> ('x ust_scheme, unit) prog" where
  "rw_check addr rnum elem =
     bnd (visit rnum 1) (\<lambda>ii.
     bnd (visit rnum 0) (\<lambda>jj.
     bnd (step_down addr rnum ii jj) (\<lambda>_.
     bnd (ld32 (at rnum jj)) (\<lambda>v.
     bnd (ld32 (at addr jj)) (\<lambda>w.
     bnd (st32 (at addr jj) (w - v)) (\<lambda>_.
     bnd (ld32 (at rnum jj)) (\<lambda>v.
     bnd (ld32 (at addr jj)) (\<lambda>w.
     bnd (assertion (v = w)) (\<lambda>_.
     bnd (check_step addr rnum ii jj) (\<lambda>_.
     bnd (ld32 (at rnum jj)) (\<lambda>v.
     bnd (ld32 (at addr jj)) (\<lambda>w.
     bnd (st32 (at addr jj) (w + v)) (\<lambda>_.
     bnd (step_up addr rnum ii jj) (\<lambda>_.
     for_each [2..<unat elem] (\<lambda>i _. rw_check_turn addr rnum i) ()))))))))))))))"

subsection \<open>The program\<close>

text \<open>Acquire resources, generate the index array, write and check the array for the first time.\<close>

definition micro_setup :: "string list \<Rightarrow> ('x ust_scheme, addr \<times> addr \<times> 64 word) prog" where
  "micro_setup argv =
     bnd (parse argv) (\<lambda>_.
     bnd (gets NUM_MEM) (\<lambda>n.
     bnd (gets NUM_SYS) (\<lambda>k.
     let elem = n div 4 in
     bnd (libc_init n k) (\<lambda>addr.
     bnd (assertion (MAP_FAILED \<noteq> addr)) (\<lambda>_.
     bnd (b_mmap n (PROT_READ OR PROT_WRITE)) (\<lambda>rnum.
     bnd (assertion (MAP_FAILED \<noteq> rnum)) (\<lambda>_.
     bnd (fill_indices rnum elem) (\<lambda>_.
     bnd (shuffle rnum elem) (\<lambda>_.
     bnd libc_flush (\<lambda>_.
     bnd cacheflush (\<lambda>_. ret (addr, rnum, elem))))))))))))"

definition micro_write :: "addr \<Rightarrow> addr \<Rightarrow> 64 word \<Rightarrow> ('x ust_scheme, unit) prog" where
  "micro_write addr rnum elem =
     bnd (gets opts) (\<lambda>d.
     bnd (write_pass addr rnum elem) (\<lambda>_.
     bnd (check_pass addr rnum elem) (\<lambda>_.
     bnd libc_flush (\<lambda>_.
     bnd cacheflush (\<lambda>_.
     whenp (USE_WR d) (bnd libc_flush (\<lambda>_. cacheflush)))))))"

definition micro_write_init :: "addr \<Rightarrow> addr \<Rightarrow> 64 word \<Rightarrow> ('x ust_scheme, unit) prog" where
  "micro_write_init addr rnum elem =
     bnd (write_pass addr rnum elem) (\<lambda>_. check_pass addr rnum elem)"

definition micro_file :: "addr \<Rightarrow> ('x ust_scheme, unit) prog" where
  "micro_file addr =
     bnd (gets TMPFILE) (\<lambda>f.
     bnd (gets NUM_MEM) (\<lambda>n.
     bnd (io_init f n) (\<lambda>_.
     bnd (io_write addr n) (\<lambda>_.
     bnd (b_memset addr 0 n) (\<lambda>_. libc_ondisk)))))"

definition micro_read :: "addr \<Rightarrow> addr \<Rightarrow> 64 word \<Rightarrow> ('x ust_scheme, unit) prog" where
  "micro_read addr rnum elem =
     bnd (read_pass addr rnum elem) (\<lambda>_.
     bnd libc_flush (\<lambda>_.
     bnd io_flush (\<lambda>_. cacheflush)))"

definition micro_destroy :: "addr \<Rightarrow> ('x ust_scheme, unit) prog" where
  "micro_destroy rnum =
     bnd (gets opts) (\<lambda>d.
     bnd libc_destroy (\<lambda>_.
     bnd (whenp (USE_LOAD d) io_destroy) (\<lambda>_.
     bnd (gets NUM_MEM) (\<lambda>n.
     bnd (b_munmap rnum n) (\<lambda>r. assertion (0 = r))))))"

text \<open>
  \<open>io_flush\<close> is compiled with \<open>USE_LOAD\<close> only, so that a build with \<open>USE_WR\<close> or \<open>USE_RD\<close> and without it does not
  link; the program is that of the builds that link.
\<close>

definition micro_main :: "string list \<Rightarrow> ('x ust_scheme, int) prog" where
  "micro_main argv =
     bnd (gets opts) (\<lambda>d.
     bnd (micro_setup argv) (\<lambda>(addr, rnum, elem).
     bnd (micro_write addr rnum elem) (\<lambda>_.
     bnd (whenp (USE_WR d) (micro_write_init addr rnum elem)) (\<lambda>_.
     bnd (whenp (USE_LOAD d) (micro_file addr)) (\<lambda>_.
     bnd (whenp (USE_WR d \<or> USE_LOAD d) (bnd libc_flush (\<lambda>_. bnd io_flush (\<lambda>_. cacheflush)))) (\<lambda>_.
     bnd (whenp (USE_RD d) (micro_read addr rnum elem)) (\<lambda>_.
     bnd (whenp (USE_RW d) (bnd (rw_pass addr rnum elem) (\<lambda>_. rw_check addr rnum elem))) (\<lambda>_.
     bnd (micro_destroy rnum) (\<lambda>_. ret 0)))))))))"

end
