(* ===== verification/Micro_Steps.thy ===== *)
theory Micro_Steps
  imports Micro
begin

section \<open>The two arrays of the benchmark\<close>

text \<open>
  The passes of \<open>micro.c\<close> work on the array \<open>addr\<close> and the index array \<open>rnum\<close>. This theory turns their loads and
  stores into list operations: \<open>arrays m p q a r\<close> says that memory \<open>m\<close> holds \<open>a\<close> at \<open>p\<close> and \<open>r\<close> at \<open>q\<close>, and
  \<open>holds\<close> is the invariant of a loop that changes nothing but \<open>a\<close>.
\<close>

subsection \<open>Memory\<close>

definition arrays :: "(addr \<rightharpoonup> 8 word) \<Rightarrow> addr \<Rightarrow> addr \<Rightarrow> 32 word list \<Rightarrow> 32 word list \<Rightarrow> bool" where
  "arrays m p q a r \<longleftrightarrow> arr m p a \<and> arr m q r \<and> length a = length r \<and> apart p (4 * length r) q (4 * length r)"

lemma apart_swap: "apart p n q m \<Longrightarrow> apart q m p n"
  by (fastforce simp: apart_def)

text \<open>Memory outside of \<open>n\<close> bytes at \<open>p\<close> is as before.\<close>

definition same_out :: "addr \<Rightarrow> nat \<Rightarrow> (addr \<rightharpoonup> 8 word) \<Rightarrow> (addr \<rightharpoonup> 8 word) \<Rightarrow> bool" where
  "same_out p n m m' \<longleftrightarrow> (\<forall>x. n \<le> unat (x - p) \<longrightarrow> m' x = m x)"

lemma same_out_refl [simp]: "same_out p n m m"
  by (simp add: same_out_def)

lemma same_out_trans: "same_out p n m m' \<Longrightarrow> same_out p n m' m'' \<Longrightarrow> same_out p n m m''"
  by (simp add: same_out_def)

lemma arrays_ld_a: "arrays (mem s) p q a r \<Longrightarrow> i < length r \<Longrightarrow> ld32 (at p (of_nat i)) s = Inr (a ! i, s)"
  by (simp add: arrays_def arr_ld)

lemma arrays_ld_r: "arrays (mem s) p q a r \<Longrightarrow> i < length r \<Longrightarrow> ld32 (at q (of_nat i)) s = Inr (r ! i, s)"
  by (simp add: arrays_def arr_ld)

lemma unat_of_nat_len: "unat (of_nat k :: addr) = k mod 2 ^ 64"
  by (simp add: unat_of_nat)

lemma same_out_put:
  assumes "i < n" and "4 * n < 2 ^ 64"
  shows "same_out p (4 * n) m (put_bytes (at p (of_nat i)) (bytes32 v) m)"
  unfolding same_out_def
proof (intro allI impI)
  fix x assume x: "4 * n \<le> unat (x - p)"
  have "\<not> unat (x - at p (of_nat i)) < 4"
  proof
    assume l: "unat (x - at p (of_nat i)) < 4"
    define j where "j = unat (x - at p (of_nat i))"
    have e: "x - p = of_nat (4 * i + j)" by (simp add: j_def at_def)
    have k: "4 * i + j < 2 ^ 64" "4 * i + j < 4 * n" using l assms by (simp_all add: j_def)
    have "unat (x - p) = 4 * i + j" unfolding e using k(1) by (simp only: unat_of_nat_len) simp
    then show False using x k(2) by simp
  qed
  then show "put_bytes (at p (of_nat i)) (bytes32 v) m x = m x" by (intro put_bytes_other) simp
qed

lemma arrays_st_a:
  assumes "arrays (mem s) p q a r" and "i < length r"
  shows "\<exists>s'. st32 (at p (of_nat i)) v s = Inr ((), s') \<and> arrays (mem s') p q (a[i := v]) r \<and>
     s' = s\<lparr>mem := mem s'\<rparr> \<and> same_out p (4 * length r) (mem s) (mem s')"
proof -
  let ?m = "put_bytes (at p (of_nat i)) (bytes32 v) (mem s)"
  have h: "arr (mem s) p a" "arr (mem s) q r" "length a = length r" "apart q (4 * length r) p (4 * length r)" "4 * length r < 2 ^ 64"
    using assms(1) apart_swap by (auto simp: arrays_def arr_iff)
  have "arr ?m p (a[i := v])" using h(1,3) assms(2) by (intro arr_st) simp_all
  moreover have "arr ?m q r" using h(2,4) assms(2) by (intro arr_st_other)
  ultimately have "arrays ?m p q (a[i := v]) r" using assms(1) by (simp add: arrays_def)
  moreover have "st32 (at p (of_nat i)) v s = Inr ((), s\<lparr>mem := ?m\<rparr>)" using assms(2) h(3) by (intro st_run [OF h(1)]) simp
  ultimately show ?thesis using same_out_put [OF assms(2) h(5)] by simp
qed

lemma arrays_st_r:
  assumes "arrays (mem s) p q a r" and "i < length r"
  shows "\<exists>s'. st32 (at q (of_nat i)) v s = Inr ((), s') \<and> arrays (mem s') p q a (r[i := v]) \<and>
     s' = s\<lparr>mem := mem s'\<rparr> \<and> same_out q (4 * length r) (mem s) (mem s')"
proof -
  let ?m = "put_bytes (at q (of_nat i)) (bytes32 v) (mem s)"
  have h: "arr (mem s) p a" "arr (mem s) q r" "length a = length r" "apart p (4 * length r) q (4 * length r)" "4 * length r < 2 ^ 64"
    using assms(1) by (auto simp: arrays_def arr_iff)
  have "arr ?m q (r[i := v])" using h(2) assms(2) by (intro arr_st) simp_all
  moreover have "arr ?m p a" using h assms(2) by (intro arr_st_other) simp_all
  ultimately have "arrays ?m p q a (r[i := v])" using assms(1) by (simp add: arrays_def)
  moreover have "st32 (at q (of_nat i)) v s = Inr ((), s\<lparr>mem := ?m\<rparr>)" using assms(2) by (intro st_run [OF h(2)])
  ultimately show ?thesis using same_out_put [OF assms(2) h(5)] by simp
qed

subsection \<open>The order of the visits\<close>

definition vis :: "options \<Rightarrow> 32 word list \<Rightarrow> nat \<Rightarrow> nat" where
  "vis d r i = (if USE_RAND d then unat (r ! i) else i)"

lemma visit_run:
  assumes "arrays (mem s) p q a r" and "i < length r"
  shows "visit q i s = Inr (of_nat (vis (opts s) r i), s)"
  using arrays_ld_r [OF assms] by (simp add: visit_def bnd_def vis_def)

text \<open>A pass visits every element once.\<close>

definition index_array :: "32 word list \<Rightarrow> bool" where
  "index_array r \<longleftrightarrow> distinct r \<and> (\<forall>x \<in> set r. unat x < length r)"

lemma vis_less: "index_array r \<Longrightarrow> i < length r \<Longrightarrow> vis d r i < length r"
  by (simp add: index_array_def vis_def)

lemma vis_inj: "index_array r \<Longrightarrow> i < length r \<Longrightarrow> j < length r \<Longrightarrow> vis d r i = vis d r j \<longleftrightarrow> i = j"
  by (auto simp: index_array_def vis_def nth_eq_iff_index_eq word_eq_iff_unsigned [symmetric])

subsection \<open>Loops over the array\<close>

definition holds :: "addr \<Rightarrow> addr \<Rightarrow> 32 word list \<Rightarrow> ('x bst_scheme) \<Rightarrow> (32 word list \<Rightarrow> bool) \<Rightarrow> 'x bst_scheme \<Rightarrow> bool" where
  "holds p q r s0 P s \<longleftrightarrow>
     (\<exists>a. arrays (mem s) p q a r \<and> P a) \<and> s = s0\<lparr>mem := mem s\<rparr> \<and> same_out p (4 * length r) (mem s0) (mem s)"

lemma holdsE:
  assumes "holds p q r s0 P s"
  obtains a where "arrays (mem s) p q a r" "P a" "opts s = opts s0" "length a = length r"
  using assms that unfolding holds_def arrays_def by (metis bst.select_convs(1) bst.update_convs(3) bst.surjective)

lemma holds_init: "arrays (mem s) p q a r \<Longrightarrow> P a \<Longrightarrow> holds p q r s P s"
  by (auto simp: holds_def)

lemma holds_mono: "holds p q r s0 P s \<Longrightarrow> (\<And>a. length a = length r \<Longrightarrow> P a \<Longrightarrow> Q a) \<Longrightarrow> holds p q r s0 Q s"
  unfolding holds_def arrays_def by blast

lemma holds_step:
  assumes "holds p q r s0 P s" and "arrays (mem s') p q a r" and "Q a" and "s' = s\<lparr>mem := mem s'\<rparr>" and "same_out p (4 * length r) (mem s) (mem s')"
  shows "holds p q r s0 Q s'"
proof -
  have s: "s = s0\<lparr>mem := mem s\<rparr>" "same_out p (4 * length r) (mem s0) (mem s)" using assms(1) by (simp_all add: holds_def)
  have "s' = (s0\<lparr>mem := mem s\<rparr>)\<lparr>mem := mem s'\<rparr>" using assms(4) s(1) by simp
  then have "s' = s0\<lparr>mem := mem s'\<rparr>" by simp
  then show ?thesis using assms(2,3,5) s(2) same_out_trans by (auto simp: holds_def)
qed

text \<open>The invariant over a load and over a store.\<close>

lemma holds_visit: "holds p q r s0 P s \<Longrightarrow> i < length r \<Longrightarrow> visit q i s = Inr (of_nat (vis (opts s0) r i), s)"
  by (elim holdsE) (simp add: visit_run)

lemma holds_st:
  assumes "holds p q r s0 (\<lambda>b. b = a) s" and "i < length r" and "Q (a[i := v])"
  shows "\<exists>s'. st32 (at p (of_nat i)) v s = Inr ((), s') \<and> holds p q r s0 Q s'"
proof -
  have a: "arrays (mem s) p q a r" using assms(1) by (simp add: holds_def)
  obtain s' where s': "st32 (at p (of_nat i)) v s = Inr ((), s')" "arrays (mem s') p q (a[i := v]) r" "s' = s\<lparr>mem := mem s'\<rparr>"
      "same_out p (4 * length r) (mem s) (mem s')"
    using arrays_st_a [OF a assms(2), of v] by (elim exE conjE) (rule that)
  have "holds p q r s0 Q s'" by (rule holds_step [where P = "\<lambda>b. b = a" and Q = Q, OF assms(1) s'(2) assms(3) s'(3,4)])
  then show ?thesis using s'(1) by blast
qed

lemma holds_is:
  assumes "holds p q r s0 P s"
  obtains a where "P a" "length a = length r" "holds p q r s0 (\<lambda>b. b = a) s" "arrays (mem s) p q a r"
  using assms that unfolding holds_def arrays_def by blast

subsection \<open>Loops that stop\<close>

lemma for_each_stops:
  assumes "I m s" and "m \<le> k" and "k < n"
    and "\<And>i s. m \<le> i \<Longrightarrow> i < k \<Longrightarrow> I i s \<Longrightarrow> \<exists>s'. body i () s = Inr ((), s') \<and> I (Suc i) s'"
    and "\<And>s. I k s \<Longrightarrow> body k () s = Inl e"
  shows "for_each [m..<n] body () s = Inl e"
proof -
  obtain s' where s': "for_each [m..<k] body () s = Inr ((), s')" "I k s'" using for_each_inv [of I m s k body] assms(1,2,4) by blast
  have "[m..<n] = [m..<k] @ k # [Suc k..<n]" using assms(2,3) upt_add_eq_append [of m k "n - k"] by (simp add: upt_conv_Cons)
  then have "for_each [m..<n] body () s = bnd (for_each [m..<k] body ()) (for_each (k # [Suc k..<n]) body) s"
    by (simp only: for_each_append)
  also have "\<dots> = Inl e" using s' assms(5) by (simp add: bnd_def)
  finally show ?thesis .
qed

subsection \<open>The three statements on an element\<close>

lemma step_up_run:
  assumes "holds p q r s0 (\<lambda>b. b = a) s" and "i < length r" and "j < length r" and "Q (a[i := a ! i + (a ! j + r ! i)])"
  shows "\<exists>s'. step_up p q (of_nat i) (of_nat j) s = Inr ((), s') \<and> holds p q r s0 Q s'"
proof -
  have a: "arrays (mem s) p q a r" using assms(1) by (simp add: holds_def)
  show ?thesis using holds_st [OF assms(1,2), of Q "a ! i + (a ! j + r ! i)"] assms(4) arrays_ld_a [OF a] arrays_ld_r [OF a] assms(2,3)
    by (simp add: step_up_def bnd_def)
qed

lemma step_down_run:
  assumes "holds p q r s0 (\<lambda>b. b = a) s" and "i < length r" and "j < length r" and "Q (a[i := a ! i - (a ! j + r ! i)])"
  shows "\<exists>s'. step_down p q (of_nat i) (of_nat j) s = Inr ((), s') \<and> holds p q r s0 Q s'"
proof -
  have a: "arrays (mem s) p q a r" using assms(1) by (simp add: holds_def)
  show ?thesis using holds_st [OF assms(1,2), of Q "a ! i - (a ! j + r ! i)"] assms(4) arrays_ld_a [OF a] arrays_ld_r [OF a] assms(2,3)
    by (simp add: step_down_def bnd_def)
qed

lemma check_step_run:
  assumes "holds p q r s0 (\<lambda>b. b = a) s" and "i < length r" and "j < length r"
  shows "check_step p q (of_nat i) (of_nat j) s = (if a ! j + r ! i = a ! i then Inr ((), s) else Inl AssertFail)"
proof -
  have a: "arrays (mem s) p q a r" using assms(1) by (simp add: holds_def)
  show ?thesis using arrays_ld_a [OF a] arrays_ld_r [OF a] assms(2,3) by (simp add: check_step_def bnd_def)
qed

lemma holds_ld:
  assumes "holds p q r s0 (\<lambda>b. b = a) s" and "i < length r"
  shows "ld32 (at p (of_nat i)) s = Inr (a ! i, s)" and "ld32 (at q (of_nat i)) s = Inr (r ! i, s)"
  using assms arrays_ld_a arrays_ld_r by (auto simp: holds_def)

end
