(* ===== verification/Micro_Correct.thy ===== *)
theory Micro_Correct
  imports Micro_Steps
begin

section \<open>The passes of the benchmark\<close>

text \<open>
  What the passes of \<open>micro.c\<close> compute and check. In the order in which a pass visits the elements, the writing
  pass leaves the running sums of the index array (\<open>chained\<close>); the checking pass accepts exactly these arrays.
  The read-write pass adds such sums to what the array held, and its check, which takes each pair of elements
  back and forward again, accepts exactly the arrays that were chained before.
\<close>

subsection \<open>Chains\<close>

text \<open>The first \<open>n\<close> visited elements are running sums.\<close>

definition chained :: "(nat \<Rightarrow> nat) \<Rightarrow> 32 word list \<Rightarrow> nat \<Rightarrow> 32 word list \<Rightarrow> bool" where
  "chained v r n a \<longleftrightarrow> (0 < n \<longrightarrow> a ! v 0 = r ! v 0) \<and> (\<forall>i. 0 < i \<and> i < n \<longrightarrow> a ! v (i - 1) + r ! v i = a ! v i)"

lemma chained_sums: "chained v r n a \<Longrightarrow> i < n \<Longrightarrow> a ! v i = (\<Sum>k\<le>i. r ! v k)"
proof (induction i)
  case (Suc i)
  then have "a ! v (Suc i) = a ! v i + r ! v (Suc i)" unfolding chained_def by (metis diff_Suc_1 zero_less_Suc)
  then show ?case using Suc by simp
qed (auto simp: chained_def)

lemma chained_Suc: "0 < n \<Longrightarrow> chained v r (Suc n) a \<longleftrightarrow> chained v r n a \<and> a ! v (n - 1) + r ! v n = a ! v n"
  by (auto simp: chained_def less_Suc_eq)

lemma chained_one: "chained v r (Suc 0) a \<longleftrightarrow> a ! v 0 = r ! v 0"
  by (auto simp: chained_def)

lemma chained_le: "chained v r n a \<Longrightarrow> k \<le> n \<Longrightarrow> chained v r k a"
  by (auto simp: chained_def)

text \<open>The first link that is missing.\<close>

lemma not_chained:
  assumes "\<not> chained v r n a" and "a ! v 0 = r ! v 0"
  shows "\<exists>k. 0 < k \<and> k < n \<and> chained v r k a \<and> a ! v (k - 1) + r ! v k \<noteq> a ! v k"
  using assms
proof (induction n)
  case (Suc n)
  show ?case
  proof (cases "chained v r n a")
    case True
    then have "0 < n" "a ! v (n - 1) + r ! v n \<noteq> a ! v n" using Suc.prems by (cases n; simp add: chained_one chained_Suc)+
    then show ?thesis using True by blast
  next
    case False
    then show ?thesis using Suc less_SucI by metis
  qed
qed (simp add: chained_def)

lemma chained_update:
  assumes "chained v r n a" and "\<And>k. k < n \<Longrightarrow> v k \<noteq> i"
  shows "chained v r n (a[i := x])"
proof -
  have "a[i := x] ! v k = a ! v k" if "k < n" for k using assms(2) [OF that] by (intro nth_list_update_neq) (rule not_sym)
  then show ?thesis using assms(1) by (auto simp: chained_def)
qed

subsection \<open>Writing\<close>

lemma write_turn_run:
  assumes h: "holds p q r s0 (chained (vis (opts s0) r) r i) s" and ix: "index_array r" and i: "0 < i" "i < length r"
  shows "\<exists>s'. write_turn p q i s = Inr ((), s') \<and> holds p q r s0 (chained (vis (opts s0) r) r (Suc i)) s'"
proof -
  let ?v = "vis (opts s0) r"
  obtain a where a: "chained ?v r i a" "length a = length r" "holds p q r s0 (\<lambda>b. b = a) s" by (rule holds_is [OF h])
  have l: "?v i < length r" "?v (i - 1) < length r" "i - 1 < length r" using ix i by (simp_all add: vis_less)
  let ?b = "a[?v i := a ! ?v (i - 1) + r ! ?v i]"
  have ne: "?v k \<noteq> ?v i" if "k < i" for k using that vis_inj [OF ix, of k i "opts s0"] i by simp
  have "chained ?v r (Suc i) ?b"
    using chained_update [OF a(1) ne] i(1) l a(2) ne [of "i - 1"] by (simp add: chained_Suc)
  then obtain s' where "st32 (at p (of_nat (?v i))) (a ! ?v (i - 1) + r ! ?v i) s = Inr ((), s')" "holds p q r s0 (chained ?v r (Suc i)) s'"
    using holds_st [OF a(3) l(1), of "chained ?v r (Suc i)" "a ! ?v (i - 1) + r ! ?v i"] by blast
  then show ?thesis using holds_visit [OF a(3) i(2)] holds_visit [OF a(3) l(3)] holds_ld [OF a(3)] l
    by (simp add: write_turn_def bnd_def)
qed

lemma write_pass_run:
  assumes "arrays (mem s) p q a r" and "index_array r" and "0 < unat n" and "unat n \<le> length r"
  shows "\<exists>s'. write_pass p q n s = Inr ((), s') \<and> holds p q r s (chained (vis (opts s) r) r (unat n)) s'"
proof -
  let ?v = "vis (opts s) r"
  have h: "holds p q r s (\<lambda>b. b = a) s" using assms(1) by (rule holds_init) simp
  have l: "0 < length r" using assms(3,4) by linarith
  note l = this vis_less [OF assms(2) this, of "opts s"]
  have "length a = length r" using assms(1) by (simp add: arrays_def)
  then have "chained ?v r 1 (a[?v 0 := r ! ?v 0])" using l by (simp add: chained_one)
  then obtain s1 where s1: "st32 (at p (of_nat (?v 0))) (r ! ?v 0) s = Inr ((), s1)" "holds p q r s (chained ?v r 1) s1"
    using holds_st [OF h l(2), of "chained ?v r 1" "r ! ?v 0"] by blast
  obtain s2 where "for_each [1..<unat n] (\<lambda>i _. write_turn p q i) () s1 = Inr ((), s2)" "holds p q r s (chained ?v r (unat n)) s2"
    using for_each_inv [of "\<lambda>i. holds p q r s (chained ?v r i)" 1 s1 "unat n" "\<lambda>i _. write_turn p q i"] s1(2) assms(2-4) write_turn_run by fastforce
  then show ?thesis using s1(1) holds_visit [OF h l(1)] holds_ld [OF h l(2)] by (simp add: write_pass_def bnd_def)
qed

subsection \<open>Checking\<close>

lemma check_turn_run:
  assumes "holds p q r s0 (\<lambda>b. b = a) s" and "index_array r" and "i < length r"
  shows "check_turn p q i s =
     (if a ! vis (opts s0) r (i - 1) + r ! vis (opts s0) r i = a ! vis (opts s0) r i then Inr ((), s) else Inl AssertFail)"
  using holds_visit [OF assms(1)] holds_ld [OF assms(1)] assms(2,3) by (simp add: check_turn_def bnd_def vis_less)

lemma check_pass_run:
  assumes a: "arrays (mem s) p q a r" and ix: "index_array r" and n: "0 < unat n" "unat n \<le> length r"
  shows "check_pass p q n s = (if chained (vis (opts s) r) r (unat n) a then Inr ((), s) else Inl AssertFail)"
proof -
  let ?v = "vis (opts s) r"
  have h: "holds p q r s (\<lambda>b. b = a) s" using a by (rule holds_init) simp
  have l: "0 < length r" using n by linarith
  note l = this vis_less [OF ix this, of "opts s"]
  have turn: "check_turn p q i s = (if a ! ?v (i - 1) + r ! ?v i = a ! ?v i then Inr ((), s) else Inl AssertFail)" if "i < unat n" for i
    using check_turn_run [OF h ix] that n(2) by simp
  have first: "check_pass p q n s = bnd (assertion (r ! ?v 0 = a ! ?v 0)) (\<lambda>_. for_each [1..<unat n] (\<lambda>i _. check_turn p q i) ()) s"
    using holds_visit [OF h l(1)] holds_ld [OF h l(2)] by (simp add: check_pass_def bnd_def)
  consider "a ! ?v 0 \<noteq> r ! ?v 0" | "chained ?v r (unat n) a" | "a ! ?v 0 = r ! ?v 0" "\<not> chained ?v r (unat n) a" by blast
  then show ?thesis
  proof cases
    case 1
    then show ?thesis using n(1) first by (auto simp: chained_def bnd_def)
  next
    case 2
    have "for_each [1..<unat n] (\<lambda>i _. check_turn p q i) () s = Inr ((), s)"
      using for_each_inv [of "\<lambda>_ t. t = s" 1 s "unat n" "\<lambda>i _. check_turn p q i"] n(1) turn 2 by (fastforce simp: chained_def)
    moreover have "a ! ?v 0 = r ! ?v 0" using 2 n(1) by (simp add: chained_def)
    ultimately show ?thesis using first 2 by (simp add: bnd_def)
  next
    case 3
    then obtain k where k: "0 < k" "k < unat n" "chained ?v r k a" "a ! ?v (k - 1) + r ! ?v k \<noteq> a ! ?v k" using not_chained by blast
    have "for_each [1..<unat n] (\<lambda>i _. check_turn p q i) () s = Inl AssertFail"
    proof (rule for_each_stops [where I = "\<lambda>_ t. t = s" and k = k])
      show "\<exists>s'. check_turn p q i t = Inr ((), s') \<and> s' = s" if "1 \<le> i" "i < k" "t = s" for i t
        using turn [of i] that k(2,3) by (auto simp: chained_def)
    qed (use k turn in auto)
    then show ?thesis using first 3 by (simp add: bnd_def)
  qed
qed

subsection \<open>Reading and writing\<close>

text \<open>What the pass has made of \<open>a0\<close> after \<open>n\<close> turns.\<close>

definition stepped :: "(nat \<Rightarrow> nat) \<Rightarrow> 32 word list \<Rightarrow> 32 word list \<Rightarrow> nat \<Rightarrow> 32 word list \<Rightarrow> bool" where
  "stepped v r a0 n a \<longleftrightarrow> (0 < n \<longrightarrow> a ! v 0 = a0 ! v 0 + r ! v 0) \<and>
     (\<forall>i. 0 < i \<and> i < n \<longrightarrow> a ! v i = a0 ! v i + (a ! v (i - 1) + r ! v i)) \<and> (\<forall>i. n \<le> i \<and> i < length r \<longrightarrow> a ! v i = a0 ! v i)"

definition in_memory :: "options \<Rightarrow> bool" where
  "in_memory d \<longleftrightarrow> \<not> (USE_LOAD d \<and> USE_LAZY d)"

lemma fetch_page_in_memory: "in_memory (opts s) \<Longrightarrow> libc_fetch_page x y z s = Inr ((), s)"
  by (auto simp: in_memory_def libc_fetch_page_def bnd_def)

lemma stepped_Suc:
  assumes "stepped v r a0 n a" and "0 < n" and "n < length r" and "length a = length r" and "\<And>i. i < length r \<Longrightarrow> v i < length r"
    and "\<And>i j. i < length r \<Longrightarrow> j < length r \<Longrightarrow> v i = v j \<longleftrightarrow> i = j"
  shows "stepped v r a0 (Suc n) (a[v n := a ! v n + (a ! v (n - 1) + r ! v n)])"
proof -
  let ?b = "a[v n := a ! v n + (a ! v (n - 1) + r ! v n)]"
  have o: "?b ! v i = a ! v i" if "i < length r" "i \<noteq> n" for i using that assms(3,6) by (intro nth_list_update_neq) simp
  have n: "?b ! v n = a0 ! v n + (a ! v (n - 1) + r ! v n)" using assms by (simp add: stepped_def)
  have "?b ! v i = a0 ! v i + (?b ! v (i - 1) + r ! v i)" if "0 < i" "i < Suc n" for i
  proof (cases "i = n")
    case True
    then show ?thesis using n o [of "n - 1"] assms(2,3) by simp
  next
    case False
    then show ?thesis using that o [of i] o [of "i - 1"] assms(1,3) by (simp add: stepped_def)
  qed
  moreover have "?b ! v i = a0 ! v i" if "Suc n \<le> i" "i < length r" for i using that o [of i] assms(1) by (simp add: stepped_def)
  moreover have "?b ! v 0 = a0 ! v 0 + r ! v 0"
  proof -
    have "0 < length r" "0 \<noteq> n" using assms(2,3) by linarith+
    then have "?b ! v 0 = a ! v 0" by (rule o)
    then show ?thesis using assms(1,2) by (simp add: stepped_def)
  qed
  ultimately show ?thesis unfolding stepped_def by blast
qed

lemma rw_turn_run:
  assumes h: "holds p q r s0 (stepped (vis (opts s0) r) r a0 i) s" and ix: "index_array r" and i: "0 < i" "i < length r"
    and d: "in_memory (opts s0)"
  shows "\<exists>s'. rw_turn p q i s = Inr ((), s') \<and> holds p q r s0 (stepped (vis (opts s0) r) r a0 (Suc i)) s'"
proof -
  let ?v = "vis (opts s0) r"
  obtain a where a: "stepped ?v r a0 i a" "length a = length r" "holds p q r s0 (\<lambda>b. b = a) s" by (rule holds_is [OF h])
  have l: "?v i < length r" "?v (i - 1) < length r" "i - 1 < length r" using ix i by (simp_all add: vis_less)
  have "stepped ?v r a0 (Suc i) (a[?v i := a ! ?v i + (a ! ?v (i - 1) + r ! ?v i)])"
    using stepped_Suc [OF a(1) i a(2)] vis_less [OF ix] vis_inj [OF ix] by blast
  then obtain s' where s': "step_up p q (of_nat (?v i)) (of_nat (?v (i - 1))) s = Inr ((), s')" "holds p q r s0 (stepped ?v r a0 (Suc i)) s'"
    using step_up_run [OF a(3) l(1,2), of "stepped ?v r a0 (Suc i)"] by blast
  obtain b where "opts s = opts s0" by (rule holdsE [OF h])
  then have "in_memory (opts s)" using d by simp
  then show ?thesis using s' holds_visit [OF a(3) i(2)] holds_visit [OF a(3) l(3)] by (simp add: rw_turn_def bnd_def fetch_page_in_memory)
qed

lemma rw_pass_run:
  assumes "arrays (mem s) p q a r" and ix: "index_array r" and n: "0 < unat n" "unat n \<le> length r" and d: "in_memory (opts s)"
    and f: "libc_fetch_bulk p 0 (NUM_MEM s0) s0 = Inr ((), s)"
  shows "\<exists>s'. rw_pass p q n s0 = Inr ((), s') \<and> holds p q r s (stepped (vis (opts s) r) r a (unat n)) s'"
proof -
  let ?v = "vis (opts s) r"
  have h: "holds p q r s (\<lambda>b. b = a) s" using assms(1) by (rule holds_init) simp
  have l: "0 < length r" using n by linarith
  note l = this vis_less [OF ix this, of "opts s"]
  have len: "length a = length r" using assms(1) by (simp add: arrays_def)
  have "a[?v 0 := a ! ?v 0 + r ! ?v 0] ! ?v i = a ! ?v i" if "Suc 0 \<le> i" "i < length r" for i
    using that l(1) vis_inj [OF ix l(1) that(2), of "opts s"] by (intro nth_list_update_neq) simp
  then have "stepped ?v r a 1 (a[?v 0 := a ! ?v 0 + r ! ?v 0])" using l len by (simp add: stepped_def)
  then obtain s1 where s1: "st32 (at p (of_nat (?v 0))) (a ! ?v 0 + r ! ?v 0) s = Inr ((), s1)" "holds p q r s (stepped ?v r a 1) s1"
    using holds_st [OF h l(2), of "stepped ?v r a 1" "a ! ?v 0 + r ! ?v 0"] by blast
  obtain s2 where "for_each [1..<unat n] (\<lambda>i _. rw_turn p q i) () s1 = Inr ((), s2)" "holds p q r s (stepped ?v r a (unat n)) s2"
    using for_each_inv [of "\<lambda>i. holds p q r s (stepped ?v r a i)" 1 s1 "unat n" "\<lambda>i _. rw_turn p q i"] s1(2) ix n d rw_turn_run by fastforce
  then show ?thesis using s1(1) holds_visit [OF h l(1)] holds_ld [OF h l(2)] f
    by (simp add: rw_pass_def bnd_def fetch_page_in_memory [OF d])
qed

text \<open>Two elements taken back, compared, and put forward again.\<close>

lemma back_and_forth:
  assumes "i \<noteq> j" and "j \<noteq> k" and "i \<noteq> k" and "i < length a" and "j < length a"
    and "a ! i = x + (a ! j + u)" and "a ! j = y + (a ! k + w)"
  shows "a[i := x, j := y] ! i = x" and "a[i := x, j := y] ! j = y" and "a[i := x, j := y] ! k = a ! k"
    and "a[i := x, j := y, j := y + (a ! k + w), i := x + (a ! j + u)] = a"
proof -
  have "a[i := x, j := y, j := y + (a ! k + w), i := x + (a ! j + u)] = a[i := x, j := a ! j, i := a ! i]" using assms(6,7) by simp
  also have "\<dots> = a[i := x, i := a ! i, j := a ! j]" using assms(1) by (simp add: list_update_swap)
  also have "\<dots> = a" by simp
  finally show "a[i := x, j := y, j := y + (a ! k + w), i := x + (a ! j + u)] = a" .
qed (use assms in simp_all)

lemma rw_check_turn_run:
  assumes h: "holds p q r s0 (\<lambda>b. b = a) s" and ix: "index_array r" and i: "2 \<le> i" "i < n" "n \<le> length r"
    and st: "stepped (vis (opts s0) r) r a0 n a"
  shows "if a0 ! vis (opts s0) r (i - 1) + r ! vis (opts s0) r i = a0 ! vis (opts s0) r i
    then \<exists>s'. rw_check_turn p q i s = Inr ((), s') \<and> holds p q r s0 (\<lambda>b. b = a) s'
    else rw_check_turn p q i s = Inl AssertFail"
proof -
  let ?v = "vis (opts s0) r"
  define x y z where xyz: "x = ?v i" "y = ?v (i - 1)" "z = ?v (i - 2)"
  have len: "length a = length r" using h by (auto simp: holds_def arrays_def)
  have l: "i < length r" "i - 1 < length r" "i - 2 < length r" using i by linarith+
  then have v: "x < length r" "y < length r" "z < length r" using ix by (simp_all add: xyz vis_less)
  have ne: "x \<noteq> y" "y \<noteq> z" "x \<noteq> z" using vis_inj [OF ix] l i(1) by (auto simp: xyz)
  have "i - 1 - 1 = i - 2" by simp
  moreover have "0 < i" "0 < i - 1" "i - 1 < n" using i by linarith+
  ultimately have e: "a ! x = a0 ! x + (a ! y + r ! x)" "a ! y = a0 ! y + (a ! z + r ! y)" using st i(2) unfolding stepped_def xyz by metis+
  note bf = back_and_forth [OF ne _ _ e, unfolded len, OF v(1,2)]
  obtain s1 where s1: "step_down p q (of_nat x) (of_nat y) s = Inr ((), s1)" "holds p q r s0 (\<lambda>b. b = a[x := a0 ! x]) s1"
    using step_down_run [OF h v(1,2), of "\<lambda>b. b = a[x := a0 ! x]"] e(1) by auto
  obtain s2 where s2: "step_down p q (of_nat y) (of_nat z) s1 = Inr ((), s2)" "holds p q r s0 (\<lambda>b. b = a[x := a0 ! x, y := a0 ! y]) s2"
    using step_down_run [OF s1(2) v(2,3), of "\<lambda>b. b = a[x := a0 ! x, y := a0 ! y]"] e(2) ne by auto
  note c = check_step_run [OF s2(2) v(1,2), unfolded bf]
  obtain s3 where s3: "step_up p q (of_nat y) (of_nat z) s2 = Inr ((), s3)"
      "holds p q r s0 (\<lambda>b. b = a[x := a0 ! x, y := a0 ! y, y := a0 ! y + (a ! z + r ! y)]) s3"
    using step_up_run [OF s2(2) v(2,3), of "\<lambda>b. b = a[x := a0 ! x, y := a0 ! y, y := a0 ! y + (a ! z + r ! y)]"] bf(2,3) by auto
  have "a[x := a0 ! x, y := a0 ! y, y := a0 ! y + (a ! z + r ! y)] ! x = a0 ! x" "a[x := a0 ! x, y := a0 ! y, y := a0 ! y + (a ! z + r ! y)] ! y = a ! y"
    using ne v e(2) len by simp_all
  then obtain s4 where s4: "step_up p q (of_nat x) (of_nat y) s3 = Inr ((), s4)" "holds p q r s0 (\<lambda>b. b = a) s4"
    using step_up_run [OF s3(2) v(1,2), of "\<lambda>b. b = a"] bf(4) by auto
  have vs: "visit q i s = Inr (of_nat x, s)" "visit q (i - Suc 0) s = Inr (of_nat y, s)" "visit q (i - 2) s = Inr (of_nat z, s)"
    using holds_visit [OF h l(1)] holds_visit [OF h l(2)] holds_visit [OF h l(3)] by (simp_all add: xyz)
  have "rw_check_turn p q i s = bnd (assertion (a0 ! y + r ! x = a0 ! x)) (\<lambda>_. bnd (step_up p q (of_nat y) (of_nat z)) (\<lambda>_. step_up p q (of_nat x) (of_nat y))) s2"
    using vs s1(1) s2(1) c by (simp add: rw_check_turn_def bnd_def)
  moreover have "?v (i - Suc 0) = y" by (simp add: xyz)
  ultimately show ?thesis using s3(1) s4 by (simp add: bnd_def xyz(1) [symmetric])
qed

text \<open>The first two elements.\<close>

lemma rw_check_start:
  assumes h: "holds p q r s0 (\<lambda>b. b = a) s" and ix: "index_array r" and n: "2 \<le> n" "n \<le> length r"
    and st: "stepped (vis (opts s0) r) r a0 n a"
  shows "\<exists>s'. holds p q r s0 (\<lambda>b. b = a) s' \<and> (\<forall>k. n = unat k \<longrightarrow> rw_check p q k s =
     (if chained (vis (opts s0) r) r 2 a0 then for_each [2..<n] (\<lambda>i _. rw_check_turn p q i) () s' else Inl AssertFail))"
proof -
  let ?v = "vis (opts s0) r"
  define x y where xy: "x = ?v 1" "y = ?v 0"
  have len: "length a = length r" using h by (auto simp: holds_def arrays_def)
  have l: "1 < length r" "0 < length r" using n by linarith+
  then have v: "x < length r" "y < length r" using ix by (simp_all add: xy vis_less)
  have ne: "x \<noteq> y" using vis_inj [OF ix l] by (auto simp: xy)
  have "0 < n" "0 < (1 :: nat)" "1 < n" "1 - 1 = (0 :: nat)" using n by linarith+
  then have e: "a ! x = a0 ! x + (a ! y + r ! x)" "a ! y = a0 ! y + r ! y" using st unfolding stepped_def xy by metis+
  have c2: "chained ?v r 2 a0 \<longleftrightarrow> r ! y = a0 ! y \<and> a0 ! y + r ! x = a0 ! x"
    using chained_Suc [of 1 ?v r a0] chained_one [of ?v r a0] by (auto simp: xy eval_nat_numeral)
  obtain s1 where s1: "step_down p q (of_nat x) (of_nat y) s = Inr ((), s1)" "holds p q r s0 (\<lambda>b. b = a[x := a0 ! x]) s1"
    using step_down_run [OF h v, of "\<lambda>b. b = a[x := a0 ! x]"] e(1) by auto
  obtain s2 where s2: "st32 (at p (of_nat y)) (a[x := a0 ! x] ! y - r ! y) s1 = Inr ((), s2)" "holds p q r s0 (\<lambda>b. b = a[x := a0 ! x, y := a0 ! y]) s2"
    using holds_st [OF s1(2) v(2), of "\<lambda>b. b = a[x := a0 ! x, y := a0 ! y]" "a[x := a0 ! x] ! y - r ! y"] e(2) ne by auto
  have b2: "a[x := a0 ! x, y := a0 ! y] ! x = a0 ! x" "a[x := a0 ! x, y := a0 ! y] ! y = a0 ! y" using ne v len by simp_all
  note c = check_step_run [OF s2(2) v, unfolded b2]
  have bk: "a[x := a0 ! x, y := a0 ! y, y := a ! y] = a[x := a0 ! x]" using ne by (simp add: list_update_swap [of x y])
  have y2: "a[x := a0 ! x, y := a0 ! y] ! y + r ! y = a ! y" unfolding b2 e(2) ..
  obtain s3 where s3: "st32 (at p (of_nat y)) (a[x := a0 ! x, y := a0 ! y] ! y + r ! y) s2 = Inr ((), s3)" "holds p q r s0 (\<lambda>b. b = a[x := a0 ! x]) s3"
    using holds_st [OF s2(2) v(2), of "\<lambda>b. b = a[x := a0 ! x]" "a[x := a0 ! x, y := a0 ! y] ! y + r ! y"] bk unfolding y2 by auto
  have "a[x := a0 ! x, x := a[x := a0 ! x] ! x + (a[x := a0 ! x] ! y + r ! x)] = a" using ne v len e(1) [symmetric] by simp
  then obtain s4 where s4: "step_up p q (of_nat x) (of_nat y) s3 = Inr ((), s4)" "holds p q r s0 (\<lambda>b. b = a) s4"
    using step_up_run [OF s3(2) v, of "\<lambda>b. b = a"] by auto
  have vs: "visit q 1 s = Inr (of_nat x, s)" "visit q 0 s = Inr (of_nat y, s)"
    using holds_visit [OF h l(1)] holds_visit [OF h l(2)] by (simp_all add: xy)
  have "rw_check p q k s = (if chained ?v r 2 a0 then for_each [2..<n] (\<lambda>i _. rw_check_turn p q i) () s4 else Inl AssertFail)" if "n = unat k" for k
    using vs s1(1) holds_ld [OF s1(2) v(2)] s2(1) holds_ld [OF s2(2) v(2)] s3(1) s4(1) c b2 that unfolding c2
    by (cases "r ! y = a0 ! y") (simp_all add: rw_check_def bnd_def del: One_nat_def)
  then show ?thesis using s4(2) by blast
qed

lemma rw_check_run:
  assumes h: "holds p q r s0 (\<lambda>b. b = a) s" and ix: "index_array r" and n: "2 \<le> unat n" "unat n \<le> length r"
    and st: "stepped (vis (opts s0) r) r a0 (unat n) a"
  shows "if chained (vis (opts s0) r) r (unat n) a0
    then \<exists>s'. rw_check p q n s = Inr ((), s') \<and> holds p q r s0 (\<lambda>b. b = a) s'
    else rw_check p q n s = Inl AssertFail"
proof -
  let ?v = "vis (opts s0) r" and ?h = "\<lambda>i :: nat. holds p q r s0 (\<lambda>b. b = a)" and ?b = "\<lambda>i _. rw_check_turn p q i"
  obtain s1 where s1: "?h 2 s1" "rw_check p q n s = (if chained ?v r 2 a0 then for_each [2..<unat n] ?b () s1 else Inl AssertFail)"
    using rw_check_start [OF h ix n st] by blast
  note turn = rw_check_turn_run [OF _ ix _ _ n(2) st]
  consider "chained ?v r (unat n) a0" | "\<not> chained ?v r 2 a0" | "chained ?v r 2 a0" "\<not> chained ?v r (unat n) a0" by blast
  then show ?thesis
  proof cases
    case 1
    then have "chained ?v r 2 a0" using n(1) by (rule chained_le)
    moreover have "\<exists>s'. for_each [2..<unat n] ?b () s1 = Inr ((), s') \<and> ?h (unat n) s'"
    proof (rule for_each_inv)
      show "\<exists>s'. rw_check_turn p q i t = Inr ((), s') \<and> ?h (Suc i) s'" if "2 \<le> i" "i < unat n" "?h i t" for i t
        using turn [OF that(3,1,2)] 1 that(1,2) by (simp add: chained_def)
    qed (use s1(1) n in auto)
    ultimately show ?thesis using s1(2) 1 by simp
  next
    case 2
    then show ?thesis using s1(2) chained_le [OF _ n(1)] by auto
  next
    case 3
    then have "a0 ! ?v 0 = r ! ?v 0" by (simp add: chained_def)
    then obtain k where k: "0 < k" "k < unat n" "chained ?v r k a0" "a0 ! ?v (k - 1) + r ! ?v k \<noteq> a0 ! ?v k" using not_chained 3(2) by blast
    have "k \<noteq> 1" using k(4) 3(1) by (auto simp: chained_def)
    then have k2: "2 \<le> k" using k(1) by linarith
    have "for_each [2..<unat n] ?b () s1 = Inl AssertFail"
    proof (rule for_each_stops [where I = ?h, OF s1(1) k2 k(2)])
      show "\<exists>s'. rw_check_turn p q i t = Inr ((), s') \<and> ?h (Suc i) s'" if "2 \<le> i" "i < k" "?h i t" for i t
      proof -
        have i: "i < unat n" using that(2) k(2) by linarith
        show ?thesis using turn [OF that(3,1) i] k(3) that(1,2) by (simp add: chained_def)
      qed
      show "rw_check_turn p q k t = Inl AssertFail" if "?h k t" for t using turn [OF that k2 k(2)] k(4) by simp
    qed
    then show ?thesis using s1(2) 3 by simp
  qed
qed

subsection \<open>The index array\<close>

text \<open>The invariant of the loops that change only the index array and the state of \<open>rand\<close>.\<close>

definition indexing :: "addr \<Rightarrow> addr \<Rightarrow> 32 word list \<Rightarrow> 'x ust_scheme \<Rightarrow> (32 word list \<Rightarrow> bool) \<Rightarrow> 'x ust_scheme \<Rightarrow> bool" where
  "indexing p q a s0 P s \<longleftrightarrow> (\<exists>r. arrays (mem s) p q a r \<and> P r) \<and> s = s0\<lparr>mem := mem s, rand_calls := rand_calls s\<rparr> \<and>
     same_out q (4 * length a) (mem s0) (mem s)"

lemma indexing_st:
  assumes "indexing p q a s0 (\<lambda>b. b = r) s" and "i < length r" and "Q (r[i := v])"
  shows "\<exists>s'. st32 (at q (of_nat i)) v s = Inr ((), s') \<and> indexing p q a s0 Q s'"
proof -
  have a: "arrays (mem s) p q a r" and s: "s = s0\<lparr>mem := mem s, rand_calls := rand_calls s\<rparr>" "same_out q (4 * length a) (mem s0) (mem s)"
    using assms(1) by (simp_all add: indexing_def)
  have len: "length a = length r" using a by (simp add: arrays_def)
  obtain s' where s': "st32 (at q (of_nat i)) v s = Inr ((), s')" "arrays (mem s') p q a (r[i := v])" "s' = s\<lparr>mem := mem s'\<rparr>"
      "same_out q (4 * length r) (mem s) (mem s')"
    using arrays_st_r [OF a assms(2), of v] by (elim exE conjE) (rule that)
  have c: "rand_calls s' = rand_calls s" by (subst s'(3)) simp
  have "s' = s0\<lparr>mem := mem s', rand_calls := rand_calls s'\<rparr>" by (subst s'(3), subst s(1)) (simp add: c)
  then have "indexing p q a s0 Q s'" unfolding indexing_def using s'(2) assms(3) same_out_trans [OF s(2)] s'(4) len by auto
  then show ?thesis using s'(1) by blast
qed

lemma indexing_is:
  assumes "indexing p q a s0 P s"
  obtains r where "P r" "length r = length a" "indexing p q a s0 (\<lambda>b. b = r) s" "arrays (mem s) p q a r"
  using assms that unfolding indexing_def arrays_def by metis

lemma fill_run:
  assumes "arrays (mem s) p q a r" and "unat n = length r"
  shows "\<exists>s'. fill_indices q n s = Inr ((), s') \<and> indexing p q a s (\<lambda>r'. r' = map of_nat [0..<unat n]) s'"
proof -
  have len: "length a = length r" using assms(1) by (simp add: arrays_def)
  let ?I = "\<lambda>i. indexing p q a s (\<lambda>r'. length r' = length r \<and> (\<forall>j<i. r' ! j = of_nat j))"
  have "\<exists>s'. for_each [0..<unat n] (\<lambda>i _. st32 (at q (of_nat i)) (of_nat i)) () s = Inr ((), s') \<and> ?I (unat n) s'"
  proof (rule for_each_inv)
    show "?I 0 s" using assms(1) by (auto simp: indexing_def)
    show "\<exists>s'. st32 (at q (of_nat i)) (of_nat i) t = Inr ((), s') \<and> ?I (Suc i) s'" if "i < unat n" "?I i t" for i t
    proof (rule indexing_is [OF that(2)])
      fix r' assume r': "length r' = length r \<and> (\<forall>j<i. r' ! j = of_nat j)" "indexing p q a s (\<lambda>b. b = r') t"
      then show ?thesis using that(1) assms(2) indexing_st [OF r'(2), of i _ "of_nat i"] by (simp add: less_Suc_eq)
    qed
  qed simp
  then obtain s' where s': "fill_indices q n s = Inr ((), s')" "?I (unat n) s'" unfolding fill_indices_def by blast
  from s'(2) obtain r' where r': "length r' = length r \<and> (\<forall>j<unat n. r' ! j = of_nat j)" "indexing p q a s (\<lambda>b. b = r') s'"
    by (rule indexing_is)
  have "r' = map of_nat [0..<unat n]" using r'(1) assms(2) by (intro nth_equalityI) simp_all
  then show ?thesis using s'(1) r'(2) by simp
qed

lemma rand_index:
  assumes "unat n = N" and "i < N - 1"
  shows "\<exists>j. i \<le> j \<and> j < N - 1 \<and> (x mod ((n - 1) - of_nat i) + of_nat i :: 64 word) = of_nat j"
proof -
  have N: "N < 2 ^ 64" using assms(1) unat_less_64 [of n] by simp
  have n: "n = of_nat N" unfolding assms(1) [symmetric] by simp
  define d where "d = (n - 1) - of_nat i"
  have "d = of_nat (N - 1 - i)" unfolding d_def n using assms(2) by (simp add: of_nat_diff)
  then have "unat d = N - 1 - i" using N by (simp add: unat_of_nat_len less_imp_diff_less)
  then have m: "unat (x mod d) < N - 1 - i" using assms(2) by (simp add: unat_mod)
  define k where "k = unat (x mod d)"
  have "x mod d + of_nat i = of_nat (k + i)" by (simp add: k_def)
  moreover have "i \<le> k + i \<and> k + i < N - 1" using m by (simp add: k_def [symmetric] less_diff_conv)
  ultimately show ?thesis unfolding d_def by blast
qed

lemma swap_step_run:
  assumes h: "indexing p q a s0 (\<lambda>b. b = r) s" and n: "unat n = length r" and i: "i < length r - 1"
  shows "\<exists>s' j. i \<le> j \<and> j < length r - 1 \<and> swap_step q n i s = Inr ((), s') \<and> indexing p q a s0 (\<lambda>b. b = r[j := r ! i, i := r ! j]) s'"
proof -
  let ?x = "of_nat (rands s (rand_calls s)) :: 64 word" and ?s = "s\<lparr>rand_calls := Suc (rand_calls s)\<rparr>"
  obtain j where j: "i \<le> j" "j < length r - 1" "?x mod ((n - 1) - of_nat i) + of_nat i = of_nat j" using rand_index [OF n i] by blast
  have l: "i < length r" "j < length r" using i j by linarith+
  have s: "s = s0\<lparr>mem := mem s, rand_calls := rand_calls s\<rparr>" using h by (simp add: indexing_def)
  have "?s = s0\<lparr>mem := mem ?s, rand_calls := rand_calls ?s\<rparr>" by (subst s) simp
  then have h0: "indexing p q a s0 (\<lambda>b. b = r) ?s" using h by (simp add: indexing_def)
  then have a: "arrays (mem ?s) p q a r" by (simp add: indexing_def)
  obtain s1 where s1: "st32 (at q (of_nat j)) (r ! i) ?s = Inr ((), s1)" "indexing p q a s0 (\<lambda>b. b = r[j := r ! i]) s1"
    using indexing_st [OF h0 l(2), of "\<lambda>b. b = r[j := r ! i]"] by auto
  obtain s2 where "st32 (at q (of_nat i)) (r ! j) s1 = Inr ((), s2)" "indexing p q a s0 (\<lambda>b. b = r[j := r ! i, i := r ! j]) s2"
    using indexing_st [OF s1(2), of i "\<lambda>b. b = r[j := r ! i, i := r ! j]" "r ! j"] l by auto
  then show ?thesis using j s1(1) arrays_ld_r [OF a l(1)] arrays_ld_r [OF a l(2)]
    by (intro exI [of _ s2] exI [of _ j]) (simp add: swap_step_def rand_def bnd_def Let_def)
qed

lemma shuffle_run:
  assumes h: "indexing p q a s0 (\<lambda>b. b = r) s" and n: "unat n = length r" and pos: "r \<noteq> []"
  shows "\<exists>s'. shuffle q n s = Inr ((), s') \<and>
     indexing p q a s0 (\<lambda>b. length b = length r \<and> distinct b = distinct r \<and> set b = set r \<and> b ! (length r - 1) = r ! (length r - 1)) s'"
proof -
  let ?P = "\<lambda>b. length b = length r \<and> distinct b = distinct r \<and> set b = set r \<and> b ! (length r - 1) = r ! (length r - 1)"
  have "n \<noteq> 0" using n pos by auto
  then have N: "unat (n - 1) = length r - 1" using n by (simp add: unat_minus_one)
  have "\<exists>s'. for_each [0..<unat (n - 1)] (\<lambda>i _. swap_step q n i) () s = Inr ((), s') \<and> indexing p q a s0 ?P s'"
  proof (rule for_each_inv [where I = "\<lambda>_. indexing p q a s0 ?P"])
    show "indexing p q a s0 ?P s" using h by (auto simp: indexing_def)
    show "\<exists>s'. swap_step q n i t = Inr ((), s') \<and> indexing p q a s0 ?P s'" if "i < unat (n - 1)" "indexing p q a s0 ?P t" for i t
    proof (rule indexing_is [OF that(2)])
      fix b assume b: "?P b" "indexing p q a s0 (\<lambda>c. c = b) t"
      have bn: "unat n = length b" "i < length b - 1" using b(1) n that(1) N by simp_all
      obtain s' j where s': "i \<le> j" "j < length b - 1" "swap_step q n i t = Inr ((), s')" "indexing p q a s0 (\<lambda>c. c = b[j := b ! i, i := b ! j]) s'"
        using swap_step_run [OF b(2) bn] by (elim exE conjE) (rule that)
      have "?P (b[j := b ! i, i := b ! j])" using b(1) bn(2) s'(1,2) by simp
      then have "indexing p q a s0 ?P s'" using s'(4) unfolding indexing_def by blast
      then show ?thesis using s'(3) by blast
    qed
  qed simp
  then show ?thesis by (simp add: shuffle_def)
qed

end
