(* ===== verification/Micro_Claims.thy ===== *)
theory Micro_Claims
  imports Micro_Correct
begin

section \<open>Properties of the benchmark's passes\<close>

text \<open>The passes of \<open>micro.c\<close> from any memory that holds the two arrays, and a small memory on which they run.\<close>

subsection \<open>A memory with two arrays\<close>

lemma apart_le:
  assumes "unat p + n \<le> unat q" and "unat q + m \<le> 2 ^ 64"
  shows "apart p n q m"
  unfolding apart_def
proof (intro allI impI notI)
  fix i j assume ij: "i < n" "j < m" and e: "p + of_nat i = q + of_nat j"
  have "unat (p + of_nat i) = unat p + i" if "unat p + i < 2 ^ 64" for p :: addr and i
  proof -
    have "unat (of_nat i :: addr) = i" using that by (simp add: unat_of_nat)
    then show ?thesis using that by (simp add: unat_plus_if_size word_size)
  qed
  from this [of p i] this [of q j] have "unat p + i = unat q + j" using e ij assms by simp
  then show False using ij(1) assms(1) by linarith
qed

lemma arr_put: "4 * length xs < 2 ^ 64 \<Longrightarrow> arr (put_bytes p (bytes xs) m) p xs"
  using bytes_put_bytes [of "bytes xs" p m] by (simp add: arr_def)

definition two_arrays :: "addr \<Rightarrow> addr \<Rightarrow> 32 word list \<Rightarrow> 32 word list \<Rightarrow> addr \<rightharpoonup> 8 word" where
  "two_arrays p q a r = put_bytes p (bytes a) (put_bytes q (bytes r) Map.empty)"

lemma two_arrays:
  assumes "length a = length r" and "unat p + 4 * length r \<le> unat q" and "unat q + 4 * length r < 2 ^ 64"
  shows "arrays (two_arrays p q a r) p q a r"
proof -
  have ap: "apart p (4 * length r) q (4 * length r)" using assms by (intro apart_le) simp_all
  have L: "4 * length r < 2 ^ 64" using assms(3) by linarith
  have "arr (two_arrays p q a r) q r" unfolding two_arrays_def by (rule arr_apart [OF arr_put [OF L]]) (use apart_swap [OF ap] assms(1) in simp)
  then show ?thesis using arr_put [of a p "put_bytes q (bytes r) Map.empty"] L assms(1) ap by (simp add: arrays_def two_arrays_def)
qed

definition bench :: "bool \<Rightarrow> 32 word list \<Rightarrow> 32 word list \<Rightarrow> ust" where
  "bench random a r = \<lparr>opts = \<lparr>USE_LIBC = True, USE_SBMA = False, USE_LOAD = False, USE_LAZY = False, USE_GHOST = False, USE_CTX = False,
       USE_RAND = random, USE_RD = False, USE_WR = False, USE_RW = True\<rparr>,
     sys_page = 4096, mem = two_arrays 0x1000 0x2000 a r, bprots = Map.empty,
     files = Map.empty, descs = Map.empty, calls = 0, os_map = (\<lambda>_ _. MAP_FAILED), os_fd = (\<lambda>_. Some 3),
     os_count = (\<lambda>_ n. int n), os_val = (\<lambda>_. 0), tmp_file = ''t'', io_num_mem = 0,
     l_num_mem = 16, l_siz_pag = 4096, l_base = 0x1000,
     SIZ_PAG = 4096, NUM_MEM = 16, NUM_SYS = 1, NUM_PAG = 0, TMPFILE = ''t'', rands = (\<lambda>k. 7 * k + 1), rand_calls = 0\<rparr>"

lemma bench_arrays: "length a = length r \<Longrightarrow> length r \<le> 4 \<Longrightarrow> arrays (mem (bench b a r)) 0x1000 0x2000 a r"
  using two_arrays [of a r "0x1000" "0x2000"] by (simp add: bench_def)

lemma bench_index: "index_array [2, 0, 1, 3]"
  by (simp add: index_array_def)

subsection \<open>The index array\<close>




subsection \<open>The passes\<close>

text \<open>C32: the writing pass returns, leaves in each visited element the sum of the index values visited up to it, and changes
  nothing outside of the array; the check that follows accepts it and changes nothing.\<close>

theorem write_pass_sums:
  assumes "arrays (mem s) p q a r" and "index_array r" and "unat n = length r" and "r \<noteq> []"
  shows "\<exists>s' b. write_pass p q n s = Inr ((), s') \<and> check_pass p q n s' = Inr ((), s') \<and> arrays (mem s') p q b r \<and>
     (\<forall>i < length r. b ! vis (opts s) r i = (\<Sum>k\<le>i. r ! vis (opts s) r k)) \<and> same_out p (4 * length r) (mem s) (mem s')"
proof -
  have n: "0 < unat n" "unat n \<le> length r" using assms(3,4) by simp_all
  obtain s1 where s1: "write_pass p q n s = Inr ((), s1)" "holds p q r s (chained (vis (opts s) r) r (unat n)) s1"
    using write_pass_run [OF assms(1,2) n] by blast
  from s1(2) obtain b where b: "arrays (mem s1) p q b r" "chained (vis (opts s) r) r (unat n) b" "opts s1 = opts s" by (rule holdsE)
  have "check_pass p q n s1 = Inr ((), s1)" using check_pass_run [OF b(1) assms(2) n] b(2,3) by simp
  moreover have "same_out p (4 * length r) (mem s) (mem s1)" using s1(2) by (simp add: holds_def)
  moreover have "\<forall>i < length r. b ! vis (opts s) r i = (\<Sum>k\<le>i. r ! vis (opts s) r k)" using chained_sums [OF b(2)] assms(3) by simp
  ultimately show ?thesis using s1(1) b(1) by blast
qed

theorem write_pass_sums_witness:
  "\<exists>s' b. write_pass 0x1000 0x2000 4 (bench True [9, 9, 9, 9] [2, 0, 1, 3]) = Inr ((), s') \<and>
     arrays (mem s') 0x1000 0x2000 b [2, 0, 1, 3] \<and> b ! 2 = 1 \<and> b ! 0 = 3"
proof -
  obtain s' b where "write_pass 0x1000 0x2000 4 (bench True [9, 9, 9, 9] [2, 0, 1, 3]) = Inr ((), s')"
      "arrays (mem s') 0x1000 0x2000 b [2, 0, 1, 3]"
      and f: "\<forall>i < length [2, 0, 1, 3 :: 32 word]. b ! vis (opts (bench True [9, 9, 9, 9] [2, 0, 1, 3])) [2, 0, 1, 3] i =
        (\<Sum>k\<le>i. [2, 0, 1, 3] ! vis (opts (bench True [9, 9, 9, 9] [2, 0, 1, 3])) [2, 0, 1, 3] k)"
    using write_pass_sums [OF bench_arrays [of "[9, 9, 9, 9]" "[2, 0, 1, 3]" True] bench_index, of 4] by force
  moreover have "b ! 2 = 1" using f [rule_format, of 0] by (simp add: bench_def vis_def)
  moreover have "b ! 0 = 3" using f [rule_format, of 1] by (simp add: bench_def vis_def)
  ultimately show ?thesis by blast
qed

text \<open>C31: without \<open>USE_LOAD\<close>, the read-write pass and its check, which undoes and redoes the pass two elements at a time,
  return when the array was a chain of sums before the pass, and then leave the array as the pass made it; otherwise an assertion
  of the check fails.\<close>

theorem rw_check_accepts_chains:
  assumes "arrays (mem s) p q a r" and "index_array r" and "unat n = length r" and "2 \<le> length r" and "\<not> USE_LOAD (opts s)"
  shows "if chained (vis (opts s) r) r (length r) a
    then \<exists>s' s'' b. rw_pass p q n s = Inr ((), s') \<and> rw_check p q n s' = Inr ((), s'') \<and> arrays (mem s') p q b r \<and> arrays (mem s'') p q b r \<and>
       stepped (vis (opts s) r) r a (length r) b \<and> same_out p (4 * length r) (mem s) (mem s'')
    else bnd (rw_pass p q n) (\<lambda>_. rw_check p q n) s = Inl AssertFail"
proof -
  let ?v = "vis (opts s) r"
  have n: "0 < unat n" "2 \<le> unat n" "unat n \<le> length r" using assms(3,4) by linarith+
  have d: "in_memory (opts s)" using assms(5) by (simp add: in_memory_def)
  have f: "libc_fetch_bulk p 0 (NUM_MEM s) s = Inr ((), s)" using assms(5) by (simp add: libc_fetch_bulk_def bnd_def)
  obtain s1 where s1: "rw_pass p q n s = Inr ((), s1)" "holds p q r s (stepped ?v r a (unat n)) s1"
    using rw_pass_run [OF assms(1,2) n(1,3) d f] by blast
  from s1(2) obtain b where b: "stepped ?v r a (unat n) b" "holds p q r s (\<lambda>c. c = b) s1" by (rule holds_is)
  note c = rw_check_run [OF b(2) assms(2) n(2,3) b(1)]
  show ?thesis
  proof (cases "chained ?v r (length r) a")
    case True
    then obtain s2 where "rw_check p q n s1 = Inr ((), s2)" "holds p q r s (\<lambda>c. c = b) s2" using c assms(3) by auto
    then show ?thesis using True s1(1) b assms(3) by (auto simp: holds_def)
  next
    case False
    then show ?thesis using c s1(1) assms(3) by (simp add: bnd_def)
  qed
qed

lemma bench_vis: "vis (opts (bench True a r)) r = (\<lambda>i. unat (r ! i))"
  by (rule ext) (simp add: vis_def bench_def)

lemma bench_opts [simp]: "\<not> USE_LOAD (opts (bench b a r))"
  by (simp add: bench_def)

lemma bench_chain:
  "chained (\<lambda>i. unat ([2, 0, 1, 3 :: 32 word] ! i)) [2, 0, 1, 3] (length [2, 0, 1, 3 :: 32 word]) a \<longleftrightarrow>
     a ! 2 = 1 \<and> a ! 2 + 2 = a ! 0 \<and> a ! 0 = a ! 1 \<and> a ! 1 + 3 = a ! 3"
proof -
  have "0 < i \<and> i < length [2, 0, 1, 3 :: 32 word] \<longleftrightarrow> i = 1 \<or> i = 2 \<or> i = 3" for i :: nat by (simp, arith)
  then show ?thesis unfolding chained_def by auto
qed

theorem rw_check_accepts_chains_witness:
  "(\<exists>s'. bnd (rw_pass 0x1000 0x2000 4) (\<lambda>_. rw_check 0x1000 0x2000 4) (bench True [3, 3, 1, 6] [2, 0, 1, 3]) = Inr ((), s')) \<and>
   bnd (rw_pass 0x1000 0x2000 4) (\<lambda>_. rw_check 0x1000 0x2000 4) (bench True [3, 6, 1, 6] [2, 0, 1, 3]) = Inl AssertFail"
proof -
  note c = rw_check_accepts_chains [OF bench_arrays [where b = True] bench_index, where n = 4, unfolded bench_vis bench_chain]
  have "\<exists>s' s''. rw_pass 0x1000 0x2000 4 (bench True [3, 3, 1, 6] [2, 0, 1, 3]) = Inr ((), s') \<and> rw_check 0x1000 0x2000 4 s' = Inr ((), s'')"
    using c [of "[3, 3, 1, 6]"] by auto
  moreover have "bnd (rw_pass 0x1000 0x2000 4) (\<lambda>_. rw_check 0x1000 0x2000 4) (bench True [3, 6, 1, 6] [2, 0, 1, 3]) = Inl AssertFail"
    using c [of "[3, 6, 1, 6]"] by simp
  ultimately show ?thesis by (auto simp: bnd_def)
qed

end
