(* ===== verification/Micro_Run.thy ===== *)
theory Micro_Run
  imports Micro_Claims
begin

section \<open>The benchmark's resources\<close>

text \<open>
  What the statements between the passes of \<open>micro.c\<close> do to the two arrays: \<open>at_work\<close> says that the arrays are in
  memory, that nothing else is, and which files there are. Clearing the array, flushing the caches, writing the
  file and loading it are lemmas over this invariant.
\<close>

subsection \<open>Memory that a call leaves alone\<close>

lemma apart_out: "apart p n q m \<Longrightarrow> unat (x - q) < m \<Longrightarrow> n \<le> unat (x - p)"
proof (rule ccontr)
  assume a: "apart p n q m" "unat (x - q) < m" "\<not> n \<le> unat (x - p)"
  have "p + of_nat (unat (x - p)) = q + of_nat (unat (x - q))" by simp
  then show False using a unfolding apart_def by (meson not_le)
qed

lemma arr_cong:
  assumes "arr m p xs" and "\<And>x. unat (x - p) < 4 * length xs \<Longrightarrow> m' x = m x"
  shows "arr m' p xs"
proof -
  have "m' (p + of_nat k) = m (p + of_nat k)" if "k < 4 * length xs" for k
  proof (rule assms(2))
    have "k < 2 ^ 64" using that assms(1) by (simp add: arr_iff)
    then show "unat (p + of_nat k - p) < 4 * length xs" using that by (simp add: unat_of_nat)
  qed
  then show ?thesis using assms(1) by (simp add: arr_iff)
qed

lemma arrays_cong:
  assumes "arrays m p q a r" and "\<And>x. unat (x - p) < 4 * length r \<or> unat (x - q) < 4 * length r \<Longrightarrow> m' x = m x"
  shows "arrays m' p q a r"
  using assms arr_cong [of m p a m'] arr_cong [of m q r m'] by (simp add: arrays_def)

lemma arr_fill:
  assumes "4 * n < 2 ^ 64"
  shows "arr (\<lambda>x. if unat (x - p) < 4 * n then Some 0 else m x) p (replicate n 0)"
proof -
  have b: "bytes (replicate n 0) = replicate (4 * n) 0"
    by (induction n) (simp_all add: bytes32_def eval_nat_numeral)
  have "unat (of_nat k :: addr) = k" if "k < 4 * n" for k using that assms by (simp add: unat_of_nat)
  then show ?thesis unfolding arr_iff b using assms by simp
qed

lemma arr_mapped: "arr m p xs \<Longrightarrow> buffer m p (4 * length xs)"
  by (auto simp: arr_iff buffer_def)

lemma memset_run:
  assumes "buffer (mem s) p (unat n)"
  shows "b_memset p v n s = Inr ((), s\<lparr>mem := (\<lambda>a. if unat (a - p) < unat n then Some v else mem s a)\<rparr>)"
proof -
  have "find (\<lambda>i. mem s (p + of_nat i) = None) [0..<unat n] = None"
    using assms by (auto simp: find_None_iff buffer_def)
  then show ?thesis by (simp add: b_memset_def within_def word_less_nat_alt)
qed

lemma clear_arrays:
  assumes "arrays m p q a r"
  shows "arrays (\<lambda>x. if unat (x - p) < 4 * length r then Some 0 else m x) p q (replicate (length r) 0) r"
proof -
  have h: "arr m q r" "apart p (4 * length r) q (4 * length r)" "4 * length r < 2 ^ 64" using assms by (simp_all add: arrays_def arr_iff)
  have "arr (\<lambda>x. if unat (x - p) < 4 * length r then Some 0 else m x) q r"
    using apart_out [OF h(2)] by (intro arr_cong [OF h(1)]) (simp add: leD)
  then show ?thesis using arr_fill [OF h(3), of p m] h(2) by (simp add: arrays_def)
qed

subsection \<open>The scratch memory of cacheflush\<close>

lemma fill_scratch:
  assumes "buffer (mem s) c n" and "n < 2 ^ 64"
  shows "\<exists>s'. for_each [0..<n] (\<lambda>i _. st8 (c + of_nat i) (of_nat i)) () s = Inr ((), s') \<and> s' = s\<lparr>mem := mem s'\<rparr> \<and>
     (\<forall>j < n. mem s' (c + of_nat j) = Some (of_nat j)) \<and> (\<forall>x. n \<le> unat (x - c) \<longrightarrow> mem s' x = mem s x)"
proof -
  let ?I = "\<lambda>i t. t = s\<lparr>mem := mem t\<rparr> \<and> (\<forall>j < i. mem t (c + of_nat j) = Some (of_nat j)) \<and> (\<forall>x. n \<le> unat (x - c) \<longrightarrow> mem t x = mem s x) \<and>
     dom (mem s) \<subseteq> dom (mem t)"
  have u: "unat (of_nat k :: addr) = k" if "k < n" for k using that assms(2) by (simp add: unat_of_nat)
  have "\<exists>s'. for_each [0..<n] (\<lambda>i _. st8 (c + of_nat i) (of_nat i)) () s = Inr ((), s') \<and> ?I n s'"
  proof (rule for_each_inv [where I = ?I])
    show "\<exists>s'. st8 (c + of_nat i) (of_nat i) t = Inr ((), s') \<and> ?I (Suc i) s'" if i: "i < n" and t: "?I i t" for i t
    proof -
      let ?t = "t\<lparr>mem := (mem t)(c + of_nat i \<mapsto> of_nat i)\<rparr>"
      have "c + of_nat i \<in> dom (mem t)" using assms(1) i t unfolding buffer_def by blast
      then have "mem t (c + of_nat i) \<noteq> None" by (simp add: domIff)
      then have "st8 (c + of_nat i) (of_nat i) t = Inr ((), ?t)" by (simp add: st8_def)
      moreover have "?t = s\<lparr>mem := mem ?t\<rparr>" by (subst conjunct1 [OF t]) simp
      moreover have "mem ?t (c + of_nat j) = Some (of_nat j)" if "j < Suc i" for j
      proof (cases "j = i")
        case False
        then have "(of_nat j :: addr) \<noteq> of_nat i" using u [of i] u [of j] that i by auto
        then show ?thesis using that False t by simp
      qed simp
      moreover have "mem ?t x = mem s x" if "n \<le> unat (x - c)" for x
      proof -
        have "x \<noteq> c + of_nat i" using that u [OF i] i by auto
        then show ?thesis using t that by simp
      qed
      moreover have "dom (mem s) \<subseteq> dom (mem ?t)" using t by (simp add: subset_insertI2)
      ultimately show ?thesis by blast
    qed
  qed simp_all
  then show ?thesis by blast
qed

lemma check_scratch:
  assumes "\<forall>j < n. mem s (c + of_nat j) = Some (of_nat j)"
  shows "for_each [0..<n] (\<lambda>i _. bnd (ld8 (c + of_nat i)) (\<lambda>v. assertion (of_nat i = v))) () s = Inr ((), s)"
proof -
  have "\<exists>s'. for_each [0..<n] (\<lambda>i _. bnd (ld8 (c + of_nat i)) (\<lambda>v. assertion (of_nat i = v))) () s = Inr ((), s') \<and> s' = s"
    by (rule for_each_inv [where I = "\<lambda>_ t. t = s"]) (use assms in \<open>auto simp: bnd_def ld8_def\<close>)
  then show ?thesis by simp
qed

text \<open>The loops of \<open>cacheflush\<close> on a fresh mapping, and the call that gives the mapping back.\<close>

lemma scratch_loops:
  assumes "buffer (mem s) c (unat w)" and "n = unat w" and "\<forall>k. os_val s k = 0"
  shows "\<exists>s'. bnd (for_each [0..<n] (\<lambda>i _. st8 (c + of_nat i) (of_nat i)) ()) (\<lambda>_.
       bnd (for_each [0..<n] (\<lambda>i _. bnd (ld8 (c + of_nat i)) (\<lambda>v. assertion (of_nat i = v))) ()) (\<lambda>_.
       bnd (b_munmap c w) (\<lambda>_. ret ()))) s = Inr ((), s') \<and>
     s' = s\<lparr>mem := mem s', bprots := bprots s', calls := Suc (calls s)\<rparr> \<and>
     (\<forall>x. mem s' x = (if unat (x - c) < n then None else mem s x))"
proof -
  have b: "buffer (mem s) c n" "n < 2 ^ 64" using assms(1,2) unat_less_64 [of w] by simp_all
  obtain s1 where f: "for_each [0..<n] (\<lambda>i _. st8 (c + of_nat i) (of_nat i)) () s = Inr ((), s1)" and s1: "s1 = s\<lparr>mem := mem s1\<rparr>"
      and m: "\<forall>j < n. mem s1 (c + of_nat j) = Some (of_nat j)" "\<forall>x. n \<le> unat (x - c) \<longrightarrow> mem s1 x = mem s x"
    using fill_scratch [OF b] by (elim exE conjE) (rule that)
  have v: "os_val s1 k = 0" "calls s1 = calls s" for k using assms(3) by (subst s1, simp)+
  define s2 where "s2 = s1\<lparr>calls := Suc (calls s1), mem := (\<lambda>a. if within c w a then None else mem s1 a),
      bprots := (\<lambda>a. if a \<in> set (pages (sys_page s1) c w) then None else bprots s1 a)\<rparr>"
  have u: "b_munmap c w s1 = Inr (0, s2)" using v by (simp add: b_munmap_def tick_def bnd_def s2_def cong: if_cong)
  have "s2 = s\<lparr>mem := mem s2, bprots := bprots s2, calls := Suc (calls s)\<rparr>" unfolding s2_def v(2) by (subst (1) s1) simp
  moreover have "mem s2 x = (if unat (x - c) < n then None else mem s x)" for x
    using m(2) assms(2) by (simp add: s2_def within_def word_less_nat_alt)
  moreover have "bnd (for_each [0..<n] (\<lambda>i _. st8 (c + of_nat i) (of_nat i)) ()) (\<lambda>_.
       bnd (for_each [0..<n] (\<lambda>i _. bnd (ld8 (c + of_nat i)) (\<lambda>v. assertion (of_nat i = v))) ()) (\<lambda>_.
       bnd (b_munmap c w) (\<lambda>_. ret ()))) s = Inr ((), s2)"
    using f check_scratch [OF m(1)] u by (simp add: bnd_def)
  ultimately show ?thesis by blast
qed

lemma cacheflush_run:
  assumes v: "\<forall>k. os_val s k = 0"
  shows "\<exists>s'. cacheflush s = Inr ((), s') \<and> s' = s\<lparr>mem := mem s', bprots := bprots s', calls := calls s'\<rparr> \<and> calls s \<le> calls s' \<and>
     (let c = os_map s (calls s) 0x10000000 in
      \<forall>x. mem s' x = (if c \<noteq> MAP_FAILED \<and> unat (x - c) < unat (0x10000000 :: 64 word) then None else mem s x))"
proof -
  define w :: "64 word" where "w = 0x10000000"
  define n :: nat where "n = 0x10000000"
  define c where "c = os_map s (calls s) w"
  have nw: "n = unat w" by (simp add: n_def w_def)
  note cf = cacheflush_def [folded w_def n_def]
  have goal: "\<exists>s'. cacheflush s = Inr ((), s') \<and> s' = s\<lparr>mem := mem s', bprots := bprots s', calls := calls s'\<rparr> \<and> calls s \<le> calls s' \<and>
     (\<forall>x. mem s' x = (if c \<noteq> MAP_FAILED \<and> unat (x - c) < unat w then None else mem s x))"
  proof (cases "c = MAP_FAILED")
    case True
    then show ?thesis unfolding cf
      by (intro exI [of _ "s\<lparr>calls := Suc (calls s)\<rparr>"]) (simp add: bnd_def b_mmap_def tick_def c_def)
  next
    case False
    define s1 where "s1 = s\<lparr>calls := Suc (calls s), mem := (\<lambda>a. if within c w a then Some 0 else mem s a),
        bprots := (\<lambda>a. if a \<in> set (pages (sys_page s) c w) then Some (PROT_READ OR PROT_WRITE) else bprots s a)\<rparr>"
    have mm: "b_mmap w (PROT_READ OR PROT_WRITE) s = Inr (c, s1)"
      using False by (simp add: b_mmap_def tick_def bnd_def c_def [symmetric] s1_def cong: if_cong)
    have b1: "buffer (mem s1) c (unat w)" by (simp add: s1_def buffer_mmap)
    have v1: "\<forall>k. os_val s1 k = 0" using v by (simp add: s1_def)
    obtain s2 where s2: "bnd (for_each [0..<n] (\<lambda>i _. st8 (c + of_nat i) (of_nat i)) ()) (\<lambda>_.
       bnd (for_each [0..<n] (\<lambda>i _. bnd (ld8 (c + of_nat i)) (\<lambda>v. assertion (of_nat i = v))) ()) (\<lambda>_.
       bnd (b_munmap c w) (\<lambda>_. ret ()))) s1 = Inr ((), s2)"
      "s2 = s1\<lparr>mem := mem s2, bprots := bprots s2, calls := Suc (calls s1)\<rparr>" "\<forall>x. mem s2 x = (if unat (x - c) < n then None else mem s1 x)"
      using scratch_loops [OF b1 nw v1] by (elim exE conjE) (rule that)
    have e: "cacheflush s = Inr ((), s2)" unfolding cf bnd_Inr [where m = "b_mmap w (PROT_READ OR PROT_WRITE)" and s = s, OF mm]
      using s2(1) False by simp
    have c2: "calls s2 = Suc (Suc (calls s))" by (subst s2(2)) (simp add: s1_def)
    have "s2 = s\<lparr>mem := mem s2, bprots := bprots s2, calls := calls s2\<rparr>" unfolding c2 by (subst s2(2)) (simp add: s1_def)
    then show ?thesis using e c2 s2(3) False nw by (intro exI [of _ s2]) (simp add: s1_def within_def word_less_nat_alt)
  qed
  then show ?thesis by (simp only: c_def w_def Let_def)
qed

subsection \<open>The invariant of the program\<close>

text \<open>The settings that the program does not change once it has mapped its arrays.\<close>

definition same_settings :: "'x ust_scheme \<Rightarrow> 'x ust_scheme \<Rightarrow> bool" where
  "same_settings s0 s \<longleftrightarrow> opts s = opts s0 \<and> sys_page s = sys_page s0 \<and> os_map s = os_map s0 \<and> os_fd s = os_fd s0 \<and>
     os_count s = os_count s0 \<and> os_val s = os_val s0 \<and> ist.more s = ist.more s0"

lemma more_settings:
  "ist.more s = ist.more s0 \<Longrightarrow> l_num_mem s = l_num_mem s0 \<and> l_siz_pag s = l_siz_pag s0 \<and> l_base s = l_base s0 \<and>
     SIZ_PAG s = SIZ_PAG s0 \<and> NUM_MEM s = NUM_MEM s0 \<and> NUM_SYS s = NUM_SYS s0 \<and> TMPFILE s = TMPFILE s0"
  by (cases s, cases s0) simp

lemma settings:
  assumes "same_settings s0 s"
  shows "opts s = opts s0" and "l_num_mem s = l_num_mem s0" and "l_base s = l_base s0" and "SIZ_PAG s = SIZ_PAG s0"
    and "NUM_MEM s = NUM_MEM s0" and "TMPFILE s = TMPFILE s0" and "os_val s = os_val s0" and "os_map s = os_map s0"
    and "plain s \<longleftrightarrow> plain s0"
  using assms more_settings [of s s0] by (simp_all add: same_settings_def plain_def moves_def)

definition at_work :: "addr \<Rightarrow> addr \<Rightarrow> 32 word list \<Rightarrow> 'x ust_scheme \<Rightarrow> string \<Rightarrow> (string \<rightharpoonup> 8 word list) \<Rightarrow> (32 word list \<Rightarrow> bool) \<Rightarrow>
    'x ust_scheme \<Rightarrow> bool" where
  "at_work p q r s0 t f P s \<longleftrightarrow> (\<exists>a. arrays (mem s) p q a r \<and> P a) \<and>
     (\<forall>x. 4 * length r \<le> unat (x - p) \<and> 4 * length r \<le> unat (x - q) \<longrightarrow> mem s x = None) \<and>
     same_settings s0 s \<and> tmp_file s = t \<and> files s = f \<and> calls s0 \<le> calls s"

lemma at_workE:
  assumes "at_work p q r s0 t f P s"
  obtains a where "arrays (mem s) p q a r" "P a" "same_settings s0 s" "tmp_file s = t" "files s = f" "length a = length r"
  using assms that unfolding at_work_def arrays_def by blast

lemma at_work_mono: "at_work p q r s0 t f P s \<Longrightarrow> (\<And>a. P a \<Longrightarrow> Q a) \<Longrightarrow> at_work p q r s0 t f Q s"
  unfolding at_work_def by blast

text \<open>A pass, which changes the array only.\<close>

lemma at_work_pass:
  assumes "at_work p q r s0 t f P s" and "holds p q r s Q s'"
  shows "at_work p q r s0 t f Q s'"
proof -
  have e: "s' = s\<lparr>mem := mem s'\<rparr>" and o: "same_out p (4 * length r) (mem s) (mem s')" and Q: "\<exists>a. arrays (mem s') p q a r \<and> Q a"
    using assms(2) by (simp_all add: holds_def)
  have "same_settings s s'" "tmp_file s' = tmp_file s" "files s' = files s" "calls s' = calls s"
    by (subst e, simp add: same_settings_def)+
  then show ?thesis using assms(1) Q o by (simp add: at_work_def same_settings_def same_out_def)
qed

text \<open>A call that changes memory in a given way, besides page protection, descriptors and the number of calls.\<close>

lemma at_work_mem:
  assumes "at_work p q r s0 t f P s" and "same_settings s s'" and "tmp_file s' = t'" and "files s' = f'" and "calls s \<le> calls s'"
    and "\<And>a. arrays (mem s) p q a r \<Longrightarrow> P a \<Longrightarrow> \<exists>b. arrays (mem s') p q b r \<and> Q b"
    and "\<And>x. 4 * length r \<le> unat (x - p) \<Longrightarrow> 4 * length r \<le> unat (x - q) \<Longrightarrow> mem s x = None \<Longrightarrow> mem s' x = None"
  shows "at_work p q r s0 t' f' Q s'"
proof -
  have "\<exists>b. arrays (mem s') p q b r \<and> Q b" using assms(1,6) unfolding at_work_def by blast
  moreover have "calls s0 \<le> calls s'" using assms(1,5) by (simp add: at_work_def)
  ultimately show ?thesis using assms(1-4,7) by (simp add: at_work_def same_settings_def)
qed

subsection \<open>The statements between the passes\<close>

text \<open>Where the operating system puts the scratch memory.\<close>

definition scratch_ok :: "addr \<Rightarrow> addr \<Rightarrow> nat \<Rightarrow> 'x bst_scheme \<Rightarrow> bool" where
  "scratch_ok p q n s \<longleftrightarrow> (\<forall>k \<ge> calls s. os_map s k 0x10000000 = MAP_FAILED \<or>
     apart p n (os_map s k 0x10000000) (unat (0x10000000 :: 64 word)) \<and> apart q n (os_map s k 0x10000000) (unat (0x10000000 :: 64 word)))"

lemma cacheflush_step:
  assumes w: "at_work p q r s0 t f P s" and v: "\<forall>k. os_val s0 k = 0" and sc: "scratch_ok p q (4 * length r) s0"
  shows "\<exists>s'. cacheflush s = Inr ((), s') \<and> at_work p q r s0 t f P s'"
proof -
  have st: "same_settings s0 s" "calls s0 \<le> calls s" using w by (simp_all add: at_work_def)
  define c where "c = os_map s (calls s) 0x10000000"
  define n where "n = unat (0x10000000 :: 64 word)"
  have "\<forall>k. os_val s k = 0" using v settings(7) [OF st(1)] by simp
  from cacheflush_run [OF this] obtain s' where s': "cacheflush s = Inr ((), s')" "s' = s\<lparr>mem := mem s', bprots := bprots s', calls := calls s'\<rparr>"
      "calls s \<le> calls s'" "\<forall>x. mem s' x = (if c \<noteq> MAP_FAILED \<and> unat (x - c) < n then None else mem s x)"
    unfolding Let_def c_def [symmetric] n_def [symmetric] by (elim exE conjE) (rule that)
  have ap: "c = MAP_FAILED \<or> apart p (4 * length r) c n \<and> apart q (4 * length r) c n"
    using sc st(2) settings(8) [OF st(1)] unfolding scratch_ok_def c_def n_def by simp
  have out: "\<not> (c \<noteq> MAP_FAILED \<and> unat (x - c) < n)" if "unat (x - p) < 4 * length r \<or> unat (x - q) < 4 * length r" for x
    using ap that apart_out [of p "4 * length r" c n x] apart_out [of q "4 * length r" c n x] by linarith
  have "mem s' x = mem s x" if "unat (x - p) < 4 * length r \<or> unat (x - q) < 4 * length r" for x
    unfolding s'(4) [rule_format] by (rule if_not_P) (rule out [OF that])
  then have arr: "arrays (mem s') p q a r" if "arrays (mem s) p q a r" for a by (rule arrays_cong [OF that])
  have "same_settings s s'" "tmp_file s' = tmp_file s" "files s' = files s" by (subst s'(2), simp add: same_settings_def)+
  moreover have "tmp_file s = t" "files s = f" using w by (simp_all add: at_work_def)
  ultimately have "at_work p q r s0 t f P s'" by (intro at_work_mem [OF w]) (use s'(3,4) arr in auto)
  then show ?thesis using s'(1) by blast
qed

lemma clear_step:
  assumes w: "at_work p q r s0 t f P s" and n: "unat n = 4 * length r"
  shows "\<exists>s'. b_memset p 0 n s = Inr ((), s') \<and> at_work p q r s0 t f (\<lambda>a. a = replicate (length r) 0) s'"
proof -
  let ?s = "s\<lparr>mem := (\<lambda>a. if unat (a - p) < 4 * length r then Some 0 else mem s a)\<rparr>"
  obtain a where a: "arrays (mem s) p q a r" "length a = length r" by (rule at_workE [OF w])
  have "buffer (mem s) p (unat n)" using arr_mapped [of "mem s" p a] a n by (simp add: arrays_def)
  then have "b_memset p 0 n s = Inr ((), ?s)" using memset_run [of s p n 0] n by simp
  moreover have "at_work p q r s0 t f (\<lambda>a. a = replicate (length r) 0) ?s"
    using w by (intro at_work_mem [OF w]) (simp_all add: clear_arrays same_settings_def at_work_def)
  ultimately show ?thesis by blast
qed

text \<open>\<open>libc_flush\<close> clears the array in a build with \<open>USE_LOAD\<close> and does nothing otherwise.\<close>

lemma flush_step:
  assumes w: "at_work p q r s0 t f P s" and b: "l_base s0 = p" "unat (l_num_mem s0) = 4 * length r"
  shows "\<exists>s'. libc_flush s = Inr ((), s') \<and>
     at_work p q r s0 t f (if USE_LOAD (opts s0) then \<lambda>a. a = replicate (length r) 0 else P) s'"
proof -
  have st: "same_settings s0 s" using w by (simp add: at_work_def)
  show ?thesis using clear_step [OF w b(2)] w settings(1-3) [OF st] b(1) by (auto simp: libc_flush_def bnd_def)
qed

subsection \<open>The file\<close>

lemma same_files_settings:
  "same_files s s' \<Longrightarrow> same_settings s s' \<and> tmp_file s' = tmp_file s \<and> files s' = files s \<and> calls s \<le> calls s'"
  by (simp add: same_files_def same_settings_def)

text \<open>The array is written to the file and cleared.\<close>

lemma file_step:
  assumes w: "at_work p q r s0 t f (\<lambda>b. b = a) s" and n: "unat (NUM_MEM s0) = 4 * length r" and new: "f (TMPFILE s0) = None" and pl: "plain s0"
  shows "\<exists>s'. micro_file p s = Inr ((), s') \<and> at_work p q r s0 (TMPFILE s0) (f(TMPFILE s0 \<mapsto> bytes a)) (\<lambda>b. b = replicate (length r) 0) s'"
proof -
  have st: "same_settings s0 s" and a: "arrays (mem s) p q a r" and f: "files s = f" using w by (simp_all add: at_work_def)
  note se = settings [OF st]
  let ?T = "TMPFILE s0" and ?n = "NUM_MEM s0"
  define s1 where "s1 = s\<lparr>tmp_file := ?T, io_num_mem := ?n\<rparr>"
  have s1: "mem s1 = mem s" "same_settings s s1" "tmp_file s1 = ?T" "files s1 = f" "calls s1 = calls s" using f by (simp_all add: s1_def same_settings_def)
  have w1: "at_work p q r s0 ?T f (\<lambda>b. b = a) s1" by (intro at_work_mem [OF w]) (use s1 in simp_all)
  have h: "plain s1" "files s1 (tmp_file s1) = None" "buffer (mem s1) p (unat ?n)"
    using pl se(9) new s1 arr_mapped [of "mem s" p a] a n by (simp_all add: arrays_def s1_def plain_def moves_def)
  obtain s2 where s2: "io_write p ?n s1 = Inr ((), s2)" "mem s2 = mem s1"
      "same_files (s1\<lparr>files := (files s1)(tmp_file s1 \<mapsto> map the (bytes_at (mem s1) p (unat ?n)))\<rparr>) s2"
    using io_write_run [OF h] by blast
  have "arr (mem s) p a" "length a = length r" using a by (simp_all add: arrays_def)
  then have "bytes_at (mem s1) p (unat ?n) = map Some (bytes a)" using n s1(1) by (simp add: arr_def)
  then have "map the (bytes_at (mem s1) p (unat ?n)) = bytes a" by (simp add: comp_def)
  then have fs: "files s2 = f(?T \<mapsto> bytes a)" "tmp_file s2 = ?T" "same_settings s1 s2" "calls s1 \<le> calls s2"
    using same_files_settings [OF s2(3)] s1 by (simp_all add: same_settings_def)
  have w2: "at_work p q r s0 ?T (f(?T \<mapsto> bytes a)) (\<lambda>b. b = a) s2" by (intro at_work_mem [OF w1]) (use fs s2(2) in simp_all)
  from clear_step [OF w2 n] obtain s3 where "b_memset p 0 ?n s2 = Inr ((), s3)"
      "at_work p q r s0 ?T (f(?T \<mapsto> bytes a)) (\<lambda>b. b = replicate (length r) 0) s3" by blast
  then show ?thesis using s2(1) se(5,6) by (simp add: micro_file_def io_init_def bnd_def s1_def libc_ondisk_def)
qed

text \<open>The array is loaded from the file.\<close>

lemma load_step:
  assumes w: "at_work p q r s0 t f P s" and n: "unat (NUM_MEM s0) = 4 * length r" and stored: "f t = Some (bytes a)" and len: "length a = length r"
    and pl: "plain s0"
  shows "\<exists>s'. io_read p 0 (NUM_MEM s0) s = Inr ((), s') \<and> at_work p q r s0 t f (\<lambda>b. b = a) s'"
proof -
  have st: "same_settings s0 s" and fs: "files s = f" "tmp_file s = t" using w by (simp_all add: at_work_def)
  obtain b where b: "arrays (mem s) p q b r" "length b = length r" by (rule at_workE [OF w])
  have h: "plain s" "files s (tmp_file s) = Some (bytes a)" "buffer (mem s) p (unat (NUM_MEM s0))" "unat 0 + unat (NUM_MEM s0) \<le> length (bytes a)"
    using settings(9) [OF st] pl fs stored arr_mapped [of "mem s" p b] b n len by (simp_all add: arrays_def)
  obtain s' where s': "io_read p 0 (NUM_MEM s0) s = Inr ((), s')" "mem s' = put_bytes p (bytes a) (mem s)" "same_files s s'"
    using io_read_run [OF h] n len by auto
  have ar: "arrays (mem s') p q a r" if "arrays (mem s) p q c r" for c
  proof -
    have c: "arr (mem s) q r" "apart p (4 * length r) q (4 * length r)" "4 * length r < 2 ^ 64" using that by (simp_all add: arrays_def arr_iff)
    have "arr (mem s') q r" unfolding s'(2) by (rule arr_apart [OF c(1)]) (use apart_swap [OF c(2)] len in simp)
    then show ?thesis using arr_put [of a p "mem s"] c(2,3) len s'(2) by (simp add: arrays_def)
  qed
  have no: "mem s' x = None" if "4 * length r \<le> unat (x - p)" "mem s x = None" for x using that s'(2) len by (simp add: put_bytes_def)
  have "at_work p q r s0 t f (\<lambda>b. b = a) s'"
    by (rule at_work_mem [OF w]) (use same_files_settings [OF s'(3)] fs ar no in auto)
  then show ?thesis using s'(1) by blast
qed

lemma io_flush_step:
  assumes w: "at_work p q r s0 t f P s" and stored: "f t \<noteq> None" and pl: "plain s0" and v: "\<forall>k. os_val s0 k = 0"
  shows "\<exists>s'. io_flush s = Inr ((), s') \<and> at_work p q r s0 t f P s'"
proof -
  have st: "same_settings s0 s" and fs: "files s = f" "tmp_file s = t" using w by (simp_all add: at_work_def)
  have "os_fd s (calls s) \<noteq> None" using pl settings(9) [OF st] by (simp add: plain_def)
  then obtain fd where fd: "os_fd s (calls s) = Some fd" by blast
  let ?s = "s\<lparr>calls := Suc (Suc (Suc (calls s))), descs := (descs s)(fd := None)\<rparr>"
  have "io_flush s = Inr ((), ?s)" using fd fs stored v settings(7) [OF st] by (simp add: io_flush_def bnd_def bench_sys cong: if_cong)
  moreover have "at_work p q r s0 t f P ?s"
  proof (rule at_work_mem [OF w])
    show "\<exists>b. arrays (mem ?s) p q b r \<and> P b" if "arrays (mem s) p q a r" "P a" for a using that by auto
  qed (use fs in \<open>simp_all add: same_settings_def\<close>)
  ultimately show ?thesis by blast
qed

subsection \<open>Reading\<close>

text \<open>Without \<open>USE_LAZY\<close>, reading is loading and checking.\<close>

lemma read_turn_in_memory: "in_memory (opts s) \<Longrightarrow> arrays (mem s) p q a r \<Longrightarrow> i < length r \<Longrightarrow> read_turn p q i s = check_turn p q i s"
  using visit_run [of s p q a r] by (simp add: read_turn_def check_turn_def bnd_def fetch_page_in_memory)

lemma read_pass_in_memory:
  assumes f: "libc_fetch_bulk p 0 (NUM_MEM s0) s0 = Inr ((), s)" and d: "in_memory (opts s)" and a: "arrays (mem s) p q a r"
    and ix: "index_array r" and n: "0 < unat n" "unat n \<le> length r"
  shows "read_pass p q n s0 = check_pass p q n s"
proof -
  have h: "holds p q r s (\<lambda>b. b = a) s" using a by (rule holds_init) simp
  have pos: "0 < length r" using n by linarith
  have loop: "for_each is (\<lambda>i _. read_turn p q i) () s = for_each is (\<lambda>i _. check_turn p q i) () s" if "set is \<subseteq> {..<length r}" for "is"
    using that
  proof (induction "is")
    case (Cons i "is")
    then have i: "i < length r" by simp
    then have "read_turn p q i s = check_turn p q i s" by (intro read_turn_in_memory [OF d a])
    moreover have "check_turn p q i s = Inr ((), s) \<or> check_turn p q i s = Inl AssertFail" using check_turn_run [OF h ix i] by auto
    ultimately show ?case using Cons by (auto simp: bnd_def)
  qed simp
  have "for_each [1..<unat n] (\<lambda>i _. read_turn p q i) () s = for_each [1..<unat n] (\<lambda>i _. check_turn p q i) () s"
    by (rule loop) (use n(2) in auto)
  then show ?thesis using f visit_run [OF a pos] holds_ld [OF h vis_less [OF ix pos]]
    by (simp add: read_pass_def check_pass_def bnd_def fetch_page_in_memory [OF d])
qed

end
