(* ===== verification/Micro_Main.thy ===== *)
theory Micro_Main
  imports Micro_Run
begin

section \<open>The benchmark from start to end\<close>

text \<open>
  Composes the passes and the statements between them into \<open>main\<close> of \<open>micro.c\<close>, for the builds with \<open>USE_LIBC\<close>
  that link and load neither lazily nor with \<open>USE_GHOST\<close>, and for all answers of \<open>rand\<close>.
\<close>

subsection \<open>What holds once the arrays are mapped\<close>






subsection \<open>The phases\<close>








subsection \<open>Acquiring the arrays\<close>

text \<open>The command line changes only the settings of \<open>micro.c\<close>.\<close>

definition same_machine :: "'x ust_scheme \<Rightarrow> 'x ust_scheme \<Rightarrow> bool" where
  "same_machine s s' \<longleftrightarrow> opts s' = opts s \<and> sys_page s' = sys_page s \<and> mem s' = mem s \<and> bprots s' = bprots s \<and> files s' = files s \<and>
     descs s' = descs s \<and> calls s' = calls s \<and> os_map s' = os_map s \<and> os_fd s' = os_fd s \<and> os_count s' = os_count s \<and> os_val s' = os_val s"

lemma parse_arg_machine: "\<exists>s'. parse_arg a s = Inr ((), s') \<and> same_machine s s'"
  by (auto simp: parse_arg_def same_machine_def)

lemma parse_args_machine: "\<exists>s'. for_each as (\<lambda>a _. parse_arg a) () s = Inr ((), s') \<and> same_machine s s'"
proof (induction "as" arbitrary: s)
  case (Cons a as)
  obtain s1 where s1: "parse_arg a s = Inr ((), s1)" "same_machine s s1" using parse_arg_machine [of a s] by blast
  obtain s2 where "for_each as (\<lambda>a _. parse_arg a) () s1 = Inr ((), s2)" "same_machine s1 s2" using Cons.IH [of s1] by blast
  then show ?case using s1 by (simp add: bnd_def same_machine_def)
qed (simp add: same_machine_def)









subsection \<open>The program\<close>






text \<open>A machine with a slow disk, on which a page of 4096 bytes is written, read, and both, in random order.\<close>

definition workstation :: "bool \<Rightarrow> ust" where
  "workstation wr = \<lparr>opts = \<lparr>USE_LIBC = True, USE_SBMA = False, USE_LOAD = True, USE_LAZY = False, USE_GHOST = False, USE_CTX = False,
       USE_RAND = True, USE_RD = True, USE_WR = wr, USE_RW = True\<rparr>,
     sys_page = 4096, mem = Map.empty, bprots = Map.empty, files = Map.empty, descs = Map.empty, calls = 0,
     os_map = (\<lambda>k _. if k = 0 then 0x10000000 else if k = 1 then 0x20000000 else 0x40000000), os_fd = (\<lambda>_. Some 3),
     os_count = (\<lambda>_ n. if n = 0 then 0 else 1), os_val = (\<lambda>_. 0), tmp_file = [], io_num_mem = 0,
     l_num_mem = 0, l_siz_pag = 0, l_base = 0,
     SIZ_PAG = 0, NUM_MEM = 0x60000000, NUM_SYS = 1, NUM_PAG = 0, TMPFILE = ''/scratch/micro1'', rands = (\<lambda>k. 7 * k + 1), rand_calls = 0\<rparr>"

lemma workstation_parse:
  "parse [''micro'', ''--mem=4096'', ''--file=t''] (workstation wr) =
     Inr ((), (workstation wr)\<lparr>NUM_MEM := 4096, TMPFILE := ''t'', SIZ_PAG := 4096, NUM_PAG := 1\<rparr>)"
  by (simp add: parse_def parse_arg_def atol_def isspace_def isdigit_def digit_def bnd_def workstation_def)



subsection \<open>Lazy loading in random order\<close>

text \<open>C34: with \<open>USE_LAZY\<close> a page is loaded when its first element is visited. In random order the first visited element
  usually is not the first of its page. Then its page is not loaded, and after the array has been cleared the first assertion of the reading pass,
  which compares the element with its entry in the index array, fails whenever that entry is not 0.\<close>

theorem lazy_random_read_fails:
  assumes "arrays (mem s) p q a r" and "l_base s = p" and "unat (l_num_mem s) = 4 * length r" and "r \<noteq> []"
    and "USE_LOAD (opts s)" and "USE_LAZY (opts s)" and "USE_RAND (opts s)"
    and "unat (r ! 0) < length r" and "r ! unat (r ! 0) \<noteq> 0" and "at p (of_nat (unat (r ! 0))) AND (l_siz_pag s - 1) \<noteq> 0"
  shows "bnd libc_flush (\<lambda>_. read_pass p q n) s = Inl AssertFail"
proof -
  let ?i = "unat (r ! 0)"
  define s1 where "s1 = s\<lparr>mem := (\<lambda>x. if unat (x - p) < 4 * length r then Some 0 else mem s x)\<rparr>"
  have "length a = length r" "arr (mem s) p a" using assms(1) by (simp_all add: arrays_def)
  then have "buffer (mem s) p (unat (l_num_mem s))" using arr_mapped [of "mem s" p a] assms(3) by simp
  then have f: "libc_flush s = Inr ((), s1)" using memset_run [of s p "l_num_mem s" 0] assms(2,3,5) by (simp add: libc_flush_def bnd_def s1_def)
  have ar: "arrays (mem s1) p q (replicate (length r) 0) r" using clear_arrays [OF assms(1)] by (simp add: s1_def)
  have pos: "0 < length r" using assms(4) by simp
  have o: "opts s1 = opts s" "l_siz_pag s1 = l_siz_pag s" by (simp_all add: s1_def)
  have v: "visit q 0 s1 = Inr (of_nat ?i, s1)" using visit_run [OF ar pos] assms(7) o by (simp add: vis_def)
  have "ld32 (at q (of_nat ?i)) s1 = Inr (r ! ?i, s1)" "ld32 (at p (of_nat ?i)) s1 = Inr (0, s1)"
    using arrays_ld_r [OF ar assms(8)] arrays_ld_a [OF ar assms(8)] assms(8) by simp_all
  then have "read_pass p q n s1 = Inl AssertFail" using v assms(5,6,9,10) o
    by (simp add: read_pass_def bnd_def libc_fetch_bulk_def libc_fetch_page_def eq_commute [of 0])
  then show ?thesis using f by (simp add: bnd_def)
qed

theorem lazy_random_read_fails_witness:
  "bnd libc_flush (\<lambda>_. read_pass 0x1000 0x2000 4)
     ((bench True [1, 3, 6, 9] [2, 0, 1, 3])\<lparr>opts := (opts (bench True [] []))\<lparr>USE_LOAD := True, USE_LAZY := True\<rparr>\<rparr>) = Inl AssertFail"
proof -
  let ?s = "(bench True [1, 3, 6, 9] [2, 0, 1, 3])\<lparr>opts := (opts (bench True [] []))\<lparr>USE_LOAD := True, USE_LAZY := True\<rparr>\<rparr>"
  have a: "arrays (mem ?s) 0x1000 0x2000 [1, 3, 6, 9] [2, 0, 1, 3]" using bench_arrays [of "[1, 3, 6, 9]" "[2, 0, 1, 3]" True] by simp
  show ?thesis using lazy_random_read_fails [OF a, of 4] by (simp add: bench_def at_def)
qed

subsection \<open>Whole pages\<close>

text \<open>C35: when the size of a page is a power of two, a command line that is accepted asks for a whole number of pages.\<close>

theorem parse_whole_pages:
  assumes "parse argv s = Inr ((), s1)" and "SIZ_PAG s1 = 2 ^ k"
  shows "NUM_MEM s1 = NUM_PAG s1 * SIZ_PAG s1 \<and> SIZ_PAG s1 = sys_page s1 * NUM_SYS s1"
proof -
  obtain t where t: "NUM_MEM t AND (SIZ_PAG t - 1) = 0" "SIZ_PAG t = sys_page t * NUM_SYS t" "s1 = t\<lparr>NUM_PAG := NUM_MEM t div SIZ_PAG t\<rparr>"
  proof -
    obtain u where "for_each (tl argv) (\<lambda>a _. parse_arg a) () s = Inr ((), u)" using parse_args_machine [of "tl argv" s] by blast
    then show thesis using assms(1) that [of "u\<lparr>SIZ_PAG := sys_page u * NUM_SYS u\<rparr>"] by (auto simp: parse_def bnd_def split: if_splits)
  qed
  have k: "SIZ_PAG t = 2 ^ k" using t(3) assms(2) by simp
  have "NUM_MEM t mod 2 ^ k = 0" using t(1) unfolding k by (metis mask_eq_exp_minus_1 take_bit_eq_mask take_bit_eq_mod)
  then have "NUM_MEM t div 2 ^ k * 2 ^ k = NUM_MEM t" by (metis add.right_neutral div_mult_mod_eq)
  then show ?thesis using t(2,3) k by simp
qed

theorem parse_whole_pages_witness:
  "NUM_MEM ((workstation True)\<lparr>NUM_MEM := 4096, TMPFILE := ''t'', SIZ_PAG := 4096, NUM_PAG := 1\<rparr>) = 1 * 4096"
  using parse_whole_pages [OF workstation_parse [of True], of 12] by simp

text \<open>Otherwise the test of the size decides nothing: with pages of three system pages, exactly one page is refused, and a third of
  a page is accepted, as no page at all.\<close>

lemma three_system_pages:
  "parse [''micro'', ''--sys=3'', ''--mem=12288''] (workstation wr) = Inl AssertFail \<and>
   (\<exists>s. parse [''micro'', ''--sys=3'', ''--mem=4096''] (workstation wr) = Inr ((), s) \<and> NUM_MEM s = 4096 \<and> SIZ_PAG s = 12288 \<and> NUM_PAG s = 0)"
  by (simp add: parse_def parse_arg_def atol_def isspace_def isdigit_def digit_def bnd_def workstation_def)

end
