(* ===== verification/Bench_Sbma.thy ===== *)
theory Bench_Sbma
  imports Micro Sched
begin

section \<open>sbma.c: the benchmark on demand-paged memory\<close>

text \<open>
  Models \<open>src/bench/impl/sbma.c\<close>, the implementation of \<open>impl.h\<close> whose pages are inaccessible at first: a signal
  handler opens a page for reading at its first fault, loads it if it is on disk, and opens it for writing at the
  next fault. The flags of the pages are bytes in a mapping of their own. An access of the program is repeated
  until the protection of its page permits it; as on the processors that the benchmark runs on, a writable page
  can be read. \<open>uc_mcontext.gregs[REG_ERR]\<close>, the error code of the fault, has bit 1 set for a write.
  \<open>sigemptyset\<close> in \<open>impl_init\<close>, which only fails for a NULL pointer, is left out.
\<close>

definition PROT_NONE :: "64 word" where "PROT_NONE = 0"

definition SYNC :: "8 word" where "SYNC = 1"
definition DIRTY :: "8 word" where "DIRTY = 2"
definition ONDISK :: "8 word" where "ONDISK = 4"

lemmas page_flags = SYNC_def DIRTY_def ONDISK_def

record pst = ist +
  p_pflags :: addr
  p_base :: addr
  p_siz_pag :: "64 word"
  p_num_mem :: "64 word"
  p_num_sys :: "64 word"
  p_num_pag :: "64 word"
  p_faults :: "64 word"
  p_handler :: bool

subsection \<open>The fault handler\<close>

text \<open>\<open>mprotect (p, n, prot)\<close> with the assertion on its result.\<close>

definition protect :: "addr \<Rightarrow> 64 word \<Rightarrow> 64 word \<Rightarrow> ('x pst_scheme, unit) prog" where
  "protect p n prot = bnd (b_mprotect p n prot) (\<lambda>r. assertion (0 = r))"

definition get_pflag :: "64 word \<Rightarrow> ('x pst_scheme, 8 word) prog" where
  "get_pflag i = bnd (gets p_pflags) (\<lambda>p. ld8 (p + i))"

definition set_pflag :: "64 word \<Rightarrow> 8 word \<Rightarrow> ('x pst_scheme, unit) prog" where
  "set_pflag i f = bnd (gets p_pflags) (\<lambda>p. st8 (p + i) f)"

definition fault_type :: "64 word \<Rightarrow> 64 word \<Rightarrow> ('x pst_scheme, 8 word) prog" where
  "fault_type ip err =
     bnd (gets opts) (\<lambda>d.
     if \<not> USE_CTX d then bnd (get_pflag ip) (\<lambda>f. ret (if SYNC \<noteq> f AND SYNC then SYNC else DIRTY))
     else ret (if 0x2 = err AND 0x2 then DIRTY else SYNC))"

definition sync_page :: "64 word \<Rightarrow> addr \<Rightarrow> ('x pst_scheme, unit) prog" where
  "sync_page ip addr =
     bnd (get_pflag ip) (\<lambda>f.
     bnd (assertion (SYNC \<noteq> f AND SYNC)) (\<lambda>_.
     bnd (assertion (DIRTY \<noteq> f AND DIRTY)) (\<lambda>_.
     bnd (gets opts) (\<lambda>d.
     bnd (gets p_siz_pag) (\<lambda>ps.
     if USE_LOAD d \<and> ONDISK = f AND ONDISK then
       if USE_LAZY d then io_read addr (ip * ps) ps
       else bnd (gets p_base) (\<lambda>b. bnd (gets p_num_mem) (\<lambda>n. io_read b 0 n))
     else if USE_LAZY d then
       bnd (protect addr ps PROT_READ) (\<lambda>_. set_pflag ip SYNC)
     else
       bnd (gets p_num_mem) (\<lambda>n.
       bnd (protect addr n PROT_READ) (\<lambda>_.
       bnd (gets p_pflags) (\<lambda>p.
       bnd (gets p_num_pag) (\<lambda>m. b_memset p SYNC m)))))))))"

definition dirty_page :: "64 word \<Rightarrow> addr \<Rightarrow> ('x pst_scheme, unit) prog" where
  "dirty_page ip addr =
     bnd (gets opts) (\<lambda>d.
     bnd (whenp (\<not> USE_CTX d) (bnd (get_pflag ip) (\<lambda>f. assertion (SYNC = f AND SYNC)))) (\<lambda>_.
     bnd (gets p_siz_pag) (\<lambda>ps.
     bnd (protect addr ps (PROT_READ OR PROT_WRITE)) (\<lambda>_. set_pflag ip DIRTY))))"

definition sbma_segvhandler :: "int \<Rightarrow> addr \<Rightarrow> 64 word \<Rightarrow> ('x pst_scheme, unit) prog" where
  "sbma_segvhandler sig si_addr err =
     bnd (assertion (SIGSEGV = sig)) (\<lambda>_.
     bnd (gets p_base) (\<lambda>b.
     bnd (gets p_siz_pag) (\<lambda>ps.
     if ps = 0 then fails DivByZero
     else
       let ip = (si_addr - b) div ps; addr = b + ip * ps in
       bnd (fault_type ip err) (\<lambda>type.
       bnd (if SYNC = type then sync_page ip addr else dirty_page ip addr) (\<lambda>_.
       modify (\<lambda>s. s\<lparr>p_faults := p_faults s + 1\<rparr>))))))"

subsection \<open>The functions of impl.h\<close>

definition b_sigaction :: "('x pst_scheme, int) prog" where
  "b_sigaction =
     bnd tick (\<lambda>k.
     bnd (gets (\<lambda>s. os_val s k)) (\<lambda>r.
     bnd (whenp (r = 0) (modify (\<lambda>s. s\<lparr>p_handler := True\<rparr>))) (\<lambda>_. ret r)))"

definition sbma_init :: "64 word \<Rightarrow> 64 word \<Rightarrow> ('x pst_scheme, addr) prog" where
  "sbma_init num_mem num_sys =
     bnd b_sigaction (\<lambda>r.
     bnd (assertion (0 = r)) (\<lambda>_.
     bnd (modify (\<lambda>s. s\<lparr>p_siz_pag := sys_page s * num_sys\<rparr>)) (\<lambda>_.
     bnd (modify (\<lambda>s. s\<lparr>p_num_mem := num_mem\<rparr>)) (\<lambda>_.
     bnd (modify (\<lambda>s. s\<lparr>p_num_sys := num_sys\<rparr>)) (\<lambda>_.
     bnd (gets p_siz_pag) (\<lambda>ps.
     if ps = 0 then fails DivByZero
     else
       bnd (modify (\<lambda>s. s\<lparr>p_num_pag := num_mem div ps\<rparr>)) (\<lambda>_.
       bnd (gets p_num_pag) (\<lambda>m.
       bnd (b_mmap m (PROT_READ OR PROT_WRITE)) (\<lambda>p.
       bnd (modify (\<lambda>s. s\<lparr>p_pflags := p\<rparr>)) (\<lambda>_.
       bnd (assertion (MAP_FAILED \<noteq> p)) (\<lambda>_.
       bnd (b_mmap num_mem PROT_NONE) (\<lambda>b.
       bnd (modify (\<lambda>s. s\<lparr>p_base := b\<rparr>)) (\<lambda>_. ret b)))))))))))))"

definition sbma_destroy :: "('x pst_scheme, unit) prog" where
  "sbma_destroy =
     bnd (gets p_base) (\<lambda>b.
     bnd (gets p_num_mem) (\<lambda>n.
     bnd (b_munmap b n) (\<lambda>r.
     bnd (assertion (0 = r)) (\<lambda>_.
     bnd (gets p_pflags) (\<lambda>p.
     bnd (gets p_num_pag) (\<lambda>m.
     bnd (b_munmap p m) (\<lambda>r. assertion (0 = r))))))))"

definition sbma_flush :: "('x pst_scheme, unit) prog" where
  "sbma_flush =
     bnd (gets p_num_pag) (\<lambda>m.
     bnd (for_each [0..<unat m] (\<lambda>i _. bnd (get_pflag (of_nat i)) (\<lambda>f. set_pflag (of_nat i) (f AND ONDISK))) ()) (\<lambda>_.
     bnd (gets opts) (\<lambda>d.
     bnd (gets p_base) (\<lambda>b.
     bnd (gets p_num_mem) (\<lambda>n.
     bnd (whenp (USE_LOAD d) (bnd (protect b n PROT_WRITE) (\<lambda>_. b_memset b 0 n))) (\<lambda>_.
     bnd (protect b n PROT_NONE) (\<lambda>_.
     modify (\<lambda>s. s\<lparr>p_faults := 0\<rparr>))))))))"

definition sbma_ondisk :: "('x pst_scheme, unit) prog" where
  "sbma_ondisk = bnd (gets p_pflags) (\<lambda>p. bnd (gets p_num_pag) (\<lambda>m. b_memset p ONDISK m))"

subsection \<open>Accesses of the program\<close>

definition b_permits :: "access \<Rightarrow> 64 word \<Rightarrow> bool" where
  "b_permits x p \<longleftrightarrow> (case x of Load _ \<Rightarrow> p AND (PROT_READ OR PROT_WRITE) \<noteq> 0 | Store _ \<Rightarrow> p AND PROT_WRITE \<noteq> 0)"

definition error_code :: "access \<Rightarrow> 64 word" where
  "error_code x = (case x of Load _ \<Rightarrow> 0x4 | Store _ \<Rightarrow> 0x6)"

definition b_access_step :: "access \<Rightarrow> unit \<Rightarrow> ('x pst_scheme, (unit, unit) ctrl) prog" where
  "b_access_step x = (\<lambda>_.
     bnd (gets (\<lambda>s. bprots s (page_of (sys_page s) (addr_of x)))) (\<lambda>p.
     if (case p of None \<Rightarrow> False | Some p \<Rightarrow> b_permits x p) then ret (Break ())
     else
       bnd (gets p_handler) (\<lambda>h.
       if h then bnd (sbma_segvhandler SIGSEGV (addr_of x) (error_code x)) (\<lambda>_. ret (Continue ()))
       else fails (Segv (addr_of x)))))"

definition b_access :: "access \<Rightarrow> ('x pst_scheme, unit) prog" where
  "b_access x = forever (b_access_step x) ()"

end
