(* ===== verification/Sbma_Pages.thy ===== *)
theory Sbma_Pages
  imports Bench_Sbma Malloc_Correct Micro_Main
begin

section \<open>The pages of sbma.c\<close>

text \<open>
  The handler of \<open>sbma.c\<close> with \<open>USE_LAZY\<close> drives one small automaton per page: inaccessible, readable after the
  first fault, writable after the next. \<open>paged\<close> is the invariant that ties the flags of the pages to their
  protection. The last section shows what the other builds of the handler do wrong.
\<close>

subsection \<open>The pages of a range\<close>

lemma page_dvd: "ps = 2 ^ k \<Longrightarrow> page_of ps a = a \<longleftrightarrow> 2 ^ k dvd unat a"
proof -
  assume "ps = 2 ^ k"
  then have "page_of ps a = a \<longleftrightarrow> take_bit k a = 0" by (rule page_of_bits(2))
  also have "\<dots> \<longleftrightarrow> unat (take_bit k a) = 0" by (simp only: unat_eq_0)
  also have "unat (take_bit k a) = unat a mod 2 ^ k" by (simp only: unsigned_take_bit_eq) (simp only: take_bit_eq_mod)
  finally show ?thesis by (simp add: dvd_eq_mod_eq_0)
qed

lemma div_eq_between: "0 < (n :: nat) \<Longrightarrow> y div n = i \<longleftrightarrow> i * n \<le> y \<and> y < i * n + n"
  by (metis add.commute div_nat_eqI dividend_less_div_times div_times_less_eq_dividend mult.commute mult_Suc)

lemma page_diff: "ps = 2 ^ k \<Longrightarrow> page_of ps p = p \<Longrightarrow> page_of ps x = x \<longleftrightarrow> page_of ps (x - p) = x - p"
proof
  assume ps: "ps = 2 ^ k" "page_of ps p = p"
  show "page_of ps (x - p) = x - p \<Longrightarrow> page_of ps x = x" using page_add [OF ps(1) ps(2), of "x - p"] by simp
  assume "page_of ps x = x"
  then have "x - p = push_bit k (drop_bit k x - drop_bit k p)"
    using ps page_of_bits(1) [OF ps(1)] by (metis push_bit_eq_mult left_diff_distrib)
  then show "page_of ps (x - p) = x - p" using page_of_bits(2) [OF ps(1)] by (simp add: take_bit_push_bit)
qed

lemma pages_set:
  assumes ps: "ps = 2 ^ k" "k < 64" and p: "page_of ps p = p" and n: "unat n = m * 2 ^ k"
  shows "set (pages ps p n) = {x. page_of ps x = x \<and> unat (x - p) < unat n}"
proof -
  have u: "unat ps = 2 ^ k" using ps by (simp add: unat_exp)
  have "0 < (2 :: nat) ^ k" by simp
  then have "(m * 2 ^ k + 2 ^ k - 1) div 2 ^ k = m" by (subst div_eq_between) linarith+
  then have e: "pages ps p n = map (\<lambda>j. p + of_nat j * ps) [0..<m]" by (simp add: pages_def p u n)
  have "m * 2 ^ k < 2 ^ 64" using n unat_less_64 [of n] by simp
  have j: "unat (of_nat j * ps) = j * 2 ^ k" if "j < m" for j
  proof -
    have "j * 2 ^ k < m * 2 ^ k" using that by simp
    then have "j * 2 ^ k < 2 ^ 64" using \<open>m * 2 ^ k < 2 ^ 64\<close> by linarith
    moreover have "of_nat j * ps = of_nat (j * 2 ^ k)" by (simp add: ps)
    ultimately show ?thesis by (simp only: unat_of_nat_len) simp
  qed
  show ?thesis unfolding e
  proof (intro equalityI subsetI)
    fix x assume "x \<in> set (map (\<lambda>j. p + of_nat j * ps) [0..<m])"
    then obtain i where i: "i < m" "x - p = of_nat i * ps" by auto
    then have "unat (x - p) = i * 2 ^ k" "i * 2 ^ k < m * 2 ^ k" using j by simp_all
    then show "x \<in> {x. page_of ps x = x \<and> unat (x - p) < unat n}" using page_diff [OF ps(1) p, of x] page_dvd [OF ps(1), of "x - p"] n by simp
  next
    fix x assume "x \<in> {x. page_of ps x = x \<and> unat (x - p) < unat n}"
    then have "2 ^ k dvd unat (x - p)" "unat (x - p) < m * 2 ^ k" using page_diff [OF ps(1) p, of x] page_dvd [OF ps(1), of "x - p"] n by simp_all
    then obtain i where i: "unat (x - p) = i * 2 ^ k" "i < m" by (auto simp: dvd_def mult.commute)
    then have "x - p = of_nat i * ps" using j [of i] by (metis word_unat_eq_iff)
    then show "x \<in> set (map (\<lambda>j. p + of_nat j * ps) [0..<m])" using i(2) by (auto simp: algebra_simps intro!: image_eqI [of _ _ i])
  qed
qed

subsection \<open>The invariant\<close>

text \<open>\<open>k\<close> is the logarithm of the system page, \<open>m\<close> the number of system pages in a page.\<close>

definition geometry :: "nat \<Rightarrow> nat \<Rightarrow> 'x pst_scheme \<Rightarrow> bool" where
  "geometry k m s \<longleftrightarrow> sys_page s = 2 ^ k \<and> k < 64 \<and> 0 < m \<and> unat (p_siz_pag s) = m * 2 ^ k \<and>
     unat (p_num_pag s) * unat (p_siz_pag s) = unat (p_num_mem s) \<and> page_of (sys_page s) (p_base s) = p_base s \<and>
     p_handler s \<and> (\<forall>j. os_val s j = 0)"

definition page_start :: "'x pst_scheme \<Rightarrow> nat \<Rightarrow> addr" where
  "page_start s i = p_base s + of_nat i * p_siz_pag s"

definition page_no :: "'x pst_scheme \<Rightarrow> addr \<Rightarrow> nat" where
  "page_no s x = unat (x - p_base s) div unat (p_siz_pag s)"

definition flag_of :: "'x pst_scheme \<Rightarrow> nat \<Rightarrow> 8 word option" where
  "flag_of s i = mem s (p_pflags s + of_nat i)"

definition prot_of :: "8 word \<Rightarrow> 64 word" where
  "prot_of f = (if f = SYNC then PROT_READ else if f = DIRTY then PROT_READ OR PROT_WRITE else PROT_NONE)"

definition paged :: "nat \<Rightarrow> nat \<Rightarrow> 'x pst_scheme \<Rightarrow> bool" where
  "paged k m s \<longleftrightarrow> geometry k m s \<and>
     (\<forall>i < unat (p_num_pag s). \<exists>f \<in> {0, SYNC, DIRTY}. flag_of s i = Some f \<and>
        (\<forall>x. page_of (sys_page s) x = x \<and> unat (x - page_start s i) < unat (p_siz_pag s) \<longrightarrow> bprots s x = Some (prot_of f)))"

text \<open>Addresses and page numbers.\<close>

lemma page_start_unat:
  assumes g: "geometry k m s" and i: "i < unat (p_num_pag s)"
  shows "unat (of_nat i * p_siz_pag s) = i * unat (p_siz_pag s)" and "i * unat (p_siz_pag s) + unat (p_siz_pag s) \<le> unat (p_num_mem s)"
proof -
  have "Suc i * unat (p_siz_pag s) \<le> unat (p_num_pag s) * unat (p_siz_pag s)" using i by (intro mult_le_mono1) simp
  also have "\<dots> = unat (p_num_mem s)" using g unfolding geometry_def by blast
  finally show b: "i * unat (p_siz_pag s) + unat (p_siz_pag s) \<le> unat (p_num_mem s)" by simp
  then have lt: "i * unat (p_siz_pag s) < 2 ^ 64" "i < 2 ^ 64"
    using unat_less_64 [of "p_num_mem s"] unat_less_64 [of "p_num_pag s"] i by linarith+
  have "of_nat i * p_siz_pag s = of_nat (i * unat (p_siz_pag s))" by simp
  then show "unat (of_nat i * p_siz_pag s) = i * unat (p_siz_pag s)" using lt(1) by (simp only: unat_of_nat_len) simp
qed

lemma page_no_iff:
  assumes g: "geometry k m s" and i: "i < unat (p_num_pag s)"
  shows "unat (x - page_start s i) < unat (p_siz_pag s) \<longleftrightarrow> within (p_base s) (p_num_mem s) x \<and> page_no s x = i"
proof -
  let ?n = "unat (p_siz_pag s)" and ?y = "unat (x - p_base s)" and ?o = "of_nat i * p_siz_pag s"
  note u = page_start_unat [OF g i]
  have "0 < m * 2 ^ k" using g by (simp add: geometry_def)
  then have pos: "0 < ?n" using g by (simp only: geometry_def)
  have e: "x - page_start s i = (x - p_base s) - ?o" by (simp add: page_start_def)
  have w: "within (p_base s) (p_num_mem s) x \<longleftrightarrow> ?y < unat (p_num_mem s)" by (simp add: within_def word_less_nat_alt)
  note n = div_eq_between [OF pos, of ?y i]
  show ?thesis
  proof (cases "i * ?n \<le> ?y")
    case True
    then have "unat (x - page_start s i) = ?y - i * ?n" unfolding e by (simp add: unat_sub word_le_nat_alt u(1))
    then show ?thesis unfolding page_no_def w n using True u(2) by linarith
  next
    case False
    then have "unat (x - page_start s i) = ?y + 2 ^ 64 - i * ?n" unfolding e by (simp add: unat_sub_if_size u(1) word_size)
    moreover have "unat (p_num_mem s) < 2 ^ 64" by (rule unat_less_64)
    ultimately show ?thesis unfolding page_no_def n using False u(2) by linarith
  qed
qed

text \<open>The system page of an address belongs to the same page, and the pages that \<open>mprotect\<close> is given are those of the page.\<close>

lemma page_of_plus:
  assumes ps: "ps = 2 ^ k" "k < 64" and p: "page_of ps p = p"
  shows "page_of ps (p + y) = p + page_of ps y"
proof -
  have d: "page_of ps a = a - take_bit k a" for a
    using bits_ident [of k a] page_of_bits(1) [OF ps(1), of a] by (simp add: eq_diff_eq)
  have u: "unat (take_bit k a) = unat a mod 2 ^ k" for a :: addr
    by (simp only: unsigned_take_bit_eq) (simp only: take_bit_eq_mod)
  have dvd: "(2 :: nat) ^ k dvd 2 ^ 64" using ps(2) by (intro le_imp_power_dvd) simp
  have "unat (p + y) = (unat p + unat y) mod 2 ^ 64" by (simp add: unat_word_ariths)
  then have "unat (take_bit k (p + y)) = (unat p + unat y) mod 2 ^ k" unfolding u using mod_mod_cancel [OF dvd] by simp
  also have "\<dots> = unat y mod 2 ^ k" using p unfolding page_dvd [OF ps(1)] by (auto elim!: dvdE)
  finally have "take_bit k (p + y) = take_bit k y" by (simp only: u [symmetric] word_unat_eq_iff)
  then show ?thesis by (simp add: d)
qed

lemma page_start_page:
  assumes g: "geometry k m s" and i: "i < unat (p_num_pag s)"
  shows "page_of (sys_page s) (page_start s i) = page_start s i"
proof -
  have ps: "sys_page s = 2 ^ k" "k < 64" and b: "page_of (sys_page s) (p_base s) = p_base s" and sz: "unat (p_siz_pag s) = m * 2 ^ k"
    using g unfolding geometry_def by blast+
  have "page_of (sys_page s) (of_nat i * p_siz_pag s) = of_nat i * p_siz_pag s"
    unfolding page_dvd [OF ps(1)] page_start_unat(1) [OF g i] sz by simp
  then show ?thesis unfolding page_start_def page_of_plus [OF ps b] by simp
qed

lemma in_page_start:
  assumes g: "geometry k m s" and i: "i < unat (p_num_pag s)" and x: "unat (x - page_start s i) < unat (p_siz_pag s)"
  shows "unat (page_of (sys_page s) x - page_start s i) < unat (p_siz_pag s)"
proof -
  have ps: "sys_page s = 2 ^ k" "k < 64" using g by (simp_all add: geometry_def)
  have "page_of (sys_page s) x = page_start s i + page_of (sys_page s) (x - page_start s i)"
    using page_of_plus [OF ps page_start_page [OF g i], of "x - page_start s i"] by simp
  then show ?thesis using page_of_le [OF ps, of "x - page_start s i"] x by (simp add: word_le_nat_alt)
qed

lemma page_pages:
  assumes g: "geometry k m s" and i: "i < unat (p_num_pag s)"
  shows "set (pages (sys_page s) (page_start s i) (p_siz_pag s)) =
     {x. page_of (sys_page s) x = x \<and> unat (x - page_start s i) < unat (p_siz_pag s)}"
  using g by (intro pages_set [OF _ _ page_start_page [OF g i]]) (simp_all add: geometry_def)

subsection \<open>Opening a page\<close>

definition opened :: "'x pst_scheme \<Rightarrow> nat \<Rightarrow> 8 word \<Rightarrow> 'x pst_scheme" where
  "opened s i f = s\<lparr>calls := Suc (calls s), mem := (mem s)(p_pflags s + of_nat i \<mapsto> f),
     bprots := (\<lambda>x. if page_of (sys_page s) x = x \<and> unat (x - page_start s i) < unat (p_siz_pag s) then Some (prot_of f) else bprots s x),
     p_faults := p_faults s + 1\<rparr>"

lemma opened_simps [simp]:
  "opts (opened s i f) = opts s" "sys_page (opened s i f) = sys_page s" "os_val (opened s i f) = os_val s"
  "p_pflags (opened s i f) = p_pflags s" "p_base (opened s i f) = p_base s" "p_siz_pag (opened s i f) = p_siz_pag s"
  "p_num_mem (opened s i f) = p_num_mem s" "p_num_pag (opened s i f) = p_num_pag s" "p_handler (opened s i f) = p_handler s"
  "p_faults (opened s i f) = p_faults s + 1" "geometry k m (opened s i f) = geometry k m s"
  "page_start (opened s i f) j = page_start s j" "page_no (opened s i f) a = page_no s a"
  by (simp_all add: opened_def geometry_def page_start_def page_no_def)

lemma flag_of_opened:
  assumes "i < unat (p_num_pag s)" and "j < unat (p_num_pag s)"
  shows "flag_of (opened s i f) j = (if j = i then Some f else flag_of s j)"
proof -
  have u: "unat (of_nat n :: addr) = n" if "n < unat (p_num_pag s)" for n
    using that unat_less_64 [of "p_num_pag s"] unfolding unat_of_nat_len by simp
  have "(of_nat i :: addr) = of_nat j \<longleftrightarrow> i = j" using u [OF assms(1)] u [OF assms(2)] by metis
  then show ?thesis by (auto simp: flag_of_def opened_def)
qed

lemma paged_opened:
  assumes s: "paged k m s" and i: "i < unat (p_num_pag s)" and f: "f \<in> {SYNC, DIRTY}"
  shows "paged k m (opened s i f)"
proof -
  have g: "geometry k m s" using s by (simp add: paged_def)
  have "\<exists>f' \<in> {0, SYNC, DIRTY}. flag_of (opened s i f) j = Some f' \<and>
      (\<forall>x. page_of (sys_page s) x = x \<and> unat (x - page_start s j) < unat (p_siz_pag s) \<longrightarrow> bprots (opened s i f) x = Some (prot_of f'))"
    if j: "j < unat (p_num_pag s)" for j
  proof (cases "j = i")
    case True
    then show ?thesis using f flag_of_opened [OF i j, of f] by (intro bexI [of _ f]) (auto simp: opened_def)
  next
    case False
    obtain f' where f': "f' \<in> {0, SYNC, DIRTY}" "flag_of s j = Some f'"
      "\<And>x. page_of (sys_page s) x = x \<and> unat (x - page_start s j) < unat (p_siz_pag s) \<Longrightarrow> bprots s x = Some (prot_of f')"
      using s j unfolding paged_def by blast
    have "\<not> unat (x - page_start s i) < unat (p_siz_pag s)" if "unat (x - page_start s j) < unat (p_siz_pag s)" for x
      using that False page_no_iff [OF g i, of x] page_no_iff [OF g j, of x] by simp
    then show ?thesis using f' False flag_of_opened [OF i j, of f] by (intro bexI [of _ f']) (auto simp: opened_def)
  qed
  then show ?thesis using g unfolding paged_def by simp
qed

lemma open_page:
  assumes s: "paged k m s" and i: "i < unat (p_num_pag s)" and f: "f \<in> {SYNC, DIRTY}"
  shows "bnd (protect (page_start s i) (p_siz_pag s) (prot_of f)) (\<lambda>_.
     bnd (set_pflag (of_nat i) f) (\<lambda>_. modify (\<lambda>s. s\<lparr>p_faults := p_faults s + 1\<rparr>))) s = Inr ((), opened s i f)"
proof -
  have g: "geometry k m s" using s by (simp add: paged_def)
  have v: "os_val s j = 0" for j using g by (simp add: geometry_def)
  obtain f' where f': "flag_of s i = Some f'"
      "\<And>x. page_of (sys_page s) x = x \<and> unat (x - page_start s i) < unat (p_siz_pag s) \<Longrightarrow> bprots s x = Some (prot_of f')"
    using s i unfolding paged_def by blast
  then have "\<forall>x \<in> set (pages (sys_page s) (page_start s i) (p_siz_pag s)). bprots s x \<noteq> None" unfolding page_pages [OF g i] by simp
  then have "b_mprotect (page_start s i) (p_siz_pag s) p s =
      Inr (0, s\<lparr>calls := Suc (calls s), bprots := (\<lambda>x. if page_of (sys_page s) x = x \<and> unat (x - page_start s i) < unat (p_siz_pag s)
        then Some p else bprots s x)\<rparr>)" for p
    using v page_start_page [OF g i] page_pages [OF g i] by (simp add: b_mprotect_def tick_def bnd_def cong: if_cong)
  then show ?thesis using f'(1) by (simp add: protect_def bnd_def set_pflag_def st8_def flag_of_def opened_def)
qed

subsection \<open>The automaton of a page\<close>

definition page_next :: "access \<Rightarrow> 8 word \<Rightarrow> 8 word" where
  "page_next x f = (case x of Load _ \<Rightarrow> if f = 0 then SYNC else f | Store _ \<Rightarrow> DIRTY)"

definition level :: "8 word \<Rightarrow> nat" where
  "level f = (if f = 0 then 0 else if f = SYNC then 1 else 2)"

lemma page_flag_bits:
  "f \<in> {0, SYNC, DIRTY} \<Longrightarrow> SYNC = f AND SYNC \<longleftrightarrow> f = SYNC"
  "f \<in> {0, SYNC, DIRTY} \<Longrightarrow> DIRTY = f AND DIRTY \<longleftrightarrow> f = DIRTY"
  "f \<in> {0, SYNC, DIRTY} \<Longrightarrow> ONDISK \<noteq> f AND ONDISK"
  by (auto simp: page_flags)

lemma flag_diff [simp]: "SYNC \<noteq> 0" "DIRTY \<noteq> 0" "SYNC \<noteq> DIRTY" "DIRTY \<noteq> SYNC"
  by (simp_all add: page_flags)

lemma fault_opens:
  assumes s: "paged k m s" and i: "i < unat (p_num_pag s)" and d: "USE_LAZY (opts s)" "\<not> USE_CTX (opts s)"
    and x: "unat (a - page_start s i) < unat (p_siz_pag s)" and f: "flag_of s i = Some f" "f \<in> {0, SYNC}"
  shows "sbma_segvhandler SIGSEGV a err s = Inr ((), opened s i (if f = 0 then SYNC else DIRTY))"
proof -
  have g: "geometry k m s" using s by (simp add: paged_def)
  have pos: "p_siz_pag s \<noteq> 0" using x by auto
  have n: "page_no s a = i" using page_no_iff [OF g i] x by blast
  have "(a - p_base s) div p_siz_pag s = of_nat (page_no s a)" by (simp add: page_no_def word_arith_nat_div)
  then have ip: "(a - p_base s) div p_siz_pag s = of_nat i" using n by simp
  have st: "p_base s + of_nat i * p_siz_pag s = page_start s i" by (simp add: page_start_def)
  have fl: "get_pflag (of_nat i) s = Inr (f, s)" using f(1) by (simp add: get_pflag_def bnd_def ld8_def flag_of_def)
  have b: "f \<in> {0, SYNC, DIRTY}" using f(2) by blast
  have ty: "fault_type (of_nat i) err s = Inr (if f = 0 then SYNC else DIRTY, s)"
    using d(2) fl page_flag_bits(1) [OF b] f(2) by (auto simp: fault_type_def bnd_def)
  have op: "bnd (bnd (protect (page_start s i) (p_siz_pag s) (prot_of f')) (\<lambda>_. set_pflag (of_nat i) f'))
     (\<lambda>_. modify (\<lambda>s. s\<lparr>p_faults := p_faults s + 1\<rparr>)) s = Inr ((), opened s i f')" if "f' \<in> {SYNC, DIRTY}" for f'
    unfolding bnd_assoc by (rule open_page [OF s i that])
  show ?thesis
  proof (cases "f = 0")
    case True
    have "sync_page (of_nat i) (page_start s i) s = bnd (protect (page_start s i) (p_siz_pag s) PROT_READ) (\<lambda>_. set_pflag (of_nat i) SYNC) s"
      using fl d page_flag_bits [OF b] True by (simp add: sync_page_def bnd_def)
    then show ?thesis using op [of SYNC] True pos ip st ty
      by (simp add: sbma_segvhandler_def bnd_def Let_def prot_of_def)
  next
    case False
    then have "f = SYNC" using f(2) by simp
    then have "dirty_page (of_nat i) (page_start s i) s =
        bnd (protect (page_start s i) (p_siz_pag s) (PROT_READ OR PROT_WRITE)) (\<lambda>_. set_pflag (of_nat i) DIRTY) s"
      using fl d by (simp add: dirty_page_def bnd_def)
    then show ?thesis using op [of DIRTY] False pos ip st ty
      by (simp add: sbma_segvhandler_def bnd_def Let_def prot_of_def)
  qed
qed

text \<open>What an access keeps.\<close>

definition same_pages :: "'x pst_scheme \<Rightarrow> 'x pst_scheme \<Rightarrow> bool" where
  "same_pages s t \<longleftrightarrow> opts t = opts s \<and> sys_page t = sys_page s \<and> p_pflags t = p_pflags s \<and> p_base t = p_base s \<and>
     p_siz_pag t = p_siz_pag s \<and> p_num_mem t = p_num_mem s \<and> p_num_pag t = p_num_pag s"

lemma same_pages_refl [simp]: "same_pages s s"
  by (simp add: same_pages_def)

lemma same_pages_opened [simp]: "same_pages s (opened s i f)"
  by (simp add: same_pages_def)

lemma same_pages_trans: "same_pages s t \<Longrightarrow> same_pages t u \<Longrightarrow> same_pages s u"
  by (simp add: same_pages_def)

definition in_page :: "'x pst_scheme \<Rightarrow> nat \<Rightarrow> addr \<Rightarrow> bool" where
  "in_page s i a \<longleftrightarrow> i < unat (p_num_pag s) \<and> unat (a - page_start s i) < unat (p_siz_pag s)"

lemma in_page_opened [simp]: "in_page (opened s j f) i a = in_page s i a"
  by (simp add: in_page_def)

lemma page_prot:
  assumes s: "paged k m s" and x: "in_page s i a" and f: "flag_of s i = Some f"
  shows "bprots s (page_of (sys_page s) a) = Some (prot_of f)" and "f \<in> {0, SYNC, DIRTY}"
proof -
  have g: "geometry k m s" and i: "i < unat (p_num_pag s)" and a: "unat (a - page_start s i) < unat (p_siz_pag s)"
    using s x by (simp_all add: paged_def in_page_def)
  have ps: "sys_page s = 2 ^ k" using g by (simp add: geometry_def)
  obtain f' where f': "f' \<in> {0, SYNC, DIRTY}" "flag_of s i = Some f'"
      "\<And>x. page_of (sys_page s) x = x \<and> unat (x - page_start s i) < unat (p_siz_pag s) \<Longrightarrow> bprots s x = Some (prot_of f')"
    using s i unfolding paged_def by blast
  then show "f \<in> {0, SYNC, DIRTY}" using f by simp
  have "page_of (sys_page s) (page_of (sys_page s) a) = page_of (sys_page s) a" by (rule page_of_bits(3) [OF ps])
  then show "bprots s (page_of (sys_page s) a) = Some (prot_of f)" using f'(2) f f'(3) in_page_start [OF g i a] by simp
qed

lemma permits_prot:
  assumes "f \<in> {0, SYNC, DIRTY}"
  shows "b_permits x (prot_of f) \<longleftrightarrow> page_next x f = f"
  using assms by (cases x) (auto simp: b_permits_def prot_of_def page_next_def PROT_READ_def PROT_WRITE_def PROT_NONE_def)

lemma access_permitted:
  assumes s: "paged k m s" and x: "in_page s i (addr_of x)" and f: "flag_of s i = Some f" and n: "page_next x f = f"
  shows "b_access x s = Inr ((), s)"
  unfolding b_access_def by (rule forever_Break)
    (use page_prot [OF s x f] permits_prot n in \<open>simp add: b_access_step_def bnd_def\<close>)

lemma access_page_faults:
  assumes s: "paged k m s" and x: "in_page s i (addr_of x)" and f: "flag_of s i = Some f" and n: "page_next x f \<noteq> f"
    and d: "USE_LAZY (opts s)" "\<not> USE_CTX (opts s)"
  shows "b_access x s = b_access x (opened s i (if f = 0 then SYNC else DIRTY))"
proof -
  have "\<not> b_permits x (prot_of f)" and b: "f \<in> {0, SYNC}"
    using permits_prot n page_prot(2) [OF s x f] by (auto simp: page_next_def split: access.splits)
  moreover have "p_handler s" using s by (simp add: paged_def geometry_def)
  moreover have "sbma_segvhandler SIGSEGV (addr_of x) (error_code x) s = Inr ((), opened s i (if f = 0 then SYNC else DIRTY))"
    using x by (intro fault_opens [OF s _ d _ f b]) (simp_all add: in_page_def)
  ultimately show ?thesis unfolding b_access_def
    by (intro forever_Continue) (simp add: b_access_step_def bnd_def page_prot(1) [OF s x f])
qed

lemma access_run:
  assumes s: "paged k m s" and x: "in_page s i (addr_of x)" and f: "flag_of s i = Some f"
    and d: "USE_LAZY (opts s)" "\<not> USE_CTX (opts s)"
  shows "\<exists>t. b_access x s = Inr ((), t) \<and> paged k m t \<and> same_pages s t \<and>
     (\<forall>j < unat (p_num_pag s). flag_of t j = (if j = i then Some (page_next x f) else flag_of s j)) \<and>
     p_faults t + of_nat (level f) = p_faults s + of_nat (level (page_next x f))"
proof -
  have i: "i < unat (p_num_pag s)" using x by (simp add: in_page_def)
  have b: "f \<in> {0, SYNC, DIRTY}" by (rule page_prot(2) [OF s x f])
  let ?t = "opened s i SYNC" and ?u = "opened s i DIRTY"
  have t: "paged k m ?t" "flag_of ?t i = Some SYNC" "in_page ?t i (addr_of x)"
    and u: "paged k m ?u" "flag_of ?u i = Some DIRTY" "in_page ?u i (addr_of x)"
    using paged_opened [OF s i] flag_of_opened [OF i i] x by simp_all
  have tu: "paged k m (opened ?t i DIRTY)" "flag_of (opened ?t i DIRTY) i = Some DIRTY" "in_page (opened ?t i DIRTY) i (addr_of x)"
    using paged_opened [OF t(1)] flag_of_opened [of i ?t] i x by simp_all
  note fl = flag_of_opened [OF i] flag_of_opened [of i ?t]
  consider (same) "page_next x f = f" | (read) a where "f = 0" "x = Load a" | (both) a where "f = 0" "x = Store a" | (dirtied) a where "f = SYNC" "x = Store a"
    using b by (cases x) (auto simp: page_next_def)
  then show ?thesis
  proof cases
    case same
    then show ?thesis using access_permitted [OF s x f] s f by (intro exI [of _ s]) simp
  next
    case read
    then have "b_access x s = Inr ((), ?t)"
      using access_page_faults [OF s x f _ d] access_permitted [OF t(1,3,2)] by (simp add: page_next_def)
    then show ?thesis using read t fl i by (intro exI [of _ ?t]) (simp add: page_next_def level_def)
  next
    case both
    then have "b_access x s = Inr ((), opened ?t i DIRTY)"
      using access_page_faults [OF s x f _ d] access_page_faults [OF t(1,3,2)] access_permitted [OF tu(1,3,2)] d by (simp add: page_next_def)
    moreover have "same_pages s (opened ?t i DIRTY)" by (rule same_pages_trans [of s ?t]) simp_all
    ultimately show ?thesis using both tu fl i by (intro exI [of _ "opened ?t i DIRTY"]) (simp add: page_next_def level_def)
  next
    case dirtied
    then have "b_access x s = Inr ((), ?u)"
      using access_page_faults [OF s x f _ d] access_permitted [OF u(1,3,2)] by (simp add: page_next_def)
    then show ?thesis using dirtied u fl i by (intro exI [of _ ?u]) (simp add: page_next_def level_def)
  qed
qed

end
