(* ===== verification/Sbma_Claims.thy ===== *)
theory Sbma_Claims
  imports Sbma_Pages
begin

section \<open>Programs that run on the pages of sbma.c\<close>

text \<open>
  A sequence of accesses after \<open>impl_init\<close>: which pages end up readable or writable, and how many faults it took.
  Then what the other builds of the handler do.
\<close>

subsection \<open>Sequences of accesses\<close>

lemma page_of_address:
  assumes g: "geometry k m s" and w: "within (p_base s) (p_num_mem s) a"
  shows "in_page s (page_no s a) a"
proof -
  have "unat (a - p_base s) < unat (p_num_pag s) * unat (p_siz_pag s)"
    using g w unfolding geometry_def within_def word_less_nat_alt by argo
  then have i: "page_no s a < unat (p_num_pag s)" unfolding page_no_def by (rule less_mult_imp_div_less)
  then show ?thesis using page_no_iff [OF g i, of a] w by (simp add: in_page_def)
qed

lemma sum_level_upd:
  assumes "i < (n :: nat)"
  shows "(\<Sum>j<n. level (if j = i then v else F j)) + level (F i) = (\<Sum>j<n. level (F j)) + level v"
proof -
  have "(\<Sum>j\<in>{..<n} - {i}. level (if j = i then v else F j)) = (\<Sum>j\<in>{..<n} - {i}. level (F j))" by (rule sum.cong) auto
  moreover have "i \<in> {..<n}" using assms by simp
  note r = sum.remove [OF finite_lessThan this]
  ultimately show ?thesis using r [of "\<lambda>j. level (if j = i then v else F j)"] r [of "\<lambda>j. level (F j)"] by simp
qed

lemma fault_sum:
  fixes pu :: "64 word"
  assumes "pu + g = pt + h" and "pt + f = ps + f'" and "g + f = e + f'"
  shows "pu + e = ps + h"
proof -
  have "(pu + e) + f' = (pu + g) + f" using assms(3) by (simp add: ac_simps)
  also have "\<dots> = (pt + f) + h" using assms(1) by (simp add: ac_simps)
  also have "\<dots> = (ps + h) + f'" using assms(2) by (simp add: ac_simps)
  finally show ?thesis by (simp only: add_right_cancel)
qed

abbreviation accesses :: "access list \<Rightarrow> ('x pst_scheme, unit) prog" where
  "accesses xs \<equiv> for_each xs (\<lambda>x _. b_access x) ()"

definition flag_after :: "'x pst_scheme \<Rightarrow> access list \<Rightarrow> nat \<Rightarrow> 8 word \<Rightarrow> 8 word" where
  "flag_after s xs j f = fold page_next (filter (\<lambda>x. page_no s (addr_of x) = j) xs) f"

lemma accesses_run:
  assumes "paged k m s" and "USE_LAZY (opts s)" "\<not> USE_CTX (opts s)"
    and "\<forall>x \<in> set xs. within (p_base s) (p_num_mem s) (addr_of x)" and "\<forall>j < unat (p_num_pag s). flag_of s j = Some (F j)"
  shows "\<exists>t. accesses xs s = Inr ((), t) \<and> paged k m t \<and> same_pages s t \<and>
     (\<forall>j < unat (p_num_pag s). flag_of t j = Some (flag_after s xs j (F j))) \<and>
     p_faults t + of_nat (\<Sum>j < unat (p_num_pag s). level (F j)) =
       p_faults s + of_nat (\<Sum>j < unat (p_num_pag s). level (flag_after s xs j (F j)))"
  using assms
proof (induction xs arbitrary: s F)
  case Nil
  then show ?case by (simp add: flag_after_def)
next
  case (Cons x xs)
  let ?n = "unat (p_num_pag s)" and ?i = "page_no s (addr_of x)"
  have x: "in_page s ?i (addr_of x)" using Cons.prems(1,4) page_of_address unfolding paged_def by (metis list.set_intros(1))
  then have i: "?i < ?n" by (simp add: in_page_def)
  then have f: "flag_of s ?i = Some (F ?i)" using Cons.prems(5) by simp
  obtain t where t: "b_access x s = Inr ((), t)" "paged k m t" "same_pages s t"
      "\<forall>j < ?n. flag_of t j = (if j = ?i then Some (page_next x (F ?i)) else flag_of s j)"
      "p_faults t + of_nat (level (F ?i)) = p_faults s + of_nat (level (page_next x (F ?i)))"
    using access_run [OF Cons.prems(1) x f Cons.prems(2,3)] by (elim exE conjE) (rule that)
  define G where "G = (\<lambda>j. if j = ?i then page_next x (F ?i) else F j)"
  have e: "opts t = opts s" "p_base t = p_base s" "p_num_mem t = p_num_mem s" "p_num_pag t = p_num_pag s" "page_no t = page_no s"
    using t(3) by (simp_all add: same_pages_def page_no_def fun_eq_iff)
  have G: "\<forall>j < unat (p_num_pag t). flag_of t j = Some (G j)" using t(4) Cons.prems(5) by (simp add: e G_def)
  have a: "flag_after t xs j (G j) = flag_after s (x # xs) j (F j)" for j by (simp add: flag_after_def e G_def)
  obtain u where u: "accesses xs t = Inr ((), u)" "paged k m u" "same_pages t u"
      "\<forall>j < ?n. flag_of u j = Some (flag_after s (x # xs) j (F j))"
      "p_faults u + of_nat (\<Sum>j < ?n. level (G j)) = p_faults t + of_nat (\<Sum>j < ?n. level (flag_after s (x # xs) j (F j)))"
    using Cons.IH [OF t(2) _ _ _ G] Cons.prems(2-4) unfolding a e by auto
  have "(\<Sum>j<?n. level (G j)) + level (F ?i) = (\<Sum>j<?n. level (F j)) + level (page_next x (F ?i))"
    unfolding G_def by (rule sum_level_upd [OF i])
  then have "(of_nat (\<Sum>j<?n. level (G j)) + of_nat (level (F ?i)) :: 64 word) = of_nat (\<Sum>j<?n. level (F j)) + of_nat (level (page_next x (F ?i)))"
    by (simp only: of_nat_add [symmetric])
  then have "p_faults u + of_nat (\<Sum>j < ?n. level (F j)) = p_faults s + of_nat (\<Sum>j < ?n. level (flag_after s (x # xs) j (F j)))"
    by (rule fault_sum [OF u(5) t(5)])
  then show ?case using t(1,3) u same_pages_trans [OF t(3) u(3)] by (intro exI [of _ u]) (simp add: bnd_def)
qed

subsection \<open>Starting from \<open>impl_init\<close>\<close>

text \<open>
  \<open>fresh_start\<close>: a system page of \<open>2 ^ k\<close> bytes, an array of whole pages, and system calls that succeed and answer
  with the addresses \<open>p\<close> of the flags and \<open>b\<close> of the array. \<open>lazy_start\<close>: the same with \<open>USE_LAZY\<close> and without \<open>USE_CTX\<close>.
\<close>

definition fresh_start :: "nat \<Rightarrow> 64 word \<Rightarrow> 64 word \<Rightarrow> addr \<Rightarrow> addr \<Rightarrow> 'x pst_scheme \<Rightarrow> bool" where
  "fresh_start k num_mem num_sys p b s \<longleftrightarrow> sys_page s = 2 ^ k \<and> k < 64 \<and>
     0 < unat num_sys \<and> unat num_sys * 2 ^ k < 2 ^ 64 \<and> unat num_sys * 2 ^ k dvd unat num_mem \<and> (\<forall>j. os_val s j = 0) \<and>
     os_map s (Suc (calls s)) (num_mem div (sys_page s * num_sys)) = p \<and> p \<noteq> MAP_FAILED \<and>
     os_map s (Suc (Suc (calls s))) num_mem = b \<and> b \<noteq> MAP_FAILED \<and> page_of (sys_page s) b = b \<and> p_faults s = 0"

definition lazy_start :: "nat \<Rightarrow> 64 word \<Rightarrow> 64 word \<Rightarrow> addr \<Rightarrow> addr \<Rightarrow> 'x pst_scheme \<Rightarrow> bool" where
  "lazy_start k num_mem num_sys p b s \<longleftrightarrow> USE_LAZY (opts s) \<and> \<not> USE_CTX (opts s) \<and> fresh_start k num_mem num_sys p b s"

lemma sbma_init_run:
  assumes "fresh_start k num_mem num_sys p b s"
  shows "\<exists>t. sbma_init num_mem num_sys s = Inr (b, t) \<and> paged k (unat num_sys) t \<and> opts t = opts s \<and> p_base t = b \<and>
     p_num_mem t = num_mem \<and> unat (p_siz_pag t) = unat num_sys * 2 ^ k \<and> p_faults t = 0 \<and> (\<forall>j < unat (p_num_pag t). flag_of t j = Some 0) \<and>
     bprots t = (\<lambda>a. if a \<in> set (pages (sys_page s) b num_mem) then Some PROT_NONE
       else if a \<in> set (pages (sys_page s) p (num_mem div (sys_page s * num_sys))) then Some (PROT_READ OR PROT_WRITE) else bprots s a)"
proof -
  let ?sz = "sys_page s * num_sys" and ?m = "unat num_sys"
  define np where "np = num_mem div ?sz"
  define t where "t = s\<lparr>calls := Suc (Suc (Suc (calls s))), p_handler := True, p_siz_pag := ?sz, p_num_mem := num_mem, p_num_sys := num_sys,
     p_num_pag := np, p_pflags := p, p_base := b,
     mem := (\<lambda>a. if within b num_mem a then Some 0 else if within p np a then Some 0 else mem s a),
     bprots := (\<lambda>a. if a \<in> set (pages (sys_page s) b num_mem) then Some PROT_NONE
       else if a \<in> set (pages (sys_page s) p np) then Some (PROT_READ OR PROT_WRITE) else bprots s a)\<rparr>"
  have a: "sys_page s = 2 ^ k" "k < 64" "0 < ?m" "?m * 2 ^ k < 2 ^ 64" "?m * 2 ^ k dvd unat num_mem" "\<And>j. os_val s j = 0"
      "os_map s (Suc (calls s)) np = p" "p \<noteq> MAP_FAILED" "os_map s (Suc (Suc (calls s))) num_mem = b" "b \<noteq> MAP_FAILED"
      "page_of (sys_page s) b = b" "p_faults s = 0"
    using assms unfolding fresh_start_def np_def by blast+
  have "?sz = of_nat (?m * 2 ^ k)" by (simp add: a(1))
  then have sz: "unat ?sz = ?m * 2 ^ k" using a(4) by (simp only: unat_of_nat_len) simp
  then have nz: "?sz \<noteq> 0" using a(3) by (metis mult_eq_0_iff not_gr_zero power_not_zero unat_0 zero_neq_numeral)
  have "unat np = unat num_mem div (?m * 2 ^ k)" by (simp only: np_def unat_div sz)
  then have np: "unat np * (?m * 2 ^ k) = unat num_mem" using a(5) by simp
  have run: "sbma_init num_mem num_sys s = Inr (b, t)"
    using a(6-10) nz by (simp add: sbma_init_def b_sigaction_def tick_def bnd_def b_mmap_def np_def [symmetric] t_def cong: if_cong)
  have g: "geometry k ?m t" using a(1-3,6,11) sz np by (simp add: geometry_def t_def)
  have u: "unat (of_nat j :: addr) = j" if "j < unat np" for j using that unat_less_64 [of np] unfolding unat_of_nat_len by simp
  have fl: "flag_of t j = Some 0" if "j < unat np" for j
    using u [OF that] that by (simp add: flag_of_def t_def within_def word_less_nat_alt)
  have pr: "bprots t x = Some (prot_of 0)"
    if "j < unat np" "page_of (sys_page s) x = x" "unat (x - page_start t j) < unat (p_siz_pag t)" for j x
  proof -
    have "within b num_mem x" using page_no_iff [OF g, of j x] that by (simp add: t_def)
    then have "x \<in> set (pages (sys_page s) b num_mem)"
      using that(2) pages_set [OF a(1,2,11), of num_mem "unat np * ?m"] np by (simp add: within_def word_less_nat_alt mult.assoc)
    then show ?thesis by (simp add: t_def prot_of_def)
  qed
  have "paged k ?m t" unfolding paged_def using g fl pr by (simp add: t_def)
  moreover have "opts t = opts s \<and> p_base t = b \<and> p_num_mem t = num_mem \<and> unat (p_siz_pag t) = unat num_sys * 2 ^ k \<and> p_faults t = 0 \<and>
     (\<forall>j < unat (p_num_pag t). flag_of t j = Some 0)" using fl a(12) sz by (simp add: t_def)
  moreover have "bprots t = (\<lambda>a. if a \<in> set (pages (sys_page s) b num_mem) then Some PROT_NONE
       else if a \<in> set (pages (sys_page s) p (num_mem div (sys_page s * num_sys))) then Some (PROT_READ OR PROT_WRITE) else bprots s a)"
    unfolding np_def [symmetric] by (simp add: t_def)
  ultimately show ?thesis using run by blast
qed

text \<open>\<open>impl_flush\<close> closes every page again.\<close>

lemma clear_flags:
  assumes s: "paged k m s"
  shows "\<exists>M. for_each [0..<unat (p_num_pag s)] (\<lambda>i _. bnd (get_pflag (of_nat i)) (\<lambda>f. set_pflag (of_nat i) (f AND ONDISK))) () s =
       Inr ((), s\<lparr>mem := M\<rparr>) \<and> (\<forall>j < unat (p_num_pag s). M (p_pflags s + of_nat j) = Some 0)"
proof -
  let ?n = "unat (p_num_pag s)" and ?q = "p_pflags s"
  let ?I = "\<lambda>i t. \<exists>M. t = s\<lparr>mem := M\<rparr> \<and> (\<forall>j < i. M (?q + of_nat j) = Some 0) \<and> (\<forall>j < ?n. i \<le> j \<longrightarrow> M (?q + of_nat j) = flag_of s j)"
  have u: "unat (of_nat j :: addr) = j" if "j < ?n" for j using that unat_less_64 [of "p_num_pag s"] unfolding unat_of_nat_len by simp
  have "\<exists>t. for_each [0..<?n] (\<lambda>i _. bnd (get_pflag (of_nat i)) (\<lambda>f. set_pflag (of_nat i) (f AND ONDISK))) () s = Inr ((), t) \<and> ?I ?n t"
  proof (rule for_each_inv [where I = ?I])
    show "?I 0 s" by (intro exI [of _ "mem s"]) (simp add: flag_of_def)
    fix i t assume i: "i < ?n" and t: "?I i t"
    obtain M where M: "t = s\<lparr>mem := M\<rparr>" "\<forall>j < i. M (?q + of_nat j) = Some 0" "\<forall>j < ?n. i \<le> j \<longrightarrow> M (?q + of_nat j) = flag_of s j"
      using t by blast
    obtain f where f: "f \<in> {0, SYNC, DIRTY}" "flag_of s i = Some f" using s i unfolding paged_def by blast
    have z: "f AND ONDISK = 0" using f(1) by (auto simp: page_flags)
    have ne: "(of_nat j :: addr) \<noteq> of_nat i" if "j < ?n" "j \<noteq> i" for j using u [OF that(1)] u [OF i] that(2) by metis
    have "bnd (get_pflag (of_nat i)) (\<lambda>f. set_pflag (of_nat i) (f AND ONDISK)) t = Inr ((), s\<lparr>mem := M(?q + of_nat i \<mapsto> 0)\<rparr>)"
      using M(1,3) f(2) i z by (simp add: get_pflag_def set_pflag_def bnd_def ld8_def st8_def)
    moreover have "?I (Suc i) (s\<lparr>mem := M(?q + of_nat i \<mapsto> 0)\<rparr>)"
      using M(2,3) ne i by (intro exI [of _ "M(?q + of_nat i \<mapsto> 0)"]) (auto simp: less_Suc_eq)
    ultimately show "\<exists>t'. bnd (get_pflag (of_nat i)) (\<lambda>f. set_pflag (of_nat i) (f AND ONDISK)) t = Inr ((), t') \<and> ?I (Suc i) t'" by blast
  qed simp
  then show ?thesis by blast
qed

lemma sbma_flush_run:
  assumes s: "paged k m s" and d: "\<not> USE_LOAD (opts s)"
  shows "\<exists>t. sbma_flush s = Inr ((), t) \<and> paged k m t \<and> same_pages s t \<and> p_faults t = 0 \<and> (\<forall>j < unat (p_num_pag s). flag_of t j = Some 0)"
proof -
  have g: "geometry k m s" using s by (simp add: paged_def)
  have a: "sys_page s = 2 ^ k" "k < 64" "unat (p_siz_pag s) = m * 2 ^ k" "unat (p_num_pag s) * unat (p_siz_pag s) = unat (p_num_mem s)"
      "page_of (sys_page s) (p_base s) = p_base s" "\<And>j. os_val s j = 0"
    using g unfolding geometry_def by blast+
  have n: "unat (p_num_mem s) = (unat (p_num_pag s) * m) * 2 ^ k" using a(3,4) by (simp add: mult.assoc)
  have ps: "set (pages (sys_page s) (p_base s) (p_num_mem s)) = {x. page_of (sys_page s) x = x \<and> within (p_base s) (p_num_mem s) x}"
    unfolding pages_set [OF a(1,2,5) n] by (simp add: within_def word_less_nat_alt)
  have mapped: "bprots s x \<noteq> None" if "page_of (sys_page s) x = x" "within (p_base s) (p_num_mem s) x" for x
  proof -
    have "in_page s (page_no s x) x" by (rule page_of_address [OF g that(2)])
    then show ?thesis using s that(1) unfolding paged_def in_page_def by blast
  qed
  obtain M where M: "for_each [0..<unat (p_num_pag s)] (\<lambda>i _. bnd (get_pflag (of_nat i)) (\<lambda>f. set_pflag (of_nat i) (f AND ONDISK))) () s =
       Inr ((), s\<lparr>mem := M\<rparr>)" "\<forall>j < unat (p_num_pag s). M (p_pflags s + of_nat j) = Some 0"
    using clear_flags [OF s] by blast
  define t where "t = s\<lparr>mem := M, calls := Suc (calls s), p_faults := 0,
     bprots := (\<lambda>x. if page_of (sys_page s) x = x \<and> within (p_base s) (p_num_mem s) x then Some PROT_NONE else bprots s x)\<rparr>"
  have "b_mprotect (p_base s) (p_num_mem s) PROT_NONE (s\<lparr>mem := M\<rparr>) = Inr (0, t\<lparr>p_faults := p_faults s\<rparr>)"
    using a(5,6) mapped by (simp add: b_mprotect_def tick_def bnd_def ps t_def cong: if_cong)
  then have "sbma_flush s = Inr ((), t)" using M(1) d by (simp add: sbma_flush_def protect_def bnd_def t_def)
  moreover have "geometry k m t = geometry k m s" by (simp add: geometry_def t_def)
  moreover have fl: "flag_of t j = Some 0" if "j < unat (p_num_pag s)" for j using M(2) that by (simp add: flag_of_def t_def)
  moreover have "bprots t x = Some (prot_of 0)"
    if "j < unat (p_num_pag s)" "page_of (sys_page s) x = x" "unat (x - page_start s j) < unat (p_siz_pag s)" for j x
    using page_no_iff [OF g that(1), of x] that by (simp add: t_def prot_of_def)
  moreover have "same_pages s t" "p_faults t = 0" "page_start t = page_start s"
    by (simp_all add: same_pages_def t_def page_start_def fun_eq_iff)
  ultimately show ?thesis unfolding paged_def using g by (intro exI [of _ t]) (simp add: same_pages_def)
qed

subsection \<open>Protections and faults, from the accesses alone\<close>

definition stored :: "access list \<Rightarrow> addr set" where
  "stored xs = {a. Store a \<in> set xs}"

lemma page_next_fold:
  assumes "f \<in> {0, SYNC, DIRTY}"
  shows "fold page_next ys f = (if stored ys \<noteq> {} then DIRTY else if ys = [] then f else if f = 0 then SYNC else f)"
  using assms
proof (induction ys arbitrary: f)
  case (Cons y ys)
  have "page_next y f \<in> {0, SYNC, DIRTY}" using Cons.prems by (auto simp: page_next_def split: access.split)
  note Cons.IH [OF this]
  then show ?case using Cons.prems by (cases y) (auto simp: stored_def page_next_def)
qed (simp add: stored_def)

lemma flag_after_iff:
  "flag_after s xs j 0 = (if j \<in> page_no s ` stored xs then DIRTY else if j \<in> page_no s ` addr_of ` set xs then SYNC else 0)"
proof -
  have "stored (filter (\<lambda>x. page_no s (addr_of x) = j) xs) \<noteq> {} \<longleftrightarrow> j \<in> page_no s ` stored xs"
    by (force simp: stored_def addr_of_def)
  moreover have "filter (\<lambda>x. page_no s (addr_of x) = j) xs = [] \<longleftrightarrow> j \<notin> page_no s ` addr_of ` set xs"
    by (auto simp: filter_empty_conv)
  ultimately show ?thesis unfolding flag_after_def by (simp add: page_next_fold)
qed

lemma stored_subset: "stored xs \<subseteq> addr_of ` set xs"
  by (force simp: stored_def addr_of_def)

lemma sum_levels:
  assumes "page_no s ` addr_of ` set xs \<subseteq> {..<n}"
  shows "(\<Sum>j<n. level (flag_after s xs j 0)) = card (page_no s ` addr_of ` set xs) + card (page_no s ` stored xs)"
proof -
  let ?T = "page_no s ` addr_of ` set xs" and ?W = "page_no s ` stored xs"
  have W: "?W \<subseteq> ?T" using stored_subset by blast
  have "level (flag_after s xs j 0) = of_bool (j \<in> ?T) + of_bool (j \<in> ?W)" for j
    using W by (auto simp: flag_after_iff level_def)
  moreover have "{..<n} \<inter> ?T = ?T" "{..<n} \<inter> ?W = ?W" using assms W by blast+
  ultimately show ?thesis by (simp add: sum.distrib)
qed

lemma accesses_from_zero:
  assumes s: "paged k m s" "\<forall>j < unat (p_num_pag s). flag_of s j = Some 0" "p_faults s = 0" and d: "USE_LAZY (opts s)" "\<not> USE_CTX (opts s)"
    and xs: "\<forall>x \<in> set xs. within (p_base s) (p_num_mem s) (addr_of x)"
  shows "\<exists>t. accesses xs s = Inr ((), t) \<and> paged k m t \<and> same_pages s t \<and>
     p_faults t = of_nat (card (page_no s ` addr_of ` set xs) + card (page_no s ` stored xs)) \<and>
     (\<forall>a. within (p_base s) (p_num_mem s) a \<longrightarrow> bprots t (page_of (sys_page s) a) =
       Some (if page_no s a \<in> page_no s ` stored xs then PROT_READ OR PROT_WRITE
         else if page_no s a \<in> page_no s ` addr_of ` set xs then PROT_READ else PROT_NONE))"
proof -
  let ?n = "unat (p_num_pag s)"
  have g: "geometry k m s" using s(1) by (simp add: paged_def)
  obtain t where t: "accesses xs s = Inr ((), t)" "paged k m t" "same_pages s t"
      "\<forall>j < ?n. flag_of t j = Some (flag_after s xs j 0)"
      "p_faults t + of_nat (\<Sum>j < ?n. level 0) = p_faults s + of_nat (\<Sum>j < ?n. level (flag_after s xs j 0))"
    using accesses_run [OF s(1) d xs s(2)] by (elim exE conjE) (rule that)
  have e: "sys_page t = sys_page s" "in_page t = in_page s" "page_no t = page_no s"
    using t(3) by (simp_all add: same_pages_def in_page_def page_start_def page_no_def fun_eq_iff)
  have T: "page_no s ` addr_of ` set xs \<subseteq> {..<?n}"
    using xs page_of_address [OF g] by (auto simp: in_page_def)
  have "p_faults t = of_nat (card (page_no s ` addr_of ` set xs) + card (page_no s ` stored xs))"
    using t(5) s(3) unfolding sum_levels [OF T] by (simp add: level_def)
  moreover have "bprots t (page_of (sys_page s) a) = Some (if page_no s a \<in> page_no s ` stored xs then PROT_READ OR PROT_WRITE
         else if page_no s a \<in> page_no s ` addr_of ` set xs then PROT_READ else PROT_NONE)" if w: "within (p_base s) (p_num_mem s) a" for a
  proof -
    have a: "in_page s (page_no s a) a" by (rule page_of_address [OF g w])
    then have "flag_of t (page_no s a) = Some (flag_after s xs (page_no s a) 0)" using t(4) by (simp add: in_page_def)
    then have "bprots t (page_of (sys_page s) a) = Some (prot_of (flag_after s xs (page_no s a) 0))"
      using page_prot(1) [OF t(2), of "page_no s a" a] a by (simp add: e)
    then show ?thesis by (simp add: flag_after_iff prot_of_def)
  qed
  ultimately show ?thesis using t(1-3) by blast
qed

text \<open>C29: with \<open>USE_LAZY\<close>, \<open>USE_CTX\<close> and \<open>USE_LOAD\<close> not defined, every access to the array that
  \<open>impl_init\<close> returns completes, through as many faults as its page needs; \<open>impl_flush\<close> closes all pages again, and the
  accesses \<open>xs\<close> after it leave each page inaccessible, readable or writable according to whether \<open>xs\<close> touches or
  writes it. \<open>_faults\<close> is the number of pages that \<open>xs\<close> touches plus the number of pages that it writes.\<close>

theorem pages_open_as_accessed:
  assumes s: "lazy_start k num_mem num_sys p b s" and l: "\<not> USE_LOAD (opts s)"
    and ys: "\<forall>x \<in> set ys. within b num_mem (addr_of x)" and xs: "\<forall>x \<in> set xs. within b num_mem (addr_of x)"
  shows "\<exists>s'. bnd (sbma_init num_mem num_sys) (\<lambda>_. bnd (for_each ys (\<lambda>x _. b_access x) ())
       (\<lambda>_. bnd sbma_flush (\<lambda>_. for_each xs (\<lambda>x _. b_access x) ()))) s = Inr ((), s') \<and>
     (let page = (\<lambda>a. unat (a - b) div (unat num_sys * 2 ^ k)) in
      p_faults s' = of_nat (card (page ` addr_of ` set xs) + card (page ` stored xs)) \<and>
      (\<forall>a. within b num_mem a \<longrightarrow> bprots s' (page_of (2 ^ k) a) =
         Some (if page a \<in> page ` stored xs then PROT_READ OR PROT_WRITE
           else if page a \<in> page ` addr_of ` set xs then PROT_READ else PROT_NONE)))"
proof -
  have d: "USE_LAZY (opts s)" "\<not> USE_CTX (opts s)" and f: "fresh_start k num_mem num_sys p b s" using s by (simp_all add: lazy_start_def)
  obtain t where t: "sbma_init num_mem num_sys s = Inr (b, t)" "paged k (unat num_sys) t" "opts t = opts s" "p_base t = b"
      "p_num_mem t = num_mem" "unat (p_siz_pag t) = unat num_sys * 2 ^ k" "p_faults t = 0" "\<forall>j < unat (p_num_pag t). flag_of t j = Some 0"
    using sbma_init_run [OF f] by (elim exE conjE) (rule that)
  obtain u where u: "accesses ys t = Inr ((), u)" "paged k (unat num_sys) u" "same_pages t u"
    using accesses_from_zero [OF t(2,8,7), of ys] d ys by (auto simp: t)
  have "opts u = opts s" using u(3) t(3) by (simp add: same_pages_def)
  then obtain v where v: "sbma_flush u = Inr ((), v)" "paged k (unat num_sys) v" "same_pages u v" "p_faults v = 0"
      "\<forall>j < unat (p_num_pag u). flag_of v j = Some 0"
    using sbma_flush_run [OF u(2)] l by (metis (no_types, lifting))
  have sp: "same_pages t v" by (rule same_pages_trans [OF u(3) v(3)])
  have e: "opts v = opts s" "p_base v = b" "p_num_mem v = num_mem" "p_num_pag v = p_num_pag u" "sys_page v = 2 ^ k"
      "page_no v = (\<lambda>a. unat (a - b) div (unat num_sys * 2 ^ k))"
    using sp v(2,3) t(3-6) by (simp_all add: same_pages_def page_no_def fun_eq_iff paged_def geometry_def)
  obtain w where "accesses xs v = Inr ((), w)"
     "p_faults w = of_nat (card (page_no v ` addr_of ` set xs) + card (page_no v ` stored xs))"
     "\<forall>a. within b num_mem a \<longrightarrow> bprots w (page_of (2 ^ k) a) =
       Some (if page_no v a \<in> page_no v ` stored xs then PROT_READ OR PROT_WRITE
         else if page_no v a \<in> page_no v ` addr_of ` set xs then PROT_READ else PROT_NONE)"
    using accesses_from_zero [OF v(2) _ v(4), of xs] v(5) d xs by (auto simp: e(1-5))
  then show ?thesis using t(1) u(1) v(1) unfolding e(6) Let_def by (intro exI [of _ w]) (simp add: bnd_def)
qed

text \<open>A machine that maps the flags at \<open>0x8000\<close> and the array at \<open>0x100000\<close>, and a file whose bytes are 5.\<close>

definition page_machine :: "bool \<Rightarrow> bool \<Rightarrow> bool \<Rightarrow> pst" where
  "page_machine load lazy ctx =
     \<lparr>opts = \<lparr>USE_LIBC = False, USE_SBMA = True, USE_LOAD = load, USE_LAZY = lazy, USE_GHOST = False, USE_CTX = ctx,
        USE_RAND = False, USE_RD = True, USE_WR = True, USE_RW = True\<rparr>,
      sys_page = 4, mem = (\<lambda>_. None), bprots = (\<lambda>_. None), files = [''t'' \<mapsto> replicate 12 5], descs = (\<lambda>_. None), calls = 0,
      os_map = (\<lambda>k _. if k = 1 then 0x8000 else 0x100000), os_fd = (\<lambda>_. Some 3), os_count = (\<lambda>_ n. int n), os_val = (\<lambda>_. 0),
      tmp_file = ''t'', io_num_mem = 12,
      p_pflags = 0, p_base = 0, p_siz_pag = 0, p_num_mem = 0, p_num_sys = 0, p_num_pag = 0, p_faults = 0, p_handler = False\<rparr>"

theorem pages_open_as_accessed_witness:
  "\<exists>s'. bnd (sbma_init 12 1) (\<lambda>_. bnd (for_each [Load 0x100009] (\<lambda>x _. b_access x) ())
       (\<lambda>_. bnd sbma_flush (\<lambda>_. for_each [Load 0x100000, Load 0x100005, Store 0x100006] (\<lambda>x _. b_access x) ())))
       (page_machine False True False) = Inr ((), s') \<and> p_faults s' = 3 \<and> bprots s' 0x100008 = Some PROT_NONE"
proof -
  have s: "lazy_start 2 12 1 0x8000 0x100000 (page_machine False True False)"
    by (simp add: lazy_start_def fresh_start_def page_machine_def MAP_FAILED_def page_of_def)
  have W: "stored [Load 0x100000, Load 0x100005, Store 0x100006] = {0x100006}" by (auto simp: stored_def)
  have p: "page_of 4 0x100008 = 0x100008" by (simp add: page_of_def)
  have w: "within 0x100000 12 0x100008" by (simp add: within_def)
  from pages_open_as_accessed [OF s, of "[Load 0x100009]" "[Load 0x100000, Load 0x100005, Store 0x100006]"]
  obtain s' where r: "bnd (sbma_init 12 1) (\<lambda>_. bnd (for_each [Load 0x100009] (\<lambda>x _. b_access x) ())
       (\<lambda>_. bnd sbma_flush (\<lambda>_. for_each [Load 0x100000, Load 0x100005, Store 0x100006] (\<lambda>x _. b_access x) ())))
       (page_machine False True False) = Inr ((), s')" "p_faults s' = 3"
    "\<forall>a. within 0x100000 12 a \<longrightarrow> bprots s' (page_of (2 ^ 2) a) =
       Some (if unat (a - 0x100000) div 4 \<in> {1} then PROT_READ OR PROT_WRITE
         else if unat (a - 0x100000) div 4 \<in> {0, 1} then PROT_READ else PROT_NONE)"
    unfolding W Let_def by (auto simp: page_machine_def within_def addr_of_def)
  have "bprots s' 0x100008 = Some PROT_NONE" using spec [OF r(3), of "0x100008"] w by (simp add: p)
  then show ?thesis using r(1,2) by blast
qed

subsection \<open>The other builds\<close>

lemma past_the_end:
  assumes g: "geometry k m t" and i: "i < unat (p_num_pag t)" "0 < i"
  shows "p_base t + p_num_mem t \<in> set (pages (sys_page t) (page_start t i) (p_num_mem t))"
proof -
  let ?n = "unat (p_siz_pag t)" and ?e = "p_base t + p_num_mem t"
  have ps: "sys_page t = 2 ^ k" "k < 64" "page_of (sys_page t) (p_base t) = p_base t" "?n = m * 2 ^ k" "0 < m" "unat (p_num_mem t) = unat (p_num_pag t) * m * 2 ^ k"
    using g unfolding geometry_def by (blast, blast, blast, blast, blast, metis mult.assoc)
  have le: "i * ?n \<le> unat (p_num_mem t)" using page_start_unat(2) [OF g i(1)] by simp
  have "page_of (sys_page t) (p_num_mem t) = p_num_mem t" unfolding page_dvd [OF ps(1)] ps(6) by simp
  then have "page_of (sys_page t) ?e = ?e" using page_of_plus [OF ps(1-3), of "p_num_mem t"] by simp
  moreover have "unat (p_num_mem t - of_nat i * p_siz_pag t) = unat (p_num_mem t) - i * ?n"
    using le page_start_unat(1) [OF g i(1)] by (simp add: unat_sub word_le_nat_alt)
  then have "unat (?e - page_start t i) = unat (p_num_mem t) - i * ?n" by (simp only: page_start_def add_diff_cancel_left)
  moreover have "0 < i * ?n" using i(2) ps(4,5) by simp
  then have "unat (p_num_mem t) - i * ?n < unat (p_num_mem t)" using le by linarith
  ultimately show ?thesis using pages_set [OF ps(1,2) page_start_page [OF g i(1)] ps(6)] by simp
qed

text \<open>C30: without \<open>USE_LAZY\<close> the handler asks \<open>mprotect\<close> for the length of the whole array from the page of the fault
  on, instead of from its start. So a first access after \<open>impl_init\<close> to any page of the array but the first stops at the handler's assertion, when the address after
  the array is not mapped.\<close>

theorem eager_access_leaves_the_array:
  assumes s: "fresh_start k num_mem num_sys p b s" and d: "\<not> USE_LAZY (opts s)" "\<not> USE_CTX (opts s)"
    and e: "bprots s (b + num_mem) = None" "b + num_mem \<notin> set (pages (sys_page s) p (num_mem div (sys_page s * num_sys)))"
    and x: "within b num_mem (addr_of x)" "unat num_sys * 2 ^ k \<le> unat (addr_of x - b)"
  shows "bnd (sbma_init num_mem num_sys) (\<lambda>_. b_access x) s = Inl AssertFail"
proof -
  obtain t where t: "sbma_init num_mem num_sys s = Inr (b, t)" "paged k (unat num_sys) t" "opts t = opts s" "p_base t = b"
      "p_num_mem t = num_mem" "unat (p_siz_pag t) = unat num_sys * 2 ^ k" "p_faults t = 0" "\<forall>j < unat (p_num_pag t). flag_of t j = Some 0"
      "bprots t = (\<lambda>a. if a \<in> set (pages (sys_page s) b num_mem) then Some PROT_NONE
       else if a \<in> set (pages (sys_page s) p (num_mem div (sys_page s * num_sys))) then Some (PROT_READ OR PROT_WRITE) else bprots s a)"
    using sbma_init_run [OF s] by (elim exE conjE) (rule that)
  have g: "geometry k (unat num_sys) t" using t(2) by (simp add: paged_def)
  let ?a = "addr_of x" and ?i = "page_no t (addr_of x)" and ?n = "unat (p_siz_pag t)"
  have ps: "sys_page s = 2 ^ k" "k < 64" "page_of (sys_page s) b = b" "sys_page t = 2 ^ k" "unat num_mem = unat (p_num_pag t) * unat num_sys * 2 ^ k"
    using s g t(4-6) unfolding fresh_start_def geometry_def by (blast, blast, blast, blast, metis mult.assoc)
  have pos: "0 < ?n" using s t(6) by (simp add: fresh_start_def)
  have "unat (?a - b) < unat (p_num_pag t) * ?n" using x(1) ps(5) t(6) by (simp add: within_def word_less_nat_alt mult.assoc)
  then have i: "?i < unat (p_num_pag t)" unfolding page_no_def t(4) by (rule less_mult_imp_div_less)
  have i0: "0 < ?i" using x(2) pos by (simp add: page_no_def t(4,6) div_greater_zero_iff)
  have st: "unat (?a - page_start t ?i) < ?n" using page_no_iff [OF g i, of ?a] x(1) t(4,5) by simp
  let ?e = "b + num_mem"
  have out: "bprots t ?e = None" using pages_set [OF ps(1-3,5)] e by (simp add: t(9))
  have "?e \<in> set (pages (sys_page t) (page_start t ?i) num_mem)" using past_the_end [OF g i i0] t(4,5) by simp
  then have np: "protect (page_start t ?i) num_mem PROT_READ t = Inl AssertFail"
    using out by (auto simp: protect_def b_mprotect_def tick_def bnd_def)
  have fl: "get_pflag (of_nat ?i) t = Inr (0, t)" using t(8) i by (simp add: get_pflag_def bnd_def ld8_def flag_of_def)
  have "(?a - p_base t) div p_siz_pag t = of_nat ?i" by (simp add: page_no_def word_arith_nat_div)
  moreover have "p_base t + of_nat ?i * p_siz_pag t = page_start t ?i" by (simp add: page_start_def)
  moreover have "p_siz_pag t \<noteq> 0" using pos by auto
  ultimately have h: "sbma_segvhandler SIGSEGV ?a (error_code x) t = Inl AssertFail"
    using fl np d t(3,5) page_flag_bits [of 0] by (simp add: sbma_segvhandler_def sync_page_def fault_type_def bnd_def Let_def)
  have "bprots t (page_of (sys_page t) ?a) = Some (prot_of 0)"
    using t(2,8) i in_page_start [OF g i st] page_of_bits(3) [OF ps(4)] unfolding paged_def by fastforce
  then have "bprots t (page_of (sys_page t) ?a) = Some PROT_NONE" by (simp add: prot_of_def)
  then have "b_access_step x () t = Inl AssertFail" using h g by (auto simp: b_access_step_def bnd_def geometry_def b_permits_def PROT_NONE_def split: access.splits)
  then have "b_access x t = Inl AssertFail" by (simp add: b_access_def forever_unfold)
  then show ?thesis using t(1) by (simp add: bnd_def)
qed

theorem eager_access_leaves_the_array_witness:
  "bnd (sbma_init 12 1) (\<lambda>_. b_access (Load 0x100004)) (page_machine True False False) = Inl AssertFail"
proof -
  have s: "fresh_start 2 12 1 0x8000 0x100000 (page_machine True False False)"
    by (simp add: fresh_start_def page_machine_def MAP_FAILED_def page_of_def)
  show ?thesis using eager_access_leaves_the_array [OF s, of "Load 0x100004"]
    by (simp add: page_machine_def within_def addr_of_def pages_def page_of_def)
qed

text \<open>With \<open>USE_CTX\<close> the first write to a page on disk opens it without loading it: what the file holds of the page is
  replaced by zeros.\<close>

lemma first_write_skips_the_load:
  "case bnd (sbma_init 12 1) (\<lambda>b. bnd sbma_ondisk (\<lambda>_. bnd (b_access (Store b)) (\<lambda>_. ld8 (b + 1)))) (page_machine True True True) of
     Inl e \<Rightarrow> False | Inr (v, s) \<Rightarrow> v = 0 \<and> p_faults s = 1"
  by code_simp

text \<open>Without it the page is loaded, and left writable: the last call of \<open>io_read\<close> protects 0 bytes, so that the handler
  does not see the next write. The machine below is the one after
  \<open>impl_init\<close> and \<open>impl_ondisk\<close>.\<close>

definition disk_mem :: "addr \<Rightarrow> 8 word option" where
  "disk_mem a = (if a - 0x8000 < 3 then Some ONDISK else if a - 0x100000 < 12 then Some 0 else None)"

definition disk_prots :: "addr \<Rightarrow> 64 word option" where
  "disk_prots a = (if a = 0x8000 then Some (PROT_READ OR PROT_WRITE) else if a - 0x100000 < 12 then Some PROT_NONE else None)"

definition disk_machine :: pst where
  "disk_machine = (page_machine True True False)\<lparr>mem := disk_mem, bprots := disk_prots,
     calls := 3, p_pflags := 0x8000, p_base := 0x100000, p_siz_pag := 4, p_num_mem := 12, p_num_sys := 1, p_num_pag := 3, p_handler := True\<rparr>"

lemma loaded_page_stays_writable:
  "case b_access (Load 0x100000) disk_machine of
     Inl e \<Rightarrow> False
   | Inr (v, s) \<Rightarrow> mem s 0x100001 = Some 5 \<and> bprots s 0x100000 = Some PROT_WRITE \<and> b_permits (Store 0x100000) PROT_WRITE"
  by code_simp

end
