(* ===== verification/Table_Test.thy ===== *)
theory Table_Test
  imports Table_Claims
begin

section \<open>The unit tests of the page table\<close>

text \<open>
  Models the program at the end of \<open>src/src/sp_tree.c\<close> (compiled with \<open>TEST\<close>): eight tests of
  \<open>sp_tree_find_mod_and_lock\<close>, one per situation, and a test that fills a table, looks every area up, walks the list of the
  areas, removes some and frees the table. The local table of a test is the table of the state. The allocator is a
  parameter: the small tests are evaluated here with an allocator of four nodes, the long one is proved for
  \<open>vma_alloc.c\<close> in the next theory.
\<close>

subsection \<open>Statements of the tests\<close>

text \<open>\<open>assert (v == p->f)\<close>, \<open>assert (p->f)\<close> and \<open>assert (root == p)\<close>.\<close>

definition expect :: "(vm_area \<Rightarrow> 'a) \<Rightarrow> addr \<Rightarrow> 'a \<Rightarrow> ('z st_scheme, unit) prog" where
  "expect f p v = bnd (get_field f p) (\<lambda>w. assertion (v = w))"

definition expect_some :: "(vm_area \<Rightarrow> addr) \<Rightarrow> addr \<Rightarrow> ('z st_scheme, unit) prog" where
  "expect_some f p = bnd (get_field f p) (\<lambda>q. assertion (q \<noteq> NULL))"

definition expect_root :: "addr \<Rightarrow> ('z st_scheme, unit) prog" where
  "expect_root p = bnd get_root (\<lambda>r. assertion (r = p))"

text \<open>An area from page \<open>a\<close> to page \<open>b\<close>, and the start, end and flags that an area should have.\<close>

definition page :: "nat \<Rightarrow> addr" where "page i = of_nat i * 4096"

definition put_area :: "('z st_scheme, addr) prog \<Rightarrow> nat \<Rightarrow> nat \<Rightarrow> 64 word \<Rightarrow> ('z st_scheme, addr) prog" where
  "put_area valloc a b f =
     bnd valloc (\<lambda>z.
     bnd (assertion (z \<noteq> NULL)) (\<lambda>_.
     bnd (upd_vma z (\<lambda>v. v\<lparr>vm_start := page a\<rparr>)) (\<lambda>_.
     bnd (upd_vma z (\<lambda>v. v\<lparr>vm_end := page b\<rparr>)) (\<lambda>_.
     bnd (upd_vma z (\<lambda>v. v\<lparr>vm_flags := f\<rparr>)) (\<lambda>_.
     bnd (sp_tree_insert z) (\<lambda>_.
     bnd (expect_root z) (\<lambda>_. ret z)))))))"

definition expect_area :: "addr \<Rightarrow> nat \<Rightarrow> nat \<Rightarrow> 64 word \<Rightarrow> ('z st_scheme, unit) prog" where
  "expect_area p a b f = steps [expect vm_start p (page a), expect vm_end p (page b), expect vm_flags p f]"

text \<open>An area without parent, children and neighbours.\<close>

definition expect_alone :: "addr \<Rightarrow> ('z st_scheme, unit) prog" where
  "expect_alone p = steps [expect sp_p p NULL, expect sp_l p NULL, expect sp_r p NULL, expect vm_prev p NULL, expect vm_next p NULL]"

subsection \<open>The tests of sp\_tree\_find\_mod\_and\_lock\<close>

text \<open>Every test is a call on a small table, assertions on the result, and the end of the test.\<close>

definition test_around ::
    "(addr \<Rightarrow> ('z st_scheme, unit) prog) \<Rightarrow> ('z st_scheme, addr) prog \<Rightarrow> (addr \<Rightarrow> ('z st_scheme, unit) prog) \<Rightarrow> ('z st_scheme, unit) prog" where
  "test_around vfree call checks =
     bnd sp_tree_init (\<lambda>_.
     bnd call (\<lambda>zp.
     bnd (checks zp) (\<lambda>_.
     bnd (upd_lock lock_let zp) (\<lambda>_.
     sp_tree_free vfree))))"

definition S_sp_tree_find_mod_and_lock_test_0 ::
    "('z st_scheme, addr) prog \<Rightarrow> (addr \<Rightarrow> ('z st_scheme, unit) prog) \<Rightarrow> ('z st_scheme, unit) prog" where
  "S_sp_tree_find_mod_and_lock_test_0 valloc vfree =
     test_around vfree (sp_tree_find_mod_and_lock valloc vfree (page 0))
       (\<lambda>zp. steps [expect_root zp, expect_alone zp, expect_area zp 0 1 VM_PROT_READ])"

definition S_sp_tree_find_mod_and_lock_test_1 ::
    "('z st_scheme, addr) prog \<Rightarrow> (addr \<Rightarrow> ('z st_scheme, unit) prog) \<Rightarrow> ('z st_scheme, unit) prog" where
  "S_sp_tree_find_mod_and_lock_test_1 valloc vfree =
     bnd sp_tree_init (\<lambda>_.
     bnd (put_area valloc 0 3 VM_PROT_READ) (\<lambda>z.
     bnd (sp_tree_find_mod_and_lock valloc vfree (page 5)) (\<lambda>zp.
     bnd (steps [expect_root zp, expect sp_p zp NULL, expect_some sp_l zp, expect sp_l zp z,
       bnd (get_field sp_l zp) (\<lambda>q. steps [expect sp_p q zp, expect vm_start q (page 0), expect vm_end q (page 3)]),
       expect vm_flags zp VM_PROT_READ, expect sp_r zp NULL,
       bnd (get_field sp_l zp) (expect vm_prev zp), expect vm_next zp NULL, expect_area zp 5 6 VM_PROT_READ]) (\<lambda>_.
     bnd (upd_lock lock_let zp) (\<lambda>_.
     sp_tree_free vfree)))))"

definition S_sp_tree_find_mod_and_lock_test_2 ::
    "('z st_scheme, addr) prog \<Rightarrow> (addr \<Rightarrow> ('z st_scheme, unit) prog) \<Rightarrow> ('z st_scheme, unit) prog" where
  "S_sp_tree_find_mod_and_lock_test_2 valloc vfree =
     test_around vfree
       (bnd (put_area valloc 0 3 VM_PROT_READ) (\<lambda>_. sp_tree_find_mod_and_lock valloc vfree (page 3)))
       (\<lambda>zp. steps [expect_root zp, expect_alone zp, expect_area zp 0 4 VM_PROT_READ])"

definition S_sp_tree_find_mod_and_lock_test_3 ::
    "('z st_scheme, addr) prog \<Rightarrow> (addr \<Rightarrow> ('z st_scheme, unit) prog) \<Rightarrow> ('z st_scheme, unit) prog" where
  "S_sp_tree_find_mod_and_lock_test_3 valloc vfree =
     test_around vfree
       (bnd (put_area valloc 1 4 VM_PROT_READ) (\<lambda>_. sp_tree_find_mod_and_lock valloc vfree (page 0)))
       (\<lambda>zp. steps [expect_root zp, expect_alone zp, expect_area zp 0 4 VM_PROT_READ])"

definition S_sp_tree_find_mod_and_lock_test_4 ::
    "('z st_scheme, addr) prog \<Rightarrow> (addr \<Rightarrow> ('z st_scheme, unit) prog) \<Rightarrow> ('z st_scheme, unit) prog" where
  "S_sp_tree_find_mod_and_lock_test_4 valloc vfree =
     test_around vfree
       (bnd (put_area valloc 0 2 VM_PROT_READ) (\<lambda>_. bnd (put_area valloc 3 4 VM_PROT_READ) (\<lambda>_.
        sp_tree_find_mod_and_lock valloc vfree (page 2))))
       (\<lambda>zp. steps [expect_root zp, expect_alone zp, expect_area zp 0 4 VM_PROT_READ])"

definition S_sp_tree_find_mod_and_lock_test_5 ::
    "('z st_scheme, addr) prog \<Rightarrow> (addr \<Rightarrow> ('z st_scheme, unit) prog) \<Rightarrow> ('z st_scheme, unit) prog" where
  "S_sp_tree_find_mod_and_lock_test_5 valloc vfree =
     test_around vfree
       (bnd (put_area valloc 0 3 VM_PROT_READ) (\<lambda>_. sp_tree_find_mod_and_lock valloc vfree (page 1)))
       (\<lambda>zp. steps [expect_root zp, expect sp_p zp NULL, expect_some sp_l zp,
         bnd (get_field sp_l zp) (\<lambda>q. steps [expect sp_p q zp, expect_area q 0 1 VM_PROT_READ]),
         expect_some sp_r zp,
         bnd (get_field sp_r zp) (\<lambda>q. steps [expect sp_p q zp, expect_area q 2 3 VM_PROT_READ]),
         bnd (get_field sp_l zp) (expect vm_prev zp), bnd (get_field sp_r zp) (expect vm_next zp),
         expect_area zp 1 2 VM_PROT_WRITE])"

definition S_sp_tree_find_mod_and_lock_test_6 ::
    "('z st_scheme, addr) prog \<Rightarrow> (addr \<Rightarrow> ('z st_scheme, unit) prog) \<Rightarrow> ('z st_scheme, unit) prog" where
  "S_sp_tree_find_mod_and_lock_test_6 valloc vfree =
     test_around vfree
       (bnd (put_area valloc 0 2 VM_PROT_WRITE) (\<lambda>_. bnd (put_area valloc 2 4 VM_PROT_READ) (\<lambda>_.
        sp_tree_find_mod_and_lock valloc vfree (page 2))))
       (\<lambda>zp. steps [expect_root zp, expect sp_p zp NULL, expect sp_l zp NULL, expect_some sp_r zp,
         bnd (get_field sp_r zp) (\<lambda>q. expect_area q 3 4 VM_PROT_READ),
         expect vm_prev zp NULL, expect_some vm_next zp, bnd (get_field sp_r zp) (expect vm_next zp),
         expect_area zp 0 3 VM_PROT_WRITE])"

definition S_sp_tree_find_mod_and_lock_test_7 ::
    "('z st_scheme, addr) prog \<Rightarrow> (addr \<Rightarrow> ('z st_scheme, unit) prog) \<Rightarrow> ('z st_scheme, unit) prog" where
  "S_sp_tree_find_mod_and_lock_test_7 valloc vfree =
     test_around vfree
       (bnd (put_area valloc 0 2 VM_PROT_READ) (\<lambda>_. bnd (put_area valloc 2 4 VM_PROT_WRITE) (\<lambda>_.
        sp_tree_find_mod_and_lock valloc vfree (page 1))))
       (\<lambda>zp. steps [expect_root zp, expect sp_p zp NULL, expect_some sp_l zp,
         bnd (get_field sp_l zp) (\<lambda>q. expect_area q 0 1 VM_PROT_READ),
         expect sp_r zp NULL, expect_some vm_prev zp, bnd (get_field sp_l zp) (expect vm_prev zp), expect vm_next zp NULL,
         expect_area zp 1 4 VM_PROT_WRITE])"

text \<open>The nodes of the small tests: one is free while its end is 0.\<close>

definition four_nodes :: "bool \<Rightarrow> st" where
  "four_nodes omp = \<lparr>openmp = omp, OOC_PAGE_SIZE = 4096,
     vmas = (let z = sample_area 0xBAD 0xBAD 0xBAD 0xBAD 0xBAD 0xBAD 0xBAD NULL Uninit in [0x10 \<mapsto> z, 0x20 \<mapsto> z, 0x30 \<mapsto> z]),
     vma_tree = \<lparr>root = 0xBAD, lock = Uninit\<rparr>, frame_n = 0x40\<rparr>"

definition node_alloc :: "(st, addr) prog" where
  "node_alloc =
     bnd (get_field vm_end 0x10) (\<lambda>a. if a = NULL then ret 0x10 else
     bnd (get_field vm_end 0x20) (\<lambda>b. if b = NULL then ret 0x20 else ret 0x30))"

definition node_free :: "addr \<Rightarrow> (st, unit) prog" where
  "node_free z = upd_vma z (\<lambda>v. v\<lparr>vm_end := NULL\<rparr>)"

definition passes :: "(st, 'a) prog \<Rightarrow> st \<Rightarrow> bool" where
  "passes p s = (case p s of Inl e \<Rightarrow> False | Inr (x, t) \<Rightarrow> root (vma_tree t) = NULL)"

lemma test_0_passes: "passes (S_sp_tree_find_mod_and_lock_test_0 node_alloc node_free) (four_nodes True)"
  by code_simp

lemma test_1_passes: "passes (S_sp_tree_find_mod_and_lock_test_1 node_alloc node_free) (four_nodes True)"
  by code_simp

lemma test_2_passes: "passes (S_sp_tree_find_mod_and_lock_test_2 node_alloc node_free) (four_nodes True)"
  by code_simp

lemma test_3_passes: "passes (S_sp_tree_find_mod_and_lock_test_3 node_alloc node_free) (four_nodes True)"
  by code_simp

lemma test_4_passes: "passes (S_sp_tree_find_mod_and_lock_test_4 node_alloc node_free) (four_nodes True)"
  by code_simp

lemma test_5_passes: "passes (S_sp_tree_find_mod_and_lock_test_5 node_alloc node_free) (four_nodes True)"
  by code_simp

lemma test_6_passes: "passes (S_sp_tree_find_mod_and_lock_test_6 node_alloc node_free) (four_nodes True)"
  by code_simp

lemma test_7_passes: "passes (S_sp_tree_find_mod_and_lock_test_7 node_alloc node_free) (four_nodes True)"
  by code_simp

subsection \<open>A table of a hundred areas\<close>

definition N_NODES :: nat where "N_NODES = 100"

text \<open>The page of turn \<open>i\<close>: from both ends of the range.\<close>

definition node_page :: "nat \<Rightarrow> nat" where
  "node_page i = (if i mod 2 = 0 then i else N_NODES - (if N_NODES mod 2 = 1 then 1 else 0) - i)"

definition nodes_insert :: "('z st_scheme, addr) prog \<Rightarrow> nat \<Rightarrow> ('z st_scheme, unit) prog" where
  "nodes_insert valloc i =
     (let st = page (node_page i); en = st + 4096 in
      bnd valloc (\<lambda>z.
      bnd (upd_vma z (\<lambda>v. v\<lparr>vm_start := st\<rparr>)) (\<lambda>_.
      bnd (upd_vma z (\<lambda>v. v\<lparr>vm_end := en\<rparr>)) (\<lambda>_.
      bnd (upd_lock lock_init z) (\<lambda>_.
      bnd (sp_tree_insert z) (\<lambda>_.
      bnd get_root (\<lambda>r. bnd (expect vm_start r st) (\<lambda>_.
      bnd get_root (\<lambda>r. expect vm_end r en)))))))))"

definition nodes_lowest :: "('z st_scheme, addr) prog" where
  "nodes_lowest =
     bnd (sp_tree_find_and_lock 0) (\<lambda>zp.
     bnd (expect vm_start zp 0) (\<lambda>_.
     bnd (expect vm_end zp (0 + 4096)) (\<lambda>_.
     bnd (upd_lock lock_let zp) (\<lambda>_. ret zp))))"

text \<open>\<open>for (i = a; i < b && zp; ++i, zp = zp->vm_next)\<close>, with the assertions on the area, and the assertion on \<open>i\<close> after it.\<close>

definition walk_iter :: "nat \<Rightarrow> nat \<times> addr \<Rightarrow> ('z st_scheme, (nat \<times> addr, nat \<times> addr) ctrl) prog" where
  "walk_iter b = (\<lambda>(i, zp).
     if i < b \<and> zp \<noteq> NULL then
       bnd (expect vm_start zp (page i)) (\<lambda>_.
       bnd (expect vm_end zp (page i + 4096)) (\<lambda>_.
       bnd (get_field vm_next zp) (\<lambda>q. ret (Continue (i + 1, q)))))
     else ret (Break (i, zp)))"

definition nodes_walk :: "nat \<Rightarrow> nat \<Rightarrow> addr \<Rightarrow> ('z st_scheme, unit) prog" where
  "nodes_walk a b zp = bnd (forever (walk_iter b) (a, zp)) (\<lambda>(i, _). assertion (i = b))"

definition nodes_find :: "nat \<Rightarrow> ('z st_scheme, addr) prog" where
  "nodes_find i =
     (let x = page (node_page i) + 128 in
      bnd (sp_tree_find_and_lock x) (\<lambda>zp.
      bnd (expect vm_start zp (x - 128)) (\<lambda>_.
      bnd (get_field vm_start zp) (\<lambda>st.
      bnd (expect vm_end zp (st + 4096)) (\<lambda>_.
      bnd (upd_lock lock_let zp) (\<lambda>_. ret zp))))))"

definition nodes_test :: "('z st_scheme, addr) prog \<Rightarrow> (addr \<Rightarrow> ('z st_scheme, unit) prog) \<Rightarrow> ('z st_scheme, int) prog" where
  "nodes_test valloc vfree =
     bnd sp_tree_init (\<lambda>_.
     bnd (for_each [0..<N_NODES] (\<lambda>i _. nodes_insert valloc i) ()) (\<lambda>_.
     bnd nodes_lowest (\<lambda>zp.
     bnd (nodes_walk 0 N_NODES zp) (\<lambda>_.
     bnd (for_each [0..<N_NODES] (\<lambda>i _. nodes_find i) zp) (\<lambda>zp.
     bnd (for_each [0..<2] (\<lambda>i _. sp_tree_remove vfree (page (node_page i))) ()) (\<lambda>_.
     bnd (nodes_walk 1 (N_NODES - 1) zp) (\<lambda>_.
     bnd (sp_tree_free vfree) (\<lambda>_. ret 0))))))))"

definition sp_tree_test_main :: "('z st_scheme, addr) prog \<Rightarrow> (addr \<Rightarrow> ('z st_scheme, unit) prog) \<Rightarrow> ('z st_scheme, int) prog" where
  "sp_tree_test_main valloc vfree =
     bnd (S_sp_tree_find_mod_and_lock_test_0 valloc vfree) (\<lambda>_.
     bnd (S_sp_tree_find_mod_and_lock_test_1 valloc vfree) (\<lambda>_.
     bnd (S_sp_tree_find_mod_and_lock_test_2 valloc vfree) (\<lambda>_.
     bnd (S_sp_tree_find_mod_and_lock_test_3 valloc vfree) (\<lambda>_.
     bnd (S_sp_tree_find_mod_and_lock_test_4 valloc vfree) (\<lambda>_.
     bnd (S_sp_tree_find_mod_and_lock_test_5 valloc vfree) (\<lambda>_.
     bnd (S_sp_tree_find_mod_and_lock_test_6 valloc vfree) (\<lambda>_.
     bnd (S_sp_tree_find_mod_and_lock_test_7 valloc vfree) (\<lambda>_. nodes_test valloc vfree))))))))"

end
