(* ===== verification/Alloc_Supply.thy ===== *)
theory Alloc_Supply
  imports Alloc_Trace
begin

section \<open>Systems with enough memory\<close>

text \<open>
  A system that refuses no superblock while fewer than \<open>n\<close> are allocated lets \<open>vma_alloc\<close> succeed while fewer than \<open>n\<close> areas
  are in use, because every superblock holds an area in use. \<open>spaced n\<close> is such a system.
\<close>

definition supplied :: "nat \<Rightarrow> 'y ast_scheme \<Rightarrow> bool" where
  "supplied n s \<longleftrightarrow> (\<forall>A k. finite A \<and> card A < n \<longrightarrow> os_alloc s A k \<noteq> NULL)"

lemma supplied_avail:
  assumes s: "supplied n s" and i: "pool_inv_with s F L G" and f: "finite (live s)" "card (live s) < n"
  shows "avail s"
proof -
  have sub: "dom (superblocks s) \<subseteq> sb_of s ` live s" using superblock_in_use [OF i] by blast
  have "finite (dom (superblocks s))" "card (dom (superblocks s)) < n"
    using finite_subset [OF sub] card_mono [OF finite_imageI [OF f(1)] sub] card_image_le [OF f(1), of "sb_of s"] f by auto
  then show ?thesis using s by (simp add: avail_def grants_def supplied_def)
qed

text \<open>A system with \<open>n\<close> places for superblocks, a megabyte apart.\<close>

definition place :: "nat \<Rightarrow> addr" where "place i = of_nat (Suc i) * 0x100000"

definition spaced :: "nat \<Rightarrow> addr set \<Rightarrow> addr" where
  "spaced n A = (case find (\<lambda>p. \<forall>q \<in> A. apart p q) (map place [0..<n]) of Some p \<Rightarrow> p | None \<Rightarrow> NULL)"

lemma place_unat:
  assumes "i < 2 ^ 40"
  shows "unat (place i) = Suc i * 0x100000"
proof -
  have "Suc i * 0x100000 \<le> 2 ^ 40 * 0x100000" using assms by (intro mult_right_mono) simp_all
  then have "Suc i * 0x100000 < 2 ^ 64" by simp
  moreover have "place i = of_nat (Suc i * 0x100000)" by (simp add: place_def)
  moreover have "unat (of_nat (Suc i * 0x100000) :: addr) = Suc i * 0x100000 mod 2 ^ 64" by (simp only: unat_of_nat) simp
  ultimately show ?thesis by (simp only: mod_less)
qed

lemma spaced_free:
  assumes "finite A" and "card A < n" and "n \<le> 2 ^ 40"
  shows "spaced n A \<noteq> NULL"
proof
  have pu: "unat (place i) = Suc i * 0x100000" if "i < n" for i using place_unat assms(3) that by simp
  have nz: "place i \<noteq> NULL" if "i < n" for i using pu [OF that] by (metis Zero_not_Suc mult_eq_0_iff unat_0 zero_neq_numeral)
  assume z: "spaced n A = NULL"
  have "\<exists>q \<in> A. \<not> apart (place i) q" if i: "i < n" for i
  proof (cases "find (\<lambda>p. \<forall>q \<in> A. apart p q) (map place [0..<n])")
    case None
    then show ?thesis using i by (auto simp: find_None_iff)
  next
    case (Some p)
    then obtain j where "j < n" "p = place j" by (auto simp: find_Some_iff)
    then show ?thesis using z nz Some by (simp add: spaced_def)
  qed
  then obtain f where f: "\<And>i. i < n \<Longrightarrow> f i \<in> A \<and> \<not> apart (place i) (f i)" by metis
  have "inj_on f {..<n}"
  proof (rule inj_onI)
    fix i j assume "i \<in> {..<n}" "j \<in> {..<n}" and e: "f i = f j"
    then have ij: "i < n" "j < n" by simp_all
    then have "\<not> apart (place i) (f i)" "\<not> apart (place j) (f i)" using f e by metis+
    then have "\<not> Suc i \<le> j" "\<not> Suc j \<le> i" unfolding apart_def pu [OF ij(1)] pu [OF ij(2)] by auto
    then show "i = j" by simp
  qed
  moreover have "f ` {..<n} \<subseteq> A" using f by auto
  ultimately have "card {..<n} \<le> card A" using card_inj_on_le [OF _ _ assms(1)] by blast
  then show False using assms(2) by simp
qed

definition spacious :: "nat \<Rightarrow> bool \<Rightarrow> ast" where
  "spacious n omp = (boot omp)\<lparr>os_alloc := (\<lambda>A _. spaced n A)\<rparr>"

lemma spacious_sel [simp]: "openmp (spacious n omp) = omp" "frame_n (spacious n omp) = 0x40" "os_alloc (spacious n omp) = (\<lambda>A _. spaced n A)"
  by (simp_all add: spacious_def boot_def)

lemma spacious_supplied: "n \<le> 2 ^ 40 \<Longrightarrow> supplied n (spacious n omp)"
  using spaced_free by (simp add: supplied_def)

lemma spacious_booted:
  assumes "n \<le> 2 ^ 40"
  shows "booted (spacious n omp)"
proof -
  have "placed p \<and> (\<forall>q \<in> A. apart p q) \<and> \<not> vma_at p 0x40" if p: "p = spaced n A" "p \<noteq> NULL" for p A
  proof -
    obtain i where i: "i < n" "p = place i" "\<forall>q \<in> A. apart p q"
      using p by (auto simp: spaced_def find_Some_iff split: option.splits)
    have il: "i < 2 ^ 40" using i(1) assms by simp
    have u: "unat p = Suc i * 0x100000" unfolding i(2) by (rule place_unat [OF il])
    then have le: "unat p \<le> 2 ^ 60" using il by simp
    have "4096 dvd unat p" unfolding u by (simp add: dvd_mult)
    then have pl: "placed p" using le p(2) by (simp add: placed_def)
    have d: "unat (0x40 - p) = 2 ^ 64 + 0x40 - unat p" using u by (simp add: unat_sub_if_size word_size)
    have "262144 \<le> unat (0x40 - p)" unfolding d using le by simp
    then have "\<not> vma_at p 0x40" by (simp add: vma_at_unat Let_def)
    then show ?thesis using pl i(3) by blast
  qed
  then show ?thesis by (simp add: booted_def spacious_def boot_def os_contract_def Let_def)
qed

end
