(* ===== verification/Table_Test_Run.thy ===== *)
theory Table_Test_Run
  imports Table_Test Table_Trace Alloc_Supply
begin

section \<open>The long test of the page table\<close>

text \<open>
  The test of a hundred areas on the allocator of \<open>vma_alloc.c\<close>: \<open>rows s A I\<close> says that the areas \<open>A\<close> of the table are the
  pages \<open>I\<close>. Every statement of the test is a lemma on it.
\<close>

definition rows :: "'y ast_scheme \<Rightarrow> addr set \<Rightarrow> nat set \<Rightarrow> bool" where
  "rows s A I \<longleftrightarrow> treach (s, A) \<and> bij_betw (start_of (vmas s)) A (page ` I) \<and> (\<forall>a \<in> A. end_of (vmas s) a = start_of (vmas s) a + 4096)"

text \<open>Pages.\<close>

lemma page_unat: "i \<le> 2 ^ 40 \<Longrightarrow> unat (page i) = i * 4096"
proof -
  assume "i \<le> 2 ^ 40"
  then have "i * 4096 < 2 ^ 64" by simp
  moreover have "page i = of_nat (i * 4096)" by (simp add: page_def)
  moreover have "unat (of_nat (i * 4096) :: addr) = i * 4096 mod 2 ^ 64" by (simp only: unat_of_nat) simp
  ultimately show ?thesis by (simp only: mod_less)
qed

lemma page_le: "i \<le> 2 ^ 40 \<Longrightarrow> j \<le> 2 ^ 40 \<Longrightarrow> page i \<le> page j \<longleftrightarrow> i \<le> j"
  by (simp add: word_le_nat_alt page_unat)

lemma page_eq: "i \<le> 2 ^ 40 \<Longrightarrow> j \<le> 2 ^ 40 \<Longrightarrow> page i = page j \<longleftrightarrow> i = j"
  by (simp add: word_unat_eq_iff page_unat)

lemma page_Suc: "page i + 4096 = page (Suc i)"
  by (simp add: page_def algebra_simps)

lemma node_page_iff: "node_page i = (if even i then i else N_NODES - i)"
  by (simp add: node_page_def N_NODES_def even_iff_mod_2_eq_zero)

lemma node_page_less: "i < N_NODES \<Longrightarrow> node_page i < N_NODES"
  by (cases "i = 0") (auto simp: node_page_iff)

lemma node_page_inj: "i < N_NODES \<Longrightarrow> j < N_NODES \<Longrightarrow> node_page i = node_page j \<longleftrightarrow> i = j"
proof -
  have "even N_NODES" by (simp add: N_NODES_def)
  then have "N_NODES - i \<noteq> j" if "odd i" "even j" "i < N_NODES" for i j using that by (metis dvd_diff_nat odd_even_add diff_diff_cancel less_imp_le)
  then show "i < N_NODES \<Longrightarrow> j < N_NODES \<Longrightarrow> node_page i = node_page j \<longleftrightarrow> i = j" by (auto simp: node_page_iff)
qed

lemma node_page_all: "node_page ` {..<N_NODES} = {..<N_NODES}"
proof (rule endo_inj_surj)
  show "node_page ` {..<N_NODES} \<subseteq> {..<N_NODES}" using node_page_less by auto
  show "inj_on node_page {..<N_NODES}" using node_page_inj by (auto simp: inj_on_def)
qed simp

text \<open>Putting an area into the table: the lock that the test sets up is set up again by the insertion.\<close>

lemma insert_relock:
  assumes "z \<in> dom h" and "z \<noteq> NULL"
  shows "sp_tree_insert z (wst s (hupd z (\<lambda>v. v\<lparr>vm_lock := released (openmp s) (lock_of h z)\<rparr>) h) r l) = sp_tree_insert z (wst s h r l)"
proof -
  let ?h = "hupd z (\<lambda>v. v\<lparr>vm_lock := released (openmp s) (lock_of h z)\<rparr>) h"
  have "node_init (openmp s) z ?h = node_init (openmp s) z h"
    by (rule ext) (simp add: node_init_def hupd_def lock_of_def released_def)
  then have e: "bnd (S_sp_node_init z) f (wst s ?h r k) = bnd (S_sp_node_init z) f (wst s h r k)" for f :: "unit \<Rightarrow> ('a st_scheme, unit) prog" and k
    using assms by (simp add: bnd_def S_sp_node_init_w)
  show ?thesis
    by (cases "lock_get (openmp s) l") (simp_all add: sp_tree_insert_def bnd_def [of "upd_tree_lock lock_get"] e)
qed

lemma expect_run:
  assumes "p \<in> dom (vmas s)" and "p \<noteq> NULL"
  shows "expect vm_start p v s = (if v = start_of (vmas s) p then Inr ((), s) else Inl AssertFail)"
    and "expect vm_end p v s = (if v = end_of (vmas s) p then Inr ((), s) else Inl AssertFail)"
    and "get_field vm_start p s = Inr (start_of (vmas s) p, s)" and "get_field vm_next p s = Inr (fnx (vmas s) p, s)"
  using assms by (auto simp: expect_def bnd_def start_of_def end_of_def fnx_def)

lemma bij_betw_insert_page:
  assumes "bij_betw f A (page ` I)" and "\<forall>a \<in> A. g a = f a" and "g z = page i" and "z \<notin> A" and "page i \<notin> page ` I"
  shows "bij_betw g (insert z A) (page ` insert i I)"
proof -
  have "g ` A = page ` I" "inj_on g A" using assms(1,2) by (auto simp: bij_betw_def inj_on_def)
  then show ?thesis using assms(3-5) by (auto simp: bij_betw_def)
qed

lemma nodes_insert_run:
  assumes r: "rows s A I" and su: "supplied n s" "card A < n" and i: "i < N_NODES" "node_page i \<notin> I" "I \<subseteq> {..<N_NODES}"
  shows "\<exists>z s'. nodes_insert vma_alloc i s = Inr ((), s') \<and> z \<notin> A \<and> rows s' (insert z A) (insert (node_page i) I) \<and>
     supplied n s' \<and> openmp s' = openmp s"
proof -
  have tr: "treach (s, A)" and bj: "bij_betw (start_of (vmas s)) A (page ` I)" and en: "\<And>a. a \<in> A \<Longrightarrow> end_of (vmas s) a = start_of (vmas s) a + 4096"
    using r by (auto simp: rows_def)
  obtain T where t: "tinv s A T" using treach_inv [OF tr] by auto
  then have p: "pinv s" "live s = A" "finite A" by (auto simp: tinv_def)
  obtain F L G where inv: "pool_inv_with s F L G" using p(1) unfolding pinv_def by blast
  have av: "avail s" using supplied_avail [OF su(1) inv] p su(2) by simp
  obtain z s1 F' where al: "vma_alloc s = Inr (z, s1)" "kin s s1" "alloc_spec s F z s1 F'" using alloc_total [OF inv] by blast
  have z: "z \<noteq> NULL" using al(3) av by (auto simp: alloc_spec_def)
  let ?st = "page (node_page i)"
  have b: "node_page i \<le> 2 ^ 40" "Suc (node_page i) \<le> 2 ^ 40" using node_page_less [OF i(1)] by (simp_all add: N_NODES_def)
  have lt: "?st < ?st + 4096" unfolding page_Suc using page_le [OF b(2,1)] by (simp add: not_le [symmetric])
  have fr: "free_range (vmas s) A ?st (?st + 4096)" unfolding free_range_def
  proof (intro conjI lt ballI)
    fix a assume a: "a \<in> A"
    then obtain j where j: "j \<in> I" "start_of (vmas s) a = page j" using bj by (auto simp: bij_betw_def)
    have jb: "j \<le> 2 ^ 40" "Suc j \<le> 2 ^ 40" and ne: "j \<noteq> node_page i" using j(1) i(2,3) by (auto simp: N_NODES_def)
    show "end_of (vmas s) a \<le> ?st \<or> ?st + 4096 \<le> start_of (vmas s) a"
      unfolding en [OF a] j(2) page_Suc page_le [OF jb(2) b(1)] page_le [OF b(2) jb(1)] using ne by linarith
  qed
  let ?f = "flags_of (vmas s1) z"
  obtain s2 s' T' where m: "upd_vma z (\<lambda>v. v\<lparr>vm_flags := ?f, vm_start := ?st, vm_end := ?st + 4096\<rparr>) s1 = Inr ((), s2)"
      "sp_tree_insert z s2 = Inr ((), s')" "tinv s' (insert z A) T'" "z \<notin> A" "start_of (vmas s') z = ?st" "end_of (vmas s') z = ?st + 4096"
      "same_info (vmas s) (vmas s') A" "openmp s' = openmp s" "root (vma_tree s') = z" "os_alloc s' = os_alloc s1"
    using map_run [OF t al(1) z fr, of ?f] by (elim exE conjE) (rule that)
  obtain v where v: "vmas s1 z = Some v" using m(1) z by (auto simp: upd_vma_def rd_vma_def bnd_def split: option.splits)
  let ?v = "v\<lparr>vm_start := ?st, vm_end := ?st + 4096\<rparr>"
  have "?f = vm_flags v" using v by (simp add: flags_of_def)
  then have s2: "s2 = s1\<lparr>vmas := (vmas s1)(z \<mapsto> ?v)\<rparr>" using m(1) v z by simp
  let ?s3 = "s1\<lparr>vmas := (vmas s1)(z \<mapsto> ?v\<lparr>vm_lock := released (openmp s1) (vm_lock v)\<rparr>)\<rparr>"
  have e3: "?s3 = wst s2 (hupd z (\<lambda>v. v\<lparr>vm_lock := released (openmp s2) (lock_of (vmas s2) z)\<rparr>) (vmas s2)) (root (vma_tree s2)) (lock (vma_tree s2))"
    by (simp add: wst_def s2 hupd_def lock_of_def)
  have "z \<in> dom (vmas s2)" by (simp add: s2)
  then have "sp_tree_insert z ?s3 = sp_tree_insert z s2" unfolding e3 insert_relock [OF _ z] by (simp only: insert_relock [OF _ z] wst_self)
  then have ins: "sp_tree_insert z ?s3 = Inr ((), s')" using m(2) by simp
  have zd: "z \<in> dom (vmas s')" using tinv_facts(1) [OF m(3)] by simp
  have run: "nodes_insert vma_alloc i s = Inr ((), s')"
    using al(1) v z ins expect_run [OF zd z] m(5,6,9)
    by (simp add: nodes_insert_def Let_def bnd_def upd_lock_def rd_vma_def lock_init_run)
  have tr': "treach (s', insert z A)" by (rule treach.step [OF tr tstep.Map [OF al(1) z fr m(1,2)]])
  have si: "\<forall>a \<in> A. start_of (vmas s') a = start_of (vmas s) a \<and> end_of (vmas s') a = end_of (vmas s) a"
    using same_infoD(1,2) [OF m(7)] by blast
  have new: "page (node_page i) \<notin> page ` I"
  proof
    assume "page (node_page i) \<in> page ` I"
    then obtain j where j: "j \<in> I" "page (node_page i) = page j" by blast
    then have "j \<le> 2 ^ 40" using i(3) by (auto simp: N_NODES_def)
    then show False using page_eq [OF b(1), of j] j i(2) by simp
  qed
  have "bij_betw (start_of (vmas s')) (insert z A) (page ` insert (node_page i) I)"
    by (rule bij_betw_insert_page [OF bj _ _ m(4) new]) (use si m(5) in simp_all)
  then have "rows s' (insert z A) (insert (node_page i) I)" using tr' si en m(5,6) by (simp add: rows_def)
  moreover have "supplied n s'" using su(1) al(2) m(10) by (simp add: supplied_def kin_def)
  ultimately show ?thesis using run m(4,8) by blast
qed

subsection \<open>Filling the table\<close>

lemma nodes_fill_run:
  assumes "rows s {} {}" and "supplied N_NODES s"
  shows "\<exists>s'. for_each [0..<N_NODES] (\<lambda>i _. nodes_insert vma_alloc i) () s = Inr ((), s') \<and>
     (\<exists>A. rows s' A {..<N_NODES}) \<and> openmp s' = openmp s"
proof -
  let ?I = "\<lambda>i t. \<exists>A. rows t A (node_page ` {..<i}) \<and> card A = i \<and> finite A \<and> supplied N_NODES t \<and> openmp t = openmp s"
  have "\<exists>s'. for_each [0..<N_NODES] (\<lambda>i _. nodes_insert vma_alloc i) () s = Inr ((), s') \<and> ?I N_NODES s'"
  proof (rule for_each_inv [where I = ?I])
    show "?I 0 s" using assms by (intro exI [of _ "{}"]) simp
    fix i t assume i: "i < N_NODES" and "?I i t"
    then obtain A where t: "rows t A (node_page ` {..<i})" "card A = i" "finite A" "supplied N_NODES t" "openmp t = openmp s" by blast
    have new: "node_page i \<notin> node_page ` {..<i}" "node_page ` {..<i} \<subseteq> {..<N_NODES}"
      using i node_page_inj node_page_less by fastforce+
    obtain z t' where r: "nodes_insert vma_alloc i t = Inr ((), t')" "z \<notin> A" "rows t' (insert z A) (insert (node_page i) (node_page ` {..<i}))"
        "supplied N_NODES t'" "openmp t' = openmp t"
      using nodes_insert_run [OF t(1,4) _ i new] t(2) i by auto
    moreover have "insert (node_page i) (node_page ` {..<i}) = node_page ` {..<Suc i}" by (simp add: lessThan_Suc)
    ultimately have "rows t' (insert z A) (node_page ` {..<Suc i})" "card (insert z A) = Suc i" using t(2,3) by simp_all
    then show "\<exists>s'. nodes_insert vma_alloc i t = Inr ((), s') \<and> ?I (Suc i) s'" using r t(3,5) by (intro exI [of _ t'] conjI exI [of _ "insert z A"]) simp_all
  qed simp
  then show ?thesis unfolding node_page_all by blast
qed

subsection \<open>Looking areas up\<close>

lemma rows_area:
  assumes "rows s A I" and "i \<in> I"
  obtains a where "a \<in> A" "start_of (vmas s) a = page i" "end_of (vmas s) a = page i + 4096"
  using assms by (force simp: rows_def bij_betw_def)

lemma unlock_area: "upd_lock op a s = Inr ((), s') \<Longrightarrow> a \<noteq> NULL \<and> a \<in> dom (vmas s) \<and> start_of (vmas s) a = start_of (vmas s') a \<and>
    end_of (vmas s) a = end_of (vmas s') a"
  by (auto simp: upd_lock_def rd_vma_def bnd_def start_of_def end_of_def split: if_splits option.splits sum.splits)

lemma find_run:
  assumes r: "rows s A I" and i: "i \<in> I" and x: "page i \<le> x" "x < page i + 4096"
  shows "\<exists>a s1 s'. sp_tree_find_and_lock x s = Inr (a, s1) \<and> a \<in> A \<and> expect vm_start a (page i) s1 = Inr ((), s1) \<and>
     get_field vm_start a s1 = Inr (page i, s1) \<and> expect vm_end a (page i + 4096) s1 = Inr ((), s1) \<and>
     upd_lock lock_let a s1 = Inr ((), s') \<and> rows s' A I \<and> openmp s' = openmp s \<and> start_of (vmas s') a = page i"
proof -
  have tr: "treach (s, A)" using r by (simp add: rows_def)
  obtain T where t: "tinv s A T" using treach_inv [OF tr] by auto
  obtain a where a: "a \<in> A" "start_of (vmas s) a = page i" "end_of (vmas s) a = page i + 4096" by (rule rows_area [OF r i])
  then have c: "covers (vmas s) a x" using x by (simp add: covers_def)
  obtain s1 s' T' where f: "sp_tree_find_and_lock x s = Inr (a, s1)" "upd_lock lock_let a s1 = Inr ((), s')" "tinv s' A T'"
      "same_info (vmas s) (vmas s') A" "openmp s' = openmp s" using lookup_run [OF t a(1) c] by (elim exE conjE) (rule that)
  note si = same_infoD(1,2) [OF f(4)] and u = unlock_area [OF f(2)]
  have "bij_betw (start_of (vmas s')) A (page ` I)"
    using r si(1) by (simp add: rows_def cong: bij_betw_cong)
  then have "rows s' A I" using r si treach.step [OF tr tstep.Lookup [OF f(1,2)]] by (simp add: rows_def)
  moreover have "expect vm_start a (page i) s1 = Inr ((), s1)" "get_field vm_start a s1 = Inr (page i, s1)"
      "expect vm_end a (page i + 4096) s1 = Inr ((), s1)" "start_of (vmas s') a = page i"
    using u expect_run [of a s1] si a by simp_all
  moreover have "openmp s' = openmp s" by (rule f(5))
  ultimately show ?thesis using f(1,2) a(1) by blast
qed

lemma nodes_find_run:
  assumes r: "rows s A {..<N_NODES}" and i: "i < N_NODES"
  shows "\<exists>a s'. nodes_find i s = Inr (a, s') \<and> a \<in> A \<and> rows s' A {..<N_NODES} \<and> openmp s' = openmp s \<and> start_of (vmas s') a = page (node_page i)"
proof -
  let ?p = "page (node_page i)" and ?x = "page (node_page i) + 128"
  have j: "node_page i \<in> {..<N_NODES}" using node_page_less [OF i] by simp
  then have b: "node_page i \<le> 2 ^ 40" by (simp add: N_NODES_def)
  have u: "unat ?p = node_page i * 4096" by (rule page_unat [OF b])
  then have "unat ?p + 4096 < 2 ^ 64" using j by (simp add: N_NODES_def)
  then have "unat ?x = unat ?p + 128" "unat (?p + 4096) = unat ?p + 4096" by (simp_all add: unat_word_ariths)
  then have x: "?p \<le> ?x" "?x < ?p + 4096" by (simp_all add: word_le_nat_alt word_less_nat_alt)
  obtain a s1 s' where f: "sp_tree_find_and_lock ?x s = Inr (a, s1)" "a \<in> A" "expect vm_start a ?p s1 = Inr ((), s1)"
     "get_field vm_start a s1 = Inr (?p, s1)" "expect vm_end a (?p + 4096) s1 = Inr ((), s1)" "upd_lock lock_let a s1 = Inr ((), s')"
     "rows s' A {..<N_NODES}" "openmp s' = openmp s" "start_of (vmas s') a = ?p"
    using find_run [OF r j x] by (elim exE conjE) (rule that)
  then have "nodes_find i s = Inr (a, s')" by (simp add: nodes_find_def Let_def bnd_def)
  then show ?thesis using f by blast
qed

lemma nodes_finds_run:
  assumes "rows s A {..<N_NODES}" and "n \<le> N_NODES"
  shows "\<exists>a s'. for_each [0..<n] (\<lambda>i _. nodes_find i) zp s = Inr (a, s') \<and> rows s' A {..<N_NODES} \<and> openmp s' = openmp s \<and>
     (0 < n \<longrightarrow> a \<in> A \<and> start_of (vmas s') a = page (node_page (n - 1)))"
  using assms(2)
proof (induction n)
  case (Suc n)
  then obtain a t where t: "for_each [0..<n] (\<lambda>i _. nodes_find i) zp s = Inr (a, t)" "rows t A {..<N_NODES}" "openmp t = openmp s" by auto
  obtain b s' where f: "nodes_find n t = Inr (b, s')" "b \<in> A" "rows s' A {..<N_NODES}" "openmp s' = openmp t" "start_of (vmas s') b = page (node_page n)"
    using nodes_find_run [OF t(2), of n] Suc.prems by auto
  have "for_each [0..<Suc n] (\<lambda>i _. nodes_find i) zp s = Inr (b, s')"
    using for_each_snoc [OF t(1), of n] f(1) by simp
  then show ?case using f(2-5) t(3) by auto
qed (use assms(1) in simp)

lemma nodes_lowest_run:
  assumes r: "rows s A {..<N_NODES}"
  shows "\<exists>a s'. nodes_lowest s = Inr (a, s') \<and> a \<in> A \<and> rows s' A {..<N_NODES} \<and> openmp s' = openmp s \<and> start_of (vmas s') a = page 0"
proof -
  have p: "page 0 = 0" by (simp add: page_def)
  have i: "0 \<in> {..<N_NODES}" by (simp add: N_NODES_def)
  obtain a s1 s' where "sp_tree_find_and_lock 0 s = Inr (a, s1)" "a \<in> A" "expect vm_start a 0 s1 = Inr ((), s1)"
     "expect vm_end a 4096 s1 = Inr ((), s1)" "upd_lock lock_let a s1 = Inr ((), s')"
     "rows s' A {..<N_NODES}" "openmp s' = openmp s" "start_of (vmas s') a = 0"
    using find_run [OF r i, of 0] unfolding p by auto
  then have "nodes_lowest s = Inr (a, s') \<and> a \<in> A \<and> rows s' A {..<N_NODES} \<and> openmp s' = openmp s \<and> start_of (vmas s') a = page 0"
    by (simp add: nodes_lowest_def bnd_def p)
  then show ?thesis by blast
qed

subsection \<open>Removing areas\<close>

lemma remove_run:
  assumes r: "rows s A I" and i: "i \<in> I" "I \<subseteq> {..<N_NODES}"
  shows "(openmp s \<and> sp_tree_remove vma_free (page i) s = Inl BadLock) \<or>
     (\<exists>z s'. sp_tree_remove vma_free (page i) s = Inr ((), s') \<and> rows s' (A - {z}) (I - {i}) \<and> openmp s' = openmp s \<and>
        start_of (vmas s) z = page i \<and> (\<forall>a \<in> A - {z}. start_of (vmas s') a = start_of (vmas s) a))"
proof -
  have tr: "treach (s, A)" using r by (simp add: rows_def)
  obtain T where t: "tinv s A T" using treach_inv [OF tr] by auto
  obtain z where z: "z \<in> A" "start_of (vmas s) z = page i" by (rule rows_area [OF r i(1)])
  show ?thesis
  proof (cases "openmp s \<and> \<not> shared_superblock s A z")
    case True
    then show ?thesis using unmap_bad [OF t z(1)] z(2) by simp
  next
    case False
    then obtain s' where u: "sp_tree_remove vma_free (page i) s = Inr ((), s')" "same_info (vmas s) (vmas s') (A - {z})" "openmp s' = openmp s"
      using unmap_run [OF t z(1)] z(2) by auto
    have st: "start_of (vmas s') a = start_of (vmas s) a" "end_of (vmas s') a = end_of (vmas s) a" if "a \<in> A - {z}" for a
      using same_infoD(1,2) [OF u(2)] that by blast+
    have "sp_tree_remove vma_free (start_of (vmas s) z) s = Inr ((), s')" using u(1) z(2) by simp
    then have "treach (s', A - {z})" by (rule treach.step [OF tr tstep.Unmap [OF z(1)]])
    moreover have "inj_on page I"
    proof (rule inj_onI)
      fix j k assume j: "j \<in> I" "k \<in> I" "page j = page k"
      then have "j \<le> 2 ^ 40" "k \<le> 2 ^ 40" using i(2) by (auto simp: N_NODES_def)
      then show "j = k" using page_eq j(3) by blast
    qed
    then have e: "page ` (I - {i}) = page ` I - {page i}" using inj_on_image_set_diff [of page I I "{i}"] i(1) by simp
    have "bij_betw (start_of (vmas s)) (A - {z}) (page ` (I - {i}))"
      unfolding e by (rule bij_betw_DiffI) (use r z i(1) in \<open>simp_all add: rows_def\<close>)
    moreover have "bij_betw (start_of (vmas s')) (A - {z}) B \<longleftrightarrow> bij_betw (start_of (vmas s)) (A - {z}) B" for B
      by (rule bij_betw_cong) (rule st(1))
    ultimately have "rows s' (A - {z}) (I - {i})" using r st by (simp add: rows_def)
    then show ?thesis using u(1,3) z(2) st(1) by blast
  qed
qed

subsection \<open>Walking the list\<close>

lemma rows_order:
  assumes r: "rows s A {lo..<hi}" and t: "tinv s A T" and hi: "hi \<le> 2 ^ 40"
  shows "map (start_of (vmas s)) (inorder T) = map page [lo..<hi]"
proof (rule sorted_distinct_set_unique)
  have "sorted_by (start_of (vmas s)) (inorder T)" using t by (simp add: tinv_def tab_def wf_tab_def)
  then have w: "sorted_wrt (<) (map (start_of (vmas s)) (inorder T))" by (simp add: sorted_wrt_map)
  then show "sorted (map (start_of (vmas s)) (inorder T))" "distinct (map (start_of (vmas s)) (inorder T))"
    by (simp_all add: strict_sorted_iff)
  have "sorted_wrt (<) (map page [lo..<hi])"
    unfolding sorted_wrt_map
  proof (rule sorted_wrt_mono_rel [OF _ sorted_wrt_upt])
    fix i j assume "i \<in> set [lo..<hi]" "j \<in> set [lo..<hi]" "i < j"
    then have "i \<le> 2 ^ 40" "j \<le> 2 ^ 40" "\<not> j \<le> i" using hi by auto
    then show "page i < page j" using page_le [of j i] by simp
  qed
  then show "sorted (map page [lo..<hi])" "distinct (map page [lo..<hi])" by (simp_all add: strict_sorted_iff)
  show "set (map (start_of (vmas s)) (inorder T)) = set (map page [lo..<hi])"
    using r t by (auto simp: rows_def bij_betw_def tinv_def)
qed

lemma dseg_next: "dseg n p a xs b \<Longrightarrow> k < length xs \<Longrightarrow> n (xs ! k) = hd0 (drop (Suc k) xs) b"
proof (induction xs arbitrary: a k)
  case (Cons x xs)
  then show ?case by (cases k) auto
qed simp

lemma walk_run:
  assumes r: "rows s A {lo..<hi}" and t: "tinv s A T" and hi: "lo \<le> hi" "hi \<le> 2 ^ 40" and k: "lo \<le> k" "k \<le> hi"
  shows "forever (walk_iter hi) (k, hd0 (drop (k - lo) (inorder T)) NULL) s = Inr ((hi, NULL), s)"
  using k
proof (induction "hi - k" arbitrary: k)
  case 0
  have len: "length (inorder T) = hi - lo" using map_eq_imp_length_eq [OF rows_order [OF r t hi(2)]] by (simp del: length_inorder)
  have "walk_iter hi (k, NULL) s = Inr (Break (hi, NULL), s)" using 0 by (simp add: walk_iter_def)
  then show ?case using 0 len by (simp add: forever_Break)
next
  case (Suc d)
  let ?zs = "inorder T" and ?j = "k - lo"
  have len: "length ?zs = hi - lo" using map_eq_imp_length_eq [OF rows_order [OF r t hi(2)]] by (simp del: length_inorder)
  have j: "?j < length ?zs" using Suc.hyps(2) Suc.prems len by simp
  let ?z = "?zs ! ?j"
  have hd: "hd0 (drop ?j ?zs) NULL = ?z" using Cons_nth_drop_Suc [OF j, symmetric] by simp
  have "set ?zs = A" using t by (simp add: tinv_def)
  then have z: "?z \<in> A" using nth_mem [OF j] by (simp only:)
  then have zd: "?z \<in> dom (vmas s)" "?z \<noteq> NULL" using tinv_facts(1,2) [OF t] by auto
  have "map (start_of (vmas s)) ?zs ! ?j = map page [lo..<hi] ! ?j" unfolding rows_order [OF r t hi(2)] ..
  then have st: "start_of (vmas s) ?z = page k" using j len Suc.prems by simp
  then have en: "end_of (vmas s) ?z = page k + 4096" using r z by (simp add: rows_def)
  have "dseg (fnx (vmas s)) (fpv (vmas s)) NULL ?zs NULL" using t by (simp add: tinv_def tab_def wf_tab_def dll_def)
  then have nx: "fnx (vmas s) ?z = hd0 (drop (Suc ?j) ?zs) NULL" using dseg_next j by blast
  have "walk_iter hi (k, ?z) s = Inr (Continue (Suc k, hd0 (drop (Suc ?j) ?zs) NULL), s)"
    using zd Suc.hyps(2) expect_run [OF zd] st en nx by (simp add: walk_iter_def bnd_def)
  then have "forever (walk_iter hi) (k, ?z) s = forever (walk_iter hi) (Suc k, hd0 (drop (Suc k - lo) ?zs) NULL) s"
    using Suc.prems by (simp add: forever_Continue Suc_diff_le)
  then show ?case unfolding hd using Suc.hyps(1) [of "Suc k"] Suc.hyps(2) Suc.prems by simp
qed

lemma nodes_walk_run:
  assumes r: "rows s A {lo..<hi}" and lo: "lo < hi" "hi \<le> 2 ^ 40" and a: "a \<in> A" "start_of (vmas s) a = page lo"
  shows "nodes_walk lo hi a s = Inr ((), s)"
proof -
  have "treach (s, A)" using r by (simp add: rows_def)
  then obtain T where t: "tinv s A T" using treach_inv by force
  let ?zs = "inorder T"
  have o: "map (start_of (vmas s)) ?zs = map page [lo..<hi]" by (rule rows_order [OF r t lo(2)])
  then have "length ?zs = hi - lo" using map_eq_imp_length_eq [OF o] by (simp del: length_inorder)
  then have ne: "0 < length ?zs" using lo(1) by simp
  have "map (start_of (vmas s)) ?zs ! 0 = map page [lo..<hi] ! 0" unfolding o ..
  then have "start_of (vmas s) (?zs ! 0) = page lo" using ne lo(1) by simp
  moreover have "?zs ! 0 \<in> A" using nth_mem [OF ne] t by (simp only: tinv_def set_inorder)
  ultimately have "?zs ! 0 = a" using r a by (auto simp: rows_def bij_betw_def inj_on_def)
  then have "hd0 (drop (lo - lo) ?zs) NULL = a" using ne by (cases ?zs) auto
  then have "forever (walk_iter hi) (lo, a) s = Inr ((hi, NULL), s)" using walk_run [OF r t _ lo(2), of lo] lo(1) by simp
  then show ?thesis by (simp add: nodes_walk_def bnd_def)
qed

subsection \<open>The whole test\<close>

lemma node_pages: "node_page 0 = 0" "node_page 1 = N_NODES - 1" "node_page (N_NODES - 1) = 1" "3 < N_NODES"
  by (simp_all add: node_page_def N_NODES_def)

lemma rows_start:
  assumes "areach (s, {})" and "frame_n s \<noteq> NULL"
  shows "\<exists>s'. sp_tree_init s = Inr ((), s') \<and> rows s' {} {} \<and> openmp s' = openmp s \<and> os_alloc s' = os_alloc s"
proof -
  obtain s' where r: "sp_tree_init s = Inr ((), s')" "openmp s' = openmp s" "os_alloc s' = os_alloc s"
    by (simp add: sp_tree_init_def bnd_def upd_tree_lock_def lock_init_run)
  then have "treach (s', {})" by (intro treach.start [OF assms])
  then show ?thesis using r by (simp add: rows_def bij_betw_def)
qed

text \<open>The end of the test: two areas are removed, the rest is walked and freed.\<close>

definition nodes_rest :: "addr \<Rightarrow> ('y ast_scheme, int) prog" where
  "nodes_rest a =
     bnd (for_each [0..<2] (\<lambda>i _. sp_tree_remove vma_free (page (node_page i))) ()) (\<lambda>_.
     bnd (nodes_walk 1 (N_NODES - 1) a) (\<lambda>_. bnd (sp_tree_free vma_free) (\<lambda>_. ret 0)))"

lemma nodes_rest_run:
  assumes r: "rows s A {..<N_NODES}" and a: "a \<in> A" "start_of (vmas s) a = page 1"
  shows "if openmp s then nodes_rest a s = Inl BadLock
     else \<exists>s'. nodes_rest a s = Inr (0, s') \<and> root (vma_tree s') = NULL \<and> live s' = {} \<and> superblocks s' = Map.empty"
proof -
  have two: "[0..<2] = [0, Suc 0]" by (simp add: upt_rec)
  have np: "node_page 0 = 0" "node_page (Suc 0) = N_NODES - 1" using node_pages by simp_all
  have bad: "nodes_rest a s = Inl e" if "sp_tree_remove vma_free (page 0) s = Inl e" for e
    using that by (simp add: nodes_rest_def two np bnd_def)
  have ne: "page 1 \<noteq> page 0" "page 1 \<noteq> page (N_NODES - 1)" using page_eq [of 1 0] page_eq [of 1 "N_NODES - 1"] by (simp_all add: N_NODES_def)
  consider "openmp s" "sp_tree_remove vma_free (page 0) s = Inl BadLock"
    | z s1 where "sp_tree_remove vma_free (page 0) s = Inr ((), s1)" "rows s1 (A - {z}) ({..<N_NODES} - {0})" "openmp s1 = openmp s"
       "start_of (vmas s) z = page 0" "\<forall>a \<in> A - {z}. start_of (vmas s1) a = start_of (vmas s) a"
    using remove_run [OF r, of 0] node_pages(4) by auto
  then show ?thesis
  proof cases
    case 1
    then show ?thesis using bad by simp
  next
    case (2 z s1)
    then have "a \<noteq> z" using a(2) ne(1) by metis
    then have a1: "a \<in> A - {z}" "start_of (vmas s1) a = page 1" using a 2(5) by simp_all
    have "{..<N_NODES} - {0} \<subseteq> {..<N_NODES}" "N_NODES - 1 \<in> {..<N_NODES} - {0}" using node_pages(4) by auto
    note rm = remove_run [OF 2(2) this(2,1)]
    have set: "{..<N_NODES} - {0} - {N_NODES - 1} = {1..<N_NODES - 1}" by auto
    from rm [unfolded set] consider "openmp s" "sp_tree_remove vma_free (page (N_NODES - 1)) s1 = Inl BadLock"
      | y s2 where "sp_tree_remove vma_free (page (N_NODES - 1)) s1 = Inr ((), s2)" "rows s2 (A - {z} - {y}) {1..<N_NODES - 1}" "openmp s2 = openmp s"
       "start_of (vmas s1) y = page (N_NODES - 1)" "\<forall>a \<in> A - {z} - {y}. start_of (vmas s2) a = start_of (vmas s1) a"
      using 2(3) by auto
    then show ?thesis
    proof cases
      case 1
      then show ?thesis using 2(1) by (simp add: nodes_rest_def two np bnd_def)
    next
      case (2 y s2)
      then have "a \<noteq> y" using a1(2) ne(2) by metis
      then have a2: "a \<in> A - {z} - {y}" "start_of (vmas s2) a = page 1" using a1 2(5) by simp_all
      have w: "nodes_walk 1 (N_NODES - 1) a s2 = Inr ((), s2)"
        by (rule nodes_walk_run [OF 2(2) _ _ a2]) (simp_all add: N_NODES_def)
      have e: "nodes_rest a s = bnd (sp_tree_free vma_free) (\<lambda>_. ret 0) s2"
        using \<open>sp_tree_remove vma_free (page 0) s = Inr ((), s1)\<close> 2(1) w by (simp add: nodes_rest_def two np bnd_def)
      obtain B where B: "B = A - {z} - {y}" by blast
      have "treach (s2, B)" "B \<noteq> {}" using 2(2) a2(1) by (auto simp: rows_def B)
      then have "if openmp s2 then sp_tree_free vma_free s2 = Inl BadLock
          else \<exists>s'. sp_tree_free vma_free s2 = Inr ((), s') \<and> root (vma_tree s') = NULL \<and> live s' = {} \<and> superblocks s' = Map.empty"
        using sp_tree_free_outcome [of s2 B] by simp
      then show ?thesis unfolding e using 2(3) by (auto simp: bnd_def)
    qed
  qed
qed

text \<open>C12: the long unit test of the page table, run on the allocator of \<open>vma_alloc.c\<close> after start-up on a system
  that does not refuse memory to fewer than a hundred superblocks: without OpenMP all its assertions hold, it ends with status 0 and
  all memory has gone back to the system; with OpenMP it fails, because the allocator unsets a lock twice.\<close>

theorem page_table_test_outcome:
  assumes "areach (s, {})" and "frame_n s \<noteq> NULL" and "supplied N_NODES s"
  shows "if openmp s then nodes_test vma_alloc vma_free s = Inl BadLock
     else \<exists>s'. nodes_test vma_alloc vma_free s = Inr (0, s') \<and> root (vma_tree s') = NULL \<and> live s' = {} \<and> superblocks s' = Map.empty"
proof -
  obtain s0 where i: "sp_tree_init s = Inr ((), s0)" "rows s0 {} {}" "openmp s0 = openmp s" "os_alloc s0 = os_alloc s"
    using rows_start [OF assms(1,2)] by blast
  then have "supplied N_NODES s0" using assms(3) by (simp add: supplied_def)
  then obtain s1 A where f: "for_each [0..<N_NODES] (\<lambda>i _. nodes_insert vma_alloc i) () s0 = Inr ((), s1)" "rows s1 A {..<N_NODES}" "openmp s1 = openmp s0"
    using nodes_fill_run [OF i(2)] by blast
  obtain z s2 where l: "nodes_lowest s1 = Inr (z, s2)" "z \<in> A" "rows s2 A {..<N_NODES}" "openmp s2 = openmp s1" "start_of (vmas s2) z = page 0"
    using nodes_lowest_run [OF f(2)] by blast
  have w: "nodes_walk 0 N_NODES z s2 = Inr ((), s2)"
    using l(3) by (intro nodes_walk_run [OF _ _ _ l(2,5)]) (simp_all add: N_NODES_def lessThan_atLeast0)
  obtain a s3 where g: "for_each [0..<N_NODES] (\<lambda>i _. nodes_find i) z s2 = Inr (a, s3)" "rows s3 A {..<N_NODES}" "openmp s3 = openmp s2"
      "a \<in> A" "start_of (vmas s3) a = page 1"
    using nodes_finds_run [OF l(3) order_refl, of z] node_pages(3,4) by auto
  have e: "nodes_test vma_alloc vma_free s = nodes_rest a s3"
    using i(1) f(1) l(1) w g(1) by (simp add: nodes_test_def nodes_rest_def bnd_def)
  show ?thesis unfolding e using nodes_rest_run [OF g(2,4,5)] i(3) f(3) l(4) g(3) by simp
qed

theorem page_table_test_outcome_witness:
  "\<exists>s s'. vma_gpool_init (spacious N_NODES False) = Inr ((), s) \<and> nodes_test vma_alloc vma_free s = Inr (0, s') \<and> superblocks s' = Map.empty"
proof -
  obtain s where s: "vma_gpool_init (spacious N_NODES False) = Inr ((), s)" "openmp s = False" "frame_n s = 0x40" "os_alloc s = (\<lambda>A _. spaced N_NODES A)"
    by (simp add: gpool_init_run)
  have "areach (s, {})" by (rule areach.start [OF spacious_booted s(1)]) (simp add: N_NODES_def)
  moreover have "supplied N_NODES s" using spaced_free [where n = N_NODES] by (simp add: supplied_def s(4) N_NODES_def)
  ultimately show ?thesis using page_table_test_outcome [of s] s by auto
qed

end
