(* ===== verification/Alloc_Test.thy ===== *)
theory Alloc_Test
  imports Alloc_Supply
begin

section \<open>The unit tests of the allocator\<close>

text \<open>
  Models the program at the end of \<open>src/src/vma_alloc.c\<close> (compiled with \<open>TEST\<close>): five tests of superblocks, seven tests of
  blocks, and a long run of \<open>vma_alloc\<close> and \<open>vma_free\<close>. The parallel loops are taken in the order of their iterations, which is
  what they are without OpenMP; the array of areas is a function of the index. The counter \<open>null_ctr\<close> is never read.
\<close>

subsection \<open>Statements of the tests\<close>

text \<open>\<open>assert (v == p->f)\<close> for superblocks, for blocks, and for the head of \<open>S_gpool\<close>.\<close>

definition expect_sb :: "(superblock \<Rightarrow> 'a) \<Rightarrow> addr \<Rightarrow> 'a \<Rightarrow> ('y ast_scheme, unit) prog" where
  "expect_sb f p v = bnd (get_sb f p) (\<lambda>w. assertion (v = w))"

definition expect_blk :: "(block \<Rightarrow> 'a) \<Rightarrow> addr \<Rightarrow> 'a \<Rightarrow> ('y ast_scheme, unit) prog" where
  "expect_blk f p v = bnd (get_blk f p) (\<lambda>w. assertion (v = w))"

definition expect_head :: "addr \<Rightarrow> ('y ast_scheme, unit) prog" where
  "expect_head p = bnd (get_gp gp_head) (\<lambda>h. assertion (p = h))"

definition set_head :: "addr \<Rightarrow> ('y ast_scheme, unit) prog" where
  "set_head p = upd_gp (\<lambda>g. g\<lparr>gp_head := p\<rparr>)"

text \<open>\<open>retp = CALL_SYS_ALLOC(...); assert(SYS_ALLOC_FAIL != retp)\<close>, and \<open>LOCK_GET(&(superblock->lock), null_ctr)\<close>.\<close>

definition sys_superblock :: "('y ast_scheme, addr) prog" where
  "sys_superblock = bnd CALL_SYS_ALLOC (\<lambda>p. bnd (assertion (p \<noteq> NULL)) (\<lambda>_. ret p))"

definition null_LOCK_GET :: "addr \<Rightarrow> ('y ast_scheme, unit) prog" where
  "null_LOCK_GET p = bnd (rd_sb p) (\<lambda>b. bnd (gets openmp) (\<lambda>omp.
     bnd (liftE (LOCK_GET omp (sb_lock b, 0))) (\<lambda>(l, _). wr_sb p (b\<lparr>sb_lock := l\<rparr>))))"

subsection \<open>Superblocks\<close>

text \<open>The two nested loops of \<open>superblock_1\<close>, with their assertions on the counters.\<close>

definition vmas_iter :: "64 word \<times> addr \<Rightarrow> ('y ast_scheme, (64 word, 64 word \<times> addr) ctrl) prog" where
  "vmas_iter = (\<lambda>(jctr, vma).
     if vma \<noteq> NULL then
       bnd (assertion (jctr < BLOCK_CTR_FULL)) (\<lambda>_.
       bnd (get_field vm_next vma) (\<lambda>n. ret (Continue (jctr + 1, n))))
     else ret (Break jctr))"

definition blocks_iter :: "64 word \<times> addr \<Rightarrow> ('y ast_scheme, (64 word, 64 word \<times> addr) ctrl) prog" where
  "blocks_iter = (\<lambda>(ictr, block).
     if block \<noteq> NULL then
       bnd (assertion (ictr < SUPERBLOCK_CTR_FULL)) (\<lambda>_.
       bnd (get_blk b_head block) (\<lambda>vma.
       bnd (forever vmas_iter (0, vma)) (\<lambda>jctr.
       bnd (assertion (jctr = BLOCK_CTR_FULL)) (\<lambda>_.
       bnd (get_blk b_next block) (\<lambda>n. ret (Continue (ictr + 1, n)))))))
     else ret (Break ictr))"

definition superblock_1 :: "('y ast_scheme, unit) prog" where
  "superblock_1 =
     bnd S_superblock_get_and_lock (\<lambda>superblock.
     steps [assertion (superblock \<noteq> NULL), expect_head superblock, expect_sb sb_prev superblock NULL, expect_sb sb_next superblock NULL,
       bnd (get_sb sb_head superblock) (\<lambda>block. bnd (forever blocks_iter (0, block)) (\<lambda>ictr. assertion (ictr = SUPERBLOCK_CTR_FULL))),
       sb_LOCK_LET superblock, sb_with_lock lock_free superblock, CALL_SYS_FREE superblock, set_head NULL])"

definition superblock_2 :: "('y ast_scheme, unit) prog" where
  "superblock_2 =
     bnd sys_superblock (\<lambda>superblock.
     steps [sb_with_lock lock_init superblock, upd_sb superblock (\<lambda>b. b\<lparr>sb_prev := NULL\<rparr>), upd_sb superblock (\<lambda>b. b\<lparr>sb_next := NULL\<rparr>),
       set_head superblock, null_LOCK_GET superblock, S_superblock_unlock_and_put superblock, expect_head NULL])"

text \<open>Two superblocks on the list, the second at its head.\<close>

definition two_superblocks :: "('y ast_scheme, addr \<times> addr) prog" where
  "two_superblocks =
     bnd sys_superblock (\<lambda>superblock1.
     bnd sys_superblock (\<lambda>superblock2.
     bnd (steps [sb_with_lock lock_init superblock1, sb_with_lock lock_init superblock2,
       upd_sb superblock1 (\<lambda>b. b\<lparr>sb_prev := superblock2\<rparr>), upd_sb superblock1 (\<lambda>b. b\<lparr>sb_next := NULL\<rparr>),
       upd_sb superblock2 (\<lambda>b. b\<lparr>sb_prev := NULL\<rparr>), upd_sb superblock2 (\<lambda>b. b\<lparr>sb_next := superblock1\<rparr>),
       set_head superblock2]) (\<lambda>_. ret (superblock1, superblock2))))"

definition superblock_3 :: "('y ast_scheme, unit) prog" where
  "superblock_3 =
     bnd two_superblocks (\<lambda>(superblock1, superblock2).
     steps [null_LOCK_GET superblock2, S_superblock_unlock_and_put superblock2,
       expect_head superblock1, expect_sb sb_prev superblock1 NULL, expect_sb sb_next superblock1 NULL,
       CALL_SYS_FREE superblock1, set_head NULL])"

definition superblock_4 :: "('y ast_scheme, unit) prog" where
  "superblock_4 =
     bnd two_superblocks (\<lambda>(superblock1, superblock2).
     steps [null_LOCK_GET superblock1, S_superblock_unlock_and_put superblock1,
       expect_head superblock2, expect_sb sb_prev superblock2 NULL, expect_sb sb_next superblock2 NULL,
       CALL_SYS_FREE superblock2, set_head NULL])"

text \<open>The first assertion of \<open>superblock_5\<close> is an assignment.\<close>

definition superblock_5 :: "('y ast_scheme, unit) prog" where
  "superblock_5 =
     bnd sys_superblock (\<lambda>superblock1.
     bnd sys_superblock (\<lambda>superblock2.
     bnd sys_superblock (\<lambda>superblock3.
     steps [sb_with_lock lock_init superblock1, sb_with_lock lock_init superblock2, sb_with_lock lock_init superblock3,
       upd_sb superblock1 (\<lambda>b. b\<lparr>sb_prev := superblock2\<rparr>), upd_sb superblock1 (\<lambda>b. b\<lparr>sb_next := NULL\<rparr>),
       upd_sb superblock2 (\<lambda>b. b\<lparr>sb_prev := superblock3\<rparr>), upd_sb superblock2 (\<lambda>b. b\<lparr>sb_next := superblock1\<rparr>),
       upd_sb superblock3 (\<lambda>b. b\<lparr>sb_prev := NULL\<rparr>), upd_sb superblock3 (\<lambda>b. b\<lparr>sb_next := superblock2\<rparr>),
       set_head superblock3, null_LOCK_GET superblock2, S_superblock_unlock_and_put superblock2,
       set_head superblock3, assertion (superblock3 \<noteq> NULL), expect_sb sb_prev superblock3 NULL, expect_sb sb_next superblock3 superblock1,
       expect_sb sb_prev superblock1 superblock3, expect_sb sb_next superblock1 NULL,
       CALL_SYS_FREE superblock1, CALL_SYS_FREE superblock3, set_head NULL])))"

subsection \<open>Blocks\<close>

text \<open>\<open>assert (superblock == S_block_2superblock (block))\<close>, and the assertions that differ from the head of the list.\<close>

definition expect_superblock :: "addr \<Rightarrow> addr \<Rightarrow> ('y ast_scheme, unit) prog" where
  "expect_superblock superblock block = bnd (S_block_2superblock block) (\<lambda>p. assertion (superblock = p))"

definition not_head :: "addr \<Rightarrow> ('y ast_scheme, unit) prog" where
  "not_head p = bnd (get_gp gp_head) (\<lambda>h. assertion (p \<noteq> h))"

definition not_first :: "addr \<Rightarrow> addr \<Rightarrow> ('y ast_scheme, unit) prog" where
  "not_first superblock block = bnd (get_sb sb_head superblock) (\<lambda>h. assertion (block \<noteq> h))"

definition block_1 :: "('y ast_scheme, unit) prog" where
  "block_1 =
     bnd S_block_steal_and_lock (\<lambda>block.
     bnd (assertion (block \<noteq> NULL)) (\<lambda>_.
     bnd (S_block_2superblock block) (\<lambda>superblock.
     steps [expect_head superblock, not_first superblock block, bnd (get_blk b_next block) (expect_sb sb_head superblock),
       blk_LOCK_LET block, blk_with_lock lock_free block, sb_with_lock lock_free superblock, CALL_SYS_FREE superblock, set_head NULL])))"

text \<open>Only the first block of the superblock is left.\<close>

definition fake_last :: "addr \<Rightarrow> ('y ast_scheme, unit) prog" where
  "fake_last superblock =
     steps [upd_sb superblock (\<lambda>b. b\<lparr>sb_bctr := SUPERBLOCK_CTR_FULL - 1\<rparr>),
       bnd (get_sb sb_head superblock) (\<lambda>h. upd_blk h (\<lambda>b. b\<lparr>b_next := NULL\<rparr>))]"

definition block_2 :: "('y ast_scheme, unit) prog" where
  "block_2 =
     bnd S_superblock_get_and_lock (\<lambda>superblock.
     bnd (fake_last superblock) (\<lambda>_.
     bnd (sb_LOCK_LET superblock) (\<lambda>_.
     bnd S_block_steal_and_lock (\<lambda>block.
     steps [assertion (block \<noteq> NULL), expect_superblock superblock block, not_head superblock,
       bnd (get_sb sb_next superblock) expect_head, not_first superblock block, expect_sb sb_head superblock NULL, expect_blk b_next block NULL,
       set_head superblock, S_superblock_unlock_and_put superblock]))))"

definition block_3 :: "('y ast_scheme, unit) prog" where
  "block_3 =
     bnd S_superblock_get_and_lock (\<lambda>superblock1.
     bnd (sb_LOCK_LET superblock1) (\<lambda>_.
     bnd (set_head NULL) (\<lambda>_.
     bnd S_superblock_get_and_lock (\<lambda>superblock2.
     bnd (steps [upd_sb superblock2 (\<lambda>b. b\<lparr>sb_next := superblock1\<rparr>), upd_sb superblock1 (\<lambda>b. b\<lparr>sb_prev := superblock2\<rparr>),
       fake_last superblock2, sb_LOCK_LET superblock2]) (\<lambda>_.
     bnd S_block_steal_and_lock (\<lambda>block.
     steps [assertion (block \<noteq> NULL), expect_superblock superblock2 block, not_head superblock2, expect_head superblock1,
       expect_sb sb_prev superblock1 NULL, expect_sb sb_next superblock1 NULL, not_first superblock2 block,
       expect_sb sb_head superblock2 NULL, expect_blk b_next block NULL,
       set_head superblock2, S_superblock_unlock_and_put superblock2, set_head superblock1, S_superblock_unlock_and_put superblock1]))))))"

definition block_4 :: "('y ast_scheme, unit) prog" where
  "block_4 =
     bnd S_block_steal_and_lock (\<lambda>block.
     steps [assertion (block \<noteq> NULL), S_block_unlock_and_return block, expect_head NULL])"

definition block_5 :: "('y ast_scheme, unit) prog" where
  "block_5 =
     bnd S_block_steal_and_lock (\<lambda>block1.
     bnd (assertion (block1 \<noteq> NULL)) (\<lambda>_.
     bnd S_block_steal_and_lock (\<lambda>block2.
     bnd (assertion (block2 \<noteq> NULL)) (\<lambda>_.
     bnd (S_block_2superblock block1) (\<lambda>superblock.
     steps [expect_superblock superblock block2, S_block_unlock_and_return block1, expect_superblock superblock block2,
       expect_head superblock, expect_sb sb_next superblock NULL, expect_sb sb_head superblock block1,
       S_superblock_unlock_and_put superblock])))))"

text \<open>A superblock that looks full.\<close>

definition fake_full :: "addr \<Rightarrow> ('y ast_scheme, unit) prog" where
  "fake_full superblock =
     steps [upd_sb superblock (\<lambda>b. b\<lparr>sb_bctr := SUPERBLOCK_CTR_FULL\<rparr>), upd_sb superblock (\<lambda>b. b\<lparr>sb_head := NULL\<rparr>)]"

definition block_6 :: "('y ast_scheme, unit) prog" where
  "block_6 =
     bnd S_block_steal_and_lock (\<lambda>block.
     bnd (assertion (block \<noteq> NULL)) (\<lambda>_.
     bnd (S_block_2superblock block) (\<lambda>superblock.
     steps [set_head NULL, fake_full superblock, S_block_unlock_and_return block,
       expect_superblock superblock block, expect_head superblock, expect_sb sb_prev superblock NULL, expect_sb sb_next superblock NULL,
       expect_sb sb_head superblock block, expect_blk b_next block NULL, expect_blk b_prev block NULL,
       S_superblock_unlock_and_put superblock])))"

definition block_7 :: "('y ast_scheme, unit) prog" where
  "block_7 =
     bnd S_block_steal_and_lock (\<lambda>block.
     bnd (assertion (block \<noteq> NULL)) (\<lambda>_.
     bnd (S_block_2superblock block) (\<lambda>superblock1.
     bnd (fake_full superblock1) (\<lambda>_.
     bnd (set_head NULL) (\<lambda>_.
     bnd S_superblock_get_and_lock (\<lambda>superblock2.
     steps [sb_LOCK_LET superblock2, S_block_unlock_and_return block,
       expect_superblock superblock1 block, expect_head superblock1, expect_sb sb_prev superblock1 NULL, expect_sb sb_next superblock1 superblock2,
       expect_sb sb_head superblock1 block, expect_blk b_next block NULL, expect_blk b_prev block NULL,
       S_superblock_unlock_and_put superblock1, S_superblock_unlock_and_put superblock2, expect_head NULL]))))))"

subsection \<open>The program\<close>

definition N_ALLOC :: nat where "N_ALLOC = 2 ^ 22"

definition alloc_turn :: "nat \<Rightarrow> (nat \<Rightarrow> addr) \<Rightarrow> ('y ast_scheme, nat \<Rightarrow> addr) prog" where
  "alloc_turn i vma = bnd vma_alloc (\<lambda>z. bnd (assertion (z \<noteq> NULL)) (\<lambda>_. ret (vma(i := z))))"

definition free_turn :: "nat \<Rightarrow> (nat \<Rightarrow> addr) \<Rightarrow> ('y ast_scheme, nat \<Rightarrow> addr) prog" where
  "free_turn i vma = bnd (vma_free (vma i)) (\<lambda>_. ret vma)"

definition alloc_tests :: "('y ast_scheme, unit) prog" where
  "alloc_tests = steps [superblock_1, superblock_2, superblock_3, superblock_4, superblock_5,
     block_1, block_2, block_3, block_4, block_5, block_6, block_7]"

text \<open>\<open>vma = malloc (...)\<close>: \<open>p\<close> is what \<open>malloc\<close> answers, \<open>arr\<close> the contents of the memory.\<close>

definition vma_alloc_test_main :: "addr \<Rightarrow> (nat \<Rightarrow> addr) \<Rightarrow> ('y ast_scheme, int) prog" where
  "vma_alloc_test_main p arr =
     bnd vma_gpool_init (\<lambda>_.
     bnd alloc_tests (\<lambda>_.
     bnd (assertion (p \<noteq> NULL)) (\<lambda>_.
     bnd (for_each [0..<N_ALLOC div 2] alloc_turn arr) (\<lambda>vma.
     bnd (for_each [0..<N_ALLOC div 4] free_turn vma) (\<lambda>vma.
     bnd (for_each [N_ALLOC div 2..<N_ALLOC] alloc_turn vma) (\<lambda>vma.
     bnd (for_each [N_ALLOC div 4..<N_ALLOC] free_turn vma) (\<lambda>_.
     bnd vma_gpool_free (\<lambda>_. ret 0))))))))"

end
