(* ===== verification/Alloc_Test_Run.thy ===== *)
theory Alloc_Test_Run
  imports Alloc_Test
begin

section \<open>Runs of the unit tests of the allocator\<close>

text \<open>
  Every small test starts and ends without memory. \<open>cleanly P\<close> says this for builds without OpenMP and systems that grant three
  superblocks; under OpenMP the second test stops (\<open>alloc_tests_bad_lock\<close>).
\<close>

lemma get_sb_expect [simp]:
  "q \<in> dom m \<Longrightarrow> q \<noteq> NULL \<Longrightarrow> expect_sb sb_prev q v (aw s h b m p g) = (if v = spv m q then Inr ((), aw s h b m p g) else Inl AssertFail)"
  "q \<in> dom m \<Longrightarrow> q \<noteq> NULL \<Longrightarrow> expect_sb sb_next q v (aw s h b m p g) = (if v = snx m q then Inr ((), aw s h b m p g) else Inl AssertFail)"
  "q \<in> dom m \<Longrightarrow> q \<noteq> NULL \<Longrightarrow> expect_sb sb_head q v (aw s h b m p g) = (if v = shd m q then Inr ((), aw s h b m p g) else Inl AssertFail)"
  "k \<in> dom b \<Longrightarrow> k \<noteq> NULL \<Longrightarrow> expect_blk b_next k v (aw s h b m p g) = (if v = bnx b k then Inr ((), aw s h b m p g) else Inl AssertFail)"
  "k \<in> dom b \<Longrightarrow> k \<noteq> NULL \<Longrightarrow> expect_blk b_prev k v (aw s h b m p g) = (if v = bpv b k then Inr ((), aw s h b m p g) else Inl AssertFail)"
  "k \<in> dom b \<Longrightarrow> k \<noteq> NULL \<Longrightarrow> expect_superblock v k (aw s h b m p g) = (if v = bsb b k then Inr ((), aw s h b m p g) else Inl AssertFail)"
  "q \<in> dom m \<Longrightarrow> q \<noteq> NULL \<Longrightarrow> not_first q k (aw s h b m p g) = (if k \<noteq> shd m q then Inr ((), aw s h b m p g) else Inl AssertFail)"
  "expect_head v (aw s h b m p g) = (if v = gp_head g then Inr ((), aw s h b m p g) else Inl AssertFail)"
  "not_head v (aw s h b m p g) = (if v \<noteq> gp_head g then Inr ((), aw s h b m p g) else Inl AssertFail)"
  "set_head v (aw s h b m p g) = Inr ((), aw s h b m p (g\<lparr>gp_head := v\<rparr>))"
  by (auto simp: expect_sb_def expect_blk_def expect_head_def expect_superblock_def not_first_def not_head_def set_head_def S_block_2superblock_def bnd_def)

lemma null_LOCK_GET_w [simp]:
  "q \<in> dom m \<Longrightarrow> q \<noteq> NULL \<Longrightarrow> lock_idle (openmp s) (sll m q) \<Longrightarrow>
     null_LOCK_GET q (aw s h b m p g) = Inr ((), aw s h b (mupd q (\<lambda>v. v\<lparr>sb_lock := got (openmp s) (sll m q)\<rparr>) m) p g)"
  by (auto simp: domIff bnd_def null_LOCK_GET_def aw_def rd_sb_def wr_sb_def liftE_def LOCK_GET_run mupd_def sll_def)

definition cleanly :: "('y ast_scheme, unit) prog \<Rightarrow> bool" where
  "cleanly P \<longleftrightarrow> (\<forall>s mm g. \<not> openmp s \<and> os_contract s \<and> supplied 3 s \<and> gp_head g = NULL \<longrightarrow>
     (\<exists>n g'. P (aw s Map.empty Map.empty Map.empty mm g) = Inr ((), aw (s\<lparr>os_calls := n\<rparr>) Map.empty Map.empty Map.empty mm g') \<and> gp_head g' = NULL))"

lemma calls_sel [simp]:
  "openmp (s\<lparr>os_calls := n\<rparr>) = openmp s" "os_alloc (s\<lparr>os_calls := n\<rparr>) = os_alloc s" "os_contract (s\<lparr>os_calls := n\<rparr>) = os_contract s"
  "supplied k (s\<lparr>os_calls := n\<rparr>) = supplied k s" "called (s\<lparr>os_calls := n\<rparr>) = s\<lparr>os_calls := Suc n\<rparr>"
  "self (s\<lparr>os_calls := n\<rparr>) = self s" "S_init (s\<lparr>os_calls := n\<rparr>) = S_init s" "os_blk (s\<lparr>os_calls := n\<rparr>) = os_blk s"
  by (simp_all add: os_contract_def supplied_def called_def)

lemma called_more [simp]: "os_contract (called s) = os_contract s" "supplied k (called s) = supplied k s" "os_blk (called s) = os_blk s"
  by (simp_all add: called_def)

lemma called_calls: "called s = s\<lparr>os_calls := Suc (os_calls s)\<rparr>"
  by (simp add: called_def)

lemma cleanlyI:
  assumes "\<And>s mm g. \<not> openmp s \<Longrightarrow> os_contract s \<Longrightarrow> supplied 3 s \<Longrightarrow> gp_head g = NULL \<Longrightarrow>
     \<exists>n g'. P (aw s Map.empty Map.empty Map.empty mm g) = Inr ((), aw (s\<lparr>os_calls := n\<rparr>) Map.empty Map.empty Map.empty mm g') \<and> gp_head g' = NULL"
  shows "cleanly P"
  using assms by (simp add: cleanly_def)

lemma cleanly_steps: "(\<And>P. P \<in> set ps \<Longrightarrow> cleanly P) \<Longrightarrow> cleanly (steps ps)"
proof (induction ps)
  case Nil
  have "s\<lparr>os_calls := os_calls s\<rparr> = s" for s :: "'a ast_scheme" by simp
  then show ?case unfolding cleanly_def by (metis ret_run steps_simps(1))
next
  case (Cons P ps)
  then have c: "cleanly P" "cleanly (steps ps)" by simp_all
  show ?case
  proof (rule cleanlyI)
    fix s :: "'a ast_scheme" and mm :: "addr \<rightharpoonup> mpool" and g :: gpool
    assume a: "\<not> openmp s" "os_contract s" "supplied 3 s" "gp_head g = NULL"
    then obtain n g1 where 1: "P (aw s Map.empty Map.empty Map.empty mm g) = Inr ((), aw (s\<lparr>os_calls := n\<rparr>) Map.empty Map.empty Map.empty mm g1)" "gp_head g1 = NULL"
      using c(1) unfolding cleanly_def by blast
    obtain k g2 where 2: "steps ps (aw (s\<lparr>os_calls := n\<rparr>) Map.empty Map.empty Map.empty mm g1) =
        Inr ((), aw (s\<lparr>os_calls := n, os_calls := k\<rparr>) Map.empty Map.empty Map.empty mm g2)" "gp_head g2 = NULL"
      using c(2) a 1(2) unfolding cleanly_def by (metis calls_sel(1,3,4))
    then show "\<exists>n g'. steps (P # ps) (aw s Map.empty Map.empty Map.empty mm g) = Inr ((), aw (s\<lparr>os_calls := n\<rparr>) Map.empty Map.empty Map.empty mm g') \<and> gp_head g' = NULL"
      using 1(1) by (auto simp: bnd_def)
  qed
qed

subsection \<open>Superblocks\<close>

text \<open>Memory is the superblocks held, apart from each other.\<close>

definition store :: "heap \<Rightarrow> (addr \<rightharpoonup> block) \<Rightarrow> (addr \<rightharpoonup> superblock) \<Rightarrow> bool" where
  "store h bm sm \<longleftrightarrow> dom bm = {b. \<exists>p \<in> dom sm. block_at p b} \<and> dom h = {a. \<exists>p \<in> dom sm. vma_at p a} \<and>
     (\<forall>p \<in> dom sm. placed p) \<and> (\<forall>p \<in> dom sm. \<forall>q \<in> dom sm. p \<noteq> q \<longrightarrow> apart p q)"

lemma store_none: "store Map.empty Map.empty Map.empty"
  by (simp add: store_def)

lemma store_gone: "store h bm sm \<Longrightarrow> dom sm = {} \<Longrightarrow> h = Map.empty \<and> bm = Map.empty \<and> sm = Map.empty"
  by (auto simp: store_def)

lemma store_add:
  assumes "store h bm sm" and "placed p" and "\<And>q. q \<in> dom sm \<Longrightarrow> apart p q"
    and "dom h' = dom h \<union> {a. vma_at p a}" and "dom bm' = dom bm \<union> {b. block_at p b}" and "dom sm' = insert p (dom sm)"
  shows "store h' bm' sm'"
  using assms apart_sym by (auto simp: store_def)

lemma store_same: "store h bm sm \<Longrightarrow> dom h' = dom h \<Longrightarrow> dom bm' = dom bm \<Longrightarrow> dom sm' = dom sm \<Longrightarrow> store h' bm' sm'"
  by (simp add: store_def)

lemma store_free:
  assumes st: "store h bm sm" and p: "p \<in> dom sm" and d: "dom sm' = dom sm - {p}"
  shows "store (\<lambda>a. if vma_at p a then None else h a) (\<lambda>b. if block_at p b then None else bm b) sm'"
proof -
  have n: "\<not> block_at p b" "\<not> vma_at p a" if "q \<in> dom sm" "q \<noteq> p" "block_at q b" "vma_at q a" for q a b
    using apart_blocks apart_areas st p that unfolding store_def by metis+
  have "dom (\<lambda>b. if block_at p b then None else bm b) = dom bm - {b. block_at p b}" "dom (\<lambda>a. if vma_at p a then None else h a) = dom h - {a. vma_at p a}"
    by (auto simp: domIff split: if_splits)
  then show ?thesis using st d n apart_blocks apart_areas p unfolding store_def by (auto; metis)
qed

lemma storeD:
  assumes "store h bm sm" and "p \<in> dom sm"
  shows "placed p" "p \<noteq> NULL" "{b. block_at p b} \<subseteq> dom bm" "{a. vma_at p a} \<subseteq> dom h"
  using assms by (auto simp: store_def placed_def)

text \<open>A superblock from the system, and one given back.\<close>

lemma sys_superblock_run:
  assumes "os_contract s" and "supplied n s" and "store h bm sm" and "finite (dom sm)" and "card (dom sm) < n"
  obtains p h' bm' sm' where "p \<notin> dom sm" "p \<noteq> NULL" "store h' bm' sm'" "dom sm' = insert p (dom sm)" "\<And>q. q \<noteq> p \<Longrightarrow> sm' q = sm q"
    "sys_superblock (aw s h bm sm mm g) = Inr (p, aw (called s) h' bm' sm' mm g)" "\<And>b. block_at p b \<Longrightarrow> bm' b = Some (os_blk s b)"
proof -
  define p where "p = os_alloc s (dom sm) (os_calls s)"
  let ?h = "\<lambda>a. if vma_at p a then Some (os_vma s a) else h a" and ?b = "\<lambda>a. if block_at p a then Some (os_blk s a) else bm a"
  have p0: "p \<noteq> NULL" using assms(2,4,5) by (simp add: supplied_def p_def)
  note pc = os_contractD [OF assms(1) p_def p0]
  have d: "dom ?h = dom h \<union> {a. vma_at p a}" "dom ?b = dom bm \<union> {b. block_at p b}" by (auto simp: domIff split: if_splits)
  have ds: "dom (sm(p \<mapsto> os_sb s p)) = insert p (dom sm)" by (rule dom_fun_upd [THEN trans]) simp
  have st: "store ?h ?b (sm(p \<mapsto> os_sb s p))" using store_add [OF assms(3) pc(1,2) d ds] .
  have r: "sys_superblock (aw s h bm sm mm g) = Inr (p, aw (called s) ?h ?b (sm(p \<mapsto> os_sb s p)) mm g)"
    using p0 p_def [symmetric] by (simp add: sys_superblock_def bnd_def CALL_SYS_ALLOC_w)
  show thesis by (rule that [OF pc(4) p0 st ds _ r]) simp_all
qed

definition put_out :: "addr \<Rightarrow> addr \<Rightarrow> (addr \<rightharpoonup> superblock) \<Rightarrow> (addr \<rightharpoonup> superblock) \<Rightarrow> addr \<Rightarrow> bool" where
  "put_out p gh sm sm' gh' \<longleftrightarrow> dom sm' = dom sm - {p} \<and>
     (\<forall>q. q \<noteq> p \<longrightarrow> snx sm' q = (if gh \<noteq> p \<and> q = spv sm p then snx sm p else snx sm q)) \<and>
     (\<forall>q. q \<noteq> p \<longrightarrow> spv sm' q = (if snx sm p \<noteq> NULL \<and> q = snx sm p then spv sm p else spv sm q)) \<and>
     gh' = (if gh = p then snx sm p else gh)"

lemma unlink_run:
  assumes o: "\<not> openmp s" and st: "store hp bm sm" and p: "p \<in> dom sm"
    and h: "gp_head g \<noteq> p \<Longrightarrow> spv sm p \<in> dom sm \<and> spv sm p \<noteq> p" and n: "snx sm p \<noteq> NULL \<Longrightarrow> snx sm p \<in> dom sm \<and> snx sm p \<noteq> p"
  obtains h' bm' sm' g' where "S_superblock_unlock_and_put p (aw s hp bm sm mm g) = Inr ((), aw s h' bm' sm' mm g')"
     "store h' bm' sm'" "put_out p (gp_head g) sm sm' (gp_head g')" "\<And>b. \<not> block_at p b \<Longrightarrow> bm' b = bm b"
proof -
  note pd = storeD [OF st p]
  have v: "snx (m(p := None)) q = snx m q \<and> spv (m(p := None)) q = spv m q" if "q \<noteq> p" for m q using that by (simp add: snx_def spv_def)
  have hh: "gp_head g \<noteq> p \<longrightarrow> spv sm p \<in> dom sm \<and> spv sm p \<noteq> p \<and> spv sm p \<noteq> NULL" using h storeD(2) [OF st] by blast
  have nn: "snx sm p \<noteq> NULL \<longrightarrow> snx sm p \<in> dom sm \<and> snx sm p \<noteq> p" using n by blast
  obtain sm' g' where r: "S_superblock_unlock_and_put p (aw s hp bm sm mm g) =
       Inr ((), aw s (\<lambda>a. if vma_at p a then None else hp a) (\<lambda>b. if block_at p b then None else bm b) (sm'(p := None)) mm g')"
     "dom sm' = dom sm" "snx sm' = (if gp_head g = p then snx sm else (snx sm)(spv sm p := snx sm p))"
     "spv sm' = (if snx sm p = NULL then spv sm else (spv sm)(snx sm p := spv sm p))"
     "gp_head g' = (if gp_head g = p then snx sm p else gp_head g)"
    using put_views [OF o pd(1,3) p hh nn, of hp mm] by blast
  have d: "dom (sm'(p := None)) = dom sm - {p}" using r(2) by auto
  have "put_out p (gp_head g) sm (sm'(p := None)) (gp_head g')" by (simp add: put_out_def d v r(2-5))
  then show thesis using that [OF r(1) store_free [OF st p d]] by simp
qed

lemma sys_free_run:
  assumes "store h bm sm" and "p \<in> dom sm"
  obtains h' bm' where "CALL_SYS_FREE p (aw s h bm sm mm g) = Inr ((), aw s h' bm' (sm(p := None)) mm g)" "store h' bm' (sm(p := None))"
  using store_free [OF assms, of "sm(p := None)"] by (simp add: SYS_FREE_w)

text \<open>The end of a test.\<close>

lemma test_end:
  assumes "P (aw s Map.empty Map.empty Map.empty mm g) = Inr ((), aw t h bm sm mm g')" and "store h bm sm" and "dom sm = {}"
    and "gp_head g' = NULL" and "t = s\<lparr>os_calls := n\<rparr>"
  shows "\<exists>n g'. P (aw s Map.empty Map.empty Map.empty mm g) = Inr ((), aw (s\<lparr>os_calls := n\<rparr>) Map.empty Map.empty Map.empty mm g') \<and> gp_head g' = NULL"
proof -
  have "h = Map.empty" "bm = Map.empty" "sm = Map.empty" using store_gone [OF assms(2,3)] by blast+
  then show ?thesis using assms(1,4,5) by blast
qed

lemma superblock_2_cleanly: "cleanly superblock_2"
proof (rule cleanlyI)
  fix s :: "'a ast_scheme" and mm :: "addr \<rightharpoonup> mpool" and g :: gpool
  assume a: "\<not> openmp s" "os_contract s" "supplied 3 s" "gp_head g = NULL"
  obtain p h1 b1 m1 where 1: "p \<noteq> NULL" "store h1 b1 m1" "dom m1 = {p}"
      "sys_superblock (aw s Map.empty Map.empty Map.empty mm g) = Inr (p, aw (called s) h1 b1 m1 mm g)"
    by (rule sys_superblock_run [OF a(2,3) store_none]) auto
  define l :: "(addr \<rightharpoonup> superblock) \<Rightarrow> (addr \<rightharpoonup> superblock)" where "l = (\<lambda>m. mupd p (\<lambda>v. v\<lparr>sb_lock := sll m p\<rparr>) m)"
  define m2 where "m2 = l (mupd p (\<lambda>b. b\<lparr>sb_next := NULL\<rparr>) (mupd p (\<lambda>b. b\<lparr>sb_prev := NULL\<rparr>) (l m1)))"
  let ?g = "g\<lparr>gp_head := p\<rparr>"
  have d: "dom m2 = {p}" "snx m2 p = NULL" using 1(3) by (simp_all add: m2_def l_def)
  have st: "store h1 b1 m2" using 1(2) by (rule store_same) (simp_all add: d 1(3))
  have os: "\<not> openmp (called s)" using a(1) by simp
  obtain h3 b3 m3 g3 where r: "S_superblock_unlock_and_put p (aw (called s) h1 b1 m2 mm ?g) = Inr ((), aw (called s) h3 b3 m3 mm g3)"
      "store h3 b3 m3" "put_out p p m2 m3 (gp_head g3)"
    by (rule unlink_run [OF os st, of p ?g mm]) (use d in auto)
  then have e: "dom m3 = {}" "gp_head g3 = NULL" using d by (simp_all add: put_out_def)
  have "superblock_2 (aw s Map.empty Map.empty Map.empty mm g) = Inr ((), aw (called s) h3 b3 m3 mm g3)"
    using a(1) 1(1,3,4) r(1) e by (simp add: superblock_2_def bnd_def released_def got_def lock_idle_def m2_def l_def)
  then show "\<exists>n g'. superblock_2 (aw s Map.empty Map.empty Map.empty mm g) = Inr ((), aw (s\<lparr>os_calls := n\<rparr>) Map.empty Map.empty Map.empty mm g') \<and> gp_head g' = NULL"
    by (rule test_end [OF _ r(2) e called_calls])
qed

text \<open>Two superblocks on the list.\<close>

lemma two_superblocks_run:
  assumes a: "\<not> openmp s" "os_contract s" "supplied 3 s"
  obtains p q h bm sm where "two_superblocks (aw s Map.empty Map.empty Map.empty mm g) =
      Inr ((p, q), aw (called (called s)) h bm sm mm (g\<lparr>gp_head := q\<rparr>))"
    "store h bm sm" "dom sm = {p, q}" "p \<noteq> q" "p \<noteq> NULL" "q \<noteq> NULL" "spv sm p = q" "snx sm p = NULL" "spv sm q = NULL" "snx sm q = p"
proof -
  obtain p h1 b1 m1 where 1: "p \<noteq> NULL" "store h1 b1 m1" "dom m1 = {p}"
      "sys_superblock (aw s Map.empty Map.empty Map.empty mm g) = Inr (p, aw (called s) h1 b1 m1 mm g)"
    by (rule sys_superblock_run [OF a(2,3) store_none]) auto
  have c: "os_contract (called s)" "supplied 3 (called s)" using a by simp_all
  obtain q h2 b2 m2 where 2: "q \<noteq> p" "q \<noteq> NULL" "store h2 b2 m2" "dom m2 = {p, q}"
      "sys_superblock (aw (called s) h1 b1 m1 mm g) = Inr (q, aw (called (called s)) h2 b2 m2 mm g)"
    by (rule sys_superblock_run [OF c 1(2), where mm = mm and g = g]) (auto simp: 1(3))
  define l :: "addr \<Rightarrow> (addr \<rightharpoonup> superblock) \<Rightarrow> (addr \<rightharpoonup> superblock)" where "l = (\<lambda>p m. mupd p (\<lambda>v. v\<lparr>sb_lock := sll m p\<rparr>) m)"
  define m3 where "m3 = mupd q (\<lambda>b. b\<lparr>sb_next := p\<rparr>) (mupd q (\<lambda>b. b\<lparr>sb_prev := NULL\<rparr>)
    (mupd p (\<lambda>b. b\<lparr>sb_next := NULL\<rparr>) (mupd p (\<lambda>b. b\<lparr>sb_prev := q\<rparr>) (l q (l p m2)))))"
  have d: "dom m3 = {p, q}" by (auto simp: m3_def l_def 2(4))
  have "two_superblocks (aw s Map.empty Map.empty Map.empty mm g) = Inr ((p, q), aw (called (called s)) h2 b2 m3 mm (g\<lparr>gp_head := q\<rparr>))"
    using a(1) 1(1,3,4) 2 by (simp add: two_superblocks_def bnd_def released_def m3_def l_def)
  moreover have "store h2 b2 m3" using 2(3) by (rule store_same) (simp_all add: d 2(4))
  moreover have "spv m3 p = q" "snx m3 p = NULL" "spv m3 q = NULL" "snx m3 q = p" using 2(1) by (simp_all add: m3_def)
  ultimately show thesis using that d 1(1) 2(2) not_sym [OF 2(1)] by blast
qed

lemma superblock_3_cleanly: "cleanly superblock_3"
proof (rule cleanlyI)
  fix s :: "'a ast_scheme" and mm :: "addr \<rightharpoonup> mpool" and g :: gpool
  assume a: "\<not> openmp s" "os_contract s" "supplied 3 s" "gp_head g = NULL"
  obtain p q h bm sm where 1: "two_superblocks (aw s Map.empty Map.empty Map.empty mm g) =
      Inr ((p, q), aw (called (called s)) h bm sm mm (g\<lparr>gp_head := q\<rparr>))"
    "store h bm sm" "dom sm = {p, q}" "p \<noteq> q" "p \<noteq> NULL" "q \<noteq> NULL" "spv sm p = q" "snx sm p = NULL" "spv sm q = NULL" "snx sm q = p"
    by (rule two_superblocks_run [OF a(1-3)])
  let ?m = "mupd q (\<lambda>v. v\<lparr>sb_lock := sll sm q\<rparr>) sm" and ?s = "called (called s)" and ?g = "g\<lparr>gp_head := q\<rparr>"
  have os: "\<not> openmp ?s" using a(1) by simp
  have st: "store h bm ?m" using 1(2) by (rule store_same) (auto simp: 1(3))
  obtain h3 b3 m3 g3 where r: "S_superblock_unlock_and_put q (aw ?s h bm ?m mm ?g) = Inr ((), aw ?s h3 b3 m3 mm g3)"
      "store h3 b3 m3" "put_out q q ?m m3 (gp_head g3)"
    by (rule unlink_run [OF os st, of q ?g mm]) (use 1 in auto)
  have e: "dom m3 = {p}" "gp_head g3 = p" "snx m3 p = NULL" "spv m3 p = NULL" using r(3) 1 by (auto simp: put_out_def)
  have pd: "p \<in> dom m3" by (simp add: e)
  obtain h4 b4 where f: "CALL_SYS_FREE p (aw ?s h3 b3 m3 mm g3) = Inr ((), aw ?s h4 b4 (m3(p := None)) mm g3)" "store h4 b4 (m3(p := None))"
    by (rule sys_free_run [OF r(2) pd])
  have "superblock_3 (aw s Map.empty Map.empty Map.empty mm g) = Inr ((), aw ?s h4 b4 (m3(p := None)) mm (g3\<lparr>gp_head := NULL\<rparr>))"
    using a(1) 1 r(1) e f(1) by (simp add: superblock_3_def bnd_def got_def lock_idle_def)
  then show "\<exists>n g'. superblock_3 (aw s Map.empty Map.empty Map.empty mm g) = Inr ((), aw (s\<lparr>os_calls := n\<rparr>) Map.empty Map.empty Map.empty mm g') \<and> gp_head g' = NULL"
    by (rule test_end [OF _ f(2)]) (simp_all add: e called_calls)
qed

lemma superblock_4_cleanly: "cleanly superblock_4"
proof (rule cleanlyI)
  fix s :: "'a ast_scheme" and mm :: "addr \<rightharpoonup> mpool" and g :: gpool
  assume a: "\<not> openmp s" "os_contract s" "supplied 3 s" "gp_head g = NULL"
  obtain p q h bm sm where 1: "two_superblocks (aw s Map.empty Map.empty Map.empty mm g) =
      Inr ((p, q), aw (called (called s)) h bm sm mm (g\<lparr>gp_head := q\<rparr>))"
    "store h bm sm" "dom sm = {p, q}" "p \<noteq> q" "p \<noteq> NULL" "q \<noteq> NULL" "spv sm p = q" "snx sm p = NULL" "spv sm q = NULL" "snx sm q = p"
    by (rule two_superblocks_run [OF a(1-3)])
  let ?m = "mupd p (\<lambda>v. v\<lparr>sb_lock := sll sm p\<rparr>) sm" and ?s = "called (called s)" and ?g = "g\<lparr>gp_head := q\<rparr>"
  have os: "\<not> openmp ?s" using a(1) by simp
  have st: "store h bm ?m" using 1(2) by (rule store_same) (auto simp: 1(3))
  obtain h3 b3 m3 g3 where r: "S_superblock_unlock_and_put p (aw ?s h bm ?m mm ?g) = Inr ((), aw ?s h3 b3 m3 mm g3)"
      "store h3 b3 m3" "put_out p q ?m m3 (gp_head g3)"
    by (rule unlink_run [OF os st, of p ?g mm]) (use 1 in auto)
  have e: "dom m3 = {q}" "gp_head g3 = q" "snx m3 q = NULL" "spv m3 q = NULL" using r(3) 1 by (auto simp: put_out_def)
  have qd: "q \<in> dom m3" by (simp add: e)
  obtain h4 b4 where f: "CALL_SYS_FREE q (aw ?s h3 b3 m3 mm g3) = Inr ((), aw ?s h4 b4 (m3(q := None)) mm g3)" "store h4 b4 (m3(q := None))"
    by (rule sys_free_run [OF r(2) qd])
  have "superblock_4 (aw s Map.empty Map.empty Map.empty mm g) = Inr ((), aw ?s h4 b4 (m3(q := None)) mm (g3\<lparr>gp_head := NULL\<rparr>))"
    using a(1) 1 r(1) e f(1) by (simp add: superblock_4_def bnd_def got_def lock_idle_def)
  then show "\<exists>n g'. superblock_4 (aw s Map.empty Map.empty Map.empty mm g) = Inr ((), aw (s\<lparr>os_calls := n\<rparr>) Map.empty Map.empty Map.empty mm g') \<and> gp_head g' = NULL"
    by (rule test_end [OF _ f(2)]) (simp_all add: e called_calls)
qed

lemma superblock_5_cleanly: "cleanly superblock_5"
proof (rule cleanlyI)
  fix s :: "'a ast_scheme" and mm :: "addr \<rightharpoonup> mpool" and g :: gpool
  assume a: "\<not> openmp s" "os_contract s" "supplied 3 s" "gp_head g = NULL"
  define u where "u = called (called (called s))"
  obtain p h1 b1 m1 where 1: "p \<noteq> NULL" "store h1 b1 m1" "dom m1 = {p}"
      "sys_superblock (aw s Map.empty Map.empty Map.empty mm g) = Inr (p, aw (called s) h1 b1 m1 mm g)"
    by (rule sys_superblock_run [OF a(2,3) store_none]) auto
  have c: "os_contract (called s)" "supplied 3 (called s)" "os_contract (called (called s))" "supplied 3 (called (called s))" using a by simp_all
  obtain q h2 b2 m2 where 2: "q \<noteq> p" "q \<noteq> NULL" "store h2 b2 m2" "dom m2 = {p, q}"
      "sys_superblock (aw (called s) h1 b1 m1 mm g) = Inr (q, aw (called (called s)) h2 b2 m2 mm g)"
    by (rule sys_superblock_run [OF c(1,2) 1(2), where mm = mm and g = g]) (auto simp: 1(3))
  obtain r h3 b3 m3 where 3: "r \<noteq> p" "r \<noteq> q" "r \<noteq> NULL" "store h3 b3 m3" "dom m3 = {p, q, r}"
      "sys_superblock (aw (called (called s)) h2 b2 m2 mm g) = Inr (r, aw u h3 b3 m3 mm g)"
    by (rule sys_superblock_run [OF c(3,4) 2(3), where mm = mm and g = g]) (auto simp: 2(4) 2(1) [THEN not_sym] card_insert_if u_def)
  define l :: "addr \<Rightarrow> (addr \<rightharpoonup> superblock) \<Rightarrow> (addr \<rightharpoonup> superblock)" where "l = (\<lambda>p m. mupd p (\<lambda>v. v\<lparr>sb_lock := sll m p\<rparr>) m)"
  define m4 where "m4 = l q (mupd r (\<lambda>b. b\<lparr>sb_next := q\<rparr>) (mupd r (\<lambda>b. b\<lparr>sb_prev := NULL\<rparr>) (mupd q (\<lambda>b. b\<lparr>sb_next := p\<rparr>) (mupd q (\<lambda>b. b\<lparr>sb_prev := r\<rparr>)
    (mupd p (\<lambda>b. b\<lparr>sb_next := NULL\<rparr>) (mupd p (\<lambda>b. b\<lparr>sb_prev := q\<rparr>) (l r (l q (l p m3)))))))))"
  note ne = 2(1) 3(1,2) 2(1) [THEN not_sym] 3(1,2) [THEN not_sym]
  have d: "dom m4 = {p, q, r}" "spv m4 p = q" "snx m4 p = NULL" "spv m4 q = r" "snx m4 q = p" "spv m4 r = NULL" "snx m4 r = q"
    using ne by (auto simp: m4_def l_def 3(5))
  have st: "store h3 b3 m4" using 3(4) by (rule store_same) (simp_all add: d 3(5))
  let ?g = "g\<lparr>gp_head := r\<rparr>"
  have os: "\<not> openmp u" using a(1) by (simp add: u_def)
  obtain h5 b5 m5 g5 where x: "S_superblock_unlock_and_put q (aw u h3 b3 m4 mm ?g) = Inr ((), aw u h5 b5 m5 mm g5)"
      "store h5 b5 m5" "put_out q r m4 m5 (gp_head g5)"
    by (rule unlink_run [OF os st, of q ?g mm]) (use d ne in auto)
  have e: "dom m5 = {p, r}" "snx m5 r = p" "spv m5 r = NULL" "snx m5 p = NULL" "spv m5 p = r" using x(3) d ne 1(1) by (auto simp: put_out_def)
  have pd: "p \<in> dom m5" by (simp add: e)
  obtain h6 b6 where f: "CALL_SYS_FREE p (aw u h5 b5 m5 mm (g5\<lparr>gp_head := r\<rparr>)) = Inr ((), aw u h6 b6 (m5(p := None)) mm (g5\<lparr>gp_head := r\<rparr>))"
     "store h6 b6 (m5(p := None))" by (rule sys_free_run [OF x(2) pd])
  have rd: "r \<in> dom (m5(p := None))" using e ne by simp
  obtain h7 b7 where y: "CALL_SYS_FREE r (aw u h6 b6 (m5(p := None)) mm (g5\<lparr>gp_head := r\<rparr>)) = Inr ((), aw u h7 b7 (m5(p := None, r := None)) mm (g5\<lparr>gp_head := r\<rparr>))"
     "store h7 b7 (m5(p := None, r := None))" by (rule sys_free_run [OF f(2) rd])
  have "superblock_5 (aw s Map.empty Map.empty Map.empty mm g) = Inr ((), aw u h7 b7 (m5(p := None, r := None)) mm (g5\<lparr>gp_head := NULL\<rparr>))"
    using os ne 1(1,3,4) 2(2,4,5) 3(3,5,6) x(1) e f(1) y(1) unfolding m4_def l_def
    by (simp add: superblock_5_def bnd_def got_def released_def lock_idle_def insert_absorb)
  then show "\<exists>n g'. superblock_5 (aw s Map.empty Map.empty Map.empty mm g) = Inr ((), aw (s\<lparr>os_calls := n\<rparr>) Map.empty Map.empty Map.empty mm g') \<and> gp_head g' = NULL"
    by (rule test_end [OF _ y(2)]) (auto simp: e called_calls u_def)
qed

text \<open>A superblock from \<open>S_superblock_get_and_lock\<close>, with its blocks set up.\<close>

definition new_sb :: "bool \<Rightarrow> addr \<Rightarrow> heap \<Rightarrow> (addr \<rightharpoonup> block) \<Rightarrow> (addr \<rightharpoonup> superblock) \<Rightarrow> bool" where
  "new_sb omp p h bm sm \<longleftrightarrow> (\<forall>i<63. fresh_block omp h bm p i) \<and> bpv bm (nth_block p 0) = NULL \<and>
     sbc sm p = 0 \<and> shd sm p = nth_block p 0 \<and> snx sm p = NULL \<and> spv sm p = NULL \<and> lock_held omp (sll sm p)"

lemma get_new_run:
  assumes "os_contract s" and "supplied n s" and "store h bm sm" and "finite (dom sm)" and "card (dom sm) < n" and "gp_head g = NULL"
  obtains p h' bm' sm' where "p \<notin> dom sm" "p \<noteq> NULL" "store h' bm' sm'" "dom sm' = insert p (dom sm)" "\<And>q. q \<noteq> p \<Longrightarrow> sm' q = sm q"
    "S_superblock_get_and_lock (aw s h bm sm mm g) = Inr (p, aw (called s) h' bm' sm' mm (g\<lparr>gp_actr := gp_actr g + 1, gp_head := p\<rparr>))"
    "\<And>b. \<not> block_at p b \<Longrightarrow> bm' b = bm b" "new_sb (openmp s) p h' bm' sm'"
proof -
  define p where "p = os_alloc s (dom sm) (os_calls s)"
  have p0: "p \<noteq> NULL" using assms(2,4,5) by (simp add: supplied_def p_def)
  note pc = os_contractD [OF assms(1) p_def p0]
  obtain h' bm' sm' where r: "S_superblock_get_and_lock (aw s h bm sm mm g) = Inr (p, aw (called s) h' bm' sm' mm (g\<lparr>gp_actr := gp_actr g + 1, gp_head := p\<rparr>))"
    and d: "dom h' = dom h \<union> {a. vma_at p a}" "dom bm' = dom bm \<union> {b. block_at p b}" "dom sm' = insert p (dom sm)"
    and o: "\<forall>b. \<not> block_at p b \<longrightarrow> bm' b = bm b" "\<forall>q. q \<noteq> p \<longrightarrow> sm' q = sm q" and n: "new_sb (openmp s) p h' bm' sm'"
    using get_and_lock_new [OF assms(6) p_def p0 pc(1), of h bm mm] unfolding new_sb_def by blast
  have st: "store h' bm' sm'" by (rule store_add [OF assms(3) pc(1,2) d])
  show thesis by (rule that [OF pc(4) p0 st d(3) _ r _ n]) (use o in blast)+
qed

lemma new_sbD:
  assumes "new_sb omp p h bm sm" and "i < 63"
  shows "bnx bm (nth_block p i) = (if Suc i < 63 then nth_block p (Suc i) else NULL)" "bsb bm (nth_block p i) = p"
    "bhd bm (nth_block p i) = nth_area (nth_block p i) 0" "seg (fnx h) (map (nth_area (nth_block p i)) [0..<56])" "lock_idle omp (bll bm (nth_block p i))"
  using assms by (simp_all add: new_sb_def fresh_block_def Let_def)

text \<open>The loops of \<open>superblock_1\<close>.\<close>

lemma of_nat_less_64: "n < 100 \<Longrightarrow> (of_nat n :: 64 word) < of_nat m \<longleftrightarrow> n < m" if "m < 100" for n m
proof -
  have "unat (of_nat k :: 64 word) = k" if "k < 100" for k :: nat
  proof -
    have "k < 2 ^ 64" using that by simp
    moreover have "unat (of_nat k :: 64 word) = k mod 2 ^ 64" by (simp only: unat_of_nat) simp
    ultimately show ?thesis by (simp only: mod_less)
  qed
  then show "n < 100 \<Longrightarrow> (of_nat n :: 64 word) < of_nat m \<longleftrightarrow> n < m" using that by (simp add: word_less_nat_alt)
qed

lemma vmas_loop:
  "seg (fnx h) xs \<Longrightarrow> set xs \<subseteq> dom h \<Longrightarrow> NULL \<notin> set xs \<Longrightarrow> n + length xs = 56 \<Longrightarrow>
   forever vmas_iter (of_nat n, hd0 xs NULL) (aw s h bm sm mm g) = Inr (56, aw s h bm sm mm g)"
proof (induction xs arbitrary: n)
  case Nil
  then show ?case by (intro forever_Break) (simp add: vmas_iter_def)
next
  case (Cons x xs)
  then have x: "x \<in> dom h" "x \<noteq> NULL" "fnx h x = hd0 xs NULL" "seg (fnx h) xs" by simp_all
  have lt: "(of_nat n :: 64 word) < 56" using of_nat_less_64 [of 56 n] Cons.prems(4) by simp
  have "vmas_iter (of_nat n, x) (aw s h bm sm mm g) = Inr (Continue (of_nat (Suc n), hd0 xs NULL), aw s h bm sm mm g)"
    using x(1-3) lt by (simp add: vmas_iter_def bnd_def full_counts add.commute)
  then show ?case using Cons.IH [OF x(4), of "Suc n"] Cons.prems by (simp add: forever_Continue)
qed

lemma blocks_loop:
  assumes st: "store h bm sm" and p: "p \<in> dom sm" and n: "new_sb omp p h bm sm"
  shows "i \<le> 63 \<Longrightarrow> forever blocks_iter (of_nat i, if i < 63 then nth_block p i else NULL) (aw s h bm sm mm g) = Inr (63, aw s h bm sm mm g)"
proof (induction "63 - i" arbitrary: i)
  case 0
  then show ?case by (intro forever_Break) (simp add: blocks_iter_def)
next
  case (Suc k)
  then have i: "i < 63" by simp
  note pd = storeD [OF st p]
  let ?k = "nth_block p i" and ?st = "aw s h bm sm mm g"
  have k: "?k \<in> dom bm" "?k \<noteq> NULL" using pd(3) nth_block_at [OF i] unat_nth_block [OF pd(1) i] by auto
  have "set (map (nth_area ?k) [0..<56]) \<subseteq> {a. vma_at p a}" using areas_of_block [OF nth_block_at [OF i]] by (auto simp: nth_area_in)
  then have ar: "set (map (nth_area ?k) [0..<56]) \<subseteq> dom h" using pd(4) by blast
  have "NULL \<notin> set (map (nth_area ?k) [0..<56])"
  proof
    assume "NULL \<in> set (map (nth_area ?k) [0..<56])"
    then obtain j where "j < 56" "NULL = nth_area ?k j" by auto
    then show False using unat_nth_area [OF pd(1) i, of j] by simp
  qed
  moreover have "hd0 (map (nth_area ?k) [0..<56]) NULL = nth_area ?k 0" by (simp add: upt_conv_Cons)
  ultimately have v: "forever vmas_iter (0, nth_area ?k 0) ?st = Inr (56, ?st)"
    using vmas_loop [OF new_sbD(4) [OF n i] ar, of 0 s bm sm mm g] by simp
  have lt: "(of_nat i :: 64 word) < 63" using of_nat_less_64 [of 63 i] i by simp
  have step: "blocks_iter (of_nat i, ?k) ?st = Inr (Continue (of_nat (Suc i), if Suc i < 63 then nth_block p (Suc i) else NULL), ?st)"
    using k lt v new_sbD(1,3) [OF n i] by (simp add: blocks_iter_def bnd_def full_counts add.commute)
  have "k = 63 - Suc i" "Suc i \<le> 63" using Suc.hyps(2) i by simp_all
  note ih = Suc.hyps(1) [OF this]
  show ?case by (simp only: i if_True forever_Continue [where body = blocks_iter, OF step] ih)
qed

lemma superblock_1_run:
  fixes s :: "'a ast_scheme"
  assumes a: "os_contract s" "supplied 3 s" "gp_head g = NULL"
  shows "\<exists>n g'. superblock_1 (aw s Map.empty Map.empty Map.empty mm g) = Inr ((), aw (s\<lparr>os_calls := n\<rparr>) Map.empty Map.empty Map.empty mm g') \<and>
     gp_head g' = NULL \<and> gp_lock g' = gp_lock g"
proof -
  obtain p h1 b1 m1 where 1: "p \<noteq> NULL" "store h1 b1 m1" "dom m1 = {p}"
      "S_superblock_get_and_lock (aw s Map.empty Map.empty Map.empty mm g) = Inr (p, aw (called s) h1 b1 m1 mm (g\<lparr>gp_actr := gp_actr g + 1, gp_head := p\<rparr>))"
      "new_sb (openmp s) p h1 b1 m1"
    by (rule get_new_run [OF a(1,2) store_none _ _ a(3)]) auto
  let ?g = "g\<lparr>gp_actr := gp_actr g + 1, gp_head := p\<rparr>"
  have pd: "p \<in> dom m1" by (simp add: 1(3))
  have lp: "forever blocks_iter (0, nth_block p 0) (aw (called s) h1 b1 m1 mm ?g) = Inr (63, aw (called s) h1 b1 m1 mm ?g)"
    using blocks_loop [OF 1(2) pd 1(5), of 0 "called s" mm ?g] by simp
  define m2 where "m2 = mupd p (\<lambda>v. v\<lparr>sb_lock := released (openmp s) (sll m1 p)\<rparr>) m1"
  define m3 where "m3 = mupd p (\<lambda>v. v\<lparr>sb_lock := (if openmp s then Uninit else sll m2 p)\<rparr>) m2"
  have d: "dom m2 = {p}" "dom m3 = {p}" "sll m2 p = released (openmp s) (sll m1 p)" using 1(3) by (simp_all add: m2_def m3_def)
  have st: "store h1 b1 m3" using 1(2) by (rule store_same) (simp_all add: d 1(3))
  have p3: "p \<in> dom m3" by (simp add: d)
  obtain h4 b4 where f: "CALL_SYS_FREE p (aw (called s) h1 b1 m3 mm ?g) = Inr ((), aw (called s) h4 b4 (m3(p := None)) mm ?g)" "store h4 b4 (m3(p := None))"
    by (rule sys_free_run [OF st p3])
  have fr: "lock_free (openmp s) (sll m2 p) = Inr (if openmp s then Uninit else sll m2 p)" by (rule lock_free_run) (simp add: d)
  have v: "spv m1 p = NULL" "snx m1 p = NULL" "shd m1 p = nth_block p 0" "lock_held (openmp s) (sll m1 p)" using 1(5) by (simp_all add: new_sb_def)
  have "superblock_1 (aw s Map.empty Map.empty Map.empty mm g) = Inr ((), aw (called s) h4 b4 (m3(p := None)) mm (?g\<lparr>gp_head := NULL\<rparr>))"
    using 1(1,3,4) v d lp fr f(1) by (simp add: superblock_1_def bnd_def full_counts m2_def [symmetric] m3_def [symmetric])
  moreover have "h4 = Map.empty" "b4 = Map.empty" "m3(p := None) = Map.empty" using store_gone [OF f(2)] d by auto
  ultimately show ?thesis unfolding called_calls
    by (intro exI [of _ "Suc (os_calls s)"] exI [of _ "?g\<lparr>gp_head := NULL\<rparr>"]) simp
qed

lemma superblock_1_cleanly: "cleanly superblock_1"
  using superblock_1_run unfolding cleanly_def by blast

subsection \<open>Blocks\<close>

lemma nth_block_in:
  "store h bm sm \<Longrightarrow> p \<in> dom sm \<Longrightarrow> i < 63 \<Longrightarrow> nth_block p i \<in> dom bm"
  "store h bm sm \<Longrightarrow> p \<in> dom sm \<Longrightarrow> i < 63 \<Longrightarrow> nth_block p i \<noteq> NULL"
  using storeD [of h bm sm p] nth_block_at [of i p] unat_nth_block [of p i] by auto

text \<open>The state after a block was stolen.\<close>

definition taken :: "addr \<Rightarrow> addr \<Rightarrow> (addr \<rightharpoonup> block) \<Rightarrow> (addr \<rightharpoonup> superblock) \<Rightarrow> (addr \<rightharpoonup> block) \<Rightarrow> (addr \<rightharpoonup> superblock) \<Rightarrow> addr \<Rightarrow> bool" where
  "taken p k bm sm bm' sm' gh' \<longleftrightarrow> dom bm' = dom bm \<and> dom sm' = dom sm \<and> bsb bm' = bsb bm \<and> bnx bm' = bnx bm \<and>
     bpv bm' = (if bnx bm k = NULL then bpv bm else (bpv bm)(bnx bm k := bpv bm k)) \<and>
     sbc sm' = (sbc sm)(p := sbc sm p + 1) \<and> shd sm' = (shd sm)(p := bnx bm k) \<and> snx sm' = snx sm \<and>
     spv sm' = (if bnx bm k = NULL \<and> snx sm p \<noteq> NULL then (spv sm)(snx sm p := spv sm p) else spv sm) \<and>
     gh' = (if bnx bm k = NULL then snx sm p else p)"

lemma steal_taken:
  assumes o: "\<not> openmp s" and gl: "S_superblock_get_and_lock (aw s h bm sm mm (g\<lparr>gp_lock := got (openmp s) (gp_lock g)\<rparr>)) = Inr (p, aw t h1 b1 m1 mm g1)"
    and t: "openmp t = openmp s" and p: "p \<in> dom m1" "p \<noteq> NULL" "gp_head g1 = p" and k: "shd m1 p = k" "k \<in> dom b1" "k \<noteq> NULL"
    and n: "bnx b1 k \<noteq> NULL \<Longrightarrow> bnx b1 k \<in> dom b1 \<and> bnx b1 k \<noteq> k"
    and e: "bnx b1 k = NULL \<Longrightarrow> sbc m1 p = 62 \<and> (snx m1 p \<noteq> NULL \<longrightarrow> snx m1 p \<in> dom m1 \<and> snx m1 p \<noteq> p)"
  obtains b2 m2 g2 where "S_block_steal_and_lock (aw s h bm sm mm g) = Inr (k, aw t h1 b2 m2 mm g2)" "taken p k b1 m1 b2 m2 (gp_head g2)"
proof -
  have lk: "lock_idle (openmp s) l" "lock_held (openmp s) l" for l using o by (simp_all add: lock_idle_def lock_held_def)
  obtain b2 m2 g2 where r: "S_block_steal_and_lock (aw s h bm sm mm g) = Inr (k, aw t h1 b2 m2 mm g2)" "dom b2 = dom b1" "dom m2 = dom m1"
     "bsb b2 = bsb b1" "bnx b2 = bnx b1" "bpv b2 = (if bnx b1 k = NULL then bpv b1 else (bpv b1)(bnx b1 k := bpv b1 k))"
     "sbc m2 = (sbc m1)(p := sbc m1 p + 1)" "shd m2 = (shd m1)(p := bnx b1 k)" "snx m2 = snx m1"
     "spv m2 = (if bnx b1 k = NULL \<and> snx m1 p \<noteq> NULL then (spv m1)(snx m1 p := spv m1 p) else spv m1)"
     "gp_head g2 = (if bnx b1 k = NULL then snx m1 p else gp_head g1)"
    using steal_views [OF gl t lk(1) lk(2) p(1,2) lk(2) k lk(1) n e] by blast
  have "taken p k b1 m1 b2 m2 (gp_head g2)" unfolding taken_def using r(2-) p(3) by (intro conjI) simp_all
  then show thesis using that r(1) by blast
qed

text \<open>The first block of a new superblock, stolen.\<close>

definition stolen :: "addr \<Rightarrow> (addr \<rightharpoonup> block) \<Rightarrow> (addr \<rightharpoonup> superblock) \<Rightarrow> bool" where
  "stolen p bm sm \<longleftrightarrow> (\<forall>i<63. bsb bm (nth_block p i) = p \<and> bnx bm (nth_block p i) = (if Suc i < 63 then nth_block p (Suc i) else NULL)) \<and>
     bpv bm (nth_block p 0) = NULL \<and> bpv bm (nth_block p 1) = NULL \<and>
     sbc sm p = 1 \<and> shd sm p = nth_block p 1 \<and> snx sm p = NULL \<and> spv sm p = NULL"

lemma steal_new_run:
  fixes s :: "'a ast_scheme"
  assumes a: "\<not> openmp s" "os_contract s" "supplied 3 s" "gp_head g = NULL"
  obtains p h bm sm g' where "S_block_steal_and_lock (aw s Map.empty Map.empty Map.empty mm g) = Inr (nth_block p 0, aw (called s) h bm sm mm g')"
    "p \<noteq> NULL" "store h bm sm" "dom sm = {p}" "stolen p bm sm" "gp_head g' = p"
proof -
  let ?g = "g\<lparr>gp_lock := got (openmp s) (gp_lock g)\<rparr>"
  have gh: "gp_head ?g = NULL" using a(4) by simp
  obtain p h1 b1 m1 where 1: "p \<noteq> NULL" "store h1 b1 m1" "dom m1 = {p}"
      "S_superblock_get_and_lock (aw s Map.empty Map.empty Map.empty mm ?g) = Inr (p, aw (called s) h1 b1 m1 mm (?g\<lparr>gp_actr := gp_actr ?g + 1, gp_head := p\<rparr>))"
      "new_sb (openmp s) p h1 b1 m1"
    by (rule get_new_run [OF a(2,3) store_none _ _ gh]) auto
  have pd: "p \<in> dom m1" by (simp add: 1(3))
  note k0 = nth_block_in [OF 1(2) pd, of 0, simplified] and k1 = nth_block_in [OF 1(2) pd, of 1, simplified]
  have ne: "nth_block p 1 \<noteq> nth_block p 0" using nth_block_neq [of 1 0 p] by simp
  have nx: "bnx b1 (nth_block p 0) = nth_block p 1" using new_sbD(1) [OF 1(5), of 0] by simp
  have sh: "shd m1 p = nth_block p 0" using 1(5) by (simp add: new_sb_def)
  have os: "openmp (called s) = openmp s" by simp
  obtain b2 m2 g2 where r: "S_block_steal_and_lock (aw s Map.empty Map.empty Map.empty mm g) = Inr (nth_block p 0, aw (called s) h1 b2 m2 mm g2)"
      "taken p (nth_block p 0) b1 m1 b2 m2 (gp_head g2)"
    by (rule steal_taken [OF a(1) 1(4) os pd 1(1) _ sh k0]) (use nx k1 ne in auto)
  then have d: "dom b2 = dom b1" "dom m2 = dom m1" and v: "bsb b2 = bsb b1" "bnx b2 = bnx b1" "bpv b2 = (bpv b1)(nth_block p 1 := bpv b1 (nth_block p 0))"
     "sbc m2 = (sbc m1)(p := sbc m1 p + 1)" "shd m2 = (shd m1)(p := nth_block p 1)" "snx m2 = snx m1" "spv m2 = spv m1" "gp_head g2 = p"
    using nx k1(2) by (simp_all add: taken_def)
  have st: "store h1 b2 m2" using 1(2) by (rule store_same) (simp_all add: d)
  have "stolen p b2 m2" using 1(5) ne by (simp add: stolen_def new_sb_def v fresh_block_def Let_def)
  then show thesis using that [OF r(1) 1(1) st] d 1(3) v(8) by simp
qed

lemma block_4_cleanly: "cleanly block_4"
proof (rule cleanlyI)
  fix s :: "'a ast_scheme" and mm :: "addr \<rightharpoonup> mpool" and g :: gpool
  assume a: "\<not> openmp s" "os_contract s" "supplied 3 s" "gp_head g = NULL"
  let ?t = "called s"
  obtain p h bm sm g1 where 1: "S_block_steal_and_lock (aw s Map.empty Map.empty Map.empty mm g) = Inr (nth_block p 0, aw ?t h bm sm mm g1)"
    "p \<noteq> NULL" "store h bm sm" "dom sm = {p}" "stolen p bm sm" "gp_head g1 = p" by (rule steal_new_run [OF a])
  have pd: "p \<in> dom sm" by (simp add: 1(4))
  note k0 = nth_block_in [OF 1(3) pd, of 0, simplified] and k1 = nth_block_in [OF 1(3) pd, of 1, simplified]
  have ne: "nth_block p 1 \<noteq> nth_block p 0" using nth_block_neq [of 1 0 p] by simp
  have v: "bsb bm (nth_block p 0) = p" "shd sm p = nth_block p 1" "sbc sm p = 1" using 1(5) by (simp_all add: stolen_def)
  have os: "\<not> openmp ?t" using a(1) by simp
  obtain b2 m2 where 2: "S_block_unlock_and_return (nth_block p 0) (aw ?t h bm sm mm g1) = S_superblock_unlock_and_put p (aw ?t h b2 m2 mm g1)"
      "dom b2 = dom bm" "dom m2 = dom sm" "snx m2 = snx sm"
    using return_views_last [where bm = bm and sm = sm and hp = h and mm = mm and g = g1 and s = ?t, OF v(1) pd 1(2) _ k0(1,2)]
      k1 ne v os by (auto simp: lock_idle_def lock_held_def)
  have st: "store h b2 m2" using 1(3) by (rule store_same) (simp_all add: 2)
  obtain h3 b3 m3 g3 where 3: "S_superblock_unlock_and_put p (aw ?t h b2 m2 mm g1) = Inr ((), aw ?t h3 b3 m3 mm g3)"
      "store h3 b3 m3" "put_out p p m2 m3 (gp_head g3)"
    by (rule unlink_run [OF os st, of p g1 mm]) (use 1(4-6) 2 in \<open>auto simp: stolen_def\<close>)
  then have e: "dom m3 = {}" "gp_head g3 = NULL" using 1(4,5) 2 by (simp_all add: put_out_def stolen_def)
  have "block_4 (aw s Map.empty Map.empty Map.empty mm g) = Inr ((), aw ?t h3 b3 m3 mm g3)"
    using 1(1) 2(1) 3(1) k0 e by (simp add: block_4_def bnd_def)
  then show "\<exists>n g'. block_4 (aw s Map.empty Map.empty Map.empty mm g) = Inr ((), aw (s\<lparr>os_calls := n\<rparr>) Map.empty Map.empty Map.empty mm g') \<and> gp_head g' = NULL"
    by (rule test_end [OF _ 3(2) e called_calls])
qed

lemma block_1_cleanly: "cleanly block_1"
proof (rule cleanlyI)
  fix s :: "'a ast_scheme" and mm :: "addr \<rightharpoonup> mpool" and g :: gpool
  assume a: "\<not> openmp s" "os_contract s" "supplied 3 s" "gp_head g = NULL"
  let ?t = "called s"
  obtain p h bm sm g1 where 1: "S_block_steal_and_lock (aw s Map.empty Map.empty Map.empty mm g) = Inr (nth_block p 0, aw ?t h bm sm mm g1)"
    "p \<noteq> NULL" "store h bm sm" "dom sm = {p}" "stolen p bm sm" "gp_head g1 = p" by (rule steal_new_run [OF a])
  have pd: "p \<in> dom sm" by (simp add: 1(4))
  note k0 = nth_block_in [OF 1(3) pd, of 0, simplified]
  have ne: "nth_block p 0 \<noteq> nth_block p 1" using nth_block_neq [of 0 1 p] by simp
  have v: "bsb bm (nth_block p 0) = p" "shd sm p = nth_block p 1" "bnx bm (nth_block p 0) = nth_block p 1" using 1(5) by (simp_all add: stolen_def)
  define l where "l = (\<lambda>b. mupd (nth_block p 0) (\<lambda>v. v\<lparr>b_lock := bll b (nth_block p 0)\<rparr>) b)"
  define m2 where "m2 = mupd p (\<lambda>v. v\<lparr>sb_lock := sll sm p\<rparr>) sm"
  have d: "dom (l (l bm)) = dom bm" "dom m2 = {p}" using k0(1) 1(4) by (auto simp: l_def m2_def)
  have st: "store h (l (l bm)) m2" using 1(3) by (rule store_same) (simp_all add: d 1(4))
  have p2: "p \<in> dom m2" by (simp add: d)
  obtain h3 b3 where f: "CALL_SYS_FREE p (aw ?t h (l (l bm)) m2 mm g1) = Inr ((), aw ?t h3 b3 (m2(p := None)) mm g1)" "store h3 b3 (m2(p := None))"
    by (rule sys_free_run [OF st p2])
  have "block_1 (aw s Map.empty Map.empty Map.empty mm g) = Inr ((), aw ?t h3 b3 (m2(p := None)) mm (g1\<lparr>gp_head := NULL\<rparr>))"
    using a(1) 1(1,2,4,6) k0 ne v f(1) unfolding l_def m2_def
    by (simp add: block_1_def S_block_2superblock_def bnd_def lock_let_def lock_free_def)
  then show "\<exists>n g'. block_1 (aw s Map.empty Map.empty Map.empty mm g) = Inr ((), aw (s\<lparr>os_calls := n\<rparr>) Map.empty Map.empty Map.empty mm g') \<and> gp_head g' = NULL"
    by (rule test_end [OF _ f(2)]) (simp_all add: d called_calls)
qed

text \<open>A block stolen from the superblock at the head of the list.\<close>

lemma steal_old_run:
  assumes o: "\<not> openmp s" and st: "store h bm sm" and p: "gp_head g = p" "p \<in> dom sm" and k: "shd sm p = k" "k \<in> dom bm" "k \<noteq> NULL"
    and n: "bnx bm k \<noteq> NULL \<Longrightarrow> bnx bm k \<in> dom bm \<and> bnx bm k \<noteq> k"
    and e: "bnx bm k = NULL \<Longrightarrow> sbc sm p = 62 \<and> (snx sm p \<noteq> NULL \<longrightarrow> snx sm p \<in> dom sm \<and> snx sm p \<noteq> p)"
  obtains bm' sm' g' where "S_block_steal_and_lock (aw s h bm sm mm g) = Inr (k, aw s h bm' sm' mm g')" "store h bm' sm'"
    "taken p k bm sm bm' sm' (gp_head g')"
proof -
  let ?g = "g\<lparr>gp_lock := got (openmp s) (gp_lock g)\<rparr>"
  define m where "m = mupd p (\<lambda>b. b\<lparr>sb_lock := got (openmp s) (sll sm p)\<rparr>) sm"
  have m: "dom m = dom sm" "sbc m = sbc sm" "shd m = shd sm" "snx m = snx sm" "spv m = spv sm" using p(2) by (auto simp: m_def)
  have p0: "p \<noteq> NULL" using storeD(2) [OF st p(2)] .
  have gl: "S_superblock_get_and_lock (aw s h bm sm mm ?g) = Inr (p, aw s h bm m mm ?g)"
    unfolding m_def by (rule get_and_lock_old) (use p p0 o in \<open>simp_all add: lock_idle_def\<close>)
  obtain b2 m2 g2 where r: "S_block_steal_and_lock (aw s h bm sm mm g) = Inr (k, aw s h b2 m2 mm g2)" "taken p k bm m b2 m2 (gp_head g2)"
    by (rule steal_taken [where k = k, OF o gl refl]) (use p p0 k n e m in simp_all)
  then have t: "taken p k bm sm b2 m2 (gp_head g2)" by (simp add: taken_def m)
  have "store h b2 m2" using st by (rule store_same) (use t in \<open>simp_all add: taken_def\<close>)
  then show thesis using that r(1) t by blast
qed

lemma block_2_cleanly: "cleanly block_2"
proof (rule cleanlyI)
  fix s :: "'a ast_scheme" and mm :: "addr \<rightharpoonup> mpool" and g :: gpool
  assume a: "\<not> openmp s" "os_contract s" "supplied 3 s" "gp_head g = NULL"
  let ?t = "called s"
  obtain p h1 b1 m1 where 1: "p \<noteq> NULL" "store h1 b1 m1" "dom m1 = {p}"
      "S_superblock_get_and_lock (aw s Map.empty Map.empty Map.empty mm g) = Inr (p, aw ?t h1 b1 m1 mm (g\<lparr>gp_actr := gp_actr g + 1, gp_head := p\<rparr>))"
      "new_sb (openmp s) p h1 b1 m1"
    by (rule get_new_run [OF a(2,3) store_none _ _ a(4)]) auto
  let ?g = "g\<lparr>gp_actr := gp_actr g + 1, gp_head := p\<rparr>" and ?k = "nth_block p 0"
  have pd: "p \<in> dom m1" by (simp add: 1(3))
  note k0 = nth_block_in [OF 1(2) pd, of 0, simplified]
  have w: "shd m1 p = ?k" "snx m1 p = NULL" "bsb b1 ?k = p" using 1(5) new_sbD(2) [OF 1(5), of 0] by (simp_all add: new_sb_def)
  define m2 where "m2 = mupd p (\<lambda>v. v\<lparr>sb_lock := sll m1 p\<rparr>) (mupd p (\<lambda>b. b\<lparr>sb_bctr := 62\<rparr>) m1)"
  define b2 where "b2 = mupd ?k (\<lambda>b. b\<lparr>b_next := NULL\<rparr>) b1"
  have d: "dom m2 = {p}" "dom b2 = dom b1" "shd m2 p = ?k" "snx m2 p = NULL" "sbc m2 p = 62" "bnx b2 ?k = NULL" "bsb b2 ?k = p"
    using k0(1) 1(3) w by (auto simp: m2_def b2_def)
  have st: "store h1 b2 m2" using 1(2) by (rule store_same) (simp_all add: d 1(3))
  have os: "\<not> openmp ?t" using a(1) by simp
  obtain b3 m3 g3 where 3: "S_block_steal_and_lock (aw ?t h1 b2 m2 mm ?g) = Inr (?k, aw ?t h1 b3 m3 mm g3)" "store h1 b3 m3"
      "taken p ?k b2 m2 b3 m3 (gp_head g3)"
    by (rule steal_old_run [OF os st, of ?g p ?k mm]) (use d k0 in auto)
  then have e: "dom b3 = dom b1" "dom m3 = {p}" "bsb b3 ?k = p" "bnx b3 ?k = NULL" "shd m3 p = NULL" "snx m3 p = NULL" "gp_head g3 = NULL"
    using d by (simp_all add: taken_def)
  obtain h4 b4 m4 g4 where 4: "S_superblock_unlock_and_put p (aw ?t h1 b3 m3 mm (g3\<lparr>gp_head := p\<rparr>)) = Inr ((), aw ?t h4 b4 m4 mm g4)"
      "store h4 b4 m4" "put_out p p m3 m4 (gp_head g4)"
    by (rule unlink_run [OF os 3(2), of p "g3\<lparr>gp_head := p\<rparr>" mm]) (use e in auto)
  then have e4: "dom m4 = {}" "gp_head g4 = NULL" using e by (simp_all add: put_out_def)
  have "block_2 (aw s Map.empty Map.empty Map.empty mm g) = Inr ((), aw ?t h4 b4 m4 mm g4)"
    using a(1) 1(1,3,4) k0 w 3(1) 4(1) e unfolding m2_def b2_def
    by (simp add: block_2_def fake_last_def bnd_def full_counts lock_let_def)
  then show "\<exists>n g'. block_2 (aw s Map.empty Map.empty Map.empty mm g) = Inr ((), aw (s\<lparr>os_calls := n\<rparr>) Map.empty Map.empty Map.empty mm g') \<and> gp_head g' = NULL"
    by (rule test_end [OF _ 4(2) e4 called_calls])
qed

text \<open>A block given back to a superblock that has others in use.\<close>

definition given_back :: "addr \<Rightarrow> addr \<Rightarrow> addr \<Rightarrow> (addr \<rightharpoonup> block) \<Rightarrow> (addr \<rightharpoonup> superblock) \<Rightarrow> (addr \<rightharpoonup> block) \<Rightarrow> (addr \<rightharpoonup> superblock) \<Rightarrow> addr \<Rightarrow> bool" where
  "given_back p k gh bm sm bm' sm' gh' \<longleftrightarrow> dom bm' = dom bm \<and> dom sm' = dom sm \<and> bsb bm' = bsb bm \<and> bnx bm' = (bnx bm)(k := shd sm p) \<and>
     bpv bm' = (if shd sm p = NULL then bpv bm else (bpv bm)(shd sm p := k)) \<and> shd sm' = (shd sm)(p := k) \<and>
     snx sm' = (if shd sm p = NULL then (snx sm)(p := gh) else snx sm) \<and>
     spv sm' = (if shd sm p = NULL \<and> gh \<noteq> NULL then (spv sm)(gh := p) else spv sm) \<and>
     gh' = (if shd sm p = NULL then p else gh)"

lemma return_run:
  assumes o: "\<not> openmp s" and st: "store h bm sm" and p: "bsb bm k = p" "p \<in> dom sm" and k: "k \<in> dom bm" "k \<noteq> NULL"
    and f: "shd sm p \<noteq> NULL \<Longrightarrow> shd sm p \<in> dom bm \<and> shd sm p \<noteq> k"
    and c: "sbc sm p \<noteq> 1" "shd sm p = NULL \<Longrightarrow> sbc sm p = 63 \<and> (gp_head g \<noteq> NULL \<longrightarrow> gp_head g \<in> dom sm \<and> gp_head g \<noteq> p)"
  obtains bm' sm' g' where "S_block_unlock_and_return k (aw s h bm sm mm g) = Inr ((), aw s h bm' sm' mm g')" "store h bm' sm'"
    "given_back p k (gp_head g) bm sm bm' sm' (gp_head g')"
proof -
  have lk: "lock_idle (openmp s) l" "lock_held (openmp s) l" for l using o by (simp_all add: lock_idle_def lock_held_def)
  obtain b2 m2 g2 where r: "S_block_unlock_and_return k (aw s h bm sm mm g) = Inr ((), aw s h b2 m2 mm g2)" "dom b2 = dom bm" "dom m2 = dom sm"
     "bsb b2 = bsb bm" "bnx b2 = (bnx bm)(k := shd sm p)" "bpv b2 = (if shd sm p = NULL then bpv bm else (bpv bm)(shd sm p := k))"
     "shd m2 = (shd sm)(p := k)" "snx m2 = (if shd sm p = NULL then (snx sm)(p := gp_head g) else snx sm)"
     "spv m2 = (if shd sm p = NULL \<and> gp_head g \<noteq> NULL then (spv sm)(gp_head g := p) else spv sm)"
     "gp_head g2 = (if shd sm p = NULL then p else gp_head g)"
    using return_views_keep [OF p storeD(2) [OF st p(2)] lk(1) k lk(2) lk(1) f c] by blast
  have gb: "given_back p k (gp_head g) bm sm b2 m2 (gp_head g2)" unfolding given_back_def using r(2-) by (intro conjI) simp_all
  have "store h b2 m2" using st by (rule store_same) (simp_all add: r(2,3))
  then show thesis using that r(1) gb by blast
qed

lemma block_5_cleanly: "cleanly block_5"
proof (rule cleanlyI)
  fix s :: "'a ast_scheme" and mm :: "addr \<rightharpoonup> mpool" and g :: gpool
  assume a: "\<not> openmp s" "os_contract s" "supplied 3 s" "gp_head g = NULL"
  let ?t = "called s"
  obtain p h bm sm g1 where 1: "S_block_steal_and_lock (aw s Map.empty Map.empty Map.empty mm g) = Inr (nth_block p 0, aw ?t h bm sm mm g1)"
    "p \<noteq> NULL" "store h bm sm" "dom sm = {p}" "stolen p bm sm" "gp_head g1 = p" by (rule steal_new_run [OF a])
  have pd: "p \<in> dom sm" by (simp add: 1(4))
  note k0 = nth_block_in [OF 1(3) pd, of 0, simplified] and k1 = nth_block_in [OF 1(3) pd, of 1, simplified] and k2 = nth_block_in [OF 1(3) pd, of 2, simplified]
  have ne: "nth_block p 2 \<noteq> nth_block p 1" "nth_block p 2 \<noteq> nth_block p 0" using nth_block_neq [of 2 1 p] nth_block_neq [of 2 0 p] by simp_all
  have v: "bsb bm (nth_block p 0) = p" "bsb bm (nth_block p 1) = p" "bnx bm (nth_block p 1) = nth_block p 2" "shd sm p = nth_block p 1" "sbc sm p = 1"
    "snx sm p = NULL" using 1(5) by (simp_all add: stolen_def numeral_2_eq_2)
  have os: "\<not> openmp ?t" using a(1) by simp
  obtain b2 m2 g2 where 2: "S_block_steal_and_lock (aw ?t h bm sm mm g1) = Inr (nth_block p 1, aw ?t h b2 m2 mm g2)" "store h b2 m2"
      "taken p (nth_block p 1) bm sm b2 m2 (gp_head g2)"
    by (rule steal_old_run [OF os 1(3), of g1 p "nth_block p 1" mm]) (use 1(6) pd k1 k2 ne v in auto)
  then have e2: "dom b2 = dom bm" "dom m2 = {p}" "bsb b2 = bsb bm" "shd m2 p = nth_block p 2" "sbc m2 p = 2" "snx m2 p = NULL" "gp_head g2 = p"
    using v k2 1(4) by (simp_all add: taken_def)
  obtain b3 m3 g3 where 3: "S_block_unlock_and_return (nth_block p 0) (aw ?t h b2 m2 mm g2) = Inr ((), aw ?t h b3 m3 mm g3)" "store h b3 m3"
      "given_back p (nth_block p 0) (gp_head g2) b2 m2 b3 m3 (gp_head g3)"
    by (rule return_run [OF os 2(2), of "nth_block p 0" p g2 mm]) (use e2 v k0 k2 ne in auto)
  then have e3: "dom b3 = dom bm" "dom m3 = {p}" "bsb b3 = bsb bm" "shd m3 p = nth_block p 0" "snx m3 p = NULL" "gp_head g3 = p"
    using e2 k2 by (simp_all add: given_back_def)
  obtain h4 b4 m4 g4 where 4: "S_superblock_unlock_and_put p (aw ?t h b3 m3 mm g3) = Inr ((), aw ?t h4 b4 m4 mm g4)"
      "store h4 b4 m4" "put_out p p m3 m4 (gp_head g4)"
    by (rule unlink_run [OF os 3(2), of p g3 mm]) (use e3 in auto)
  then have e4: "dom m4 = {}" "gp_head g4 = NULL" using e3 by (simp_all add: put_out_def)
  have "block_5 (aw s Map.empty Map.empty Map.empty mm g) = Inr ((), aw ?t h4 b4 m4 mm g4)"
    using 1(1,2) 2(1) 3(1) 4(1) k0 k1 v e2 e3 by (simp add: block_5_def S_block_2superblock_def bnd_def)
  then show "\<exists>n g'. block_5 (aw s Map.empty Map.empty Map.empty mm g) = Inr ((), aw (s\<lparr>os_calls := n\<rparr>) Map.empty Map.empty Map.empty mm g') \<and> gp_head g' = NULL"
    by (rule test_end [OF _ 4(2) e4 called_calls])
qed

lemma block_6_cleanly: "cleanly block_6"
proof (rule cleanlyI)
  fix s :: "'a ast_scheme" and mm :: "addr \<rightharpoonup> mpool" and g :: gpool
  assume a: "\<not> openmp s" "os_contract s" "supplied 3 s" "gp_head g = NULL"
  let ?t = "called s"
  obtain p h bm sm g1 where 1: "S_block_steal_and_lock (aw s Map.empty Map.empty Map.empty mm g) = Inr (nth_block p 0, aw ?t h bm sm mm g1)"
    "p \<noteq> NULL" "store h bm sm" "dom sm = {p}" "stolen p bm sm" "gp_head g1 = p" by (rule steal_new_run [OF a])
  have pd: "p \<in> dom sm" by (simp add: 1(4))
  note k0 = nth_block_in [OF 1(3) pd, of 0, simplified]
  have v: "bsb bm (nth_block p 0) = p" "bpv bm (nth_block p 0) = NULL" "snx sm p = NULL" "spv sm p = NULL" using 1(5) by (simp_all add: stolen_def)
  have os: "\<not> openmp ?t" using a(1) by simp
  define m2 where "m2 = mupd p (\<lambda>b. b\<lparr>sb_head := NULL\<rparr>) (mupd p (\<lambda>b. b\<lparr>sb_bctr := 63\<rparr>) sm)"
  have d: "dom m2 = {p}" "shd m2 p = NULL" "sbc m2 p = 63" "spv m2 p = NULL" using v by (simp_all add: m2_def 1(4))
  have st: "store h bm m2" using 1(3) by (rule store_same) (simp_all add: d 1(4))
  let ?g = "g1\<lparr>gp_head := NULL\<rparr>"
  obtain b3 m3 g3 where 3: "S_block_unlock_and_return (nth_block p 0) (aw ?t h bm m2 mm ?g) = Inr ((), aw ?t h b3 m3 mm g3)" "store h b3 m3"
      "given_back p (nth_block p 0) (gp_head ?g) bm m2 b3 m3 (gp_head g3)"
    by (rule return_run [OF os st, of "nth_block p 0" p ?g mm]) (use d v k0 in auto)
  then have e3: "dom b3 = dom bm" "dom m3 = {p}" "bsb b3 = bsb bm" "bnx b3 (nth_block p 0) = NULL" "bpv b3 (nth_block p 0) = NULL"
      "shd m3 p = nth_block p 0" "snx m3 p = NULL" "spv m3 p = NULL" "gp_head g3 = p"
    using d v by (simp_all add: given_back_def)
  obtain h4 b4 m4 g4 where 4: "S_superblock_unlock_and_put p (aw ?t h b3 m3 mm g3) = Inr ((), aw ?t h4 b4 m4 mm g4)"
      "store h4 b4 m4" "put_out p p m3 m4 (gp_head g4)"
    by (rule unlink_run [OF os 3(2), of p g3 mm]) (use e3 in auto)
  then have e4: "dom m4 = {}" "gp_head g4 = NULL" using e3 by (simp_all add: put_out_def)
  have "block_6 (aw s Map.empty Map.empty Map.empty mm g) = Inr ((), aw ?t h4 b4 m4 mm g4)"
    using 1(1,2,4) 3(1) 4(1) k0 v e3 unfolding m2_def by (simp add: block_6_def fake_full_def S_block_2superblock_def bnd_def full_counts)
  then show "\<exists>n g'. block_6 (aw s Map.empty Map.empty Map.empty mm g) = Inr ((), aw (s\<lparr>os_calls := n\<rparr>) Map.empty Map.empty Map.empty mm g') \<and> gp_head g' = NULL"
    by (rule test_end [OF _ 4(2) e4 called_calls])
qed

lemma other_block: "store h bm sm \<Longrightarrow> p \<in> dom sm \<Longrightarrow> q \<in> dom sm \<Longrightarrow> p \<noteq> q \<Longrightarrow> i < 63 \<Longrightarrow> \<not> block_at q (nth_block p i)"
  using apart_blocks nth_block_at unfolding store_def by metis

text \<open>Two superblocks, the first of which is the predecessor of the second, given back.\<close>

lemma put_both_run:
  assumes o: "\<not> openmp s" and st: "store h bm sm" "dom sm = {p, q}" "p \<noteq> q" and v: "gp_head g = p" "snx sm p = q" "snx sm q = NULL" "spv sm p = NULL"
  obtains h1 b1 m1 g1 where "S_superblock_unlock_and_put p (aw s h bm sm mm g) = Inr ((), aw s h1 b1 m1 mm g1)" "gp_head g1 = q" "q \<in> dom m1"
    "\<exists>h2 b2 m2 g2. S_superblock_unlock_and_put q (aw s h1 b1 m1 mm g1) = Inr ((), aw s h2 b2 m2 mm g2) \<and> store h2 b2 m2 \<and> dom m2 = {} \<and> gp_head g2 = NULL"
proof -
  have q0: "q \<noteq> NULL" using storeD(2) [OF st(1), of q] st(2) by simp
  obtain h1 b1 m1 g1 where 1: "S_superblock_unlock_and_put p (aw s h bm sm mm g) = Inr ((), aw s h1 b1 m1 mm g1)"
      "store h1 b1 m1" "put_out p p sm m1 (gp_head g1)"
    by (rule unlink_run [OF o st(1), of p g mm]) (use st(2,3) v in auto)
  then have e: "dom m1 = {q}" "gp_head g1 = q" "snx m1 q = NULL" using st(2,3) v q0 by (auto simp: put_out_def)
  obtain h2 b2 m2 g2 where 2: "S_superblock_unlock_and_put q (aw s h1 b1 m1 mm g1) = Inr ((), aw s h2 b2 m2 mm g2)"
      "store h2 b2 m2" "put_out q q m1 m2 (gp_head g2)"
    by (rule unlink_run [OF o 1(2), of q g1 mm]) (use e in auto)
  then have "dom m2 = {}" "gp_head g2 = NULL" using e by (simp_all add: put_out_def)
  then show thesis using that [OF 1(1) e(2)] e(1) 2 by blast
qed

lemma block_7_cleanly: "cleanly block_7"
proof (rule cleanlyI)
  fix s :: "'a ast_scheme" and mm :: "addr \<rightharpoonup> mpool" and g :: gpool
  assume a: "\<not> openmp s" "os_contract s" "supplied 3 s" "gp_head g = NULL"
  let ?t = "called s" and ?u = "called (called s)"
  obtain p h bm sm g1 where 1: "S_block_steal_and_lock (aw s Map.empty Map.empty Map.empty mm g) = Inr (nth_block p 0, aw ?t h bm sm mm g1)"
    "p \<noteq> NULL" "store h bm sm" "dom sm = {p}" "stolen p bm sm" "gp_head g1 = p" by (rule steal_new_run [OF a])
  let ?k = "nth_block p 0"
  have pd: "p \<in> dom sm" by (simp add: 1(4))
  note k0 = nth_block_in [OF 1(3) pd, of 0, simplified]
  have v: "bsb bm ?k = p" "bpv bm ?k = NULL" "snx sm p = NULL" "spv sm p = NULL" using 1(5) by (simp_all add: stolen_def)
  define m2 where "m2 = mupd p (\<lambda>b. b\<lparr>sb_head := NULL\<rparr>) (mupd p (\<lambda>b. b\<lparr>sb_bctr := 63\<rparr>) sm)"
  have d: "dom m2 = {p}" "shd m2 p = NULL" "sbc m2 p = 63" "spv m2 p = NULL" using v by (simp_all add: m2_def 1(4))
  have st: "store h bm m2" using 1(3) by (rule store_same) (simp_all add: d 1(4))
  let ?g = "g1\<lparr>gp_head := NULL\<rparr>"
  have c: "os_contract ?t" "supplied 3 ?t" "gp_head ?g = NULL" using a by simp_all
  obtain q h3 b3 m3 where 3: "q \<noteq> p" "q \<noteq> NULL" "store h3 b3 m3" "dom m3 = {q, p}" "\<And>r. r \<noteq> q \<Longrightarrow> m3 r = m2 r"
      "S_superblock_get_and_lock (aw ?t h bm m2 mm ?g) = Inr (q, aw ?u h3 b3 m3 mm (?g\<lparr>gp_actr := gp_actr ?g + 1, gp_head := q\<rparr>))"
      "\<And>b. \<not> block_at q b \<Longrightarrow> b3 b = bm b" "new_sb (openmp ?t) q h3 b3 m3"
    by (rule get_new_run [where mm = mm, OF c(1,2) st _ _ c(3)]) (simp_all add: d)
  let ?g3 = "?g\<lparr>gp_actr := gp_actr ?g + 1, gp_head := q\<rparr>"
  define m4 where "m4 = mupd q (\<lambda>v. v\<lparr>sb_lock := sll m3 q\<rparr>) m3"
  have kb: "b3 ?k = bm ?k" using 3(7) other_block [OF 3(3), of p q 0] 3(1,4) by simp
  have d3: "bsb b3 ?k = p" "bpv b3 ?k = NULL" "?k \<in> dom b3" using v kb k0(1) by (simp_all add: bsb_def bpv_def domIff)
  have m3p: "m3 p = m2 p" using 3(1,5) by simp
  have d4: "dom m4 = {p, q}" "shd m4 p = NULL" "sbc m4 p = 63" "spv m4 p = NULL" "snx m4 q = NULL"
    using d 3(4,8) m3p by (auto simp: m4_def shd_def sbc_def spv_def mupd_other [OF 3(1) [THEN not_sym]] new_sb_def snx_def mupd_def)
  have st4: "store h3 b3 m4" using 3(3) by (rule store_same) (auto simp: d4 3(4))
  have os: "\<not> openmp ?u" using a(1) by simp
  obtain b5 m5 g5 where 5: "S_block_unlock_and_return ?k (aw ?u h3 b3 m4 mm ?g3) = Inr ((), aw ?u h3 b5 m5 mm g5)" "store h3 b5 m5"
      "given_back p ?k (gp_head ?g3) b3 m4 b5 m5 (gp_head g5)"
    by (rule return_run [OF os st4, of ?k p ?g3 mm]) (use d3 d4 k0 3(1) in auto)
  then have e5: "dom b5 = dom b3" "dom m5 = {p, q}" "bsb b5 ?k = p" "bnx b5 ?k = NULL" "bpv b5 ?k = NULL"
      "shd m5 p = ?k" "snx m5 p = q" "spv m5 p = NULL" "snx m5 q = NULL" "gp_head g5 = p"
    using d3 d4 3(1,2) by (simp_all add: given_back_def)
  obtain h6 b6 m6 g6 where 6: "S_superblock_unlock_and_put p (aw ?u h3 b5 m5 mm g5) = Inr ((), aw ?u h6 b6 m6 mm g6)" and
      "\<exists>h2 b2 m2 g2. S_superblock_unlock_and_put q (aw ?u h6 b6 m6 mm g6) = Inr ((), aw ?u h2 b2 m2 mm g2) \<and> store h2 b2 m2 \<and> dom m2 = {} \<and> gp_head g2 = NULL"
    by (rule put_both_run [OF os 5(2) e5(2) 3(1) [THEN not_sym], where mm = mm and g = g5]) (use e5 in auto)
  then obtain h7 b7 m7 g7 where 7: "S_superblock_unlock_and_put q (aw ?u h6 b6 m6 mm g6) = Inr ((), aw ?u h7 b7 m7 mm g7)" "store h7 b7 m7"
      "dom m7 = {}" "gp_head g7 = NULL" by blast
  have "block_7 (aw s Map.empty Map.empty Map.empty mm g) = Inr ((), aw ?u h7 b7 m7 mm g7)"
    using a(1) 1(1,2,4) 3(2,4,6) 5(1) 6 7(1,4) k0 v d3 e5 unfolding m2_def m4_def
    by (simp add: block_7_def fake_full_def S_block_2superblock_def bnd_def full_counts lock_let_def)
  then show "\<exists>n g'. block_7 (aw s Map.empty Map.empty Map.empty mm g) = Inr ((), aw (s\<lparr>os_calls := n\<rparr>) Map.empty Map.empty Map.empty mm g') \<and> gp_head g' = NULL"
    by (rule test_end [OF _ 7(2-4)]) (simp add: called_calls)
qed

lemma block_3_cleanly: "cleanly block_3"
proof (rule cleanlyI)
  fix s :: "'a ast_scheme" and mm :: "addr \<rightharpoonup> mpool" and g :: gpool
  assume a: "\<not> openmp s" "os_contract s" "supplied 3 s" "gp_head g = NULL"
  let ?t = "called s" and ?u = "called (called s)"
  obtain p h1 b1 m1 where 1: "p \<noteq> NULL" "store h1 b1 m1" "dom m1 = {p}"
      "S_superblock_get_and_lock (aw s Map.empty Map.empty Map.empty mm g) = Inr (p, aw ?t h1 b1 m1 mm (g\<lparr>gp_actr := gp_actr g + 1, gp_head := p\<rparr>))"
      "new_sb (openmp s) p h1 b1 m1"
    by (rule get_new_run [OF a(2,3) store_none _ _ a(4)]) auto
  define m2 where "m2 = mupd p (\<lambda>v. v\<lparr>sb_lock := sll m1 p\<rparr>) m1"
  have d2: "dom m2 = {p}" "snx m2 p = NULL" using 1(3,5) by (simp_all add: m2_def new_sb_def)
  have st2: "store h1 b1 m2" using 1(2) by (rule store_same) (simp_all add: d2 1(3))
  let ?g2 = "g\<lparr>gp_actr := gp_actr g + 1, gp_head := NULL\<rparr>"
  have c: "os_contract ?t" "supplied 3 ?t" "gp_head ?g2 = NULL" using a by simp_all
  obtain q h3 b3 m3 where 3: "q \<noteq> p" "q \<noteq> NULL" "store h3 b3 m3" "dom m3 = {q, p}" "\<And>r. r \<noteq> q \<Longrightarrow> m3 r = m2 r"
      "S_superblock_get_and_lock (aw ?t h1 b1 m2 mm ?g2) = Inr (q, aw ?u h3 b3 m3 mm (?g2\<lparr>gp_actr := gp_actr ?g2 + 1, gp_head := q\<rparr>))"
      "new_sb (openmp ?t) q h3 b3 m3"
    by (rule get_new_run [where mm = mm, OF c(1,2) st2 _ _ c(3)]) (simp_all add: d2)
  let ?g3 = "?g2\<lparr>gp_actr := gp_actr ?g2 + 1, gp_head := q\<rparr>" and ?k = "nth_block q 0"
  have qd: "q \<in> dom m3" by (simp add: 3(4))
  note k0 = nth_block_in [OF 3(3) qd, of 0, simplified] and ne = 3(1) 3(1) [THEN not_sym]
  have w: "shd m3 q = ?k" "spv m3 q = NULL" "bsb b3 ?k = q" using 3(7) new_sbD(2) [OF 3(7), of 0] by (simp_all add: new_sb_def)
  define m4 where "m4 = mupd q (\<lambda>v. v\<lparr>sb_lock := sll m3 q\<rparr>) (mupd q (\<lambda>b. b\<lparr>sb_bctr := 62\<rparr>) (mupd p (\<lambda>b. b\<lparr>sb_prev := q\<rparr>) (mupd q (\<lambda>b. b\<lparr>sb_next := p\<rparr>) m3)))"
  define b4 where "b4 = mupd ?k (\<lambda>b. b\<lparr>b_next := NULL\<rparr>) b3"
  have "snx m3 p = NULL" using 3(5) [OF ne(2)] d2(2) by (simp add: snx_def)
  then have d4: "dom m4 = {q, p}" "dom b4 = dom b3" "shd m4 q = ?k" "sbc m4 q = 62" "snx m4 q = p" "spv m4 q = NULL" "snx m4 p = NULL" "bnx b4 ?k = NULL" "bsb b4 ?k = q"
    using k0(1) 3(4) w ne by (auto simp: m4_def b4_def)
  have st4: "store h3 b4 m4" using 3(3) by (rule store_same) (simp_all add: d4 3(4))
  have os: "\<not> openmp ?u" using a(1) by simp
  obtain b5 m5 g5 where 5: "S_block_steal_and_lock (aw ?u h3 b4 m4 mm ?g3) = Inr (?k, aw ?u h3 b5 m5 mm g5)" "store h3 b5 m5"
      "taken q ?k b4 m4 b5 m5 (gp_head g5)"
    by (rule steal_old_run [OF os st4, of ?g3 q ?k mm]) (use d4 k0 ne in simp_all)
  then have e5: "dom b5 = dom b3" "dom m5 = {q, p}" "bsb b5 ?k = q" "bnx b5 ?k = NULL" "shd m5 q = NULL" "snx m5 q = p" "spv m5 p = NULL" "spv m5 q = NULL"
      "snx m5 p = NULL" "gp_head g5 = p"
    using d4 ne 1(1) by (simp_all add: taken_def)
  obtain h6 b6 m6 g6 where 6: "S_superblock_unlock_and_put q (aw ?u h3 b5 m5 mm (g5\<lparr>gp_head := q\<rparr>)) = Inr ((), aw ?u h6 b6 m6 mm g6)"
      "store h6 b6 m6" "put_out q q m5 m6 (gp_head g6)"
    by (rule unlink_run [OF os 5(2), of q "g5\<lparr>gp_head := q\<rparr>" mm]) (use e5 ne in simp_all)
  then have e6: "dom m6 = {p}" "snx m6 p = NULL" using e5 ne by (auto simp: put_out_def)
  obtain h7 b7 m7 g7 where 7: "S_superblock_unlock_and_put p (aw ?u h6 b6 m6 mm (g6\<lparr>gp_head := p\<rparr>)) = Inr ((), aw ?u h7 b7 m7 mm g7)"
      "store h7 b7 m7" "put_out p p m6 m7 (gp_head g7)"
    by (rule unlink_run [OF os 6(2), of p "g6\<lparr>gp_head := p\<rparr>" mm]) (use e6 in simp_all)
  then have e7: "dom m7 = {}" "gp_head g7 = NULL" using e6 by (simp_all add: put_out_def)
  have "block_3 (aw s Map.empty Map.empty Map.empty mm g) = Inr ((), aw ?u h7 b7 m7 mm g7)"
    using a(1) 1(1,3,4) 3(2,4,6) 5(1) 6(1) 7(1) k0 w e5 ne unfolding m2_def m4_def b4_def
    by (simp add: block_3_def fake_last_def bnd_def full_counts lock_let_def insert_absorb)
  then show "\<exists>n g'. block_3 (aw s Map.empty Map.empty Map.empty mm g) = Inr ((), aw (s\<lparr>os_calls := n\<rparr>) Map.empty Map.empty Map.empty mm g') \<and> gp_head g' = NULL"
    by (rule test_end [OF _ 7(2) e7]) (simp add: called_calls)
qed

lemma alloc_tests_cleanly: "cleanly alloc_tests"
  unfolding alloc_tests_def
  by (rule cleanly_steps) (auto intro: superblock_1_cleanly superblock_2_cleanly superblock_3_cleanly superblock_4_cleanly superblock_5_cleanly
      block_1_cleanly block_2_cleanly block_3_cleanly block_4_cleanly block_5_cleanly block_6_cleanly block_7_cleanly)

subsection \<open>The second test under OpenMP\<close>

text \<open>The blocks of a superblock that was never set up have locks that cannot be torn down.\<close>

lemma superblock_2_bad_lock:
  assumes o: "openmp s" and a: "os_contract s" "supplied 3 s" and g: "gp_lock g = Unlocked" and l: "\<And>b. b_lock (os_blk s b) \<noteq> Unlocked"
  shows "superblock_2 (aw s Map.empty Map.empty Map.empty mm g) = Inl BadLock"
proof -
  let ?t = "called s"
  obtain p h bm sm where 1: "p \<noteq> NULL" "store h bm sm" "dom sm = {p}"
      "sys_superblock (aw s Map.empty Map.empty Map.empty mm g) = Inr (p, aw ?t h bm sm mm g)" "\<And>b. block_at p b \<Longrightarrow> bm b = Some (os_blk s b)"
    by (rule sys_superblock_run [OF a store_none]) auto
  have pd: "p \<in> dom sm" by (simp add: 1(3))
  let ?k = "nth_block p 0"
  note k0 = nth_block_in [OF 1(2) pd, of 0, simplified]
  have lk: "bll bm ?k \<noteq> Unlocked" using 1(5) [OF nth_block_at, of 0] l by (simp add: bll_def)
  have bad: "for_each [0..<63] (destroy_block p) ?k (aw ?t h bm m mm g') = Inl BadLock" if "p \<in> dom m" for m g'
  proof -
    have "destroy_block p 0 ?k (aw ?t h bm m mm g') = Inl BadLock"
      using o k0 lk by (simp add: destroy_block_def bnd_def full_counts lock_free_def)
    then show ?thesis by (simp add: upt_conv_Cons bnd_def)
  qed
  show ?thesis using o g 1(1,3,4) bad
    by (simp add: superblock_2_def S_superblock_unlock_and_put_def S_superblock_list_destroy_def bnd_def released_def got_def lock_idle_def lock_let_def
        lock_free_def full_counts nth_first [symmetric])
qed

lemma alloc_tests_bad_lock:
  assumes "openmp s" and "os_contract s" "supplied 3 s" "gp_head g = NULL" and "gp_lock g = Unlocked" and "\<And>b. b_lock (os_blk s b) \<noteq> Unlocked"
  shows "alloc_tests (aw s Map.empty Map.empty Map.empty mm g) = Inl BadLock"
proof -
  obtain n g' where 1: "superblock_1 (aw s Map.empty Map.empty Map.empty mm g) = Inr ((), aw (s\<lparr>os_calls := n\<rparr>) Map.empty Map.empty Map.empty mm g')"
      "gp_lock g' = gp_lock g" using superblock_1_run [OF assms(2-4)] by blast
  have "superblock_2 (aw (s\<lparr>os_calls := n\<rparr>) Map.empty Map.empty Map.empty mm g') = Inl BadLock"
    by (rule superblock_2_bad_lock) (use assms 1(2) in simp_all)
  then show ?thesis using 1(1) by (simp add: alloc_tests_def bnd_def)
qed

subsection \<open>The long run\<close>

lemma for_each_carry:
  assumes "I m l s" and "m \<le> n" and "\<And>i l s. m \<le> i \<Longrightarrow> i < n \<Longrightarrow> I i l s \<Longrightarrow> \<exists>l' s'. body i l s = Inr (l', s') \<and> I (Suc i) l' s'"
  shows "\<exists>l' s'. for_each [m..<n] body l s = Inr (l', s') \<and> I n l' s'"
  using assms
proof (induction "n - m" arbitrary: m l s)
  case (Suc k)
  have lt: "m < n" "m \<le> m" using Suc.hyps(2) by simp_all
  obtain l1 s1 where s1: "body m l s = Inr (l1, s1)" "I (Suc m) l1 s1" using Suc.prems(3) [OF lt(2,1) Suc.prems(1)] by blast
  have "k = n - Suc m" "Suc m \<le> n" using Suc.hyps(2) lt by simp_all
  moreover have "\<exists>l' s'. body i l s = Inr (l', s') \<and> I (Suc i) l' s'" if "Suc m \<le> i" "i < n" "I i l s" for i l s
    using Suc.prems(3) [of i l s] that by simp
  ultimately obtain l2 s2 where "for_each [Suc m..<n] body l1 s1 = Inr (l2, s2)" "I n l2 s2" using Suc.hyps(1) [of "Suc m" l1 s1] s1(2) by blast
  then show ?case using s1(1) lt(1) by (simp add: upt_conv_Cons bnd_Inr)
qed simp

text \<open>The areas with the indices in \<open>I\<close> are in use.\<close>

definition held :: "nat set \<Rightarrow> (nat \<Rightarrow> addr) \<Rightarrow> 'y ast_scheme \<Rightarrow> bool" where
  "held I f s \<longleftrightarrow> pinv s \<and> \<not> openmp s \<and> supplied N_ALLOC s \<and> live s = f ` I \<and> inj_on f I"

lemma alloc_turn_run:
  fixes s :: "'y ast_scheme"
  assumes h: "held I f s" and I: "finite I" "card I < N_ALLOC" "i \<notin> I"
  shows "\<exists>f' s'. alloc_turn i f s = Inr (f', s') \<and> held (insert i I) f' s'"
proof -
  have p: "pinv s" "\<not> openmp s" "supplied N_ALLOC s" "live s = f ` I" "inj_on f I" using h by (simp_all add: held_def)
  obtain F L G where i: "pool_inv_with s F L G" using p(1) unfolding pinv_def by blast
  have av: "avail s" by (rule supplied_avail [OF p(3) i]) (simp_all add: p(4) I(1) card_image [OF p(5)] I(2))
  obtain z F' L' G' and s1 :: "'y ast_scheme" where r: "vma_alloc s = Inr (z, s1)" "pool_inv_with s1 F' L' G'" "kin s s1" "alloc_spec s F z s1 F'" using alloc_total [OF i] by blast
  have z: "z \<noteq> NULL" using r(4) av by (auto simp: alloc_spec_def)
  have "z \<notin> live s" "live s1 = insert z (live s)" using va.pool_alloc [OF p(1)] r(1) z by auto
  moreover have "f(i := z) ` insert i I = insert z (f ` I)" using I(3) by auto
  moreover have "inj_on (f(i := z)) (insert i I)" if "z \<notin> f ` I" using p(5) I(3) that by (auto simp: inj_on_def)
  moreover have "\<not> openmp s1" "supplied N_ALLOC s1" using r(3) p(2,3) by (simp_all add: kin_def same_env_def supplied_def)
  ultimately have "held (insert i I) (f(i := z)) s1" using r(2) p(4) by (auto simp: held_def pinv_def)
  then show ?thesis using r(1) z by (simp add: alloc_turn_def bnd_def)
qed

lemma free_turn_run:
  fixes s :: "'y ast_scheme"
  assumes h: "held I f s" and i: "i \<in> I"
  shows "\<exists>f' s'. free_turn i f s = Inr (f', s') \<and> held (I - {i}) f' s'"
proof -
  have p: "pinv s" "\<not> openmp s" "supplied N_ALLOC s" "live s = f ` I" "inj_on f I" using h by (simp_all add: held_def)
  obtain F L G where inv: "pool_inv_with s F L G" using p(1) unfolding pinv_def by blast
  have z: "f i \<in> live s" using p(4) i by simp
  obtain F' L' G' and s2 :: "'y ast_scheme" where r: "vma_free (f i) s = Inr ((), s2)" "pool_inv_with s2 F' L' G'" "kin s s2"
      "freed (vmas s) (blocks s) F (f i) (vmas s2) (blocks s2) F'"
    using free_total(2) [OF inv z] p(2) by blast
  have "live s2 = live s - {f i}" using r(4) live_used [OF inv] live_used [OF r(2)] by (simp add: freed_def)
  then have "live s2 = f ` (I - {i})" using p(4,5) i by (auto simp: inj_on_def)
  moreover have "inj_on f (I - {i})" using p(5) by (rule inj_on_subset) blast
  moreover have "\<not> openmp s2" "supplied N_ALLOC s2" using r(3) p(2,3) by (simp_all add: kin_def same_env_def supplied_def)
  ultimately have "held (I - {i}) f s2" using r(2) by (auto simp: held_def pinv_def)
  then show ?thesis using r(1) by (simp add: free_turn_def bnd_def)
qed

lemma long_run:
  assumes h: "held {} arr s"
  shows "\<exists>f s'. bnd (for_each [0..<N_ALLOC div 2] alloc_turn arr) (\<lambda>vma.
     bnd (for_each [0..<N_ALLOC div 4] free_turn vma) (\<lambda>vma.
     bnd (for_each [N_ALLOC div 2..<N_ALLOC] alloc_turn vma) (for_each [N_ALLOC div 4..<N_ALLOC] free_turn))) s = Inr (f, s') \<and> held {} f s'"
proof -
  define q where "q = N_ALLOC div 4"
  have N: "N_ALLOC div 2 = 2 * q" "N_ALLOC = 4 * q" "N_ALLOC div 4 = q" "0 < q" by (simp_all add: q_def N_ALLOC_def)
  obtain f1 s1 where 1: "for_each [0..<2 * q] alloc_turn arr s = Inr (f1, s1)" "held {..<2 * q} f1 s1"
  proof -
    have "\<exists>l' s'. for_each [0..<2 * q] alloc_turn arr s = Inr (l', s') \<and> held {..<2 * q} l' s'"
    proof (rule for_each_carry [where I = "\<lambda>i. held {..<i}"])
      fix i l and s :: "'a ast_scheme" assume "i < 2 * q" "held {..<i} l s"
      then show "\<exists>l' s'. alloc_turn i l s = Inr (l', s') \<and> held {..<Suc i} l' s'"
        using alloc_turn_run [of "{..<i}" l s i] N by (simp add: lessThan_Suc)
    qed (use h in simp_all)
    then show thesis using that by blast
  qed
  obtain f2 s2 where 2: "for_each [0..<q] free_turn f1 s1 = Inr (f2, s2)" "held {q..<2 * q} f2 s2"
  proof -
    have "\<exists>l' s'. for_each [0..<q] free_turn f1 s1 = Inr (l', s') \<and> held {q..<2 * q} l' s'"
    proof (rule for_each_carry [where I = "\<lambda>i. held {i..<2 * q}"])
      fix i l and s :: "'a ast_scheme" assume i: "i < q" "held {i..<2 * q} l s"
      have "{i..<2 * q} - {i} = {Suc i..<2 * q}" by auto
      then show "\<exists>l' s'. free_turn i l s = Inr (l', s') \<and> held {Suc i..<2 * q} l' s'"
        using free_turn_run [OF i(2), of i] i(1) by simp
    qed (use 1(2) in \<open>simp_all add: lessThan_atLeast0\<close>)
    then show thesis using that by blast
  qed
  obtain f3 s3 where 3: "for_each [2 * q..<4 * q] alloc_turn f2 s2 = Inr (f3, s3)" "held {q..<4 * q} f3 s3"
  proof -
    have "\<exists>l' s'. for_each [2 * q..<4 * q] alloc_turn f2 s2 = Inr (l', s') \<and> held {q..<4 * q} l' s'"
    proof (rule for_each_carry [where I = "\<lambda>i. held {q..<i}"])
      fix i l and s :: "'a ast_scheme" assume i: "2 * q \<le> i" "i < 4 * q" "held {q..<i} l s"
      have "insert i {q..<i} = {q..<Suc i}" using i(1) by auto
      moreover have "card {q..<i} < N_ALLOC" using i(2) N by simp
      ultimately show "\<exists>l' s'. alloc_turn i l s = Inr (l', s') \<and> held {q..<Suc i} l' s'"
        using alloc_turn_run [OF i(3), of i] by simp
    qed (use 2(2) in simp_all)
    then show thesis using that by blast
  qed
  obtain f4 s4 where 4: "for_each [q..<4 * q] free_turn f3 s3 = Inr (f4, s4)" "held {} f4 s4"
  proof -
    have "\<exists>l' s'. for_each [q..<4 * q] free_turn f3 s3 = Inr (l', s') \<and> held {4 * q..<4 * q} l' s'"
    proof (rule for_each_carry [where I = "\<lambda>i. held {i..<4 * q}"])
      fix i l and s :: "'a ast_scheme" assume i: "q \<le> i" "i < 4 * q" "held {i..<4 * q} l s"
      have "{i..<4 * q} - {i} = {Suc i..<4 * q}" by auto
      then show "\<exists>l' s'. free_turn i l s = Inr (l', s') \<and> held {Suc i..<4 * q} l' s'"
        using free_turn_run [OF i(3), of i] i(2) by simp
    qed (use 3(2) in simp_all)
    then show thesis using that by auto
  qed
  show ?thesis using 1(1) 2(1) 3(1) 4 by (simp add: bnd_def N(1,3) N(2))
qed

text \<open>The memory after the small tests is as at the start.\<close>

lemma booted_held:
  assumes "booted s" and "\<not> openmp s" and "supplied N_ALLOC s"
  shows "held {} arr s"
proof -
  have i: "pool_inv_with s (\<lambda>_. []) (\<lambda>_. []) []"
    using assms(1,2) by (auto simp: booted_def pool_inv_with_def shape_def locks_ok_def mem_ok_def lists_ok_def valid_ids_def pools_def
        lists_placed_def global_ok_def owned_def os_contract_def lk_def lock_idle_def)
  have "live s = {}" using live_used [OF i] assms(1) by (simp add: used_def booted_def)
  then show ?thesis using i assms(2,3) by (auto simp: held_def pinv_def)
qed

lemma supplied_less: "supplied n s \<Longrightarrow> k \<le> n \<Longrightarrow> supplied k s"
  by (simp add: supplied_def)

lemma no_areas_no_superblocks:
  assumes "pinv s" and "live s = {}"
  shows "superblocks s = Map.empty"
proof -
  obtain F L G where "pool_inv_with s F L G" using assms(1) unfolding pinv_def by blast
  then have "dom (superblocks s) = {}" using superblock_in_use assms(2) by blast
  then show ?thesis by simp
qed

text \<open>C18: in the build without OpenMP, on a system that refuses neither the array of the test nor a superblock
  while fewer than \<open>N_ALLOC\<close> are allocated, the unit tests of the allocator, the long one included, end: all assertions
  hold, the status is 0 and all memory has gone back to the system.\<close>

theorem allocator_test_outcome:
  fixes s :: "'y ast_scheme"
  assumes "booted s" and "supplied N_ALLOC s" and "p \<noteq> NULL" and "\<not> openmp s"
  shows "\<exists>s'. vma_alloc_test_main p arr s = Inr (0, s') \<and> live s' = {} \<and> superblocks s' = Map.empty"
proof -
  let ?g = "(S_gpool s)\<lparr>gp_actr := 0, gp_lctr := 0, gp_mlctr := 0, gp_blctr := 0, gp_slctr := 0, gp_lock := released (openmp s) (gp_lock (S_gpool s))\<rparr>"
  let ?e = "\<lambda>t g. aw t Map.empty Map.empty Map.empty (mpools s) g"
  have b: "vmas s = Map.empty" "blocks s = Map.empty" "superblocks s = Map.empty" "gp_head ?g = NULL" "os_contract s" using assms(1) by (simp_all add: booted_def)
  have i: "vma_gpool_init s = Inr ((), ?e s ?g)" using b(1-3) by (simp add: gpool_init_run aw_def)
  have s3: "supplied 3 s" using supplied_less [OF assms(2)] by (simp add: N_ALLOC_def)
  obtain n g1 where t: "alloc_tests (?e s ?g) = Inr ((), ?e (s\<lparr>os_calls := n\<rparr>) g1)" "gp_head g1 = NULL"
    using alloc_tests_cleanly b(4,5) s3 assms(4) unfolding cleanly_def by blast
  let ?s = "?e (s\<lparr>os_calls := n\<rparr>) g1"
  define loops :: "('y ast_scheme, nat \<Rightarrow> addr) prog" where "loops = bnd (for_each [0..<N_ALLOC div 2] alloc_turn arr) (\<lambda>vma. bnd (for_each [0..<N_ALLOC div 4] free_turn vma) (\<lambda>vma.
     bnd (for_each [N_ALLOC div 2..<N_ALLOC] alloc_turn vma) (for_each [N_ALLOC div 4..<N_ALLOC] free_turn)))"
  have "booted ?s" using assms(1) t(2) by (simp add: booted_def os_contract_def)
  moreover have "supplied N_ALLOC ?s" using assms(2) by (simp add: supplied_def)
  ultimately have "held {} arr ?s" using assms(4) by (intro booted_held) simp_all
  then obtain f and s2 :: "'y ast_scheme" where r: "loops ?s = Inr (f, s2)" "held {} f s2"
    using long_run unfolding loops_def by blast
  have s2: "\<not> openmp s2" "pinv s2" "live s2 = {}" using r(2) by (simp_all add: held_def)
  have gf: "vma_gpool_free s2 = Inr ((), s2)"
    using s2(1) by (simp add: vma_gpool_free_def gp_with_lock_def get_gp_def upd_gp_def liftE_def lock_free_def bnd_def)
  have "vma_alloc_test_main p arr s = bnd loops (\<lambda>_. bnd vma_gpool_free (\<lambda>_. ret 0)) ?s"
    unfolding vma_alloc_test_main_def bnd_Inr [where m = vma_gpool_init, OF i] bnd_Inr [where m = alloc_tests, OF t(1)]
    using assms(3) by (simp add: loops_def bnd_assoc bnd_def [of "assertion True"])
  also have "\<dots> = Inr (0, s2)" unfolding bnd_Inr [where m = loops, OF r(1)] using gf by (simp add: bnd_Inr)
  finally show ?thesis using s2 no_areas_no_superblocks [OF s2(2,3)] by simp
qed

theorem allocator_test_outcome_witness:
  "\<exists>s'. vma_alloc_test_main 0x5000 (\<lambda>_. NULL) (spacious N_ALLOC False) = Inr (0, s') \<and> superblocks s' = Map.empty"
proof -
  have n: "N_ALLOC \<le> 2 ^ 40" by (simp add: N_ALLOC_def)
  have "\<not> openmp (spacious N_ALLOC False)" by (simp add: spacious_def boot_def)
  then show ?thesis using allocator_test_outcome [where s = "spacious N_ALLOC False" and p = "0x5000" and arr = "\<lambda>_. NULL", OF spacious_booted [OF n] spacious_supplied [OF n]] by auto
qed

end
