(* ===== verification/Spec2Isabelle.thy ===== *)
theory Spec2Isabelle
  imports Fault_Claims Mm Aio Micro_Main Sbma_Claims Table_Test_Run Alloc_Test_Run
begin

text \<open>
  A verification development for OpenOOC, a C library for out-of-core computations, and for the programs in its
  repository. All paths are under \<open>src/\<close>.

  \<^bold>\<open>The program.\<close> \<open>ooc_malloc\<close> (\<open>src/malloc.c\<close>) maps memory and enters it as an area into a page table, a splay tree whose
  nodes are also a doubly linked list in address order (\<open>src/sp_tree.c\<close>). The nodes that the table makes itself come from
  an allocator with superblocks, blocks and one pool per thread (\<open>src/vma_alloc.c\<close>). A kernel is run by \<open>ooc_sched\<close>
  (\<open>src/sched.c\<close>) on a fiber of its own; its accesses to protected pages fault, and the handler looks the area up, raises the
  protection of the page and lets the kernel go on. \<open>src/aio.c\<close> wraps asynchronous input and output. \<open>apps/mm.c\<close> multiplies
  matrices over the library; \<open>bench/micro.c\<close> is a benchmark that uses plain memory (\<open>bench/impl/libc.c\<close>) or a fault
  handler of its own (\<open>bench/impl/sbma.c\<close>), with a file for its array (\<open>bench/impl/io.c\<close>).

  \<^bold>\<open>How C is modelled\<close> (theory \<open>Prelude\<close>). Pointers and integers of the LP64 platform are words of their width, so that all
  arithmetic wraps as in the code. A statement is a function from a state to an error or to a value and a state; failed
  assertions, NULL and stray pointers, misuse of locks, self-deadlock, endless loops, division by zero and unhandled faults
  are values of the type \<open>error\<close>. A counted loop is \<open>for_each\<close> over the list of its indices. A loop without a bound is
  \<open>forever\<close>, built on \<open>partial_function (option)\<close>: there is no fuel, and a loop that never ends is the error \<open>Diverges\<close>; that
  the loops of the program do end is part of every statement of the form \<open>f s = Inr (x, s')\<close>. Structures are records,
  and the state of each file extends the state of the files it builds on.

  \<^bold>\<open>What is a parameter.\<close> The operating system: the addresses that \<open>mmap\<close> answers, the values of the calls that only
  succeed or fail, the descriptors and byte counts of file transfers, the answers of the asynchronous interface, \<open>rand\<close>.
  They are functions in the state, indexed by the number of the call, so that theorems hold for all choices that their
  hypotheses admit. So are the code of a kernel in \<open>sched.c\<close> (a list of loads and stores) and the operations of type
  \<open>double\<close> in \<open>mm.c\<close>; no law of them is assumed, except where a theorem writes a row as a sum over a semiring. \<open>_OPENMP\<close> and the
  \<open>USE_\<close> symbols are fields of the state: theorems hold for all builds unless they name one.

  \<^bold>\<open>Limits of the model.\<close> Memory is typed: areas, blocks, superblocks, bytes and doubles are objects of their own, and a pointer to the
  wrong kind of object is the error \<open>BadPtr\<close>. The code, which works on bytes, would go on: so where \<open>ooc_free\<close> hands a record that
  \<open>mmap\<close> gave to \<open>vma_free\<close>, the model ends and says nothing about what follows. Setting, unsetting or destroying a lock that is not in the state that
  OpenMP asks for is the error \<open>BadLock\<close>: the specification of OpenMP leaves it undefined, and GNU libgomp tolerates it. Theorems that end in
  \<open>BadLock\<close> state that this misuse is reached, not that a given library stops there.
\<close>

text \<open>
  \<^bold>\<open>The theories.\<close>
  \<^item> \<open>Common\<close>: \<open>common.h\<close>, that is locks in both builds (locale \<open>mutex\<close>, interpreted for each build), \<open>struct vm_area\<close>,
    \<open>struct sp_tree\<close>.
  \<^item> \<open>Sp_Tree\<close>, \<open>Sp_Tree_Mod\<close>: every function and macro of \<open>sp_tree.c\<close>, on areas in memory.
    \<open>Splay_Abs\<close> is top-down splaying as a function on trees, with its own theorems; \<open>Tree_Heap\<close>, \<open>Area_List\<close> and \<open>Page_Table\<close>
    say that memory holds a tree and a list; \<open>Splay_Correct\<close> proves that \<open>S_sp_tree_splay\<close> is the abstract function;
    \<open>Table_Ops\<close> gives the result of insert, remove, find and free, the last ones inside the locale \<open>vma_pool\<close>, which states
    what the table asks of its allocator; \<open>Find_Mod\<close> and \<open>Fault_Claims\<close> treat \<open>sp_tree_find_mod_and_lock\<close>, whose
    splitting and merging branches lose areas (evaluated on small tables).
  \<^item> \<open>Vma_Alloc\<close>: every function of \<open>vma_alloc.c\<close>. \<open>Alloc_Layout\<close>, \<open>Alloc_Exec\<close> and \<open>Alloc_Inv\<close> hold its invariant; \<open>Alloc_Setup\<close>,
    \<open>Alloc_System\<close>, \<open>Alloc_Take\<close>, \<open>Alloc_Steal\<close> and \<open>Alloc_Correct\<close> prove \<open>vma_alloc\<close>, and \<open>Alloc_Put\<close>, \<open>Alloc_Release\<close> and
    \<open>Alloc_Free\<close> prove \<open>vma_free\<close>; \<open>Alloc_Pool\<close> interprets \<open>vma_pool\<close> with them.
  \<^item> \<open>Alloc_Trace\<close>, \<open>Table_Trace\<close>, \<open>Ooc_Trace\<close>: the allocator, the table over the allocator, and the library as transition
    systems (\<open>astep\<close>, \<open>tstep\<close>, \<open>ostep\<close>) with their reachable states, on which the properties of sequences of calls rest. The
    abstract specification of the table is \<open>spec_step\<close>, a map from areas to intervals.
  \<^item> \<open>Vm_Sys\<close>, \<open>Malloc\<close>, \<open>Malloc_Correct\<close>: pages and their protection, \<open>ooc_malloc\<close> and \<open>ooc_free\<close>.
    \<open>Sched\<close>, \<open>Page_Fault\<close>, \<open>Sched_Correct\<close>: fibers, the fault handler, the run of a kernel. \<open>Table_Claims\<close> and \<open>Memory_Claims\<close>
    hold the properties of single operations, error paths included.
  \<^item> \<open>Mm\<close>: \<open>apps/mm.c\<close> with the macros of \<open>include/ooc.h\<close>. \<open>Aio\<close>: \<open>aio.c\<close> with and without \<open>WITH_NATIVE_AIO\<close>.
  \<^item> \<open>Bench_Sys\<close> (\<open>impl.h\<close> and system calls on bytes and files), \<open>Bench_Io\<close> (\<open>io.c\<close>), \<open>Bench_Array\<close> (arrays of \<open>unsigned\<close> in
    memory), \<open>Bench_Libc\<close> (\<open>libc.c\<close>), \<open>Micro\<close> (\<open>micro.c\<close>). \<open>Micro_Steps\<close>, \<open>Micro_Correct\<close> and \<open>Micro_Claims\<close> prove the passes over
    the array, \<open>Micro_Run\<close> and \<open>Micro_Main\<close> the whole program with \<open>libc.c\<close>; the functions of \<open>sbma.c\<close> are not composed with it.
  \<^item> \<open>Table_Test\<close>, \<open>Table_Test_Run\<close>: the unit tests of \<open>sp_tree.c\<close>, the small ones evaluated, the long one proved over the allocator.
    \<open>Alloc_Test\<close>, \<open>Alloc_Test_Run\<close>: the unit tests of \<open>vma_alloc.c\<close>. \<open>Alloc_Supply\<close> says what system grants enough memory for them.
  \<^item> \<open>Bench_Sbma\<close> (\<open>sbma.c\<close>), \<open>Sbma_Pages\<close> (its flags and protections, and the automaton of a page), \<open>Sbma_Claims\<close> (runs).
\<close>

text \<open>
  \<^bold>\<open>What is shown.\<close> The page table is a search tree and an ordered list in every reachable state, its operations are
  steps of a map of intervals, and splaying ends and equals the functional version. The allocator gives out areas that
  overlap nothing in use, takes each back, and holds no superblock without an area in use; where it unsets a
  lock twice, this is proved as its outcome. \<open>ooc_malloc\<close> returns readable, unwritable memory and undoes its work when it fails;
  kernels over allocated memory complete; a writable page is dirty; the handler is installed once and restored. The matrix
  program computes the product up to its first \<open>ooc_free\<close>. The benchmark with \<open>libc.c\<close> ends with status 0 in the builds
  that \<open>good_build\<close> describes, but for those for which the theorem gives another outcome, and the lazy fault handler of \<open>sbma.c\<close> opens each page
  as the accesses ask, counting the pages touched and written. The unit tests of the table and of the allocator pass
  without OpenMP and give all memory back. With OpenMP they reach an unset of a lock that is not set, or the lock of a block that was never
  set up. Errors of the code that the proofs met are theorems
  about the code as it is.

  \<^bold>\<open>What is not modelled.\<close>
  \<^item> Threads that run at the same time: calls are atomic and interleave as wholes (\<open>Thread\<close> in \<open>astep\<close>), so a lock that is held when
    it is asked for is a deadlock.
  \<^item> The start of the library: reachable states begin after \<open>vma_gpool_init\<close>, which no file of the library calls.
  \<^item> Registers and stacks of fibers: a context is what a switch to it does, and the stacks of 10 fibers are taken to be large enough.
  \<^item> The unit test at the end of \<open>sched.c\<close>, which removes records that \<open>mmap\<close> gave (see the limits above); those of \<open>malloc.c\<close> and \<open>aio.c\<close>
    are empty.
  \<^item> \<open>old/sched-old.c\<close>, which is not built and does not compile against the present headers, and \<open>src/tmp.c\<close>, preprocessor
    experiments that nothing includes.
  \<^item> The clock and the report on standard error in \<open>micro.c\<close> (except for the difference of two times), debugging output, the
    build files and documents.
\<close>

text \<open>C1: in a well-formed table whose ranges are disjoint, \<open>sp_tree_find_and_lock\<close>
  returns the one area that covers the address, locked; the tree is the splayed tree and nothing but
  links and that lock changes.\<close>

theorem find_returns_covering_area:
  assumes "tab s T" and "ranges (vmas s) (inorder T)" and "a \<in> set_tree T" and "covers (vmas s) a x"
    and "lock_idle (openmp s) (lock_of (vmas s) a)"
  shows "\<exists>h r. sp_tree_find_and_lock x s = Inr (a, wst s h r (lock (vma_tree s))) \<and>
     wf_tab h r (splay (start_of (vmas s)) x T) \<and>
     kept (hupd a (\<lambda>v. v\<lparr>vm_lock := got (openmp s) (lock_of (vmas s) a)\<rparr>) (vmas s)) (set_tree T) h"
  using assms by (rule sp_tree_find_correct)

theorem find_returns_covering_area_witness:
  "\<exists>h r. sp_tree_find_and_lock 0x6000 three_areas = Inr (0x30, wst three_areas h r Unlocked)"
  using find_returns_covering_area [OF three_tab three_ranges, of "0x30" "0x6000"]
  by (auto simp: sample_defs covers_def lock_idle_def)

end
